(* ===== verification/Prelude.thy ===== *)
theory Prelude
  imports Main "HOL-Library.Word"
begin

unbundle bit_operations_syntax

text \<open>
  Shared ground of the development.  It fixes the machine integer types of the kernel, the result
  type of operations that may stop the machine, the packed bit fields of the C++ structures
  (\<open>uint64_t present : 1\<close> and the like), little-endian byte memory, and the generic lemmas on
  lists, words and bit fields that the component theories use.
\<close>

section \<open>Machine integers\<close>

type_synonym u8 = "8 word"
type_synonym u16 = "16 word"
type_synonym u32 = "32 word"
type_synonym u64 = "64 word"

named_theorems res_simps \<open>evaluation of operations that may halt\<close>
named_theorems field_simp \<open>reading bit fields after writing them\<close>

lemma unat_u64: "unat (w :: u64) < 2 ^ 64"
  using unsigned_less[of w] by simp

lemma unat_of_nat_u64: "n < 2 ^ 64 \<Longrightarrow> unat (of_nat n :: u64) = n"
  by (simp add: unat_of_nat take_bit_nat_eq_self)

lemma word_cong_unat: "(a :: 'a::len word) = b \<longleftrightarrow> unat a = unat b"
  by (simp add: word_unat_eq_iff)

lemma unat_add_u64: "unat a + unat b < 2 ^ 64 \<Longrightarrow> unat (a + b :: u64) = unat a + unat b"
  by (simp add: unat_word_ariths)

lemma unat_mult_u64: "unat a * unat b < 2 ^ 64 \<Longrightarrow> unat (a * b :: u64) = unat a * unat b"
  by (simp add: unat_word_ariths)

lemma unat_diff_u64: "b \<le> a \<Longrightarrow> unat (a - b :: u64) = unat a - unat b"
  by (simp add: unat_sub)

lemma unat_le_iff: "(a :: 'a::len word) \<le> b \<longleftrightarrow> unat a \<le> unat b"
  by (simp add: word_le_nat_alt)

lemma unat_less_iff: "(a :: 'a::len word) < b \<longleftrightarrow> unat a < unat b"
  by (simp add: word_less_nat_alt)

lemma word_eq_of_nat: "unat (a :: 'a::len word) = n \<Longrightarrow> a = of_nat n"
  by auto

section \<open>Operations that may stop the machine\<close>

text \<open>
  \<open>Panic m\<close> is a call of \<open>panic(m)\<close>, which never returns.  \<open>Undef\<close> is an access that C++ leaves
  undefined: a null pointer, an index outside an array, an empty \<open>optional\<close> read without a check.
\<close>

datatype halt = Panic string | Undef

type_synonym 'a res = "halt + 'a"

abbreviation Ret :: "'a \<Rightarrow> 'a res" where "Ret \<equiv> Inr"
abbreviation Stop :: "halt \<Rightarrow> 'a res" where "Stop \<equiv> Inl"

definition bindr :: "'a res \<Rightarrow> ('a \<Rightarrow> 'b res) \<Rightarrow> 'b res" where
  "bindr r f = (case r of Inl h \<Rightarrow> Inl h | Inr x \<Rightarrow> f x)"

lemma bindr_Ret [simp, res_simps]: "bindr (Ret x) f = f x"
  by (simp add: bindr_def)

lemma bindr_Stop [simp, res_simps]: "bindr (Stop h) f = Stop h"
  by (simp add: bindr_def)

lemma bindr_eq_Ret: "bindr r f = Ret y \<longleftrightarrow> (\<exists>x. r = Ret x \<and> f x = Ret y)"
  by (cases r) auto

lemma bindr_RetE:
  assumes "bindr r f = Ret y"
  obtains x where "r = Ret x" and "f x = Ret y"
  using assms by (auto simp: bindr_eq_Ret)

text \<open>\<open>optional::value_or_panic\<close>, and the unchecked \<open>optional::value\<close>.\<close>

definition or_panic :: "string \<Rightarrow> 'a option \<Rightarrow> 'a res" where
  "or_panic msg x = (case x of None \<Rightarrow> Stop (Panic msg) | Some v \<Rightarrow> Ret v)"

definition or_undef :: "'a option \<Rightarrow> 'a res" where
  "or_undef x = (case x of None \<Rightarrow> Stop Undef | Some v \<Rightarrow> Ret v)"

lemma or_panic_simps [simp, res_simps]:
  "or_panic m None = Stop (Panic m)"
  "or_panic m (Some x) = Ret x"
  by (simp_all add: or_panic_def)

lemma or_undef_simps [simp, res_simps]:
  "or_undef None = Stop Undef"
  "or_undef (Some x) = Ret x"
  by (simp_all add: or_undef_def)

lemma or_panic_eq_Ret [simp]: "or_panic m x = Ret v \<longleftrightarrow> x = Some v"
  by (cases x) auto

lemma or_undef_eq_Ret [simp]: "or_undef x = Ret v \<longleftrightarrow> x = Some v"
  by (cases x) auto

text \<open>Operations that may also not return: \<open>None\<close> is divergence.\<close>

definition bindo :: "'a res option \<Rightarrow> ('a \<Rightarrow> 'b res option) \<Rightarrow> 'b res option" where
  "bindo m f = Option.bind m (\<lambda>r. case r of Inl h \<Rightarrow> Some (Inl h) | Inr x \<Rightarrow> f x)"

lemma bindo_simps [simp, res_simps]:
  "bindo None f = None" "bindo (Some (Stop h)) f = Some (Stop h)" "bindo (Some (Ret x)) f = f x"
  by (simp_all add: bindo_def)

lemma bindo_eq_Ret: "bindo m f = Some (Ret y) \<longleftrightarrow> (\<exists>x. m = Some (Ret x) \<and> f x = Some (Ret y))"
  by (cases m; cases "the m") auto

lemma bindo_assoc: "bindo (bindo m f) g = bindo m (\<lambda>x. bindo (f x) g)"
  by (cases m; cases "the m") auto

section \<open>Bit fields\<close>

text \<open>
  A field of \<open>n\<close> bits from bit \<open>lo\<close> of a storage unit, in the layout of the target
  (x86-64, GCC): the first declared field takes the lowest bits.  Writing truncates the value to
  the field's width, as an assignment to a bit field does.
\<close>

definition fld :: "nat \<Rightarrow> nat \<Rightarrow> 'a::len word \<Rightarrow> 'a word" where
  "fld lo n w = take_bit n (drop_bit lo w)"

definition set_fld :: "nat \<Rightarrow> nat \<Rightarrow> 'a::len word \<Rightarrow> 'a word \<Rightarrow> 'a word" where
  "set_fld lo n v w = (w AND NOT (push_bit lo (mask n))) OR push_bit lo (take_bit n v)"

lemma bit_fld: "bit (fld lo n w) k \<longleftrightarrow> k < n \<and> bit w (lo + k)"
  for w :: "'a::len word"
  by (auto simp: fld_def bit_take_bit_iff bit_drop_bit_eq)

lemma bit_set_fld:
  "bit (set_fld lo n v w) k \<longleftrightarrow>
     k < LENGTH('a) \<and> (if lo \<le> k \<and> k < lo + n then bit v (k - lo) else bit w k)"
  for w :: "'a::len word"
  by (auto simp: set_fld_def bit_simps)

lemma fld_set_fld_same [field_simp]:
  assumes "lo + n \<le> LENGTH('a)"
  shows "fld lo n (set_fld lo n v w) = take_bit n (v :: 'a::len word)"
  using assms by (intro bit_word_eqI) (auto simp: bit_fld bit_set_fld bit_take_bit_iff)

lemma fld_set_fld_other [field_simp]:
  assumes "lo + n \<le> lo' \<or> lo' + n' \<le> lo"
  shows "fld lo n (set_fld lo' n' v w) = fld lo n (w :: 'a::len word)"
  using assms by (intro bit_word_eqI) (auto simp: bit_fld bit_set_fld dest: bit_imp_le_length)

lemma set_fld_idem [field_simp]: "set_fld lo n (fld lo n w) w = (w :: 'a::len word)"
  by (intro bit_word_eqI) (auto simp: bit_fld bit_set_fld)

lemma fld_less: "n < LENGTH('a) \<Longrightarrow> unat (fld lo n (w :: 'a::len word)) < 2 ^ n"
  by (simp add: fld_def unsigned_take_bit_eq take_bit_nat_less_exp)

lemma unat_fld: "unat (fld lo n w) = unat (w :: 'a::len word) div 2 ^ lo mod 2 ^ n"
proof -
  have "unat (fld lo n w) = take_bit n (unat (drop_bit lo w))"
    unfolding fld_def by (simp only: unsigned_take_bit_eq)
  also have "unat (drop_bit lo w) = drop_bit lo (unat w)" by (simp only: unat_drop_bit_eq)
  finally show ?thesis by (simp add: take_bit_eq_mod drop_bit_eq_div)
qed

lemma fld_take_bit [simp]: "take_bit n (fld lo n w) = fld lo n w"
  by (simp add: fld_def)

lemma fld_0 [simp]: "fld lo n 0 = 0"
  by (simp add: fld_def)

lemma fld_1_eq: "fld lo (Suc 0) w = of_bool (bit (w :: 'a::len word) lo)"
  by (intro bit_word_eqI) (auto simp: bit_fld bit_1_iff)

lemma fld_1_cases: "fld lo (Suc 0) (w :: 'a::len word) = 0 \<or> fld lo (Suc 0) w = 1"
  by (simp add: fld_1_eq)

lemma take_bit_1_word: "take_bit (Suc 0) (w :: 'a::len word) = of_bool (odd w)"
  by (simp add: take_bit_Suc odd_iff_mod_2_eq_one)

section \<open>Byte memory\<close>

text \<open>
  A view of memory by address.  Multi-byte values are little endian, as on the target.
\<close>

type_synonym bytes = "u64 \<Rightarrow> u8"

definition rd16 :: "bytes \<Rightarrow> u64 \<Rightarrow> u16" where
  "rd16 m a = ucast (m a) OR push_bit 8 (ucast (m (a + 1)))"

definition rd32 :: "bytes \<Rightarrow> u64 \<Rightarrow> u32" where
  "rd32 m a = ucast (rd16 m a) OR push_bit 16 (ucast (rd16 m (a + 2)))"

definition rd64 :: "bytes \<Rightarrow> u64 \<Rightarrow> u64" where
  "rd64 m a = ucast (rd32 m a) OR push_bit 32 (ucast (rd32 m (a + 4)))"

definition rd_bytes :: "bytes \<Rightarrow> u64 \<Rightarrow> nat \<Rightarrow> u8 list" where
  "rd_bytes m a n = map (\<lambda>i. m (a + of_nat i)) [0..<n]"

definition wr8 :: "u64 \<Rightarrow> u8 \<Rightarrow> bytes \<Rightarrow> bytes" where
  "wr8 a v m = m(a := v)"

fun wr_bytes :: "u64 \<Rightarrow> u8 list \<Rightarrow> bytes \<Rightarrow> bytes" where
  "wr_bytes a [] m = m"
| "wr_bytes a (b # bs) m = wr_bytes (a + 1) bs (m(a := b))"

definition le_bytes :: "nat \<Rightarrow> 'a::len word \<Rightarrow> u8 list" where
  "le_bytes n w = map (\<lambda>i. ucast (drop_bit (8 * i) w)) [0..<n]"

definition wr32 :: "u64 \<Rightarrow> u32 \<Rightarrow> bytes \<Rightarrow> bytes" where
  "wr32 a v m = wr_bytes a (le_bytes 4 v) m"

lemma length_rd_bytes [simp]: "length (rd_bytes m a n) = n"
  by (simp add: rd_bytes_def)

lemma length_le_bytes [simp]: "length (le_bytes n w) = n"
  by (simp add: le_bytes_def)

lemma nth_rd_bytes [simp]: "i < n \<Longrightarrow> rd_bytes m a n ! i = m (a + of_nat i)"
  by (simp add: rd_bytes_def)

section \<open>Lists\<close>

lemma filter_upt_Suc:
  "filter P [a..<Suc b] = filter P [a..<b] @ (if a \<le> b \<and> P b then [b] else [])"
  by (cases "a \<le> b") auto

text \<open>The position of the first element satisfying \<open>P\<close>, and the list without that element.\<close>

fun index_of :: "('a \<Rightarrow> bool) \<Rightarrow> 'a list \<Rightarrow> nat" where
  "index_of P [] = 0"
| "index_of P (x # xs) = (if P x then 0 else Suc (index_of P xs))"

fun remove_first :: "('a \<Rightarrow> bool) \<Rightarrow> 'a list \<Rightarrow> 'a list" where
  "remove_first P [] = []"
| "remove_first P (x # xs) = (if P x then xs else x # remove_first P xs)"

lemma index_of_less: "index_of P xs < length xs \<longleftrightarrow> (\<exists>x \<in> set xs. P x)"
  by (induction xs) auto

lemma remove_first_index:
  "x \<in> set xs \<Longrightarrow> P x \<Longrightarrow>
     take (index_of P xs) xs @ drop (Suc (index_of P xs)) xs = remove_first P xs"
  by (induction xs) auto

lemma remove_first_id: "\<forall>x \<in> set xs. \<not> P x \<Longrightarrow> remove_first P xs = xs"
  by (induction xs) auto

lemma index_of_append:
  "index_of P (xs @ ys) = (if \<exists>x \<in> set xs. P x then index_of P xs else length xs + index_of P ys)"
  by (induction xs) auto

lemma index_of_none: "\<forall>x \<in> set xs. \<not> P x \<Longrightarrow> index_of P xs = length xs"
  by (induction xs) auto

lemma index_of_nth: "distinct xs \<Longrightarrow> i < length xs \<Longrightarrow> index_of ((=) (xs ! i)) xs = i"
  by (induction xs arbitrary: i) (auto simp: nth_Cons split: nat.splits)

lemma index_of_mem: "x \<in> set xs \<Longrightarrow> xs ! index_of ((=) x) xs = x"
  by (induction xs) auto

lemma index_of_upt: "m \<le> p \<Longrightarrow> p < n \<Longrightarrow> index_of ((=) p) [m..<n] = p - m"
proof (induction "p - m" arbitrary: m)
  case 0
  then show ?case by (simp add: upt_conv_Cons)
next
  case (Suc k)
  then have "m < n" "p \<noteq> m" "Suc m \<le> p" "k = p - Suc m" by auto
  with Suc show ?case by (simp add: upt_conv_Cons)
qed

end
