(* ===== verification/LinkedList.thy ===== *)
theory LinkedList
  imports Prelude
begin

text \<open>
  \<^verbatim>\<open>include/data/linked_list.h\<close>: the kernel's doubly linked list, over an explicit store of nodes.
  The store maps the address of a live node to its contents; \<open>0\<close> is the null pointer.  A read or
  write through an address that holds no live node is \<open>Undef\<close>.  \<open>operator new\<close> is a parameter: an
  operation that allocates takes the address it got.
  The last part states the contract of a sequence container as a locale and interprets it on
  this list.
\<close>

section \<open>Nodes, the list object, iterators\<close>

record 'a lnode =
  elem :: 'a
  nxt :: u64
  prv :: u64

record llist =
  first :: u64
  last_node :: u64
  lsize :: u64

type_synonym 'a lstore = "u64 \<rightharpoonup> 'a lnode"

definition linked_list :: llist where
  "linked_list = \<lparr>first = 0, last_node = 0, lsize = 0\<rparr>"

text \<open>The move constructor: the new object takes the nodes, the old one is left empty.\<close>

definition linked_list_move :: "llist \<Rightarrow> llist \<times> llist" where
  "linked_list_move other =
     (\<lparr>first = first other, last_node = last_node other, lsize = lsize other\<rparr>,
      other\<lparr>first := 0, last_node := 0, lsize := 0\<rparr>)"

definition deref :: "'a lstore \<Rightarrow> u64 \<Rightarrow> 'a lnode res" where
  "deref h p = or_undef (h p)"

text \<open>\<open>iterator\<close>: a node pointer; \<open>begin\<close>, \<open>end\<close>, \<open>++\<close>, \<open>--\<close> and \<open>*\<close>.\<close>

definition ll_begin :: "llist \<Rightarrow> u64" where
  "ll_begin l = first l"

definition ll_end :: "llist \<Rightarrow> u64" where
  "ll_end l = 0"

definition iter_inc :: "'a lstore \<Rightarrow> u64 \<Rightarrow> u64 res" where
  "iter_inc h c = bindr (deref h c) (\<lambda>n. Ret (nxt n))"

definition iter_dec :: "'a lstore \<Rightarrow> u64 \<Rightarrow> u64 res" where
  "iter_dec h c = bindr (deref h c) (\<lambda>n. Ret (prv n))"

definition iter_deref :: "'a lstore \<Rightarrow> u64 \<Rightarrow> 'a res" where
  "iter_deref h c = bindr (deref h c) (\<lambda>n. Ret (elem n))"

text \<open>
  A range-based \<open>for\<close> over the list: the elements it visits, in order.  \<open>None\<close> is a loop that
  does not end.
\<close>

partial_function (option) ll_iterate :: "'a lstore \<Rightarrow> u64 \<Rightarrow> u64 \<Rightarrow> 'a list \<Rightarrow> 'a list res option" where
  "ll_iterate h it stop acc =
     (if it = stop then Some (Ret (rev acc))
      else case iter_deref h it of
          Inl e \<Rightarrow> Some (Inl e)
        | Inr x \<Rightarrow> (case iter_inc h it of
              Inl e \<Rightarrow> Some (Inl e)
            | Inr it' \<Rightarrow> ll_iterate h it' stop (x # acc)))"

section \<open>Operations\<close>

fun ll_walk :: "'a lstore \<Rightarrow> u64 \<Rightarrow> nat \<Rightarrow> u64 res" where
  "ll_walk h c 0 = Ret c"
| "ll_walk h c (Suc n) = bindr (deref h c) (\<lambda>nd. ll_walk h (nxt nd) n)"

definition find_node :: "u64 \<Rightarrow> 'a lstore \<times> llist \<Rightarrow> u64 option res" where
  "find_node index = (\<lambda>(h, l).
     if index \<ge> lsize l then Ret None
     else bindr (ll_walk h (first l) (unat index)) (\<lambda>c. Ret (Some c)))"

definition ll_at :: "u64 \<Rightarrow> 'a lstore \<times> llist \<Rightarrow> 'a res" where
  "ll_at index = (\<lambda>(h, l).
     bindr (find_node index (h, l)) (\<lambda>r.
     bindr (or_panic ''linked_list::operator[]: index out of bounds'' r) (\<lambda>p.
     bindr (deref h p) (\<lambda>nd. Ret (elem nd)))))"

definition push_back :: "u64 \<Rightarrow> 'a \<Rightarrow> 'a lstore \<times> llist \<Rightarrow> ('a lstore \<times> llist) res" where
  "push_back node e = (\<lambda>(h, l).
     let h1 = h(node \<mapsto> \<lparr>elem = e, nxt = 0, prv = last_node l\<rparr>) in
     bindr (if last_node l \<noteq> 0
            then bindr (deref h1 (last_node l))
                   (\<lambda>nd. Ret (h1(last_node l \<mapsto> nd\<lparr>nxt := node\<rparr>)))
            else Ret h1) (\<lambda>h2.
     let l1 = l\<lparr>last_node := node\<rparr>;
         l2 = (if first l1 = 0 then l1\<lparr>first := node\<rparr> else l1)
     in Ret (h2, l2\<lparr>lsize := lsize l2 + 1\<rparr>)))"

text \<open>The two halves of unlinking a node in \<open>remove\<close>: its predecessor, then its successor.\<close>

definition unlink_prev :: "'a lnode \<Rightarrow> 'a lstore \<times> llist \<Rightarrow> ('a lstore \<times> llist) res" where
  "unlink_prev nd = (\<lambda>(h, l).
     if prv nd \<noteq> 0
     then bindr (deref h (prv nd)) (\<lambda>q. Ret (h(prv nd \<mapsto> q\<lparr>nxt := nxt nd\<rparr>), l))
     else Ret (h, l\<lparr>first := nxt nd\<rparr>))"

definition unlink_next :: "'a lnode \<Rightarrow> 'a lstore \<times> llist \<Rightarrow> ('a lstore \<times> llist) res" where
  "unlink_next nd = (\<lambda>(h, l).
     if nxt nd \<noteq> 0
     then bindr (deref h (nxt nd)) (\<lambda>q. Ret (h(nxt nd \<mapsto> q\<lparr>prv := prv nd\<rparr>), l))
     else Ret (h, l\<lparr>last_node := prv nd\<rparr>))"

definition ll_remove :: "u64 \<Rightarrow> 'a lstore \<times> llist \<Rightarrow> ('a lstore \<times> llist) res" where
  "ll_remove index s =
    (if lsize (snd s) = 1 \<and> index = 0
     then Ret ((fst s)(first (snd s) := None), (snd s)\<lparr>first := 0, last_node := 0, lsize := 0\<rparr>)
     else
       bindr (find_node index s) (\<lambda>r.
       bindr (or_panic ''linked_list::remove: index out of bounds'' r) (\<lambda>node.
       bindr (deref (fst s) node) (\<lambda>nd.
       bindr (unlink_prev nd s) (\<lambda>s1.
       bindr (unlink_next nd s1) (\<lambda>(h2, l2).
       Ret (h2(node := None), l2\<lparr>lsize := lsize l2 - 1\<rparr>)))))))"

definition pop_back :: "'a lstore \<times> llist \<Rightarrow> ('a lstore \<times> llist) res" where
  "pop_back s = ll_remove (lsize (snd s) - 1) s"

text \<open>The loop of \<open>clear\<close> and of the destructor.\<close>

partial_function (option) delete_nodes :: "'a lstore \<Rightarrow> u64 \<Rightarrow> 'a lstore res option" where
  "delete_nodes h p =
     (if p = 0 then Some (Ret h)
      else case deref h p of
          Inl e \<Rightarrow> Some (Inl e)
        | Inr nd \<Rightarrow> delete_nodes (h(p := None)) (nxt nd))"

definition ll_clear :: "'a lstore \<times> llist \<Rightarrow> ('a lstore \<times> llist) res option" where
  "ll_clear = (\<lambda>(h, l). map_option (\<lambda>r. bindr r (\<lambda>h'.
     Ret (h', l\<lparr>first := 0, last_node := 0, lsize := 0\<rparr>))) (delete_nodes h (first l)))"

section \<open>The lists a store represents\<close>

text \<open>
  \<open>chain h b ps a xs\<close>: from \<open>hd ps\<close> on, the store holds nodes at the addresses \<open>ps\<close> with the
  elements \<open>xs\<close>, linked forwards and backwards; \<open>b\<close> is the address before the first node and \<open>a\<close> the one
  after the last.
\<close>

fun chain :: "'a lstore \<Rightarrow> u64 \<Rightarrow> u64 list \<Rightarrow> u64 \<Rightarrow> 'a list \<Rightarrow> bool" where
  "chain h b [] a [] \<longleftrightarrow> True"
| "chain h b (p # ps) a (x # xs) \<longleftrightarrow>
     h p = Some \<lparr>elem = x, nxt = (case ps of [] \<Rightarrow> a | q # _ \<Rightarrow> q), prv = b\<rparr> \<and> chain h p ps a xs"
| "chain h b _ a _ \<longleftrightarrow> False"

definition hd_or :: "u64 \<Rightarrow> u64 list \<Rightarrow> u64" where
  "hd_or a ps = (case ps of [] \<Rightarrow> a | p # _ \<Rightarrow> p)"

definition last_or :: "u64 \<Rightarrow> u64 list \<Rightarrow> u64" where
  "last_or b ps = (if ps = [] then b else last ps)"

definition ll_rep :: "'a lstore \<times> llist \<Rightarrow> u64 list \<Rightarrow> 'a list \<Rightarrow> bool" where
  "ll_rep = (\<lambda>(h, l) ps xs.
     chain h 0 ps 0 xs \<and> distinct ps \<and> 0 \<notin> set ps \<and>
     first l = hd_or 0 ps \<and> last_node l = last_or 0 ps \<and> lsize l = of_nat (length xs))"

definition ll_abs :: "'a lstore \<times> llist \<Rightarrow> 'a list \<Rightarrow> bool" where
  "ll_abs s xs \<longleftrightarrow> (\<exists>ps. ll_rep s ps xs)"

text \<open>An address \<open>operator new\<close> may return: neither null nor in use.\<close>

definition ll_fresh :: "u64 \<Rightarrow> 'a lstore \<times> llist \<Rightarrow> bool" where
  "ll_fresh p s \<longleftrightarrow> p \<noteq> 0 \<and> fst s p = None"

lemma hd_or_simps [simp]: "hd_or a [] = a" "hd_or a (p # ps) = p"
  by (simp_all add: hd_or_def)

lemma last_or_simps [simp]: "last_or b [] = b" "last_or b (p # ps) = last_or p ps"
  "last_or b (ps @ [p]) = p"
  by (auto simp: last_or_def)

lemma last_or_append [simp]: "last_or b (ps @ qs) = last_or (last_or b ps) qs"
  by (auto simp: last_or_def)

lemma hd_or_append [simp]: "hd_or a (ps @ qs) = hd_or (hd_or a qs) ps"
  by (cases ps) auto

lemma chain_Cons: "chain h b (p # ps) a (x # xs) \<longleftrightarrow>
    h p = Some \<lparr>elem = x, nxt = hd_or a ps, prv = b\<rparr> \<and> chain h p ps a xs"
  by (simp add: hd_or_def)

lemma chain_length: "chain h b ps a xs \<Longrightarrow> length ps = length xs"
  by (induction h b ps a xs rule: chain.induct) auto

lemma chain_append: "length ps = length xs \<Longrightarrow>
    chain h b (ps @ qs) a (xs @ ys) \<longleftrightarrow>
      chain h b ps (hd_or a qs) xs \<and> chain h (last_or b ps) qs a ys"
  by (induction ps xs arbitrary: b rule: list_induct2) (auto simp: chain_Cons simp del: chain.simps(2))

lemma chain_upd: "p \<notin> set ps \<Longrightarrow> chain (h(p := v)) b ps a xs \<longleftrightarrow> chain h b ps a xs"
  by (induction h b ps a xs rule: chain.induct) auto

lemma chain_dom: "chain h b ps a xs \<Longrightarrow> set ps \<subseteq> dom h"
  by (induction h b ps a xs rule: chain.induct) auto

lemma chain_bound:
  assumes "chain h b ps a xs" "distinct ps" "0 \<notin> set ps"
  shows "length xs < 2 ^ 64"
proof -
  have "card (set ps) \<le> card (UNIV - {0 :: u64})"
    using assms(3) by (intro card_mono) auto
  also have "\<dots> = 2 ^ 64 - 1"
    by (simp add: card_word)
  finally show ?thesis
    using chain_length[OF assms(1)] distinct_card[OF assms(2)] by simp
qed

lemma ll_rep_size:
  assumes "ll_rep s ps xs"
  shows "unat (lsize (snd s)) = length xs" "length xs < 2 ^ 64"
proof -
  show "length xs < 2 ^ 64"
    using assms chain_bound by (auto simp: ll_rep_def split: prod.splits)
  then show "unat (lsize (snd s)) = length xs"
    using assms by (auto simp: ll_rep_def unat_of_nat take_bit_nat_eq_self split: prod.splits)
qed

lemma ll_walk_chain:
  "chain h b ps a xs \<Longrightarrow> i < length ps \<Longrightarrow> ll_walk h (hd_or 0 ps) i = Ret (ps ! i)"
proof (induction i arbitrary: b ps xs)
  case 0
  then show ?case by (cases ps) auto
next
  case (Suc i)
  then obtain p ps' x xs' where ps: "ps = p # ps'" "xs = x # xs'"
    by (cases ps; cases xs) auto
  with Suc.prems have "chain h p ps' a xs'" "i < length ps'" "ps' \<noteq> []"
    by auto
  with Suc.IH[of p ps' xs'] ps Suc.prems(1) show ?case
    by (cases ps') (auto simp: deref_def)
qed

lemma find_node_rep:
  assumes "ll_rep s ps xs"
  shows "find_node i s = Ret (if unat i < length xs then Some (ps ! unat i) else None)"
proof -
  obtain h l where s: "s = (h, l)" by (cases s)
  have sz: "unat (lsize l) = length xs" and "length ps = length xs"
    using ll_rep_size[OF assms] chain_length assms by (auto simp: s ll_rep_def)
  moreover have "unat i < length xs \<Longrightarrow> ll_walk h (first l) (unat i) = Ret (ps ! unat i)"
    using assms calculation ll_walk_chain[of h 0 ps 0 xs] by (auto simp: s ll_rep_def)
  ultimately show ?thesis
    by (auto simp: find_node_def s word_le_nat_alt)
qed

section \<open>Each operation against the list it represents\<close>

lemma chain_last:
  assumes "chain h b ps a xs" "ps \<noteq> []"
  shows "\<exists>nd. h (last ps) = Some nd \<and> nxt nd = a"
  using assms by (induction h b ps a xs rule: chain.induct) (auto split: list.splits)

lemma chain_relink_next:
  assumes "chain h b ps a xs" "distinct ps" "ps \<noteq> []" "h (last ps) = Some nd"
  shows "chain (h(last ps \<mapsto> nd\<lparr>nxt := a'\<rparr>)) b ps a' xs"
  using assms
proof (induction h b ps a xs rule: chain.induct)
  case (2 h b p ps a x xs)
  then show ?case
    by (cases ps; cases xs) (auto simp: chain_upd)
qed auto

lemma chain_relink_prev:
  assumes "chain h b (q # qs) a xs" "q \<notin> set qs" "h q = Some nd"
  shows "chain (h(q \<mapsto> nd\<lparr>prv := b'\<rparr>)) b' (q # qs) a xs"
  using assms by (cases xs) (auto simp: chain_upd)

lemma push_back_rep:
  assumes rep: "ll_rep s ps xs" and fr: "ll_fresh p s"
  shows "\<exists>s'. push_back p e s = Ret s' \<and> ll_rep s' (ps @ [p]) (xs @ [e])"
proof -
  obtain h l where s: "s = (h, l)" by (cases s)
  have c: "chain h 0 ps 0 xs" "distinct ps" "0 \<notin> set ps" "first l = hd_or 0 ps"
    "last_node l = last_or 0 ps" "lsize l = of_nat (length xs)" "length ps = length xs"
    using rep chain_length by (auto simp: s ll_rep_def)
  have p: "p \<noteq> 0" "h p = None" "p \<notin> set ps"
    using fr chain_dom[OF c(1)] by (auto simp: ll_fresh_def s)
  show ?thesis
  proof (cases "ps = []")
    case True
    with c p show ?thesis
      by (auto simp: push_back_def s ll_rep_def Let_def)
  next
    case False
    then have l: "last_or 0 ps = last ps" "last ps \<noteq> 0" "last ps \<noteq> p" "hd_or 0 ps \<noteq> 0" "hd_or p ps = hd_or 0 ps"
      using c p by (auto simp: last_or_def hd_or_def split: list.splits) (metis last_in_set)+
    obtain nd where nd: "h (last ps) = Some nd"
      using chain_last[OF c(1) False] by blast
    let ?h1 = "h(p \<mapsto> \<lparr>elem = e, nxt = 0, prv = last ps\<rparr>)"
    let ?h = "?h1(last ps \<mapsto> nd\<lparr>nxt := p\<rparr>)"
    have "chain ?h1 0 ps 0 xs" "?h1 (last ps) = Some nd"
      using c p l nd by (auto simp: chain_upd)
    then have "chain ?h 0 ps p xs"
      using c(2) False chain_relink_next by blast
    moreover have "chain ?h (last ps) [p] 0 [e]"
      using l by simp
    ultimately have "chain ?h 0 (ps @ [p]) 0 (xs @ [e])"
      using c(7) l by (simp add: chain_append)
    then show ?thesis
      using c p l nd by (auto simp: push_back_def s ll_rep_def Let_def deref_def)
  qed
qed


lemma unlink_prev_chain:
  assumes "chain h 0 ps p xs" "distinct ps" "0 \<notin> set ps" "prv nd = last_or 0 ps"
  shows "\<exists>h1. unlink_prev nd (h, l) = Ret (h1, l\<lparr>first := if ps = [] then nxt nd else first l\<rparr>)
     \<and> chain h1 0 ps (nxt nd) xs \<and> (\<forall>q. q \<notin> set ps \<longrightarrow> h1 q = h q) \<and> dom h1 = dom h"
proof (cases "ps = []")
  case True
  with assms show ?thesis by (cases xs) (auto simp: unlink_prev_def)
next
  case False
  then obtain q where q: "h (last ps) = Some q" "last_or 0 ps = last ps" "last ps \<noteq> 0"
    using chain_last[OF assms(1)] assms(3) by (metis last_in_set last_or_def)
  have "chain (h(last ps \<mapsto> q\<lparr>nxt := nxt nd\<rparr>)) 0 ps (nxt nd) xs"
    using assms q False by (intro chain_relink_next) auto
  with q False show ?thesis
    by (auto simp: unlink_prev_def deref_def assms(4))
qed

lemma unlink_next_chain:
  assumes "chain h p ps 0 xs" "distinct ps" "0 \<notin> set ps" "nxt nd = hd_or 0 ps"
  shows "\<exists>h1. unlink_next nd (h, l) = Ret (h1, l\<lparr>last_node := if ps = [] then prv nd else last_node l\<rparr>)
     \<and> chain h1 (prv nd) ps 0 xs \<and> (\<forall>q. q \<notin> set ps \<longrightarrow> h1 q = h q) \<and> dom h1 = dom h"
proof (cases ps)
  case Nil
  with assms show ?thesis by (cases xs) (auto simp: unlink_next_def)
next
  case (Cons q qs)
  then obtain n where n: "h q = Some n" "q \<noteq> 0" "q \<notin> set qs"
    using assms by (cases xs) auto
  then have "chain (h(q \<mapsto> n\<lparr>prv := prv nd\<rparr>)) (prv nd) (q # qs) 0 xs"
    using assms Cons by (intro chain_relink_prev) auto
  with n Cons show ?thesis
    by (auto simp: unlink_next_def deref_def assms(4) simp del: chain.simps(2))
qed

lemma chain_cong: "(\<And>q. q \<in> set ps \<Longrightarrow> h q = h' q) \<Longrightarrow> chain h b ps a xs \<longleftrightarrow> chain h' b ps a xs"
  by (induction h b ps a xs rule: chain.induct) auto

lemma ll_remove_rep:
  assumes rep: "ll_rep s (ps1 @ p # ps2) (xs1 @ x # xs2)" and len: "length ps1 = length xs1"
    and i: "unat i = length xs1"
  shows "\<exists>s'. ll_remove i s = Ret s' \<and> ll_rep s' (ps1 @ ps2) (xs1 @ xs2)
    \<and> dom (fst s') = dom (fst s) - {p}"
proof -
  obtain h l where s: "s = (h, l)" by (cases s)
  have c: "chain h 0 ps1 p xs1" "chain h p ps2 0 xs2"
      "h p = Some \<lparr>elem = x, nxt = hd_or 0 ps2, prv = last_or 0 ps1\<rparr>"
    and d: "distinct ps1" "distinct ps2" "p \<notin> set ps1" "p \<notin> set ps2" "set ps1 \<inter> set ps2 = {}"
      "0 \<notin> set ps1" "0 \<notin> set ps2" "p \<noteq> 0"
    and l: "first l = hd_or p ps1" "last_node l = last_or p ps2"
      "lsize l = of_nat (Suc (length xs1 + length xs2))"
    using rep len by (auto simp: s ll_rep_def chain_append chain_Cons simp del: chain.simps(2))
  have l2: "length ps2 = length xs2" using chain_length c(2) by blast
  note sz = ll_rep_size[OF rep, simplified s, simplified]
  show ?thesis
  proof (cases "lsize l = 1 \<and> i = 0")
    case True
    then have "xs1 = []" "xs2 = []" "ps1 = []" "ps2 = []"
      using i sz len l2 by auto
    with True l d c show ?thesis
      by (auto simp: ll_remove_def s ll_rep_def)
  next
    case False
    let ?nd = "\<lparr>elem = x, nxt = hd_or 0 ps2, prv = last_or 0 ps1\<rparr>"
    obtain h1 where h1: "unlink_prev ?nd (h, l) = Ret (h1, l\<lparr>first := if ps1 = [] then hd_or 0 ps2 else first l\<rparr>)"
        "chain h1 0 ps1 (hd_or 0 ps2) xs1" "\<forall>q. q \<notin> set ps1 \<longrightarrow> h1 q = h q" "dom h1 = dom h"
      using unlink_prev_chain[OF c(1) d(1) d(6), of ?nd l] by auto
    have c2: "chain h1 p ps2 0 xs2"
      using c(2) h1(3) d(5) by (subst chain_cong[of _ _ h]) auto
    let ?l1 = "l\<lparr>first := if ps1 = [] then hd_or 0 ps2 else first l\<rparr>"
    obtain h2 where h2: "unlink_next ?nd (h1, ?l1) = Ret (h2, ?l1\<lparr>last_node := if ps2 = [] then last_or 0 ps1 else last_node ?l1\<rparr>)"
        "chain h2 (last_or 0 ps1) ps2 0 xs2" "\<forall>q. q \<notin> set ps2 \<longrightarrow> h2 q = h1 q" "dom h2 = dom h1"
      using unlink_next_chain[OF c2 d(2) d(7), of ?nd ?l1] by auto
    have c1: "chain h2 0 ps1 (hd_or 0 ps2) xs1"
      using h1(2) h2(3) d(5) by (subst chain_cong[of _ _ h1]) auto
    let ?h = "h2(p := None)"
    have "chain ?h 0 (ps1 @ ps2) 0 (xs1 @ xs2)"
      using c1 h2(2) d len by (simp add: chain_append chain_upd)
    moreover have "find_node i s = Ret (Some p)"
      using find_node_rep[OF rep, of i] i len by (simp add: nth_append)
    moreover have "first ?l1 = hd_or 0 (ps1 @ ps2)"
      using l by (cases ps1) auto
    moreover have "last_or p ps2 = last_or (last_or 0 ps1) ps2 \<or> ps2 = []"
      by (auto simp: last_or_def)
    ultimately show ?thesis
      using False h1 h2 d l c(3) s
      by (auto simp: ll_remove_def ll_rep_def deref_def simp del: chain.simps)
  qed
qed

lemma ll_at_rep:
  assumes "ll_rep s ps xs"
  shows "ll_at i s = (if unat i < length xs then Ret (xs ! unat i)
           else Stop (Panic ''linked_list::operator[]: index out of bounds''))"
proof -
  obtain h l where s: "s = (h, l)" by (cases s)
  have nth: "chain h b ps a xs \<Longrightarrow> j < length xs \<Longrightarrow> \<exists>nd. h (ps ! j) = Some nd \<and> elem nd = xs ! j" for b a j ps
  proof (induction xs arbitrary: b ps j)
    case (Cons x xs)
    then show ?case by (cases ps; cases j) auto
  qed simp
  show ?thesis
    using nth[of 0 ps 0 "unat i"] assms find_node_rep[OF assms, of i]
    by (auto simp: ll_at_def s ll_rep_def deref_def)
qed

lemma ll_remove_oob:
  assumes "ll_rep s ps xs" "length xs \<le> unat i"
  shows "ll_remove i s = Stop (Panic ''linked_list::remove: index out of bounds'')"
proof -
  have "\<not> (lsize (snd s) = 1 \<and> i = 0)"
    using assms ll_rep_size[OF assms(1)] by auto
  then show ?thesis
    using find_node_rep[OF assms(1), of i] assms(2) by (auto simp: ll_remove_def)
qed

lemma delete_nodes_chain:
  "chain h b ps 0 xs \<Longrightarrow> distinct ps \<Longrightarrow> 0 \<notin> set ps \<Longrightarrow>
     delete_nodes h (hd_or 0 ps) = Some (Ret (h |` (- set ps)))"
proof (induction ps arbitrary: h b xs)
  case Nil
  then show ?case by (simp add: delete_nodes.simps)
next
  case (Cons p ps)
  then obtain x xs' where xs: "xs = x # xs'" by (cases xs) auto
  with Cons.prems have hp: "h p = Some \<lparr>elem = x, nxt = hd_or 0 ps, prv = b\<rparr>" "p \<noteq> 0"
    and c: "chain (h(p := None)) p ps 0 xs'"
    using Cons.prems by (auto simp: chain_Cons chain_upd simp del: chain.simps(2))
  have "delete_nodes (h(p := None)) (hd_or 0 ps) = Some (Ret ((h(p := None)) |` (- set ps)))"
    by (rule Cons.IH[OF c]) (use Cons.prems in auto)
  moreover have "(h(p := None)) |` (- set ps) = h |` (- set ps - {p})"
    by (auto simp: restrict_map_def)
  moreover have "- set (p # ps) = - set ps - {p}"
    by auto
  ultimately show ?case
    using hp by (simp only: delete_nodes.simps[of h p] deref_def hd_or_simps) simp
qed

lemma ll_clear_rep:
  assumes "ll_rep s ps xs"
  shows "\<exists>s'. ll_clear s = Some (Ret s') \<and> ll_rep s' [] [] \<and> dom (fst s') = dom (fst s) - set ps"
  using assms delete_nodes_chain[of "fst s" 0 ps xs]
  by (auto simp: ll_clear_def ll_rep_def split: prod.splits)

lemma ll_iterate_chain:
  "chain h b ps 0 xs \<Longrightarrow> 0 \<notin> set ps \<Longrightarrow>
     ll_iterate h (hd_or 0 ps) 0 acc = Some (Ret (rev acc @ xs))"
proof (induction ps arbitrary: b xs acc)
  case Nil
  then show ?case by (cases xs) (auto simp: ll_iterate.simps)
next
  case (Cons p ps)
  then obtain x xs' where xs: "xs = x # xs'" by (cases xs) auto
  with Cons.prems have "h p = Some \<lparr>elem = x, nxt = hd_or 0 ps, prv = b\<rparr>" "p \<noteq> 0" "chain h p ps 0 xs'"
    by (auto simp: chain_Cons simp del: chain.simps(2))
  with Cons show ?case
    by (auto simp: xs ll_iterate.simps[of h p] iter_deref_def iter_inc_def deref_def)
qed

lemma ll_iterate_rep:
  "ll_rep s ps xs \<Longrightarrow> ll_iterate (fst s) (ll_begin (snd s)) (ll_end (snd s)) [] = Some (Ret xs)"
  using ll_iterate_chain[of "fst s" 0 ps xs "[]"]
  by (auto simp: ll_rep_def ll_begin_def ll_end_def split: prod.splits)

section \<open>The contract of a sequence\<close>

text \<open>
  A client's run: appending at addresses the allocator hands out, and removing by index.
  \<open>seq_run\<close> executes it on an implementation, \<open>list_run\<close> on a plain list, where \<open>None\<close> is a panic.
\<close>

datatype 'a seq_op = Push u64 'a | Remove u64

fun seq_run :: "(u64 \<Rightarrow> 'a \<Rightarrow> 's \<Rightarrow> 's res) \<Rightarrow> (u64 \<Rightarrow> 's \<Rightarrow> 's res) \<Rightarrow> 'a seq_op list \<Rightarrow> 's \<Rightarrow> 's res" where
  "seq_run push remove_at [] s = Ret s"
| "seq_run push remove_at (Push p e # ops) s = bindr (push p e s) (seq_run push remove_at ops)"
| "seq_run push remove_at (Remove i # ops) s = bindr (remove_at i s) (seq_run push remove_at ops)"

fun list_run :: "'a seq_op list \<Rightarrow> 'a list \<Rightarrow> 'a list option" where
  "list_run [] xs = Some xs"
| "list_run (Push p e # ops) xs = list_run ops (xs @ [e])"
| "list_run (Remove i # ops) xs =
     (if unat i < length xs then list_run ops (take (unat i) xs @ drop (Suc (unat i)) xs) else None)"

text \<open>Every append of the run gets an address that is fresh at that point.\<close>

fun run_fresh :: "(u64 \<Rightarrow> 'a \<Rightarrow> 's \<Rightarrow> 's res) \<Rightarrow> (u64 \<Rightarrow> 's \<Rightarrow> 's res) \<Rightarrow> (u64 \<Rightarrow> 's \<Rightarrow> bool)
    \<Rightarrow> 'a seq_op list \<Rightarrow> 's \<Rightarrow> bool" where
  "run_fresh push remove_at fresh [] s = True"
| "run_fresh push remove_at fresh (Push p e # ops) s =
     (fresh p s \<and> (case push p e s of Inl _ \<Rightarrow> True | Inr s' \<Rightarrow> run_fresh push remove_at fresh ops s'))"
| "run_fresh push remove_at fresh (Remove i # ops) s =
     (case remove_at i s of Inl _ \<Rightarrow> True | Inr s' \<Rightarrow> run_fresh push remove_at fresh ops s')"

text \<open>
  What the kernel relies on wherever it keeps a \<open>linked_list\<close> of devices, processes, methods or
  memory areas: the operations act on an abstract list.
\<close>

locale sequence =
  fixes push :: "u64 \<Rightarrow> 'a \<Rightarrow> 's \<Rightarrow> 's res"
    and remove_at :: "u64 \<Rightarrow> 's \<Rightarrow> 's res"
    and get_at :: "u64 \<Rightarrow> 's \<Rightarrow> 'a res"
    and len :: "'s \<Rightarrow> u64"
    and abs :: "'s \<Rightarrow> 'a list \<Rightarrow> bool"
    and fresh :: "u64 \<Rightarrow> 's \<Rightarrow> bool"
  assumes push_abs: "abs s xs \<Longrightarrow> fresh p s \<Longrightarrow> \<exists>s'. push p e s = Ret s' \<and> abs s' (xs @ [e])"
    and remove_abs: "abs s xs \<Longrightarrow> unat i < length xs \<Longrightarrow>
          \<exists>s'. remove_at i s = Ret s' \<and> abs s' (take (unat i) xs @ drop (Suc (unat i)) xs)"
    and remove_oob: "abs s xs \<Longrightarrow> length xs \<le> unat i \<Longrightarrow> \<exists>m. remove_at i s = Stop (Panic m)"
    and get_abs: "abs s xs \<Longrightarrow> unat i < length xs \<Longrightarrow> get_at i s = Ret (xs ! unat i)"
    and len_abs: "abs s xs \<Longrightarrow> unat (len s) = length xs"
begin

lemma len_minus_1:
  assumes "abs s xs" "xs \<noteq> []"
  shows "unat (len s - 1) = length xs - 1"
proof -
  have "len s \<noteq> 0"
    using len_abs[OF assms(1)] assms(2) by auto
  then show ?thesis
    using len_abs[OF assms(1)] by (simp add: unat_minus_one)
qed

lemma remove_last:
  assumes "abs s xs" "xs \<noteq> []"
  shows "\<exists>s'. remove_at (len s - 1) s = Ret s' \<and> abs s' (butlast xs)"
  using remove_abs[OF assms(1), of "len s - 1"] len_minus_1[OF assms] assms(2)
  by (simp add: butlast_conv_take)

lemma remove_last_empty:
  assumes "abs s []"
  shows "\<exists>m. remove_at (len s - 1) s = Stop (Panic m)"
  using remove_oob[OF assms] by simp

lemma push_remove_last:
  assumes "abs s xs" "fresh p s"
  shows "\<exists>s1 s2. push p e s = Ret s1 \<and> remove_at (len s1 - 1) s1 = Ret s2 \<and> abs s2 xs"
  using push_abs[OF assms] remove_last by (metis butlast_snoc snoc_eq_iff_butlast)

lemma push_get:
  assumes "abs s xs" "fresh p s" "push p e s = Ret s1"
  shows "get_at (len s) s1 = Ret e" "unat i < length xs \<Longrightarrow> get_at i s1 = get_at i s"
proof -
  have a: "abs s1 (xs @ [e])"
    using push_abs[OF assms(1,2), of e] assms(3) by auto
  show "get_at (len s) s1 = Ret e"
    using get_abs[OF a, of "len s"] len_abs[OF assms(1)] by simp
  show "unat i < length xs \<Longrightarrow> get_at i s1 = get_at i s"
    using get_abs[OF a, of i] get_abs[OF assms(1), of i] by (simp add: nth_append)
qed

lemma run_abs:
  "abs s xs \<Longrightarrow> run_fresh push remove_at fresh ops s \<Longrightarrow>
     (case list_run ops xs of
        None \<Rightarrow> \<exists>m. seq_run push remove_at ops s = Stop (Panic m)
      | Some ys \<Rightarrow> \<exists>s'. seq_run push remove_at ops s = Ret s' \<and> abs s' ys)"
proof (induction ops arbitrary: s xs)
  case Nil
  then show ?case by simp
next
  case (Cons x ops)
  show ?case
  proof (cases x)
    case (Push p e)
    then obtain s' where "push p e s = Ret s'" "abs s' (xs @ [e])"
      using push_abs[of s xs p e] Cons.prems by auto
    with Cons.IH[of s' "xs @ [e]"] Cons.prems Push show ?thesis
      by (simp split: option.splits)
  next
    case (Remove i)
    show ?thesis
    proof (cases "unat i < length xs")
      case True
      then obtain s' where "remove_at i s = Ret s'" "abs s' (take (unat i) xs @ drop (Suc (unat i)) xs)"
        using remove_abs[OF Cons.prems(1), of i] by auto
      with Cons.IH[of s' "take (unat i) xs @ drop (Suc (unat i)) xs"] Cons.prems Remove True
      show ?thesis by (simp split: option.splits)
    next
      case False
      with Cons.prems Remove remove_oob[of s xs i] show ?thesis by auto
    qed
  qed
qed

text \<open>The kernel's search-and-remove: count up to the first match, then \<open>remove(index)\<close>.\<close>

lemma remove_first_match:
  assumes "abs s xs" "x \<in> set xs" "P x"
  shows "\<exists>s'. remove_at (of_nat (index_of P xs)) s = Ret s' \<and> abs s' (remove_first P xs)"
proof -
  have i: "index_of P xs < length xs"
    using assms by (auto simp: index_of_less)
  moreover have "length xs < 2 ^ 64"
    using len_abs[OF assms(1)] unat_u64[of "len s"] by simp
  ultimately have u: "unat (of_nat (index_of P xs) :: u64) = index_of P xs"
    by (simp add: unat_of_nat take_bit_nat_eq_self)
  show ?thesis
    using remove_abs[OF assms(1), of "of_nat (index_of P xs)"] i
    by (simp add: u remove_first_index[where P = P, OF assms(2,3)])
qed

end

interpretation ll: sequence push_back ll_remove ll_at "\<lambda>s. lsize (snd s)" ll_abs ll_fresh
proof unfold_locales
  fix s xs p e
  assume "ll_abs s xs" "ll_fresh p s"
  then show "\<exists>s'. push_back p e s = Ret s' \<and> ll_abs s' (xs @ [e])"
    using push_back_rep by (fastforce simp: ll_abs_def)
next
  fix s :: "'a lstore \<times> llist" and xs and i :: u64
  assume a: "ll_abs s xs" and i: "unat i < length xs"
  then obtain ps where r: "ll_rep s ps xs" by (auto simp: ll_abs_def)
  have l: "length ps = length xs"
    using r chain_length by (auto simp: ll_rep_def split: prod.splits)
  have "ll_rep s (take (unat i) ps @ ps ! unat i # drop (Suc (unat i)) ps)
                 (take (unat i) xs @ xs ! unat i # drop (Suc (unat i)) xs)"
    using r i l by (simp add: id_take_nth_drop[symmetric])
  from ll_remove_rep[OF this, of i] show
    "\<exists>s'. ll_remove i s = Ret s' \<and> ll_abs s' (take (unat i) xs @ drop (Suc (unat i)) xs)"
    using i l by (auto simp: ll_abs_def)
next
  fix s :: "'a lstore \<times> llist" and xs and i :: u64
  assume "ll_abs s xs" "length xs \<le> unat i"
  then show "\<exists>m. ll_remove i s = Stop (Panic m)"
    using ll_remove_oob[of s _ xs i] by (auto simp: ll_abs_def simp del: split_paired_All split_paired_Ex)
next
  fix s :: "'a lstore \<times> llist" and xs and i :: u64
  assume "ll_abs s xs" "unat i < length xs"
  then show "ll_at i s = Ret (xs ! unat i)"
    using ll_at_rep[of s _ xs i] by (auto simp: ll_abs_def)
next
  fix s :: "'a lstore \<times> llist" and xs
  assume "ll_abs s xs"
  then show "unat (lsize (snd s)) = length xs"
    using ll_rep_size[of s _ xs] by (auto simp: ll_abs_def)
qed

lemma linked_list_empty: "ll_rep (h, linked_list) [] []"
  by (simp add: ll_rep_def linked_list_def)

lemma ll_abs_empty: "ll_abs (h, linked_list) []"
  using linked_list_empty by (auto simp: ll_abs_def)

lemma ll_abs_iterate:
  "ll_abs s xs \<Longrightarrow> ll_iterate (fst s) (ll_begin (snd s)) (ll_end (snd s)) [] = Some (Ret xs)"
  using ll_iterate_rep[of s _ xs] by (auto simp: ll_abs_def)

section \<open>Properties\<close>

text \<open>
  C39. Any run of \<open>push_back\<close> and \<open>remove\<close> from an empty list behaves like the run on plain
  sequences: it panics exactly when an index is out of bounds, and otherwise iterating over the
  resulting list visits exactly the elements the sequence has, in order.
\<close>

theorem linked_list_refines_sequence:
  assumes "run_fresh push_back ll_remove ll_fresh ops (h, linked_list)"
  shows "case list_run ops [] of
      None \<Rightarrow> \<exists>m. seq_run push_back ll_remove ops (h, linked_list) = Stop (Panic m)
    | Some ys \<Rightarrow> \<exists>s'. seq_run push_back ll_remove ops (h, linked_list) = Ret s'
        \<and> ll_iterate (fst s') (ll_begin (snd s')) (ll_end (snd s')) [] = Some (Ret ys)
        \<and> (\<forall>i. ll_at i s' = (if unat i < length ys then Ret (ys ! unat i)
             else Stop (Panic ''linked_list::operator[]: index out of bounds'')))"
  using ll.run_abs[OF ll_abs_empty assms] ll_abs_iterate ll_at_rep
  by (fastforce split: option.splits simp: ll_abs_def)

theorem linked_list_refines_sequence_witness:
  "\<exists>s'. seq_run push_back ll_remove [Push 8 (1::nat), Push 16 2, Push 24 3, Remove 1] (Map.empty, linked_list) = Ret s'
     \<and> ll_iterate (fst s') (ll_begin (snd s')) (ll_end (snd s')) [] = Some (Ret [1, 3])"
proof -
  have "run_fresh push_back ll_remove ll_fresh [Push 8 (1::nat), Push 16 2, Push 24 3, Remove 1] (Map.empty, linked_list)"
    by (simp add: push_back_def ll_fresh_def linked_list_def deref_def ll_remove_def find_node_def
        unlink_prev_def unlink_next_def)
  from linked_list_refines_sequence[OF this] show ?thesis by auto
qed

text \<open>
  \<open>pop_back\<close> removes the last element; on an empty list it panics: \<open>size - 1\<close> wraps to the
  largest index, which \<open>find_node\<close> refuses, so no node is touched.
\<close>

theorem pop_back_spec:
  assumes "ll_abs s xs"
  shows "if xs = [] then \<exists>m. pop_back s = Stop (Panic m)
         else \<exists>s'. pop_back s = Ret s' \<and> ll_abs s' (butlast xs)"
  unfolding pop_back_def using assms ll.remove_last[OF assms] ll.remove_last_empty[of s]
  by (cases "xs = []") (simp_all del: split_paired_Ex)

theorem pop_back_spec_witness:
  "\<exists>m. pop_back (Map.empty :: nat lstore, linked_list) = Stop (Panic m)"
  using pop_back_spec[OF ll_abs_empty] by simp

text \<open>
  \<open>clear\<close> terminates, deletes exactly the nodes of the list and nothing else, and leaves
  an empty list.
\<close>

theorem ll_clear_spec:
  assumes "ll_rep s ps xs"
  shows "\<exists>s'. ll_clear s = Some (Ret s') \<and> ll_abs s' [] \<and> dom (fst s') = dom (fst s) - set ps"
  using ll_clear_rep[OF assms] by (auto simp: ll_abs_def)

theorem ll_clear_spec_witness:
  "\<exists>s'. ll_clear ([8 \<mapsto> \<lparr>elem = (1::nat), nxt = 0, prv = 0\<rparr>, 16 \<mapsto> \<lparr>elem = 5, nxt = 0, prv = 0\<rparr>],
       \<lparr>first = 8, last_node = 8, lsize = 1\<rparr>) = Some (Ret s') \<and> dom (fst s') = {16}"
proof -
  have "ll_rep ([8 \<mapsto> \<lparr>elem = (1::nat), nxt = 0, prv = 0\<rparr>, 16 \<mapsto> \<lparr>elem = 5, nxt = 0, prv = 0\<rparr>],
       \<lparr>first = 8, last_node = 8, lsize = 1\<rparr>) [8] [1]"
    by (simp add: ll_rep_def)
  from ll_clear_spec[OF this] show ?thesis by auto
qed

end
