(* ===== verification/SmartPtr.thy ===== *)
theory SmartPtr
  imports Prelude "HOL-Library.Multiset"
begin

text \<open>
  \<^verbatim>\<open>include/features/smart_pointer.h\<close>: \<open>unique_ptr\<close>, \<open>shared_ptr\<close> and \<open>weak_ptr\<close>.
  The store holds the live objects and the live control blocks by address; deleting or reading
  through an address that is not live is \<open>Undef\<close>, and \<open>delete nullptr\<close> does nothing.  Destructors
  of the pointed-to type are not part of this model.
\<close>

section \<open>The store\<close>

record ref_count =
  strong_count :: u64
  weak_count :: u64

record 'a pstore =
  objs :: "u64 \<rightharpoonup> 'a"
  refs :: "u64 \<rightharpoonup> ref_count"

text \<open>A shared or weak pointer: \<open>ptr\<close> and \<open>ref\<close>.\<close>

record handle =
  h_ptr :: u64
  h_ref :: u64

definition null_handle :: handle where
  "null_handle = \<lparr>h_ptr = 0, h_ref = 0\<rparr>"

definition do_delete :: "u64 \<Rightarrow> 'a pstore \<Rightarrow> 'a pstore res" where
  "do_delete p s =
     (if p = 0 then Ret s
      else case objs s p of None \<Rightarrow> Stop Undef | Some _ \<Rightarrow> Ret (s\<lparr>objs := (objs s)(p := None)\<rparr>))"

definition get_ref :: "'a pstore \<Rightarrow> u64 \<Rightarrow> ref_count res" where
  "get_ref s r = (if r = 0 then Stop Undef else or_undef (refs s r))"

definition put_ref :: "u64 \<Rightarrow> ref_count \<Rightarrow> 'a pstore \<Rightarrow> 'a pstore" where
  "put_ref r c s = s\<lparr>refs := (refs s)(r \<mapsto> c)\<rparr>"

definition delete_ref :: "u64 \<Rightarrow> 'a pstore \<Rightarrow> 'a pstore" where
  "delete_ref r s = s\<lparr>refs := (refs s)(r := None)\<rparr>"

section \<open>unique_ptr\<close>

text \<open>A \<open>unique_ptr\<close> is its raw pointer.  Moving leaves null behind.\<close>

definition unique_move :: "u64 \<Rightarrow> u64 \<times> u64" where
  "unique_move other = (other, 0)"

definition unique_destroy :: "u64 \<Rightarrow> 'a pstore \<Rightarrow> 'a pstore res" where
  "unique_destroy this s = do_delete this s"

text \<open>\<open>same\<close> is \<open>this == &other\<close>.  The result is (this, other, store).\<close>

definition unique_move_assign :: "bool \<Rightarrow> u64 \<Rightarrow> u64 \<Rightarrow> 'a pstore \<Rightarrow> (u64 \<times> u64 \<times> 'a pstore) res" where
  "unique_move_assign same this other s =
     (if \<not> same then bindr (do_delete this s) (\<lambda>s'. Ret (other, 0, s')) else Ret (this, other, s))"

definition unique_release :: "u64 \<Rightarrow> u64 \<times> u64" where
  "unique_release this = (let tmp = this in (tmp, 0))"

definition unique_reset :: "u64 \<Rightarrow> u64 \<Rightarrow> 'a pstore \<Rightarrow> (u64 \<times> 'a pstore) res" where
  "unique_reset this p s = bindr (do_delete this s) (\<lambda>s'. Ret (p, s'))"

definition unique_deref :: "u64 \<Rightarrow> 'a pstore \<Rightarrow> 'a res" where
  "unique_deref this s = or_undef (objs s this)"

section \<open>shared_ptr\<close>

text \<open>\<open>shared_ptr(type* ptr)\<close>: a new control block, at the address \<open>r\<close> the allocator returned.\<close>

definition shared_from_raw :: "u64 \<Rightarrow> u64 \<Rightarrow> 'a pstore \<Rightarrow> handle \<times> 'a pstore" where
  "shared_from_raw p r s =
     (\<lparr>h_ptr = p, h_ref = r\<rparr>, put_ref r \<lparr>strong_count = 1, weak_count = 0\<rparr> s)"

text \<open>\<open>explicit shared_ptr(args...)\<close>: the object is constructed too.\<close>

definition shared_make :: "u64 \<Rightarrow> 'a \<Rightarrow> u64 \<Rightarrow> 'a pstore \<Rightarrow> handle \<times> 'a pstore" where
  "shared_make p v r s = shared_from_raw p r (s\<lparr>objs := (objs s)(p \<mapsto> v)\<rparr>)"

definition shared_with_ref :: "u64 \<Rightarrow> u64 \<Rightarrow> 'a pstore \<Rightarrow> (handle \<times> 'a pstore) res" where
  "shared_with_ref p r s =
     (if r \<noteq> 0
      then bindr (get_ref s r) (\<lambda>c.
             Ret (\<lparr>h_ptr = p, h_ref = r\<rparr>, put_ref r (c\<lparr>strong_count := strong_count c + 1\<rparr>) s))
      else Ret (\<lparr>h_ptr = p, h_ref = r\<rparr>, s))"

definition shared_copy :: "handle \<Rightarrow> 'a pstore \<Rightarrow> (handle \<times> 'a pstore) res" where
  "shared_copy other s = shared_with_ref (h_ptr other) (h_ref other) s"

definition shared_move :: "handle \<Rightarrow> handle \<times> handle" where
  "shared_move other = (other, other\<lparr>h_ptr := 0, h_ref := 0\<rparr>)"

definition shared_reset :: "handle \<Rightarrow> 'a pstore \<Rightarrow> (handle \<times> 'a pstore) res" where
  "shared_reset this s =
     (if h_ref this = 0 then Ret (this, s)
      else bindr (get_ref s (h_ref this)) (\<lambda>c.
        if strong_count c = 0 then Stop (Panic ''shared_ptr: invalid count'')
        else
          let c1 = c\<lparr>strong_count := strong_count c - 1\<rparr>;
              s1 = put_ref (h_ref this) c1 s
          in if strong_count c1 = 0
             then bindr (do_delete (h_ptr this) s1) (\<lambda>s2.
                    if weak_count c1 = 0
                    then Ret (this\<lparr>h_ref := 0\<rparr>, delete_ref (h_ref this) s2)
                    else Ret (this, s2))
             else Ret (this, s1)))"

definition shared_destroy :: "handle \<Rightarrow> 'a pstore \<Rightarrow> 'a pstore res" where
  "shared_destroy this s = bindr (shared_reset this s) (\<lambda>(_, s'). Ret s')"

definition shared_assign :: "bool \<Rightarrow> handle \<Rightarrow> handle \<Rightarrow> 'a pstore \<Rightarrow> (handle \<times> 'a pstore) res" where
  "shared_assign same this other s =
     (if \<not> same then bindr (shared_reset this s) (\<lambda>(_, s1). shared_copy other s1)
      else Ret (this, s))"

definition shared_move_assign ::
    "bool \<Rightarrow> handle \<Rightarrow> handle \<Rightarrow> 'a pstore \<Rightarrow> (handle \<times> handle \<times> 'a pstore) res" where
  "shared_move_assign same this other s =
     (if \<not> same
      then bindr (shared_reset this s) (\<lambda>(_, s1). Ret (other, other\<lparr>h_ptr := 0, h_ref := 0\<rparr>, s1))
      else Ret (this, other, s))"

definition shared_get :: "handle \<Rightarrow> u64" where
  "shared_get this = h_ptr this"

definition shared_bool :: "handle \<Rightarrow> bool" where
  "shared_bool this \<longleftrightarrow> h_ptr this \<noteq> 0"

definition shared_deref :: "handle \<Rightarrow> 'a pstore \<Rightarrow> 'a res" where
  "shared_deref this s = or_undef (objs s (h_ptr this))"

definition use_count :: "handle \<Rightarrow> 'a pstore \<Rightarrow> u64 res" where
  "use_count this s = bindr (get_ref s (h_ref this)) (\<lambda>c. Ret (strong_count c))"

section \<open>weak_ptr\<close>

text \<open>Copies of a weak pointer, and weak pointers from shared ones, increment without a null check.\<close>

definition weak_copy :: "handle \<Rightarrow> 'a pstore \<Rightarrow> (handle \<times> 'a pstore) res" where
  "weak_copy other s =
     bindr (get_ref s (h_ref other)) (\<lambda>c.
       Ret (other, put_ref (h_ref other) (c\<lparr>weak_count := weak_count c + 1\<rparr>) s))"

definition weak_from_shared :: "handle \<Rightarrow> 'a pstore \<Rightarrow> (handle \<times> 'a pstore) res" where
  "weak_from_shared other s =
     bindr (get_ref s (h_ref other)) (\<lambda>c.
       Ret (\<lparr>h_ptr = h_ptr other, h_ref = h_ref other\<rparr>,
            put_ref (h_ref other) (c\<lparr>weak_count := weak_count c + 1\<rparr>) s))"

definition weak_move :: "handle \<Rightarrow> handle \<times> handle" where
  "weak_move other = (other, other\<lparr>h_ptr := 0, h_ref := 0\<rparr>)"

definition weak_reset :: "handle \<Rightarrow> 'a pstore \<Rightarrow> (handle \<times> 'a pstore) res" where
  "weak_reset this s =
     (if h_ref this = 0 then Ret (this, s)
      else bindr (get_ref s (h_ref this)) (\<lambda>c.
        if weak_count c = 0 then Stop (Panic ''weak_ptr: invalid count'')
        else
          let c1 = c\<lparr>weak_count := weak_count c - 1\<rparr>;
              s1 = put_ref (h_ref this) c1 s
          in if weak_count c1 = 0 \<and> strong_count c1 = 0
             then Ret (this\<lparr>h_ref := 0\<rparr>, delete_ref (h_ref this) s1)
             else Ret (this, s1)))"

definition weak_destroy :: "handle \<Rightarrow> 'a pstore \<Rightarrow> 'a pstore res" where
  "weak_destroy this s = bindr (weak_reset this s) (\<lambda>(_, s'). Ret s')"

definition weak_assign :: "bool \<Rightarrow> handle \<Rightarrow> handle \<Rightarrow> 'a pstore \<Rightarrow> (handle \<times> 'a pstore) res" where
  "weak_assign same this other s =
     (if \<not> same then bindr (weak_reset this s) (\<lambda>(_, s1). weak_copy other s1)
      else Ret (this, s))"

definition weak_move_assign ::
    "bool \<Rightarrow> handle \<Rightarrow> handle \<Rightarrow> 'a pstore \<Rightarrow> (handle \<times> handle \<times> 'a pstore) res" where
  "weak_move_assign same this other s =
     (if \<not> same
      then bindr (weak_reset this s) (\<lambda>(_, s1). Ret (other, other\<lparr>h_ptr := 0, h_ref := 0\<rparr>, s1))
      else Ret (this, other, s))"

definition weak_lock :: "handle \<Rightarrow> 'a pstore \<Rightarrow> (handle \<times> 'a pstore) res" where
  "weak_lock this s =
     (if h_ref this = 0 then Ret (null_handle, s)
      else bindr (get_ref s (h_ref this)) (\<lambda>c.
        if strong_count c > 0 then shared_with_ref (h_ptr this) (h_ref this) s
        else Ret (null_handle, s)))"

section \<open>The program's use of handles\<close>

text \<open>
  A program state: the store and the handles that are alive.  A handle is created by a constructor
  and disappears in its destructor; copies, moves, the assignments, \<open>lock\<close> and the use of null handles
  are steps.  Not steps, because the classes do not survive them: \<open>reset()\<close> called by the program (it keeps the
  pointer, \<open>reset_then_destroy_frees_shared_object\<close>, \<open>weak_reset_still_locks\<close>), a \<open>shared_ptr\<close> made from a raw pointer that
  is already owned (as \<open>get_process_by_descriptor\<close> does), and objects whose destructors use handles of their own.
\<close>

record 'a world =
  store :: "'a pstore"
  strong :: "handle multiset"
  weak :: "handle multiset"

definition empty_world :: "'a world" where
  "empty_world = \<lparr>store = \<lparr>objs = Map.empty, refs = Map.empty\<rparr>, strong = {#}, weak = {#}\<rparr>"

text \<open>Pointers occupy memory, so the handles that point to something are fewer than \<open>2^64\<close>.\<close>

definition live_handles :: "handle multiset \<Rightarrow> nat" where
  "live_handles M = size (filter_mset (\<lambda>h. h_ref h \<noteq> 0) M)"

definition handles_bound :: "'a world \<Rightarrow> bool" where
  "handles_bound w \<longleftrightarrow> live_handles (strong w) + live_handles (weak w) + 1 < 2 ^ 64"

inductive world_step :: "'a world \<Rightarrow> 'a world \<Rightarrow> bool" where
  make: "p \<noteq> 0 \<Longrightarrow> objs (store w) p = None \<Longrightarrow> r \<noteq> 0 \<Longrightarrow> refs (store w) r = None \<Longrightarrow>
     handles_bound w \<Longrightarrow> shared_make p v r (store w) = (h, s) \<Longrightarrow>
     world_step w (w\<lparr>store := s, strong := add_mset h (strong w)\<rparr>)"
| null: "world_step w (w\<lparr>strong := add_mset null_handle (strong w)\<rparr>)"
| weak_null: "world_step w (w\<lparr>weak := add_mset null_handle (weak w)\<rparr>)"
| copy: "h \<in># strong w \<Longrightarrow> handles_bound w \<Longrightarrow> shared_copy h (store w) = Ret (h', s) \<Longrightarrow>
     world_step w (w\<lparr>store := s, strong := add_mset h' (strong w)\<rparr>)"
| move: "h \<in># strong w \<Longrightarrow> shared_move h = (h1, h2) \<Longrightarrow>
     world_step w (w\<lparr>strong := add_mset h1 (add_mset h2 (strong w - {#h#}))\<rparr>)"
| destroy: "h \<in># strong w \<Longrightarrow> shared_destroy h (store w) = Ret s \<Longrightarrow>
     world_step w (w\<lparr>store := s, strong := strong w - {#h#}\<rparr>)"
| assign: "h \<in># strong w \<Longrightarrow> g \<in># strong w - {#h#} \<Longrightarrow> handles_bound w \<Longrightarrow>
     shared_assign False h g (store w) = Ret (h', s) \<Longrightarrow>
     world_step w (w\<lparr>store := s, strong := add_mset h' (strong w - {#h#})\<rparr>)"
| move_assign: "h \<in># strong w \<Longrightarrow> g \<in># strong w - {#h#} \<Longrightarrow>
     shared_move_assign False h g (store w) = Ret (h', g', s) \<Longrightarrow>
     world_step w (w\<lparr>store := s, strong := add_mset h' (add_mset g' (strong w - {#h#} - {#g#}))\<rparr>)"
| weaken: "h \<in># strong w \<Longrightarrow> handles_bound w \<Longrightarrow> weak_from_shared h (store w) = Ret (h', s) \<Longrightarrow>
     world_step w (w\<lparr>store := s, weak := add_mset h' (weak w)\<rparr>)"
| weak_copy: "h \<in># weak w \<Longrightarrow> handles_bound w \<Longrightarrow> weak_copy h (store w) = Ret (h', s) \<Longrightarrow>
     world_step w (w\<lparr>store := s, weak := add_mset h' (weak w)\<rparr>)"
| weak_move: "h \<in># weak w \<Longrightarrow> weak_move h = (h1, h2) \<Longrightarrow>
     world_step w (w\<lparr>weak := add_mset h1 (add_mset h2 (weak w - {#h#}))\<rparr>)"
| weak_assign: "h \<in># weak w \<Longrightarrow> g \<in># weak w - {#h#} \<Longrightarrow> handles_bound w \<Longrightarrow>
     weak_assign False h g (store w) = Ret (h', s) \<Longrightarrow>
     world_step w (w\<lparr>store := s, weak := add_mset h' (weak w - {#h#})\<rparr>)"
| weak_move_assign: "h \<in># weak w \<Longrightarrow> g \<in># weak w - {#h#} \<Longrightarrow>
     weak_move_assign False h g (store w) = Ret (h', g', s) \<Longrightarrow>
     world_step w (w\<lparr>store := s, weak := add_mset h' (add_mset g' (weak w - {#h#} - {#g#}))\<rparr>)"
| weak_destroy: "h \<in># weak w \<Longrightarrow> weak_destroy h (store w) = Ret s \<Longrightarrow>
     world_step w (w\<lparr>store := s, weak := weak w - {#h#}\<rparr>)"
| lock: "h \<in># weak w \<Longrightarrow> handles_bound w \<Longrightarrow> weak_lock h (store w) = Ret (h', s) \<Longrightarrow>
     world_step w (w\<lparr>store := s, strong := add_mset h' (strong w)\<rparr>)"

inductive reachable :: "'a world \<Rightarrow> bool" where
  start: "reachable empty_world"
| step: "reachable w \<Longrightarrow> world_step w w' \<Longrightarrow> reachable w'"

section \<open>The invariant\<close>

definition cnt :: "u64 \<Rightarrow> handle multiset \<Rightarrow> nat" where
  "cnt r M = count (image_mset h_ref M) r"

lemma cnt_simps [simp]:
  "cnt r {#} = 0"
  "cnt r (add_mset h M) = (if h_ref h = r then Suc (cnt r M) else cnt r M)"
  by (simp_all add: cnt_def)

lemma cnt_0_iff: "cnt r M = 0 \<longleftrightarrow> (\<forall>h \<in># M. h_ref h \<noteq> r)"
  by (auto simp: cnt_def count_eq_zero_iff)

lemma live_handles_simps [simp]:
  "live_handles {#} = 0"
  "live_handles (add_mset h M) = (if h_ref h = 0 then live_handles M else Suc (live_handles M))"
  by (simp_all add: live_handles_def)

lemma cnt_le_live: "r \<noteq> 0 \<Longrightarrow> cnt r M \<le> live_handles M"
  by (induction M) auto

lemma of_nat_u64_eq_0: "n < 2 ^ 64 \<Longrightarrow> (of_nat n :: u64) = 0 \<longleftrightarrow> n = 0"
  by (simp add: word_cong_unat unat_of_nat_u64)

text \<open>Null handles have no control block; handles of one block point to one object; the strong
  handles of one object share one block; the counts are right; an object lives exactly while a strong
  handle points to it.\<close>

definition null_ok :: "handle multiset \<Rightarrow> bool" where
  "null_ok M \<longleftrightarrow> (\<forall>h \<in># M. h_ref h = 0 \<longleftrightarrow> h_ptr h = 0)"

definition ref_ptr :: "handle multiset \<Rightarrow> bool" where
  "ref_ptr M \<longleftrightarrow> (\<forall>h \<in># M. \<forall>g \<in># M. h_ref h = h_ref g \<longrightarrow> h_ptr h = h_ptr g)"

definition ptr_ref :: "handle multiset \<Rightarrow> bool" where
  "ptr_ref M \<longleftrightarrow> (\<forall>h \<in># M. \<forall>g \<in># M. h_ptr h = h_ptr g \<longrightarrow> h_ref h = h_ref g)"

definition block :: "nat \<Rightarrow> nat \<Rightarrow> ref_count option" where
  "block n m = (if n + m = 0 then None else Some \<lparr>strong_count = of_nat n, weak_count = of_nat m\<rparr>)"

definition refs_ok :: "(u64 \<rightharpoonup> ref_count) \<Rightarrow> handle multiset \<Rightarrow> handle multiset \<Rightarrow> bool" where
  "refs_ok R S W \<longleftrightarrow> (\<forall>r. r \<noteq> 0 \<longrightarrow> R r = block (cnt r S) (cnt r W))"

definition objs_ok :: "(u64 \<rightharpoonup> 'a) \<Rightarrow> handle multiset \<Rightarrow> bool" where
  "objs_ok Ob S \<longleftrightarrow> (\<forall>p. p \<noteq> 0 \<longrightarrow> (Ob p \<noteq> None) = (p \<in># image_mset h_ptr S))"

definition ptr_inv :: "'a pstore \<Rightarrow> handle multiset \<Rightarrow> handle multiset \<Rightarrow> bool" where
  "ptr_inv s S W \<longleftrightarrow> null_ok (S + W) \<and> ref_ptr (S + W) \<and> ptr_ref S \<and> refs_ok (refs s) S W \<and>
     objs_ok (objs s) S \<and> live_handles S + live_handles W < 2 ^ 64"

lemma null_ok_add [simp]: "null_ok (add_mset h M) \<longleftrightarrow> (h_ref h = 0 \<longleftrightarrow> h_ptr h = 0) \<and> null_ok M"
  by (auto simp: null_ok_def)

lemma pairs_insert:
  assumes "\<And>a b. R a b = R b a" "R h h"
  shows "(\<forall>a \<in> insert h A. \<forall>b \<in> insert h A. R a b) \<longleftrightarrow>
    (\<forall>b \<in> A. R b h) \<and> (\<forall>a \<in> A. \<forall>b \<in> A. R a b)"
  using assms by blast

lemma ref_ptr_add: "ref_ptr (add_mset h M) \<longleftrightarrow> (\<forall>g \<in># M. h_ref g = h_ref h \<longrightarrow> h_ptr g = h_ptr h) \<and> ref_ptr M"
  unfolding ref_ptr_def set_mset_add_mset_insert by (rule pairs_insert) (simp_all add: eq_commute)

lemma ptr_ref_add: "ptr_ref (add_mset h M) \<longleftrightarrow> (\<forall>g \<in># M. h_ptr g = h_ptr h \<longrightarrow> h_ref g = h_ref h) \<and> ptr_ref M"
  unfolding ptr_ref_def set_mset_add_mset_insert by (rule pairs_insert) (simp_all add: eq_commute)

lemma ref_ptr_dup: "h \<in># M \<Longrightarrow> ref_ptr M \<Longrightarrow> ref_ptr (add_mset h M)"
  unfolding ref_ptr_def set_mset_add_mset_insert by blast

lemma ptr_ref_dup: "h \<in># M \<Longrightarrow> ptr_ref M \<Longrightarrow> ptr_ref (add_mset h M)"
  unfolding ptr_ref_def set_mset_add_mset_insert by blast

lemma ref_ptrD: "ref_ptr M \<Longrightarrow> g \<in># M \<Longrightarrow> h \<in># M \<Longrightarrow> h_ref g = h_ref h \<Longrightarrow> h_ptr g = h_ptr h"
  unfolding ref_ptr_def by blast

lemma ptr_refD: "ptr_ref M \<Longrightarrow> g \<in># M \<Longrightarrow> h \<in># M \<Longrightarrow> h_ptr g = h_ptr h \<Longrightarrow> h_ref g = h_ref h"
  unfolding ptr_ref_def by blast

lemma ref_ptr_drop: "ref_ptr (add_mset h M) \<Longrightarrow> ref_ptr M" by (simp add: ref_ptr_add)

lemma ptr_ref_drop: "ptr_ref (add_mset h M) \<Longrightarrow> ptr_ref M" by (simp add: ptr_ref_add)

lemma refs_okD: "refs_ok R S W \<Longrightarrow> r \<noteq> 0 \<Longrightarrow> R r = block (cnt r S) (cnt r W)"
  by (simp add: refs_ok_def)

lemma objs_okD: "objs_ok Ob S \<Longrightarrow> p \<noteq> 0 \<Longrightarrow> (Ob p \<noteq> None) = (p \<in># image_mset h_ptr S)"
  by (simp add: objs_ok_def)

lemma ptr_inv_counts:
  assumes "ptr_inv s S W" "r \<noteq> 0"
  shows "cnt r S < 2 ^ 64" "cnt r W < 2 ^ 64"
  using assms cnt_le_live[of r S] cnt_le_live[of r W] by (auto simp: ptr_inv_def)

lemma ptr_inv_empty: "ptr_inv \<lparr>objs = Map.empty, refs = Map.empty\<rparr> {#} {#}"
  by (simp add: ptr_inv_def null_ok_def ref_ptr_def ptr_ref_def refs_ok_def objs_ok_def block_def)

lemma block_eq: "n + m \<noteq> 0 \<Longrightarrow> block n m = Some \<lparr>strong_count = of_nat n, weak_count = of_nat m\<rparr>"
  by (simp add: block_def)

lemma ptr_inv_ref:
  assumes "ptr_inv s S W" "r \<noteq> 0" "cnt r S + cnt r W \<noteq> 0"
  shows "get_ref s r = Ret \<lparr>strong_count = of_nat (cnt r S), weak_count = of_nat (cnt r W)\<rparr>"
proof -
  have "refs s r = block (cnt r S) (cnt r W)"
    using assms(1,2) refs_okD[of "refs s" S W r] by (simp add: ptr_inv_def)
  with assms(2,3) show ?thesis by (simp add: get_ref_def block_def)
qed

lemma null_refs_objs:
  assumes "h_ref h = 0" "h_ptr h = 0"
  shows "refs_ok R (add_mset h S) W \<longleftrightarrow> refs_ok R S W"
    and "refs_ok R S (add_mset h W) \<longleftrightarrow> refs_ok R S W"
    and "objs_ok Ob (add_mset h S) \<longleftrightarrow> objs_ok Ob S"
  using assms by (auto simp: refs_ok_def objs_ok_def)

lemma null_ok_mem: "null_ok M \<Longrightarrow> g \<in># M \<Longrightarrow> h_ref g = 0 \<longleftrightarrow> h_ptr g = 0"
  by (simp add: null_ok_def)

lemma ptr_inv_null:
  assumes "h_ref h = 0" "h_ptr h = 0"
  shows "ptr_inv s (add_mset h S) W \<longleftrightarrow> ptr_inv s S W"
    and "ptr_inv s S (add_mset h W) \<longleftrightarrow> ptr_inv s S W"
proof -
  have a: "ref_ptr (add_mset h M) \<longleftrightarrow> ref_ptr M" "ptr_ref (add_mset h M) \<longleftrightarrow> ptr_ref M" if "null_ok M" for M
    using that assms by (auto simp: ref_ptr_add ptr_ref_add null_ok_mem)
  have n: "null_ok (S + W) \<Longrightarrow> null_ok S"
    by (simp add: null_ok_def)
  show "ptr_inv s (add_mset h S) W \<longleftrightarrow> ptr_inv s S W"
    using assms a(1)[of "S + W"] a(2)[of S] n unfolding ptr_inv_def
    by (simp add: null_refs_objs) blast
  show "ptr_inv s S (add_mset h W) \<longleftrightarrow> ptr_inv s S W"
    using assms a(1)[of "S + W"] unfolding ptr_inv_def
    by (simp add: null_refs_objs) blast
qed

lemma refs_ok_upd:
  assumes "refs_ok R S W" "R' r = block (cnt r S') (cnt r W')" "\<And>q. q \<noteq> r \<Longrightarrow> R' q = R q"
    "\<And>q. q \<noteq> r \<Longrightarrow> cnt q S' = cnt q S \<and> cnt q W' = cnt q W"
  shows "refs_ok R' S' W'"
  unfolding refs_ok_def
proof (intro allI impI)
  fix q :: u64
  assume "q \<noteq> 0"
  with assms refs_okD[OF assms(1)] show "R' q = block (cnt q S') (cnt q W')"
    by (cases "q = r") auto
qed

lemma shared_reset_inv:
  assumes inv: "ptr_inv s (add_mset h S) W"
  shows "\<exists>h' s'. shared_reset h s = Ret (h', s') \<and> ptr_inv s' S W"
proof (cases "h_ref h = 0")
  case True
  moreover have "h_ptr h = 0" using inv True by (simp add: ptr_inv_def)
  ultimately show ?thesis
    using inv by (auto simp: shared_reset_def ptr_inv_null)
next
  case False
  define r n m p where "r = h_ref h" and "n = cnt r S" and "m = cnt r W" and "p = h_ptr h"
  note defs = r_def n_def m_def p_def
  have I: "null_ok (add_mset h (S + W))" "ref_ptr (add_mset h (S + W))" "ptr_ref (add_mset h S)"
    "refs_ok (refs s) (add_mset h S) W" "objs_ok (objs s) (add_mset h S)"
    "live_handles S + live_handles W < 2 ^ 64"
    using inv False by (simp_all add: ptr_inv_def)
  have rp: "r \<noteq> 0" "p \<noteq> 0" using False I(1) by (simp_all add: r_def p_def)
  have bnd: "Suc n < 2 ^ 64" "m < 2 ^ 64"
    using ptr_inv_counts[OF inv rp(1)] by (simp_all add: r_def n_def m_def)
  have ref: "get_ref s r = Ret \<lparr>strong_count = of_nat (Suc n), weak_count = of_nat m\<rparr>"
    using ptr_inv_ref[OF inv rp(1)] by (simp add: r_def n_def m_def)
  have nz: "(of_nat (Suc n) :: u64) \<noteq> 0" "(of_nat (Suc n) :: u64) - 1 = of_nat n"
    using of_nat_u64_eq_0[of "Suc n"] bnd by simp_all
  let ?c = "\<lparr>strong_count = of_nat n :: u64, weak_count = of_nat m\<rparr>"
  have frame: "ptr_inv s' S W"
    if "objs_ok (objs s') S" and "refs s' r = block n m" "\<And>q. q \<noteq> r \<Longrightarrow> refs s' q = refs s q" for s' :: "'a pstore"
  proof -
    have "refs_ok (refs s') S W"
      by (rule refs_ok_upd[OF I(4), of _ r]) (use that in \<open>auto simp: defs\<close>)
    with that(1) I show ?thesis
      by (simp add: ptr_inv_def ref_ptr_drop[of h] ptr_ref_drop[of h])
  qed
  show ?thesis
  proof (cases "n = 0")
    case True
    then have none: "p \<notin># image_mset h_ptr S"
      using I(3) by (auto simp: ptr_ref_add cnt_0_iff defs)
    obtain v where v: "objs s p = Some v"
      using objs_okD[OF I(5) rp(2)] by (auto simp: p_def)
    let ?s1 = "put_ref r ?c s"
    let ?s2 = "?s1\<lparr>objs := (objs ?s1)(p := None)\<rparr>"
    have del: "do_delete p ?s1 = Ret ?s2"
      using rp v by (simp add: do_delete_def put_ref_def)
    have o: "objs_ok (objs ?s2) S"
      using I(5) none by (auto simp: put_ref_def p_def objs_ok_def)
    show ?thesis
    proof (cases "m = 0")
      case m: True
      have "ptr_inv (delete_ref r ?s2) S W"
        by (rule frame) (use o m True in \<open>simp_all add: delete_ref_def put_ref_def block_def\<close>)
      with m True ref nz del rp show ?thesis
        by (simp add: shared_reset_def r_def[symmetric] p_def[symmetric] Let_def)
    next
      case m: False
      have "ptr_inv ?s2 S W"
        by (rule frame) (use o m True in \<open>simp_all add: put_ref_def block_def\<close>)
      with m True ref nz del rp bnd show ?thesis
        by (simp add: shared_reset_def r_def[symmetric] p_def[symmetric] Let_def of_nat_u64_eq_0)
    qed
  next
    case False
    then obtain g where g: "g \<in># S" "h_ref g = r" by (auto simp: n_def cnt_0_iff)
    then have "h_ptr g = p" using I(2) by (auto simp: ref_ptr_add defs)
    then have "p \<in># image_mset h_ptr S" using g by auto
    then have o: "objs_ok (objs s) S"
      using I(5) by (auto simp: objs_ok_def p_def)
    have "ptr_inv (put_ref r ?c s) S W"
      by (rule frame) (use o False in \<open>simp_all add: put_ref_def block_def\<close>)
    with False ref nz rp bnd show ?thesis
      by (simp add: shared_reset_def r_def[symmetric] p_def[symmetric] Let_def of_nat_u64_eq_0)
  qed
qed


lemma handle_eqI: "h_ptr g = h_ptr h \<Longrightarrow> h_ref g = h_ref h \<Longrightarrow> g = (h :: handle)"
  by (cases g; cases h) simp

lemma ptr_inv_strong_mem:
  assumes "ptr_inv s S W" "h \<in># S + W" "cnt (h_ref h) S \<noteq> 0"
  shows "h \<in># S"
proof -
  obtain g where g: "g \<in># S" "h_ref g = h_ref h" using assms(3) by (auto simp: cnt_0_iff)
  moreover have "h_ptr g = h_ptr h"
    by (rule ref_ptrD[of "S + W"]) (use assms(1,2) g in \<open>simp_all add: ptr_inv_def\<close>)
  ultimately show ?thesis by (metis handle_eqI)
qed

lemma ptr_inv_mem_nz: "ptr_inv s S W \<Longrightarrow> h \<in># S + W \<Longrightarrow> h_ref h = 0 \<longleftrightarrow> h_ptr h = 0"
  unfolding ptr_inv_def null_ok_def by blast

lemma cnt_mem: "h \<in># M \<Longrightarrow> cnt (h_ref h) M \<noteq> 0"
  by (auto simp: cnt_0_iff)

lemma of_nat_Suc_add: "(of_nat n :: u64) + 1 = of_nat (Suc n)"
  by (simp add: add.commute)

lemma shared_copy_inv:
  assumes inv: "ptr_inv s S W" and h: "h \<in># S" and b: "live_handles S + live_handles W + 1 < 2 ^ 64"
  shows "\<exists>s'. shared_copy h s = Ret (h, s') \<and> ptr_inv s' (add_mset h S) W"
proof (cases "h_ref h = 0")
  case True
  then have "h_ptr h = 0" using ptr_inv_mem_nz[OF inv] h by simp
  with True inv show ?thesis
    by (simp add: shared_copy_def shared_with_ref_def ptr_inv_null)
next
  case False
  have I: "null_ok (S + W)" "ref_ptr (S + W)" "ptr_ref S" "refs_ok (refs s) S W" "objs_ok (objs s) S"
    using inv by (simp_all add: ptr_inv_def)
  have hp: "h_ptr h \<noteq> 0" using ptr_inv_mem_nz[OF inv] h False by simp
  let ?c = "\<lparr>strong_count = of_nat (Suc (cnt (h_ref h) S)) :: u64, weak_count = of_nat (cnt (h_ref h) W)\<rparr>"
  let ?s = "put_ref (h_ref h) ?c s"
  have ref: "get_ref s (h_ref h) = Ret \<lparr>strong_count = of_nat (cnt (h_ref h) S), weak_count = of_nat (cnt (h_ref h) W)\<rparr>"
    using ptr_inv_ref[OF inv False] cnt_mem[OF h] by simp
  have r: "refs_ok (refs ?s) (add_mset h S) W"
    by (rule refs_ok_upd[OF I(4), of _ "h_ref h"]) (auto simp: put_ref_def block_def)
  have o: "objs_ok (objs ?s) (add_mset h S)"
    using I(5) h by (auto simp: objs_ok_def put_ref_def)
  have "ptr_inv ?s (add_mset h S) W"
    using I r o b False hp ref_ptr_dup[of h "S + W"] ptr_ref_dup[of h S] h by (simp add: ptr_inv_def)
  then show ?thesis
    using False ref by (simp add: shared_copy_def shared_with_ref_def of_nat_Suc_add add.commute)
qed

lemma weak_copy_inv:
  assumes inv: "ptr_inv s S W" and h: "h \<in># S + W" and b: "live_handles S + live_handles W + 1 < 2 ^ 64"
    and nz: "h_ref h \<noteq> 0"
  shows "\<exists>s'. weak_copy h s = Ret (h, s') \<and> ptr_inv s' S (add_mset h W)"
proof -
  have I: "null_ok (S + W)" "ref_ptr (S + W)" "ptr_ref S" "refs_ok (refs s) S W" "objs_ok (objs s) S"
    using inv by (simp_all add: ptr_inv_def)
  have hp: "h_ptr h \<noteq> 0" using ptr_inv_mem_nz[OF inv] h nz by simp
  let ?c = "\<lparr>strong_count = of_nat (cnt (h_ref h) S) :: u64, weak_count = of_nat (Suc (cnt (h_ref h) W))\<rparr>"
  let ?s = "put_ref (h_ref h) ?c s"
  have "cnt (h_ref h) S + cnt (h_ref h) W \<noteq> 0" using h cnt_mem[of h S] cnt_mem[of h W] by auto
  then have ref: "get_ref s (h_ref h) = Ret \<lparr>strong_count = of_nat (cnt (h_ref h) S), weak_count = of_nat (cnt (h_ref h) W)\<rparr>"
    by (rule ptr_inv_ref[OF inv nz])
  have r: "refs_ok (refs ?s) S (add_mset h W)"
    by (rule refs_ok_upd[OF I(4), of _ "h_ref h"]) (auto simp: put_ref_def block_def)
  have o: "objs_ok (objs ?s) S"
    using I(5) by (simp add: put_ref_def)
  have "ptr_inv ?s S (add_mset h W)"
    using I r o b nz hp ref_ptr_dup[of h "S + W"] h by (simp add: ptr_inv_def)
  then show ?thesis
    using ref by (simp add: weak_copy_def of_nat_Suc_add add.commute)
qed

lemma weak_from_shared_eq: "weak_from_shared h s = weak_copy h s"
  by (cases h) (simp add: weak_from_shared_def weak_copy_def)

lemma weak_reset_inv:
  assumes inv: "ptr_inv s S (add_mset h W)"
  shows "\<exists>h' s'. weak_reset h s = Ret (h', s') \<and> ptr_inv s' S W"
proof (cases "h_ref h = 0")
  case True
  moreover have "h_ptr h = 0" using inv True by (simp add: ptr_inv_def)
  ultimately show ?thesis
    using inv by (auto simp: weak_reset_def ptr_inv_null)
next
  case False
  define r n m where "r = h_ref h" and "n = cnt r S" and "m = cnt r W"
  note defs = r_def n_def m_def
  have I: "null_ok (add_mset h (S + W))" "ref_ptr (add_mset h (S + W))" "ptr_ref S"
    "refs_ok (refs s) S (add_mset h W)" "objs_ok (objs s) S"
    "live_handles S + live_handles W < 2 ^ 64"
    using inv False by (simp_all add: ptr_inv_def)
  have r0: "r \<noteq> 0" using False by (simp add: r_def)
  have bnd: "n < 2 ^ 64" "Suc m < 2 ^ 64"
    using ptr_inv_counts[OF inv r0] by (simp_all add: defs)
  have ref: "get_ref s r = Ret \<lparr>strong_count = of_nat n, weak_count = of_nat (Suc m)\<rparr>"
    using ptr_inv_ref[OF inv r0] by (simp add: defs)
  have nz: "(of_nat (Suc m) :: u64) \<noteq> 0" "(of_nat (Suc m) :: u64) - 1 = of_nat m"
    using of_nat_u64_eq_0[of "Suc m"] bnd by simp_all
  have z: "(of_nat m :: u64) = 0 \<longleftrightarrow> m = 0" "(of_nat n :: u64) = 0 \<longleftrightarrow> n = 0"
    using of_nat_u64_eq_0[of m] of_nat_u64_eq_0[of n] bnd by simp_all
  let ?c = "\<lparr>strong_count = of_nat n :: u64, weak_count = of_nat m\<rparr>"
  have frame: "ptr_inv s' S W"
    if "objs s' = objs s" and "refs s' r = block n m" "\<And>q. q \<noteq> r \<Longrightarrow> refs s' q = refs s q" for s' :: "'a pstore"
  proof -
    have "refs_ok (refs s') S W"
      by (rule refs_ok_upd[OF I(4), of _ r]) (use that in \<open>auto simp: defs\<close>)
    with that(1) I show ?thesis
      by (simp add: ptr_inv_def ref_ptr_drop[of h])
  qed
  have f1: "m = 0 \<Longrightarrow> n = 0 \<Longrightarrow> ptr_inv (delete_ref r (put_ref r ?c s)) S W"
    by (rule frame) (simp_all add: delete_ref_def put_ref_def block_def)
  have f2: "m \<noteq> 0 \<or> n \<noteq> 0 \<Longrightarrow> ptr_inv (put_ref r ?c s) S W"
    by (rule frame) (auto simp add: put_ref_def block_def)
  show ?thesis
    using f1 f2 nz z r0 ref
    by (cases "m = 0 \<and> n = 0") (auto simp add: weak_reset_def r_def[symmetric] Let_def)
qed

lemma weak_lock_inv:
  assumes inv: "ptr_inv s S W" and h: "h \<in># W" and b: "live_handles S + live_handles W + 1 < 2 ^ 64"
  shows "\<exists>h' s'. weak_lock h s = Ret (h', s') \<and> ptr_inv s' (add_mset h' S) W \<and>
    h' = (if h_ref h \<noteq> 0 \<and> cnt (h_ref h) S \<noteq> 0 then h else null_handle)"
proof (cases "h_ref h = 0")
  case True
  with inv show ?thesis
    by (simp add: weak_lock_def null_handle_def ptr_inv_null)
next
  case False
  have "cnt (h_ref h) S + cnt (h_ref h) W \<noteq> 0" using h cnt_mem[of h W] by auto
  then have ref: "get_ref s (h_ref h) = Ret \<lparr>strong_count = of_nat (cnt (h_ref h) S), weak_count = of_nat (cnt (h_ref h) W)\<rparr>"
    by (rule ptr_inv_ref[OF inv False])
  have z: "(of_nat (cnt (h_ref h) S) :: u64) = 0 \<longleftrightarrow> cnt (h_ref h) S = 0"
    using of_nat_u64_eq_0 ptr_inv_counts(1)[OF inv False] by blast
  show ?thesis
  proof (cases "cnt (h_ref h) S = 0")
    case True
    with ref False inv show ?thesis
      by (simp add: weak_lock_def null_handle_def ptr_inv_null)
  next
    case nz: False
    have "h \<in># S" using ptr_inv_strong_mem[OF inv _ nz] h by simp
    from shared_copy_inv[OF inv this b] show ?thesis
      using ref False nz z by (simp add: weak_lock_def shared_copy_def word_neq_0_conv[symmetric] del: word_neq_0_conv)
  qed
qed

lemma shared_make_inv:
  assumes inv: "ptr_inv s S W" and b: "live_handles S + live_handles W + 1 < 2 ^ 64"
    and p: "p \<noteq> 0" "objs s p = None" and r: "r \<noteq> 0" "refs s r = None"
  shows "ptr_inv (snd (shared_make p v r s)) (add_mset (fst (shared_make p v r s)) S) W"
proof -
  have I: "null_ok (S + W)" "ref_ptr (S + W)" "ptr_ref S" "refs_ok (refs s) S W" "objs_ok (objs s) S"
    using inv by (simp_all add: ptr_inv_def)
  have "cnt r S = 0 \<and> cnt r W = 0"
    using refs_okD[OF I(4) r(1)] r(2) by (simp add: block_def split: if_splits)
  then have nor: "\<forall>g \<in># S + W. h_ref g \<noteq> r" "cnt r S = 0" "cnt r W = 0" by (auto simp: cnt_0_iff)
  have nop: "\<forall>g \<in># S. h_ptr g \<noteq> p"
    using objs_okD[OF I(5) p(1)] p(2) by auto
  let ?h = "\<lparr>h_ptr = p, h_ref = r\<rparr>"
  let ?s = "put_ref r \<lparr>strong_count = 1, weak_count = 0\<rparr> (s\<lparr>objs := (objs s)(p \<mapsto> v)\<rparr>)"
  have ro: "refs_ok (refs ?s) (add_mset ?h S) W"
    by (rule refs_ok_upd[OF I(4), of _ r]) (use nor in \<open>auto simp: put_ref_def block_def\<close>)
  have oo: "objs_ok (objs ?s) (add_mset ?h S)"
    using I(5) by (auto simp: objs_ok_def put_ref_def)
  have "ref_ptr (add_mset ?h (S + W))" using I(2) nor by (auto simp: ref_ptr_add)
  moreover have "ptr_ref (add_mset ?h S)" using I(3) nop by (auto simp: ptr_ref_add)
  ultimately show ?thesis
    using I(1) ro oo b p r by (simp add: shared_make_def shared_from_raw_def ptr_inv_def)
qed


section \<open>Reachable program states\<close>

abbreviation world_inv :: "'a world \<Rightarrow> bool" where
  "world_inv w \<equiv> ptr_inv (store w) (strong w) (weak w)"

lemma shared_destroy_inv:
  assumes "ptr_inv s S W" "h \<in># S"
  shows "\<exists>s'. shared_destroy h s = Ret s' \<and> ptr_inv s' (S - {#h#}) W"
  using shared_reset_inv[of s h "S - {#h#}" W] assms by (auto simp: shared_destroy_def)

lemma weak_destroy_inv:
  assumes "ptr_inv s S W" "h \<in># W"
  shows "\<exists>s'. weak_destroy h s = Ret s' \<and> ptr_inv s' S (W - {#h#})"
  using weak_reset_inv[of s S h "W - {#h#}"] assms by (auto simp: weak_destroy_def)

lemma live_handles_minus: "live_handles (M - N) \<le> live_handles M"
  unfolding live_handles_def by (intro size_mset_mono multiset_filter_mono) simp

lemma shared_assign_inv:
  assumes "ptr_inv s S W" "h \<in># S" "g \<in># S - {#h#}" "live_handles S + live_handles W + 1 < 2 ^ 64"
  shows "\<exists>s'. shared_assign False h g s = Ret (g, s') \<and> ptr_inv s' (add_mset g (S - {#h#})) W"
proof -
  have "ptr_inv s (add_mset h (S - {#h#})) W" using assms by simp
  from shared_reset_inv[OF this] obtain h' s1 where
    s1: "shared_reset h s = Ret (h', s1)" "ptr_inv s1 (S - {#h#}) W" by blast
  have "live_handles (S - {#h#}) + live_handles W + 1 < 2 ^ 64"
    using live_handles_minus[of S "{#h#}"] assms(4) by linarith
  from shared_copy_inv[OF s1(2) assms(3) this] s1(1) show ?thesis
    by (auto simp: shared_assign_def)
qed

lemma world_step_inv: "world_step w w' \<Longrightarrow> world_inv w \<Longrightarrow> world_inv w'"
proof (induction rule: world_step.induct)
  case (make p w r v h s)
  then show ?case
    using shared_make_inv[of "store w" "strong w" "weak w" p r v] by (simp add: handles_bound_def)
next
  case (null w)
  then show ?case by (simp add: ptr_inv_null null_handle_def)
next
  case (weak_null w)
  then show ?case by (simp add: ptr_inv_null null_handle_def)
next
  case (copy h w h' s)
  then show ?case
    using shared_copy_inv[of "store w" "strong w" "weak w" h] by (auto simp: handles_bound_def)
next
  case (move h w h1 h2)
  then have e: "h1 = h" "h2 = null_handle"
    by (auto simp: shared_move_def null_handle_def intro!: handle_eqI)
  have "add_mset h1 (add_mset h2 (strong w - {#h#})) = add_mset null_handle (strong w)"
    using move(1) by (simp add: e add_mset_commute)
  with move(3) show ?case by (simp add: ptr_inv_null null_handle_def)
next
  case (destroy h w s)
  then show ?case using shared_destroy_inv[of "store w" "strong w" "weak w" h] by auto
next
  case (assign h w g h' s)
  then show ?case
    using shared_assign_inv[of "store w" "strong w" "weak w" h g] by (auto simp: handles_bound_def)
next
  case (move_assign h w g h' g' s)
  then obtain h1 where r: "shared_reset h (store w) = Ret (h1, s)" and e: "h' = g" "g' = null_handle"
    by (auto simp: shared_move_assign_def null_handle_def bindr_eq_Ret intro!: handle_eqI)
  have "ptr_inv (store w) (add_mset h (strong w - {#h#})) (weak w)" using move_assign by simp
  from shared_reset_inv[OF this] have "ptr_inv s (strong w - {#h#}) (weak w)" using r by auto
  moreover have "add_mset h' (add_mset g' (strong w - {#h#} - {#g#})) = add_mset null_handle (strong w - {#h#})"
    by (simp only: e add_mset_commute[of g null_handle] insert_DiffM[OF move_assign(2)])
  ultimately show ?case by (simp add: ptr_inv_null null_handle_def)
next
  case (weak_move h w h1 h2)
  then have e: "h1 = h" "h2 = null_handle"
    by (auto simp: weak_move_def null_handle_def intro!: handle_eqI)
  have "add_mset h1 (add_mset h2 (weak w - {#h#})) = add_mset null_handle (weak w)"
    using weak_move(1) by (simp add: e add_mset_commute)
  with weak_move(3) show ?case by (simp add: ptr_inv_null null_handle_def)
next
  case (weak_assign h w g h' s)
  have "ptr_inv (store w) (strong w) (add_mset h (weak w - {#h#}))" using weak_assign by simp
  from weak_reset_inv[OF this] obtain h1 s1 where r: "weak_reset h (store w) = Ret (h1, s1)" "ptr_inv s1 (strong w) (weak w - {#h#})"
    by blast
  then have c: "weak_copy g s1 = Ret (h', s)" using weak_assign(4) by (simp add: weak_assign_def)
  then have nz: "h_ref g \<noteq> 0" by (auto simp: weak_copy_def get_ref_def split: if_splits)
  have "live_handles (strong w) + live_handles (weak w - {#h#}) + 1 < 2 ^ 64"
    using live_handles_minus[of "weak w" "{#h#}"] weak_assign(3) unfolding handles_bound_def by linarith
  then show ?case using weak_copy_inv[OF r(2) _ _ nz] weak_assign(2) c by auto
next
  case (weak_move_assign h w g h' g' s)
  then obtain h1 where r: "weak_reset h (store w) = Ret (h1, s)" and e: "h' = g" "g' = null_handle"
    by (auto simp: weak_move_assign_def null_handle_def bindr_eq_Ret intro!: handle_eqI)
  have "ptr_inv (store w) (strong w) (add_mset h (weak w - {#h#}))" using weak_move_assign by simp
  from weak_reset_inv[OF this] have "ptr_inv s (strong w) (weak w - {#h#})" using r by auto
  moreover have "add_mset h' (add_mset g' (weak w - {#h#} - {#g#})) = add_mset null_handle (weak w - {#h#})"
    by (simp only: e add_mset_commute[of g null_handle] insert_DiffM[OF weak_move_assign(2)])
  ultimately show ?case by (simp add: ptr_inv_null null_handle_def)
next
  case (weaken h w h' s)
  then have "h_ref h \<noteq> 0" by (auto simp: weak_from_shared_def get_ref_def split: if_splits)
  with weaken show ?case
    using weak_copy_inv[of "store w" "strong w" "weak w" h]
    by (auto simp: handles_bound_def weak_from_shared_eq)
next
  case (weak_copy h w h' s)
  then have "h_ref h \<noteq> 0" by (auto simp: weak_copy_def get_ref_def split: if_splits)
  with weak_copy show ?case
    using weak_copy_inv[of "store w" "strong w" "weak w" h] by (auto simp: handles_bound_def)
next
  case (weak_destroy h w s)
  then show ?case using weak_destroy_inv[of "store w" "strong w" "weak w" h] by auto
next
  case (lock h w h' s)
  then show ?case
    using weak_lock_inv[of "store w" "strong w" "weak w" h] by (auto simp: handles_bound_def)
qed

lemma reachable_inv: "reachable w \<Longrightarrow> world_inv w"
  by (induction rule: reachable.induct) (simp_all add: empty_world_def ptr_inv_empty world_step_inv)

lemma cnt_filter: "cnt r M = size (filter_mset (\<lambda>h. h_ref h = r) M)"
  by (induction M) auto

lemma cnt_same_ptr:
  assumes "ptr_inv s S W" "h \<in># S"
  shows "cnt (h_ref h) S = size (filter_mset (\<lambda>g. h_ptr g = h_ptr h) S)"
proof -
  have "h_ref g = h_ref h \<longleftrightarrow> h_ptr g = h_ptr h" if "g \<in># S" for g
    using assms that ref_ptrD[of "S + W" g h] ptr_refD[of S g h] by (auto simp: ptr_inv_def)
  then have "filter_mset (\<lambda>g. h_ref g = h_ref h) S = filter_mset (\<lambda>g. h_ptr g = h_ptr h) S"
    by (intro filter_mset_cong) auto
  then show ?thesis by (simp add: cnt_filter)
qed

lemma get_ref_strong:
  assumes "ptr_inv s S W" "h \<in># S" "h_ref h \<noteq> 0"
  shows "use_count h s = Ret (of_nat (cnt (h_ref h) S))"
  using ptr_inv_ref[OF assms(1,3)] cnt_mem[OF assms(2)] by (simp add: use_count_def)

section \<open>Properties\<close>

text \<open>A program with one object, two owners and an observer, used by the witnesses.\<close>

definition demo_handle :: handle where
  "demo_handle = \<lparr>h_ptr = 16, h_ref = 32\<rparr>"

definition demo_world :: "nat world" where
  "demo_world =
     \<lparr>store = \<lparr>objs = [16 \<mapsto> 7], refs = [32 \<mapsto> \<lparr>strong_count = 2, weak_count = 1\<rparr>]\<rparr>,
      strong = {#demo_handle, demo_handle#}, weak = {#demo_handle#}\<rparr>"

lemma demo_reachable: "reachable demo_world"
proof -
  let ?s0 = "\<lparr>objs = [16 \<mapsto> 7 :: nat], refs = [32 \<mapsto> \<lparr>strong_count = 1, weak_count = 0\<rparr>]\<rparr>"
  let ?s1 = "\<lparr>objs = [16 \<mapsto> 7 :: nat], refs = [32 \<mapsto> \<lparr>strong_count = 2, weak_count = 0\<rparr>]\<rparr>"
  have a: "world_step empty_world \<lparr>store = ?s0, strong = {#demo_handle#}, weak = {#}\<rparr>"
    using world_step.make[of 16 empty_world 32 7 demo_handle ?s0]
    by (simp add: empty_world_def handles_bound_def shared_make_def shared_from_raw_def put_ref_def
        demo_handle_def)
  have b: "world_step \<lparr>store = ?s0, strong = {#demo_handle#}, weak = {#}\<rparr>
      \<lparr>store = ?s1, strong = {#demo_handle, demo_handle#}, weak = {#}\<rparr>"
    using world_step.copy[of demo_handle "\<lparr>store = ?s0, strong = {#demo_handle#}, weak = {#}\<rparr>" demo_handle ?s1]
    by (simp add: handles_bound_def demo_handle_def shared_copy_def shared_with_ref_def get_ref_def put_ref_def)
  have c: "world_step \<lparr>store = ?s1, strong = {#demo_handle, demo_handle#}, weak = {#}\<rparr> demo_world"
    using world_step.weaken[of demo_handle "\<lparr>store = ?s1, strong = {#demo_handle, demo_handle#}, weak = {#}\<rparr>"
        demo_handle "store demo_world"]
    by (simp add: handles_bound_def demo_handle_def demo_world_def weak_from_shared_def get_ref_def put_ref_def)
  show ?thesis
    by (rule reachable.step[OF reachable.step[OF reachable.step[OF reachable.start a] b] c])
qed

text \<open>C40. Ownership: in every state that a program reaches by making objects, by default, copy and move constructors,
  copy and move assignments between different handles, destructors, weak pointers from shared ones and \<open>lock\<close> (the
  steps of \<open>world_step\<close>), an object exists exactly while some \<open>shared_ptr\<close> points to it, and \<open>use_count\<close> of a
  non-null \<open>shared_ptr\<close> is the number of \<open>shared_ptr\<close>s that point to its object.  It does not hold for
  programs that call \<open>reset()\<close> themselves or hand an owned raw pointer to a second \<open>shared_ptr\<close>, and objects that hold
  handles are not covered.\<close>

theorem owned_exactly_while_shared:
  assumes "reachable w" "p \<noteq> 0"
  shows "(objs (store w) p \<noteq> None \<longleftrightarrow> (\<exists>h \<in># strong w. h_ptr h = p)) \<and>
    (\<forall>h \<in># strong w. h_ptr h = p \<longrightarrow>
       use_count h (store w) = Ret (of_nat (size (filter_mset (\<lambda>g. h_ptr g = p) (strong w)))))"
proof -
  have inv: "world_inv w" by (rule reachable_inv[OF assms(1)])
  have "use_count h (store w) = Ret (of_nat (size (filter_mset (\<lambda>g. h_ptr g = p) (strong w))))"
    if "h \<in># strong w" "h_ptr h = p" for h
    using get_ref_strong[OF inv that(1)] cnt_same_ptr[OF inv that(1)] ptr_inv_mem_nz[OF inv, of h] that assms(2)
    by simp
  moreover have "objs (store w) p \<noteq> None \<longleftrightarrow> (\<exists>h \<in># strong w. h_ptr h = p)"
    using objs_okD[of "objs (store w)" "strong w" p] inv assms(2) by (auto simp: ptr_inv_def)
  ultimately show ?thesis by blast
qed

lemma owned_exactly_while_shared_witness:
  "objs (store demo_world) 16 \<noteq> None \<and> use_count demo_handle (store demo_world) = Ret 2"
  using owned_exactly_while_shared[OF demo_reachable, of 16]
  by (simp add: demo_world_def demo_handle_def)

text \<open>In every reachable state the destructor, the copy constructor and the copy assignment of a
  live \<open>shared_ptr\<close>, and the destructor and \<open>lock\<close> of a live \<open>weak_ptr\<close>, run to their end: no
  invalid count, no access to a control block that is gone, no object deleted twice.\<close>

theorem pointer_operations_never_halt:
  assumes "reachable w" "handles_bound w"
  shows "(\<forall>h \<in># strong w. (\<exists>s. shared_destroy h (store w) = Ret s) \<and>
            (\<exists>s. shared_copy h (store w) = Ret (h, s)) \<and>
            (\<forall>g \<in># strong w - {#h#}. \<exists>s. shared_assign False h g (store w) = Ret (g, s))) \<and>
         (\<forall>h \<in># weak w. (\<exists>s. weak_destroy h (store w) = Ret s) \<and>
            (\<exists>x. weak_lock h (store w) = Ret x))"
proof -
  have inv: "world_inv w" by (rule reachable_inv[OF assms(1)])
  have b: "live_handles (strong w) + live_handles (weak w) + 1 < 2 ^ 64"
    using assms(2) by (simp add: handles_bound_def)
  show ?thesis
    using shared_destroy_inv[OF inv] shared_copy_inv[OF inv _ b] shared_assign_inv[OF inv _ _ b]
      weak_destroy_inv[OF inv] weak_lock_inv[OF inv _ b] by meson
qed

lemma pointer_operations_never_halt_witness:
  "handles_bound demo_world \<and> (\<exists>s. shared_destroy demo_handle (store demo_world) = Ret s)"
proof -
  have "handles_bound demo_world"
    by (simp add: handles_bound_def demo_world_def demo_handle_def)
  with pointer_operations_never_halt[OF demo_reachable] show ?thesis
    by (simp add: demo_world_def)
qed

text \<open>\<open>weak_ptr::lock\<close> gives a \<open>shared_ptr\<close> to the object exactly while another \<open>shared_ptr\<close>
  to it is alive, and null once the object is gone.\<close>

theorem lock_iff_alive:
  assumes "reachable w" "handles_bound w" "h \<in># weak w" "h_ptr h \<noteq> 0"
  shows "\<exists>s. weak_lock h (store w) =
    Ret (if \<exists>g \<in># strong w. g = h then h else null_handle, s)"
proof -
  have inv: "world_inv w" by (rule reachable_inv[OF assms(1)])
  have b: "live_handles (strong w) + live_handles (weak w) + 1 < 2 ^ 64"
    using assms(2) by (simp add: handles_bound_def)
  have nz: "h_ref h \<noteq> 0" using ptr_inv_mem_nz[OF inv, of h] assms(3,4) by simp
  have "cnt (h_ref h) (strong w) \<noteq> 0 \<longleftrightarrow> (\<exists>g \<in># strong w. g = h)"
    using ptr_inv_strong_mem[OF inv, of h] cnt_mem[of h "strong w"] assms(3) by auto
  with weak_lock_inv[OF inv assms(3) b] nz show ?thesis by auto
qed

lemma lock_iff_alive_witness:
  "\<exists>s. weak_lock demo_handle (store demo_world) = Ret (demo_handle, s)"
  using lock_iff_alive[OF demo_reachable, of demo_handle]
  by (simp add: handles_bound_def demo_world_def demo_handle_def)

text \<open>Calling \<open>reset()\<close> on a \<open>shared_ptr\<close> leaves its pointer and control block in place, so its
  destructor releases a second time: with two owners of one object, \<open>reset()\<close> and destruction of
  the first delete the object although the second owner is still alive.\<close>

theorem reset_then_destroy_frees_shared_object:
  assumes "reachable w" "strong w = {#h, h#}" "h_ptr h \<noteq> 0"
  shows "\<exists>s1 s2. shared_reset h (store w) = Ret (h, s1) \<and> shared_destroy h s1 = Ret s2 \<and>
    shared_deref h s2 = Stop Undef"
proof -
  have inv: "world_inv w" by (rule reachable_inv[OF assms(1)])
  have nz: "h_ref h \<noteq> 0" using ptr_inv_mem_nz[OF inv, of h] assms(2,3) by simp
  have ref: "get_ref (store w) (h_ref h) = Ret \<lparr>strong_count = 2, weak_count = of_nat (cnt (h_ref h) (weak w))\<rparr>"
    using ptr_inv_ref[OF inv nz] assms(2) by simp
  obtain v where "objs (store w) (h_ptr h) = Some v"
    using objs_okD[of "objs (store w)" "strong w" "h_ptr h"] inv assms(2,3) by (auto simp: ptr_inv_def)
  with ref nz assms(3) show ?thesis
    by (simp add: shared_reset_def shared_destroy_def Let_def get_ref_def put_ref_def do_delete_def
        shared_deref_def delete_ref_def)
qed

lemma reset_then_destroy_frees_shared_object_witness:
  "\<exists>s1 s2. shared_reset demo_handle (store demo_world) = Ret (demo_handle, s1) \<and>
    shared_destroy demo_handle s1 = Ret s2 \<and> shared_deref demo_handle s2 = Stop Undef"
  by (rule reset_then_destroy_frees_shared_object[OF demo_reachable])
    (simp_all add: demo_world_def demo_handle_def)

text \<open>Calling \<open>reset()\<close> on a \<open>weak_ptr\<close> whose object is alive does not detach it: \<open>lock()\<close> on the
  same \<open>weak_ptr\<close> still gives the object.\<close>

theorem weak_reset_still_locks:
  assumes "reachable w" "handles_bound w" "h \<in># weak w" "h \<in># strong w" "h_ptr h \<noteq> 0"
  shows "\<exists>s1 s2. weak_reset h (store w) = Ret (h, s1) \<and> weak_lock h s1 = Ret (h, s2)"
proof -
  have inv: "world_inv w" by (rule reachable_inv[OF assms(1)])
  have nz: "h_ref h \<noteq> 0" using ptr_inv_mem_nz[OF inv, of h] assms(3,5) by simp
  note c = cnt_mem[OF assms(3)] cnt_mem[OF assms(4)] ptr_inv_counts[OF inv nz]
  have ref: "get_ref (store w) (h_ref h) =
      Ret \<lparr>strong_count = of_nat (cnt (h_ref h) (strong w)), weak_count = of_nat (cnt (h_ref h) (weak w))\<rparr>"
    by (rule ptr_inv_ref[OF inv nz]) (use c in simp)
  moreover have "(of_nat (cnt (h_ref h) (strong w)) :: u64) \<noteq> 0" "(of_nat (cnt (h_ref h) (weak w)) :: u64) \<noteq> 0"
    using c(1,2) by (simp_all only: of_nat_u64_eq_0[OF c(3)] of_nat_u64_eq_0[OF c(4)] not_False_eq_True)
  ultimately obtain a b where ab: "refs (store w) (h_ref h) = Some \<lparr>strong_count = a, weak_count = b\<rparr>"
      "a \<noteq> 0" "b \<noteq> 0"
    using nz by (simp add: get_ref_def)
  then have "0 < a" by (simp add: word_neq_0_conv)
  with ab nz show ?thesis
    by (simp add: weak_reset_def weak_lock_def Let_def get_ref_def put_ref_def shared_with_ref_def)
qed

lemma weak_reset_still_locks_witness:
  "\<exists>s1 s2. weak_reset demo_handle (store demo_world) = Ret (demo_handle, s1) \<and>
    weak_lock demo_handle s1 = Ret (demo_handle, s2)"
  by (rule weak_reset_still_locks[OF demo_reachable])
    (simp_all add: handles_bound_def demo_world_def demo_handle_def)

end
