(* ===== verification/KBase.thy ===== *)
theory KBase
  imports Prelude
begin

text \<open>
  The kernel's basic vocabulary: \<^verbatim>\<open>include/memory/mem.h\<close> (addresses, segment selectors, byte loops),
  \<^verbatim>\<open>include/util/interval.h\<close>, \<^verbatim>\<open>include/util/time.h\<close>, \<^verbatim>\<open>include/features/bytes.h\<close>,
  \<^verbatim>\<open>include/features/string.h\<close>, \<^verbatim>\<open>include/features/math.h\<close>, and the part of
  \<^verbatim>\<open>include/features/optional.h\<close> that \<open>option\<close> does not give directly.
\<close>

section \<open>Sizes and durations\<close>

definition Ki :: "u64 \<Rightarrow> u64" where "Ki t = t * 1024"
definition Mi :: "u64 \<Rightarrow> u64" where "Mi t = t * Ki 1024"
definition Gi :: "u64 \<Rightarrow> u64" where "Gi t = t * Mi 1024"
definition Ti :: "u64 \<Rightarrow> u64" where "Ti t = t * Gi 1024"

definition page_size :: u64 where "page_size = 4096"

record duration_t =
  nanoseconds :: u64

definition dur_s :: "u64 \<Rightarrow> duration_t" where "dur_s n = \<lparr>nanoseconds = n * 1000000000\<rparr>"
definition dur_ms :: "u64 \<Rightarrow> duration_t" where "dur_ms n = \<lparr>nanoseconds = n * 1000000\<rparr>"
definition dur_us :: "u64 \<Rightarrow> duration_t" where "dur_us n = \<lparr>nanoseconds = n * 1000\<rparr>"
definition dur_ns :: "u64 \<Rightarrow> duration_t" where "dur_ns n = \<lparr>nanoseconds = n\<rparr>"
definition dur_minutes :: "u64 \<Rightarrow> duration_t" where "dur_minutes n = \<lparr>nanoseconds = n * 60 * 1000000000\<rparr>"
definition dur_hours :: "u64 \<Rightarrow> duration_t" where "dur_hours n = \<lparr>nanoseconds = n * 60 * 60 * 1000000000\<rparr>"
definition dur_days :: "u64 \<Rightarrow> duration_t" where
  "dur_days n = \<lparr>nanoseconds = n * 24 * 60 * 60 * 1000000000\<rparr>"

lemma sizes: "Ki 1 = 1024" "Mi 1 = 1048576" "Gi 1 = 1073741824" "Ti 1 = 1099511627776"
  by (simp_all add: Ki_def Mi_def Gi_def Ti_def)

section \<open>Numbers and intervals\<close>

definition min2 :: "'n::linorder \<Rightarrow> 'n \<Rightarrow> 'n" where
  "min2 a b = (if a < b then a else b)"

definition max2 :: "'n::linorder \<Rightarrow> 'n \<Rightarrow> 'n" where
  "max2 a b = (if a > b then a else b)"

lemma min2_min [simp]: "min2 a b = min a b"
  by (auto simp: min2_def min_def not_less)

lemma max2_max [simp]: "max2 a b = max a b"
  by (auto simp: max2_def max_def not_le)

record interval =
  left :: u64
  right :: u64

definition iv_size :: "interval \<Rightarrow> u64" where
  "iv_size r = right r - left r"

definition iv_valid :: "interval \<Rightarrow> bool" where
  "iv_valid r \<longleftrightarrow> left r < right r"

definition intersects :: "interval \<Rightarrow> interval \<Rightarrow> bool" where
  "intersects r other \<longleftrightarrow> \<not> (right other < left r \<or> right r < left other)"

section \<open>Optional values\<close>

text \<open>\<open>value_or\<close>, \<open>value_or_create\<close> (the creating function may halt and changes the state), \<open>map\<close>.\<close>

definition value_or :: "'a option \<Rightarrow> 'a \<Rightarrow> 'a" where
  "value_or x d = (case x of None \<Rightarrow> d | Some v \<Rightarrow> v)"

definition value_or_create :: "'a option \<Rightarrow> ('s \<Rightarrow> ('a \<times> 's) res) \<Rightarrow> 's \<Rightarrow> ('a \<times> 's) res" where
  "value_or_create x create s = (case x of Some v \<Rightarrow> Ret (v, s) | None \<Rightarrow> create s)"

definition opt_map :: "'a option \<Rightarrow> ('a \<Rightarrow> 'b option) \<Rightarrow> 'b option" where
  "opt_map x f = (case x of None \<Rightarrow> None | Some v \<Rightarrow> f v)"

lemma opt_simps [simp]:
  "value_or None d = d" "value_or (Some v) d = v"
  "value_or_create None c s = c s" "value_or_create (Some v) c s = Ret (v, s)"
  "opt_map None f = None" "opt_map (Some v) f = f v"
  by (simp_all add: value_or_def value_or_create_def opt_map_def)

section \<open>Segment selectors\<close>

datatype Segment = KERNEL_CODE | KERNEL_DATA | USER_CODE | USER_DATA

fun segment_number :: "Segment \<Rightarrow> u16" where
  "segment_number KERNEL_CODE = 1"
| "segment_number KERNEL_DATA = 2"
| "segment_number USER_CODE = 3"
| "segment_number USER_DATA = 4"

text \<open>The 16-bit selector: 2 bits of privilege, the table bit, 13 bits of index.\<close>

definition segment_selector :: "Segment \<Rightarrow> u16" where
  "segment_selector s =
     (let rpl = (if segment_number s < segment_number USER_CODE then 0 else 3)
      in set_fld 3 13 (segment_number s) (set_fld 2 1 0 (set_fld 0 2 rpl 0)))"

section \<open>Physical and virtual addresses\<close>

text \<open>Both are one 64-bit word.\<close>

definition map_tmp :: "u64 \<Rightarrow> u64" where
  "map_tmp p = p + Ti 64"

definition va_offset :: "u64 \<Rightarrow> u64" where "va_offset v = fld 0 12 v"
definition l1_offset :: "u64 \<Rightarrow> u64" where "l1_offset v = fld 12 9 v"
definition l2_offset :: "u64 \<Rightarrow> u64" where "l2_offset v = fld 21 9 v"
definition l3_offset :: "u64 \<Rightarrow> u64" where "l3_offset v = fld 30 9 v"
definition l4_offset :: "u64 \<Rightarrow> u64" where "l4_offset v = fld 39 9 v"

definition get_offset :: "u64 \<Rightarrow> u8 \<Rightarrow> u64 option" where
  "get_offset v level =
     (if level = 1 then Some (l1_offset v)
      else if level = 2 then Some (l2_offset v)
      else if level = 3 then Some (l3_offset v)
      else if level = 4 then Some (l4_offset v)
      else None)"

text \<open>The constructor from the five parts; \<open>padding\<close> is left at zero.\<close>

definition virtual_address :: "u16 \<Rightarrow> u16 \<Rightarrow> u16 \<Rightarrow> u16 \<Rightarrow> u16 \<Rightarrow> u64" where
  "virtual_address off l1 l2 l3 l4 =
     set_fld 39 9 (ucast l4) (set_fld 30 9 (ucast l3) (set_fld 21 9 (ucast l2)
       (set_fld 12 9 (ucast l1) (set_fld 0 12 (ucast off) 0))))"

definition va_plus_eq :: "u64 \<Rightarrow> u64 \<Rightarrow> u64" where "va_plus_eq lhs rhs = lhs + rhs"
definition va_plus :: "u64 \<Rightarrow> u64 \<Rightarrow> u64" where "va_plus lhs rhs = lhs + rhs"

text \<open>\<open>operator-=\<close> adds, as written.\<close>

definition va_minus_eq :: "u64 \<Rightarrow> u64 \<Rightarrow> u64" where "va_minus_eq lhs rhs = lhs + rhs"
definition va_minus :: "u64 \<Rightarrow> u64 \<Rightarrow> u64" where "va_minus lhs rhs = lhs - rhs"

lemma l_offset_less:
  "unat (l1_offset v) < 512" "unat (l2_offset v) < 512" "unat (l3_offset v) < 512" "unat (l4_offset v) < 512"
  "unat (va_offset v) < 4096"
  using fld_less[of 9 12 v] fld_less[of 9 21 v] fld_less[of 9 30 v] fld_less[of 9 39 v] fld_less[of 12 0 v]
  by (simp_all add: l1_offset_def l2_offset_def l3_offset_def l4_offset_def va_offset_def)

section \<open>Loops over bytes\<close>

text \<open>The byte-wise loops; \<open>memcpy\<close> and \<open>memset\<close> are string instructions, with these results.\<close>

fun memcmp :: "bytes \<Rightarrow> u64 \<Rightarrow> u64 \<Rightarrow> nat \<Rightarrow> int" where
  "memcmp m a b 0 = 0"
| "memcmp m a b (Suc n) = (if m a \<noteq> m b then uint (m a) - uint (m b) else memcmp m (a + 1) (b + 1) n)"

fun memset :: "u64 \<Rightarrow> u8 \<Rightarrow> nat \<Rightarrow> bytes \<Rightarrow> bytes" where
  "memset dst v 0 m = m"
| "memset dst v (Suc n) m = memset (dst + 1) v n (m(dst := v))"

definition memcpy :: "u64 \<Rightarrow> u64 \<Rightarrow> nat \<Rightarrow> bytes \<Rightarrow> bytes" where
  "memcpy dst src n m = wr_bytes dst (rd_bytes m src n) m"

lemma uint_eq_u8: "uint (x :: u8) = uint y \<longleftrightarrow> x = y"
  by (simp add: word_uint_eq_iff)

lemma map_upt_Suc0: "map f [0..<Suc n] = f 0 # map (\<lambda>i. f (Suc i)) [0..<n]"
  by (simp only: upt_conv_Cons map_Suc_upt[symmetric]) (simp del: upt_Suc add: upt_conv_Cons map_Suc_upt[symmetric])

lemma rd_bytes_Suc: "rd_bytes m a (Suc n) = m a # rd_bytes m (a + 1) n"
  unfolding rd_bytes_def map_upt_Suc0 by (simp add: algebra_simps)

lemma memcmp_eq_0: "memcmp m a b n = 0 \<longleftrightarrow> rd_bytes m a n = rd_bytes m b n"
  by (induction n arbitrary: a b) (auto simp: rd_bytes_Suc uint_eq_u8, simp add: rd_bytes_def)

text \<open>Zero-terminated strings, as the list of the bytes before the terminator.\<close>

fun strcmp :: "u8 list \<Rightarrow> u8 list \<Rightarrow> int" where
  "strcmp [] [] = 0"
| "strcmp [] (y # ys) = 0 - uint y"
| "strcmp (x # xs) [] = uint x"
| "strcmp (x # xs) (y # ys) = (if x \<noteq> y then uint x - uint y else strcmp xs ys)"

definition c_string :: "u8 list \<Rightarrow> bool" where
  "c_string xs \<longleftrightarrow> 0 \<notin> set xs"

lemma strcmp_eq_0: "c_string xs \<Longrightarrow> c_string ys \<Longrightarrow> strcmp xs ys = 0 \<longleftrightarrow> xs = ys"
  by (induction xs ys rule: strcmp.induct) (auto simp: c_string_def uint_0_iff uint_eq_u8)

end
