(* ===== verification/Bitmap.thy ===== *)
theory Bitmap
  imports KBase
begin

text \<open>
  Bit sets kept in byte arrays, as the physical allocator, the small-object heap and the uncached
  page allocator of PCI write them: bit \<open>index % 8\<close> of byte \<open>index / 8\<close>.
\<close>

definition bm_test :: "(u64 \<Rightarrow> u8) \<Rightarrow> u64 \<Rightarrow> bool" where
  "bm_test b i \<longleftrightarrow> b (i div 8) AND push_bit (unat (i mod 8)) 1 \<noteq> 0"

definition bm_put :: "bool \<Rightarrow> u64 \<Rightarrow> (u64 \<Rightarrow> u8) \<Rightarrow> (u64 \<Rightarrow> u8)" where
  "bm_put reserve i b =
     (if reserve then b(i div 8 := b (i div 8) OR push_bit (unat (i mod 8)) 1)
      else b(i div 8 := b (i div 8) AND NOT (push_bit (unat (i mod 8)) 1)))"

lemma and_push_bit_1: "w AND push_bit k 1 \<noteq> 0 \<longleftrightarrow> bit w k" for w :: u8
proof -
  have "w AND push_bit k 1 = (if bit w k then push_bit k 1 else 0)"
    by (rule bit_word_eqI) (auto simp: bit_simps)
  moreover have "bit w k \<Longrightarrow> bit (push_bit k 1 :: u8) k"
    using bit_imp_le_length[of w k] by (simp add: bit_simps)
  ultimately show ?thesis by (metis bit_0_eq bot_apply bot_bool_def)
qed

lemma bm_test_bit: "bm_test b i \<longleftrightarrow> bit (b (i div 8)) (unat (i mod 8))"
  unfolding bm_test_def by (rule and_push_bit_1)

lemma mod8_less: "unat (i mod 8 :: u64) < 8"
  by (simp add: unat_mod)

lemma div_mod8_eq: "i div 8 = j div 8 \<Longrightarrow> unat (i mod 8) = unat (j mod 8) \<Longrightarrow> i = (j :: u64)"
  by (metis div_mult_mod_eq word_cong_unat)

lemma bm_test_put [simp]: "bm_test (bm_put r i b) j \<longleftrightarrow> (if i = j then r else bm_test b j)"
proof (cases "i div 8 = j div 8")
  case True
  have eq: "unat (i mod 8) = unat (j mod 8) \<longleftrightarrow> i = j"
    using div_mod8_eq[OF True] by blast
  have "bm_test (bm_put r i b) j \<longleftrightarrow>
      (if unat (i mod 8) = unat (j mod 8) then r else bit (b (i div 8)) (unat (j mod 8)))"
    unfolding bm_test_bit bm_put_def using mod8_less[of j] True
    by (simp add: bit_simps)
  then show ?thesis
    unfolding eq by (simp add: bm_test_bit True)
next
  case False
  then show ?thesis by (auto simp: bm_test_bit bm_put_def)
qed

lemma bm_put_other: "k \<noteq> i div 8 \<Longrightarrow> bm_put r i b k = b k"
  by (simp add: bm_put_def)

text \<open>All bits clear.\<close>

lemma bm_test_zero [simp]: "\<not> bm_test (\<lambda>_. 0) i"
  by (simp add: bm_test_def)

text \<open>Writing a whole list of indices.\<close>

lemma bm_test_fold_put:
  "bm_test (fold (bm_put r) is b) j \<longleftrightarrow> (if j \<in> set is then r else bm_test b j)"
  by (induction "is" arbitrary: b) auto

end
