(* ===== verification/Multiboot.thy ===== *)
theory Multiboot
  imports KBase
begin

text \<open>
  \<^verbatim>\<open>src/high/multiboot2/multiboot2.cpp\<close>: the tag list the boot loader leaves in memory.  A tag is a
  32-bit type and a 32-bit length, tags start on 8-byte boundaries, and type 0 ends the list.
  \<open>getTag\<close> may loop for ever on a malformed list, so it is a partial function.
\<close>

section \<open>The code\<close>

text \<open>\<open>for(; offset % 8 != 0; offset++);\<close> runs at most seven times.\<close>

fun pad8 :: "nat \<Rightarrow> u64 \<Rightarrow> u64" where
  "pad8 0 off = off"
| "pad8 (Suc n) off = (if off mod 8 \<noteq> 0 then pad8 n (off + 1) else off)"

definition tag_header :: "u64 \<Rightarrow> bool \<Rightarrow> u64" where
  "tag_header address useTmpMapping = (if useTmpMapping then map_tmp address else address)"

partial_function (option) get_tag_loop :: "bytes \<Rightarrow> u64 \<Rightarrow> u64 \<Rightarrow> u32 \<Rightarrow> u64 \<Rightarrow> u64 res option" where
  "get_tag_loop m header tsize tagType offset =
     (let type = rd32 m (header + offset);
          length = rd32 m (header + offset + 4)
      in if type = 0 then Some (Ret 0)
         else if type = tagType then Some (Ret (header + offset))
         else
           let offset' = pad8 7 (offset + ucast length)
           in if offset' \<ge> tsize then Some (Stop (Panic ''invalid multiboot2 header''))
              else get_tag_loop m header tsize tagType offset')"

definition get_tag :: "bytes \<Rightarrow> u64 \<Rightarrow> u32 \<Rightarrow> bool \<Rightarrow> u64 res option" where
  "get_tag m address tagType useTmpMapping =
     (let header = tag_header address useTmpMapping
      in get_tag_loop m header (ucast (rd32 m header)) tagType 8)"

definition get_total_size :: "bytes \<Rightarrow> u64 \<Rightarrow> bool \<Rightarrow> u64" where
  "get_total_size m address useTmpMapping = ucast (rd32 m (tag_header address useTmpMapping))"

section \<open>Padding\<close>

lemma pad8_aligned: "pad8 7 off mod 8 = 0"
proof -
  define k where "k = unat (off mod 8)"
  have "\<And>n o'. (8 - unat (o' mod 8)) mod 8 \<le> n \<Longrightarrow> pad8 n o' mod 8 = (0 :: u64)"
  proof -
    fix n and o' :: u64
    assume "(8 - unat (o' mod 8)) mod 8 \<le> n"
    then show "pad8 n o' mod 8 = 0"
    proof (induction n arbitrary: o')
      case 0
      have "unat (o' mod 8) < 8" by (simp add: unat_mod)
      with 0 have "unat (o' mod 8) = 0" by (cases "unat (o' mod 8) = 0") auto
      then show ?case by (simp add: word_cong_unat)
    next
      case (Suc n)
      show ?case
      proof (cases "o' mod 8 = 0")
        case False
        have u: "unat ((o' + 1) mod 8) = (unat (o' mod 8) + 1) mod 8"
          by (simp add: unat_mod unat_word_ariths mod_mod_cancel mod_Suc_eq)
        have "unat (o' mod 8) < 8" "unat (o' mod 8) \<noteq> 0"
          using False by (simp_all add: unat_mod word_cong_unat)
        with Suc.prems u have "(8 - unat ((o' + 1) mod 8)) mod 8 \<le> n"
          by (cases "unat (o' mod 8) = 7") auto
        from Suc.IH[OF this] False show ?thesis by simp
      qed simp
    qed
  qed
  from this[of off 7] show ?thesis
    using mod_less_divisor[of 8 "8 - unat (off mod 8)"] by simp
qed

section \<open>Well-formed tag lists\<close>

text \<open>\<open>tag_chain m h tsize off ts\<close>: from offset \<open>off\<close> the memory holds the tags \<open>ts\<close>, each inside
  the table, then the end tag.  \<open>tag_at\<close> is the address of the first tag of a type.\<close>

fun tag_chain :: "bytes \<Rightarrow> u64 \<Rightarrow> u64 \<Rightarrow> u64 \<Rightarrow> (u32 \<times> u32) list \<Rightarrow> bool" where
  "tag_chain m h tsize off [] \<longleftrightarrow> rd32 m (h + off) = 0"
| "tag_chain m h tsize off ((t, l) # ts) \<longleftrightarrow>
     t \<noteq> 0 \<and> rd32 m (h + off) = t \<and> rd32 m (h + off + 4) = l \<and>
     pad8 7 (off + ucast l) < tsize \<and> tag_chain m h tsize (pad8 7 (off + ucast l)) ts"

fun tag_at :: "u64 \<Rightarrow> u64 \<Rightarrow> u32 \<Rightarrow> (u32 \<times> u32) list \<Rightarrow> u64" where
  "tag_at h off tt [] = 0"
| "tag_at h off tt ((t, l) # ts) = (if t = tt then h + off else tag_at h (pad8 7 (off + ucast l)) tt ts)"

lemma get_tag_loop_chain:
  "tag_chain m h tsize off ts \<Longrightarrow> get_tag_loop m h tsize tt off = Some (Ret (tag_at h off tt ts))"
proof (induction ts arbitrary: off)
  case Nil
  then show ?case by (subst get_tag_loop.simps) (simp add: Let_def)
next
  case (Cons a ts)
  obtain t l where a: "a = (t, l)" by (cases a)
  from Cons show ?case
    by (subst get_tag_loop.simps) (auto simp: a Let_def)
qed

section \<open>Properties\<close>

text \<open>On a well-formed multiboot2 information structure \<open>getTag\<close> terminates and returns the
  address of the first tag of the requested type, or null when the list has none.\<close>

theorem get_tag_finds_first:
  assumes "tag_chain m (tag_header address tmp) (get_total_size m address tmp) 8 ts"
  shows "get_tag m address tt tmp = Some (Ret (tag_at (tag_header address tmp) 8 tt ts))"
  using get_tag_loop_chain[OF assms] by (simp add: get_tag_def get_total_size_def Let_def)

definition demo_tags :: bytes where
  "demo_tags = (\<lambda>_. 0)(0 := 40, 8 := 1, 12 := 12, 24 := 6, 28 := 8)"

lemma get_tag_finds_first_witness: "get_tag demo_tags 0 6 False = Some (Ret 24)"
proof -
  have "tag_chain demo_tags (tag_header 0 False) (get_total_size demo_tags 0 False) 8 [(1, 12), (6, 8)]"
    by code_simp
  moreover have "tag_at (tag_header 0 False) 8 6 [(1, 12), (6, 8)] = 24" by code_simp
  ultimately show ?thesis using get_tag_finds_first by metis
qed

end
