(* ===== verification/PhysAlloc.thy ===== *)
theory PhysAlloc
  imports Bitmap Multiboot
begin

text \<open>
  \<^verbatim>\<open>src/high/memory/mem.cpp\<close>, namespace \<open>PhysicalAllocator\<close>: the allocator of physical pages.  It
  keeps a copy of the boot loader's memory map and one bit per page of available memory; the bit
  index of a page counts the pages of the available regions in the order of the map.  The
  bitmap's bytes are their own array here, apart from the memory they lie in.
\<close>

section \<open>State\<close>

record mem_entry =
  base_addr :: u64
  mem_length :: u64
  mem_type :: u32

record phys_state =
  info :: bytes                  \<comment> \<open>\<open>multiboot_memory_info\<close>\<close>
  info_size :: u64               \<comment> \<open>\<open>multiboot_memory_info_size\<close>\<close>
  total_memory :: u64
  bitmap :: "u64 \<Rightarrow> u8"       \<comment> \<open>the bytes at \<open>physical_memory_bitmap\<close>\<close>
  bitmap_ptr :: u64              \<comment> \<open>\<open>physical_memory_bitmap\<close>\<close>
  bitmap_size :: u64             \<comment> \<open>\<open>physical_memory_bitmap_size\<close>\<close>
  last_checked :: u64            \<comment> \<open>\<open>last_checked_memory_bitmap_index\<close>\<close>

text \<open>Addresses that the linker provides.\<close>

record link_symbols =
  trampolineStart :: u64
  trampolineEnd :: u64
  physical_start :: u64
  physical_end :: u64

section \<open>The memory map\<close>

text \<open>The entries, as the three loops over the map read them.  An entry size of zero divides by
  zero.\<close>

definition entry_at :: "bytes \<Rightarrow> u32 \<Rightarrow> nat \<Rightarrow> mem_entry" where
  "entry_at mb esize i =
     (let a = 8 + ucast (of_nat i * esize :: u32)
      in \<lparr>base_addr = rd64 mb a, mem_length = rd64 mb (a + 8), mem_type = rd32 mb (a + 16)\<rparr>)"

definition mem_entries :: "phys_state \<Rightarrow> mem_entry list res" where
  "mem_entries s =
     (let esize = rd32 (info s) 0
      in if esize = 0 then Stop Undef
         else let entry_count = ucast ((info_size s - 4) div ucast esize) :: u32
              in Ret (map (entry_at (info s) esize) [0..<unat entry_count]))"

fun index_loop :: "mem_entry list \<Rightarrow> u64 \<Rightarrow> u64 option" where
  "index_loop [] index = None"
| "index_loop (e # es) index =
     (if mem_type e = 1
      then if index * page_size < mem_length e then Some (base_addr e + index * page_size)
           else index_loop es (index - mem_length e div page_size)
      else index_loop es index)"

definition index_to_physical :: "phys_state \<Rightarrow> u64 \<Rightarrow> u64 option res" where
  "index_to_physical s index = bindr (mem_entries s) (\<lambda>es. Ret (index_loop es index))"

fun page_loop :: "mem_entry list \<Rightarrow> u64 \<Rightarrow> u64 \<Rightarrow> u64 option" where
  "page_loop [] aligned current = None"
| "page_loop (e # es) aligned current =
     (if mem_type e = 1
      then if aligned \<ge> base_addr e \<and> aligned - base_addr e < mem_length e
           then Some (current + (aligned - base_addr e) div page_size)
           else page_loop es aligned (current + mem_length e div page_size)
      else page_loop es aligned current)"

definition page_align :: "u64 \<Rightarrow> u64" where
  "page_align a = a AND NOT (page_size - 1)"

definition physical_to_index :: "phys_state \<Rightarrow> u64 \<Rightarrow> u64 option res" where
  "physical_to_index s a = bindr (mem_entries s) (\<lambda>es. Ret (page_loop es (page_align a) 0))"

section \<open>Reserving and releasing\<close>

text \<open>The page-by-page loop of \<open>reserveMemory\<close>: \<open>n\<close> bounds its rounds, one for each page between
  \<open>start\<close> and \<open>end\<close>.\<close>

fun reserve_pages :: "nat \<Rightarrow> mem_entry list \<Rightarrow> bool \<Rightarrow> u64 \<Rightarrow> u64 \<Rightarrow> (u64 \<Rightarrow> u8) \<Rightarrow> (u64 \<Rightarrow> u8)" where
  "reserve_pages 0 es reserve start endp b = b"
| "reserve_pages (Suc n) es reserve start endp b =
     (if start < endp
      then reserve_pages n es reserve (start + page_size) endp
             (case page_loop es (page_align start) 0 of
                Some index \<Rightarrow> bm_put reserve index b
              | None \<Rightarrow> b)
      else b)"

text \<open>The loop over the indices from \<open>index\<close>, \<open>n\<close> of them.\<close>

fun reserve_indices :: "nat \<Rightarrow> bool \<Rightarrow> u64 \<Rightarrow> (u64 \<Rightarrow> u8) \<Rightarrow> (u64 \<Rightarrow> u8)" where
  "reserve_indices 0 reserve index b = b"
| "reserve_indices (Suc n) reserve index b = reserve_indices n reserve (index + 1) (bm_put reserve index b)"

definition reserve_bits :: "mem_entry list \<Rightarrow> u64 \<Rightarrow> u64 \<Rightarrow> bool \<Rightarrow> (u64 \<Rightarrow> u8) \<Rightarrow> (u64 \<Rightarrow> u8)" where
  "reserve_bits es start sz reserve b =
     (let endp = page_align (start + sz + (page_size - 1));
          startIndexOpt = page_loop es (page_align start) 0;
          endIndexOpt = page_loop es (page_align endp) 0
      in case (startIndexOpt, endIndexOpt) of
           (Some startIndex, Some endIndex) \<Rightarrow>
             reserve_indices (unat endIndex - unat startIndex) reserve startIndex b
         | _ \<Rightarrow> reserve_pages ((unat endp - unat start + 4095) div 4096) es reserve start endp b)"

definition reserve_memory :: "u64 \<Rightarrow> u64 \<Rightarrow> bool \<Rightarrow> phys_state \<Rightarrow> phys_state res" where
  "reserve_memory start sz reserve s =
     (if sz = 0 then Ret s
      else bindr (mem_entries s) (\<lambda>es. Ret (s\<lparr>bitmap := reserve_bits es start sz reserve (bitmap s)\<rparr>)))"

section \<open>Allocating and freeing\<close>

text \<open>The inner loop of \<open>alloc\<close>: the first allocated page among \<open>n\<close> from \<open>last + i\<close>, if any.\<close>

fun alloc_scan :: "phys_state \<Rightarrow> nat \<Rightarrow> u64 \<Rightarrow> u64 option" where
  "alloc_scan s 0 i = None"
| "alloc_scan s (Suc n) i =
     (let index = (last_checked s + i) mod bitmap_size s
      in if bm_test (bitmap s) index then Some index else alloc_scan s n (i + 1))"

text \<open>What happens at the first run of \<open>count\<close> free pages.\<close>

definition alloc_found :: "u64 \<Rightarrow> phys_state \<Rightarrow> (u64 option \<times> phys_state) res" where
  "alloc_found count s =
     bindr (index_to_physical s (last_checked s)) (\<lambda>address.
       case address of
         None \<Rightarrow> Ret (None, s)
       | Some a \<Rightarrow> bindr (reserve_memory a (count * page_size) True s) (\<lambda>s'. Ret (Some a, s')))"

partial_function (option) alloc_loop ::
    "u64 \<Rightarrow> u64 \<Rightarrow> phys_state \<Rightarrow> (u64 option \<times> phys_state) res option" where
  "alloc_loop stop_infinite_loop count s =
     (let s1 = s\<lparr>last_checked := (last_checked s + 1) mod bitmap_size s\<rparr>
      in case alloc_scan s1 (unat count) 0 of
           None \<Rightarrow> Some (alloc_found count s1)
         | Some index \<Rightarrow>
             (let s2 = s1\<lparr>last_checked := index\<rparr>
              in if stop_infinite_loop \<noteq> last_checked s2
                 then alloc_loop stop_infinite_loop count s2
                 else Some (Ret (None, s2))))"

definition phys_alloc :: "u64 \<Rightarrow> phys_state \<Rightarrow> (u64 option \<times> phys_state) res option" where
  "phys_alloc count s =
     (if bitmap_size s = 0 then Some (Stop Undef) else alloc_loop (last_checked s) count s)"

definition phys_free :: "u64 \<Rightarrow> u64 \<Rightarrow> phys_state \<Rightarrow> phys_state res" where
  "phys_free address count s = reserve_memory address (count * page_size) False s"

definition phys_clear_startup :: "phys_state \<Rightarrow> phys_state" where
  "phys_clear_startup s = s\<lparr>bitmap_ptr := map_tmp (bitmap_ptr s)\<rparr>"

section \<open>Initialisation\<close>

definition reserved_regions :: "link_symbols \<Rightarrow> interval list" where
  "reserved_regions k =
     [\<lparr>left = trampolineStart k, right = trampolineEnd k\<rparr>,
      \<lparr>left = physical_start k, right = physical_end k\<rparr>,
      \<lparr>left = 0xA0000, right = 0x100000\<rparr>]"

text \<open>A free place of \<open>sz\<close> bytes in a region, off the reserved ranges.\<close>

partial_function (option) find_subregion ::
    "link_symbols \<Rightarrow> interval \<Rightarrow> u64 \<Rightarrow> interval option option" where
  "find_subregion k region sz =
     (if iv_size region < sz then Some None
      else case List.find (intersects region) (reserved_regions k) of
        None \<Rightarrow> Some (Some \<lparr>left = left region, right = left region + sz\<rparr>)
      | Some r \<Rightarrow>
          (let before = \<lparr>left = left region, right = left r - 2\<rparr>;
               after = \<lparr>left = right r + 2, right = right region\<rparr>
           in Option.bind (if iv_valid before then find_subregion k before sz else Some None) (\<lambda>res1.
                case res1 of
                  Some x \<Rightarrow> Some (Some x)
                | None \<Rightarrow> if iv_valid after then find_subregion k after sz else Some None)))"

fun place_bitmap :: "link_symbols \<Rightarrow> u64 \<Rightarrow> mem_entry list \<Rightarrow> u64 res option" where
  "place_bitmap k sz [] = Some (Stop (Panic ''could not store memory bitmap''))"
| "place_bitmap k sz (e # es) =
     (if mem_type e = 1 \<and> mem_length e > sz \<and> base_addr e + sz \<le> Gi 1
      then Option.bind (find_subregion k \<lparr>left = base_addr e, right = base_addr e + mem_length e\<rparr> sz)
             (\<lambda>sub. case sub of Some r \<Rightarrow> Some (Ret (left r)) | None \<Rightarrow> place_bitmap k sz es)
      else place_bitmap k sz es)"

definition total_available :: "mem_entry list \<Rightarrow> u64" where
  "total_available es = fold (\<lambda>e n. if mem_type e = 1 then n + mem_length e else n) es 0"

text \<open>The reservations of \<open>init\<close>, in order; the first two are made before the size of the boot information is read.\<close>

definition first_reservations :: "u64 \<Rightarrow> u64 \<Rightarrow> (u64 \<times> u64) list" where
  "first_reservations bm bmsize = [(bm, bmsize), (0, page_size)]"

definition other_reservations :: "link_symbols \<Rightarrow> u64 \<Rightarrow> u64 \<Rightarrow> (u64 \<times> u64) list" where
  "other_reservations k mbi mbsize =
     [(mbi, mbsize),
      (trampolineStart k, trampolineEnd k - trampolineStart k),
      (physical_start k, physical_end k - physical_start k),
      (0xA0000, 0x100000 - 0xA0000)]"

definition init_reservations :: "link_symbols \<Rightarrow> u64 \<Rightarrow> u64 \<Rightarrow> u64 \<Rightarrow> u64 \<Rightarrow> (u64 \<times> u64) list" where
  "init_reservations k bm bmsize mbi mbsize = first_reservations bm bmsize @ other_reservations k mbi mbsize"

text \<open>Memory with the bitmap in it.\<close>

definition with_bitmap :: "phys_state \<Rightarrow> bytes \<Rightarrow> bytes" where
  "with_bitmap s m = (\<lambda>a. if a - bitmap_ptr s < bitmap_size s then bitmap s (a - bitmap_ptr s) else m a)"

fun reserve_all :: "(u64 \<times> u64) list \<Rightarrow> phys_state \<Rightarrow> phys_state res" where
  "reserve_all [] s = Ret s"
| "reserve_all ((a, n) # rs) s = bindr (reserve_memory a n True s) (reserve_all rs)"

definition copy_info :: "bytes \<Rightarrow> u64 \<Rightarrow> u64 \<Rightarrow> bytes \<Rightarrow> bytes" where
  "copy_info m src n old = (\<lambda>i. if i < n then m (src + i) else old i)"

text \<open>\<open>init\<close>; \<open>m\<close> is the memory at the time of the call.  The size of the boot information is read when the bitmap is
  already in memory.  \<open>phys_init_map\<close> is its second half,
  once the memory map has been copied.\<close>

definition phys_init_map :: "link_symbols \<Rightarrow> bytes \<Rightarrow> u64 \<Rightarrow> phys_state \<Rightarrow> mem_entry list \<Rightarrow> phys_state res option" where
  "phys_init_map k m mbi s es =
     (let total = total_available es;
          bsize = total div page_size
      in Option.bind (place_bitmap k bsize es) (\<lambda>place.
           Some (bindr place (\<lambda>bm.
             bindr (reserve_all (first_reservations bm bsize)
               (s\<lparr>total_memory := total, bitmap_size := bsize, bitmap_ptr := bm, bitmap := (\<lambda>_. 0)\<rparr>)) (\<lambda>s1.
             bindr (reserve_all (other_reservations k mbi (get_total_size (with_bitmap s1 m) mbi False)) s1)
               (\<lambda>s2. Ret (s2\<lparr>last_checked := 0\<rparr>)))))))"

definition phys_init :: "link_symbols \<Rightarrow> bytes \<Rightarrow> u64 \<Rightarrow> phys_state \<Rightarrow> phys_state res option" where
  "phys_init k m mbi s =
     Option.bind (get_tag m mbi 6 False) (\<lambda>tag.
       case tag of Inl h \<Rightarrow> Some (Stop h)
       | Inr entry \<Rightarrow>
           if entry = 0 then Some (Stop (Panic ''no memory info found''))
           else
             let isize = ucast (rd32 m (entry + 4)) - 8 in
             if isize > page_size then Some (Stop (Panic ''multiboot_memory_info_size > page_size''))
             else
               let s1 = s\<lparr>info := copy_info m (entry + 8) isize (info s), info_size := isize\<rparr> in
               case mem_entries s1 of Inl h \<Rightarrow> Some (Stop h) | Inr es \<Rightarrow> phys_init_map k m mbi s1 es)"

section \<open>The memory map as a list of page frames\<close>

lemma page_align_shift: "page_align a = push_bit 12 (drop_bit 12 a)"
proof -
  have "page_size - 1 = mask 12" by (simp add: page_size_def mask_eq_exp_minus_1)
  then have "page_align a = a AND NOT (mask 12)" by (simp add: page_align_def)
  also have "\<dots> = push_bit 12 (drop_bit 12 a)"
    by (rule bit_word_eqI) (auto simp: bit_simps)
  finally show ?thesis .
qed

lemma unat_page_align: "unat (page_align a) = unat a div 4096 * 4096"
proof -
  have "unat (drop_bit 12 a) = unat a div 4096"
    by (simp only: unat_drop_bit_eq) (simp add: drop_bit_eq_div)
  moreover have "unat a div 4096 * 4096 < 2 ^ 64"
    using unat_u64[of a] by linarith
  ultimately show ?thesis
    by (simp add: page_align_shift push_bit_eq_mult unat_mult_u64 mult.commute)
qed

lemma unat_div_page: "unat (a div page_size) = unat a div 4096"
proof -
  have "unat page_size = 4096" by (simp add: page_size_def)
  then show ?thesis by (simp only: unat_div_distrib)
qed

lemma div_page_of_nat: "a div page_size = of_nat (unat a div 4096)"
  by (rule word_eq_of_nat) (rule unat_div_page)

text \<open>The page frame numbers of the available regions, in the order of the map.\<close>

fun pages :: "mem_entry list \<Rightarrow> nat list" where
  "pages [] = []"
| "pages (e # es) =
     (if mem_type e = 1
      then [unat (base_addr e) div 4096..<(unat (base_addr e) + unat (mem_length e)) div 4096] @ pages es
      else pages es)"

text \<open>Available regions in ascending order, of whole pages, below \<open>2^63\<close>.\<close>

fun map_ok :: "nat \<Rightarrow> mem_entry list \<Rightarrow> bool" where
  "map_ok lo [] \<longleftrightarrow> True"
| "map_ok lo (e # es) \<longleftrightarrow>
     (if mem_type e = 1
      then lo \<le> unat (base_addr e) \<and> 4096 dvd unat (base_addr e) \<and> 4096 dvd unat (mem_length e) \<and>
           unat (base_addr e) + unat (mem_length e) \<le> 2 ^ 63 \<and>
           map_ok (unat (base_addr e) + unat (mem_length e)) es
      else map_ok lo es)"

lemma pages_bounds: "map_ok lo es \<Longrightarrow> p \<in> set (pages es) \<Longrightarrow> lo \<le> p * 4096 \<and> Suc p * 4096 \<le> 2 ^ 63"
proof (induction lo es rule: map_ok.induct)
  case (2 lo e es)
  then show ?case by (auto split: if_splits) 
qed simp


lemma pages_sorted: "map_ok lo es \<Longrightarrow> sorted_wrt (<) (pages es)"
proof (induction lo es rule: map_ok.induct)
  case (2 lo e es)
  show ?case
  proof (cases "mem_type e = 1")
    case True
    let ?u = "unat (base_addr e) + unat (mem_length e)"
    have ok: "map_ok ?u es" using 2(3) True by simp
    have "x < y" if "x \<in> set [unat (base_addr e) div 4096..<?u div 4096]" "y \<in> set (pages es)" for x y
    proof -
      have "x < ?u div 4096" using that(1) by simp
      moreover have "?u \<le> y * 4096" using pages_bounds[OF ok that(2)] by simp
      ultimately show ?thesis by linarith
    qed
    then have "sorted_wrt (<) ([unat (base_addr e) div 4096..<?u div 4096] @ pages es)"
      unfolding sorted_wrt_append using sorted_wrt_upt 2(1)[OF True ok] by blast
    with True show ?thesis by (simp only: pages.simps refl if_True)
  next
    case False
    with 2(2,3) show ?thesis by simp
  qed
qed simp

lemma pages_distinct: "map_ok lo es \<Longrightarrow> distinct (pages es)"
  by (drule pages_sorted) (simp add: strict_sorted_iff)

lemma length_pages_bound: "map_ok lo es \<Longrightarrow> length (pages es) \<le> 2 ^ 51"
proof -
  assume ok: "map_ok lo es"
  have "set (pages es) \<subseteq> {..<2 ^ 51}"
  proof
    fix p assume "p \<in> set (pages es)"
    then have "Suc p * 4096 \<le> 2 ^ 63" using pages_bounds[OF ok] by blast
    then have "p < 2 ^ 51" by simp
    then show "p \<in> {..<2 ^ 51}" by blast
  qed
  then have "card (set (pages es)) \<le> 2 ^ 51"
    by (metis card_lessThan card_mono finite_lessThan)
  with pages_distinct[OF ok] show ?thesis by (simp add: distinct_card)
qed

lemma index_loop_pages:
  "map_ok lo es \<Longrightarrow> unat i < 2 ^ 52 \<Longrightarrow>
     index_loop es i = (if unat i < length (pages es) then Some (of_nat (pages es ! unat i * 4096)) else None)"
proof (induction es arbitrary: lo i)
  case (Cons e es)
  show ?case
  proof (cases "mem_type e = 1")
    case True
    define b l where "b = unat (base_addr e) div 4096" and "l = unat (mem_length e) div 4096"
    have bl: "unat (base_addr e) = b * 4096" "unat (mem_length e) = l * 4096" "b + l \<le> 2 ^ 51"
      "map_ok (unat (base_addr e) + unat (mem_length e)) es"
      using Cons.prems True by (auto simp: b_def l_def)
    have sz: "(b * 4096 + l * 4096) div 4096 = b + l" by simp
    have im: "unat (i * page_size) = unat i * 4096"
      using Cons.prems(2) by (subst unat_mult_u64) (simp_all add: page_size_def)
    show ?thesis
    proof (cases "unat i < l")
      case less: True
      have "unat (base_addr e + i * page_size) = (b + unat i) * 4096"
        using bl less im by (subst unat_add_u64) (simp_all add: algebra_simps)
      then have "base_addr e + i * page_size = of_nat ((b + unat i) * 4096)" by (rule word_eq_of_nat)
      with less True bl im show ?thesis
        by (simp add: unat_less_iff sz nth_append)
    next
      case False
      have "unat (i - mem_length e div page_size) = unat i - l"
        using False by (subst unat_diff_u64) (simp_all add: unat_le_iff unat_div_page l_def)
      with False True bl im Cons.IH[OF bl(4), of "i - mem_length e div page_size"] Cons.prems(2) show ?thesis
        by (auto simp add: unat_less_iff sz nth_append)
    qed
  qed (use Cons in auto)
qed simp

lemma page_loop_pages:
  assumes "map_ok lo es" "unat a = p * 4096"
  shows "page_loop es a c =
     (if p \<in> set (pages es) then Some (c + of_nat (index_of ((=) p) (pages es))) else None)"
  using assms(1)
proof (induction es arbitrary: lo c)
  case (Cons e es)
  show ?case
  proof (cases "mem_type e = 1")
    case True
    define b l where "b = unat (base_addr e) div 4096" and "l = unat (mem_length e) div 4096"
    have bl: "unat (base_addr e) = b * 4096" "unat (mem_length e) = l * 4096" "b + l \<le> 2 ^ 51"
      "map_ok (unat (base_addr e) + unat (mem_length e)) es"
      using Cons.prems True by (auto simp: b_def l_def)
    have sz: "(b * 4096 + l * 4096) div 4096 = b + l" by simp
    have d: "unat (a - base_addr e) = (p - b) * 4096" if "b \<le> p"
      using that assms(2) bl by (subst unat_diff_u64) (simp_all add: unat_le_iff diff_mult_distrib)
    show ?thesis
    proof (cases "b \<le> p \<and> p < b + l")
      case inn: True
      have "p - b < l" using inn by linarith
      then have "page_loop (e # es) a c = Some (c + (a - base_addr e) div page_size)"
        using True inn bl assms(2) d by (simp add: unat_le_iff unat_less_iff)
      moreover have "(a - base_addr e) div page_size = of_nat (p - b)"
        using d inn by (simp add: div_page_of_nat)
      ultimately show ?thesis
        using True inn bl by (simp add: sz index_of_append index_of_upt)
    next
      case out: False
      have "\<not> (a \<ge> base_addr e \<and> a - base_addr e < mem_length e)"
        using out bl assms(2) d by (auto simp: unat_le_iff unat_less_iff)
      then have "page_loop (e # es) a c = page_loop es a (c + mem_length e div page_size)"
        using True by auto
      also have "\<dots> = (if p \<in> set (pages es) then Some (c + of_nat l + of_nat (index_of ((=) p) (pages es))) else None)"
        using Cons.IH[OF bl(4)] by (simp add: div_page_of_nat l_def)
      finally show ?thesis
        using True out bl by (auto simp add: sz index_of_append add.assoc)
    qed
  qed (use Cons in auto)
qed simp


section \<open>Reserving\<close>

lemma pages_nth_less:
  assumes "map_ok lo es" "i < length (pages es)" "k < length (pages es)"
  shows "pages es ! i < pages es ! k \<longleftrightarrow> i < k" "pages es ! i \<le> pages es ! k \<longleftrightarrow> i \<le> k"
proof -
  have st: "\<And>m n. m < n \<Longrightarrow> n < length (pages es) \<Longrightarrow> pages es ! m < pages es ! n"
    using pages_sorted[OF assms(1)] by (simp add: sorted_wrt_iff_nth_less)
  show "pages es ! i < pages es ! k \<longleftrightarrow> i < k"
    using st[of i k] st[of k i] assms by (cases i k rule: linorder_cases) auto
  show "pages es ! i \<le> pages es ! k \<longleftrightarrow> i \<le> k"
    using st[of i k] st[of k i] assms by (cases i k rule: linorder_cases) auto
qed

lemma index_of_page:
  assumes "map_ok lo es" "p \<in> set (pages es)"
  shows "index_of ((=) p) (pages es) < length (pages es)" "pages es ! index_of ((=) p) (pages es) = p"
    "unat (of_nat (index_of ((=) p) (pages es)) :: u64) = index_of ((=) p) (pages es)"
proof -
  show l: "index_of ((=) p) (pages es) < length (pages es)"
    using assms(2) by (auto simp: index_of_less)
  show "pages es ! index_of ((=) p) (pages es) = p" by (rule index_of_mem[OF assms(2)])
  have "index_of ((=) p) (pages es) < 2 ^ 64" using l length_pages_bound[OF assms(1)] by simp
  then show "unat (of_nat (index_of ((=) p) (pages es)) :: u64) = index_of ((=) p) (pages es)"
    by (rule unat_of_nat_u64)
qed

lemma reserve_indices_test:
  "unat i + n < 2 ^ 64 \<Longrightarrow>
     bm_test (reserve_indices n r i b) j \<longleftrightarrow> (if unat i \<le> unat j \<and> unat j < unat i + n then r else bm_test b j)"
proof (induction n arbitrary: i b)
  case (Suc n)
  have u: "unat (i + 1) = unat i + 1" using Suc.prems by (subst unat_add_u64) simp_all
  have "i = j \<longleftrightarrow> unat i = unat j" by (rule word_cong_unat)
  then show ?case using Suc u by auto
qed auto

lemma reserve_pages_test:
  assumes "map_ok lo es" "unat endp = pe * 4096" "pe \<le> unat start div 4096 + n"
  shows "bm_test (reserve_pages n es r start endp b) j \<longleftrightarrow>
     (if unat j < length (pages es) \<and> unat start div 4096 \<le> pages es ! unat j \<and> pages es ! unat j < pe
      then r else bm_test b j)"
  using assms(3)
proof (induction n arbitrary: start b)
  case 0
  then show ?case by auto
next
  case (Suc n)
  let ?p = "unat start div 4096"
  show ?case
  proof (cases "start < endp")
    case True
    then have lt: "unat start < pe * 4096" by (simp add: unat_less_iff assms(2))
    then have p: "?p < pe" by linarith
    have "pe * 4096 < 2 ^ 64" using unat_u64[of endp] assms(2) by simp
    then have "pe < 2 ^ 52" by simp
    with lt have "unat start + unat page_size < 2 ^ 64" by (simp add: page_size_def)
    then have u: "unat (start + page_size) = unat start + 4096"
      by (subst unat_add_u64) (simp_all add: page_size_def)
    then have u2: "unat (start + page_size) div 4096 = ?p + 1" by simp
    let ?b = "case page_loop es (page_align start) 0 of Some index \<Rightarrow> bm_put r index b | None \<Rightarrow> b"
    have bit: "bm_test ?b j \<longleftrightarrow> (if unat j < length (pages es) \<and> pages es ! unat j = ?p then r else bm_test b j)"
    proof (cases "?p \<in> set (pages es)")
      case inp: True
      let ?i = "index_of ((=) ?p) (pages es)"
      have "of_nat ?i = j \<longleftrightarrow> unat j = ?i"
        using index_of_page(3)[OF assms(1) inp] by (auto simp: word_cong_unat)
      also have "\<dots> \<longleftrightarrow> unat j < length (pages es) \<and> pages es ! unat j = ?p"
        using index_of_page(1,2)[OF assms(1) inp] nth_eq_iff_index_eq[OF pages_distinct[OF assms(1)]] by metis
      finally show ?thesis
        using page_loop_pages[OF assms(1) unat_page_align, of start 0] inp by simp
    next
      case False
      then show ?thesis
        using page_loop_pages[OF assms(1) unat_page_align, of start 0] nth_mem[of "unat j" "pages es"]
        by (auto simp del: nth_mem)
    qed
    have "pe \<le> unat (start + page_size) div 4096 + n" using Suc.prems u2 by simp
    from Suc.IH[OF this, of ?b] have
      "bm_test (reserve_pages (Suc n) es r start endp b) j \<longleftrightarrow>
       (if unat j < length (pages es) \<and> ?p + 1 \<le> pages es ! unat j \<and> pages es ! unat j < pe then r else bm_test ?b j)"
      using True by (simp add: u2)
    then show ?thesis unfolding bit using p by auto
  next
    case False
    then have "pe * 4096 \<le> unat start" by (simp add: unat_less_iff assms(2))
    then have "pe \<le> ?p" by linarith
    with False show ?thesis by auto
  qed
qed

lemma reserve_bits_test:
  assumes ok: "map_ok lo es" and ov: "unat start + unat sz + 4095 < 2 ^ 64"
  shows "bm_test (reserve_bits es start sz r b) j \<longleftrightarrow>
     (if unat j < length (pages es) \<and> unat start div 4096 \<le> pages es ! unat j \<and>
         pages es ! unat j < (unat start + unat sz + 4095) div 4096
      then r else bm_test b j)"
proof -
  define ps pe endp where "ps = unat start div 4096" and "pe = (unat start + unat sz + 4095) div 4096"
    and "endp = page_align (start + sz + (page_size - 1))"
  have pm: "unat (page_size - 1) = 4095" by (simp add: page_size_def)
  have ss: "unat (start + sz) = unat start + unat sz" using ov by (subst unat_add_u64) simp_all
  have "unat (start + sz + (page_size - 1)) = unat start + unat sz + 4095"
    using ov by (subst unat_add_u64) (simp_all only: ss pm)
  then have e: "unat endp = pe * 4096" "unat (page_align endp) = pe * 4096"
    by (simp_all add: endp_def unat_page_align pe_def)
  have si: "page_loop es (page_align start) 0 =
      (if ps \<in> set (pages es) then Some (of_nat (index_of ((=) ps) (pages es))) else None)"
    using page_loop_pages[OF ok unat_page_align, of start 0] by (simp add: ps_def)
  have ei: "page_loop es (page_align endp) 0 =
      (if pe \<in> set (pages es) then Some (of_nat (index_of ((=) pe) (pages es))) else None)"
    using page_loop_pages[OF ok e(2), of 0] by simp
  show ?thesis
  proof (cases "ps \<in> set (pages es) \<and> pe \<in> set (pages es)")
    case True
    define i k where "i = index_of ((=) ps) (pages es)" and "k = index_of ((=) pe) (pages es)"
    have ik: "i < length (pages es)" "k < length (pages es)" "pages es ! i = ps" "pages es ! k = pe"
      "unat (of_nat i :: u64) = i" "unat (of_nat k :: u64) = k"
      using index_of_page[OF ok] True by (auto simp: i_def k_def)
    have "bm_test (reserve_bits es start sz r b) j \<longleftrightarrow>
        bm_test (reserve_indices (k - i) r (of_nat i) b) j"
      unfolding reserve_bits_def Let_def endp_def[symmetric] si ei using True ik(5,6)
      by (simp add: i_def[symmetric] k_def[symmetric])
    also have "\<dots> \<longleftrightarrow> (if i \<le> unat j \<and> unat j < i + (k - i) then r else bm_test b j)"
      using reserve_indices_test[of "of_nat i" "k - i" r b j] ik length_pages_bound[OF ok] by simp
    also have "i \<le> unat j \<and> unat j < i + (k - i) \<longleftrightarrow>
        unat j < length (pages es) \<and> ps \<le> pages es ! unat j \<and> pages es ! unat j < pe"
      using pages_nth_less[OF ok, of i "unat j"] pages_nth_less[OF ok, of "unat j" k] ik by auto
    finally show ?thesis by (simp add: ps_def pe_def)
  next
    case False
    define n where "n = (unat endp - unat start + 4095) div 4096"
    have "pe * 4096 \<le> unat start + (unat endp - unat start)" by (simp add: e)
    then have n: "pe \<le> unat start div 4096 + n" unfolding n_def by linarith
    have "reserve_bits es start sz r b = reserve_pages n es r start endp b"
      unfolding reserve_bits_def Let_def endp_def[symmetric] si ei n_def using False
      by (auto split: option.splits)
    then show ?thesis
      using reserve_pages_test[OF ok e(1) n, of r b j] by (simp add: pe_def)
  qed
qed


section \<open>Allocating one page\<close>

definition phys_inv :: "phys_state \<Rightarrow> mem_entry list \<Rightarrow> bool" where
  "phys_inv s es \<longleftrightarrow> mem_entries s = Ret es \<and> map_ok 0 es \<and> unat (bitmap_size s) = length (pages es) \<and>
     unat (last_checked s) < length (pages es)"

lemma mem_entries_cong [simp]:
  "mem_entries (s\<lparr>bitmap := b\<rparr>) = mem_entries s" "mem_entries (s\<lparr>last_checked := l\<rparr>) = mem_entries s"
  by (simp_all add: mem_entries_def Let_def)

definition page_addr :: "mem_entry list \<Rightarrow> nat \<Rightarrow> u64" where
  "page_addr es i = of_nat (pages es ! i * 4096)"

lemma page_addr_unat:
  assumes "map_ok lo es" "i < length (pages es)"
  shows "unat (page_addr es i) = pages es ! i * 4096" "pages es ! i < 2 ^ 51"
proof -
  have "Suc (pages es ! i) * 4096 \<le> 2 ^ 63" using pages_bounds[OF assms(1), of "pages es ! i"] assms(2) by simp
  then show lt: "pages es ! i < 2 ^ 51" by simp
  then show "unat (page_addr es i) = pages es ! i * 4096"
    unfolding page_addr_def by (subst unat_of_nat_u64) simp_all
qed

lemma page_index_inj:
  assumes "map_ok lo es" "i < length (pages es)" "k < length (pages es)"
  shows "pages es ! i = pages es ! k \<longleftrightarrow> i = k"
  using pages_distinct[OF assms(1)] assms by (simp add: nth_eq_iff_index_eq)

lemma of_nat_index: "map_ok lo es \<Longrightarrow> i < length (pages es) \<Longrightarrow> unat (of_nat i :: u64) = i"
  using length_pages_bound[of lo es] by (intro unat_of_nat_u64) simp

text \<open>Reserving or releasing the one page of index \<open>i\<close> changes its bit and no other.\<close>

lemma reserve_page_test:
  assumes inv: "mem_entries s = Ret es" "map_ok 0 es" and i: "i < length (pages es)"
  shows "\<exists>b. reserve_memory (page_addr es i) page_size r s = Ret (s\<lparr>bitmap := b\<rparr>) \<and>
    (\<forall>j. bm_test b j \<longleftrightarrow> (if j = of_nat i then r else bm_test (bitmap s) j))"
proof -
  note pa = page_addr_unat[OF inv(2) i]
  have ov: "unat (page_addr es i) + unat page_size + 4095 < 2 ^ 64"
    using pa by (simp add: page_size_def)
  have "bm_test (reserve_bits es (page_addr es i) page_size r (bitmap s)) j \<longleftrightarrow>
      (if j = of_nat i then r else bm_test (bitmap s) j)" for j
  proof -
    have "(unat (page_addr es i) + unat page_size + 4095) div 4096 = pages es ! i + 1"
      using pa by (simp add: page_size_def)
    moreover have "unat (page_addr es i) div 4096 = pages es ! i" using pa by simp
    moreover have "unat j < length (pages es) \<and> pages es ! i \<le> pages es ! unat j \<and> pages es ! unat j < pages es ! i + 1
        \<longleftrightarrow> j = of_nat i"
    proof -
      have "j = of_nat i \<longleftrightarrow> unat j = i" using of_nat_index[OF inv(2) i] by (auto simp: word_cong_unat)
      then show ?thesis using page_index_inj[OF inv(2) i, of "unat j"] i by auto
    qed
    ultimately show ?thesis using reserve_bits_test[OF inv(2) ov, of r "bitmap s" j] by simp
  qed
  moreover have "page_size \<noteq> 0" by (simp add: page_size_def)
  ultimately show ?thesis by (auto simp: reserve_memory_def inv(1))
qed

text \<open>What \<open>alloc(1)\<close> may answer.\<close>

definition alloc_post :: "phys_state \<Rightarrow> mem_entry list \<Rightarrow> nat set \<Rightarrow> u64 option \<Rightarrow> phys_state \<Rightarrow> bool" where
  "alloc_post s es A r s' \<longleftrightarrow>
     phys_inv s' es \<and>
     (case r of
        None \<Rightarrow> bitmap s' = bitmap s \<and> (\<forall>i \<in> A. bm_test (bitmap s) (of_nat i))
      | Some a \<Rightarrow> \<exists>i < length (pages es). a = page_addr es i \<and> \<not> bm_test (bitmap s) (of_nat i) \<and>
          (\<forall>j. bm_test (bitmap s') j \<longleftrightarrow> j = of_nat i \<or> bm_test (bitmap s) j))"

lemma alloc_loop_one:
  assumes "phys_inv s es" "1 \<le> d" "d \<le> length (pages es)"
    and "unat stop = (unat (last_checked s) + d) mod length (pages es)"
  shows "\<exists>r s'. alloc_loop stop 1 s = Some (Ret (r, s')) \<and>
    alloc_post s es ((\<lambda>k. (unat (last_checked s) + k) mod length (pages es)) ` {1..d}) r s'"
  using assms
proof (induction d arbitrary: s)
  case (Suc d)
  define n where "n = length (pages es)"
  define l where "l = (last_checked s + 1) mod bitmap_size s"
  have I: "mem_entries s = Ret es" "map_ok 0 es" "unat (bitmap_size s) = n" "unat (last_checked s) < n"
    using Suc.prems(1) by (simp_all add: phys_inv_def n_def)
  have n: "0 < n" "n \<le> 2 ^ 51" using I(4) length_pages_bound[OF I(2)] by (simp, simp add: n_def)
  have "unat (last_checked s + 1) = unat (last_checked s) + 1"
    using I(4) n by (subst unat_add_u64) simp_all
  then have l: "unat l = (unat (last_checked s) + 1) mod n" by (simp add: l_def unat_mod I(3))
  then have ln: "unat l < n" using n by simp
  let ?s1 = "s\<lparr>last_checked := l\<rparr>"
  have lm: "l mod bitmap_size s = l"
    by (rule word_cong_unat[THEN iffD2]) (simp add: unat_mod I(3) ln)
  have inv1: "phys_inv ?s1 es" using I ln by (simp add: phys_inv_def n_def)
  show ?case
  proof (cases "bm_test (bitmap s) l")
    case False
    have "index_loop es l = Some (page_addr es (unat l))"
      using index_loop_pages[OF I(2), of l] ln n by (simp add: n_def page_addr_def)
    moreover obtain b where b: "reserve_memory (page_addr es (unat l)) page_size True ?s1 = Ret (?s1\<lparr>bitmap := b\<rparr>)"
      "\<forall>j. bm_test b j \<longleftrightarrow> (if j = of_nat (unat l) then True else bm_test (bitmap s) j)"
      using reserve_page_test[of ?s1 es "unat l" True] I ln by (auto simp: n_def)
    ultimately have "alloc_loop stop 1 s = Some (Ret (Some (page_addr es (unat l)), ?s1\<lparr>bitmap := b\<rparr>))"
      by (subst alloc_loop.simps)
        (simp add: l_def[symmetric] lm False alloc_found_def index_to_physical_def I Let_def del: of_nat_unat)
    moreover have "phys_inv (?s1\<lparr>bitmap := b\<rparr>) es" using inv1 by (simp add: phys_inv_def)
    ultimately show ?thesis
      using b(2) False ln by (auto simp: alloc_post_def n_def)
  next
    case True
    let ?s2 = "?s1\<lparr>last_checked := l\<rparr>"
    have loop: "alloc_loop stop 1 s = (if stop \<noteq> l then alloc_loop stop 1 ?s1 else Some (Ret (None, ?s1)))"
      by (subst alloc_loop.simps) (simp add: l_def[symmetric] lm True Let_def)
    show ?thesis
    proof (cases "d = 0")
      case d: True
      then have "stop = l" using Suc.prems(4) l by (simp add: word_cong_unat n_def)
      have "(of_nat (Suc (unat (last_checked s)) mod n) :: u64) = l"
        using word_eq_of_nat[OF l] by simp
      with \<open>stop = l\<close> show ?thesis
        using loop inv1 True d l by (simp add: alloc_post_def n_def[symmetric])
    next
      case d: False
      have "unat stop = (unat l + d) mod n"
        using Suc.prems(4) l by (simp add: n_def[symmetric] mod_simps)
      then have ne: "stop \<noteq> l"
      proof -
        have "(unat l + d) mod n \<noteq> unat l"
        proof
          assume "(unat l + d) mod n = unat l"
          then have "(unat l + d) mod n = (unat l + 0) mod n" using ln by simp
          then have "n dvd d"
            by (metis add.right_neutral add_diff_cancel_left' le_add1 mod_eq_dvd_iff_nat)
          with d Suc.prems(3) show False by (auto simp: n_def dest: dvd_imp_le)
        qed
        with \<open>unat stop = (unat l + d) mod n\<close> show ?thesis by auto
      qed
      have "\<exists>r s'. alloc_loop stop 1 ?s1 = Some (Ret (r, s')) \<and>
          alloc_post ?s1 es ((\<lambda>k. (unat l + k) mod n) ` {1..d}) r s'"
        using Suc.IH[of ?s1] inv1 d Suc.prems(3) \<open>unat stop = (unat l + d) mod n\<close> by (simp add: n_def)
      then obtain r s' where r: "alloc_loop stop 1 ?s1 = Some (Ret (r, s'))"
        "alloc_post ?s1 es ((\<lambda>k. (unat l + k) mod n) ` {1..d}) r s'" by blast
      have "(\<lambda>k. (unat (last_checked s) + k) mod n) ` {1..Suc d} \<subseteq>
          insert (unat l) ((\<lambda>k. (unat l + k) mod n) ` {1..d})"
      proof
        fix x assume "x \<in> (\<lambda>k. (unat (last_checked s) + k) mod n) ` {1..Suc d}"
        then obtain k where k: "x = (unat (last_checked s) + k) mod n" "1 \<le> k" "k \<le> Suc d" by auto
        show "x \<in> insert (unat l) ((\<lambda>k. (unat l + k) mod n) ` {1..d})"
        proof (cases "k = 1")
          case False
          obtain k' where k': "k = Suc k'" using k(2) by (cases k) auto
          have "x = (unat l + k') mod n" using k(1) l by (simp add: k' mod_simps)
          moreover have "k' \<in> {1..d}" using False k k' by simp
          ultimately show ?thesis by blast
        qed (use k l in simp)
      qed
      with r True have "alloc_post s es ((\<lambda>k. (unat (last_checked s) + k) mod n) ` {1..Suc d}) r s'"
        by (auto simp: alloc_post_def split: option.splits)
      with loop ne r show ?thesis by (auto simp: n_def)
    qed
  qed
qed simp


lemma covers_all:
  assumes "l < n" "i < (n :: nat)"
  shows "\<exists>k \<in> {1..n}. (l + k) mod n = i"
proof (cases "l < i")
  case True
  with assms show ?thesis by (intro bexI[of _ "i - l"]) auto
next
  case False
  with assms show ?thesis by (intro bexI[of _ "i + n - l"]) auto
qed

lemma alloc_one:
  assumes "phys_inv s es"
  shows "\<exists>r s'. phys_alloc 1 s = Some (Ret (r, s')) \<and> alloc_post s es {..<length (pages es)} r s'"
proof -
  have I: "unat (bitmap_size s) = length (pages es)" "unat (last_checked s) < length (pages es)"
    using assms by (simp_all add: phys_inv_def)
  have "bitmap_size s \<noteq> 0" using I by auto
  then have "phys_alloc 1 s = alloc_loop (last_checked s) 1 s" by (simp add: phys_alloc_def)
  moreover obtain r s' where r: "alloc_loop (last_checked s) 1 s = Some (Ret (r, s'))"
    "alloc_post s es ((\<lambda>k. (unat (last_checked s) + k) mod length (pages es)) ` {1..length (pages es)}) r s'"
    using alloc_loop_one[OF assms, of "length (pages es)" "last_checked s"] I by auto
  moreover have "{..<length (pages es)} \<subseteq> (\<lambda>k. (unat (last_checked s) + k) mod length (pages es)) ` {1..length (pages es)}"
    using covers_all[OF I(2)] by (force simp: image_iff)
  then have "alloc_post s es {..<length (pages es)} r s'"
    using r(2) by (auto simp: alloc_post_def split: option.splits)
  ultimately show ?thesis by auto
qed

lemma free_one:
  assumes "phys_inv s es" "i < length (pages es)"
  shows "\<exists>s'. phys_free (page_addr es i) 1 s = Ret s' \<and> phys_inv s' es \<and>
    (\<forall>j. bm_test (bitmap s') j \<longleftrightarrow> j \<noteq> of_nat i \<and> bm_test (bitmap s) j)"
  using reserve_page_test[of s es i False] assms by (auto simp: phys_free_def phys_inv_def)


section \<open>Initialisation\<close>

lemma bm_reserve_memory:
  assumes "mem_entries s = Ret es" "map_ok 0 es" "unat a + unat sz + 4095 < 2 ^ 64"
  shows "\<exists>b. reserve_memory a sz r s = Ret (s\<lparr>bitmap := b\<rparr>) \<and>
    (\<forall>j. bm_test b j \<longleftrightarrow>
       (if sz \<noteq> 0 \<and> unat j < length (pages es) \<and> unat a div 4096 \<le> pages es ! unat j \<and>
           pages es ! unat j < (unat a + unat sz + 4095) div 4096
        then r else bm_test (bitmap s) j))"
proof (cases "sz = 0")
  case True
  then show ?thesis by (auto simp: reserve_memory_def intro: exI[of _ "bitmap s"])
next
  case False
  then show ?thesis
    using reserve_bits_test[OF assms(2,3)] by (auto simp: reserve_memory_def assms(1))
qed

text \<open>Frame \<open>p\<close> meets the byte range of \<open>n\<close> bytes from \<open>a\<close>.\<close>

definition meets :: "nat \<Rightarrow> u64 \<times> u64 \<Rightarrow> bool" where
  "meets p = (\<lambda>(a, n). n \<noteq> 0 \<and> unat a < (p + 1) * 4096 \<and> p * 4096 < unat a + unat n)"

lemma meets_iff:
  "meets p (a, n) \<longleftrightarrow> n \<noteq> 0 \<and> unat a div 4096 \<le> p \<and> p < (unat a + unat n + 4095) div 4096"
proof -
  have "x < (p + 1) * 4096 \<longleftrightarrow> x div 4096 \<le> p" for x :: nat
    using div_less_iff_less_mult[of 4096 x "p + 1"] by (simp add: less_Suc_eq_le)
  moreover have "p * 4096 < x \<longleftrightarrow> p < (x + 4095) div 4096" for x :: nat
    using div_less_iff_less_mult[of 4096 "x + 4095" "p + 1"] by simp linarith
  ultimately show ?thesis by (simp add: meets_def)
qed

lemma reserve_all_test:
  assumes "map_ok 0 es" "mem_entries s = Ret es" "\<forall>(a, n) \<in> set rs. unat a + unat n + 4095 < 2 ^ 64"
  shows "\<exists>b. reserve_all rs s = Ret (s\<lparr>bitmap := b\<rparr>) \<and>
    (\<forall>j. unat j < length (pages es) \<longrightarrow>
       (bm_test b j \<longleftrightarrow> bm_test (bitmap s) j \<or> (\<exists>r \<in> set rs. meets (pages es ! unat j) r)))"
  using assms(2,3)
proof (induction rs arbitrary: s)
  case Nil
  then show ?case by (auto intro: exI[of _ "bitmap s"])
next
  case (Cons r rs)
  obtain a n where r: "r = (a, n)" by (cases r)
  have ov: "unat a + unat n + 4095 < 2 ^ 64" using Cons.prems(2) by (simp add: r)
  obtain b where b1: "reserve_memory a n True s = Ret (s\<lparr>bitmap := b\<rparr>)"
    and bt: "\<forall>j. bm_test b j \<longleftrightarrow>
       (if n \<noteq> 0 \<and> unat j < length (pages es) \<and> unat a div 4096 \<le> pages es ! unat j \<and>
           pages es ! unat j < (unat a + unat n + 4095) div 4096
        then True else bm_test (bitmap s) j)"
    using bm_reserve_memory[OF Cons.prems(1) assms(1) ov] by blast
  have b2: "bm_test b j \<longleftrightarrow> bm_test (bitmap s) j \<or> meets (pages es ! unat j) (a, n)"
    if "unat j < length (pages es)" for j
    using bt that by (auto simp: meets_iff)
  obtain c where c: "reserve_all rs (s\<lparr>bitmap := b\<rparr>) = Ret (s\<lparr>bitmap := c\<rparr>)"
    "\<And>j. unat j < length (pages es) \<Longrightarrow>
       bm_test c j \<longleftrightarrow> bm_test b j \<or> (\<exists>r \<in> set rs. meets (pages es ! unat j) r)"
    using Cons.IH[of "s\<lparr>bitmap := b\<rparr>"] Cons.prems by auto
  have "reserve_all (r # rs) s = Ret (s\<lparr>bitmap := c\<rparr>)" by (simp add: r b1 c(1))
  then show ?case using b2 c(2) by (auto simp: r)
qed

lemma reserve_all_frame: "reserve_all rs s = Ret s2 \<Longrightarrow> \<exists>b. s2 = s\<lparr>bitmap := b\<rparr>"
proof (induction rs s rule: reserve_all.induct)
  case (1 s)
  then show ?case by (auto intro: exI[of _ "bitmap s"])
next
  case (2 a n rs s)
  then obtain s1 where s1: "reserve_memory a n True s = Ret s1" "reserve_all rs s1 = Ret s2"
    by (auto simp: bindr_eq_Ret)
  have "\<exists>b. s1 = s\<lparr>bitmap := b\<rparr>"
    using s1(1) by (auto simp: reserve_memory_def bindr_eq_Ret split: if_splits intro: exI[of _ "bitmap s"])
  with 2(1)[OF s1(2)] show ?case by auto
qed

lemma fold_add_shift:
  "unat (fold (\<lambda>e n. if mem_type e = 1 then n + mem_length e else n) es n) = (unat n + length (pages es) * 4096)"
  if "map_ok lo es" "unat n \<le> lo"
  using that
proof (induction lo es arbitrary: n rule: map_ok.induct)
  case (2 lo e es)
  show ?case
  proof (cases "mem_type e = 1")
    case True
    let ?u = "unat (base_addr e) + unat (mem_length e)"
    have ok: "lo \<le> unat (base_addr e)" "4096 dvd unat (base_addr e)" "4096 dvd unat (mem_length e)" "?u \<le> 2 ^ 63" "map_ok ?u es"
      using 2(3) True by auto
    have u: "unat (n + mem_length e) = unat n + unat (mem_length e)"
      using ok(1,4) 2(4) by (subst unat_add_u64) simp_all
    have "?u div 4096 - unat (base_addr e) div 4096 = unat (mem_length e) div 4096"
      using ok(2,3) by (simp add: div_plus_div_distrib_dvd_left)
    then have "(?u div 4096 - unat (base_addr e) div 4096) * 4096 = unat (mem_length e)"
      using ok(3) by simp
    with 2(1)[OF True ok(5), of "n + mem_length e"] u ok(1) 2(4) True show ?thesis
      by (simp add: add_mult_distrib)
  next
    case False
    then show ?thesis using 2(2)[OF False] 2(3,4) by simp
  qed
qed simp

lemma total_available_pages: "map_ok 0 es \<Longrightarrow> unat (total_available es) = length (pages es) * 4096"
  using fold_add_shift[of 0 es 0] by (simp add: total_available_def)

lemma mem_entries_update [simp]:
  "mem_entries (s\<lparr>total_memory := t\<rparr>) = mem_entries s" "mem_entries (s\<lparr>bitmap_size := z\<rparr>) = mem_entries s"
  "mem_entries (s\<lparr>bitmap_ptr := p\<rparr>) = mem_entries s"
  by (simp_all add: mem_entries_def Let_def)

lemma reserve_all_append: "reserve_all (rs @ rs') s = bindr (reserve_all rs s) (reserve_all rs')"
  by (induction rs s rule: reserve_all.induct) (auto simp: bindr_def split: sum.splits)

text \<open>A word that the bitmap does not cover is read as it was.\<close>

definition beside_bitmap :: "phys_state \<Rightarrow> u64 \<Rightarrow> bool" where
  "beside_bitmap s a \<longleftrightarrow> (\<forall>i \<in> {0, 1, 2, 3}. bitmap_size s \<le> a + i - bitmap_ptr s)"

lemma total_size_beside: "beside_bitmap s mbi \<Longrightarrow> get_total_size (with_bitmap s m) mbi False = get_total_size m mbi False"
proof -
  assume "beside_bitmap s mbi"
  then have "with_bitmap s m (mbi + i) = m (mbi + i)" if "i \<in> {0, 1, 2, 3}" for i
    using that by (auto simp: beside_bitmap_def with_bitmap_def not_less[symmetric])
  from this[of 0] this[of 1] this[of 2] this[of 3] show ?thesis
    by (simp add: get_total_size_def tag_header_def rd32_def rd16_def add.commute[of mbi])
qed

lemma phys_init_map_result:
  assumes "phys_init_map k m mbi s es = Some (Ret s')" "beside_bitmap s' mbi"
  shows "\<exists>bm s2. s' = s2\<lparr>last_checked := 0\<rparr> \<and>
    reserve_all (init_reservations k bm (total_available es div page_size) mbi (get_total_size m mbi False))
       (s\<lparr>total_memory := total_available es, bitmap_size := total_available es div page_size, bitmap_ptr := bm,
          bitmap := (\<lambda>_. 0)\<rparr>) = Ret s2"
proof -
  obtain bm s1 s2 where R: "reserve_all (first_reservations bm (total_available es div page_size))
       (s\<lparr>total_memory := total_available es, bitmap_size := total_available es div page_size, bitmap_ptr := bm,
          bitmap := (\<lambda>_. 0)\<rparr>) = Ret s1"
    "reserve_all (other_reservations k mbi (get_total_size (with_bitmap s1 m) mbi False)) s1 = Ret s2" "s' = s2\<lparr>last_checked := 0\<rparr>"
    using assms(1) by (auto simp: phys_init_map_def Let_def bindr_eq_Ret bind_eq_Some_conv)
  have "bitmap_ptr s' = bitmap_ptr s1" "bitmap_size s' = bitmap_size s1"
    using reserve_all_frame[OF R(2)] R(3) by auto
  then have "beside_bitmap s1 mbi" using assms(2) by (simp add: beside_bitmap_def)
  from total_size_beside[OF this, of m] R(1,2)
  have "reserve_all (init_reservations k bm (total_available es div page_size) mbi (get_total_size m mbi False))
       (s\<lparr>total_memory := total_available es, bitmap_size := total_available es div page_size, bitmap_ptr := bm,
          bitmap := (\<lambda>_. 0)\<rparr>) = Ret s2"
    by (simp add: init_reservations_def reserve_all_append)
  then show ?thesis using R(3) by blast
qed

lemma phys_init_result:
  assumes "phys_init k m mbi s = Some (Ret s')"
  shows "\<exists>s1 es. mem_entries s1 = Ret es \<and> phys_init_map k m mbi s1 es = Some (Ret s')"
proof -
  obtain tag where tag: "get_tag m mbi 6 False = Some tag"
    using assms by (auto simp: phys_init_def bind_eq_Some_conv)
  show ?thesis
  proof (cases tag)
    case (Inr entry)
    let ?z = "ucast (rd32 m (entry + 4)) - 8 :: u64"
    let ?s1 = "s\<lparr>info := copy_info m (entry + 8) ?z (info s), info_size := ?z\<rparr>"
    have "(case mem_entries ?s1 of Inl h \<Rightarrow> Some (Stop h) | Inr es \<Rightarrow> phys_init_map k m mbi ?s1 es) = Some (Ret s')"
      using assms by (simp add: phys_init_def tag Inr Let_def split: if_splits)
    then show ?thesis by (cases "mem_entries ?s1") auto
  qed (use assms tag in \<open>simp add: phys_init_def\<close>)
qed

section \<open>Properties\<close>

text \<open>C17. On a memory map of whole pages (\<open>map_ok\<close>: the available regions ascend and begin and end at page boundaries) with at least
  one page, \<open>alloc(1)\<close> always returns.  It returns nothing exactly
  when every page is allocated; otherwise it returns a page that was free, and afterwards that page
  is allocated and the state of no other page has changed.  Regions that are not made of whole pages are not covered: there the
  code hands out pages that are only partly available (\<open>alloc_partial_page\<close>).\<close>

theorem alloc_one_page:
  assumes "phys_inv s es"
  shows "\<exists>r s'. phys_alloc 1 s = Some (Ret (r, s')) \<and> phys_inv s' es \<and>
    (case r of
       None \<Rightarrow> bitmap s' = bitmap s \<and> (\<forall>i < length (pages es). bm_test (bitmap s) (of_nat i))
     | Some a \<Rightarrow> \<exists>i < length (pages es). a = page_addr es i \<and> \<not> bm_test (bitmap s) (of_nat i) \<and>
         (\<forall>j. bm_test (bitmap s') j \<longleftrightarrow> j = of_nat i \<or> bm_test (bitmap s) j))"
proof -
  obtain r s' where r: "phys_alloc 1 s = Some (Ret (r, s'))" "alloc_post s es {..<length (pages es)} r s'"
    using alloc_one[OF assms] by blast
  show ?thesis
    by (rule exI[of _ r], rule exI[of _ s'])
      (use r in \<open>auto simp: alloc_post_def split: option.splits\<close>)
qed

text \<open>C22. On a memory map of whole pages (\<open>map_ok\<close>: the available regions ascend and begin and end at page boundaries) a page
  obtained from \<open>alloc(1)\<close> and given back with \<open>free\<close> leaves every page as it was.  With a region that does not begin at a page
  boundary an address can meet two pages of the bitmap, and \<open>free\<close> may clear both.\<close>

theorem alloc_free_restores:
  assumes "phys_inv s es" "phys_alloc 1 s = Some (Ret (Some a, s1))"
  shows "\<exists>s2. phys_free a 1 s1 = Ret s2 \<and> (\<forall>j. bm_test (bitmap s2) j = bm_test (bitmap s) j)"
proof -
  obtain i where i: "i < length (pages es)" "a = page_addr es i" "\<not> bm_test (bitmap s) (of_nat i)"
    "\<forall>j. bm_test (bitmap s1) j \<longleftrightarrow> j = of_nat i \<or> bm_test (bitmap s) j" "phys_inv s1 es"
    using alloc_one[OF assms(1)] assms(2) by (auto simp: alloc_post_def)
  from free_one[OF i(5,1)] i(2-4) show ?thesis by metis
qed


text \<open>Boot information at \<open>0x500000\<close> with one region of four pages at 1 MiB, for the witnesses.\<close>

definition demo_boot :: bytes where
  "demo_boot = (\<lambda>_. 0)(0x500000 := 48, 0x500008 := 6, 0x50000C := 40,
     0x500010 := 24, 0x50001A := 0x10, 0x500021 := 0x40, 0x500028 := 1)"

definition demo_symbols :: link_symbols where
  "demo_symbols = \<lparr>trampolineStart = 0x8000, trampolineEnd = 0x9000, physical_start = 0x400000, physical_end = 0x401000\<rparr>"

definition demo_map :: "mem_entry list" where
  "demo_map = [\<lparr>base_addr = 0x100000, mem_length = 0x4000, mem_type = 1\<rparr>]"

definition demo_phys :: phys_state where
  "demo_phys = \<lparr>info = copy_info demo_boot 0x500010 32 (\<lambda>_. 0), info_size = 32, total_memory = 0x4000,
     bitmap = (\<lambda>_. 0)(0 := 1), bitmap_ptr = 0x100002, bitmap_size = 4, last_checked = 0\<rparr>"

lemma demo_entries: "info s = copy_info demo_boot 0x500010 32 (\<lambda>_. 0) \<Longrightarrow> info_size s = 32 \<Longrightarrow> mem_entries s = Ret demo_map"
  by (simp add: mem_entries_def entry_at_def copy_info_def demo_boot_def demo_map_def rd64_def rd32_def rd16_def upt_rec)

lemma demo_map_facts: "map_ok 0 demo_map" "pages demo_map = [256, 257, 258, 259]"
  by (simp_all add: demo_map_def upt_rec)

lemma demo_phys_inv: "phys_inv demo_phys demo_map"
  using demo_entries[of demo_phys] demo_map_facts by (simp add: phys_inv_def demo_phys_def)

lemma demo_bit: "\<not> bm_test (bitmap demo_phys) (of_nat 1)"
  by (simp add: demo_phys_def bm_test_def)

lemma alloc_one_page_witness:
  "\<exists>a s'. phys_alloc 1 demo_phys = Some (Ret (Some a, s')) \<and> phys_inv s' demo_map"
proof -
  obtain r s' where r: "phys_alloc 1 demo_phys = Some (Ret (r, s'))" "phys_inv s' demo_map"
    "case r of
       None \<Rightarrow> bitmap s' = bitmap demo_phys \<and> (\<forall>i < length (pages demo_map). bm_test (bitmap demo_phys) (of_nat i))
     | Some a \<Rightarrow> \<exists>i < length (pages demo_map). a = page_addr demo_map i \<and> \<not> bm_test (bitmap demo_phys) (of_nat i) \<and>
         (\<forall>j. bm_test (bitmap s') j \<longleftrightarrow> j = of_nat i \<or> bm_test (bitmap demo_phys) j)"
    using alloc_one_page[OF demo_phys_inv] by blast
  have "1 < length (pages demo_map)" by (simp add: demo_map_facts)
  with r(3) demo_bit have "r \<noteq> None" by (cases r) auto
  with r show ?thesis by auto
qed

lemma alloc_free_restores_witness:
  "\<exists>a s1 s2. phys_alloc 1 demo_phys = Some (Ret (Some a, s1)) \<and> phys_free a 1 s1 = Ret s2 \<and>
     (\<forall>j. bm_test (bitmap s2) j = bm_test (bitmap demo_phys) j)"
proof -
  obtain r s1 where r: "phys_alloc 1 demo_phys = Some (Ret (r, s1))"
    "alloc_post demo_phys demo_map {..<length (pages demo_map)} r s1"
    using alloc_one[OF demo_phys_inv] by blast
  have "1 \<in> {..<length (pages demo_map)}" by (simp add: demo_map_facts)
  with r(2) demo_bit have "r \<noteq> None" unfolding alloc_post_def by (cases r) (auto dest!: bspec[where x = 1])
  with r(1) obtain a where "phys_alloc 1 demo_phys = Some (Ret (Some a, s1))" by auto
  with alloc_free_restores[OF demo_phys_inv this] show ?thesis by blast
qed

text \<open>C24. Initialisation on a memory map of whole pages in ascending order: when \<open>init\<close> returns and no
  reserved range passes the end of the address space, the bitmap has one bit per available page,
  and the pages marked as allocated are exactly those that meet the bitmap itself, page 0, the boot
  information, the trampoline, the kernel image or the legacy hole below 1 MiB.  The size of the boot information is
  taken from memory after the bitmap was written; the bitmap must not cover it, which nothing in \<open>init\<close> prevents.\<close>

theorem init_reserves_exactly:
  assumes "phys_init k m mbi s = Some (Ret s')" "mem_entries s' = Ret es" "map_ok 0 es" "pages es \<noteq> []" "beside_bitmap s' mbi"
    and "\<forall>(a, n) \<in> set (init_reservations k (bitmap_ptr s') (bitmap_size s') mbi (get_total_size m mbi False)).
      unat a + unat n + 4095 < 2 ^ 64"
  shows "phys_inv s' es \<and> (\<forall>i < length (pages es). bm_test (bitmap s') (of_nat i) \<longleftrightarrow>
    (\<exists>r \<in> set (init_reservations k (bitmap_ptr s') (bitmap_size s') mbi (get_total_size m mbi False)).
       meets (pages es ! i) r))"
proof -
  obtain s1 es1 bm s2 where R: "mem_entries s1 = Ret es1" "s' = s2\<lparr>last_checked := 0\<rparr>"
    "reserve_all (init_reservations k bm (total_available es1 div page_size) mbi (get_total_size m mbi False))
       (s1\<lparr>total_memory := total_available es1, bitmap_size := total_available es1 div page_size, bitmap_ptr := bm,
          bitmap := (\<lambda>_. 0)\<rparr>) = Ret s2" (is "reserve_all ?rs ?s = _")
    using phys_init_result[OF assms(1)] phys_init_map_result[OF _ assms(5)] by metis
  obtain b where "s2 = ?s\<lparr>bitmap := b\<rparr>" using reserve_all_frame[OF R(3)] by blast
  then have s': "s' = ?s\<lparr>bitmap := b, last_checked := 0\<rparr>" and s2: "s2 = ?s\<lparr>bitmap := b\<rparr>" using R(2) by simp_all
  have es: "es1 = es" using assms(2) R(1) by (simp add: s')
  have e: "mem_entries ?s = Ret es" using R(1) es by simp
  have rs: "?rs = init_reservations k (bitmap_ptr s') (bitmap_size s') mbi (get_total_size m mbi False)"
    by (simp add: s')
  have ov: "\<forall>(a, n) \<in> set ?rs. unat a + unat n + 4095 < 2 ^ 64"
    using assms(6) unfolding rs .
  obtain c where c: "reserve_all ?rs ?s = Ret (?s\<lparr>bitmap := c\<rparr>)"
    "\<forall>j. unat j < length (pages es) \<longrightarrow>
       (bm_test c j \<longleftrightarrow> bm_test (bitmap ?s) j \<or> (\<exists>r \<in> set ?rs. meets (pages es ! unat j) r))"
    using reserve_all_test[OF assms(3) e ov] by blast
  have "s2 = ?s\<lparr>bitmap := c\<rparr>" using R(3) c(1) by (metis sum.inject(2))
  then have "bitmap s2 = c" by simp
  then have "b = c" by (simp add: s2)
  then have "bm_test (bitmap s') (of_nat i) \<longleftrightarrow> (\<exists>r \<in> set ?rs. meets (pages es ! i) r)"
    if "i < length (pages es)" for i
    using c(2)[rule_format, of "of_nat i"] of_nat_index[OF assms(3) that] that by (simp add: s')
  moreover have "phys_inv s' es"
  proof -
    have "unat (bitmap_size s') = length (pages es)"
      using total_available_pages[OF assms(3)] by (simp add: s' es unat_div_page)
    with assms(2-4) show ?thesis by (simp add: phys_inv_def s')
  qed
  ultimately show ?thesis unfolding rs by blast
qed

lemma demo_place: "place_bitmap demo_symbols 4 demo_map = Some (Ret 0x100002)"
proof -
  let ?r = "\<lparr>left = 0x100002, right = 0x104000\<rparr>"
  have "find_subregion demo_symbols ?r 4 = Some (Some \<lparr>left = 0x100002, right = 0x100006\<rparr>)"
    by (subst find_subregion.simps)
      (simp add: iv_size_def demo_symbols_def reserved_regions_def intersects_def)
  then have "find_subregion demo_symbols \<lparr>left = 0x100000, right = 0x104000\<rparr> 4 =
      Some (Some \<lparr>left = 0x100002, right = 0x100006\<rparr>)"
    by (subst find_subregion.simps)
      (simp add: iv_size_def iv_valid_def demo_symbols_def reserved_regions_def intersects_def)
  then show ?thesis by (simp add: demo_map_def Gi_def Mi_def Ki_def)
qed

lemma demo_tag: "get_tag demo_boot 0x500000 6 False = Some (Ret 0x500008)"
  unfolding get_tag_def Let_def
  by (subst get_tag_loop.simps) (simp add: tag_header_def demo_boot_def rd32_def rd16_def)

definition demo_reservations :: "(u64 \<times> u64) list" where
  "demo_reservations = init_reservations demo_symbols 0x100002 4 0x500000 48"

lemma demo_reservations_eq:
  "demo_reservations = [(0x100002, 4), (0, 0x1000), (0x500000, 48), (0x8000, 0x1000), (0x400000, 0x1000), (0xA0000, 0x60000)]"
  by (simp add: demo_reservations_def init_reservations_def first_reservations_def other_reservations_def demo_symbols_def page_size_def)

lemma demo_init: "\<exists>b. phys_init demo_symbols demo_boot 0x500000 demo_phys = Some (Ret (demo_phys\<lparr>bitmap := b\<rparr>))"
proof -
  have t: "total_available demo_map = 0x4000" by (simp add: total_available_def demo_map_def)
  have c: "copy_info demo_boot 0x500010 32 (info demo_phys) = info demo_phys"
    by (auto simp: copy_info_def demo_phys_def)
  have r: "rd32 demo_boot 0x500004 = 0" "rd32 demo_boot 0x50000C = 40" "get_total_size demo_boot 0x500000 False = 48"
    by (simp_all add: demo_boot_def rd32_def rd16_def get_total_size_def tag_header_def)
  have e: "mem_entries (demo_phys\<lparr>bitmap := \<lambda>_. 0\<rparr>) = Ret demo_map"
    by (rule demo_entries) (simp_all add: demo_phys_def)
  have "\<forall>(a, n) \<in> set demo_reservations. unat a + unat n + 4095 < 2 ^ 64"
    by (simp add: demo_reservations_eq)
  then obtain b where b: "reserve_all demo_reservations (demo_phys\<lparr>bitmap := \<lambda>_. 0\<rparr>) =
      Ret (demo_phys\<lparr>bitmap := \<lambda>_. 0\<rparr>\<lparr>bitmap := b\<rparr>)"
    using reserve_all_test[OF demo_map_facts(1) e] by blast
  obtain s1 where s1': "reserve_all (first_reservations 0x100002 4) (demo_phys\<lparr>bitmap := \<lambda>_. 0\<rparr>) = Ret s1"
      "reserve_all (other_reservations demo_symbols 0x500000 48) s1 = Ret (demo_phys\<lparr>bitmap := b\<rparr>)"
    using b by (auto simp: demo_reservations_def init_reservations_def reserve_all_append bindr_eq_Ret)
  have "beside_bitmap s1 0x500000" using reserve_all_frame[OF s1'(1)] by (auto simp: beside_bitmap_def demo_phys_def)
  then have g: "get_total_size (with_bitmap s1 demo_boot) 0x500000 False = 48" using r(3) by (simp add: total_size_beside)
  have s1: "demo_phys\<lparr>info_size := 32\<rparr> = demo_phys"
    "demo_phys\<lparr>total_memory := 0x4000, bitmap_size := 4, bitmap_ptr := 0x100002, bitmap := \<lambda>_. 0\<rparr> = demo_phys\<lparr>bitmap := \<lambda>_. 0\<rparr>"
    "demo_phys\<lparr>bitmap := b, last_checked := 0\<rparr> = demo_phys\<lparr>bitmap := b\<rparr>"
    by (simp_all add: demo_phys_def)
  have "phys_init_map demo_symbols demo_boot 0x500000 demo_phys demo_map = Some (Ret (demo_phys\<lparr>bitmap := b\<rparr>))"
    using s1' by (simp add: phys_init_map_def t page_size_def demo_place g s1)
  moreover have "mem_entries demo_phys = Ret demo_map"
    by (rule demo_entries) (simp_all add: demo_phys_def)
  ultimately have "phys_init demo_symbols demo_boot 0x500000 demo_phys = Some (Ret (demo_phys\<lparr>bitmap := b\<rparr>))"
    by (simp add: phys_init_def demo_tag r Let_def c s1 page_size_def)
  then show ?thesis by blast
qed

lemma init_reserves_exactly_witness:
  "\<exists>s'. phys_init demo_symbols demo_boot 0x500000 demo_phys = Some (Ret s') \<and>
     bm_test (bitmap s') 0 \<and> \<not> bm_test (bitmap s') 1"
proof -
  obtain b where i: "phys_init demo_symbols demo_boot 0x500000 demo_phys = Some (Ret (demo_phys\<lparr>bitmap := b\<rparr>))"
    using demo_init by blast
  let ?s = "demo_phys\<lparr>bitmap := b\<rparr>"
  have e: "mem_entries ?s = Ret demo_map"
    by (rule demo_entries) (simp_all add: demo_phys_def)
  have t: "get_total_size demo_boot 0x500000 False = 48"
    by (simp add: demo_boot_def rd32_def rd16_def get_total_size_def tag_header_def)
  have rs: "init_reservations demo_symbols (bitmap_ptr ?s) (bitmap_size ?s) 0x500000 (get_total_size demo_boot 0x500000 False) = demo_reservations"
    by (simp add: demo_reservations_def t demo_phys_def)
  have "\<forall>i < length (pages demo_map). bm_test b (of_nat i) \<longleftrightarrow> (\<exists>r \<in> set demo_reservations. meets (pages demo_map ! i) r)"
    using init_reserves_exactly[OF i e demo_map_facts(1), unfolded rs] by (simp add: demo_map_facts demo_reservations_eq beside_bitmap_def demo_phys_def)
  from this[rule_format, of 0] this[rule_format, of 1] have "bm_test b 0" "\<not> bm_test b 1"
    by (simp_all add: demo_map_facts demo_reservations_eq meets_def)
  with i show ?thesis by auto
qed

text \<open>A region that does not end on a page boundary, such as the low memory below \<open>0x9FC00\<close> that
  PC firmware reports, makes \<open>alloc(1)\<close> hand out its last, partial page: the page reaches past the
  end of the available memory.\<close>

theorem alloc_partial_page:
  assumes "mem_entries s = Ret (\<lparr>base_addr = 0, mem_length = 0x9FC00, mem_type = 1\<rparr> # es)"
    and "159 < unat (bitmap_size s)" "last_checked s = 158" "\<not> bm_test (bitmap s) 159"
  shows "\<exists>s'. phys_alloc 1 s = Some (Ret (Some 0x9F000, s')) \<and> 0x9F000 + page_size > (0x9FC00 :: u64)"
proof -
  have n: "bitmap_size s \<noteq> 0" using assms(2) by auto
  have m: "159 mod bitmap_size s = 159"
    by (rule word_cong_unat[THEN iffD2]) (use assms(2) in \<open>simp add: unat_mod\<close>)
  have "\<exists>s'. alloc_found 1 (s\<lparr>last_checked := 159\<rparr>) = Ret (Some 0x9F000, s')"
    by (simp add: alloc_found_def index_to_physical_def assms(1) page_size_def reserve_memory_def)
  then show ?thesis
    unfolding phys_alloc_def by (subst alloc_loop.simps) (auto simp: n m assms Let_def page_size_def)
qed

definition partial_boot :: bytes where
  "partial_boot = (\<lambda>_. 0)(0 := 24, 17 := 0xFC, 18 := 0x09, 24 := 1)"

lemma alloc_partial_page_witness:
  "\<exists>s'. phys_alloc 1 (demo_phys\<lparr>info := partial_boot, bitmap_size := 200, last_checked := 158\<rparr>) = Some (Ret (Some 0x9F000, s'))"
proof -
  let ?s = "demo_phys\<lparr>info := partial_boot, bitmap_size := 200, last_checked := 158\<rparr>"
  have "mem_entries ?s = Ret [\<lparr>base_addr = 0, mem_length = 0x9FC00, mem_type = 1\<rparr>]"
    by (simp add: demo_phys_def mem_entries_def entry_at_def partial_boot_def rd64_def rd32_def rd16_def upt_rec)
  from alloc_partial_page[OF this] show ?thesis by (simp add: demo_phys_def bm_test_def)
qed

text \<open>A bitmap of four pages on which the search for two pages goes in a circle.\<close>

definition alloc_stuck :: "u64 \<Rightarrow> u64 \<Rightarrow> phys_state \<Rightarrow> bool" where
  "alloc_stuck stop count s \<longleftrightarrow> stop = 1 \<and> count = 2 \<and> bitmap_size s = 4 \<and> last_checked s \<in> {0, 1, 2} \<and>
     bm_test (bitmap s) 0 \<and> \<not> bm_test (bitmap s) 1 \<and> bm_test (bitmap s) 2 \<and> \<not> bm_test (bitmap s) 3"

lemma alloc_scan_2:
  "alloc_scan s 2 i = (let index = (last_checked s + i) mod bitmap_size s;
                           index' = (last_checked s + (i + 1)) mod bitmap_size s
     in if bm_test (bitmap s) index then Some index else if bm_test (bitmap s) index' then Some index' else None)"
  by (simp add: Let_def eval_nat_numeral(2))

lemma alloc_stuck_loop:
  assumes "alloc_stuck stop count s"
  shows "alloc_loop stop count s = None"
proof (rule ccontr)
  assume "alloc_loop stop count s \<noteq> None"
  then obtain y where y: "alloc_loop stop count s = Some y" by auto
  have "\<not> alloc_stuck stop count s"
  proof (rule alloc_loop.raw_induct[OF _ y])
    fix f stop count s y
    assume IH: "\<And>stop count s y. f stop count s = Some y \<Longrightarrow> \<not> alloc_stuck stop count s"
      and eq: "(let s1 = s\<lparr>last_checked := (last_checked s + 1) mod bitmap_size s\<rparr>
        in case alloc_scan s1 (unat count) 0 of
          None \<Rightarrow> Some (alloc_found count s1)
        | Some index \<Rightarrow>
            let s2 = s1\<lparr>last_checked := index\<rparr>
            in if stop \<noteq> last_checked s2 then f stop count s2 else Some (Ret (None, s2))) = Some y"
    show "\<not> alloc_stuck stop count s"
    proof
      assume st: "alloc_stuck stop count s"
      then have "last_checked s = 0 \<or> last_checked s = 1 \<or> last_checked s = 2" by (simp add: alloc_stuck_def)
      then have "f stop count (s\<lparr>last_checked := 2\<rparr>) = Some y \<or> f stop count (s\<lparr>last_checked := 0\<rparr>) = Some y"
        using eq st by (auto simp: alloc_stuck_def Let_def alloc_scan_2)
      moreover have "alloc_stuck stop count (s\<lparr>last_checked := 2\<rparr>)" "alloc_stuck stop count (s\<lparr>last_checked := 0\<rparr>)"
        using st by (simp_all add: alloc_stuck_def)
      ultimately show False using IH by blast
    qed
  qed
  with assms show False by blast
qed

text \<open>C38. A request for two pages need not return: with pages 0 and 2 of four allocated and the search
  position at the free page 1, the search jumps over its own stop condition for ever.\<close>

theorem alloc_two_pages_diverges:
  assumes "bitmap_size s = 4" "last_checked s = 1"
    and "bm_test (bitmap s) 0" "\<not> bm_test (bitmap s) 1" "bm_test (bitmap s) 2" "\<not> bm_test (bitmap s) 3"
  shows "phys_alloc 2 s = None"
  using alloc_stuck_loop[of 1 2 s] assms by (simp add: phys_alloc_def alloc_stuck_def)

lemma alloc_two_pages_diverges_witness:
  "phys_alloc 2 (demo_phys\<lparr>bitmap := (\<lambda>_. 0)(0 := 5), last_checked := 1\<rparr>) = None"
  by (rule alloc_two_pages_diverges) (simp_all add: demo_phys_def bm_test_def)

end
