(* ===== verification/PageSource.thy ===== *)
theory PageSource
  imports PhysAlloc
begin

text \<open>
  What the page tables and the heap ask of \<open>PhysicalAllocator::alloc(1)\<close>: an interface with the
  set of free page frames as its abstraction, and the proof that the allocator provides it.
\<close>

type_synonym 'p page_alloc = "'p \<Rightarrow> (u64 option \<times> 'p) res option"

lemma Ti_values: "Ti 32 = 0x200000000000" "Ti 64 = 0x400000000000" "Ti 96 = 0x600000000000"
  by (simp_all add: Ti_def Gi_def Mi_def Ki_def)

text \<open>A page frame that the temporary mapping reaches.\<close>

definition frame_ok :: "u64 \<Rightarrow> bool" where
  "frame_ok b \<longleftrightarrow> 4096 dvd unat b \<and> b < Ti 32"

locale page_source =
  fixes alloc :: "'p page_alloc"
    and ok :: "'p \<Rightarrow> bool"
    and free :: "'p \<Rightarrow> u64 set"
  assumes alloc_total: "ok a \<Longrightarrow> \<exists>r a'. alloc a = Some (Ret (r, a')) \<and> ok a'"
    and alloc_some: "ok a \<Longrightarrow> alloc a = Some (Ret (Some p, a')) \<Longrightarrow>
      frame_ok p \<and> p \<in> free a \<and> free a' = free a - {p}"
    and alloc_none: "ok a \<Longrightarrow> alloc a = Some (Ret (None, a')) \<Longrightarrow> free a = {} \<and> free a' = {}"
begin

lemma alloc_cases:
  assumes "ok a"
  obtains (none) a' where "alloc a = Some (Ret (None, a'))" "ok a'" "free a = {}" "free a' = {}"
  | (some) p a' where "alloc a = Some (Ret (Some p, a'))" "ok a'" "frame_ok p" "p \<in> free a" "free a' = free a - {p}"
proof -
  obtain r a' where r: "alloc a = Some (Ret (r, a'))" "ok a'" using alloc_total[OF assms] by blast
  show thesis
  proof (cases r)
    case None
    with r alloc_none[OF assms] show thesis by (intro none) auto
  next
    case (Some p)
    with r alloc_some[OF assms, of p a'] show thesis by (intro some) auto
  qed
qed

end

section \<open>The physical allocator is a page source\<close>

definition phys_ok :: "phys_state \<Rightarrow> bool" where
  "phys_ok s \<longleftrightarrow> (\<exists>es. phys_inv s es \<and> (\<forall>p \<in> set (pages es). p < 2 ^ 33))"

definition phys_free_pages :: "phys_state \<Rightarrow> u64 set" where
  "phys_free_pages s = (case mem_entries s of
     Inl h \<Rightarrow> {}
   | Inr es \<Rightarrow> {page_addr es i | i. i < length (pages es) \<and> \<not> bm_test (bitmap s) (of_nat i)})"

lemma phys_free_pages_eq:
  "phys_inv s es \<Longrightarrow> phys_free_pages s = {page_addr es i | i. i < length (pages es) \<and> \<not> bm_test (bitmap s) (of_nat i)}"
  by (simp add: phys_free_pages_def phys_inv_def)

lemma page_addr_inj:
  assumes "map_ok lo es" "i < length (pages es)" "k < length (pages es)"
  shows "page_addr es i = page_addr es k \<longleftrightarrow> i = k"
  using page_addr_unat[OF assms(1,2)] page_addr_unat[OF assms(1,3)] page_index_inj[OF assms]
  by (metis mult_right_cancel zero_neq_numeral)

lemma phys_alloc_1_cases:
  assumes "phys_ok s"
  shows "\<exists>r s'. phys_alloc 1 s = Some (Ret (r, s')) \<and> phys_ok s' \<and>
    (case r of
       None \<Rightarrow> phys_free_pages s = {} \<and> phys_free_pages s' = {}
     | Some a \<Rightarrow> frame_ok a \<and> a \<in> phys_free_pages s \<and> phys_free_pages s' = phys_free_pages s - {a})"
proof -
  obtain es where es: "phys_inv s es" "\<forall>p \<in> set (pages es). p < 2 ^ 33"
    using assms by (auto simp: phys_ok_def)
  obtain r s' where r: "phys_alloc 1 s = Some (Ret (r, s'))" "alloc_post s es {..<length (pages es)} r s'"
    using alloc_one[OF es(1)] by blast
  have inv': "phys_inv s' es" using r(2) by (simp add: alloc_post_def)
  have ok': "phys_ok s'" using inv' es(2) by (auto simp: phys_ok_def)
  have mo: "map_ok 0 es" using es(1) by (simp add: phys_inv_def)
  note fp = phys_free_pages_eq[OF es(1)] phys_free_pages_eq[OF inv']
  show ?thesis
  proof (cases r)
    case None
    with r ok' show ?thesis by (auto simp: fp alloc_post_def)
  next
    case (Some a)
    then obtain i where i: "i < length (pages es)" "a = page_addr es i" "\<not> bm_test (bitmap s) (of_nat i)"
      "\<And>j. bm_test (bitmap s') j \<longleftrightarrow> j = of_nat i \<or> bm_test (bitmap s) j"
      using r(2) by (auto simp: alloc_post_def)
    have "pages es ! i < 2 ^ 33" using es(2) i(1) by simp
    then have "frame_ok a"
      using page_addr_unat[OF mo i(1)] by (simp add: frame_ok_def i(2) unat_less_iff Ti_values)
    moreover have "a \<in> phys_free_pages s" using i by (auto simp: fp)
    moreover have "(of_nat k :: u64) = of_nat i \<longleftrightarrow> k = i" if "k < length (pages es)" for k
      using of_nat_index[OF mo that] of_nat_index[OF mo i(1)] by metis
    then have "phys_free_pages s' = phys_free_pages s - {a}"
      unfolding fp using i page_addr_inj[OF mo _ i(1)] by auto
    ultimately show ?thesis using r ok' Some by auto
  qed
qed

interpretation phys: page_source "phys_alloc 1" phys_ok phys_free_pages
proof (unfold_locales, goal_cases)
  case (1 a)
  then show ?case using phys_alloc_1_cases by blast
next
  case (2 a p a')
  then show ?case using phys_alloc_1_cases[OF 2(1)] by auto
next
  case (3 a a')
  then show ?case using phys_alloc_1_cases[OF 3(1)] by auto
qed

end
