(* ===== verification/Paging.thy ===== *)
theory Paging
  imports PageSource
begin

text \<open>
  \<^verbatim>\<open>include/memory/paging.h\<close> and \<^verbatim>\<open>src/high/memory/paging.cpp\<close>: the four-level page tables of
  x86-64.  Physical memory is a map from addresses to 64-bit words; a \<open>PageTable*\<close> is a virtual
  address, read through the temporary mapping of physical memory at 64 TiB or, during start-up,
  through the identity mapping.  The page allocator is an argument \<open>alloc\<close>, the state of which is
  a field; the kernel's is \<open>phys_alloc 1\<close>.
\<close>

section \<open>State\<close>

record Flags =
  writeable :: bool
  user :: bool
  writeThrough :: bool
  cacheDisabled :: bool

record 'p pt_state =
  cr3 :: u64
  map_physical_high :: bool
  pmem :: "u64 \<Rightarrow> u64"
  pal :: 'p

text \<open>The processor's translation of kernel pointers to page tables.\<close>

definition to_phys :: "u64 \<Rightarrow> u64" where
  "to_phys v = (if v \<ge> Ti 64 \<and> v < Ti 96 then v - Ti 64 else v)"

definition read_word :: "'p pt_state \<Rightarrow> u64 \<Rightarrow> u64" where
  "read_word s p = pmem s (to_phys p)"

definition write_word :: "u64 \<Rightarrow> u64 \<Rightarrow> 'p pt_state \<Rightarrow> 'p pt_state" where
  "write_word p w s = s\<lparr>pmem := (pmem s)(to_phys p := w)\<rparr>"

section \<open>Page table entries\<close>

definition present :: "u64 \<Rightarrow> u64" where "present e = fld 0 1 e"
definition pageSize :: "u64 \<Rightarrow> u64" where "pageSize e = fld 7 1 e"
definition metaData :: "u64 \<Rightarrow> u64" where "metaData e = fld 9 3 e"
definition metaData2 :: "u64 \<Rightarrow> u64" where "metaData2 e = fld 52 11 e"
definition entry_address :: "u64 \<Rightarrow> u64" where "entry_address e = push_bit 12 (fld 12 40 e)"

definition set_present :: "u64 \<Rightarrow> u64 \<Rightarrow> u64" where "set_present v e = set_fld 0 1 v e"
definition set_page_size :: "u64 \<Rightarrow> u64 \<Rightarrow> u64" where "set_page_size v e = set_fld 7 1 v e"
definition set_write_enabled :: "u64 \<Rightarrow> u64 \<Rightarrow> u64" where "set_write_enabled v e = set_fld 1 1 v e"
definition set_address :: "u64 \<Rightarrow> u64 \<Rightarrow> u64" where "set_address v e = set_fld 12 40 v e"

text \<open>The four permission bits: \<open>map\<close> adds them in upper levels and sets them in the last one.\<close>

definition or_flags :: "Flags \<Rightarrow> u64 \<Rightarrow> u64" where
  "or_flags f e =
     (let e1 = set_fld 1 1 (fld 1 1 e OR of_bool (writeable f)) e;
          e2 = set_fld 2 1 (fld 2 1 e1 OR of_bool (user f)) e1;
          e3 = set_fld 3 1 (fld 3 1 e2 OR of_bool (writeThrough f)) e2
      in set_fld 4 1 (fld 4 1 e3 OR of_bool (cacheDisabled f)) e3)"

definition set_flags :: "Flags \<Rightarrow> u64 \<Rightarrow> u64" where
  "set_flags f e =
     set_fld 4 1 (of_bool (cacheDisabled f)) (set_fld 3 1 (of_bool (writeThrough f))
       (set_fld 2 1 (of_bool (user f)) (set_fld 1 1 (of_bool (writeable f)) e)))"

section \<open>Tables\<close>

definition get_page_entry :: "u64 \<Rightarrow> u64 \<Rightarrow> u64 option" where
  "get_page_entry page index = (if index < 512 then Some (page + 8 * index) else None)"

definition get_l4 :: "'p pt_state \<Rightarrow> u64" where
  "get_l4 s = (if map_physical_high s then map_tmp (cr3 s) else cr3 s)"

definition get_page :: "'p pt_state \<Rightarrow> u64 \<Rightarrow> u64 option" where
  "get_page s entry =
     (let e = read_word s entry in if present e \<noteq> 0 then Some (map_tmp (entry_address e)) else None)"

text \<open>\<open>memset(page, 0, page_size)\<close> over the 512 words of a page.\<close>

definition zero_page :: "u64 \<Rightarrow> 'p pt_state \<Rightarrow> 'p pt_state" where
  "zero_page page s = fold (\<lambda>i. write_word (page + 8 * of_nat i) 0) [0..<512] s"

definition allocate_page :: "'p page_alloc \<Rightarrow> 'p pt_state \<Rightarrow> (u64 \<times> 'p pt_state) res option" where
  "allocate_page alloc s =
     bindo (alloc (pal s)) (\<lambda>(ppage, a').
       case ppage of
         None \<Rightarrow> Some (Stop (Panic ''Could not allocate page for pagetable''))
       | Some p \<Rightarrow> (let vpage = map_tmp p in Some (Ret (vpage, zero_page vpage (s\<lparr>pal := a'\<rparr>)))))"

section \<open>get\<close>

definition pt_get :: "'p pt_state \<Rightarrow> u64 \<Rightarrow> u64 option" where
  "pt_get s v =
     (if v \<ge> Ti 64 \<and> v < Ti 96 then Some (v - Ti 64)
      else
        opt_map (get_page_entry (get_l4 s) (l4_offset v)) (\<lambda>e4.
        opt_map (get_page s e4) (\<lambda>l3.
        opt_map (get_page_entry l3 (l3_offset v)) (\<lambda>e3.
        if pageSize (read_word s e3) = 1
        then Some (entry_address (read_word s e3) + va_offset v + l1_offset v * Ki 4 + l2_offset v * Mi 2)
        else
          opt_map (get_page s e3) (\<lambda>l2.
          opt_map (get_page_entry l2 (l2_offset v)) (\<lambda>e2.
          if pageSize (read_word s e2) = 1
          then Some (entry_address (read_word s e2) + va_offset v + l1_offset v * Ki 4)
          else
            opt_map (get_page s e2) (\<lambda>l1.
            opt_map (get_page_entry l1 (l1_offset v)) (\<lambda>e1.
            Some (entry_address (read_word s e1) + va_offset v)))))))))"

section \<open>map and unmap\<close>

text \<open>One round of the loop of \<open>map\<close> at \<open>entry\<close>: the next table, created when it is not present.\<close>

definition map_level :: "'p page_alloc \<Rightarrow> Flags \<Rightarrow> u64 \<Rightarrow> 'p pt_state \<Rightarrow> (u64 \<times> 'p pt_state) res option" where
  "map_level alloc f entry s =
     bindo (case get_page s entry of Some page \<Rightarrow> Some (Ret (page, s)) | None \<Rightarrow> allocate_page alloc s) (\<lambda>(page, s1).
     bindo (if present (read_word s1 entry) = 0
            then case pt_get s1 page of
                   None \<Rightarrow> Some (Stop (Panic ''Can not unmap tmp mapped memory''))
                 | Some a \<Rightarrow> Some (Ret (write_word entry (set_address (drop_bit 12 a) (read_word s1 entry)) s1))
            else Some (Ret s1)) (\<lambda>s2.
     Some (Ret (page, write_word entry (or_flags f (set_present 1 (read_word s2 entry))) s2))))"

text \<open>The loop: \<open>k\<close> levels above the last, from level \<open>k + 1\<close>.\<close>

fun map_levels :: "'p page_alloc \<Rightarrow> u64 \<Rightarrow> Flags \<Rightarrow> nat \<Rightarrow> u64 \<Rightarrow> 'p pt_state \<Rightarrow> (u64 \<times> 'p pt_state) res option" where
  "map_levels alloc v f 0 page s = Some (Ret (page, s))"
| "map_levels alloc v f (Suc k) page s =
     (case opt_map (get_offset v (of_nat (Suc (Suc k)))) (get_page_entry page) of
        None \<Rightarrow> Some (Stop Undef)
      | Some entry \<Rightarrow> bindo (map_level alloc f entry s) (\<lambda>(page', s'). map_levels alloc v f k page' s'))"

definition pt_map :: "'p page_alloc \<Rightarrow> u64 \<Rightarrow> u64 \<Rightarrow> Flags \<Rightarrow> 'p pt_state \<Rightarrow> 'p pt_state res option" where
  "pt_map alloc p v f s =
     bindo (map_levels alloc v f 3 (get_l4 s) s) (\<lambda>(page, s1).
       case opt_map (get_offset v 1) (get_page_entry page) of
         None \<Rightarrow> Some (Stop Undef)
       | Some entry \<Rightarrow>
           Some (Ret (write_word entry
             (set_flags f (set_present 1 (set_address (drop_bit 12 p) (read_word s1 entry)))) s1)))"

definition pt_unmap :: "u64 \<Rightarrow> 'p pt_state \<Rightarrow> 'p pt_state" where
  "pt_unmap v s =
     (case opt_map (get_page_entry (get_l4 s) (l4_offset v)) (\<lambda>e4.
           opt_map (get_page s e4) (\<lambda>l3.
           opt_map (get_page_entry l3 (l3_offset v)) (\<lambda>e3.
           opt_map (get_page s e3) (\<lambda>l2.
           opt_map (get_page_entry l2 (l2_offset v)) (\<lambda>e2.
           opt_map (get_page s e2) (\<lambda>l1.
           get_page_entry l1 (l1_offset v))))))) of
        None \<Rightarrow> s
      | Some entry \<Rightarrow> write_word entry (set_present 0 (read_word s entry)) s)"

section \<open>Metadata\<close>

text \<open>\<open>PageMetaData\<close> is a 14-bit field.\<close>

definition construct_metadata :: "'p pt_state \<Rightarrow> u64 \<Rightarrow> u16" where
  "construct_metadata s entry =
     (let e = read_word s entry; meta = set_fld 0 14 (ucast (metaData e)) 0
      in set_fld 0 14 (fld 0 14 meta OR ucast (push_bit 3 (metaData2 e))) (meta :: u16))"

text \<open>A table that is not there is read through an empty \<open>optional\<close> on the way to a lower level.\<close>

definition get_metadata :: "'p pt_state \<Rightarrow> u64 \<Rightarrow> u8 \<Rightarrow> u16 option res" where
  "get_metadata s v level =
     (if level > 4 then Ret None
      else
        let l4 = get_page_entry (get_l4 s) (l4_offset v) in
        if level = 4 then Ret (map_option (construct_metadata s) l4)
        else bindr (or_undef l4) (\<lambda>e4.
          let l3 = opt_map (get_page s e4) (\<lambda>p. get_page_entry p (l3_offset v)) in
          if level = 3 then Ret (map_option (construct_metadata s) l3)
          else bindr (or_undef l3) (\<lambda>e3.
            let l2 = opt_map (get_page s e3) (\<lambda>p. get_page_entry p (l2_offset v)) in
            if level = 2 then Ret (map_option (construct_metadata s) l2)
            else bindr (or_undef l2) (\<lambda>e2.
              let l1 = opt_map (get_page s e2) (\<lambda>p. get_page_entry p (l1_offset v)) in
              if level = 1 then Ret (map_option (construct_metadata s) l1) else Ret None))))"

text \<open>
  \<open>setMetaData\<close> as written: the index argument \<open>v.getOffset(currentLevel)\<close> is an \<open>optional\<close> that
  converts through \<open>bool\<close> to 0 or 1, \<open>nextPage >> 12\<close> likewise shifts a truth value, and
  \<open>currentLevel\<close> never changes.
\<close>

definition bool_index :: "u64 option \<Rightarrow> u64" where
  "bool_index x = of_bool (x \<noteq> None)"

partial_function (option) set_metadata_loop ::
    "'p page_alloc \<Rightarrow> u64 \<Rightarrow> u8 \<Rightarrow> u8 \<Rightarrow> u16 \<Rightarrow> bool \<Rightarrow> u64 \<Rightarrow> 'p pt_state \<Rightarrow> (bool \<times> 'p pt_state) res option" where
  "set_metadata_loop alloc v currentLevel level meta allocateIfNotPresent currentPage s =
     (if \<not> currentLevel > 0 then Some (Ret (False, s))
      else case get_page_entry currentPage (bool_index (get_offset v currentLevel)) of
        None \<Rightarrow> Some (Stop Undef)
      | Some entry \<Rightarrow>
          if currentLevel = level
          then Some (Ret (True, write_word entry
                 (set_fld 52 11 (drop_bit 3 (ucast meta)) (set_fld 9 3 (ucast meta) (read_word s entry))) s))
          else case get_page s entry of
            Some nextPage \<Rightarrow>
              set_metadata_loop alloc v currentLevel level meta allocateIfNotPresent nextPage s
          | None \<Rightarrow>
              if \<not> allocateIfNotPresent then Some (Ret (False, s))
              else case allocate_page alloc s of
                None \<Rightarrow> None
              | Some (Inl h) \<Rightarrow> Some (Stop h)
              | Some (Inr (nextPage, s1)) \<Rightarrow>
                  set_metadata_loop alloc v currentLevel level meta allocateIfNotPresent nextPage
                    (write_word entry (set_write_enabled 1 (set_present 1
                      (set_address (drop_bit 12 1) (read_word s1 entry)))) s1))"

definition set_metadata ::
    "'p page_alloc \<Rightarrow> u64 \<Rightarrow> u8 \<Rightarrow> u16 \<Rightarrow> bool \<Rightarrow> 'p pt_state \<Rightarrow> (bool \<times> 'p pt_state) res option" where
  "set_metadata alloc v level meta allocateIfNotPresent s =
     (if level > 4 then Some (Ret (False, s))
      else set_metadata_loop alloc v 4 level meta allocateIfNotPresent (get_l4 s) s)"

section \<open>Start-up\<close>

text \<open>One 1 GiB entry of the temporary mapping, and the entry of the table it is in.\<close>

definition identity_entry :: "nat \<Rightarrow> nat \<Rightarrow> u64" where
  "identity_entry i j =
     set_page_size 1 (set_write_enabled 1 (set_present 1 (Gi 512 * of_nat i + Gi 1 * of_nat j)))"

definition init_table :: "u64 \<Rightarrow> nat \<Rightarrow> 'p pt_state \<Rightarrow> 'p pt_state" where
  "init_table base i s =
     (let page = base + of_nat i * page_size;
          l4e = cr3 s + 8 * (l4_offset (Ti 64) + of_nat i);
          s1 = write_word l4e page s;
          s2 = write_word l4e (set_present 1 (read_word s1 l4e)) s1;
          s3 = write_word l4e (set_write_enabled 1 (read_word s2 l4e)) s2
      in fold (\<lambda>j. write_word (page + 8 * of_nat j) (identity_entry i j)) [0..<512] s3)"

text \<open>\<open>edx\<close> is the CPU's answer to \<open>cpuid(0x80000001)\<close>; \<open>alloc64\<close> is \<open>PhysicalAllocator::alloc(64)\<close>.\<close>

definition pt_init :: "'p page_alloc \<Rightarrow> u32 \<Rightarrow> 'p pt_state \<Rightarrow> 'p pt_state res option" where
  "pt_init alloc64 edx s =
     (let s0 = s\<lparr>map_physical_high := False\<rparr>
      in if \<not> bit edx 26 then Some (Stop (Panic ''1GiB pages are not supported''))
         else bindo (alloc64 (pal s0)) (\<lambda>(pages_opt, a').
           case pages_opt of
             None \<Rightarrow> Some (Stop (Panic ''could not allocate identity mapping pages''))
           | Some base \<Rightarrow> Some (Ret (fold (init_table base) [0..<64] (s0\<lparr>pal := a'\<rparr>)))))"

text \<open>The end of start-up: the GDT register, given as base and size, moves to the temporary mapping, and
  the first entry of the top table is cleared.\<close>

definition pt_clear_startup :: "u64 \<times> u16 \<Rightarrow> ('p \<Rightarrow> 'p) \<Rightarrow> 'p pt_state \<Rightarrow> (u64 \<times> u16) \<times> 'p pt_state" where
  "pt_clear_startup gdtr alloc_clear s =
     (let s1 = s\<lparr>pal := alloc_clear (pal s), map_physical_high := True\<rparr>
      in ((map_tmp (fst gdtr), snd gdtr), write_word (get_l4 s1) 0 s1))"


section \<open>Reading and writing table words\<close>

text \<open>Word \<open>i\<close> of the table at physical address \<open>b\<close>; \<open>points P b\<close>: pointer \<open>P\<close> reads that table.\<close>

definition tw :: "'p pt_state \<Rightarrow> u64 \<Rightarrow> u64 \<Rightarrow> u64" where
  "tw s b i = pmem s (b + 8 * i)"

definition points :: "u64 \<Rightarrow> u64 \<Rightarrow> bool" where
  "points P b \<longleftrightarrow> (\<forall>i < 512. to_phys (P + 8 * i) = b + 8 * i)"

lemma unat_8i: "i < 512 \<Longrightarrow> unat (8 * i :: u64) = 8 * unat i \<and> unat i < 512"
  by (subst unat_mult_u64) (simp_all add: unat_less_iff)

lemma frame_word:
  assumes "frame_ok b" "i < 512"
  shows "unat (b + 8 * i) = unat b + 8 * unat i" "unat b + 8 * unat i < 2 ^ 45"
proof -
  have b: "unat b < 2 ^ 45" "4096 dvd unat b"
    using assms(1) by (simp_all add: frame_ok_def Ti_values unat_less_iff)
  then obtain q where q: "unat b = 4096 * q" by (auto elim: dvdE)
  have i: "unat (8 * i) = 8 * unat i" "unat i < 512" using unat_8i[OF assms(2)] by simp_all
  show l: "unat b + 8 * unat i < 2 ^ 45" using b(1) i(2) q by simp
  show "unat (b + 8 * i) = unat b + 8 * unat i"
    using l i by (subst unat_add_u64) simp_all
qed

lemma frame_word_inj:
  assumes "frame_ok b" "frame_ok c" "i < 512" "j < 512"
  shows "b + 8 * i = c + 8 * j \<longleftrightarrow> b = c \<and> i = j"
proof
  assume "b + 8 * i = c + 8 * j"
  then have e: "unat b + 8 * unat i = unat c + 8 * unat j"
    using frame_word(1)[OF assms(1,3)] frame_word(1)[OF assms(2,4)] by simp
  obtain q r where q: "unat b = 4096 * q" "unat c = 4096 * r"
    using assms(1,2) by (auto simp: frame_ok_def elim!: dvdE)
  have i: "unat i < 512" "unat j < 512" using assms(3,4) by (simp_all add: unat_less_iff)
  have "(4096 * q + 8 * unat i) div 4096 = q" "(4096 * r + 8 * unat j) div 4096 = r"
    using i by simp_all
  then have qr: "q = r" using e q by simp
  then have "unat i = unat j" using e q by simp
  with qr q show "b = c \<and> i = j" by (simp only: word_cong_unat)
qed simp

lemma points_tmp: "frame_ok b \<Longrightarrow> points (map_tmp b) b"
  unfolding points_def
proof (intro allI impI)
  fix i :: u64 assume b: "frame_ok b" and i: "i < 512"
  have u: "unat (b + 8 * i) < 2 ^ 45" using frame_word[OF b i] by simp
  have e: "map_tmp b + 8 * i = (b + 8 * i) + Ti 64" by (simp add: map_tmp_def)
  have v: "unat ((b + 8 * i) + Ti 64) = unat (b + 8 * i) + 2 ^ 46"
    using u by (subst unat_add_u64) (simp_all add: Ti_values)
  show "to_phys (map_tmp b + 8 * i) = b + 8 * i"
    unfolding e to_phys_def using u v by (simp add: unat_le_iff unat_less_iff Ti_values)
qed

lemma points_low: "frame_ok b \<Longrightarrow> points b b"
  unfolding points_def
proof (intro allI impI)
  fix i :: u64 assume b: "frame_ok b" and i: "i < 512"
  have "unat (b + 8 * i) < 2 ^ 45" using frame_word[OF b i] by simp
  then show "to_phys (b + 8 * i) = b + 8 * i"
    by (simp add: to_phys_def unat_le_iff Ti_values)
qed

lemma points_l4: "frame_ok (cr3 s) \<Longrightarrow> points (get_l4 s) (cr3 s)"
  by (simp add: get_l4_def points_tmp points_low)

lemma read_points: "points P b \<Longrightarrow> i < 512 \<Longrightarrow> read_word s (P + 8 * i) = tw s b i"
  by (simp add: read_word_def points_def tw_def)

lemma write_points:
  assumes "points P b" "i < 512" "frame_ok b" "frame_ok c" "j < 512"
  shows "tw (write_word (P + 8 * i) w s) c j = (if c = b \<and> j = i then w else tw s c j)"
  using assms frame_word_inj[of c b j i] by (auto simp: write_word_def points_def tw_def)

lemma write_word_simps [simp]:
  "cr3 (write_word p w s) = cr3 s" "map_physical_high (write_word p w s) = map_physical_high s"
  "pal (write_word p w s) = pal s" "get_l4 (write_word p w s) = get_l4 s"
  by (simp_all add: write_word_def get_l4_def)

lemma tw_update [simp]: "tw (s\<lparr>pal := a\<rparr>) b i = tw s b i" "get_l4 (s\<lparr>pal := a\<rparr>) = get_l4 s"
  by (simp_all add: tw_def get_l4_def)

lemma get_page_entry_simp [simp]: "i < 512 \<Longrightarrow> get_page_entry p i = Some (p + 8 * i)"
  by (simp add: get_page_entry_def)

text \<open>Writing the words of one page by index.\<close>

lemma of_nat_512: "n < 512 \<Longrightarrow> (of_nat n :: u64) < 512"
  by (simp add: unat_less_iff unat_of_nat_u64)

lemma fold_write_words:
  assumes "points P b" "frame_ok b" "frame_ok c" "j < 512" "n \<le> 512"
  shows "tw (fold (\<lambda>i. write_word (P + 8 * of_nat i) (g i)) [0..<n] s) c j =
    (if c = b \<and> unat j < n then g (unat j) else tw s c j)"
  using assms(5)
proof (induction n)
  case (Suc n)
  have n: "(of_nat n :: u64) < 512" using Suc.prems by (intro of_nat_512) simp
  have "j = of_nat n \<longleftrightarrow> unat j = n" using Suc.prems by (auto simp: word_cong_unat unat_of_nat_u64)
  then show ?case
    using Suc by (auto simp: write_points[OF assms(1) n assms(2,3,4)])
qed simp

lemma fold_write_frame:
  "cr3 (fold (\<lambda>i. write_word (p i) (g i)) is s) = cr3 s"
  "map_physical_high (fold (\<lambda>i. write_word (p i) (g i)) is s) = map_physical_high s"
  "pal (fold (\<lambda>i. write_word (p i) (g i)) is s) = pal s"
  by (induction "is" arbitrary: s) simp_all

lemma zero_page_tw:
  assumes "points P b" "frame_ok b" "frame_ok c" "j < 512"
  shows "tw (zero_page P s) c j = (if c = b then 0 else tw s c j)"
proof -
  have "unat j < 512" using assms(4) by (simp add: unat_less_iff)
  then show ?thesis
    unfolding zero_page_def using fold_write_words[OF assms, of 512 "\<lambda>_. 0" s] by simp
qed

lemma zero_page_frame [simp]:
  "cr3 (zero_page P s) = cr3 s" "map_physical_high (zero_page P s) = map_physical_high s"
  "pal (zero_page P s) = pal s" "get_l4 (zero_page P s) = get_l4 s"
  by (simp_all add: zero_page_def fold_write_frame get_l4_def)

section \<open>The tree of tables\<close>

text \<open>The index of an address at a level, and what an entry of a table of level \<open>k\<close> is: a link to a
  lower table, a large page, or nothing.\<close>

fun ix :: "nat \<Rightarrow> u64 \<Rightarrow> u64" where
  "ix k v = (if k = 4 then l4_offset v else if k = 3 then l3_offset v else if k = 2 then l2_offset v
     else l1_offset v)"

declare ix.simps [simp del]

lemma ix_less [simp]: "ix k v < 512"
  using l_offset_less by (simp add: ix.simps unat_less_iff)

definition huge :: "nat \<Rightarrow> u64 \<Rightarrow> bool" where
  "huge k e \<longleftrightarrow> k < 4 \<and> pageSize e = 1"

definition link :: "nat \<Rightarrow> u64 \<Rightarrow> bool" where
  "link k e \<longleftrightarrow> present e \<noteq> 0 \<and> \<not> huge k e"

text \<open>
  \<open>lv b\<close> is the level of the table at \<open>b\<close>, 0 where there is none.  Links go one level down, no
  table is linked twice, and only present entries are large pages.
\<close>

definition tables_ok :: "(u64 \<Rightarrow> nat) \<Rightarrow> 'p pt_state \<Rightarrow> bool" where
  "tables_ok lv s \<longleftrightarrow>
     lv (cr3 s) = 4 \<and> (\<forall>b. lv b \<noteq> 0 \<longrightarrow> frame_ok b \<and> lv b \<le> 4) \<and>
     (\<forall>b i. 2 \<le> lv b \<longrightarrow> i < 512 \<longrightarrow> link (lv b) (tw s b i) \<longrightarrow> lv (entry_address (tw s b i)) = lv b - 1) \<and>
     (\<forall>b i c j. 2 \<le> lv b \<longrightarrow> i < 512 \<longrightarrow> link (lv b) (tw s b i) \<longrightarrow> 2 \<le> lv c \<longrightarrow> j < 512 \<longrightarrow> link (lv c) (tw s c j) \<longrightarrow>
        entry_address (tw s b i) = entry_address (tw s c j) \<longrightarrow> b = c \<and> i = j) \<and>
     (\<forall>b i. 2 \<le> lv b \<longrightarrow> i < 512 \<longrightarrow> huge (lv b) (tw s b i) \<longrightarrow> present (tw s b i) \<noteq> 0)"

lemma tables_okD:
  assumes "tables_ok lv s"
  shows "lv (cr3 s) = 4" "lv b \<noteq> 0 \<Longrightarrow> frame_ok b" "lv b \<noteq> 0 \<Longrightarrow> lv b \<le> 4"
    "2 \<le> lv b \<Longrightarrow> i < 512 \<Longrightarrow> link (lv b) (tw s b i) \<Longrightarrow> lv (entry_address (tw s b i)) = lv b - 1"
    "2 \<le> lv b \<Longrightarrow> i < 512 \<Longrightarrow> link (lv b) (tw s b i) \<Longrightarrow> 2 \<le> lv c \<Longrightarrow> j < 512 \<Longrightarrow> link (lv c) (tw s c j) \<Longrightarrow>
        entry_address (tw s b i) = entry_address (tw s c j) \<Longrightarrow> b = c \<and> i = j"
    "2 \<le> lv b \<Longrightarrow> i < 512 \<Longrightarrow> huge (lv b) (tw s b i) \<Longrightarrow> present (tw s b i) \<noteq> 0"
  using assms unfolding tables_ok_def by blast+

text \<open>Entries that mean the same to the tree.\<close>

definition same_entry :: "u64 \<Rightarrow> u64 \<Rightarrow> bool" where
  "same_entry e e' \<longleftrightarrow> (present e = 0 \<longleftrightarrow> present e' = 0) \<and> pageSize e = pageSize e' \<and> entry_address e = entry_address e'"

lemma same_entry_link: "same_entry e e' \<Longrightarrow> link k e = link k e' \<and> huge k e = huge k e'"
  by (simp add: same_entry_def link_def huge_def)

lemma same_entry_refl [simp]: "same_entry e e"
  by (simp add: same_entry_def)

lemma tables_ok_cong:
  assumes "tables_ok lv s" "cr3 s' = cr3 s"
    "\<And>b i. 2 \<le> lv b \<Longrightarrow> i < 512 \<Longrightarrow> same_entry (tw s b i) (tw s' b i)"
  shows "tables_ok lv s'"
proof -
  have e: "entry_address (tw s' b i) = entry_address (tw s b i)" "link (lv b) (tw s' b i) = link (lv b) (tw s b i)"
    "huge (lv b) (tw s' b i) = huge (lv b) (tw s b i)" "present (tw s' b i) = 0 \<longleftrightarrow> present (tw s b i) = 0"
    if "2 \<le> lv b" "i < 512" for b i
    using assms(3)[OF that] same_entry_link[of "tw s b i" "tw s' b i"] by (auto simp: same_entry_def)
  show ?thesis
    unfolding tables_ok_def
  proof (intro conjI allI impI)
    show "lv (cr3 s') = 4" using tables_okD(1)[OF assms(1)] assms(2) by simp
  next
    fix b assume "lv b \<noteq> 0" then show "frame_ok b" "lv b \<le> 4" using tables_okD(2,3)[OF assms(1)] by blast+
  next
    fix b i assume "2 \<le> lv b" "i < 512" "link (lv b) (tw s' b i)"
    then show "lv (entry_address (tw s' b i)) = lv b - 1" using tables_okD(4)[OF assms(1)] by (simp add: e)
  next
    fix b i c j assume a: "2 \<le> lv b" "i < 512" "link (lv b) (tw s' b i)" "2 \<le> lv c" "j < 512" "link (lv c) (tw s' c j)"
      "entry_address (tw s' b i) = entry_address (tw s' c j)"
    then have "b = c \<and> i = j" using tables_okD(5)[OF assms(1)] by (simp add: e)
    then show "b = c" "i = j" by simp_all
  next
    fix b i assume "2 \<le> lv b" "i < 512" "huge (lv b) (tw s' b i)"
    then show "present (tw s' b i) \<noteq> 0" using tables_okD(6)[OF assms(1)] by (simp add: e)
  qed
qed

section \<open>Walks\<close>

text \<open>The translation from a table of level \<open>m\<close>, as \<open>get\<close> computes it; \<open>reach\<close> is the last-level
  table on the way, \<open>no_huge\<close> that no large page is on it.\<close>

definition low_part :: "nat \<Rightarrow> u64 \<Rightarrow> u64" where
  "low_part k v = (if k = 3 then va_offset v + l1_offset v * Ki 4 + l2_offset v * Mi 2
     else va_offset v + l1_offset v * Ki 4)"

fun wk :: "'p pt_state \<Rightarrow> nat \<Rightarrow> u64 \<Rightarrow> u64 \<Rightarrow> u64 option" where
  "wk s 0 b v = None"
| "wk s (Suc 0) b v = Some (entry_address (tw s b (ix 1 v)) + va_offset v)"
| "wk s (Suc (Suc k)) b v =
     (let e = tw s b (ix (Suc (Suc k)) v)
      in if huge (Suc (Suc k)) e then Some (entry_address e + low_part (Suc (Suc k)) v)
         else if present e = 0 then None
         else wk s (Suc k) (entry_address e) v)"

fun reach :: "'p pt_state \<Rightarrow> nat \<Rightarrow> u64 \<Rightarrow> u64 \<Rightarrow> u64 option" where
  "reach s 0 b v = None"
| "reach s (Suc 0) b v = Some b"
| "reach s (Suc (Suc k)) b v =
     (let e = tw s b (ix (Suc (Suc k)) v)
      in if link (Suc (Suc k)) e then reach s (Suc k) (entry_address e) v else None)"

fun no_huge :: "'p pt_state \<Rightarrow> nat \<Rightarrow> u64 \<Rightarrow> u64 \<Rightarrow> bool" where
  "no_huge s 0 b v \<longleftrightarrow> True"
| "no_huge s (Suc 0) b v \<longleftrightarrow> True"
| "no_huge s (Suc (Suc k)) b v \<longleftrightarrow>
     (let e = tw s b (ix (Suc (Suc k)) v)
      in \<not> huge (Suc (Suc k)) e \<and> (present e \<noteq> 0 \<longrightarrow> no_huge s (Suc k) (entry_address e) v))"

text \<open>The translation of the processor: every level needs its present bit, the one that maps the page included.  The result
  is the physical address and the entry that maps the page.\<close>

definition frame_of :: "nat \<Rightarrow> u64 \<Rightarrow> u64" where
  "frame_of k e = push_bit (12 + 9 * k) (fld (12 + 9 * k) (40 - 9 * k) e)"

fun mmu :: "'p pt_state \<Rightarrow> nat \<Rightarrow> u64 \<Rightarrow> u64 \<Rightarrow> (u64 \<times> u64) option" where
  "mmu s 0 b v = None"
| "mmu s (Suc k) b v =
     (let e = tw s b (ix (Suc k) v)
      in if \<not> bit e 0 then None
         else if k = 0 \<or> k < 3 \<and> bit e 7 then Some (frame_of k e + fld 0 (12 + 9 * k) v, e)
         else mmu s k (frame_of 0 e) v)"

definition in_window :: "u64 \<Rightarrow> bool" where
  "in_window v \<longleftrightarrow> v \<ge> Ti 64 \<and> v < Ti 96"

lemma get_page_points: "points P b \<Longrightarrow> i < 512 \<Longrightarrow>
  get_page s (P + 8 * i) = (if present (tw s b i) = 0 then None else Some (map_tmp (entry_address (tw s b i))))"
  by (simp add: get_page_def read_points Let_def)

lemma pt_get_wk:
  assumes ok: "tables_ok lv s" and "\<not> in_window v"
  shows "pt_get s v = wk s 4 (cr3 s) v"
proof -
  define e4 where "e4 = tw s (cr3 s) (l4_offset v)"
  define e3 where "e3 = tw s (entry_address e4) (l3_offset v)"
  define e2 where "e2 = tw s (entry_address e3) (l2_offset v)"
  define e1 where "e1 = tw s (entry_address e2) (l1_offset v)"
  note o = ix_less[of 4 v] ix_less[of 3 v] ix_less[of 2 v] ix_less[of 1 v]
  have io: "l4_offset v < 512" "l3_offset v < 512" "l2_offset v < 512" "l1_offset v < 512"
    using o by (simp_all add: ix.simps)
  have l4: "lv (cr3 s) = 4" by (rule tables_okD(1)[OF ok])
  have P4: "points (get_l4 s) (cr3 s)"
    using tables_okD(2)[OF ok, of "cr3 s"] l4 by (intro points_l4) simp
  have l3: "lv (entry_address e4) = 3" if "present e4 \<noteq> 0"
    using tables_okD(4)[OF ok, of "cr3 s" "l4_offset v"] that l4 io by (simp add: link_def huge_def e4_def)
  have P3: "points (map_tmp (entry_address e4)) (entry_address e4)" if "present e4 \<noteq> 0"
    using tables_okD(2)[OF ok, of "entry_address e4"] l3[OF that] by (intro points_tmp) simp
  have l2: "lv (entry_address e3) = 2" if "present e4 \<noteq> 0" "present e3 \<noteq> 0" "pageSize e3 \<noteq> 1"
    using tables_okD(4)[OF ok, of "entry_address e4" "l3_offset v"] that l3[OF that(1)] io
    by (simp add: link_def huge_def e3_def)
  have P2: "points (map_tmp (entry_address e3)) (entry_address e3)" if "present e4 \<noteq> 0" "present e3 \<noteq> 0" "pageSize e3 \<noteq> 1"
    using tables_okD(2)[OF ok, of "entry_address e3"] l2[OF that] by (intro points_tmp) simp
  have l1: "lv (entry_address e2) = 1"
    if "present e4 \<noteq> 0" "present e3 \<noteq> 0" "pageSize e3 \<noteq> 1" "present e2 \<noteq> 0" "pageSize e2 \<noteq> 1"
    using tables_okD(4)[OF ok, of "entry_address e3" "l2_offset v"] that l2[OF that(1-3)] io
    by (simp add: link_def huge_def e2_def)
  have P1: "points (map_tmp (entry_address e2)) (entry_address e2)"
    if "present e4 \<noteq> 0" "present e3 \<noteq> 0" "pageSize e3 \<noteq> 1" "present e2 \<noteq> 0" "pageSize e2 \<noteq> 1"
    using tables_okD(2)[OF ok, of "entry_address e2"] l1[OF that] by (intro points_tmp) simp
  have lhs: "pt_get s v =
     (if present e4 = 0 then None
      else if pageSize e3 = 1 then Some (entry_address e3 + va_offset v + l1_offset v * Ki 4 + l2_offset v * Mi 2)
      else if present e3 = 0 then None
      else if pageSize e2 = 1 then Some (entry_address e2 + va_offset v + l1_offset v * Ki 4)
      else if present e2 = 0 then None
      else Some (entry_address e1 + va_offset v))"
  proof -
    note d = e4_def[symmetric] e3_def[symmetric] e2_def[symmetric] e1_def[symmetric]
    note base = pt_get_def assms(2)[unfolded in_window_def] io d read_points[OF P4] get_page_points[OF P4]
    show ?thesis
    proof (cases "present e4 = 0")
      case False
      note a3 = read_points[OF P3[OF False]] get_page_points[OF P3[OF False]]
      show ?thesis
      proof (cases "pageSize e3 \<noteq> 1 \<and> present e3 \<noteq> 0")
        case c3: True
        note a2 = read_points[OF P2[OF False]] get_page_points[OF P2[OF False]]
        show ?thesis
        proof (cases "pageSize e2 \<noteq> 1 \<and> present e2 \<noteq> 0")
          case c2: True
          note a1 = read_points[OF P1[OF False]]
          show ?thesis using False c3 c2 by (simp add: base a3 a2 a1)
        qed (use False c3 in \<open>auto simp add: base a3 a2\<close>)
      qed (use False in \<open>auto simp add: base a3\<close>)
    qed (simp add: base)
  qed
  have "wk s 4 (cr3 s) v = wk s (Suc (Suc (Suc (Suc 0)))) (cr3 s) v" by (simp add: eval_nat_numeral)
  also have "\<dots> =
     (if present e4 = 0 then None
      else if pageSize e3 = 1 then Some (entry_address e3 + (va_offset v + l1_offset v * Ki 4 + l2_offset v * Mi 2))
      else if present e3 = 0 then None
      else if pageSize e2 = 1 then Some (entry_address e2 + (va_offset v + l1_offset v * Ki 4))
      else if present e2 = 0 then None
      else Some (entry_address e1 + va_offset v))"
    by (simp add: Let_def ix.simps huge_def low_part_def
        e4_def[symmetric] e3_def[symmetric] e2_def[symmetric] e1_def[symmetric])
  finally show ?thesis using lhs by (simp add: algebra_simps)
qed

text \<open>Two addresses whose walks meet in one last-level table agree in all the indices above it.\<close>

lemma reach_unique:
  assumes ok: "tables_ok lv s"
  shows "reach s m d v = Some t \<Longrightarrow> reach s m d' v' = Some t \<Longrightarrow> lv d = m \<Longrightarrow> lv d' = m \<Longrightarrow>
    d = d' \<and> (\<forall>k. 2 \<le> k \<and> k \<le> m \<longrightarrow> ix k v = ix k v')"
proof (induction m arbitrary: d d')
  case (Suc m)
  show ?case
  proof (cases m)
    case 0
    with Suc show ?thesis by auto
  next
    case (Suc k)
    let ?e = "tw s d (ix (Suc m) v)" and ?e' = "tw s d' (ix (Suc m) v')"
    have r: "link (Suc m) ?e" "reach s m (entry_address ?e) v = Some t"
      "link (Suc m) ?e'" "reach s m (entry_address ?e') v' = Some t"
      using Suc.prems Suc by (auto simp: Let_def split: if_splits)
    have lvs: "lv (entry_address ?e) = m" "lv (entry_address ?e') = m"
      using tables_okD(4)[OF ok, of d "ix (Suc m) v"] tables_okD(4)[OF ok, of d' "ix (Suc m) v'"] Suc.prems(3,4) r Suc
      by simp_all
    have IH: "entry_address ?e = entry_address ?e'" "\<forall>k. 2 \<le> k \<and> k \<le> m \<longrightarrow> ix k v = ix k v'"
      using Suc.IH[OF r(2,4) lvs] by simp_all
    have "d = d' \<and> ix (Suc m) v = ix (Suc m) v'"
      using tables_okD(5)[OF ok, of d "ix (Suc m) v" d' "ix (Suc m) v'"] IH(1) r Suc.prems(3,4) Suc by simp
    with IH(2) show ?thesis by (auto simp: le_Suc_eq)
  qed
qed simp


section \<open>Entry fields\<close>

lemma take_bit_1_of_bool [simp]: "take_bit (Suc 0) (of_bool b :: u64) = of_bool b"
  by (cases b) simp_all

lemma entry_field_simps [field_simp]:
  "present (set_present 1 e) = 1" "present (set_present 0 e) = 0"
  "pageSize (set_present w e) = pageSize e" "entry_address (set_present w e) = entry_address e"
  "present (set_address w e) = present e" "pageSize (set_address w e) = pageSize e"
  "present (or_flags f e) = present e" "pageSize (or_flags f e) = pageSize e"
  "entry_address (or_flags f e) = entry_address e"
  "present (set_flags f e) = present e" "pageSize (set_flags f e) = pageSize e"
  "entry_address (set_flags f e) = entry_address e"
  by (simp_all add: present_def set_present_def pageSize_def entry_address_def set_address_def or_flags_def
      set_flags_def Let_def fld_set_fld_other fld_set_fld_same)

lemma entry_address_set [field_simp]: "entry_address (set_address (drop_bit 12 a) e) = push_bit 12 (take_bit 40 (drop_bit 12 a))"
  by (simp add: entry_address_def set_address_def fld_set_fld_same)

lemma frame_shift:
  assumes "frame_ok c"
  shows "push_bit 12 (take_bit 40 (drop_bit 12 c)) = c"
proof (rule bit_word_eqI)
  fix n assume n: "n < LENGTH(64)"
  have low: "take_bit 12 c = 0"
  proof -
    have "unat (take_bit 12 c) = unat c mod 4096"
      by (simp only: unsigned_take_bit_eq) (simp add: take_bit_eq_mod)
    also have "\<dots> = 0" using assms by (simp add: frame_ok_def dvd_eq_mod_eq_0)
    finally show ?thesis by (simp add: word_cong_unat)
  qed
  have "unat c < 2 ^ 45" using assms by (simp add: frame_ok_def unat_less_iff Ti_values)
  then have "take_bit 45 c = c"
    by (simp add: word_cong_unat unsigned_take_bit_eq take_bit_nat_eq_self)
  then have hi: "bit c n \<Longrightarrow> n < 45" by (metis bit_take_bit_iff)
  have lo: "n < 12 \<Longrightarrow> \<not> bit c n"
    using low by (metis bit_take_bit_iff bit_0_eq bot_apply bot_bool_def)
  show "bit (push_bit 12 (take_bit 40 (drop_bit 12 c))) n = bit c n"
  proof (cases "n < 12")
    case False
    then have "12 + (n - 12) = n" by simp
    with False show ?thesis using n hi by (auto simp: bit_simps)
  qed (use lo in \<open>auto simp: bit_simps\<close>)
qed

section \<open>One level of map\<close>

text \<open>The tables form a tree, the allocator is sound, and no table lies in a free page.\<close>

definition pt_inv :: "('p \<Rightarrow> bool) \<Rightarrow> ('p \<Rightarrow> u64 set) \<Rightarrow> (u64 \<Rightarrow> nat) \<Rightarrow> 'p pt_state \<Rightarrow> bool" where
  "pt_inv ok free lv s \<longleftrightarrow> ok (pal s) \<and> tables_ok lv s \<and> (\<forall>b. lv b \<noteq> 0 \<longrightarrow> b \<notin> free (pal s))"

text \<open>What a step of \<open>map\<close> at word \<open>i\<close> of table \<open>b\<close> does to the tree: tables stay, at most one is
  added, and all entries but that one mean what they meant.\<close>

definition grows :: "(u64 \<Rightarrow> nat) \<Rightarrow> 'p pt_state \<Rightarrow> (u64 \<Rightarrow> nat) \<Rightarrow> 'p pt_state \<Rightarrow> bool" where
  "grows lv s lv' s' \<longleftrightarrow> cr3 s' = cr3 s \<and> (\<forall>d. lv d \<noteq> 0 \<longrightarrow> lv' d = lv d) \<and>
     (\<forall>d j. 2 \<le> lv d \<longrightarrow> j < 512 \<longrightarrow> same_entry (tw s d j) (tw s' d j) \<or> present (tw s d j) = 0 \<and> \<not> huge (lv d) (tw s d j)) \<and>
     (\<forall>d j. lv d = 1 \<longrightarrow> j < 512 \<longrightarrow> tw s' d j = tw s d j)"

lemma grows_refl: "grows lv s lv s"
  by (simp add: grows_def)

lemma grows_trans:
  assumes "grows lv s lv1 s1" "grows lv1 s1 lv2 s2"
  shows "grows lv s lv2 s2"
proof -
  have "same_entry (tw s d j) (tw s2 d j) \<or> present (tw s d j) = 0 \<and> \<not> huge (lv d) (tw s d j)"
    if "2 \<le> lv d" "j < 512" for d j
  proof -
    have l: "lv1 d = lv d" using assms(1) that by (simp add: grows_def)
    have a: "same_entry (tw s d j) (tw s1 d j) \<or> present (tw s d j) = 0 \<and> \<not> huge (lv d) (tw s d j)"
      using assms(1) that unfolding grows_def by blast
    have b: "same_entry (tw s1 d j) (tw s2 d j) \<or> present (tw s1 d j) = 0 \<and> \<not> huge (lv d) (tw s1 d j)"
      using assms(2) that l unfolding grows_def by metis
    show ?thesis using a b same_entry_link[of "tw s d j" "tw s1 d j" "lv d"]
      by (auto simp: same_entry_def)
  qed
  with assms show ?thesis unfolding grows_def by (simp add: le_Suc_eq)
qed

lemma wk_grows:
  assumes ok: "tables_ok lv s" and g: "grows lv s lv' s'"
  shows "wk s m d v = Some q \<Longrightarrow> lv d = m \<Longrightarrow> wk s' m d v = Some q"
proof (induction m arbitrary: d)
  case (Suc m)
  show ?case
  proof (cases m)
    case 0
    with Suc.prems g show ?thesis by (simp add: grows_def)
  next
    case (Suc k)
    let ?i = "ix (Suc m) v"
    have w: "huge (Suc m) (tw s d ?i) \<and> q = entry_address (tw s d ?i) + low_part (Suc m) v \<or>
        \<not> huge (Suc m) (tw s d ?i) \<and> present (tw s d ?i) \<noteq> 0 \<and> wk s m (entry_address (tw s d ?i)) v = Some q"
      using Suc.prems(1) Suc by (auto simp: Let_def split: if_splits)
    then have "\<not> (present (tw s d ?i) = 0 \<and> \<not> huge (Suc m) (tw s d ?i))" by blast
    then have se: "same_entry (tw s d ?i) (tw s' d ?i)"
      using g Suc.prems(2) Suc unfolding grows_def by (metis Suc_le_mono ix_less le0 numeral_2_eq_2)
    have l: "link (Suc m) (tw s d ?i) \<Longrightarrow> lv (entry_address (tw s d ?i)) = m"
      using tables_okD(4)[OF ok, of d ?i] Suc.prems(2) Suc by simp
    show ?thesis
      using w se same_entry_link[OF se, of "Suc m"] Suc.IH[OF _ l] Suc
      by (auto simp: Let_def same_entry_def link_def split: if_splits)
  qed
qed simp


lemma zero_entry: "\<not> link k 0" "\<not> huge k 0"
  by (simp_all add: link_def huge_def present_def pageSize_def)

lemma tables_ok_add:
  assumes ok: "tables_ok lv s" and b: "lv b = Suc k" "1 \<le> k" "i < 512" "\<not> link (Suc k) (tw s b i)"
    and c: "lv c = 0" "frame_ok c" and cr: "cr3 s' = cr3 s"
    and e: "link (Suc k) (tw s' b i)" "entry_address (tw s' b i) = c"
    and z: "\<And>j. j < 512 \<Longrightarrow> tw s' c j = 0"
    and f: "\<And>d j. lv d \<noteq> 0 \<Longrightarrow> j < 512 \<Longrightarrow> (d, j) \<noteq> (b, i) \<Longrightarrow> tw s' d j = tw s d j"
  shows "tables_ok (lv(c := k)) s'"
proof -
  let ?lv = "lv(c := k)"
  have k: "Suc k \<le> 4" using tables_okD(3)[OF ok, of b] b by simp
  have lnk: "link (?lv d) (tw s' d j) \<longleftrightarrow> (d, j) = (b, i) \<or> d \<noteq> c \<and> link (lv d) (tw s d j)"
    and adr: "link (?lv d) (tw s' d j) \<Longrightarrow>
       entry_address (tw s' d j) = (if (d, j) = (b, i) then c else entry_address (tw s d j))"
    and hug: "huge (?lv d) (tw s' d j) \<Longrightarrow> d \<noteq> c \<and> (d, j) \<noteq> (b, i) \<and> huge (lv d) (tw s d j) \<and> tw s' d j = tw s d j"
    if "2 \<le> ?lv d" "j < 512" for d j
  proof -
    have bc: "b \<noteq> c" using b c by auto
    have d: "d \<noteq> c \<Longrightarrow> lv d \<noteq> 0" using that by auto
    show "link (?lv d) (tw s' d j) \<longleftrightarrow> (d, j) = (b, i) \<or> d \<noteq> c \<and> link (lv d) (tw s d j)"
      using z[OF that(2)] f[OF d that(2)] e(1) b bc zero_entry(1)[of k] by (cases "d = c"; cases "(d, j) = (b, i)") auto
    show "link (?lv d) (tw s' d j) \<Longrightarrow>
       entry_address (tw s' d j) = (if (d, j) = (b, i) then c else entry_address (tw s d j))"
      using z[OF that(2)] f[OF d that(2)] e(2) zero_entry(1)[of k] by (cases "d = c"; cases "(d, j) = (b, i)") auto
    show "huge (?lv d) (tw s' d j) \<Longrightarrow> d \<noteq> c \<and> (d, j) \<noteq> (b, i) \<and> huge (lv d) (tw s d j) \<and> tw s' d j = tw s d j"
      using z[OF that(2)] f[OF d that(2)] e(1) b bc zero_entry(2)[of k]
      by (cases "d = c"; cases "(d, j) = (b, i)") (auto simp: link_def)
  qed
  have old: "lv (entry_address (tw s d j)) = lv d - 1 \<and> entry_address (tw s d j) \<noteq> c"
    if "2 \<le> lv d" "j < 512" "link (lv d) (tw s d j)" for d j
    using tables_okD(4)[OF ok that] c(1) that(1) by auto
  show ?thesis
    unfolding tables_ok_def
  proof (intro conjI allI impI)
    show "?lv (cr3 s') = 4" using tables_okD(1)[OF ok] cr c by auto
  next
    fix d assume "?lv d \<noteq> 0"
    then show "frame_ok d" "?lv d \<le> 4" using tables_okD(2,3)[OF ok, of d] c k by (auto split: if_splits)
  next
    fix d j assume d: "2 \<le> ?lv d" "j < 512" and l: "link (?lv d) (tw s' d j)"
    then show "?lv (entry_address (tw s' d j)) = ?lv d - 1"
      using lnk[OF d] adr[OF d l] b c old[of d j] by (auto split: if_splits)
  next
    fix d j d' j'
    assume d: "2 \<le> ?lv d" "j < 512" and l: "link (?lv d) (tw s' d j)"
      and d': "2 \<le> ?lv d'" "j' < 512" and l': "link (?lv d') (tw s' d' j')"
      and eq: "entry_address (tw s' d j) = entry_address (tw s' d' j')"
    have "d = d' \<and> j = j'"
    proof (cases "(d, j) = (b, i) \<or> (d', j') = (b, i)")
      case True
      then show ?thesis
        using eq adr[OF d l] adr[OF d' l'] lnk[OF d] lnk[OF d'] l l' d d' old[of d j] old[of d' j']
        by (auto split: if_splits)
    next
      case False
      then have o: "d \<noteq> c" "link (lv d) (tw s d j)" "d' \<noteq> c" "link (lv d') (tw s d' j')"
        using lnk[OF d] lnk[OF d'] l l' by auto
      have "entry_address (tw s' d j) = entry_address (tw s d j)"
        using adr[OF d l] False by auto
      moreover have "entry_address (tw s' d' j') = entry_address (tw s d' j')"
        using adr[OF d' l'] False by auto
      ultimately have "entry_address (tw s d j) = entry_address (tw s d' j')" using eq by simp
      with o d d' show ?thesis using tables_okD(5)[OF ok, of d j d' j'] by simp
    qed
    then show "d = d'" "j = j'" by simp_all
  next
    fix d j assume d: "2 \<le> ?lv d" "j < 512" and h: "huge (?lv d) (tw s' d j)"
    show "present (tw s' d j) \<noteq> 0"
      using hug[OF d h] d tables_okD(6)[OF ok, of d j] by auto
  qed
qed


lemma pt_get_tmp: "frame_ok c \<Longrightarrow> pt_get s (map_tmp c) = Some c"
proof -
  assume c: "frame_ok c"
  then have "unat c < 2 ^ 45" by (simp add: frame_ok_def unat_less_iff Ti_values)
  then have "unat (c + Ti 64) = unat c + 2 ^ 46" by (subst unat_add_u64) (simp_all add: Ti_values)
  with \<open>unat c < 2 ^ 45\<close> show ?thesis
    by (simp add: pt_get_def map_tmp_def unat_le_iff unat_less_iff Ti_values)
qed

text \<open>The two cases of one round.\<close>

lemma map_level_present:
  assumes P: "points P b" and i: "i < 512" and fr: "frame_ok b" and pr: "present (tw s b i) \<noteq> 0"
  shows "\<exists>s'. map_level alloc f (P + 8 * i) s = Some (Ret (map_tmp (entry_address (tw s b i)), s')) \<and>
    cr3 s' = cr3 s \<and> pal s' = pal s \<and> same_entry (tw s b i) (tw s' b i) \<and>
    (\<forall>d j. frame_ok d \<longrightarrow> j < 512 \<longrightarrow> (d, j) \<noteq> (b, i) \<longrightarrow> tw s' d j = tw s d j)"
proof -
  let ?s' = "write_word (P + 8 * i) (or_flags f (set_present 1 (tw s b i))) s"
  have "map_level alloc f (P + 8 * i) s = Some (Ret (map_tmp (entry_address (tw s b i)), ?s'))"
    using pr by (simp add: map_level_def get_page_points[OF P i] read_points[OF P i])
  moreover have "same_entry (tw s b i) (tw ?s' b i)"
    using pr by (simp add: write_points[OF P i fr fr i] same_entry_def field_simp)
  moreover have "tw ?s' d j = tw s d j" if "frame_ok d" "j < 512" "(d, j) \<noteq> (b, i)" for d j
    using that(3) by (auto simp: write_points[OF P i fr that(1,2)])
  ultimately show ?thesis
    by (intro exI[of _ ?s']) simp
qed

lemma map_level_absent:
  assumes P: "points P b" and i: "i < 512" and fr: "frame_ok b" and pr: "present (tw s b i) = 0"
    and al: "alloc (pal s) = Some (Ret (Some c, a'))" and c: "frame_ok c" "c \<noteq> b"
  shows "\<exists>s'. map_level alloc f (P + 8 * i) s = Some (Ret (map_tmp c, s')) \<and>
    cr3 s' = cr3 s \<and> pal s' = a' \<and> present (tw s' b i) \<noteq> 0 \<and>
    pageSize (tw s' b i) = pageSize (tw s b i) \<and> entry_address (tw s' b i) = c \<and>
    (\<forall>j < 512. tw s' c j = 0) \<and>
    (\<forall>d j. frame_ok d \<longrightarrow> d \<noteq> c \<longrightarrow> j < 512 \<longrightarrow> (d, j) \<noteq> (b, i) \<longrightarrow> tw s' d j = tw s d j)"
proof -
  have Pc: "points (map_tmp c) c" by (rule points_tmp[OF c(1)])
  let ?s1 = "zero_page (map_tmp c) (s\<lparr>pal := a'\<rparr>)"
  let ?s2 = "write_word (P + 8 * i) (set_address (drop_bit 12 c) (tw ?s1 b i)) ?s1"
  let ?s' = "write_word (P + 8 * i) (or_flags f (set_present 1 (tw ?s2 b i))) ?s2"
  have e1: "tw ?s1 b i = tw s b i"
    using c(2) by (simp add: zero_page_tw[OF Pc c(1) fr i])
  have e2: "tw ?s2 b i = set_address (drop_bit 12 c) (tw s b i)"
    by (simp add: write_points[OF P i fr fr i] e1)
  have "map_level alloc f (P + 8 * i) s = Some (Ret (map_tmp c, ?s'))"
    using pr by (simp add: map_level_def get_page_points[OF P i] read_points[OF P i] allocate_page_def al
        Let_def e1 pt_get_tmp[OF c(1)])
  moreover have "tw ?s' b i = or_flags f (set_present 1 (set_address (drop_bit 12 c) (tw s b i)))"
    using c(2) by (simp add: write_points[OF P i fr fr i] zero_page_tw[OF Pc c(1) fr i])
  then have "present (tw ?s' b i) \<noteq> 0" "pageSize (tw ?s' b i) = pageSize (tw s b i)" "entry_address (tw ?s' b i) = c"
    by (simp_all add: field_simp frame_shift[OF c(1)])
  moreover have "tw ?s' c j = 0" if "j < 512" for j
    using c(2) by (simp add: write_points[OF P i fr c(1) that] zero_page_tw[OF Pc c(1) c(1) that])
  moreover have "tw ?s' d j = tw s d j" if "frame_ok d" "d \<noteq> c" "j < 512" "(d, j) \<noteq> (b, i)" for d j
    using that by (auto simp: write_points[OF P i fr that(1,3)] zero_page_tw[OF Pc c(1) that(1,3)])
  ultimately show ?thesis
    by (intro exI[of _ ?s']) simp
qed

section \<open>Walks after a change\<close>

lemma no_huge_cong:
  assumes ok: "tables_ok lv s"
  shows "lv d = m \<Longrightarrow> (\<And>c j. lv c \<noteq> 0 \<Longrightarrow> lv c \<le> m \<Longrightarrow> j < 512 \<Longrightarrow> tw s' c j = tw s c j) \<Longrightarrow>
    no_huge s m d v \<Longrightarrow> no_huge s' m d v"
proof (induction m arbitrary: d)
  case (Suc m)
  show ?case
  proof (cases m)
    case (Suc k)
    let ?e = "tw s d (ix (Suc m) v)"
    have e: "tw s' d (ix (Suc m) v) = ?e" using Suc.prems(1,2) by simp
    have h: "\<not> huge (Suc m) ?e" "present ?e \<noteq> 0 \<Longrightarrow> no_huge s m (entry_address ?e) v"
      using Suc.prems(3) Suc by (auto simp: Let_def)
    have "no_huge s' m (entry_address ?e) v" if "present ?e \<noteq> 0"
    proof (rule Suc.IH)
      show "lv (entry_address ?e) = m"
        using tables_okD(4)[OF ok, of d "ix (Suc m) v"] that h(1) Suc.prems(1) Suc by (simp add: link_def)
      show "no_huge s m (entry_address ?e) v" by (rule h(2)[OF that])
    qed (use Suc.prems(2) in auto)
    then show ?thesis using h(1) e Suc by (simp add: Let_def)
  qed simp
qed simp

lemma present_bit: "present e = 0 \<longleftrightarrow> \<not> bit e 0"
  by (simp add: present_def fld_def bit_0 even_iff_mod_2_eq_zero take_bit_eq_mod)

lemma pageSize_bit: "pageSize e = 1 \<longleftrightarrow> bit e 7"
  by (simp add: pageSize_def fld_def bit_iff_odd_drop_bit odd_iff_mod_2_eq_one)

lemma frame_of_0: "frame_of 0 e = entry_address e"
  by (simp add: frame_of_def entry_address_def)

lemma frame_of_address: "k < 4 \<Longrightarrow> entry_address e = entry_address e' \<Longrightarrow> frame_of k e = frame_of k e'"
proof (rule bit_eqI)
  fix n assume k: "k < 4" and "entry_address e = entry_address e'"
  then have "bit (entry_address e) n = bit (entry_address e') n" by simp
  then show "bit (frame_of k e) n = bit (frame_of k e') n"
    using k by (auto simp: frame_of_def entry_address_def fld_def bit_simps)
qed

lemma mmu_step:
  assumes "tw s d (ix (Suc m) v) = e" "bit e 0" "m \<noteq> 0" "\<not> (m < 3 \<and> bit e 7)"
  shows "mmu s (Suc m) d v = mmu s m (entry_address e) v"
  using assms by (auto simp: Let_def frame_of_0)

lemma mmu_stop:
  assumes "tw s d (ix (Suc m) v) = e" "bit e 0" "m = 0 \<or> m < 3 \<and> bit e 7"
  shows "mmu s (Suc m) d v = Some (frame_of m e + fld 0 (12 + 9 * m) v, e)"
  using assms by (auto simp: Let_def)

lemma mmu_absent:
  assumes "\<not> bit (tw s d (ix (Suc m) v)) 0"
  shows "mmu s (Suc m) d v = None"
  using assms by (simp add: Let_def)

text \<open>The processor's translation through a last-level table, and the large page entries it has in common with \<open>get\<close>.\<close>

lemma mmu_reach:
  "reach s m d v = Some t \<Longrightarrow> m \<le> 4 \<Longrightarrow>
   mmu s m d v = (let e = tw s t (ix 1 v) in if bit e 0 then Some (entry_address e + va_offset v, e) else None)"
proof (induction m arbitrary: d)
  case (Suc m)
  show ?case
  proof (cases m)
    case 0
    then show ?thesis using Suc.prems by (simp add: Let_def frame_of_0 va_offset_def)
  next
    case (Suc k)
    let ?e = "tw s d (ix (Suc m) v)"
    have r: "link (Suc m) ?e" "reach s m (entry_address ?e) v = Some t"
      using Suc.prems(1) Suc by (auto simp: Let_def split: if_splits)
    then have "bit ?e 0" "\<not> (m = 0 \<or> m < 3 \<and> bit ?e 7)" using Suc by (auto simp: link_def huge_def present_bit pageSize_bit)
    then have "mmu s (Suc m) d v = mmu s m (entry_address ?e) v" by (auto simp: Let_def frame_of_0)
    then show ?thesis using Suc.IH[OF r(2)] Suc.prems(2) by simp
  qed
qed simp

lemma wk_reach: "reach s m d v = Some t \<Longrightarrow> wk s m d v = Some (entry_address (tw s t (ix 1 v)) + va_offset v)"
  by (induction s m d v rule: reach.induct) (auto simp: Let_def link_def split: if_splits)

text \<open>Writing a word of a last-level table.\<close>

lemma leaf_write:
  assumes ok: "tables_ok lv s" and t: "lv t = 1"
    and w: "\<And>d j. lv d \<noteq> 0 \<Longrightarrow> j < 512 \<Longrightarrow> (d, j) \<noteq> (t, i) \<Longrightarrow> tw s' d j = tw s d j"
  shows "lv d = m \<Longrightarrow> reach s' m d v = reach s m d v"
    and "lv d = m \<Longrightarrow> reach s m d v \<noteq> Some t \<or> ix 1 v \<noteq> i \<Longrightarrow> wk s' m d v = wk s m d v"
proof -
  have "lv d = m \<Longrightarrow> reach s' m d v = reach s m d v \<and>
      (reach s m d v \<noteq> Some t \<or> ix 1 v \<noteq> i \<longrightarrow> wk s' m d v = wk s m d v)"
  proof (induction m arbitrary: d)
    case (Suc m)
    show ?case
    proof (cases m)
      case 0
      have "d \<noteq> t \<or> ix 1 v \<noteq> i \<Longrightarrow> tw s' d (ix 1 v) = tw s d (ix 1 v)"
        using w[of d "ix 1 v"] Suc.prems by auto
      then show ?thesis using 0 by simp
    next
      case (Suc k)
      let ?e = "tw s d (ix (Suc m) v)"
      have "d \<noteq> t" using Suc.prems Suc t by auto
      then have e: "tw s' d (ix (Suc m) v) = ?e" using w[of d "ix (Suc m) v"] Suc.prems by simp
      have "link (Suc m) ?e \<Longrightarrow> lv (entry_address ?e) = m"
        using tables_okD(4)[OF ok, of d "ix (Suc m) v"] Suc.prems Suc by simp
      with Suc.IH[of "entry_address ?e"] e Suc show ?thesis
        by (auto simp: Let_def link_def)
    qed
  qed simp
  then show "lv d = m \<Longrightarrow> reach s' m d v = reach s m d v"
    and "lv d = m \<Longrightarrow> reach s m d v \<noteq> Some t \<or> ix 1 v \<noteq> i \<Longrightarrow> wk s' m d v = wk s m d v" by blast+
qed

text \<open>The permissions of the entry that maps a page.\<close>

definition permits :: "Flags \<Rightarrow> u64 \<Rightarrow> bool" where
  "permits f e \<longleftrightarrow> bit e 1 = writeable f \<and> bit e 2 = user f \<and> bit e 3 = writeThrough f \<and> bit e 4 = cacheDisabled f"

lemma bit_field: "bit e n \<longleftrightarrow> fld n 1 e = 1"
  by (simp add: fld_def bit_iff_odd_drop_bit odd_iff_mod_2_eq_one)

lemma permits_set_flags: "permits f (set_flags f e)"
  by (simp add: permits_def bit_field set_flags_def fld_set_fld_other fld_set_fld_same)

lemma present_set_flags: "bit (set_flags f (set_present 1 e)) 0"
  by (simp add: bit_field set_flags_def set_present_def fld_set_fld_other fld_set_fld_same)

lemma mmu_leaf_write:
  assumes ok: "tables_ok lv s" and t: "lv t = 1"
    and w: "\<And>d j. lv d \<noteq> 0 \<Longrightarrow> j < 512 \<Longrightarrow> (d, j) \<noteq> (t, i) \<Longrightarrow> tw s' d j = tw s d j"
  shows "lv d = m \<Longrightarrow> reach s m d v \<noteq> Some t \<or> ix 1 v \<noteq> i \<Longrightarrow> mmu s' m d v = mmu s m d v"
proof (induction m arbitrary: d)
  case (Suc m)
  show ?case
  proof (cases m)
    case 0
    have "tw s' d (ix 1 v) = tw s d (ix 1 v)" using w[of d "ix 1 v"] Suc.prems 0 by auto
    then show ?thesis using 0 by (auto simp: Let_def)
  next
    case (Suc k)
    let ?e = "tw s d (ix (Suc m) v)"
    have "d \<noteq> t" using Suc.prems Suc t by auto
    then have e: "tw s' d (ix (Suc m) v) = ?e" using w[of d "ix (Suc m) v"] Suc.prems by simp
    have m4: "m < 4" using tables_okD(3)[OF ok, of d] Suc.prems by simp
    show ?thesis
    proof (cases "link (Suc m) ?e")
      case True
      then have l: "lv (entry_address ?e) = m" using tables_okD(4)[OF ok, of d "ix (Suc m) v"] Suc.prems Suc by simp
      have "reach s m (entry_address ?e) v \<noteq> Some t \<or> ix 1 v \<noteq> i" using Suc.prems(2) True Suc by (auto simp: Let_def)
      from Suc.IH[OF l this] show ?thesis by (simp add: Let_def e frame_of_0)
    next
      case False
      then have "\<not> bit ?e 0 \<or> m < 3 \<and> bit ?e 7" by (auto simp: link_def huge_def present_bit pageSize_bit)
      then show ?thesis by (auto simp: Let_def e)
    qed
  qed
qed simp

lemma mmu_grows:
  assumes ok: "tables_ok lv s" and g: "grows lv s lv' s'"
  shows "map_option fst (mmu s m d v) = Some q \<Longrightarrow> lv d = m \<Longrightarrow> map_option fst (mmu s' m d v) = Some q"
proof (induction m arbitrary: d)
  case (Suc m)
  let ?e = "tw s d (ix (Suc m) v)" and ?e' = "tw s' d (ix (Suc m) v)"
  have p: "bit ?e 0" using Suc.prems(1) by (auto simp: Let_def split: if_splits)
  show ?case
  proof (cases m)
    case 0
    have "tw s' d (ix 1 v) = tw s d (ix 1 v)" using Suc.prems(2) g 0 by (simp add: grows_def)
    then show ?thesis using Suc.prems(1) 0 by (auto simp: Let_def split: if_splits)
  next
    case (Suc k)
    have se: "same_entry ?e ?e'"
      using g Suc.prems(2) Suc p unfolding grows_def by (metis Suc_le_mono ix_less le0 numeral_2_eq_2 present_bit)
    then have b: "bit ?e' 0" "bit ?e' 7 = bit ?e 7" "entry_address ?e' = entry_address ?e"
      using p by (auto simp: same_entry_def present_bit pageSize_bit simp flip: pageSize_bit)
    have f: "m < 4 \<Longrightarrow> frame_of m ?e' = frame_of m ?e" by (rule frame_of_address[OF _ b(3)])
    show ?thesis
    proof (cases "m < 3 \<and> bit ?e 7")
      case True
      then show ?thesis using Suc.prems(1) mmu_stop[OF refl p] mmu_stop[OF refl b(1)] b(2) f by simp
    next
      case False
      have "\<not> huge (Suc m) ?e" using False by (auto simp: huge_def pageSize_bit)
      then have "link (Suc m) ?e" using p by (simp add: link_def present_bit)
      then have l: "lv (entry_address ?e) = m" using tables_okD(4)[OF ok, of d "ix (Suc m) v"] Suc.prems(2) Suc by simp
      have e: "mmu s (Suc m) d v = mmu s m (entry_address ?e) v" by (rule mmu_step[OF refl p]) (use Suc False in auto)
      have e': "mmu s' (Suc m) d v = mmu s' m (entry_address ?e) v" using mmu_step[OF refl b(1)] Suc False b by simp
      show ?thesis using Suc.IH[OF _ l] Suc.prems(1) unfolding e e' by blast
    qed
  qed
qed simp

definition same_page :: "u64 \<Rightarrow> u64 \<Rightarrow> bool" where
  "same_page v v' \<longleftrightarrow> l1_offset v' = l1_offset v \<and> l2_offset v' = l2_offset v \<and> l3_offset v' = l3_offset v \<and> l4_offset v' = l4_offset v"

lemma same_page_ix: "same_page v v' \<longleftrightarrow> (\<forall>k. 1 \<le> k \<and> k \<le> 4 \<longrightarrow> ix k v = ix k v')"
proof
  show "same_page v v' \<Longrightarrow> \<forall>k. 1 \<le> k \<and> k \<le> 4 \<longrightarrow> ix k v = ix k v'" by (simp add: same_page_def ix.simps)
next
  assume a: "\<forall>k. 1 \<le> k \<and> k \<le> 4 \<longrightarrow> ix k v = ix k v'"
  from a[rule_format, of 1] a[rule_format, of 2] a[rule_format, of 3] a[rule_format, of 4]
  show "same_page v v'" by (simp add: same_page_def ix.simps)
qed

lemma get_offset_ix: "1 \<le> k \<Longrightarrow> k \<le> 4 \<Longrightarrow> get_offset v (of_nat k) = Some (ix k v)"
proof -
  assume "1 \<le> k" "k \<le> 4"
  then have "k = 1 \<or> k = 2 \<or> k = 3 \<or> k = 4" by linarith
  then show ?thesis by (auto simp: get_offset_def ix.simps)
qed

lemma reach_same: "(\<forall>k. 1 \<le> k \<and> k \<le> m \<longrightarrow> ix k v = ix k v') \<Longrightarrow> reach s m d v = reach s m d v'"
  by (induction s m d v rule: reach.induct) (simp_all add: Let_def)

context page_source
begin

abbreviation inv :: "(u64 \<Rightarrow> nat) \<Rightarrow> 'p pt_state \<Rightarrow> bool" where
  "inv \<equiv> pt_inv ok free"

text \<open>One round from a table of level \<open>k + 1\<close> whose entry is no large page: it runs out of memory, or
  ends in the linked table of level \<open>k\<close>.\<close>

lemma map_level_spec:
  assumes I: "inv lv s" and b: "lv b = Suc k" "1 \<le> k" and i: "i < 512" and P: "points P b"
    and nh: "\<not> huge (Suc k) (tw s b i)"
  shows "map_level alloc f (P + 8 * i) s = Some (Stop (Panic ''Could not allocate page for pagetable'')) \<or>
    (\<exists>c s' lv'. map_level alloc f (P + 8 * i) s = Some (Ret (map_tmp c, s')) \<and> inv lv' s' \<and> grows lv s lv' s' \<and>
       lv' c = k \<and> link (Suc k) (tw s' b i) \<and> entry_address (tw s' b i) = c \<and>
       (present (tw s b i) \<noteq> 0 \<and> entry_address (tw s b i) = c \<or> (\<forall>j < 512. tw s' c j = 0)) \<and>
       (\<forall>d j. lv d \<noteq> 0 \<longrightarrow> j < 512 \<longrightarrow> (d, j) \<noteq> (b, i) \<longrightarrow> tw s' d j = tw s d j))"
proof -
  have ok: "ok (pal s)" "tables_ok lv s" "\<And>b. lv b \<noteq> 0 \<Longrightarrow> b \<notin> free (pal s)" using I by (simp_all add: pt_inv_def)
  have fr: "frame_ok b" using tables_okD(2)[OF ok(2), of b] b by simp
  have fr': "lv d \<noteq> 0 \<Longrightarrow> frame_ok d" for d using tables_okD(2)[OF ok(2)] by blast
  show ?thesis
  proof (cases "present (tw s b i) = 0")
    case False
    let ?c = "entry_address (tw s b i)"
    obtain s' where s': "map_level alloc f (P + 8 * i) s = Some (Ret (map_tmp ?c, s'))" "cr3 s' = cr3 s" "pal s' = pal s"
      "same_entry (tw s b i) (tw s' b i)"
      "\<And>d j. frame_ok d \<Longrightarrow> j < 512 \<Longrightarrow> (d, j) \<noteq> (b, i) \<Longrightarrow> tw s' d j = tw s d j"
      using map_level_present[OF P i fr False] by blast
    have lk: "link (Suc k) (tw s b i)" using False nh by (simp add: link_def)
    have se: "same_entry (tw s d j) (tw s' d j)" if "lv d \<noteq> 0" "j < 512" for d j
      using s'(4) s'(5)[OF fr'[OF that(1)] that(2)] by (cases "(d, j) = (b, i)") auto
    have "tables_ok lv s'" by (rule tables_ok_cong[OF ok(2) s'(2)]) (use se in auto)
    then have "inv lv s'" using ok s'(3) by (simp add: pt_inv_def)
    moreover have "tw s' d j = tw s d j" if "lv d = 1" "j < 512" for d j
    proof -
      have "d \<noteq> b" using that(1) b by auto
      then show ?thesis using s'(5)[OF fr' that(2), of d] that(1) by simp
    qed
    then have "grows lv s lv s'"
      unfolding grows_def using s'(2) se by auto
    moreover have "lv ?c = k" using tables_okD(4)[OF ok(2), of b i] b i lk by simp
    moreover have "link (Suc k) (tw s' b i)" "entry_address (tw s' b i) = ?c"
      using same_entry_link[OF s'(4), of "Suc k"] lk s'(4) by (simp_all add: same_entry_def)
    ultimately show ?thesis
      using s'(1,5) fr' False by (intro disjI2 exI[of _ ?c] exI[of _ s'] exI[of _ lv]) auto
  next
    case True
    show ?thesis
    proof (rule alloc_cases[OF ok(1)])
      fix a' assume "alloc (pal s) = Some (Ret (None, a'))"
      then have "map_level alloc f (P + 8 * i) s = Some (Stop (Panic ''Could not allocate page for pagetable''))"
        using True by (simp add: map_level_def get_page_points[OF P i] allocate_page_def)
      then show ?thesis by blast
    next
      fix c a' assume al: "alloc (pal s) = Some (Ret (Some c, a'))" "ok a'" "frame_ok c" "c \<in> free (pal s)" "free a' = free (pal s) - {c}"
      have lc: "lv c = 0" using ok(3)[of c] al(4) by blast
      then have cb: "c \<noteq> b" using b by auto
      obtain s' where s': "map_level alloc f (P + 8 * i) s = Some (Ret (map_tmp c, s'))" "cr3 s' = cr3 s" "pal s' = a'"
        "present (tw s' b i) \<noteq> 0" "pageSize (tw s' b i) = pageSize (tw s b i)" "entry_address (tw s' b i) = c"
        "\<forall>j < 512. tw s' c j = 0"
        "\<And>d j. frame_ok d \<Longrightarrow> d \<noteq> c \<Longrightarrow> j < 512 \<Longrightarrow> (d, j) \<noteq> (b, i) \<Longrightarrow> tw s' d j = tw s d j"
        using map_level_absent[where alloc = alloc, OF P i fr True al(1,3) cb] by blast
      have lk: "link (Suc k) (tw s' b i)" using s'(4,5) nh by (simp add: link_def huge_def)
      have nl: "\<not> link (Suc k) (tw s b i)" using True by (simp add: link_def)
      have w: "tw s' d j = tw s d j" if "lv d \<noteq> 0" "j < 512" "(d, j) \<noteq> (b, i)" for d j
      proof -
        have "d \<noteq> c" using that(1) lc by auto
        then show ?thesis using s'(8)[OF fr'[OF that(1)] _ that(2,3)] by simp
      qed
      have "tables_ok (lv(c := k)) s'"
        by (rule tables_ok_add[OF ok(2) b i nl lc al(3) s'(2) lk s'(6)]) (use s'(7) w in auto)
      then have "inv (lv(c := k)) s'"
        using ok al(2,4,5) s'(3) by (auto simp: pt_inv_def)
      moreover have "same_entry (tw s d j) (tw s' d j) \<or> present (tw s d j) = 0 \<and> \<not> huge (lv d) (tw s d j)"
        if "2 \<le> lv d" "j < 512" for d j
        using w[of d j] that True nh b by (cases "(d, j) = (b, i)") auto
      then have "grows lv s (lv(c := k)) s'"
        unfolding grows_def
      proof (intro conjI allI impI)
        show "cr3 s' = cr3 s" by (rule s'(2))
      next
        fix d assume "lv d \<noteq> 0" then show "(lv(c := k)) d = lv d" using lc by auto
      next
        fix d j assume d: "lv d = 1" "j < (512 :: u64)"
        moreover from d(1) have "d \<noteq> b" using b by auto
        ultimately show "tw s' d j = tw s d j" using w[of d j] by simp
      qed blast
      ultimately show ?thesis
        using s'(1,6,7) lk w by (intro disjI2 exI[of _ c] exI[of _ s'] exI[of _ "lv(c := k)"]) auto
    qed
  qed
qed


lemma map_levels_spec:
  assumes "inv lv s" "lv b = Suc k" "points P b" "no_huge s (Suc k) b v"
  shows "map_levels alloc v f k P s = Some (Stop (Panic ''Could not allocate page for pagetable'')) \<or>
    (\<exists>t P' s' lv'. map_levels alloc v f k P s = Some (Ret (P', s')) \<and> inv lv' s' \<and> grows lv s lv' s' \<and>
       points P' t \<and> lv' t = 1 \<and> reach s' (Suc k) b v = Some t \<and>
       (\<forall>d j. Suc k < lv d \<longrightarrow> j < 512 \<longrightarrow> tw s' d j = tw s d j))"
  using assms
proof (induction k arbitrary: lv s b P)
  case 0
  then show ?case using grows_refl by auto
next
  case (Suc k)
  let ?i = "ix (Suc (Suc k)) v"
  have ok: "tables_ok lv s" using Suc.prems(1) by (simp add: pt_inv_def)
  have k4: "Suc (Suc k) \<le> 4" using tables_okD(3)[OF ok, of b] Suc.prems(2) by simp
  have off: "get_offset v (of_nat (Suc (Suc k))) = Some ?i" by (rule get_offset_ix) (use k4 in simp_all)
  have nh: "\<not> huge (Suc (Suc k)) (tw s b ?i)"
    "present (tw s b ?i) \<noteq> 0 \<Longrightarrow> no_huge s (Suc k) (entry_address (tw s b ?i)) v"
    using Suc.prems(4) by (auto simp: Let_def)
  have step: "map_levels alloc v f (Suc k) P s =
      bindo (map_level alloc f (P + 8 * ?i) s) (\<lambda>(page', s'). map_levels alloc v f k page' s')"
    unfolding map_levels.simps off by simp
  consider "map_level alloc f (P + 8 * ?i) s = Some (Stop (Panic ''Could not allocate page for pagetable''))"
    | c s1 lv1 where "map_level alloc f (P + 8 * ?i) s = Some (Ret (map_tmp c, s1))" "inv lv1 s1" "grows lv s lv1 s1"
      "lv1 c = Suc k" "link (Suc (Suc k)) (tw s1 b ?i)" "entry_address (tw s1 b ?i) = c"
      "present (tw s b ?i) \<noteq> 0 \<and> entry_address (tw s b ?i) = c \<or> (\<forall>j < 512. tw s1 c j = 0)"
      "\<And>d j. lv d \<noteq> 0 \<Longrightarrow> j < 512 \<Longrightarrow> (d, j) \<noteq> (b, ?i) \<Longrightarrow> tw s1 d j = tw s d j"
    using map_level_spec[OF Suc.prems(1,2) _ ix_less Suc.prems(3) nh(1), of f] by auto
  then show ?case
  proof cases
    case 1
    then show ?thesis by (simp only: step bindo_simps) simp
  next
    case 2
    have ok1: "tables_ok lv1 s1" using 2(2) by (simp add: pt_inv_def)
    have Pc: "points (map_tmp c) c" using tables_okD(2)[OF ok1, of c] 2(4) by (intro points_tmp) simp
    have lb: "lv1 b = Suc (Suc k)" using 2(3) Suc.prems(2) by (simp add: grows_def)
    have nc: "no_huge s1 (Suc k) c v"
      using 2(7)
    proof
      assume "\<forall>j < 512. tw s1 c j = 0"
      then show ?thesis by (cases k) (simp_all add: Let_def zero_entry present_def)
    next
      assume a: "present (tw s b ?i) \<noteq> 0 \<and> entry_address (tw s b ?i) = c"
      have lc: "lv c = Suc k"
        using tables_okD(4)[OF ok, of b ?i] a nh(1) Suc.prems(2) by (auto simp: link_def)
      show ?thesis
      proof (rule no_huge_cong[OF ok lc])
        fix d j assume "lv d \<noteq> 0" "lv d \<le> Suc k" "j < (512 :: u64)"
        moreover from this have "d \<noteq> b" using Suc.prems(2) by auto
        ultimately show "tw s1 d j = tw s d j" using 2(8)[of d j] by simp
      qed (use a nh(2) in blast)
    qed
    have rest: "map_levels alloc v f (Suc k) P s = map_levels alloc v f k (map_tmp c) s1"
      unfolding step 2(1) by simp
    from Suc.IH[OF 2(2,4) Pc nc] show ?thesis
    proof
      assume "\<exists>t P' s' lv'. map_levels alloc v f k (map_tmp c) s1 = Some (Ret (P', s')) \<and> inv lv' s' \<and> grows lv1 s1 lv' s' \<and>
         points P' t \<and> lv' t = 1 \<and> reach s' (Suc k) c v = Some t \<and>
         (\<forall>d j. Suc k < lv1 d \<longrightarrow> j < 512 \<longrightarrow> tw s' d j = tw s1 d j)"
      then obtain t P' s' lv' where R: "map_levels alloc v f k (map_tmp c) s1 = Some (Ret (P', s'))" "inv lv' s'"
        "grows lv1 s1 lv' s'" "points P' t" "lv' t = 1" "reach s' (Suc k) c v = Some t"
        "\<And>d j. Suc k < lv1 d \<Longrightarrow> j < 512 \<Longrightarrow> tw s' d j = tw s1 d j" by blast
      have "tw s' b ?i = tw s1 b ?i" using R(7)[of b ?i] lb by simp
      then have "reach s' (Suc (Suc k)) b v = Some t" using 2(5,6) R(6) by simp
      moreover have "tw s' d j = tw s d j" if "Suc (Suc k) < lv d" "j < 512" for d j
      proof -
        have "lv1 d = lv d" using 2(3) that by (simp add: grows_def)
        moreover have "d \<noteq> b" using that(1) Suc.prems(2) by auto
        ultimately show ?thesis using R(7)[of d j] 2(8)[of d j] that by simp
      qed
      ultimately show ?thesis
        unfolding rest using R(1-5) grows_trans[OF 2(3) R(3)] by blast
    qed (unfold rest, blast)
  qed
qed


text \<open>The whole of \<open>map\<close>.\<close>

lemma map_spec:
  assumes I: "inv lv s" and v: "no_huge s 4 (cr3 s) v"
  shows "pt_map alloc p v f s = Some (Stop (Panic ''Could not allocate page for pagetable'')) \<or>
    (\<exists>s' lv'. pt_map alloc p v f s = Some (Ret s') \<and> inv lv' s' \<and>
       wk s' 4 (cr3 s') v = Some (push_bit 12 (take_bit 40 (drop_bit 12 p)) + va_offset v) \<and>
       (\<forall>v'. same_page v v' \<longrightarrow> wk s' 4 (cr3 s') v' = Some (push_bit 12 (take_bit 40 (drop_bit 12 p)) + va_offset v')) \<and>
       (\<forall>v' q. \<not> same_page v v' \<longrightarrow> wk s 4 (cr3 s) v' = Some q \<longrightarrow> wk s' 4 (cr3 s') v' = Some q) \<and>
       (\<forall>v'. same_page v v' \<longrightarrow> (\<exists>e. mmu s' 4 (cr3 s') v' = Some (push_bit 12 (take_bit 40 (drop_bit 12 p)) + va_offset v', e) \<and> permits f e)) \<and>
       (\<forall>v' q. \<not> same_page v v' \<longrightarrow> map_option fst (mmu s 4 (cr3 s) v') = Some q \<longrightarrow> map_option fst (mmu s' 4 (cr3 s') v') = Some q))"
proof -
  have ok: "tables_ok lv s" using I by (simp add: pt_inv_def)
  have l4: "lv (cr3 s) = Suc 3" "frame_ok (cr3 s)"
    using tables_okD(1)[OF ok] tables_okD(2)[OF ok, of "cr3 s"] by simp_all
  have n4: "no_huge s (Suc 3) (cr3 s) v" using v by simp
  consider "map_levels alloc v f 3 (get_l4 s) s = Some (Stop (Panic ''Could not allocate page for pagetable''))"
    | t P s1 lv1 where "map_levels alloc v f 3 (get_l4 s) s = Some (Ret (P, s1))" "inv lv1 s1" "grows lv s lv1 s1"
      "points P t" "lv1 t = 1" "reach s1 4 (cr3 s) v = Some t"
    using map_levels_spec[OF I l4(1) points_l4[OF l4(2)] n4, of f] by auto
  then show ?thesis
  proof cases
    case 1
    then show ?thesis by (simp add: pt_map_def)
  next
    case 2
    have ok1: "tables_ok lv1 s1" using 2(2) by (simp add: pt_inv_def)
    have ft: "frame_ok t" using tables_okD(2)[OF ok1, of t] 2(5) by simp
    have cr: "cr3 s1 = cr3 s" using 2(3) by (simp add: grows_def)
    let ?e = "set_flags f (set_present 1 (set_address (drop_bit 12 p) (tw s1 t (ix 1 v))))"
    let ?s' = "write_word (P + 8 * ix 1 v) ?e s1"
    have m: "pt_map alloc p v f s = Some (Ret ?s')"
      using 2(1) get_offset_ix[of 1 v] by (simp add: pt_map_def read_points[OF 2(4)])
    have w: "tw ?s' d j = tw s1 d j" if "lv1 d \<noteq> 0" "j < 512" "(d, j) \<noteq> (t, ix 1 v)" for d j
    proof -
      have "frame_ok d" using that(1) tables_okD(2)[OF ok1, of d] by blast
      then show ?thesis using that(3) by (auto simp: write_points[OF 2(4) ix_less ft _ that(2)])
    qed
    have et: "tw ?s' t (ix 1 v) = ?e"
      by (simp add: write_points[OF 2(4) ix_less ft ft])
    have "tables_ok lv1 ?s'"
    proof (rule tables_ok_cong[OF ok1])
      fix d j assume "2 \<le> lv1 d" "j < (512 :: u64)"
      moreover from this 2(5) have "d \<noteq> t" by auto
      ultimately show "same_entry (tw s1 d j) (tw ?s' d j)" using w[of d j] by simp
    qed simp
    then have inv': "inv lv1 ?s'" using 2(2) by (simp add: pt_inv_def)
    have lc: "lv1 (cr3 s) = 4" using tables_okD(1)[OF ok1] cr by simp
    have lw1: "reach ?s' 4 (cr3 s) v' = reach s1 4 (cr3 s) v'" for v'
      by (rule leaf_write(1)[OF ok1 2(5) _ lc]) (rule w)
    have lw2: "wk ?s' 4 (cr3 s) v' = wk s1 4 (cr3 s) v'"
      if "reach s1 4 (cr3 s) v' \<noteq> Some t \<or> ix 1 v' \<noteq> ix 1 v" for v'
      by (rule leaf_write(2)[OF ok1 2(5) _ lc that]) (rule w)
    have A: "wk ?s' 4 (cr3 s) v' = Some (push_bit 12 (take_bit 40 (drop_bit 12 p)) + va_offset v')"
      if "same_page v v'" for v'
    proof -
      have i: "\<forall>k. 1 \<le> k \<and> k \<le> 4 \<longrightarrow> ix k v = ix k v'" using that by (simp add: same_page_ix)
      have "reach ?s' 4 (cr3 s) v' = Some t"
        using lw1[of v'] reach_same[OF i, of s1] 2(6) by simp
      from wk_reach[OF this] show ?thesis
        using et i[rule_format, of 1] by (simp add: field_simp)
    qed
    have other_page: "reach s1 4 (cr3 s) v' \<noteq> Some t \<or> ix 1 v' \<noteq> ix 1 v" if ns: "\<not> same_page v v'" for v'
    proof (rule ccontr)
      assume "\<not> ?thesis"
      then have r: "reach s1 4 (cr3 s) v' = Some t" "ix 1 v' = ix 1 v" by auto
      have "\<forall>k. 2 \<le> k \<and> k \<le> 4 \<longrightarrow> ix k v = ix k v'"
        using reach_unique[OF ok1 2(6) r(1) lc lc] by simp
      then have "\<forall>k. 1 \<le> k \<and> k \<le> 4 \<longrightarrow> ix k v = ix k v'"
        using r(2) by (metis Suc_1 Suc_leI le_neq_implies_less)
      with ns show False by (simp add: same_page_ix)
    qed
    have B: "wk ?s' 4 (cr3 s) v' = Some q" if ns: "\<not> same_page v v'" and q: "wk s 4 (cr3 s) v' = Some q" for v' q
    proof -
      have q1: "wk s1 4 (cr3 s) v' = Some q" using wk_grows[OF ok 2(3) q] l4(1) by simp
      from lw2[OF other_page[OF ns]] q1 show ?thesis by simp
    qed
    have C: "mmu ?s' 4 (cr3 s) v' = Some (push_bit 12 (take_bit 40 (drop_bit 12 p)) + va_offset v', ?e)" if "same_page v v'" for v'
    proof -
      have i: "\<forall>k. 1 \<le> k \<and> k \<le> 4 \<longrightarrow> ix k v = ix k v'" using that by (simp add: same_page_ix)
      have "reach ?s' 4 (cr3 s) v' = Some t"
        using lw1[of v'] reach_same[OF i, of s1] 2(6) by simp
      from mmu_reach[OF this] show ?thesis
        using et i[rule_format, of 1] by (simp add: field_simp present_set_flags)
    qed
    have D: "map_option fst (mmu ?s' 4 (cr3 s) v') = Some q"
      if ns: "\<not> same_page v v'" and q: "map_option fst (mmu s 4 (cr3 s) v') = Some q" for v' q
    proof -
      have "map_option fst (mmu s1 4 (cr3 s) v') = Some q" using mmu_grows[OF ok 2(3) q] l4(1) by simp
      moreover have "mmu ?s' 4 (cr3 s) v' = mmu s1 4 (cr3 s) v'"
        by (rule mmu_leaf_write[OF ok1 2(5) _ lc other_page[OF ns]]) (rule w)
      ultimately show ?thesis by simp
    qed
    have "same_page v v" by (simp add: same_page_def)
    then show ?thesis
      using m inv' A B C D cr permits_set_flags by (intro disjI2 exI[of _ ?s'] exI[of _ lv1]) auto
  qed
qed

lemma map_get:
  assumes "inv lv s" "no_huge s 4 (cr3 s) v" "pt_map alloc p v f s = Some (Ret s')"
  shows "(\<forall>v'. same_page v v' \<longrightarrow> \<not> in_window v' \<longrightarrow>
        pt_get s' v' = Some (push_bit 12 (take_bit 40 (drop_bit 12 p)) + va_offset v')) \<and>
    (\<forall>v' q. \<not> same_page v v' \<longrightarrow> pt_get s v' = Some q \<longrightarrow> pt_get s' v' = Some q)"
proof -
  obtain lv' where R: "inv lv' s'"
    "\<forall>v'. same_page v v' \<longrightarrow> wk s' 4 (cr3 s') v' = Some (push_bit 12 (take_bit 40 (drop_bit 12 p)) + va_offset v')"
    "\<forall>v' q. \<not> same_page v v' \<longrightarrow> wk s 4 (cr3 s) v' = Some q \<longrightarrow> wk s' 4 (cr3 s') v' = Some q"
    using map_spec[OF assms(1,2), of p f] assms(3) by fastforce
  have g: "\<not> in_window v' \<Longrightarrow> pt_get s v' = wk s 4 (cr3 s) v'" "\<not> in_window v' \<Longrightarrow> pt_get s' v' = wk s' 4 (cr3 s') v'" for v'
    using assms(1) R(1) pt_get_wk[of lv s v'] pt_get_wk[of lv' s' v'] by (simp_all add: pt_inv_def)
  have win: "in_window v' \<Longrightarrow> pt_get s v' = pt_get s' v'" for v' by (simp add: pt_get_def in_window_def)
  have "pt_get s' v' = Some q" if "\<not> same_page v v'" "pt_get s v' = Some q" for v' q
    using that R(3) g[of v'] win[of v'] by (cases "in_window v'") auto
  then show ?thesis using R(2) g by auto
qed

end

section \<open>unmap\<close>

lemma pt_unmap_reach:
  assumes ok: "tables_ok lv s" and nh: "no_huge s 4 (cr3 s) v"
  shows "pt_unmap v s = (case reach s 4 (cr3 s) v of None \<Rightarrow> s
    | Some t \<Rightarrow> write_word (map_tmp t + 8 * l1_offset v) (set_present 0 (tw s t (l1_offset v))) s)
    \<and> (\<forall>t. reach s 4 (cr3 s) v = Some t \<longrightarrow> lv t = 1)"
proof -
  define e4 where "e4 = tw s (cr3 s) (l4_offset v)"
  define e3 where "e3 = tw s (entry_address e4) (l3_offset v)"
  define e2 where "e2 = tw s (entry_address e3) (l2_offset v)"
  note d = e4_def[symmetric] e3_def[symmetric] e2_def[symmetric]
  have io: "l4_offset v < 512" "l3_offset v < 512" "l2_offset v < 512" "l1_offset v < 512"
    using ix_less[of 4 v] ix_less[of 3 v] ix_less[of 2 v] ix_less[of 1 v] by (simp_all add: ix.simps)
  have huge3: "huge (Suc (Suc (Suc 0))) = huge 3" and huge2: "huge (Suc (Suc 0)) = huge 2"
    by (simp_all add: numeral_eq_Suc)
  have four: "4 = Suc (Suc (Suc (Suc 0)))" by simp
  have h: "present e4 \<noteq> 0 \<Longrightarrow> \<not> huge 3 e3" "present e4 \<noteq> 0 \<Longrightarrow> present e3 \<noteq> 0 \<Longrightarrow> \<not> huge 2 e2"
    using nh huge3 huge2 unfolding four by (simp_all add: Let_def ix.simps d)
  have r: "reach s 4 (cr3 s) v =
      (if present e4 = 0 then None else if present e3 = 0 then None else if present e2 = 0 then None
       else Some (entry_address e2))"
    unfolding four using h by (simp add: Let_def ix.simps d link_def huge3 huge2) (simp add: huge_def)
  have l4: "lv (cr3 s) = 4" by (rule tables_okD(1)[OF ok])
  have P4: "points (get_l4 s) (cr3 s)"
    using tables_okD(2)[OF ok, of "cr3 s"] l4 by (intro points_l4) simp
  show ?thesis
  proof (cases "present e4 = 0")
    case True
    then show ?thesis by (simp add: r pt_unmap_def io get_page_points[OF P4] d)
  next
    case c4: False
    have l3: "lv (entry_address e4) = 3"
      using tables_okD(4)[OF ok, of "cr3 s" "l4_offset v"] c4 l4 io by (simp add: link_def huge_def d)
    have P3: "points (map_tmp (entry_address e4)) (entry_address e4)"
      using tables_okD(2)[OF ok, of "entry_address e4"] l3 by (intro points_tmp) simp
    note base = pt_unmap_def io get_page_points[OF P4] get_page_points[OF P3] d r
    show ?thesis
    proof (cases "present e3 = 0")
      case True
      then show ?thesis using c4 by (simp add: base)
    next
      case c3: False
      have l2: "lv (entry_address e3) = 2"
        using tables_okD(4)[OF ok, of "entry_address e4" "l3_offset v"] c3 h(1)[OF c4] l3 io by (simp add: link_def d)
      have P2: "points (map_tmp (entry_address e3)) (entry_address e3)"
        using tables_okD(2)[OF ok, of "entry_address e3"] l2 by (intro points_tmp) simp
      show ?thesis
      proof (cases "present e2 = 0")
        case True
        then show ?thesis using c4 c3 by (simp add: base get_page_points[OF P2])
      next
        case c2: False
        have l1: "lv (entry_address e2) = 1"
          using tables_okD(4)[OF ok, of "entry_address e3" "l2_offset v"] c2 h(2)[OF c4 c3] l2 io by (simp add: link_def d)
        have P1: "points (map_tmp (entry_address e2)) (entry_address e2)"
          using tables_okD(2)[OF ok, of "entry_address e2"] l1 by (intro points_tmp) simp
        show ?thesis using c4 c3 c2 l1 by (simp add: base get_page_points[OF P2] read_points[OF P1])
      qed
    qed
  qed
qed

lemma unmap_get:
  assumes ok: "tables_ok lv s" and nh: "no_huge s 4 (cr3 s) v"
  shows "pt_get (pt_unmap v s) v' = pt_get s v'"
proof (cases "in_window v' \<or> reach s 4 (cr3 s) v = None")
  case True
  then show ?thesis
  proof
    assume "in_window v'"
    then show ?thesis by (simp add: pt_get_def in_window_def)
  next
    assume "reach s 4 (cr3 s) v = None"
    then have "pt_unmap v s = s" using pt_unmap_reach[OF assms] by simp
    then show ?thesis by simp
  qed
next
  case False
  then obtain t where t: "reach s 4 (cr3 s) v = Some t" by auto
  let ?i = "l1_offset v"
  let ?s' = "write_word (map_tmp t + 8 * ?i) (set_present 0 (tw s t ?i)) s"
  have u: "pt_unmap v s = ?s'" and lt: "lv t = 1" using pt_unmap_reach[OF assms] t by simp_all
  have i: "?i < 512" using ix_less[of 1 v] by (simp add: ix.simps)
  have ft: "frame_ok t" using tables_okD(2)[OF ok, of t] lt by simp
  have w: "tw ?s' d j = tw s d j" if "lv d \<noteq> 0" "j < 512" "(d, j) \<noteq> (t, ?i)" for d j
  proof -
    have "frame_ok d" using that(1) tables_okD(2)[OF ok, of d] by blast
    then show ?thesis using that(3) by (auto simp: write_points[OF points_tmp[OF ft] i ft _ that(2)])
  qed
  have et: "tw ?s' t ?i = set_present 0 (tw s t ?i)"
    by (simp add: write_points[OF points_tmp[OF ft] i ft ft i])
  have ok': "tables_ok lv ?s'"
  proof (rule tables_ok_cong[OF ok])
    fix d j assume "2 \<le> lv d" "j < (512 :: u64)"
    moreover from this lt have "d \<noteq> t" by auto
    ultimately show "same_entry (tw s d j) (tw ?s' d j)" using w[of d j] by simp
  qed simp
  have lc: "lv (cr3 s) = 4" by (rule tables_okD(1)[OF ok])
  have lw1: "reach ?s' 4 (cr3 s) v' = reach s 4 (cr3 s) v'"
    by (rule leaf_write(1)[OF ok lt _ lc]) (rule w)
  have "wk ?s' 4 (cr3 s) v' = wk s 4 (cr3 s) v'"
  proof (cases "reach s 4 (cr3 s) v' = Some t \<and> ix 1 v' = ?i")
    case True
    then show ?thesis
      using wk_reach[of s 4 "cr3 s" v' t] wk_reach[of ?s' 4 "cr3 s" v' t] lw1 et by (simp add: field_simp)
  next
    case c: False
    show ?thesis by (rule leaf_write(2)[OF ok lt _ lc]) (use w c in auto)
  qed
  with False show ?thesis unfolding u using pt_get_wk[OF ok, of v'] pt_get_wk[OF ok', of v'] by simp
qed

section \<open>setMetaData\<close>

lemma set_metadata_loop_stops:
  assumes "set_metadata_loop alloc v cl level meta al page s = Some y"
  shows "al \<Longrightarrow> cl > 0 \<Longrightarrow> cl \<noteq> level \<Longrightarrow> \<forall>r. y \<noteq> Ret r"
proof -
  have "al \<longrightarrow> cl > 0 \<longrightarrow> cl \<noteq> level \<longrightarrow> (\<forall>r. y \<noteq> Ret r)"
    by (rule set_metadata_loop.raw_induct[OF _ assms])
      (auto split: option.split_asm if_split_asm sum.split_asm prod.split_asm)
  then show "al \<Longrightarrow> cl > 0 \<Longrightarrow> cl \<noteq> level \<Longrightarrow> \<forall>r. y \<noteq> Ret r" by blast
qed


section \<open>The temporary mapping that init builds\<close>

definition id_table :: "u64 \<Rightarrow> nat \<Rightarrow> u64" where
  "id_table base i = base + of_nat i * page_size"

definition id_frames :: "u64 \<Rightarrow> u64 \<Rightarrow> bool" where
  "id_frames c base \<longleftrightarrow> frame_ok c \<and> frame_ok base \<and> unat base + 64 * 4096 \<le> 2 ^ 45 \<and>
     (unat c < unat base \<or> unat base + 64 * 4096 \<le> unat c)"

lemma id_table_facts:
  assumes "id_frames c base" "i < 64"
  shows "unat (id_table base i) = unat base + i * 4096" "frame_ok (id_table base i)" "id_table base i \<noteq> c"
    "k < 64 \<Longrightarrow> id_table base k = id_table base i \<Longrightarrow> k = i"
proof -
  have u: "unat (id_table base i) = unat base + i * 4096" if "i < 64" for i
  proof -
    have "unat (of_nat i * page_size) = i * 4096"
      using that by (subst unat_mult_u64) (simp_all add: page_size_def unat_of_nat_u64)
    moreover have "unat base + i * 4096 < 2 ^ 64" using assms(1) that by (simp add: id_frames_def)
    ultimately show ?thesis by (simp add: id_table_def unat_add_u64)
  qed
  show "unat (id_table base i) = unat base + i * 4096" by (rule u[OF assms(2)])
  then show "frame_ok (id_table base i)" "id_table base i \<noteq> c"
    using assms by (auto simp: id_frames_def frame_ok_def unat_less_iff Ti_values)
  show "k < 64 \<Longrightarrow> id_table base k = id_table base i \<Longrightarrow> k = i"
  proof -
    assume k: "k < 64" and e: "id_table base k = id_table base i"
    have "unat base + k * 4096 = unat base + i * 4096" using u[OF k] u[OF assms(2)] e by metis
    then show "k = i" by simp
  qed
qed

lemma l4_of_window: "l4_offset (Ti 64) = 128"
  by (rule word_cong_unat[THEN iffD2]) (simp add: l4_offset_def unat_fld Ti_values)

definition id_entry4 :: "u64 \<Rightarrow> nat \<Rightarrow> u64" where
  "id_entry4 base i = set_write_enabled 1 (set_present 1 (id_table base i))"

lemma init_table_tw:
  assumes F: "id_frames (cr3 s) base" and i: "i < 64" and d: "frame_ok d" "j < 512"
  shows "tw (init_table base i s) d j =
    (if d = id_table base i then identity_entry i (unat j)
     else if d = cr3 s \<and> j = 128 + of_nat i then id_entry4 base i else tw s d j)"
proof -
  have fc: "frame_ok (cr3 s)" using F by (simp add: id_frames_def)
  note P = points_low[OF fc]
  note T = id_table_facts[OF F i]
  have ij: "(128 + of_nat i :: u64) < 512"
    using i by (simp add: unat_less_iff unat_add_u64 unat_of_nat_u64)
  define k where "k = (128 + of_nat i :: u64)"
  have k: "k < 512" using ij by (simp only: k_def)
  note W = write_points[OF P k fc]
  have fold: "tw (fold (\<lambda>j. write_word (id_table base i + 8 * of_nat j) (identity_entry i j)) [0..<512] s') d j =
      (if d = id_table base i then identity_entry i (unat j) else tw s' d j)" for s' :: "'a pt_state"
    using fold_write_words[OF points_low[OF T(2)] T(2) d, of 512 "identity_entry i" s'] d(2)
    by (simp add: unat_less_iff)
  show ?thesis
    unfolding init_table_def Let_def l4_of_window id_table_def[symmetric] fold k_def[symmetric]
    using T(3) by (simp add: W[OF d] W[OF fc k] read_points[OF P k] id_entry4_def)
qed

lemma init_table_frame [simp]:
  "cr3 (init_table base i s) = cr3 s" "pal (init_table base i s) = pal s"
  by (simp_all add: init_table_def Let_def fold_write_frame)

lemma init_tables_tw:
  assumes F: "id_frames (cr3 s) base" and n: "n \<le> 64"
  shows "cr3 (fold (init_table base) [0..<n] s) = cr3 s \<and>
    (\<forall>i < n. tw (fold (init_table base) [0..<n] s) (cr3 s) (128 + of_nat i) = id_entry4 base i \<and>
      (\<forall>j < 512. tw (fold (init_table base) [0..<n] s) (id_table base i) j = identity_entry i (unat j)))"
  using n
proof (induction n)
  case (Suc n)
  let ?s = "fold (init_table base) [0..<n] s"
  have IH: "cr3 ?s = cr3 s" "\<And>i. i < n \<Longrightarrow> tw ?s (cr3 s) (128 + of_nat i) = id_entry4 base i"
    "\<And>i j. i < n \<Longrightarrow> j < 512 \<Longrightarrow> tw ?s (id_table base i) j = identity_entry i (unat j)"
    using Suc by auto
  have F': "id_frames (cr3 ?s) base" using F IH(1) by simp
  have n: "n < 64" using Suc.prems by simp
  have fc: "frame_ok (cr3 s)" using F by (simp add: id_frames_def)
  have A: "tw (init_table base n ?s) (cr3 s) (128 + of_nat i) = id_entry4 base i" if "i < Suc n" for i
  proof -
    have i64: "i < 64" using that n by simp
    have ij: "(128 + of_nat i :: u64) < 512" "(128 + of_nat i :: u64) = 128 + of_nat n \<longleftrightarrow> i = n"
      using i64 n by (simp_all add: unat_less_iff unat_add_u64 unat_of_nat_u64 word_cong_unat)
    show ?thesis
      using init_table_tw[OF F' n fc ij(1)] id_table_facts(3)[OF F n] IH(1,2) ij(2) that by (auto simp: less_Suc_eq)
  qed
  have B: "tw (init_table base n ?s) (id_table base i) j = identity_entry i (unat j)" if "i < Suc n" "j < 512" for i j
  proof -
    have i64: "i < 64" using that n by simp
    show ?thesis
      using init_table_tw[OF F' n id_table_facts(2)[OF F i64] that(2)] id_table_facts(3)[OF F i64]
        id_table_facts(4)[OF F n i64] IH(1) IH(3)[of i j] that by (auto simp: less_Suc_eq)
  qed
  from A B IH(1) show ?case by simp
qed simp


text \<open>The address an entry of the temporary mapping holds, and what the walk adds.\<close>

lemma id_entry_address:
  assumes "i < 64" "j < 512"
  shows "unat (entry_address (identity_entry i j)) = i * 2 ^ 39 + j * 2 ^ 30"
    "pageSize (identity_entry i j) = 1" "present (identity_entry i j) \<noteq> 0"
proof -
  let ?w = "Gi 512 * of_nat i + Gi 1 * of_nat j"
  have g: "Gi 512 = 0x8000000000" "Gi 1 = 0x40000000" by (simp_all add: Gi_def Mi_def Ki_def)
  have a: "unat (Gi 512 * of_nat i) = i * 2 ^ 39"
    using assms by (subst unat_mult_u64) (simp_all add: g unat_of_nat_u64)
  have b: "unat (Gi 1 * of_nat j) = j * 2 ^ 30"
    using assms by (subst unat_mult_u64) (simp_all add: g unat_of_nat_u64)
  have w: "unat ?w = i * 2 ^ 39 + j * 2 ^ 30"
    using assms by (subst unat_add_u64) (simp_all only: a b, simp_all)
  have "frame_ok ?w"
    using assms by (simp add: frame_ok_def w unat_less_iff Ti_values dvd_add dvd_mult)
  then have "entry_address ?w = ?w" using frame_shift[of ?w] by (simp add: entry_address_def fld_def)
  moreover have "entry_address (identity_entry i j) = entry_address ?w"
    by (simp add: identity_entry_def set_page_size_def set_write_enabled_def set_present_def entry_address_def fld_set_fld_other)
  ultimately show "unat (entry_address (identity_entry i j)) = i * 2 ^ 39 + j * 2 ^ 30" using w by simp
  show "pageSize (identity_entry i j) = 1" "present (identity_entry i j) \<noteq> 0"
    by (simp_all add: identity_entry_def set_page_size_def set_write_enabled_def set_present_def pageSize_def
        present_def fld_set_fld_other fld_set_fld_same)
qed

lemma low_part_3: "unat (low_part 3 v) = unat v mod 2 ^ 30"
proof -
  let ?V = "unat v"
  have o: "unat (va_offset v) = ?V mod 2 ^ 12" "unat (l1_offset v) = ?V div 2 ^ 12 mod 2 ^ 9"
    "unat (l2_offset v) = ?V div 2 ^ 21 mod 2 ^ 9"
    by (simp_all add: va_offset_def l1_offset_def l2_offset_def unat_fld)
  have k: "unat (l1_offset v * Ki 4) = ?V div 2 ^ 12 mod 2 ^ 9 * 2 ^ 12" "unat (l2_offset v * Mi 2) = ?V div 2 ^ 21 mod 2 ^ 9 * 2 ^ 21"
    using l_offset_less[of v] by (subst unat_mult_u64, simp add: Ki_def Mi_def, simp add: o Ki_def Mi_def)+
  have m: "?V mod 2 ^ 21 = 2 ^ 12 * (?V div 2 ^ 12 mod 2 ^ 9) + ?V mod 2 ^ 12"
    "?V mod 2 ^ 30 = 2 ^ 21 * (?V div 2 ^ 21 mod 2 ^ 9) + ?V mod 2 ^ 21"
    using mod_mult2_eq[of ?V "2 ^ 12" "2 ^ 9"] mod_mult2_eq[of ?V "2 ^ 21" "2 ^ 9"] by simp_all
  have s1: "unat (va_offset v + l1_offset v * Ki 4) = ?V mod 2 ^ 21"
    using l_offset_less[of v] by (subst unat_add_u64) (simp_all only: k o m(1), simp_all)
  have "unat (va_offset v + l1_offset v * Ki 4 + l2_offset v * Mi 2) = ?V mod 2 ^ 30"
    using mod_less_divisor[of "2 ^ 21" ?V] mod_less_divisor[of "2 ^ 9" "?V div 2 ^ 21"]
    by (subst unat_add_u64) (simp_all only: k s1 m(2), simp_all)
  then show ?thesis by (simp add: low_part_def)
qed

lemma id_map_nat:
  assumes "X < 2 ^ 45"
  shows "X div 2 ^ 39 * 2 ^ 39 + (X + 2 ^ 46) div 2 ^ 30 mod 2 ^ 9 * 2 ^ 30 + (X + 2 ^ 46) mod 2 ^ 30 = (X :: nat)"
    "(X + 2 ^ 46) div 2 ^ 39 mod 2 ^ 9 = 128 + X div 2 ^ 39"
proof -
  let ?V = "X + 2 ^ 46"
  have "?V mod 2 ^ 39 = 2 ^ 30 * (?V div 2 ^ 30 mod 2 ^ 9) + ?V mod 2 ^ 30"
    using mod_mult2_eq[of ?V "2 ^ 30" "2 ^ 9"] by simp
  moreover have "?V mod 2 ^ 39 = X mod 2 ^ 39"
    using mod_mult_self1[of X 128 "2 ^ 39"] by simp
  moreover have "X div 2 ^ 39 * 2 ^ 39 + X mod 2 ^ 39 = X" by (rule div_mult_mod_eq)
  ultimately show "X div 2 ^ 39 * 2 ^ 39 + ?V div 2 ^ 30 mod 2 ^ 9 * 2 ^ 30 + ?V mod 2 ^ 30 = X"
    by (simp only: mult.commute)
  have "?V div 2 ^ 39 = X div 2 ^ 39 + 128"
    using div_mult_self1[of "2 ^ 39" X 128] by simp
  moreover have "X div 2 ^ 39 < 64" using assms by (simp add: div_less_iff_less_mult)
  ultimately show "?V div 2 ^ 39 mod 2 ^ 9 = 128 + X div 2 ^ 39" by simp
qed


lemma mmu_init:
  assumes "tw s b (ix 4 v) = e4" "bit e4 0" "tw s (entry_address e4) (ix 3 v) = e3" "bit e3 0" "bit e3 7"
  shows "mmu s 4 b v = Some (frame_of 2 e3 + fld 0 30 v, e3)"
  using mmu_step[of s b 3 v e4] mmu_stop[of s "entry_address e4" 2 v e3] assms by (simp add: numeral_eq_Suc del: mmu.simps)

lemma frame_of_2:
  assumes "2 ^ 30 dvd unat (entry_address e)"
  shows "frame_of 2 e = entry_address e"
proof -
  have "frame_of 2 e = push_bit 30 (drop_bit 30 (entry_address e))"
    by (rule bit_eqI) (auto simp: frame_of_def entry_address_def fld_def bit_simps)
  moreover have "bit (entry_address e) n \<longrightarrow> 30 \<le> n" for n
  proof
    assume "bit (entry_address e) n"
    then have "bit (unat (entry_address e)) n" by (simp add: bit_unsigned_iff)
    show "30 \<le> n"
    proof (rule ccontr)
      assume "\<not> 30 \<le> n"
      have "take_bit 30 (unat (entry_address e)) = 0" unfolding take_bit_eq_0_iff by (rule assms)
      then have "\<not> bit (take_bit 30 (unat (entry_address e))) n" by simp
      then show False using \<open>bit (unat _) n\<close> \<open>\<not> 30 \<le> n\<close> by (simp add: bit_take_bit_iff)
    qed
  qed
  then have "push_bit 30 (drop_bit 30 (entry_address e)) = entry_address e"
    by (intro bit_eqI) (auto simp: bit_simps le_imp_diff_is_add dest: bit_imp_le_length)
  ultimately show ?thesis by simp
qed

lemma init_walk:
  assumes F: "id_frames (cr3 s) base" and x: "x < Ti 32"
  shows "\<exists>e. mmu (fold (init_table base) [0..<64] s) 4 (cr3 s) (map_tmp x) = Some (x, e) \<and> bit e 1"
proof -
  let ?s = "fold (init_table base) [0..<64] s" and ?v = "map_tmp x"
  define X i j where "X = unat x" and "i = X div 2 ^ 39" and "j = (X + 2 ^ 46) div 2 ^ 30 mod 2 ^ 9"
  have X: "X < 2 ^ 45" using x by (simp add: X_def unat_less_iff Ti_values)
  have v: "unat ?v = X + 2 ^ 46"
    using X by (simp add: map_tmp_def unat_add_u64 Ti_values X_def)
  have i: "i < 64" using X by (simp add: i_def div_less_iff_less_mult)
  have j: "j < 512" by (simp add: j_def)
  have o4: "ix 4 ?v = 128 + of_nat i"
    by (rule word_cong_unat[THEN iffD2])
      (use i id_map_nat(2)[OF X] in \<open>simp add: ix.simps l4_offset_def unat_fld v unat_add_u64 unat_of_nat_u64 i_def\<close>)
  have o3: "unat (ix 3 ?v) = j" by (simp add: ix.simps l3_offset_def unat_fld v j_def)
  have T: "tw ?s (cr3 s) (ix 4 ?v) = id_entry4 base i" "tw ?s (id_table base i) (ix 3 ?v) = identity_entry i j"
    using init_tables_tw[OF F, of 64] i o4 ix_less[of 3 ?v] o3 by auto
  have e4: "present (id_entry4 base i) \<noteq> 0" "entry_address (id_entry4 base i) = id_table base i"
  proof -
    have "entry_address (id_table base i) = id_table base i"
      using frame_shift[OF id_table_facts(2)[OF F i]] by (simp add: entry_address_def fld_def)
    then show "present (id_entry4 base i) \<noteq> 0" "entry_address (id_entry4 base i) = id_table base i"
      by (simp_all add: id_entry4_def set_write_enabled_def set_present_def present_def entry_address_def
        fld_set_fld_other fld_set_fld_same)
  qed
  note E = id_entry_address[OF i j]
  have d: "(2 :: nat) ^ 30 dvd i * 2 ^ 39 + j * 2 ^ 30"
    by (intro dvd_add dvd_mult dvd_mult2) (simp_all add: le_imp_power_dvd)
  have fr: "frame_of 2 (identity_entry i j) = entry_address (identity_entry i j)"
    by (rule frame_of_2) (use d in \<open>simp only: E(1)\<close>)
  have "unat (entry_address (identity_entry i j) + fld 0 30 ?v) = X"
  proof -
    have l: "unat (fld 0 30 ?v) = (X + 2 ^ 46) mod 2 ^ 30" by (simp add: unat_fld v)
    have s: "i * 2 ^ 39 + j * 2 ^ 30 + (X + 2 ^ 46) mod 2 ^ 30 = X"
      using id_map_nat(1)[OF X] by (simp only: i_def j_def)
    have "unat (entry_address (identity_entry i j) + fld 0 30 ?v) = i * 2 ^ 39 + j * 2 ^ 30 + (X + 2 ^ 46) mod 2 ^ 30"
      by (subst unat_add_u64) (use s X in \<open>simp_all only: E(1) l, simp_all\<close>)
    with s show ?thesis by simp
  qed
  then have a: "entry_address (identity_entry i j) + fld 0 30 ?v = x" by (simp add: word_cong_unat X_def)
  have "bit (id_entry4 base i) 0" "bit (identity_entry i j) 0" "bit (identity_entry i j) 7"
    using e4(1) E(2,3) by (simp_all add: present_bit pageSize_bit)
  then have "mmu ?s 4 (cr3 s) ?v = Some (x, identity_entry i j)"
    using mmu_init[OF T(1) _ T(2)[folded e4(2)]] fr a by simp
  moreover have "bit (identity_entry i j) 1"
    by (simp add: bit_field identity_entry_def set_page_size_def set_write_enabled_def fld_set_fld_other fld_set_fld_same)
  ultimately show ?thesis by blast
qed

section \<open>Properties\<close>


text \<open>\<open>unmap\<close> does not show in \<open>get\<close>: it clears the present bit of the last-level entry, which
  \<open>get\<close> never reads, so every address keeps its translation, the unmapped page included.\<close>

theorem unmap_invisible_to_get:
  assumes "tables_ok lv s" "no_huge s 4 (cr3 s) v"
  shows "pt_get (pt_unmap v s) v' = pt_get s v'"
  by (rule unmap_get[OF assms])

text \<open>C26. Start-up builds the temporary mapping that \<open>mapTmp\<close> and \<open>get\<close> rely on: when \<open>init\<close> gets its 64
  pages, it returns, and the processor's walk, which tests the present bit of every level, goes from \<open>64 TiB + x\<close> to
  \<open>x\<close>, by an entry that can be written through, for all \<open>x\<close> below 32 TiB.\<close>

theorem init_maps_physical_memory:
  assumes "bit edx 26" "alloc64 (pal s) = Some (Ret (Some base, a'))" "id_frames (cr3 s) base"
  shows "\<exists>s'. pt_init alloc64 edx s = Some (Ret s') \<and> (\<forall>x < Ti 32. \<exists>e. mmu s' 4 (cr3 s') (map_tmp x) = Some (x, e) \<and> bit e 1)"
proof -
  let ?s0 = "s\<lparr>map_physical_high := False, pal := a'\<rparr>"
  let ?s' = "fold (init_table base) [0..<64] ?s0"
  have i: "pt_init alloc64 edx s = Some (Ret ?s')" using assms(1,2) by (simp add: pt_init_def Let_def)
  have F: "id_frames (cr3 ?s0) base" using assms(3) by simp
  have "cr3 ?s' = cr3 ?s0" using init_tables_tw[OF F, of 64] by blast
  with init_walk[OF F] have "\<forall>x < Ti 32. \<exists>e. mmu ?s' 4 (cr3 ?s') (map_tmp x) = Some (x, e) \<and> bit e 1" by simp
  with i show ?thesis by blast
qed

text \<open>\<open>setMetaData\<close> for a level below the top with \<open>allocateIfNotPresent\<close> never returns normally: its
  loop does not step to the next level, so it ends only in a halt, or not at all.\<close>

theorem set_metadata_never_returns:
  assumes "level < 4"
  shows "set_metadata alloc v level meta True s \<noteq> Some (Ret r)"
proof -
  have l: "\<not> level > 4" "4 \<noteq> level" using assms by auto
  have "set_metadata_loop alloc v 4 level meta True (get_l4 s) s \<noteq> Some (Ret r)"
  proof
    assume "set_metadata_loop alloc v 4 level meta True (get_l4 s) s = Some (Ret r)"
    from set_metadata_loop_stops[OF this] l(2) show False by simp
  qed
  with l(1) show ?thesis by (simp add: set_metadata_def)
qed


lemma set_metadata_never_returns_witness:
  "\<forall>r. set_metadata (phys_alloc 1) 0 2 5 True \<lparr>cr3 = 0x1000, map_physical_high = True, pmem = (\<lambda>_. 0), pal = demo_phys\<rparr>
     \<noteq> Some (Ret r)"
  by (intro allI set_metadata_never_returns) simp

lemma init_maps_physical_memory_witness:
  "\<exists>s'. pt_init (\<lambda>a. Some (Ret (Some 0x100000, a))) 0x04000000
       \<lparr>cr3 = 0x1000, map_physical_high = False, pmem = (\<lambda>_. 0), pal = ()\<rparr> = Some (Ret s') \<and>
     (\<forall>x < Ti 32. \<exists>e. mmu s' 4 (cr3 s') (map_tmp x) = Some (x, e) \<and> bit e 1)"
  by (rule init_maps_physical_memory[where base = "0x100000"]) (simp_all add: id_frames_def frame_ok_def Ti_values)

text \<open>Four tables, linked through their first entries, that map the page at address 0.\<close>

definition demo_pt :: "phys_state pt_state" where
  "demo_pt = \<lparr>cr3 = 0x1000, map_physical_high = True,
     pmem = (\<lambda>_. 0)(0x1000 := 0x2003, 0x2000 := 0x3003, 0x3000 := 0x4003, 0x4000 := 0x7003), pal = demo_phys\<rparr>"

definition demo_lv :: "u64 \<Rightarrow> nat" where
  "demo_lv = (\<lambda>_. 0)(0x1000 := 4, 0x2000 := 3, 0x3000 := 2, 0x4000 := 1)"

lemma demo_pt_word:
  assumes "i < 512" "b \<in> {0x1000, 0x2000, 0x3000, 0x4000}"
  shows "tw demo_pt b i = (if i = 0 then b + 0x1003 + (if b = 0x4000 then 0x2000 else 0) else 0)"
proof (cases "i = 0")
  case True
  then show ?thesis using assms(2) by (auto simp: tw_def demo_pt_def)
next
  case False
  have f: "frame_ok 0x1000" "frame_ok 0x2000" "frame_ok 0x3000" "frame_ok 0x4000"
    by (simp_all add: frame_ok_def Ti_values)
  have "frame_ok b" using assms(2) f by auto
  then have "b + 8 * i \<noteq> c" if "c \<in> {0x1000, 0x2000, 0x3000, 0x4000}" for c
    using frame_word_inj[of b c i 0] that f False assms(1) by auto
  then show ?thesis using False by (simp add: tw_def demo_pt_def)
qed


lemma demo_tables_ok: "tables_ok demo_lv demo_pt"
proof -
  have mem: "demo_lv b \<noteq> 0 \<longleftrightarrow> b \<in> {0x1000, 0x2000, 0x3000, 0x4000}" for b by (simp add: demo_lv_def)
  have two: "2 \<le> demo_lv b \<Longrightarrow> b \<in> {0x1000, 0x2000, 0x3000}" for b
    by (cases "b = 0x4000") (simp_all add: demo_lv_def split: if_splits)
  have e: "present (b + 0x1003) \<noteq> 0" "pageSize (b + 0x1003) = 0" "entry_address (b + 0x1003) = b + 0x1000"
    if "b \<in> {0x1000, 0x2000, 0x3000}" for b
    using that by (elim insertE emptyE; simp add: present_def pageSize_def entry_address_def fld_def)+
  have z: "present 0 = 0" "pageSize 0 = 0" by (simp_all add: present_def pageSize_def)
  have w: "tw demo_pt b i = (if i = 0 then b + 0x1003 else 0)" if "b \<in> {0x1000, 0x2000, 0x3000}" "i < 512" for b i
    using demo_pt_word[OF that(2), of b] that(1) by auto
  have lk: "link (demo_lv b) (tw demo_pt b i) \<Longrightarrow> i = 0 \<and> entry_address (tw demo_pt b i) = b + 0x1000"
    if "b \<in> {0x1000, 0x2000, 0x3000}" "i < 512" for b i
    using w[OF that] e(3)[OF that(1)] z by (auto simp: link_def split: if_splits)
  have hg: "\<not> huge (demo_lv b) (tw demo_pt b i)" if "b \<in> {0x1000, 0x2000, 0x3000}" "i < 512" for b i
    using w[OF that] e(2)[OF that(1)] z by (auto simp: huge_def)
  show ?thesis
    unfolding tables_ok_def
  proof (intro conjI allI impI)
    show "demo_lv (cr3 demo_pt) = 4" by (simp add: demo_lv_def demo_pt_def)
  next
    fix b assume "demo_lv b \<noteq> 0"
    then have "b \<in> {0x1000, 0x2000, 0x3000, 0x4000}" by (simp only: mem)
    then show "frame_ok b" by (auto simp: frame_ok_def Ti_values)
    show "demo_lv b \<le> 4" by (simp add: demo_lv_def)
  next
    fix b i assume a: "2 \<le> demo_lv b" "i < (512 :: u64)" "link (demo_lv b) (tw demo_pt b i)"
    have "entry_address (tw demo_pt b i) = b + 0x1000" using lk[OF two[OF a(1)] a(2,3)] by blast
    moreover have "demo_lv (b + 0x1000) = demo_lv b - 1"
      using two[OF a(1)] by (elim insertE emptyE) (simp_all add: demo_lv_def)
    ultimately show "demo_lv (entry_address (tw demo_pt b i)) = demo_lv b - 1" by (simp only:)
  next
    fix b i c j assume a: "2 \<le> demo_lv b" "i < (512 :: u64)" "link (demo_lv b) (tw demo_pt b i)"
      and c: "2 \<le> demo_lv c" "j < (512 :: u64)" "link (demo_lv c) (tw demo_pt c j)"
      and q: "entry_address (tw demo_pt b i) = entry_address (tw demo_pt c j)"
    have l: "i = 0 \<and> entry_address (tw demo_pt b i) = b + 0x1000" "j = 0 \<and> entry_address (tw demo_pt c j) = c + 0x1000"
      using lk[OF two[OF a(1)] a(2,3)] lk[OF two[OF c(1)] c(2,3)] by blast+
    then have "b + 0x1000 = c + 0x1000" using q by metis
    then show "b = c" by (simp only: add_right_cancel)
    show "i = j" using l by blast
  next
    fix b i assume a: "2 \<le> demo_lv b" "i < (512 :: u64)" "huge (demo_lv b) (tw demo_pt b i)"
    then show "present (tw demo_pt b i) \<noteq> 0" using hg[OF two[OF a(1)] a(2)] by blast
  qed
qed

lemma demo_pt_inv: "pt_inv phys_ok phys_free_pages demo_lv demo_pt"
proof -
  have "phys_ok demo_phys" unfolding phys_ok_def
    by (rule exI[of _ demo_map]) (simp add: demo_phys_inv demo_map_facts)
  moreover have "b \<notin> phys_free_pages demo_phys" if "demo_lv b \<noteq> 0" for b
  proof
    assume "b \<in> phys_free_pages demo_phys"
    then obtain i where i: "b = page_addr demo_map i" "i < length (pages demo_map)"
      unfolding phys_free_pages_eq[OF demo_phys_inv] by auto
    then have "i = 0 \<or> i = 1 \<or> i = 2 \<or> i = 3" by (auto simp: demo_map_facts)
    with i(1) have "unat b \<ge> 0x100000" by (auto simp: page_addr_def demo_map_facts)
    with that show False by (auto simp: demo_lv_def split: if_splits)
  qed
  ultimately show ?thesis using demo_tables_ok by (simp add: pt_inv_def demo_pt_def)
qed

lemma demo_no_huge: "no_huge demo_pt 4 (cr3 demo_pt) 0"
proof -
  have x: "ix k 0 = 0" for k by (simp add: ix.simps l4_offset_def l3_offset_def l2_offset_def l1_offset_def)
  have t: "tw demo_pt 0x1000 0 = 0x2003" "tw demo_pt 0x2000 0 = 0x3003" "tw demo_pt 0x3000 0 = 0x4003" "cr3 demo_pt = 0x1000"
    by (simp_all add: tw_def demo_pt_def)
  have a: "entry_address 0x2003 = 0x2000" "entry_address 0x3003 = 0x3000" "pageSize 0x2003 = 0" "pageSize 0x3003 = 0" "pageSize 0x4003 = 0"
    by (simp_all add: entry_address_def pageSize_def fld_def)
  have "no_huge demo_pt (Suc (Suc (Suc (Suc 0)))) 0x1000 0"
    by (simp add: Let_def x t a huge_def)
  then show ?thesis by (simp add: t numeral_eq_Suc)
qed

lemma demo_map_runs:
  "\<exists>s'. pt_map (phys_alloc 1) 0x9000 0 \<lparr>writeable = True, user = False, writeThrough = False, cacheDisabled = False\<rparr> demo_pt = Some (Ret s')"
proof -
  have n: "map_levels al v f 3 P s = map_levels al v f (Suc (Suc (Suc 0))) P s" for al v f P and s :: "phys_state pt_state"
    by (simp add: numeral_eq_Suc)
  have x: "l4_offset 0 = 0" "l3_offset 0 = 0" "l2_offset 0 = 0" "l1_offset 0 = 0"
    by (simp_all add: l4_offset_def l3_offset_def l2_offset_def l1_offset_def)
  have e: "present 0x2003 = 1" "present 0x3003 = 1" "present 0x4003 = 1"
    "entry_address 0x2003 = 0x2000" "entry_address 0x3003 = 0x3000" "entry_address 0x4003 = 0x4000"
    by (simp_all add: present_def entry_address_def fld_def)
  show ?thesis
    unfolding pt_map_def n
    by (simp add: map_level_def get_page_def read_word_def write_word_def get_l4_def demo_pt_def to_phys_def
        Ti_values map_tmp_def get_offset_def Let_def x e field_simp)
qed



lemma unmap_invisible_to_get_witness: "pt_get (pt_unmap 0 demo_pt) 0 = pt_get demo_pt 0"
  by (rule unmap_invisible_to_get[OF demo_tables_ok demo_no_huge])

end
