(* ===== verification/Heap.thy ===== *)
theory Heap
  imports Paging
begin

text \<open>
  \<^verbatim>\<open>src/high/memory/heap.cpp\<close>: the page allocator, which hands out pages of virtual memory by
  walking the page tables, the small-object allocator on top of it, and the dispatch of \<open>kheap\<close>.
  The contents of heap pages are a byte memory of their own; page tables are the words of
  \<open>Paging\<close>.  The free lists of the small allocator, chains of pages of 511 pointers each, are lists
  of such nodes with their addresses.
\<close>

section \<open>The page allocator\<close>

definition page_full_bit :: u64 where "page_full_bit = 1"

definition entry_full :: "u64 \<Rightarrow> bool" where
  "entry_full e \<longleftrightarrow> metaData e AND page_full_bit \<noteq> 0"

text \<open>The search over the entries \<open>is\<close>: the first entry that is present and not full ends it; on the
  way, \<open>em\<close> becomes the first entry that is not present.\<close>

fun pa_scan :: "(nat \<Rightarrow> u64) \<Rightarrow> nat list \<Rightarrow> nat option \<Rightarrow> nat option \<times> nat option" where
  "pa_scan es [] em = (None, em)"
| "pa_scan es (i # is) em =
     (if present (es i) = 0 \<and> em = None then pa_scan es is (Some i)
      else if present (es i) \<noteq> 0 \<and> \<not> entry_full (es i) then (Some i, em)
      else pa_scan es is em)"

definition table_words :: "'p pt_state \<Rightarrow> u64 \<Rightarrow> nat \<Rightarrow> u64" where
  "table_words s table i = read_word s (table + 8 * of_nat i)"

text \<open>The entry that \<open>malloc_traverse\<close> writes for a new page or table in frame \<open>p\<close>.\<close>

definition fresh_entry :: "u64 \<Rightarrow> u64 \<Rightarrow> u64" where
  "fresh_entry p e =
     set_fld 9 3 0 (set_fld 8 1 0 (set_fld 7 1 0 (set_fld 6 1 0 (set_fld 5 1 0 (set_fld 3 1 0
       (set_fld 4 1 0 (set_fld 2 1 0 (set_fld 1 1 1 (set_fld 0 1 1 (set_fld 12 40 (drop_bit 12 p) e))))))))))"

definition set_full :: "u64 \<Rightarrow> u64" where
  "set_full e = set_fld 9 3 (fld 9 3 e OR page_full_bit) e"

definition clear_full :: "u64 \<Rightarrow> u64" where
  "clear_full e = set_fld 9 3 (fld 9 3 e AND NOT page_full_bit) e"

definition table_full :: "'p pt_state \<Rightarrow> u64 \<Rightarrow> bool" where
  "table_full s table \<longleftrightarrow> (\<forall>i \<in> set [0..<512]. present (table_words s table i) \<noteq> 0 \<and> entry_full (table_words s table i))"

definition table_empty :: "'p pt_state \<Rightarrow> u64 \<Rightarrow> bool" where
  "table_empty s table \<longleftrightarrow> (\<forall>i \<in> set [0..<512]. present (table_words s table i) = 0)"

text \<open>Choosing the entry: \<open>Ret (Some i, s)\<close> is entry \<open>i\<close>, with a new frame when it was not present.\<close>

definition pa_target :: "'p page_alloc \<Rightarrow> u64 \<Rightarrow> nat list \<Rightarrow> 'p pt_state \<Rightarrow> (nat option \<times> 'p pt_state) res option" where
  "pa_target alloc table is s =
     (case pa_scan (table_words s table) is None of
        (Some i, _) \<Rightarrow> Some (Ret (Some i, s))
      | (None, Some i) \<Rightarrow>
          bindo (alloc (pal s)) (\<lambda>(page, a').
            let s1 = s\<lparr>pal := a'\<rparr> in
            case page of
              None \<Rightarrow> Some (Ret (None, s1))
            | Some p \<Rightarrow>
                (let entry = table + 8 * of_nat i
                 in Some (Ret (Some i, write_word entry (fresh_entry p (read_word s1 entry)) s1))))
      | (None, None) \<Rightarrow> Some (Ret (None, s)))"

definition set_level_offset :: "nat \<Rightarrow> nat \<Rightarrow> u64 \<Rightarrow> u64" where
  "set_level_offset level target v = set_fld (12 + 9 * (level - 1)) 9 (of_nat target) v"

text \<open>\<open>malloc_traverse\<close>; \<open>is\<close> are the entries it may use in the top table.  The null pointer is 0.\<close>

fun malloc_traverse :: "'p page_alloc \<Rightarrow> nat list \<Rightarrow> nat \<Rightarrow> u64 \<Rightarrow> u64 \<Rightarrow> 'p pt_state \<Rightarrow> (u64 \<times> 'p pt_state) res option" where
  "malloc_traverse alloc is 0 table resAddress s = Some (Stop (Panic ''invalid level in page_allocator::malloc''))"
| "malloc_traverse alloc is (Suc k) table resAddress s =
     bindo (pa_target alloc table (if Suc k = 4 then is else [0..<512]) s) (\<lambda>(target, s1).
       case target of
         None \<Rightarrow> Some (Ret (0, s1))
       | Some i \<Rightarrow>
           let entry = table + 8 * of_nat i;
               resAddress' = set_level_offset (Suc k) i resAddress
           in if k = 0
              then Some (Ret (resAddress', write_word entry (set_full (read_word s1 entry)) s1))
              else
                let nextPage = map_tmp (entry_address (read_word s1 entry))
                in bindo (malloc_traverse alloc is k nextPage resAddress' s1) (\<lambda>(res, s2).
                     Some (Ret (res,
                       if table_full s2 nextPage then write_word entry (set_full (read_word s2 entry)) s2 else s2))))"

text \<open>\<open>free_traverse\<close>.  The entry is cleared before its address is read.\<close>

fun free_traverse :: "(u64 \<Rightarrow> 'p \<Rightarrow> 'p res) \<Rightarrow> nat \<Rightarrow> u64 \<Rightarrow> u64 \<Rightarrow> 'p pt_state \<Rightarrow> 'p pt_state res" where
  "free_traverse dealloc 0 table address s = Stop (Panic ''invalid level in page_allocator::free'')"
| "free_traverse dealloc (Suc k) table address s =
     (if k = 0
      then
        let entry = table + 8 * l1_offset address;
            s1 = write_word entry 0 s
        in bindr (dealloc (entry_address (read_word s1 entry)) (pal s1)) (\<lambda>a'. Ret (s1\<lparr>pal := a'\<rparr>))
      else
        case get_offset address (of_nat (Suc k)) of
          None \<Rightarrow> Stop (Panic ''invalid level in page_allocator::free'')
        | Some off \<Rightarrow>
            let entry = table + 8 * off
            in bindr (free_traverse dealloc k (map_tmp (entry_address (read_word s entry))) address s) (\<lambda>s1.
                 let nextPage = map_tmp (entry_address (read_word s1 entry))
                 in if table_empty s1 nextPage
                    then
                      let s2 = write_word entry 0 s1
                      in bindr (dealloc (entry_address (read_word s2 entry)) (pal s2)) (\<lambda>a'. Ret (s2\<lparr>pal := a'\<rparr>))
                    else if table_full s1 nextPage
                         then Ret (write_word entry (set_full (read_word s1 entry)) s1)
                         else Ret (write_word entry (clear_full (read_word s1 entry)) s1)))"

definition l4_range :: "u64 \<Rightarrow> u64 \<Rightarrow> nat list" where
  "l4_range lowAdd highAdd = [unat (l4_offset lowAdd)..<unat (l4_offset highAdd)]"

definition page_malloc :: "'p page_alloc \<Rightarrow> u64 \<Rightarrow> 'p pt_state \<Rightarrow> (u64 \<times> 'p pt_state) res option" where
  "page_malloc alloc sz s =
     (if sz > page_size then Some (Ret (0, s))
      else malloc_traverse alloc (l4_range (Ti 96) (Ti 96 + Ti 10)) 4 (map_tmp (cr3 s)) 0 s)"

definition page_free :: "(u64 \<Rightarrow> 'p \<Rightarrow> 'p res) \<Rightarrow> u64 \<Rightarrow> 'p pt_state \<Rightarrow> 'p pt_state res" where
  "page_free dealloc ptr s = (if ptr = 0 then Ret s else free_traverse dealloc 4 (map_tmp (cr3 s)) ptr s)"

definition page_alloc_size :: "u64 \<Rightarrow> u64" where
  "page_alloc_size ptr = (if ptr = 0 then 0 else page_size)"

section \<open>The small allocator\<close>

text \<open>\<open>List::Node\<close>: the page it lies in, and its elements, 0 for none.\<close>

record list_node =
  node_page :: u64
  elements :: "u64 list"

definition element_count :: nat where "element_count = 511"

record 'p heap_state =
  pt :: "'p pt_state"
  hmem :: bytes
  free_list :: "nat \<Rightarrow> list_node list"

definition small_allocate_page :: "'p page_alloc \<Rightarrow> 'p heap_state \<Rightarrow> (u64 \<times> 'p heap_state) res option" where
  "small_allocate_page alloc h =
     bindo (malloc_traverse alloc (l4_range (Ti 96 + Ti 10) (Ti 96 + Ti 20)) 4 (map_tmp (cr3 (pt h))) 0 (pt h))
       (\<lambda>(res, pt'). if res = 0 then Some (Stop Undef)
          else Some (Ret (res, h\<lparr>pt := pt', hmem := memset res 0 4096 (hmem h)\<rparr>)))"

definition small_free_page :: "(u64 \<Rightarrow> 'p \<Rightarrow> 'p res) \<Rightarrow> u64 \<Rightarrow> 'p heap_state \<Rightarrow> 'p heap_state res" where
  "small_free_page dealloc page h =
     (if page = 0 then Ret h
      else bindr (free_traverse dealloc 4 (map_tmp (cr3 (pt h))) page (pt h)) (\<lambda>pt'. Ret (h\<lparr>pt := pt'\<rparr>)))"

definition list_is_empty :: "list_node list \<Rightarrow> bool" where
  "list_is_empty l \<longleftrightarrow> l = []"

text \<open>The first empty slot of the first node that has one; \<open>None\<close> when all nodes are full.\<close>

fun list_put :: "u64 \<Rightarrow> list_node list \<Rightarrow> list_node list option" where
  "list_put d [] = None"
| "list_put d (n # ns) =
     (let i = index_of (\<lambda>e. e = 0) (elements n)
      in if i < length (elements n) then Some (n\<lparr>elements := (elements n)[i := d]\<rparr> # ns)
         else map_option ((#) n) (list_put d ns))"

definition list_push :: "'p page_alloc \<Rightarrow> nat \<Rightarrow> u64 \<Rightarrow> 'p heap_state \<Rightarrow> 'p heap_state res option" where
  "list_push alloc bucket d h =
     (case list_put d (free_list h bucket) of
        Some l \<Rightarrow> Some (Ret (h\<lparr>free_list := (free_list h)(bucket := l)\<rparr>))
      | None \<Rightarrow> bindo (small_allocate_page alloc h) (\<lambda>(page, h1).
          Some (Ret (h1\<lparr>free_list := (free_list h1)(bucket :=
            free_list h1 bucket @ [\<lparr>node_page = page, elements = (replicate element_count 0)[0 := d]\<rparr>])\<rparr>))))"

definition list_peek :: "list_node list \<Rightarrow> u64" where
  "list_peek l = (case List.find (\<lambda>e. e \<noteq> 0) (concat (map elements l)) of None \<Rightarrow> 0 | Some e \<Rightarrow> e)"

text \<open>\<open>remove\<close> clears the element everywhere and gives back the nodes that became empty.\<close>

fun list_remove_nodes ::
    "(u64 \<Rightarrow> 'p \<Rightarrow> 'p res) \<Rightarrow> u64 \<Rightarrow> list_node list \<Rightarrow> 'p heap_state \<Rightarrow> (list_node list \<times> 'p heap_state) res" where
  "list_remove_nodes dealloc d [] h = Ret ([], h)"
| "list_remove_nodes dealloc d (n # ns) h =
     (let n' = n\<lparr>elements := map (\<lambda>e. if e = d then 0 else e) (elements n)\<rparr>
      in if list_all (\<lambda>e. e = 0) (elements n')
         then bindr (small_free_page dealloc (node_page n) h) (list_remove_nodes dealloc d ns)
         else bindr (list_remove_nodes dealloc d ns h) (\<lambda>(ns', h'). Ret (n' # ns', h')))"

definition list_remove :: "(u64 \<Rightarrow> 'p \<Rightarrow> 'p res) \<Rightarrow> nat \<Rightarrow> u64 \<Rightarrow> 'p heap_state \<Rightarrow> 'p heap_state res" where
  "list_remove dealloc bucket d h =
     bindr (list_remove_nodes dealloc d (free_list h bucket) h) (\<lambda>(l, h').
       Ret (h'\<lparr>free_list := (free_list h')(bucket := l)\<rparr>))"

definition small_init :: "'p heap_state \<Rightarrow> 'p heap_state" where
  "small_init h = h\<lparr>free_list := (\<lambda>_. [])\<rparr>"

text \<open>Size classes.\<close>

definition get_pref_size :: "u64 \<Rightarrow> u64" where
  "get_pref_size sz =
     (if sz \<le> 4 then 4 else if sz \<le> 8 then 8 else if sz \<le> 16 then 16 else if sz \<le> 32 then 32
      else if sz \<le> 64 then 64 else if sz \<le> 128 then 128 else if sz \<le> 256 then 256 else if sz \<le> 512 then 512
      else if sz \<le> 1024 then 1024 else if sz \<le> 2047 then 2047 else 0)"

fun lookup_table :: "('a \<times> 'b) list \<Rightarrow> string \<Rightarrow> 'a \<Rightarrow> 'b res" where
  "lookup_table [] msg x = Stop (Panic msg)"
| "lookup_table ((k, v) # kvs) msg x = (if x = k then Ret v else lookup_table kvs msg x)"

definition get_pref_size_from_bucket :: "nat \<Rightarrow> u64 res" where
  "get_pref_size_from_bucket = lookup_table
     [(0, 4), (1, 8), (2, 16), (3, 32), (4, 64), (5, 128), (6, 256), (7, 512), (8, 1024), (9, 2047)]
     ''invalid bucket in small_allocator::get_pref_size_from_bucket''"

definition get_bucket :: "u64 \<Rightarrow> nat res" where
  "get_bucket = lookup_table
     [(4, 0), (8, 1), (16, 2), (32, 3), (64, 4), (128, 5), (256, 6), (512, 7), (1024, 8), (2047, 9)]
     ''invalid prefSize in small_allocator::get_bucket''"

definition get_bitmap_element_count :: "nat \<Rightarrow> nat res" where
  "get_bitmap_element_count = lookup_table
     [(0, 992), (1, 504), (2, 253), (3, 127), (4, 63), (5, 31), (6, 15), (7, 7), (8, 3), (9, 2)]
     ''invalid bucket in small_allocator::bitmap_element_count''"

text \<open>The bitmap at the end of a page, before the byte that holds the bucket.\<close>

definition bitmap_bytes :: "nat \<Rightarrow> nat" where
  "bitmap_bytes count = (count + 7) div 8"

definition page_bitmap :: "u64 \<Rightarrow> nat \<Rightarrow> u64" where
  "page_bitmap page count = page + page_size - 1 - of_nat (bitmap_bytes count)"

definition hbit :: "bytes \<Rightarrow> u64 \<Rightarrow> nat \<Rightarrow> bool" where
  "hbit m base i \<longleftrightarrow> bm_test (\<lambda>k. m (base + k)) (of_nat i)"

definition hput :: "bool \<Rightarrow> nat \<Rightarrow> u64 \<Rightarrow> bytes \<Rightarrow> bytes" where
  "hput r i base m =
     (let k = of_nat i div 8 in m(base + k := bm_put r (of_nat i) (\<lambda>k. m (base + k)) k))"

text \<open>The loop of \<open>malloc\<close> over the bits: the first free index, which it marks, and the number of free
  indices.\<close>

fun bitmap_scan :: "u64 \<Rightarrow> nat list \<Rightarrow> nat option \<Rightarrow> nat \<Rightarrow> bytes \<Rightarrow> nat option \<times> nat \<times> bytes" where
  "bitmap_scan base [] result n m = (result, n, m)"
| "bitmap_scan base (i # is) result n m =
     (if \<not> hbit m base i
      then if result = None then bitmap_scan base is (Some i) (n + 1) (hput True i base m)
           else bitmap_scan base is result (n + 1) m
      else bitmap_scan base is result n m)"

text \<open>A page for a bucket without free pages: its last byte is the bucket.\<close>

definition small_refill :: "'p page_alloc \<Rightarrow> nat \<Rightarrow> 'p heap_state \<Rightarrow> 'p heap_state res option" where
  "small_refill alloc bucket h =
     (if list_is_empty (free_list h bucket)
      then bindo (small_allocate_page alloc h) (\<lambda>(page, h1).
             let m = (memset page 0 4096 (hmem h1))(page + page_size - 1 := of_nat bucket)
             in list_push alloc bucket page (h1\<lparr>hmem := m\<rparr>))
      else Some (Ret h))"

definition small_take :: "(u64 \<Rightarrow> 'p \<Rightarrow> 'p res) \<Rightarrow> nat \<Rightarrow> u64 \<Rightarrow> 'p heap_state \<Rightarrow> (u64 \<times> 'p heap_state) res" where
  "small_take dealloc bucket prefSize h =
     (let page = list_peek (free_list h bucket)
      in if page = 0 then Stop Undef
         else bindr (get_bitmap_element_count bucket) (\<lambda>count.
           case bitmap_scan (page_bitmap page count) [0..<count] None 0 (hmem h) of
             (None, _, _) \<Rightarrow> Stop (Panic ''invalid bitmap in small_allocator::malloc'')
           | (Some result, n, m) \<Rightarrow>
               bindr (if n = 1 then list_remove dealloc bucket page (h\<lparr>hmem := m\<rparr>) else Ret (h\<lparr>hmem := m\<rparr>)) (\<lambda>h'.
               Ret (page + of_nat result * prefSize, h'))))"

definition small_malloc ::
    "'p page_alloc \<Rightarrow> (u64 \<Rightarrow> 'p \<Rightarrow> 'p res) \<Rightarrow> u64 \<Rightarrow> 'p heap_state \<Rightarrow> (u64 \<times> 'p heap_state) res option" where
  "small_malloc alloc dealloc sz h =
     (let prefSize = get_pref_size sz
      in if prefSize = 0 then Some (Ret (0, h))
         else case get_bucket prefSize of
                Inl e \<Rightarrow> Some (Stop e)
              | Inr bucket \<Rightarrow> bindo (small_refill alloc bucket h) (\<lambda>h1. Some (small_take dealloc bucket prefSize h1)))"

text \<open>\<open>free\<close>: whether the page was full or empty is found before the bit is cleared.\<close>

definition small_free ::
    "'p page_alloc \<Rightarrow> (u64 \<Rightarrow> 'p \<Rightarrow> 'p res) \<Rightarrow> u64 \<Rightarrow> 'p heap_state \<Rightarrow> 'p heap_state res option" where
  "small_free alloc dealloc ptr h =
     (if ptr = 0 then Some (Ret h)
      else
        let page = page_align ptr;
            off = ptr - page;
            bucket = unat (hmem h (page + page_size - 1))
        in bindo (Some (get_pref_size_from_bucket bucket)) (\<lambda>prefSize.
           bindo (Some (get_bitmap_element_count bucket)) (\<lambda>count.
             let bitmap = page_bitmap page count;
                 index = off div prefSize;
                 page_full = (\<forall>i \<in> set [0..<count]. hbit (hmem h) bitmap i);
                 page_empty = (\<forall>i \<in> set [0..<count]. \<not> hbit (hmem h) bitmap i);
                 h1 = h\<lparr>hmem := hput False (unat index) bitmap (hmem h)\<rparr>
             in if page_empty then Some (small_free_page dealloc page h1)
                else if page_full then list_push alloc bucket page h1
                else Some (Ret h1))))"

definition small_size :: "u64 \<Rightarrow> 'p heap_state \<Rightarrow> u64 res" where
  "small_size ptr h =
     (if ptr = 0 then Ret 0
      else let page = page_align ptr
           in get_pref_size_from_bucket (unat (hmem h (page + page_size - 1))))"

section \<open>Bits in heap memory\<close>

lemma hput_bits: "(\<lambda>k. hput r i base m (base + k)) = bm_put r (of_nat i) (\<lambda>k. m (base + k))"
proof
  fix k :: u64
  show "hput r i base m (base + k) = bm_put r (of_nat i) (\<lambda>k. m (base + k)) k"
    by (cases "k = of_nat i div 8") (simp_all add: hput_def Let_def bm_put_other)
qed

lemma hbit_hput:
  assumes "i < 2 ^ 64" "j < 2 ^ 64"
  shows "hbit (hput r i base m) base j \<longleftrightarrow> (if i = j then r else hbit m base j)"
proof -
  have "(of_nat i :: u64) = of_nat j \<longleftrightarrow> i = j"
    using assms unat_of_nat_u64 by metis
  then show ?thesis by (simp add: hbit_def hput_bits)
qed

lemma hput_elsewhere: "a \<noteq> base + of_nat i div 8 \<Longrightarrow> hput r i base m a = m a"
  by (simp add: hput_def Let_def)

section \<open>Size classes\<close>

definition size_class :: "nat \<Rightarrow> u64 \<Rightarrow> nat \<Rightarrow> bool" where
  "size_class b p c \<longleftrightarrow> get_pref_size_from_bucket b = Ret p \<and> get_bitmap_element_count b = Ret c"

lemma size_classE:
  assumes "size_class b p c"
  shows "(b, p, c) \<in> {(0, 4, 992), (1, 8, 504), (2, 16, 253), (3, 32, 127), (4, 64, 63), (5, 128, 31), (6, 256, 15),
    (7, 512, 7), (8, 1024, 3), (9, 2047, 2)}"
  using assms by (auto simp: size_class_def get_pref_size_from_bucket_def get_bitmap_element_count_def split: if_splits)

lemma size_class_facts:
  assumes "size_class b p c"
  shows "0 < c" "c \<le> 992" "0 < unat p" "c * unat p + bitmap_bytes c + 1 \<le> 4096" "b < 10" "0 < bitmap_bytes c"
    "8 * bitmap_bytes c \<ge> c"
  using size_classE[OF assms] by (elim insertE emptyE, simp_all add: bitmap_bytes_def)+

section \<open>The layout of a small-object page\<close>

lemma page_bitmap_unat:
  assumes c: "size_class b p c" and al: "4096 dvd unat page"
  shows "unat (page_bitmap page c) = unat page + 4095 - bitmap_bytes c"
    "unat page + 4096 \<le> 2 ^ 64"
proof -
  obtain q where q: "unat page = 4096 * q" using al by (auto elim: dvdE)
  show b: "unat page + 4096 \<le> 2 ^ 64" using unat_u64[of page] q by simp
  have bb: "bitmap_bytes c < 4096" using size_class_facts(4)[OF c] by simp
  have "unat (page + page_size - 1) = unat page + 4095"
  proof -
    have "page + page_size - 1 = page + 4095" by (simp add: page_size_def)
    also have "unat \<dots> = unat page + 4095" using b by (subst unat_add_u64) simp_all
    finally show ?thesis .
  qed
  then show "unat (page_bitmap page c) = unat page + 4095 - bitmap_bytes c"
    using bb unfolding page_bitmap_def
    by (subst unat_diff_u64) (simp_all add: unat_le_iff unat_of_nat_u64)
qed

text \<open>The bitmap does not reach the byte that holds the bucket.\<close>

lemma bucket_byte_kept:
  assumes c: "size_class b p c" and al: "4096 dvd unat page" and i: "i < c"
  shows "hput r i (page_bitmap page c) m (page + page_size - 1) = m (page + page_size - 1)"
proof (rule hput_elsewhere)
  note u = page_bitmap_unat[OF c al] and f = size_class_facts[OF c]
  have k: "unat ((of_nat i :: u64) div 8) = i div 8"
  proof -
    have "unat (8 :: u64) = 8" by simp
    then show ?thesis using i f(2) by (simp only: unat_div_distrib) (simp add: unat_of_nat_u64)
  qed
  have "i div 8 < bitmap_bytes c" using i f(7) by (simp add: bitmap_bytes_def)
  have bb: "bitmap_bytes c < 4096" using f(4) by linarith
  have lt: "unat (page_bitmap page c) + unat ((of_nat i :: u64) div 8) < 2 ^ 64"
    unfolding u(1) k using u(2) bb \<open>i div 8 < bitmap_bytes c\<close> by linarith
  have "unat (page_bitmap page c + of_nat i div 8) = unat page + 4095 - bitmap_bytes c + i div 8"
    unfolding unat_add_u64[OF lt] u(1) k ..
  moreover have "unat (page + page_size - 1) = unat page + 4095"
    using u(2) by (simp add: page_size_def) (subst unat_add_u64, simp_all)
  ultimately have "unat (page + page_size - 1) \<noteq> unat (page_bitmap page c + of_nat i div 8)"
    using \<open>i div 8 < bitmap_bytes c\<close> bb by linarith
  then show "page + page_size - 1 \<noteq> page_bitmap page c + of_nat i div 8" by metis
qed

lemma bitmap_above:
  assumes c: "size_class b p c" and al: "4096 dvd unat page" and i: "i < c"
  shows "page_bitmap page c \<le> page_bitmap page c + of_nat i div 8"
proof -
  note u = page_bitmap_unat[OF c al] and f = size_class_facts[OF c]
  have "unat (8 :: u64) = 8" by simp
  then have k: "unat ((of_nat i :: u64) div 8) = i div 8"
    using i f(2) by (simp only: unat_div_distrib) (simp add: unat_of_nat_u64)
  have "i div 8 < bitmap_bytes c" using i f(7) by (simp add: bitmap_bytes_def)
  then have "unat (page_bitmap page c) + unat ((of_nat i :: u64) div 8) < 2 ^ 64"
    unfolding u(1) k using u(2) f(4) by linarith
  from unat_add_u64[OF this] show ?thesis by (simp add: unat_le_iff)
qed

section \<open>The scan\<close>

lemma bitmap_scan_done:
  "bitmap_scan base is (Some r) n m = (Some r, n + length (filter (\<lambda>i. \<not> hbit m base i) is), m)"
  by (induction "is" arbitrary: n) auto

lemma bitmap_scan_result:
  assumes "\<forall>i \<in> set is. i < 2 ^ 64" "distinct is"
  shows "bitmap_scan base is None n m =
    (case List.find (\<lambda>i. \<not> hbit m base i) is of
       None \<Rightarrow> (None, n, m)
     | Some i \<Rightarrow> (Some i, n + length (filter (\<lambda>i. \<not> hbit m base i) is), hput True i base m))"
  using assms
proof (induction "is" arbitrary: n)
  case (Cons a xs)
  show ?case
  proof (cases "hbit m base a")
    case True
    with Cons show ?thesis by (simp split: option.splits)
  next
    case False
    have "filter (\<lambda>i. \<not> hbit (hput True a base m) base i) xs = filter (\<lambda>i. \<not> hbit m base i) xs"
      using Cons.prems by (intro filter_cong) (auto simp: hbit_hput)
    then show ?thesis using False by (simp add: bitmap_scan_done)
  qed
qed simp

lemma list_remove_nodes_hmem: "list_remove_nodes dealloc d ns h = Ret (l, h') \<Longrightarrow> hmem h' = hmem h"
proof (induction ns arbitrary: l h h')
  case (Cons n ns)
  then show ?case
    by (auto simp: Let_def bindr_eq_Ret small_free_page_def split: if_splits)
qed simp

lemma list_remove_hmem: "list_remove dealloc b d h = Ret h' \<Longrightarrow> hmem h' = hmem h"
  by (auto simp: list_remove_def bindr_eq_Ret dest!: list_remove_nodes_hmem)

lemma small_take_result:
  assumes c: "size_class b p c" and r: "small_take dealloc b p h = Ret (ptr, h')"
  defines "page \<equiv> list_peek (free_list h b)"
  shows "\<exists>i < c. ptr = page + of_nat i * p \<and> \<not> hbit (hmem h) (page_bitmap page c) i \<and>
    hmem h' = hput True i (page_bitmap page c) (hmem h) \<and>
    ((\<exists>k < c. k \<noteq> i \<and> \<not> hbit (hmem h) (page_bitmap page c) k) \<longrightarrow> free_list h' = free_list h)"
proof -
  let ?bm = "page_bitmap page c" and ?P = "\<lambda>i. \<not> hbit (hmem h) (page_bitmap page c) i"
  have cnt: "get_bitmap_element_count b = Ret c" "c \<le> 992" using c size_class_facts(2)[OF c] by (simp_all add: size_class_def)
  have scan: "bitmap_scan ?bm [0..<c] None 0 (hmem h) = (case List.find ?P [0..<c] of None \<Rightarrow> (None, 0, hmem h)
      | Some i \<Rightarrow> (Some i, length (filter ?P [0..<c]), hput True i ?bm (hmem h)))"
    using bitmap_scan_result[of "[0..<c]" ?bm 0 "hmem h"] cnt(2) by (auto split: option.splits)
  obtain i where i: "List.find ?P [0..<c] = Some i"
    using r unfolding small_take_def Let_def page_def[symmetric] cnt(1) by (cases "List.find ?P [0..<c]") (auto simp: scan split: if_splits)
  have ic: "i < c" "?P i" using i by (auto simp: find_Some_iff)
  have two: "length (filter ?P [0..<c]) \<noteq> 1" if k: "k < c" "k \<noteq> i" "?P k" for k
  proof
    assume "length (filter ?P [0..<c]) = 1"
    moreover have "length (filter ?P [0..<c]) = card {j. j < c \<and> ?P j}"
      using distinct_card[of "filter ?P [0..<c]"] by simp
    ultimately obtain x where "{j. j < c \<and> ?P j} = {x}" by (auto simp: card_1_singleton_iff)
    moreover have "i \<in> {j. j < c \<and> ?P j}" "k \<in> {j. j < c \<and> ?P j}" using ic k by simp_all
    ultimately show False using k(2) by simp
  qed
  show ?thesis
    using r two ic unfolding small_take_def Let_def page_def[symmetric] cnt(1)
    by (auto simp: scan i bindr_eq_Ret dest!: list_remove_hmem split: if_splits intro!: exI[of _ i])
qed

section \<open>Small objects: allocation and release\<close>

lemma size_class_of:
  assumes "unat sz \<le> 2047"
  shows "\<exists>b c. size_class b (get_pref_size sz) c \<and> get_bucket (get_pref_size sz) = Ret b \<and>
    unat sz \<le> unat (get_pref_size sz) \<and> get_pref_size sz \<noteq> 0"
  using assms
  by (auto simp: get_pref_size_def size_class_def get_bucket_def get_pref_size_from_bucket_def get_bitmap_element_count_def unat_le_iff)

lemma get_bucket_class: "get_bucket p = Ret b \<Longrightarrow> get_bitmap_element_count b = Ret c \<Longrightarrow> size_class b p c"
  by (auto simp: size_class_def get_bucket_def get_pref_size_from_bucket_def split: if_splits)

lemma list_peek_nonempty: "list_peek l \<noteq> 0 \<Longrightarrow> \<not> list_is_empty l"
  by (auto simp: list_peek_def list_is_empty_def)

lemma small_malloc_two_free:
  assumes sz: "unat sz \<le> 2047" and b: "get_bucket (get_pref_size sz) = Ret b"
    and c: "get_bitmap_element_count b = Ret c"
    and page: "list_peek (free_list h b) = page" "page \<noteq> 0"
    and free: "i < c" "j < c" "i \<noteq> j" "\<not> hbit (hmem h) (page_bitmap page c) i" "\<not> hbit (hmem h) (page_bitmap page c) j"
  shows "\<exists>k < c. small_malloc alloc dealloc sz h =
      Some (Ret (page + of_nat k * get_pref_size sz, h\<lparr>hmem := hput True k (page_bitmap page c) (hmem h)\<rparr>)) \<and>
    \<not> hbit (hmem h) (page_bitmap page c) k"
proof -
  let ?bm = "page_bitmap page c" and ?P = "\<lambda>i. \<not> hbit (hmem h) (page_bitmap page c) i"
  let ?p = "get_pref_size sz"
  have cl: "size_class b ?p c" using b c by (rule get_bucket_class)
  have p0: "?p \<noteq> 0" using size_class_facts(3)[OF cl] by (auto simp: unat_gt_0)
  have "c \<le> 992" using size_class_facts(2)[OF cl] .
  then have scan: "bitmap_scan ?bm [0..<c] None 0 (hmem h) = (case List.find ?P [0..<c] of None \<Rightarrow> (None, 0, hmem h)
      | Some i \<Rightarrow> (Some i, length (filter ?P [0..<c]), hput True i ?bm (hmem h)))"
    using bitmap_scan_result[of "[0..<c]" ?bm 0 "hmem h"] by (auto split: option.splits)
  obtain k where k: "List.find ?P [0..<c] = Some k"
    using free by (cases "List.find ?P [0..<c]") (auto simp: find_None_iff)
  then have kc: "k < c" "?P k" by (auto simp: find_Some_iff)
  have "length (filter ?P [0..<c]) \<noteq> 1"
  proof
    assume "length (filter ?P [0..<c]) = 1"
    moreover have "length (filter ?P [0..<c]) = card {j. j < c \<and> ?P j}"
      using distinct_card[of "filter ?P [0..<c]"] by simp
    ultimately obtain x where "{j. j < c \<and> ?P j} = {x}" by (auto simp: card_1_singleton_iff)
    moreover have "i \<in> {j. j < c \<and> ?P j}" "j \<in> {j. j < c \<and> ?P j}" using free by simp_all
    ultimately show False using free(3) by simp
  qed
  then have "small_take dealloc b ?p h = Ret (page + of_nat k * ?p, h\<lparr>hmem := hput True k ?bm (hmem h)\<rparr>)"
    using page by (simp add: small_take_def c scan k)
  moreover have "small_refill alloc b h = Some (Ret h)"
    using list_peek_nonempty page by (simp add: small_refill_def)
  ultimately have "small_malloc alloc dealloc sz h = Some (Ret (page + of_nat k * ?p, h\<lparr>hmem := hput True k ?bm (hmem h)\<rparr>))"
    using p0 by (simp add: small_malloc_def b)
  with kc show ?thesis by blast
qed

text \<open>The address of object \<open>k\<close> of a page.\<close>

lemma object_addr:
  assumes c: "size_class b p c" and al: "4096 dvd unat page" and k: "k < c"
  shows "unat (page + of_nat k * p) = unat page + k * unat p"
    "unat (page + of_nat k * p) + unat p \<le> unat (page_bitmap page c)"
    "page_align (page + of_nat k * p) = page"
    "unat ((page + of_nat k * p - page) div p) = k"
proof -
  note u = page_bitmap_unat[OF c al] and f = size_class_facts[OF c]
  have "Suc k * unat p \<le> c * unat p" using k by (intro mult_le_mono1) simp
  then have kp: "k * unat p + unat p + bitmap_bytes c + 1 \<le> 4096" using f(4) by simp
  have kk: "unat (of_nat k :: u64) = k" using k f(2) by (intro unat_of_nat_u64) simp
  have m: "unat (of_nat k * p) = k * unat p"
    using kp by (subst unat_mult_u64) (simp_all add: kk)
  show un: "unat (page + of_nat k * p) = unat page + k * unat p"
    using kp u(2) by (subst unat_add_u64) (simp_all add: m)
  show "unat (page + of_nat k * p) + unat p \<le> unat (page_bitmap page c)"
    unfolding un u(1) using kp by linarith
  have "unat (page_align (page + of_nat k * p)) = (unat page + k * unat p) div 4096 * 4096"
    by (simp add: unat_page_align un)
  also have "\<dots> = unat page"
  proof -
    obtain q where q: "unat page = 4096 * q" using al by (auto elim: dvdE)
    have "k * unat p < 4096" using kp by linarith
    then show ?thesis unfolding q by simp
  qed
  finally show "page_align (page + of_nat k * p) = page" by (simp only: word_cong_unat)
  have "page + of_nat k * p - page = of_nat k * p" by simp
  then show "unat ((page + of_nat k * p - page) div p) = k"
    using f(3) by (simp only: unat_div_distrib m) simp
qed

lemma bm_put_restore: "\<not> bm_test b i \<Longrightarrow> bm_put False i (bm_put True i b) = b"
proof
  fix k
  assume "\<not> bm_test b i"
  then show "bm_put False i (bm_put True i b) k = b k"
    by (auto simp: bm_put_def bm_test_bit intro!: bit_word_eqI simp: bit_simps)
qed

lemma hput_restore:
  assumes "\<not> hbit m base i"
  shows "hput False i base (hput True i base m) = m"
proof
  fix a
  have "(\<lambda>k. hput False i base (hput True i base m) (base + k)) = (\<lambda>k. m (base + k))"
    using assms by (simp only: hput_bits hbit_def bm_put_restore not_False_eq_True)
  from fun_cong[OF this, of "a - base"] show "hput False i base (hput True i base m) a = m a" by simp
qed

text \<open>Releasing an object of a page that is neither empty nor full only clears its bit.\<close>

lemma small_free_partial:
  assumes c: "size_class b p c" and al: "4096 dvd unat page" and page: "page \<noteq> 0" and k: "k < c"
    and bucket: "unat (hmem h (page + page_size - 1)) = b"
    and set: "hbit (hmem h) (page_bitmap page c) k"
  shows "small_free alloc dealloc (page + of_nat k * p) h =
    (let h1 = h\<lparr>hmem := hput False k (page_bitmap page c) (hmem h)\<rparr>
     in if \<forall>i < c. hbit (hmem h) (page_bitmap page c) i then list_push alloc b page h1 else Some (Ret h1))"
proof -
  note o = object_addr[OF c al k]
  have "unat page \<noteq> 0" using page by (simp add: unat_eq_0)
  then have "page + of_nat k * p \<noteq> 0" using o(1) by auto
  moreover have "get_pref_size_from_bucket b = Ret p" "get_bitmap_element_count b = Ret c"
    using c by (simp_all add: size_class_def)
  moreover have "\<not> (\<forall>i \<in> set [0..<c]. \<not> hbit (hmem h) (page_bitmap page c) i)"
    using set k by auto
  ultimately show ?thesis
    unfolding small_free_def Let_def o(3) bucket by (simp only: bindo_simps o(4) if_False) (simp add: atLeast0LessThan lessThan_def)
qed

lemma malloc_free_restores:
  assumes c: "size_class b p c" and al: "4096 dvd unat page" and page: "page \<noteq> 0" and k: "k < c"
    and bucket: "unat (hmem h (page + page_size - 1)) = b"
    and un: "\<not> hbit (hmem h) (page_bitmap page c) k"
    and free: "j < c" "j \<noteq> k" "\<not> hbit (hmem h) (page_bitmap page c) j"
  shows "small_free alloc dealloc (page + of_nat k * p) (h\<lparr>hmem := hput True k (page_bitmap page c) (hmem h)\<rparr>) = Some (Ret h)"
proof -
  let ?h = "h\<lparr>hmem := hput True k (page_bitmap page c) (hmem h)\<rparr>"
  have lt: "k < 2 ^ 64" "j < 2 ^ 64" using k free(1) size_class_facts(2)[OF c] by simp_all
  have bits: "hbit (hmem ?h) (page_bitmap page c) k" "\<not> hbit (hmem ?h) (page_bitmap page c) j"
    using lt free by (simp_all add: hbit_hput)
  have "unat (hmem ?h (page + page_size - 1)) = b"
    using bucket_byte_kept[OF c al k, of True "hmem h"] bucket by simp
  from small_free_partial[OF c al page k this bits(1), of alloc dealloc] show ?thesis
    using bits(2) free(1) hput_restore[OF un] by auto
qed


section \<open>The page allocator\<close>

lemma pa_scan_mem: "pa_scan es is em = (x, y) \<Longrightarrow> (\<forall>i. x = Some i \<longrightarrow> i \<in> set is) \<and> (\<forall>i. y = Some i \<longrightarrow> em = Some i \<or> i \<in> set is)"
  by (induction es "is" em rule: pa_scan.induct) (auto split: if_splits)

lemma pa_target_mem: "pa_target alloc table is s = Some (Ret (Some i, s')) \<Longrightarrow> i \<in> set is"
  by (auto simp: pa_target_def bindo_eq_Ret Let_def dest!: pa_scan_mem split: prod.splits option.splits)

lemma malloc_traverse_fields:
  assumes "malloc_traverse alloc is m table res s = Some (Ret (r, s'))" "r \<noteq> 0" "lo + n \<le> 12 \<or> 12 + 9 * m \<le> lo"
  shows "fld lo n r = fld lo n res"
  using assms
proof (induction m arbitrary: table res s s')
  case (Suc k)
  show ?case
  proof (cases "k = 0")
    case True
    with Suc.prems show ?thesis
      by (auto simp: bindo_eq_Ret Let_def set_level_offset_def fld_set_fld_other split: option.splits)
  next
    case False
    with Suc.prems(1,2) obtain i tb s1 s2 where
      "malloc_traverse alloc is k tb (set_level_offset (Suc k) i res) s1 = Some (Ret (r, s2))"
      by (auto simp: bindo_eq_Ret Let_def split: option.splits)
    from Suc.IH[OF this Suc.prems(2)] Suc.prems(3) show ?thesis
      by (auto simp: set_level_offset_def fld_set_fld_other)
  qed
qed simp

lemma malloc_traverse_top:
  assumes "malloc_traverse alloc is 4 table res s = Some (Ret (r, s'))" "r \<noteq> 0" "\<forall>i \<in> set is. i < 512"
  shows "\<exists>i \<in> set is. fld 39 9 r = of_nat i"
proof -
  have f: "4 = Suc (3 :: nat)" by simp
  from assms(1,2) obtain i tb s0 s1 s2 where i: "pa_target alloc table is s0 = Some (Ret (Some i, s1))" and
    r: "malloc_traverse alloc is 3 tb (set_level_offset 4 i res) s1 = Some (Ret (r, s2))"
    unfolding f malloc_traverse.simps by (auto simp: bindo_eq_Ret Let_def split: option.splits)
  have "i \<in> set is" using i by (rule pa_target_mem)
  moreover have "fld 39 9 r = of_nat i"
  proof -
    have "fld 39 9 r = take_bit 9 (of_nat i)"
      using malloc_traverse_fields[OF r assms(2), of 39 9] by (simp add: set_level_offset_def fld_set_fld_same)
    also have "\<dots> = of_nat i"
    proof -
      have "i < 2 ^ 9" using assms(3) calculation \<open>i \<in> set is\<close> by simp
      then show ?thesis by (simp add: word_cong_unat unsigned_take_bit_eq unat_of_nat_u64 take_bit_nat_eq_self)
    qed
    finally show ?thesis .
  qed
  ultimately show ?thesis by blast
qed

lemma malloc_region:
  assumes r: "malloc_traverse alloc [lo..<hi] 4 table 0 s = Some (Ret (r, s'))" "r \<noteq> 0" and hi: "hi \<le> 512"
  shows "lo * 2 ^ 39 \<le> unat r \<and> unat r < hi * 2 ^ 39 \<and> 4096 dvd unat r"
proof -
  obtain i where i: "lo \<le> i" "i < hi" "fld 39 9 r = of_nat i"
    using malloc_traverse_top[OF r] hi by auto
  have "fld 48 16 r = 0" "fld 0 12 r = 0"
    using malloc_traverse_fields[OF r, of 48 16] malloc_traverse_fields[OF r, of 0 12] by simp_all
  then have z: "unat r div 2 ^ 48 mod 2 ^ 16 = 0" "unat r mod 2 ^ 12 = 0"
    using unat_fld[of 48 16 r] unat_fld[of 0 12 r] by simp_all
  have "unat r < 2 ^ 48"
  proof -
    have "unat r div 2 ^ 48 < 2 ^ 16" using unat_u64[of r] by (simp add: div_less_iff_less_mult)
    then have "unat r div 2 ^ 48 = 0" using z(1) by simp
    then show ?thesis by (simp add: div_eq_0_iff)
  qed
  then have "unat r div 2 ^ 39 < 2 ^ 9" by (simp add: div_less_iff_less_mult)
  moreover have "unat r div 2 ^ 39 mod 2 ^ 9 = i"
    using unat_fld[of 39 9 r] i hi by (simp add: unat_of_nat_u64)
  ultimately have "unat r div 2 ^ 39 = i" by simp
  then have "i * 2 ^ 39 \<le> unat r" "unat r < Suc i * 2 ^ 39"
    by (auto simp: div_nat_eqI)
  moreover have "lo * 2 ^ 39 \<le> i * 2 ^ (39 :: nat)" "Suc i * 2 ^ 39 \<le> hi * 2 ^ (39 :: nat)" using i by (intro mult_le_mono1; simp)+
  ultimately show ?thesis using z(2) by (auto simp: dvd_eq_mod_eq_0)
qed

lemma l4_ranges: "l4_range (Ti 96) (Ti 96 + Ti 10) = [192..<212]" "l4_range (Ti 96 + Ti 10) (Ti 96 + Ti 20) = [212..<232]"
  by (simp_all add: l4_range_def l4_offset_def unat_fld Ti_def Gi_def Mi_def Ki_def)

text \<open>The allocator returns whenever its page source does.\<close>

context page_source begin

lemma pa_target_total:
  assumes s: "ok (pal s)"
  shows "\<exists>i s'. pa_target alloc table is s = Some (Ret (i, s')) \<and> ok (pal s')"
proof -
  obtain p a' where "alloc (pal s) = Some (Ret (p, a'))" "ok a'" using alloc_total[OF s] by blast
  then show ?thesis
    using s by (cases "pa_scan (table_words s table) is None"; cases "fst (pa_scan (table_words s table) is None)";
        cases "snd (pa_scan (table_words s table) is None)"; cases p) (auto simp: pa_target_def Let_def)
qed

lemma malloc_traverse_total:
  assumes s: "ok (pal s)" and m: "0 < m"
  shows "\<exists>r s'. malloc_traverse alloc is m table res s = Some (Ret (r, s')) \<and> ok (pal s')"
  using s m
proof (induction m arbitrary: table res s)
  case (Suc k)
  obtain t s1 where t: "pa_target alloc table (if Suc k = 4 then is else [0..<512]) s = Some (Ret (t, s1))" "ok (pal s1)"
    using pa_target_total[OF Suc.prems(1)] by blast
  show ?case
  proof (cases t)
    case None
    then show ?thesis using t by simp
  next
    case (Some i)
    show ?thesis
    proof (cases "k = 0")
      case True
      then show ?thesis using t Some by (simp add: Let_def)
    next
      case False
      obtain r s2 where "malloc_traverse alloc is k (map_tmp (entry_address (read_word s1 (table + 8 * of_nat i))))
          (set_level_offset (Suc k) i res) s1 = Some (Ret (r, s2))" "ok (pal s2)"
        using Suc.IH[OF t(2)] False by blast
      then show ?thesis using t Some False by (simp add: Let_def)
    qed
  qed
qed simp

end

text \<open>Releasing: the frames given to the physical allocator.\<close>

lemma read_write_same: "read_word (write_word a v s) a = v"
  by (simp add: read_word_def write_word_def)

lemma entry_address_0: "entry_address 0 = 0"
  by (simp add: entry_address_def)

lemma get_offset_Some: "1 \<le> k \<Longrightarrow> k \<le> 4 \<Longrightarrow> \<exists>i. get_offset v (of_nat k) = Some i"
  using get_offset_ix by blast

definition log_dealloc :: "u64 \<Rightarrow> u64 list \<Rightarrow> u64 list res" where
  "log_dealloc a l = Ret (l @ [a])"

lemma log_def: "log_dealloc a l = Ret (l @ [a])"
  by (simp add: log_dealloc_def)

lemma free_traverse_log:
  assumes "0 < m" "m \<le> 4"
  shows "\<exists>s' n. free_traverse log_dealloc m table v s = Ret s' \<and> pal s' = pal s @ replicate (Suc n) 0"
  using assms
proof (induction m arbitrary: table s)
  case (Suc k)
  show ?case
  proof (cases "k = 0")
    case True
    then show ?thesis
      by (auto simp: Let_def log_def read_write_same entry_address_0 intro!: exI[of _ 0])
  next
    case False
    obtain off where off: "get_offset v (of_nat (Suc k)) = Some off"
      using get_offset_Some[of "Suc k" v] Suc.prems by auto
    obtain s1 n where s1: "free_traverse log_dealloc k (map_tmp (entry_address (read_word s (table + 8 * off)))) v s = Ret s1"
      "pal s1 = pal s @ replicate (Suc n) 0" using Suc.IH False Suc.prems(2) by (metis Suc_leD neq0_conv)
    let ?entry = "table + 8 * off"
    show ?thesis
    proof (cases "table_empty s1 (map_tmp (entry_address (read_word s1 ?entry)))")
      case True
      let ?s = "(write_word ?entry 0 s1)\<lparr>pal := pal s1 @ [0]\<rparr>"
      have "free_traverse log_dealloc (Suc k) table v s = Ret ?s"
        using s1 off False True by (simp add: Let_def log_def read_write_same entry_address_0)
      moreover have "pal ?s = pal s @ replicate (Suc (Suc n)) 0"
        using s1(2) by (simp add: replicate_append_same)
      ultimately show ?thesis by blast
    next
      case empty: False
      then show ?thesis
        using s1 off False by (cases "table_full s1 (map_tmp (entry_address (read_word s1 ?entry)))") (auto simp: Let_def)
    qed
  qed
qed simp

section \<open>Properties\<close>

text \<open>The size classes of the small allocator fit: every request of at most 2047 bytes gets the
  smallest class that holds it, the class's bucket gives the class back, and that many objects, their
  bitmap and the bucket byte fit into a page; a larger request gets no class.\<close>

theorem size_classes_fit:
  assumes "sz \<le> 2047"
  shows "\<exists>b p c. get_pref_size sz = p \<and> get_bucket p = Ret b \<and> get_pref_size_from_bucket b = Ret p \<and>
    get_bitmap_element_count b = Ret c \<and> sz \<le> p \<and> (\<forall>b' p'. get_pref_size_from_bucket b' = Ret p' \<and> sz \<le> p' \<longrightarrow> p \<le> p') \<and>
    c * unat p + bitmap_bytes c + 1 \<le> 4096 \<and> 0 < c \<and> (\<forall>sz' > 2047. get_pref_size sz' = 0)"
proof -
  have "unat sz \<le> 2047" using assms by (simp add: unat_le_iff)
  from size_class_of[OF this] obtain b c where c: "size_class b (get_pref_size sz) c"
    "get_bucket (get_pref_size sz) = Ret b" "unat sz \<le> unat (get_pref_size sz)" "get_pref_size sz \<noteq> 0" by blast
  have "get_pref_size sz \<le> p'" if "get_pref_size_from_bucket b' = Ret p'" "sz \<le> p'" for b' p'
  proof -
    have "p' \<in> {4, 8, 16, 32, 64, 128, 256, 512, 1024, 2047}"
      using that(1) by (auto simp: get_pref_size_from_bucket_def split: if_splits)
    then show ?thesis using that(2) by (elim insertE emptyE) (simp_all add: get_pref_size_def split: if_split)
  qed
  then have "\<forall>b' p'. get_pref_size_from_bucket b' = Ret p' \<and> sz \<le> p' \<longrightarrow> get_pref_size sz \<le> p'" by blast
  moreover have "\<forall>sz' > 2047. get_pref_size sz' = 0" by (auto simp: get_pref_size_def unat_less_iff unat_le_iff)
  ultimately show ?thesis
    using c size_class_facts[OF c(1)] by (intro exI[of _ b] exI[of _ "get_pref_size sz"] exI[of _ c])
      (simp add: size_class_def unat_le_iff)
qed

text \<open>A page at the front of its free list, with two free objects.\<close>

definition listed :: "'p heap_state \<Rightarrow> u64 \<Rightarrow> nat \<Rightarrow> nat \<Rightarrow> u64 \<Rightarrow> bool" where
  "listed h sz b c page \<longleftrightarrow>
     sz \<le> 2047 \<and> get_bucket (get_pref_size sz) = Ret b \<and> get_bitmap_element_count b = Ret c \<and>
     list_peek (free_list h b) = page \<and> page \<noteq> 0 \<and> 4096 dvd unat page \<and>
     unat (hmem h (page + page_size - 1)) = b"

lemma listed_take:
  assumes l: "listed h sz b c page"
    and two: "i < c" "j < c" "i \<noteq> j" "\<not> hbit (hmem h) (page_bitmap page c) i" "\<not> hbit (hmem h) (page_bitmap page c) j"
  obtains k where "k < c" "\<not> hbit (hmem h) (page_bitmap page c) k" "size_class b (get_pref_size sz) c"
    "small_malloc alloc dealloc sz h =
       Some (Ret (page + of_nat k * get_pref_size sz, h\<lparr>hmem := hput True k (page_bitmap page c) (hmem h)\<rparr>))"
proof -
  have "unat sz \<le> 2047" using l by (simp add: listed_def unat_le_iff)
  then show thesis
    using small_malloc_two_free[of sz b c h page i j alloc dealloc] two l that by (auto simp: listed_def get_bucket_class)
qed


text \<open>C9. Freeing a small object undoes its allocation: from a listed page with two free objects, the
  allocation returns a pointer whose recorded size is the class size, and freeing it gives the state
  before the allocation back.\<close>

theorem small_malloc_free_restores:
  assumes "listed h sz b c page"
    and "i < c" "j < c" "i \<noteq> j" "\<not> hbit (hmem h) (page_bitmap page c) i" "\<not> hbit (hmem h) (page_bitmap page c) j"
  shows "\<exists>ptr h'. small_malloc alloc dealloc sz h = Some (Ret (ptr, h')) \<and>
    small_size ptr h' = Ret (get_pref_size sz) \<and> small_free alloc dealloc ptr h' = Some (Ret h)"
proof (rule listed_take[OF assms, of alloc dealloc])
  let ?bm = "page_bitmap page c"
  fix k assume k: "k < c" "\<not> hbit (hmem h) ?bm k" "size_class b (get_pref_size sz) c" and
    r: "small_malloc alloc dealloc sz h = Some (Ret (page + of_nat k * get_pref_size sz, h\<lparr>hmem := hput True k ?bm (hmem h)\<rparr>))"
  have l: "4096 dvd unat page" "page \<noteq> 0" "unat (hmem h (page + page_size - 1)) = b" using assms(1) by (simp_all add: listed_def)
  obtain x where x: "x < c" "x \<noteq> k" "\<not> hbit (hmem h) ?bm x" using assms by metis
  note o = object_addr[OF k(3) l(1) k(1)]
  have "unat page \<noteq> 0" using l(2) by (simp add: unat_eq_0)
  then have "page + of_nat k * get_pref_size sz \<noteq> 0" using o(1) by auto
  then have "small_size (page + of_nat k * get_pref_size sz) (h\<lparr>hmem := hput True k ?bm (hmem h)\<rparr>) = Ret (get_pref_size sz)"
    using bucket_byte_kept[OF k(3) l(1) k(1), of True "hmem h"] l(3) k(3)
    by (simp add: small_size_def Let_def o(3) size_class_def)
  with r malloc_free_restores[OF k(3) l(1,2) k(1) l(3) k(2) x] show ?thesis by blast
qed

text \<open>The page allocator always returns when it draws frames from the physical allocator, and what
  it returns is null, for more than a page or without frames or free entries, or a page-aligned
  address from 96 Ti to below 106 Ti.\<close>

theorem page_malloc_region:
  assumes "phys_ok (pal s)"
  shows "\<exists>r s'. page_malloc (phys_alloc 1) sz s = Some (Ret (r, s')) \<and>
    (r = 0 \<or> sz \<le> page_size \<and> Ti 96 \<le> r \<and> r < Ti 96 + Ti 10 \<and> 4096 dvd unat r)"
proof (cases "sz > page_size")
  case False
  obtain r s' where r: "malloc_traverse (phys_alloc 1) [192..<212] 4 (map_tmp (cr3 s)) 0 s = Some (Ret (r, s'))"
    using phys.malloc_traverse_total[OF assms, of 4 "[192..<212]" "map_tmp (cr3 s)" 0] by (auto simp del: upt_Suc upt_rec_numeral)
  have t: "unat (Ti 96) = 192 * 2 ^ 39" "unat (Ti 96 + Ti 10) = 212 * 2 ^ 39"
    by (simp_all add: Ti_def Gi_def Mi_def Ki_def)
  from r malloc_region[OF r] False show ?thesis
    by (cases "r = 0") (auto simp: page_malloc_def l4_ranges not_less unat_le_iff[of "Ti 96"] unat_less_iff[of r] t)
qed (simp add: page_malloc_def)

text \<open>Freeing a page never gives its frame back: \<open>page_free\<close> clears the entry before it reads the
  address from it, so every frame it hands to the physical allocator is frame 0.\<close>

theorem page_free_releases_frame_zero:
  assumes "ptr \<noteq> 0"
  shows "\<exists>s' n. page_free log_dealloc ptr s = Ret s' \<and> pal s' = pal s @ replicate (Suc n) 0"
  using assms free_traverse_log[of 4 "map_tmp (cr3 s)" ptr s] by (simp add: page_free_def)

section \<open>Witnesses\<close>

definition demo_heap :: "phys_state heap_state" where
  "demo_heap = \<lparr>pt = demo_pt, hmem = (\<lambda>_. 0)(0x6A0000000FFF := 8),
     free_list = (\<lambda>_. [])(8 := [\<lparr>node_page = 0x6A0000001000, elements = 0x6A0000000000 # replicate 510 0\<rparr>])\<rparr>"

lemma demo_listed:
  "listed demo_heap 1000 8 3 0x6A0000000000"
  "\<not> hbit (hmem demo_heap) (page_bitmap 0x6A0000000000 3) 0" "\<not> hbit (hmem demo_heap) (page_bitmap 0x6A0000000000 3) 1"
  by (simp_all add: listed_def demo_heap_def get_bucket_def get_pref_size_def get_bitmap_element_count_def list_peek_def
      page_size_def hbit_def bm_test_def page_bitmap_def bitmap_bytes_def)

lemma size_classes_fit_witness:
  "\<exists>b p c. get_pref_size 100 = p \<and> get_bucket p = Ret b \<and> get_pref_size_from_bucket b = Ret p \<and>
    get_bitmap_element_count b = Ret c \<and> 100 \<le> p \<and> (\<forall>b' p'. get_pref_size_from_bucket b' = Ret p' \<and> 100 \<le> p' \<longrightarrow> p \<le> p') \<and>
    c * unat p + bitmap_bytes c + 1 \<le> 4096 \<and> 0 < c \<and> (\<forall>sz' > 2047. get_pref_size sz' = 0)"
  by (rule size_classes_fit) simp


lemma small_malloc_free_restores_witness:
  "\<exists>ptr h'. small_malloc (phys_alloc 1) (\<lambda>a. phys_free a 1) 1000 demo_heap = Some (Ret (ptr, h')) \<and>
    small_size ptr h' = Ret (get_pref_size 1000) \<and> small_free (phys_alloc 1) (\<lambda>a. phys_free a 1) ptr h' = Some (Ret demo_heap)"
  by (rule small_malloc_free_restores[OF demo_listed(1) _ _ _ demo_listed(2,3)]) simp_all

lemma demo_pal_ok: "phys_ok (pal demo_pt)"
  using demo_pt_inv by (simp add: pt_inv_def)

lemma page_malloc_region_witness:
  "\<exists>r s'. page_malloc (phys_alloc 1) 4096 demo_pt = Some (Ret (r, s')) \<and>
    (r = 0 \<or> 4096 \<le> page_size \<and> Ti 96 \<le> r \<and> r < Ti 96 + Ti 10 \<and> 4096 dvd unat r)"
  by (rule page_malloc_region[OF demo_pal_ok])

lemma page_free_releases_frame_zero_witness:
  "\<exists>s' n. page_free log_dealloc (Ti 96) \<lparr>cr3 = 0x1000, map_physical_high = True, pmem = (\<lambda>_. 0), pal = []\<rparr> = Ret s' \<and>
    pal s' = [] @ replicate (Suc n) 0"
  using page_free_releases_frame_zero[of "Ti 96" "\<lparr>cr3 = 0x1000, map_physical_high = True, pmem = (\<lambda>_. 0), pal = []\<rparr>"]
  by (simp add: Ti_values)

end
