(* ===== verification/BTree.thy ===== *)
theory BTree
  imports Prelude "HOL-Library.Multiset"
begin

text \<open>
  \<^verbatim>\<open>include/data/btree.h\<close>: the B-tree and the map on it.  A node keeps its two arrays, of \<open>2 * M - 1\<close>
  elements and \<open>2 * M\<close> children, and the number of elements in use, as the code has them; since a node is
  owned by its parent alone, a tree is a value.  Elements compare by a key: the element itself in
  \<open>btree\<close>, the first component in \<open>btree_map\<close>.  \<open>d\<close> is the default element \<open>T{}\<close>.
\<close>

section \<open>Nodes\<close>

datatype 'a btree_node =
    Null
  | Node (ndata: "'a list") (nchildren: "'a btree_node list") (nsize: nat)

record 'a btree =
  m_root :: "'a btree_node"
  m_size :: int

fun height :: "'a btree_node \<Rightarrow> nat" where
  "height Null = 0"
| "height (Node dat chi n) = Suc (foldr max (map height chi) 0)"

lemma height_child: "c \<in> set chi \<Longrightarrow> height c < height (Node dat chi n)"
proof -
  have "c \<in> set chi \<Longrightarrow> height c \<le> foldr max (map height chi) 0" for c :: "'a btree_node"
    by (induction chi) (auto simp: le_max_iff_disj)
  then show "c \<in> set chi \<Longrightarrow> height c < height (Node dat chi n)" by (simp add: less_Suc_eq_le)
qed

lemma height_le: "\<forall>c \<in> set chi. height c \<le> h \<Longrightarrow> height (Node dat chi n) \<le> Suc h"
proof -
  have "\<forall>c \<in> set chi. height c \<le> h \<Longrightarrow> foldr max (map height chi) 0 \<le> h" by (induction chi) auto
  then show "\<forall>c \<in> set chi. height c \<le> h \<Longrightarrow> height (Node dat chi n) \<le> Suc h" by simp
qed

section \<open>Reading\<close>

text \<open>\<open>find_offset\<close>: the loop \<open>while (offset < size && data[offset] < value) offset++\<close>.\<close>

definition find_offset :: "('a \<Rightarrow> 'k::linorder) \<Rightarrow> 'a list \<Rightarrow> nat \<Rightarrow> 'a \<Rightarrow> nat" where
  "find_offset key dat n v = length (takeWhile (\<lambda>x. key x < key v) (take n dat))"

function find_node :: "('a \<Rightarrow> 'k::linorder) \<Rightarrow> 'a \<Rightarrow> 'a btree_node \<Rightarrow> 'a option res" where
  "find_node key cmp Null = Ret None"
| "find_node key cmp (Node dat chi n) =
     (let off = find_offset key dat n cmp
      in if off < n \<and> key (dat ! off) = key cmp then Ret (Some (dat ! off))
         else if off < length chi then find_node key cmp (chi ! off)
         else Stop Undef)"
  by pat_completeness auto
termination by (relation "measure (\<lambda>(key, cmp, t). height t)") (auto simp del: height.simps intro: height_child)

definition btree_find :: "('a \<Rightarrow> 'k::linorder) \<Rightarrow> 'a \<Rightarrow> 'a btree \<Rightarrow> 'a option res" where
  "btree_find key cmp t = find_node key cmp (m_root t)"

text \<open>\<open>iter_impl\<close> with a callable that acts on a state and returns whether to go on; \<open>iter_loop\<close> is its
  loop over the elements, each after the child before it, and the last child.\<close>

fun iter_loop :: "('a \<Rightarrow> 's \<Rightarrow> bool \<times> 's) \<Rightarrow> ('s \<Rightarrow> 's) list \<Rightarrow> 'a list \<Rightarrow> nat \<Rightarrow> 's \<Rightarrow> 's" where
  "iter_loop f (v # vs) ks 0 s = v s"
| "iter_loop f (v # vs) (k # ks) (Suc n) s = (let (b, s') = f k (v s) in if b then iter_loop f vs ks n s' else s')"
| "iter_loop f _ _ _ s = s"

fun iter_impl :: "('a \<Rightarrow> 's \<Rightarrow> bool \<times> 's) \<Rightarrow> 'a btree_node \<Rightarrow> 's \<Rightarrow> 's" where
  "iter_impl f Null s = s"
| "iter_impl f (Node dat chi n) s = iter_loop f (map (iter_impl f) chi) dat n s"

definition iterate :: "('a \<Rightarrow> 's \<Rightarrow> bool \<times> 's) \<Rightarrow> 'a btree \<Rightarrow> 's \<Rightarrow> 's" where
  "iterate f t s = iter_impl f (m_root t) s"

section \<open>Insertion\<close>

text \<open>The loop \<open>while (i > 0 && data[i - 1] > cmp) i--\<close>.\<close>

fun ins_pos :: "('a \<Rightarrow> 'k::linorder) \<Rightarrow> 'a list \<Rightarrow> 'a \<Rightarrow> nat \<Rightarrow> nat" where
  "ins_pos key dat cmp 0 = 0"
| "ins_pos key dat cmp (Suc i) = (if key (dat ! i) > key cmp then ins_pos key dat cmp i else Suc i)"

text \<open>The leaf loop, which also moves the elements from \<open>i\<close> to \<open>n\<close> up by one.\<close>

definition shift_in :: "nat \<Rightarrow> nat \<Rightarrow> 'a \<Rightarrow> 'a list \<Rightarrow> 'a list" where
  "shift_in i n v xs = take i xs @ [v] @ drop i (take n xs) @ drop (Suc n) xs"

definition split_left :: "nat \<Rightarrow> 'a \<Rightarrow> 'a list \<Rightarrow> 'a btree_node list \<Rightarrow> 'a btree_node" where
  "split_left M d dat chi = Node (take (M - 1) dat @ replicate M d)
     (if chi ! 0 \<noteq> Null then take M chi @ replicate M Null else chi) (M - 1)"

definition split_right :: "nat \<Rightarrow> 'a \<Rightarrow> 'a list \<Rightarrow> 'a btree_node list \<Rightarrow> 'a btree_node" where
  "split_right M d dat chi = Node (drop M dat @ replicate M d)
     (if chi ! 0 \<noteq> Null then drop M chi @ replicate M Null else replicate (2 * M) Null) (M - 1)"

text \<open>\<open>split_child\<close>: the children from \<open>i + 1\<close> on move up, the elements do not.\<close>

fun split_child :: "nat \<Rightarrow> 'a \<Rightarrow> nat \<Rightarrow> 'a btree_node \<Rightarrow> 'a btree_node res" where
  "split_child M d i Null = Stop Undef"
| "split_child M d i (Node dat chi n) =
     (if n < 2 * M - 1 \<and> i < length chi then
        case chi ! i of
          Null \<Rightarrow> Stop Undef
        | Node ld lc ln \<Rightarrow>
            Ret (Node (dat[i := ld ! (M - 1)])
              (take i chi @ [split_left M d ld lc, split_right M d ld lc] @ drop (Suc i) (take (Suc n) chi) @ drop (n + 2) chi)
              (Suc n))
      else Stop Undef)"

lemma height_split: "height (split_left M d ld lc) \<le> height (Node ld lc ln)" "height (split_right M d ld lc) \<le> height (Node ld lc ln)"
proof -
  have "\<forall>c \<in> set cs. height c \<le> foldr max (map height lc) 0" if "set cs \<subseteq> insert Null (set lc)" for cs :: "'a btree_node list"
  proof
    fix c assume "c \<in> set cs"
    then have "c = Null \<or> c \<in> set lc" using that by blast
    then show "height c \<le> foldr max (map height lc) 0"
      using height_child[of c lc ld ln] by (auto simp: less_Suc_eq_le)
  qed
  then have h: "set cs \<subseteq> insert Null (set lc) \<Longrightarrow> height (Node xs cs k) \<le> height (Node ld lc ln)" for xs cs k
    using height_le by (metis height.simps(2))
  show "height (split_left M d ld lc) \<le> height (Node ld lc ln)"
    unfolding split_left_def by (rule h) (auto dest: in_set_takeD)
  show "height (split_right M d ld lc) \<le> height (Node ld lc ln)"
    unfolding split_right_def by (rule h) (auto dest: in_set_dropD)
qed

lemma split_child_height:
  assumes "split_child M d i x = Ret (Node dat' chi' n')" "c \<in> set chi'"
  shows "height c < height x"
proof (cases x)
  case (Node dat chi n)
  with assms(1) obtain ld lc ln where s: "i < length chi" "chi ! i = Node ld lc ln" and
    chi': "chi' = take i chi @ [split_left M d ld lc, split_right M d ld lc] @ drop (Suc i) (take (Suc n) chi) @ drop (n + 2) chi"
    by (auto split: if_splits btree_node.splits)
  have "Node ld lc ln \<in> set chi" using s by (metis nth_mem)
  then have h: "height (Node ld lc ln) < height x" unfolding Node by (rule height_child)
  from assms(2) have "c \<in> set chi \<or> c = split_left M d ld lc \<or> c = split_right M d ld lc"
    unfolding chi' by (auto dest: in_set_takeD in_set_dropD)
  then show ?thesis
    using h height_split[of M d ld lc ln] height_child[of c chi dat n] unfolding Node by (auto simp del: height.simps)
qed (use assms in simp)

text \<open>\<open>insert_non_full\<close>.  After a split it compares with \<open>data[i - 1]\<close>, which for \<open>i = 0\<close> is outside the
  array.\<close>

function insert_non_full :: "('a \<Rightarrow> 'k::linorder) \<Rightarrow> nat \<Rightarrow> 'a \<Rightarrow> 'a \<Rightarrow> 'a btree_node \<Rightarrow> 'a btree_node res" where
  "insert_non_full key M d cmp Null = Stop Undef"
| "insert_non_full key M d cmp (Node dat chi n) =
     (let i = ins_pos key dat cmp n
      in if chi = [] then Stop Undef
         else if chi ! 0 = Null then
           if n < 2 * M - 1 then Ret (Node (shift_in i n cmp dat) chi (Suc n)) else Stop Undef
         else if i < length chi then
           if nsize (chi ! i) = 2 * M - 1 \<and> chi ! i \<noteq> Null then
             case split_child M d i (Node dat chi n) of
               Inl e \<Rightarrow> Stop e
             | Inr Null \<Rightarrow> Stop Undef
             | Inr (Node dat' chi' n') \<Rightarrow>
                 if i = 0 then Stop Undef
                 else
                   let i' = if key (dat' ! (i - 1)) < key cmp then Suc i else i
                   in if i' < length chi' then
                        case insert_non_full key M d cmp (chi' ! i') of
                          Inl e \<Rightarrow> Stop e
                        | Inr c \<Rightarrow> Ret (Node dat' (chi'[i' := c]) n')
                      else Stop Undef
           else
             case insert_non_full key M d cmp (chi ! i) of
               Inl e \<Rightarrow> Stop e
             | Inr c \<Rightarrow> Ret (Node dat (chi[i := c]) n)
         else Stop Undef)"
  by pat_completeness auto
termination
proof (relation "measure (\<lambda>(key, M, d, cmp, t). height t)", goal_cases)
  case (2 key M d cmp dat chi n i x2 dat' chi' n' i')
  then have "chi' ! i' \<in> set chi'" by simp
  with 2 show ?case by (auto simp del: height.simps split_child.simps intro: split_child_height)
qed (auto simp del: height.simps intro!: height_child dest: nth_mem)

definition new_node :: "nat \<Rightarrow> 'a \<Rightarrow> 'a btree_node" where
  "new_node M d = Node (replicate (2 * M - 1) d) (replicate (2 * M) Null) 0"

definition btree_insert :: "('a \<Rightarrow> 'k::linorder) \<Rightarrow> nat \<Rightarrow> 'a \<Rightarrow> 'a \<Rightarrow> 'a btree \<Rightarrow> 'a btree res" where
  "btree_insert key M d cmp t =
     bindr (case m_root t of
              Null \<Rightarrow> Ret (Node ((replicate (2 * M - 1) d)[0 := cmp]) (replicate (2 * M) Null) 1)
            | Node dat chi n \<Rightarrow>
                if n = 2 * M - 1
                then bindr (split_child M d 0 (Node (replicate (2 * M - 1) d) ((replicate (2 * M) Null)[0 := Node dat chi n]) 0))
                       (insert_non_full key M d cmp)
                else insert_non_full key M d cmp (Node dat chi n))
       (\<lambda>r. Ret (t\<lparr>m_root := r, m_size := m_size t + 1\<rparr>))"

section \<open>Removal\<close>

text \<open>The size of the node behind a pointer.\<close>

fun node_size :: "'a btree_node \<Rightarrow> nat res" where
  "node_size Null = Stop Undef"
| "node_size (Node dat chi n) = Ret n"

text \<open>Taking the element at index \<open>i\<close> out of an array whose first \<open>n\<close> elements are in use.\<close>

definition take_out :: "nat \<Rightarrow> nat \<Rightarrow> 'a \<Rightarrow> 'a list \<Rightarrow> 'a list" where
  "take_out i n d xs = take i xs @ drop (Suc i) (take n xs) @ [d] @ drop n xs"

definition leaf_remove :: "('a \<Rightarrow> 'k::linorder) \<Rightarrow> 'a \<Rightarrow> 'a \<Rightarrow> 'a list \<Rightarrow> nat \<Rightarrow> 'a list option" where
  "leaf_remove key d cmp dat n =
     (let i = index_of (\<lambda>x. key x = key cmp) (take n dat)
      in if i < length (take n dat) then Some (take_out i n d dat) else None)"

text \<open>\<open>shift_key_to_sibling\<close>, to the left and to the right.\<close>

fun shift_key_left :: "'a \<Rightarrow> nat \<Rightarrow> 'a btree_node \<Rightarrow> 'a btree_node res" where
  "shift_key_left d k Null = Stop Undef"
| "shift_key_left d k (Node pd pc pn) =
     (if 0 < k \<and> k < length pc then
        case (pc ! (k - 1), pc ! k) of
          (Node ld lc ln, Node rd rc rn) \<Rightarrow>
            if ln < length ld \<and> 0 < rn then
              let internal = lc ! 0 \<noteq> Null;
                  left' = Node (ld[ln := pd ! (k - 1)]) (if internal then lc[Suc ln := rc ! 0] else lc) (Suc ln);
                  right' = Node (take_out 0 rn d rd)
                    (if internal then drop 1 (take rn rc) @ [Null] @ drop rn rc else rc) (rn - 1)
              in Ret (Node (pd[k - 1 := rd ! 0]) (pc[k - 1 := left', k := right']) pn)
            else Stop Undef
        | _ \<Rightarrow> Stop Undef
      else Stop Undef)"

fun shift_key_right :: "'a \<Rightarrow> nat \<Rightarrow> 'a btree_node \<Rightarrow> 'a btree_node res" where
  "shift_key_right d k Null = Stop Undef"
| "shift_key_right d k (Node pd pc pn) =
     (if 0 < k \<and> k < length pc then
        case (pc ! (k - 1), pc ! k) of
          (Node ld lc ln, Node rd rc rn) \<Rightarrow>
            if rn < length rd \<and> 0 < ln then
              let internal = lc ! 0 \<noteq> Null;
                  left' = Node (ld[ln - 1 := d]) (if internal then lc[ln - 1 := Null] else lc) (ln - 1);
                  right' = Node (shift_in 0 rn (pd ! (k - 1)) rd)
                    (if internal then shift_in 0 (Suc rn) (lc ! (ln - 1)) rc else rc) (Suc rn)
              in Ret (Node (pd[k - 1 := ld ! (ln - 1)]) (pc[k - 1 := left', k := right']) pn)
            else Stop Undef
        | _ \<Rightarrow> Stop Undef
      else Stop Undef)"

text \<open>\<open>merge_two_siblings\<close> of the children \<open>k - 1\<close> and \<open>k\<close>.\<close>

fun merge_two_siblings :: "nat \<Rightarrow> 'a \<Rightarrow> nat \<Rightarrow> 'a btree_node \<Rightarrow> 'a btree_node res" where
  "merge_two_siblings M d k Null = Stop Undef"
| "merge_two_siblings M d 0 (Node pd pc pn) = Stop Undef"
| "merge_two_siblings M d (Suc k) (Node pd pc pn) =
     (if Suc k < length pc then
        case (pc ! k, pc ! Suc k) of
          (Node d1 c1 n1, Node d2 c2 n2) \<Rightarrow>
            Ret (Node (take_out k pn d pd)
              (take k pc @ [Node (take (M - 1) d1 @ [pd ! k] @ take (M - 1) d2) (take M c1 @ take M c2) (2 * M - 1)]
                @ drop (k + 2) (take (Suc pn) pc) @ [Null] @ drop (Suc pn) pc)
              (pn - 1))
        | _ \<Rightarrow> Stop Undef
      else Stop Undef)"

text \<open>The step of the loop of \<open>remove_impl\<close> before it descends into child \<open>k\<close>: a child with too few
  elements is merged or gets one.\<close>

fun fill_child :: "nat \<Rightarrow> 'a \<Rightarrow> nat \<Rightarrow> 'a btree_node \<Rightarrow> 'a btree_node res" where
  "fill_child M d k Null = Stop Undef"
| "fill_child M d k (Node dat chi n) =
     (if k < length chi then
        bindr (node_size (chi ! k)) (\<lambda>sk.
          if sk = M - 1 then
            if k = n then
              if k = 0 then Stop Undef
              else bindr (node_size (chi ! (k - 1))) (\<lambda>sl.
                if sl = M - 1 then merge_two_siblings M d (k - 1) (Node dat chi n)
                else shift_key_right d k (Node dat chi n))
            else if Suc k < length chi then
              bindr (node_size (chi ! Suc k)) (\<lambda>sr.
                if sr = M - 1 then merge_two_siblings M d (Suc k) (Node dat chi n)
                else shift_key_left d (Suc k) (Node dat chi n))
            else Stop Undef
          else Ret (Node dat chi n))
      else Stop Undef)"

text \<open>The element that the leaf gives up for a \<open>cmp\<close> found in an inner node replaces it there.\<close>

definition settle :: "('a \<Rightarrow> 'k) \<Rightarrow> 'a \<Rightarrow> bool \<Rightarrow> 'a option \<Rightarrow> 'a list \<Rightarrow> nat \<Rightarrow> 'a list \<times> 'a option" where
  "settle key cmp here pending dat n =
     (case pending of
        None \<Rightarrow> (dat, None)
      | Some v \<Rightarrow> if here then (dat[index_of (\<lambda>x. key x = key cmp) (take n dat) := v], None) else (dat, Some v))"

definition holds_key :: "('a \<Rightarrow> 'k) \<Rightarrow> 'a \<Rightarrow> 'a list \<Rightarrow> nat \<Rightarrow> bool" where
  "holds_key key cmp dat n \<longleftrightarrow> (\<exists>x \<in> set (take n dat). key x = key cmp)"

text \<open>The loop \<open>while (true)\<close>, which goes down one level in each step: with as many steps as the tree is
  high it can only run out at a null pointer.  \<open>found\<close> is set when a node above holds \<open>cmp\<close>; the result
  is the node, whether an element was removed, and the element to put in the place of \<open>cmp\<close>.\<close>

fun remove_loop :: "('a \<Rightarrow> 'k::linorder) \<Rightarrow> nat \<Rightarrow> 'a \<Rightarrow> 'a \<Rightarrow> nat \<Rightarrow> bool \<Rightarrow> 'a btree_node \<Rightarrow>
    ('a btree_node \<times> bool \<times> 'a option) res" where
  "remove_loop key M d cmp 0 found p = Stop Undef"
| "remove_loop key M d cmp (Suc l) found Null = Stop Undef"
| "remove_loop key M d cmp (Suc l) found (Node dat chi n) =
     (if chi = [] then Stop Undef
      else if chi ! 0 = Null then
        case leaf_remove key d cmp dat n of
          Some dat' \<Rightarrow> Ret (Node dat' chi (n - 1), True, None)
        | None \<Rightarrow>
            if found then
              if n = 0 then Stop Undef else Ret (Node (dat[n - 1 := d]) chi (n - 1), True, Some (dat ! (n - 1)))
            else Ret (Node dat chi n, False, None)
      else
        bindr (fill_child M d (find_offset key dat n cmp) (Node dat chi n)) (\<lambda>p1. case p1 of
          Null \<Rightarrow> Stop Undef
        | Node dat1 chi1 n1 \<Rightarrow>
            let here = holds_key key cmp dat1 n1;
                k = find_offset key dat1 n1 cmp
            in if k < length chi1 then
                 bindr (remove_loop key M d cmp l (found \<or> here) (chi1 ! k)) (\<lambda>(c, r, pending).
                   let (dat2, pending') = settle key cmp here pending dat1 n1
                   in Ret (Node dat2 (chi1[k := c]) n1, r, pending'))
               else Stop Undef))"

text \<open>A root with one element: its two children are merged into it, or the one to visit gets an element.\<close>

fun merge_root :: "nat \<Rightarrow> 'a \<Rightarrow> 'a btree_node \<Rightarrow> 'a btree_node \<Rightarrow> 'a btree_node res" where
  "merge_root M x (Node d1 c1 n1) (Node d2 c2 n2) =
     Ret (Node (take (M - 1) d1 @ [x] @ take (M - 1) d2) (take M c1 @ take M c2) (2 * M - 1))"
| "merge_root M x _ _ = Stop Undef"

definition remove_below :: "('a \<Rightarrow> 'k::linorder) \<Rightarrow> nat \<Rightarrow> 'a \<Rightarrow> 'a \<Rightarrow> nat \<Rightarrow> nat \<Rightarrow> 'a btree_node \<Rightarrow> ('a btree_node \<times> bool) res" where
  "remove_below key M d cmp l j p = (case p of
     Null \<Rightarrow> Stop Undef
   | Node dat chi n \<Rightarrow>
       let here = key (dat ! 0) = key cmp
       in bindr (remove_loop key M d cmp l here (chi ! j)) (\<lambda>(c, r, pending).
            Ret (Node (fst (settle key cmp here pending dat n)) (chi[j := c]) n, r)))"

definition remove_impl :: "('a \<Rightarrow> 'k::linorder) \<Rightarrow> nat \<Rightarrow> 'a \<Rightarrow> 'a \<Rightarrow> 'a btree_node \<Rightarrow> ('a btree_node \<times> bool) res" where
  "remove_impl key M d cmp root = (case root of
     Null \<Rightarrow> Ret (Null, False)
   | Node dat chi n \<Rightarrow>
       if chi = [] then Stop Undef
       else if chi ! 0 = Null then
         case leaf_remove key d cmp dat n of
           None \<Rightarrow> Ret (root, False)
         | Some dat' \<Rightarrow> Ret (if n = 1 then Null else Node dat' chi (n - 1), True)
       else if n = 1 then
         if length chi < 2 then Stop Undef
         else bindr (node_size (chi ! 0)) (\<lambda>s0. bindr (node_size (chi ! 1)) (\<lambda>s1.
           if s0 = s1 \<and> s1 = M - 1 then
             bindr (merge_root M (dat ! 0) (chi ! 0) (chi ! 1)) (\<lambda>p.
             bindr (remove_loop key M d cmp (height root) False p) (\<lambda>(p', r, pending). Ret (p', r)))
           else if key cmp \<le> key (dat ! 0) then
             bindr (if s0 = M - 1 then shift_key_left d 1 root else Ret root) (remove_below key M d cmp (height root) 0)
           else
             bindr (if s1 = M - 1 then shift_key_right d 1 root else Ret root) (remove_below key M d cmp (height root) 1)))
       else bindr (remove_loop key M d cmp (height root) False root) (\<lambda>(p', r, pending). Ret (p', r)))"

definition btree_remove :: "('a \<Rightarrow> 'k::linorder) \<Rightarrow> nat \<Rightarrow> 'a \<Rightarrow> 'a \<Rightarrow> 'a btree \<Rightarrow> (bool \<times> 'a btree) res" where
  "btree_remove key M d cmp t =
     bindr (remove_impl key M d cmp (m_root t)) (\<lambda>(r, res).
       Ret (res, t\<lparr>m_root := r, m_size := (if res then m_size t - 1 else m_size t)\<rparr>))"

definition btree_empty :: "'a btree" where "btree_empty = \<lparr>m_root = Null, m_size = 0\<rparr>"

definition btree_is_empty :: "'a btree \<Rightarrow> bool" where "btree_is_empty t \<longleftrightarrow> m_size t = 0"

section \<open>The map\<close>

text \<open>\<open>btree_map\<close>: pairs that compare by their first component; \<open>v0\<close> is the default value \<open>V{}\<close>.\<close>

type_synonym ('k, 'v) btree_map = "('k \<times> 'v) btree"

definition map_find :: "'v \<Rightarrow> 'k::linorder \<Rightarrow> ('k, 'v) btree_map \<Rightarrow> 'v option res" where
  "map_find v0 k t = bindr (btree_find fst (k, v0) t) (\<lambda>r. Ret (map_option snd r))"

definition map_insert :: "nat \<Rightarrow> 'k::linorder \<times> 'v \<Rightarrow> 'k \<Rightarrow> 'v \<Rightarrow> ('k, 'v) btree_map \<Rightarrow> ('k, 'v) btree_map res" where
  "map_insert M d k v t = btree_insert fst M d (k, v) t"

definition iterate_kv :: "('k \<Rightarrow> 'v \<Rightarrow> 's \<Rightarrow> bool \<times> 's) \<Rightarrow> ('k, 'v) btree_map \<Rightarrow> 's \<Rightarrow> 's" where
  "iterate_kv f t s = iterate (\<lambda>(k, v). f k v) t s"

definition map_remove :: "nat \<Rightarrow> 'k::linorder \<times> 'v \<Rightarrow> 'k \<Rightarrow> ('k, 'v) btree_map \<Rightarrow> (bool \<times> ('k, 'v) btree_map) res" where
  "map_remove M d k t = btree_remove fst M d (k, snd d) t"

section \<open>Valid trees and their elements in order\<close>

fun ino_loop :: "'a list list \<Rightarrow> 'a list \<Rightarrow> nat \<Rightarrow> 'a list" where
  "ino_loop (v # vs) ks 0 = v"
| "ino_loop (v # vs) (k # ks) (Suc n) = v @ k # ino_loop vs ks n"
| "ino_loop _ _ _ = []"

fun inorder :: "'a btree_node \<Rightarrow> 'a list" where
  "inorder Null = []"
| "inorder (Node dat chi n) = ino_loop (map inorder chi) dat n"

text \<open>A node of height \<open>h\<close> with at least \<open>lo\<close> elements whose other nodes hold at least \<open>M - 1\<close>.\<close>

fun valid :: "nat \<Rightarrow> nat \<Rightarrow> nat \<Rightarrow> 'a btree_node \<Rightarrow> bool" where
  "valid M 0 lo t \<longleftrightarrow> t = Null"
| "valid M (Suc h) lo Null \<longleftrightarrow> False"
| "valid M (Suc h) lo (Node dat chi n) \<longleftrightarrow> lo \<le> n \<and> n \<le> 2 * M - 1 \<and> length dat = 2 * M - 1 \<and> length chi = 2 * M \<and>
     (if h = 0 then \<forall>c \<in> set chi. c = Null else \<forall>i \<le> n. valid M h (M - 1) (chi ! i))"

definition valid_tree :: "nat \<Rightarrow> 'a btree \<Rightarrow> bool" where
  "valid_tree M t \<longleftrightarrow> 2 \<le> M \<and> (\<exists>h. valid M h 1 (m_root t)) \<and> m_size t = int (length (inorder (m_root t)))"

definition elems_pre :: "'a list \<Rightarrow> 'a btree_node list \<Rightarrow> nat \<Rightarrow> 'a list" where
  "elems_pre dat chi i = concat (map (\<lambda>j. inorder (chi ! j) @ [dat ! j]) [0..<i])"

definition elems_post :: "'a list \<Rightarrow> 'a btree_node list \<Rightarrow> nat \<Rightarrow> nat \<Rightarrow> 'a list" where
  "elems_post dat chi i n = concat (map (\<lambda>j. dat ! j # inorder (chi ! Suc j)) [i..<n])"

lemma map_upt_shift: "map f [Suc a..<Suc b] = map (\<lambda>j. f (Suc j)) [a..<b]"
  by (simp only: map_Suc_upt[symmetric] map_map o_def)

lemma ino_loop_eq:
  "n < length vs \<Longrightarrow> n \<le> length ks \<Longrightarrow>
     ino_loop vs ks n = concat (map (\<lambda>j. vs ! j @ [ks ! j]) [0..<n]) @ vs ! n"
proof (induction vs ks n rule: ino_loop.induct)
  case (2 v vs k ks n)
  have "concat (map (\<lambda>j. (v # vs) ! j @ [(k # ks) ! j]) [0..<Suc n]) =
      v @ [k] @ concat (map (\<lambda>j. (v # vs) ! j @ [(k # ks) ! j]) [Suc 0..<Suc n])"
    by (subst upt_conv_Cons) simp_all
  also have "\<dots> = v @ [k] @ concat (map (\<lambda>j. vs ! j @ [ks ! j]) [0..<n])" unfolding map_upt_shift by simp
  finally show ?case using 2 by simp
qed simp_all

lemma inorder_eq:
  assumes "n < length chi" "n \<le> length dat"
  shows "inorder (Node dat chi n) = elems_pre dat chi n @ inorder (chi ! n)"
proof -
  have "map (\<lambda>j. map inorder chi ! j @ [dat ! j]) [0..<n] = map (\<lambda>j. inorder (chi ! j) @ [dat ! j]) [0..<n]"
    using assms(1) by simp
  then show ?thesis unfolding elems_pre_def inorder.simps using assms by (simp only: ino_loop_eq length_map nth_map)
qed

lemma elems_step: "elems_pre dat chi (Suc i) = elems_pre dat chi i @ inorder (chi ! i) @ [dat ! i]"
  by (simp add: elems_pre_def)

lemma inorder_at:
  assumes "i \<le> n" "n < length chi" "n \<le> length dat"
  shows "inorder (Node dat chi n) = elems_pre dat chi i @ inorder (chi ! i) @ elems_post dat chi i n"
proof -
  have "elems_pre dat chi n @ inorder (chi ! n) = elems_pre dat chi i @ inorder (chi ! i) @ elems_post dat chi i n"
    using assms(1)
  proof (induction n rule: dec_induct)
    case (step m)
    then show ?case by (simp add: elems_step elems_post_def)
  qed (simp add: elems_post_def)
  then show ?thesis using assms by (simp add: inorder_eq del: inorder.simps)
qed

lemma elems_post_Cons: "i < n \<Longrightarrow> elems_post dat chi i n = dat ! i # inorder (chi ! Suc i) @ elems_post dat chi (Suc i) n"
  by (simp add: elems_post_def upt_conv_Cons)

lemma elems_post_end [simp]: "elems_post dat chi n n = []"
  by (simp add: elems_post_def)

lemma elems_cong:
  "(\<And>j. j < i \<Longrightarrow> dat ! j = dat' ! j \<and> chi ! j = chi' ! j) \<Longrightarrow> elems_pre dat chi i = elems_pre dat' chi' i"
  "(\<And>j. i \<le> j \<Longrightarrow> j < n \<Longrightarrow> dat ! j = dat' ! j \<and> chi ! Suc j = chi' ! Suc j) \<Longrightarrow> elems_post dat chi i n = elems_post dat' chi' i n"
  unfolding elems_pre_def elems_post_def by (rule arg_cong[of _ _ concat]; simp)+

lemma inorder_leaf:
  assumes "\<forall>c \<in> set chi. c = Null" "n < length chi" "n \<le> length dat"
  shows "inorder (Node dat chi n) = take n dat"
proof -
  have "elems_pre dat chi i = take i dat" if "i \<le> n" for i
    using that
  proof (induction i)
    case (Suc i)
    then have "chi ! i = Null" using assms by simp
    then show ?case using Suc assms(3) by (simp add: elems_step take_Suc_conv_app_nth)
  qed (simp add: elems_pre_def)
  moreover have "chi ! n = Null" using assms by simp
  ultimately show ?thesis using inorder_eq[OF assms(2,3)] by simp
qed

lemma elems_pre_mem: "j < i \<Longrightarrow> dat ! j \<in> set (elems_pre dat chi i) \<and> set (inorder (chi ! j)) \<subseteq> set (elems_pre dat chi i)"
  by (auto simp: elems_pre_def)

lemma valid_root: "valid M h lo t \<Longrightarrow> 0 < h \<Longrightarrow> \<exists>dat chi n. t = Node dat chi n"
  by (cases t; cases h) auto

lemma valid_height_pos: "valid M h lo (Node dat chi n) \<Longrightarrow> 0 < h"
  by (cases h) auto

lemma valid_leaf_test:
  assumes "valid M (Suc h) lo (Node dat chi n)" "2 \<le> M"
  shows "chi \<noteq> [] \<and> (chi ! 0 = Null \<longleftrightarrow> h = 0)"
proof (cases h)
  case 0
  then show ?thesis using assms by auto
next
  case (Suc k)
  then have "valid M h (M - 1) (chi ! 0)" using assms by (simp del: valid.simps(2))
  then show ?thesis using Suc assms valid_root[of M h "M - 1" "chi ! 0"] by auto
qed

lemma valid_lower: "valid M h lo t \<Longrightarrow> lo' \<le> lo \<Longrightarrow> valid M h lo' t"
  by (cases h; cases t) auto

lemma valid_elems: "valid M (Suc h) lo (Node dat chi n) \<Longrightarrow> 2 \<le> M \<Longrightarrow> i \<le> n \<Longrightarrow>
    inorder (Node dat chi n) = elems_pre dat chi i @ inorder (chi ! i) @ elems_post dat chi i n"
  by (rule inorder_at) auto

section \<open>Search\<close>

lemma find_append: "List.find P (xs @ ys) = (case List.find P xs of None \<Rightarrow> List.find P ys | Some x \<Rightarrow> Some x)"
  by (induction xs) auto

lemma find_None: "(\<And>x. x \<in> set xs \<Longrightarrow> \<not> P x) \<Longrightarrow> List.find P xs = None"
  by (induction xs) auto

lemma find_offset_facts:
  fixes key :: "'a \<Rightarrow> 'k::linorder"
  assumes "n \<le> length dat"
  shows "find_offset key dat n v \<le> n" "\<And>j. j < find_offset key dat n v \<Longrightarrow> key (dat ! j) < key v"
    "find_offset key dat n v < n \<Longrightarrow> key v \<le> key (dat ! find_offset key dat n v)"
proof -
  let ?P = "\<lambda>x. key x < key v" and ?off = "find_offset key dat n v"
  show le: "?off \<le> n" unfolding find_offset_def using length_takeWhile_le[of ?P "take n dat"] by simp
  show "key (dat ! j) < key v" if "j < ?off" for j
  proof -
    have "take n dat ! j = takeWhile ?P (take n dat) ! j"
      using that unfolding find_offset_def by (simp add: takeWhile_nth)
    moreover have "?P (takeWhile ?P (take n dat) ! j)"
      using that set_takeWhileD[of "takeWhile ?P (take n dat) ! j" ?P "take n dat"] nth_mem
      unfolding find_offset_def by blast
    ultimately show ?thesis using that le by simp
  qed
  show "key v \<le> key (dat ! ?off)" if "?off < n"
    using nth_length_takeWhile[of ?P "take n dat"] that assms(1) unfolding find_offset_def by simp
qed

abbreviation sorted_keys :: "('a \<Rightarrow> 'k::linorder) \<Rightarrow> 'a list \<Rightarrow> bool" where
  "sorted_keys key xs \<equiv> sorted_wrt (\<lambda>x y. key x < key y) xs"

lemma find_node_correct:
  assumes "valid M h lo t" "2 \<le> M" "sorted_keys key (inorder t)"
  shows "find_node key cmp t = Ret (List.find (\<lambda>x. key x = key cmp) (inorder t))"
  using assms
proof (induction h arbitrary: lo t)
  case (Suc h)
  let ?P = "\<lambda>x. key x = key cmp"
  obtain dat chi n where t: "t = Node dat chi n" using valid_root[OF Suc.prems(1)] by auto
  let ?off = "find_offset key dat n cmp"
  have n: "n \<le> length dat" "n < length chi" using Suc.prems unfolding t by auto
  note o = find_offset_facts[OF n(1), where key = key and v = cmp]
  note split = valid_elems[OF Suc.prems(1)[unfolded t] Suc.prems(2) o(1)]
  have s: "sorted_keys key (elems_pre dat chi ?off @ inorder (chi ! ?off) @ elems_post dat chi ?off n)"
    using Suc.prems(3) unfolding t split .
  have pre: "key x < key cmp" if "x \<in> set (elems_pre dat chi ?off)" for x
  proof (cases ?off)
    case (Suc m)
    have "x = dat ! m \<or> key x < key (dat ! m)"
      using that s unfolding Suc elems_step by (auto simp: sorted_wrt_append)
    moreover have "key (dat ! m) < key cmp" using o(2)[of m] Suc by simp
    ultimately show ?thesis by auto
  qed (use that in \<open>simp add: elems_pre_def\<close>)
  have pre_None: "List.find ?P (elems_pre dat chi ?off) = None" by (rule find_None) (metis pre less_irrefl)
  show ?case
  proof (cases "?off < n \<and> key (dat ! ?off) = key cmp")
    case True
    then have off: "?off < n" "?P (dat ! ?off)" by simp_all
    have "\<not> ?P x" if "x \<in> set (inorder (chi ! ?off))" for x
    proof -
      have "key x < key (dat ! ?off)"
        using s that unfolding elems_post_Cons[OF off(1)] by (simp add: sorted_wrt_append)
      then show ?thesis using off(2) by simp
    qed
    then have "List.find ?P (inorder (chi ! ?off)) = None" by (rule find_None)
    then have "List.find ?P (inorder t) = Some (dat ! ?off)"
      unfolding t split find_append pre_None elems_post_Cons[OF off(1)] using off(2) by simp
    then show ?thesis using off by (simp add: t Let_def del: inorder.simps)
  next
    case False
    have "\<not> ?P x" if "x \<in> set (elems_post dat chi ?off n)" for x
    proof (cases "?off < n")
      case True
      have "x = dat ! ?off \<or> key (dat ! ?off) < key x"
        using that s unfolding elems_post_Cons[OF True] by (auto simp: sorted_wrt_append)
      then show ?thesis using o(3)[OF True] False True by auto
    qed (use that o(1) in simp)
    then have post: "List.find ?P (elems_post dat chi ?off n) = None" by (rule find_None)
    have "valid M h (if h = 0 then 0 else M - 1) (chi ! ?off)"
      using Suc.prems(1) o(1) n(2) unfolding t by (auto split: if_splits)
    then have "find_node key cmp (chi ! ?off) = Ret (List.find ?P (inorder (chi ! ?off)))"
      using Suc.prems(2) s by (intro Suc.IH) (auto simp: sorted_wrt_append)
    moreover have "List.find ?P (inorder t) = List.find ?P (inorder (chi ! ?off))"
      unfolding t split find_append pre_None post by (simp split: option.split)
    moreover have "find_node key cmp t = find_node key cmp (chi ! ?off)"
      using False o(1) n(2) by (auto simp: t Let_def)
    ultimately show ?thesis by simp
  qed
qed simp

section \<open>Iteration\<close>

text \<open>A run over \<open>xs\<close> in which the callable, once it has returned false, changes nothing on the later
  elements: the iteration of a tree is then a fold over the elements in order.\<close>

fun quiet :: "('a \<Rightarrow> 's \<Rightarrow> bool \<times> 's) \<Rightarrow> 'a list \<Rightarrow> 's \<Rightarrow> bool" where
  "quiet f [] s \<longleftrightarrow> True"
| "quiet f (x # xs) s \<longleftrightarrow>
     (let s' = snd (f x s) in if fst (f x s) then quiet f xs s' else \<forall>y \<in> set xs. f y s' = (False, s'))"

lemma quiet_stopped:
  "\<forall>y \<in> set ys. f y s = (False, s) \<Longrightarrow> quiet f ys s \<and> fold (\<lambda>x s. snd (f x s)) ys s = s"
  by (induction ys) auto

lemma quiet_append: "quiet f (xs @ ys) s \<Longrightarrow> quiet f xs s \<and> quiet f ys (fold (\<lambda>x s. snd (f x s)) xs s)"
proof (induction xs arbitrary: s)
  case (Cons x xs)
  then show ?case
    using quiet_stopped[of xs f "snd (f x s)"] quiet_stopped[of ys f "snd (f x s)"]
    by (auto simp: Let_def split: if_splits)
qed simp

lemma iter_loop_fold:
  assumes "quiet f (ino_loop (map inorder chi) dat n) s"
    and "\<And>c s. c \<in> set chi \<Longrightarrow> quiet f (inorder c) s \<Longrightarrow> iter_impl f c s = fold (\<lambda>x s. snd (f x s)) (inorder c) s"
  shows "iter_loop f (map (iter_impl f) chi) dat n s = fold (\<lambda>x s. snd (f x s)) (ino_loop (map inorder chi) dat n) s"
  using assms
proof (induction "map inorder chi" dat n arbitrary: chi s rule: ino_loop.induct)
  case (1 v vs ks)
  then show ?case by (cases chi) auto
next
  case (2 v vs k ks n)
  let ?g = "\<lambda>x s. snd (f x s)"
  from 2(2) obtain c cs where chi: "chi = c # cs" "v = inorder c" "vs = map inorder cs" by (cases chi) auto
  have q: "quiet f v s" "quiet f (k # ino_loop vs ks n) (fold ?g v s)"
    using 2(3) quiet_append[of f v "k # ino_loop vs ks n" s] unfolding chi by simp_all
  have v: "iter_impl f c s = fold ?g v s" using 2(4)[of c s] q(1) chi by simp
  have rest: "quiet f (ino_loop vs ks n) s' \<Longrightarrow> iter_loop f (map (iter_impl f) cs) ks n s' = fold ?g (ino_loop vs ks n) s'" for s'
    using 2(1)[OF chi(3), of s'] 2(4) chi by simp
  show ?case
    using q(2) rest[of "snd (f k (fold ?g v s))"] quiet_stopped[of "ino_loop vs ks n" f "snd (f k (fold ?g v s))"] v
    unfolding chi by (auto simp: split_beta Let_def split: if_splits)
qed (auto simp: Cons_eq_map_conv)

lemma iter_impl_fold: "quiet f (inorder t) s \<Longrightarrow> iter_impl f t s = fold (\<lambda>x s. snd (f x s)) (inorder t) s"
proof (induction t arbitrary: s)
  case (Node dat chi n)
  then show ?case by (simp add: iter_loop_fold)
qed simp

section \<open>Insertion\<close>

lemma ins_pos_end: "(\<And>j. j < n \<Longrightarrow> key (dat ! j) \<le> key cmp) \<Longrightarrow> ins_pos key dat cmp n = n"
  by (cases n) (simp_all add: leD)

lemma elems_children_cong:
  "(\<And>j. j < i \<Longrightarrow> dat ! (M + j) = dat' ! j \<and> chi ! (M + j) = chi' ! j) \<Longrightarrow>
     concat (map (\<lambda>j. inorder (chi ! j) @ [dat ! j]) [M..<M + i]) = elems_pre dat' chi' i"
proof -
  assume eq: "\<And>j. j < i \<Longrightarrow> dat ! (M + j) = dat' ! j \<and> chi ! (M + j) = chi' ! j"
  have "map (\<lambda>j. inorder (chi ! j) @ [dat ! j]) [M..<M + i] = map (\<lambda>j. inorder (chi ! (M + j)) @ [dat ! (M + j)]) [0..<i]"
    by (rule nth_equalityI) simp_all
  also have "\<dots> = map (\<lambda>j. inorder (chi' ! j) @ [dat' ! j]) [0..<i]" using eq by simp
  finally show ?thesis by (simp add: elems_pre_def)
qed

lemma split_halves:
  fixes d :: 'a
  assumes v: "valid M (Suc h) (M - 1) (Node ld lc (2 * M - 1))" and M: "2 \<le> M"
  defines "L \<equiv> split_left M d ld lc" and "R \<equiv> split_right M d ld lc"
  shows "valid M (Suc h) (M - 1) L" "valid M (Suc h) (M - 1) R"
    "inorder L @ ld ! (M - 1) # inorder R = inorder (Node ld lc (2 * M - 1))"
proof -
  have len: "length ld = 2 * M - 1" "length lc = 2 * M" using v by auto
  have leaf: "lc ! 0 = Null \<longleftrightarrow> h = 0" using valid_leaf_test[OF v M] by simp
  define cl where "cl = (if lc ! 0 \<noteq> Null then take M lc @ replicate M Null else lc)"
  define cr where "cr = (if lc ! 0 \<noteq> Null then drop M lc @ replicate M Null else replicate (2 * M) Null)"
  have LR: "L = Node (take (M - 1) ld @ replicate M d) cl (M - 1)" "R = Node (drop M ld @ replicate M d) cr (M - 1)"
    by (simp_all add: L_def R_def split_left_def split_right_def cl_def cr_def)
  have all: "\<forall>c \<in> set lc. c = Null" if "h = 0" using v that by simp
  have cl_nth: "cl ! j = lc ! j" if "j \<le> M - 1" for j
  proof -
    have "j < M" using that M by linarith
    then show ?thesis using len by (simp add: cl_def nth_append)
  qed
  have cr_nth: "cr ! j = lc ! (M + j)" if "j \<le> M - 1" for j
  proof (cases "h = 0")
    case True
    then have "lc ! (M + j) = Null" using all that M len by simp
    then show ?thesis using True leaf that M by (simp add: cr_def)
  next
    case False
    have "j < M" using that M by linarith
    then show ?thesis using False leaf len by (simp add: cr_def nth_append)
  qed
  have lens: "length cl = 2 * M" "length cr = 2 * M" using len by (simp_all add: cl_def cr_def)
  have vi: "valid M h (M - 1) (lc ! i)" if "h \<noteq> 0" "i \<le> 2 * M - 1" for i using v that by simp
  show "valid M (Suc h) (M - 1) L"
  proof (cases "h = 0")
    case True
    then show ?thesis using all len M leaf unfolding LR by (auto simp: cl_def)
  next
    case False
    then show ?thesis using vi len M lens cl_nth unfolding LR by (auto simp: le_diff_conv2)
  qed
  show "valid M (Suc h) (M - 1) R"
  proof (cases "h = 0")
    case True
    then show ?thesis using len M leaf unfolding LR by (auto simp: cr_def)
  next
    case False
    then show ?thesis using vi len M lens cr_nth unfolding LR by auto
  qed
  have iL: "inorder L = elems_pre ld lc (M - 1) @ inorder (lc ! (M - 1))"
  proof -
    have "elems_pre (take (M - 1) ld @ replicate M d) cl (M - 1) = elems_pre ld lc (M - 1)"
      using cl_nth len M by (intro elems_cong(1)) (simp add: nth_append)
    then show ?thesis unfolding LR using lens len M cl_nth[of "M - 1"] by (subst inorder_eq) simp_all
  qed
  have iR: "inorder R = concat (map (\<lambda>j. inorder (lc ! j) @ [ld ! j]) [M..<M + (M - 1)]) @ inorder (lc ! (2 * M - 1))"
  proof -
    have "concat (map (\<lambda>j. inorder (lc ! j) @ [ld ! j]) [M..<M + (M - 1)]) = elems_pre (drop M ld @ replicate M d) cr (M - 1)"
      using cr_nth len M by (intro elems_children_cong) (simp add: nth_append)
    moreover have "cr ! (M - 1) = lc ! (2 * M - 1)" using cr_nth[of "M - 1"] M by (simp add: mult_2)
    ultimately show ?thesis unfolding LR using lens len M by (subst inorder_eq) simp_all
  qed
  have "inorder (Node ld lc (2 * M - 1)) = elems_pre ld lc (2 * M - 1) @ inorder (lc ! (2 * M - 1))"
    using len M by (intro inorder_eq) simp_all
  also have "elems_pre ld lc (2 * M - 1) = elems_pre ld lc M @ concat (map (\<lambda>j. inorder (lc ! j) @ [ld ! j]) [M..<M + (M - 1)])"
  proof -
    have "[0..<2 * M - 1] = [0..<M] @ [M..<M + (M - 1)]" using M upt_add_eq_append[of 0 M "M - 1"] by (simp add: mult_2)
    then show ?thesis by (simp add: elems_pre_def)
  qed
  also have "elems_pre ld lc M = elems_pre ld lc (M - 1) @ inorder (lc ! (M - 1)) @ [ld ! (M - 1)]"
    using M elems_step[of ld lc "M - 1"] by simp
  finally show "inorder L @ ld ! (M - 1) # inorder R = inorder (Node ld lc (2 * M - 1))"
    unfolding iL iR by simp
qed

text \<open>A full child \<open>n\<close> of a node with \<open>n\<close> elements is split without loss.\<close>

lemma split_last_child:
  assumes v: "valid M (Suc h) lo (Node dat chi n)" and M: "2 \<le> M" and n: "n < 2 * M - 1" and h: "h \<noteq> 0"
    and c: "chi ! n = Node ld lc (2 * M - 1)"
  obtains dat' chi' L R where "split_child M d n (Node dat chi n) = Ret (Node dat' chi' (Suc n))"
    "valid M (Suc h) lo (Node dat' chi' (Suc n))" "inorder (Node dat' chi' (Suc n)) = inorder (Node dat chi n)"
    "chi' ! Suc n = R" "valid M h (M - 1) R" "nsize R = M - 1" "\<forall>j < n. dat' ! j = dat ! j"
    "elems_pre dat' chi' (Suc n) @ inorder R = inorder (Node dat chi n)" "length chi' = length chi"
proof -
  obtain k where k: "h = Suc k" using h not0_implies_Suc by blast
  have len: "length dat = 2 * M - 1" "length chi = 2 * M" and vi: "\<And>i. i \<le> n \<Longrightarrow> valid M h (M - 1) (chi ! i)"
    using v h by auto
  define L where "L = split_left M d ld lc"
  define R where "R = split_right M d ld lc"
  have vc: "valid M (Suc k) (M - 1) (Node ld lc (2 * M - 1))" using vi[OF order_refl] unfolding c k .
  note s = split_halves[OF vc M, where d = d, folded L_def R_def]
  define dat' where "dat' = dat[n := ld ! (M - 1)]"
  define chi' where "chi' = take n chi @ [L, R] @ drop (Suc n) (take (Suc n) chi) @ drop (n + 2) chi"
  have "split_child M d n (Node dat chi n) = Ret (Node dat' chi' (Suc n))"
    using n len c by (simp add: dat'_def chi'_def L_def R_def)
  moreover have lc': "length chi' = length chi" using n len by (simp add: chi'_def)
  have nth: "chi' ! j = (if j < n then chi ! j else if j = n then L else R)" if "j \<le> Suc n" for j
    using that n len by (auto simp: chi'_def nth_append nth_Cons split: nat.splits)
  have vj: "valid M h (M - 1) (chi' ! j)" if "j \<le> Suc n" for j
    using that vi[of j] s(1,2) nth[OF that] k by auto
  then have "valid M (Suc h) lo (Node dat' chi' (Suc n))"
    using v n len lc' h by (simp add: dat'_def)
  moreover have pre: "elems_pre dat' chi' (Suc n) @ inorder R = inorder (Node dat chi n)"
  proof -
    have "elems_pre dat' chi' n = elems_pre dat chi n"
      using nth by (intro elems_cong(1)) (simp add: dat'_def)
    moreover have "dat' ! n = ld ! (M - 1)" "chi' ! n = L" using n len nth[of n] by (simp_all add: dat'_def)
    ultimately show ?thesis
      using s(3) c n len by (subst inorder_eq) (simp_all add: elems_step)
  qed
  moreover have "inorder (Node dat' chi' (Suc n)) = inorder (Node dat chi n)"
    unfolding pre[symmetric] using n len lc' nth[of "Suc n"] by (subst inorder_eq) (simp_all add: dat'_def)
  moreover have "nsize R = M - 1" by (simp add: R_def split_right_def)
  moreover have "\<forall>j < n. dat' ! j = dat ! j" by (simp add: dat'_def)
  ultimately show thesis using that nth[of "Suc n"] s(2) k lc' by simp
qed

lemma valid_update:
  assumes "valid M (Suc h) lo (Node dat chi n)" "h \<noteq> 0" "valid M h (M - 1) c"
  shows "valid M (Suc h) lo (Node dat (chi[i := c]) n)"
proof -
  have "valid M h (M - 1) (chi[i := c] ! j)" if "j \<le> n" for j
    using assms that by (cases "i < length chi"; cases "j = i") (auto simp: not_less list_update_beyond)
  then show ?thesis using assms by simp
qed

lemma inorder_update_last:
  assumes "valid M (Suc h) lo (Node dat chi n)" "2 \<le> M"
  shows "inorder (Node dat (chi[n := c]) n) = elems_pre dat chi n @ inorder c"
proof -
  have "n < length chi" "n \<le> length dat" using assms by auto
  moreover have "elems_pre dat (chi[n := c]) n = elems_pre dat chi n" by (intro elems_cong(1)) simp
  ultimately show ?thesis by (subst inorder_eq) simp_all
qed

lemma insert_non_full_last:
  assumes "valid M h lo t" "2 \<le> M" "nsize t < 2 * M - 1" "0 < h" "0 < nsize t" "\<forall>x \<in> set (inorder t). key x < key cmp"
  shows "\<exists>t'. insert_non_full key M d cmp t = Ret t' \<and> valid M h lo t' \<and> inorder t' = inorder t @ [cmp]"
  using assms
proof (induction h arbitrary: lo t)
  case (Suc h)
  note M = Suc.prems(2)
  obtain dat chi n where t: "t = Node dat chi n" using valid_root[OF Suc.prems(1)] by auto
  note v = Suc.prems(1)[unfolded t]
  have n: "0 < n" "n < 2 * M - 1" using Suc.prems(3,5) by (simp_all add: t)
  have len: "length dat = 2 * M - 1" "length chi = 2 * M" using v by auto
  have io: "inorder t = elems_pre dat chi n @ inorder (chi ! n)" unfolding t using n len by (intro inorder_eq) simp_all
  have small: "key (dat ! j) < key cmp" if "j < n" for j
    using elems_pre_mem[OF that, of dat chi] Suc.prems(6) io by auto
  then have pos: "ins_pos key dat cmp n = n" by (intro ins_pos_end) (simp add: less_imp_le)
  have leaf: "chi \<noteq> []" "chi ! 0 = Null \<longleftrightarrow> h = 0" using valid_leaf_test[OF v M] by simp_all
  show ?case
  proof (cases "h = 0")
    case True
    have all: "\<forall>c \<in> set chi. c = Null" using v True by simp
    let ?t = "Node (shift_in n n cmp dat) chi (Suc n)"
    have sh: "shift_in n n cmp dat = take n dat @ [cmp] @ drop (Suc n) dat" by (simp add: shift_in_def)
    then have "valid M (Suc h) lo ?t" using v True n len by simp
    moreover have "inorder ?t = inorder t @ [cmp]"
      using n len by (simp add: t inorder_leaf[OF all] sh del: inorder.simps)
    moreover have "insert_non_full key M d cmp t = Ret ?t"
      using True leaf n(2) pos unfolding t insert_non_full.simps Let_def by (simp only: if_True if_False) simp
    ultimately show ?thesis by blast
  next
    case False
    have vn: "valid M h (M - 1) (chi ! n)" using v False by auto
    then obtain ld lc ln where c: "chi ! n = Node ld lc ln" using valid_root False by blast
    have ln: "M - 1 \<le> ln" "ln \<le> 2 * M - 1" using vn False unfolding c by (cases h; simp)+
    have big: "\<forall>x \<in> set (inorder (chi ! n)). key x < key cmp" using Suc.prems(6) io by auto
    show ?thesis
    proof (cases "ln = 2 * M - 1")
      case full: True
      obtain dat' chi' L R where s: "split_child M d n (Node dat chi n) = Ret (Node dat' chi' (Suc n))"
        "valid M (Suc h) lo (Node dat' chi' (Suc n))" "chi' ! Suc n = R" "valid M h (M - 1) R" "nsize R = M - 1"
        "\<forall>j < n. dat' ! j = dat ! j" "elems_pre dat' chi' (Suc n) @ inorder R = inorder (Node dat chi n)" "length chi' = length chi"
        using split_last_child[OF v M n(2) False c[unfolded full], where d = d] by metis
      have "\<forall>x \<in> set (inorder R). key x < key cmp" using Suc.prems(6) s(7) unfolding t by (metis Un_iff set_append)
      then obtain R' where R': "insert_non_full key M d cmp R = Ret R'" "valid M h (M - 1) R'" "inorder R' = inorder R @ [cmp]"
      proof -
        have "nsize R < 2 * M - 1" "0 < nsize R" using s(5) M by linarith+
        then show thesis using Suc.IH[OF s(4) M] \<open>\<forall>x \<in> set (inorder R). key x < key cmp\<close> False that by blast
      qed
      let ?t = "Node dat' (chi'[Suc n := R']) (Suc n)"
      have "key (dat' ! (n - 1)) < key cmp" using small[of "n - 1"] s(6) n(1) by simp
      then have "insert_non_full key M d cmp t = Ret ?t"
        using False leaf n len pos full c s(1,3,8) R'(1) by (simp add: t Let_def del: split_child.simps)
      moreover have "valid M (Suc h) lo ?t" using s(2) False R'(2) by (intro valid_update) simp_all
      moreover have "inorder ?t = inorder t @ [cmp]"
        using inorder_update_last[OF s(2) M, of R'] R'(3) s(7) by (simp add: t del: inorder.simps)
      ultimately show ?thesis by blast
    next
      case notfull: False
      then obtain c' where c': "insert_non_full key M d cmp (chi ! n) = Ret c'" "valid M h (M - 1) c'"
          "inorder c' = inorder (chi ! n) @ [cmp]"
      proof -
        have "nsize (chi ! n) < 2 * M - 1" "0 < nsize (chi ! n)" using ln notfull M by (simp add: c; linarith)+
        then show thesis using Suc.IH[OF vn M _ _ _ big] False that by blast
      qed
      let ?t = "Node dat (chi[n := c']) n"
      have "insert_non_full key M d cmp t = Ret ?t"
        using False leaf n len pos notfull c c'(1) by (simp add: t Let_def)
      moreover have "valid M (Suc h) lo ?t" using v False c'(2) by (intro valid_update) simp_all
      moreover have "inorder ?t = inorder t @ [cmp]"
        using inorder_update_last[OF v M, of c'] c'(3) io by simp
      ultimately show ?thesis by blast
    qed
  qed
qed simp

lemma insert_last:
  assumes "valid_tree M t" "\<forall>x \<in> set (inorder (m_root t)). key x < key cmp"
  shows "\<exists>t'. btree_insert key M d cmp t = Ret t' \<and> valid_tree M t' \<and> inorder (m_root t') = inorder (m_root t) @ [cmp]"
proof -
  obtain h where h: "valid M h 1 (m_root t)" and M: "2 \<le> M" and sz: "m_size t = int (length (inorder (m_root t)))"
    using assms(1) by (auto simp: valid_tree_def)
  have "\<exists>r h'. btree_insert key M d cmp t = Ret (t\<lparr>m_root := r, m_size := m_size t + 1\<rparr>) \<and> valid M h' 1 r \<and>
      inorder r = inorder (m_root t) @ [cmp]"
  proof (cases "m_root t")
    case Null
    let ?r = "Node ((replicate (2 * M - 1) d)[0 := cmp]) (replicate (2 * M) Null) 1"
    have "inorder ?r = [cmp]" using M by (subst inorder_leaf) (simp_all add: take_Suc_conv_app_nth[of 0])
    moreover have "valid M (Suc 0) 1 ?r" using M by simp
    ultimately show ?thesis unfolding btree_insert_def Null by (intro exI[of _ ?r] exI[of _ "Suc 0"]) simp
  next
    case (Node dat chi n)
    then obtain k where k: "h = Suc k" using h by (cases h) auto
    have n: "1 \<le> n" "n \<le> 2 * M - 1" using h Node k by auto
    show ?thesis
    proof (cases "n = 2 * M - 1")
      case True
      let ?x = "Node (replicate (2 * M - 1) d) ((replicate (2 * M) Null)[0 := Node dat chi n]) 0"
      have vx: "valid M (Suc h) 0 ?x"
        using h M True unfolding k Node by (auto simp: nth_list_update elim: valid_lower)
      have iox: "inorder ?x = inorder (m_root t)"
        using M by (subst inorder_eq) (simp_all add: Node elems_pre_def del: inorder.simps)
      have x0: "0 < 2 * M - 1" "h \<noteq> 0" "((replicate (2 * M) Null)[0 := Node dat chi n]) ! 0 = Node dat chi (2 * M - 1)"
        using M k True by simp_all
      obtain dat' chi' where s: "split_child M d 0 ?x = Ret (Node dat' chi' 1)" "valid M (Suc h) 0 (Node dat' chi' 1)"
          "inorder (Node dat' chi' 1) = inorder ?x"
        using split_last_child[OF vx M x0, where d = d] by (metis One_nat_def)
      have "valid M (Suc h) 1 (Node dat' chi' 1)" using s(2) k by simp
      moreover have "nsize (Node dat' chi' 1) < 2 * M - 1" "0 < nsize (Node dat' chi' 1)" using M by auto
      moreover have "\<forall>x \<in> set (inorder (Node dat' chi' 1)). key x < key cmp" using assms(2) unfolding s(3) iox .
      ultimately obtain r where "insert_non_full key M d cmp (Node dat' chi' 1) = Ret r" "valid M (Suc h) 1 r"
          "inorder r = inorder (m_root t) @ [cmp]"
        using insert_non_full_last[OF _ M, of "Suc h" 1 "Node dat' chi' 1" key cmp d] unfolding s(3) iox by blast
      then show ?thesis using s(1) True unfolding btree_insert_def Node by (auto simp del: split_child.simps insert_non_full.simps)
    next
      case False
      then obtain r where "insert_non_full key M d cmp (m_root t) = Ret r" "valid M h 1 r"
          "inorder r = inorder (m_root t) @ [cmp]"
        using insert_non_full_last[OF h M, of key cmp d] n Node k assms(2) by (auto simp del: insert_non_full.simps inorder.simps valid.simps)
      then show ?thesis using False unfolding btree_insert_def Node by (auto simp del: insert_non_full.simps)
    qed
  qed
  then obtain r h' where r: "btree_insert key M d cmp t = Ret (t\<lparr>m_root := r, m_size := m_size t + 1\<rparr>)"
    "valid M h' 1 r" "inorder r = inorder (m_root t) @ [cmp]" by blast
  have "valid_tree M (t\<lparr>m_root := r, m_size := m_size t + 1\<rparr>)" using r(2,3) M sz by (auto simp: valid_tree_def)
  with r show ?thesis by (intro exI[of _ "t\<lparr>m_root := r, m_size := m_size t + 1\<rparr>"]) simp
qed

section \<open>Trees of one node\<close>

lemma valid_length: "valid M h lo t \<Longrightarrow> 0 < h \<Longrightarrow> lo \<le> length (inorder t)"
proof -
  assume v: "valid M h lo t" and h: "0 < h"
  obtain dat chi n where t: "t = Node dat chi n" using valid_root[OF v h] by blast
  obtain k where k: "h = Suc k" using h by (cases h) auto
  have n: "lo \<le> n" "n \<le> length dat" using v unfolding t k by auto
  show ?thesis
  proof (cases "n < length chi")
    case True
    have "i \<le> length (elems_pre dat chi i)" for i by (induction i) (auto simp: elems_step)
    from this[of n] show ?thesis using n unfolding t inorder_eq[OF True n(2)] by simp
  next
    case False
    then have "M = 0" using v unfolding t k by auto
    then show ?thesis using v n unfolding t k by auto
  qed
qed

lemma small_tree_leaf:
  assumes "valid_tree M t" "length (inorder (m_root t)) < 2 * M - 1"
  shows "m_root t = Null \<or> (\<exists>dat chi n. m_root t = Node dat chi n \<and> valid M (Suc 0) 1 (Node dat chi n) \<and>
    inorder (Node dat chi n) = take n dat \<and> n < 2 * M - 1)"
proof -
  obtain h where h: "valid M h 1 (m_root t)" and M: "2 \<le> M" using assms(1) by (auto simp: valid_tree_def)
  consider "h = 0" | "h = Suc 0" | k where "h = Suc (Suc k)" by (metis not0_implies_Suc)
  then show ?thesis
  proof cases
    case 1
    then show ?thesis using h by simp
  next
    case 2
    obtain dat chi n where t: "m_root t = Node dat chi n" using valid_root[OF h] 2 by auto
    have v: "valid M (Suc 0) 1 (Node dat chi n)" using h t 2 by simp
    have io: "inorder (Node dat chi n) = take n dat" using v M by (intro inorder_leaf) auto
    then have "n < 2 * M - 1" using assms(2) v by (simp add: t)
    then show ?thesis using t v io by blast
  next
    case (3 k)
    obtain dat chi n where t: "m_root t = Node dat chi n" using valid_root[OF h] 3 by auto
    have n: "1 \<le> n" "n < length chi" "n \<le> length dat" and c: "\<And>i. i \<le> n \<Longrightarrow> valid M (Suc k) (M - 1) (chi ! i)"
      using h 3 M unfolding t by auto
    have "M - 1 \<le> length (inorder (chi ! 0))" "M - 1 \<le> length (inorder (chi ! n))"
      using valid_length[OF c[of 0]] valid_length[OF c[of n]] by simp_all
    moreover have "length (inorder (chi ! 0)) + 1 \<le> length (elems_pre dat chi n)"
    proof -
      have "elems_pre dat chi n = inorder (chi ! 0) @ [dat ! 0] @ concat (map (\<lambda>j. inorder (chi ! j) @ [dat ! j]) [1..<n])"
        using n(1) by (simp add: elems_pre_def upt_conv_Cons)
      then show ?thesis by simp
    qed
    ultimately have "2 * M - 1 \<le> length (inorder (m_root t))" using M unfolding t inorder_eq[OF n(2,3)] by simp
    then show ?thesis using assms(2) by simp
  qed
qed

lemma ins_pos_facts:
  "ins_pos key dat cmp n \<le> n" "0 < ins_pos key dat cmp n \<Longrightarrow> key (dat ! (ins_pos key dat cmp n - 1)) \<le> key cmp"
  "ins_pos key dat cmp n \<le> j \<Longrightarrow> j < n \<Longrightarrow> key cmp < key (dat ! j)"
proof (induction n)
  case (Suc n)
  { case 1 show ?case using Suc by (auto intro: le_SucI) }
  { case 2 then show ?case using Suc(2) by (auto simp: not_less split: if_splits) }
  { case 3 then show ?case using Suc(3) by (auto simp: less_Suc_eq split: if_splits) }
qed auto

lemma insert_small:
  assumes t: "valid_tree M t" "length (inorder (m_root t)) < 2 * M - 1" and so: "sorted_keys key (inorder (m_root t))"
  shows "\<exists>t' xs ys. btree_insert key M d cmp t = Ret t' \<and> valid_tree M t' \<and> inorder (m_root t) = xs @ ys \<and>
    inorder (m_root t') = xs @ cmp # ys \<and> (\<forall>x \<in> set xs. key x \<le> key cmp) \<and> (\<forall>y \<in> set ys. key cmp < key y)"
proof -
  have M: "2 \<le> M" and sz: "m_size t = int (length (inorder (m_root t)))" using t(1) by (auto simp: valid_tree_def)
  from small_tree_leaf[OF t] show ?thesis
  proof (elim disjE exE conjE)
    assume N: "m_root t = Null"
    then obtain t' where "btree_insert key M d cmp t = Ret t'" "valid_tree M t'" "inorder (m_root t') = [cmp]"
      using insert_last[OF t(1), of key cmp d] by auto
    then show ?thesis using N by (intro exI[of _ t'] exI[of _ "[]"]) simp
  next
    fix dat chi n
    assume r: "m_root t = Node dat chi n" and v: "valid M (Suc 0) 1 (Node dat chi n)" and
      io: "inorder (Node dat chi n) = take n dat" and n: "n < 2 * M - 1"
    let ?i = "ins_pos key dat cmp n"
    let ?r = "Node (shift_in ?i n cmp dat) chi (Suc n)"
    let ?t = "t\<lparr>m_root := ?r, m_size := m_size t + 1\<rparr>"
    note p = ins_pos_facts[where key = key and dat = dat and cmp = cmp and n = n]
    have len: "length dat = 2 * M - 1" "length chi = 2 * M" and all: "\<forall>c \<in> set chi. c = Null" using v by auto
    have tk: "take n dat = take ?i dat @ drop ?i (take n dat)" using p(1) by (metis append_take_drop_id min.absorb1 take_take)
    have sh: "take (Suc n) (shift_in ?i n cmp dat) = take ?i dat @ cmp # drop ?i (take n dat)"
      using p(1) n len by (simp add: shift_in_def min_def Suc_diff_le)
    have lsh: "length (shift_in ?i n cmp dat) = 2 * M - 1" using p(1) n len by (simp add: shift_in_def)
    have ior: "inorder ?r = take ?i dat @ cmp # drop ?i (take n dat)"
      unfolding sh[symmetric] using n len lsh by (intro inorder_leaf[OF all]) simp_all
    have "valid M (Suc 0) 1 ?r" using v n lsh by simp
    moreover have "length (inorder ?r) = Suc (length (take n dat))"
      unfolding ior using tk by (metis add_Suc_right length_Cons length_append)
    ultimately have vt: "valid_tree M ?t" using M sz io r unfolding valid_tree_def
      by (auto simp del: inorder.simps valid.simps intro!: exI[of _ "Suc 0"])
    have "chi ! 0 = Null" "chi \<noteq> []" using all len M by auto
    then have ins: "btree_insert key M d cmp t = Ret ?t" using n by (simp add: btree_insert_def r Let_def)
    have lo: "\<forall>x \<in> set (take ?i dat). key x \<le> key cmp"
    proof
      fix x assume "x \<in> set (take ?i dat)"
      then obtain j where j: "j < ?i" "x = dat ! j" using p(1) n len by (auto simp: in_set_conv_nth)
      have "key (dat ! (?i - 1)) \<le> key cmp" using p(2) j by simp
      moreover have "key (dat ! j) \<le> key (dat ! (?i - 1))"
      proof (cases "j = ?i - 1")
        case False
        then have "j < ?i - 1" "?i - 1 < n" using j p(1) by linarith+
        then have "key (take n dat ! j) < key (take n dat ! (?i - 1))"
          using so n len unfolding r io by (intro sorted_wrt_nth_less[where P = "\<lambda>x y. key x < key y"]) simp_all
        then show ?thesis using j p(1) by simp
      qed simp
      ultimately show "key x \<le> key cmp" using j by simp
    qed
    have hi: "\<forall>y \<in> set (drop ?i (take n dat)). key cmp < key y"
      using p(3) n len by (auto simp: in_set_conv_nth)
    show ?thesis
      using ins vt tk ior lo hi io r
      by (intro exI[of _ ?t] exI[of _ "take ?i dat"] exI[of _ "drop ?i (take n dat)"]) (simp del: inorder.simps)
  qed
qed

lemma take_out_take:
  "i < n \<Longrightarrow> n \<le> length xs \<Longrightarrow> take (n - 1) (take_out i n d xs) = take i xs @ drop (Suc i) (take n xs)"
  by (cases "i = n - 1") (auto simp: take_out_def min_def)

lemma length_take_out: "i < n \<Longrightarrow> n \<le> length xs \<Longrightarrow> length (take_out i n d xs) = length xs"
  by (simp add: take_out_def)

lemma remove_small:
  assumes t: "valid_tree M t" "length (inorder (m_root t)) < 2 * M - 1"
  shows "\<exists>t'. btree_remove key M d cmp t = Ret (\<exists>x \<in> set (inorder (m_root t)). key x = key cmp, t') \<and> valid_tree M t' \<and>
    inorder (m_root t') = remove_first (\<lambda>x. key x = key cmp) (inorder (m_root t))"
proof -
  let ?P = "\<lambda>x. key x = key cmp"
  have M: "2 \<le> M" and sz: "m_size t = int (length (inorder (m_root t)))" using t(1) by (auto simp: valid_tree_def)
  from small_tree_leaf[OF t] show ?thesis
  proof (elim disjE exE conjE)
    assume N: "m_root t = Null"
    then show ?thesis using t by (intro exI[of _ t]) (simp add: btree_remove_def remove_impl_def)
  next
    fix dat chi n
    assume r: "m_root t = Node dat chi n" and v: "valid M (Suc 0) 1 (Node dat chi n)" and
      io: "inorder (Node dat chi n) = take n dat" and n: "n < 2 * M - 1"
    have len: "length dat = 2 * M - 1" "length chi = 2 * M" "1 \<le> n" and all: "\<forall>c \<in> set chi. c = Null" using v by auto
    have c0: "chi ! 0 = Null" "chi \<noteq> []" using all len M by auto
    let ?i = "index_of ?P (take n dat)"
    show ?thesis
    proof (cases "\<exists>x \<in> set (take n dat). ?P x")
      case False
      then have "leaf_remove key d cmp dat n = None" by (simp add: leaf_remove_def index_of_less del: length_take)
      then have "btree_remove key M d cmp t = Ret (False, t)" using c0 by (simp add: btree_remove_def remove_impl_def r)
      then show ?thesis using False t(1) io r by (intro exI[of _ t]) (simp add: remove_first_id del: inorder.simps)
    next
      case True
      then have i: "?i < length (take n dat)" by (simp only: index_of_less)
      then have i': "?i < n" "n \<le> length dat" using n len by simp_all
      have lr: "leaf_remove key d cmp dat n = Some (take_out ?i n d dat)" using i unfolding leaf_remove_def Let_def by simp
      let ?r = "Node (take_out ?i n d dat) chi (n - 1)"
      have rf: "take ?i (take n dat) @ drop (Suc ?i) (take n dat) = remove_first ?P (take n dat)"
        using True remove_first_index[of _ "take n dat" ?P] by blast
      have ior: "inorder ?r = remove_first ?P (take n dat)"
      proof -
        have "inorder ?r = take (n - 1) (take_out ?i n d dat)"
          using n len length_take_out[OF i', of d] by (intro inorder_leaf[OF all]) simp_all
        then show ?thesis using take_out_take[OF i', of d] rf i' by (simp add: min_def del: inorder.simps)
      qed
      have lrf: "length (remove_first ?P (take n dat)) = n - 1" unfolding rf[symmetric] using i' by simp
      show ?thesis
      proof (cases "n = 1")
        case one: True
        let ?t = "t\<lparr>m_root := Null, m_size := m_size t - 1\<rparr>"
        have "remove_first ?P (take n dat) = []" using lrf one by simp
        moreover have "valid_tree M ?t" using M sz io r one len unfolding valid_tree_def
          by (auto simp del: inorder.simps intro!: exI[of _ 0]) simp_all
        ultimately show ?thesis using lr c0 one True io r
          by (intro exI[of _ ?t]) (simp add: btree_remove_def remove_impl_def del: inorder.simps(2))
      next
        case False
        let ?t = "t\<lparr>m_root := ?r, m_size := m_size t - 1\<rparr>"
        have "valid M (Suc 0) 1 ?r" using v False length_take_out[OF i', of d] by auto
        then have "valid_tree M ?t" using M sz io r len lrf ior n unfolding valid_tree_def
          by (auto simp del: inorder.simps valid.simps intro!: exI[of _ "Suc 0"])
        then show ?thesis using lr c0 False True io r ior
          by (intro exI[of _ ?t]) (simp add: btree_remove_def remove_impl_def del: inorder.simps)
      qed
    qed
  qed
qed

section \<open>Elements that the rearrangements lose\<close>

lemma mset_elems_pre: "i \<le> length dat \<Longrightarrow> i \<le> length chi \<Longrightarrow>
    mset (elems_pre dat chi i) = mset (take i dat) + mset (concat (map inorder (take i chi)))"
  by (induction i) (simp_all add: elems_pre_def take_Suc_conv_app_nth)

lemma mset_inorder:
  assumes "n < length chi" "n \<le> length dat"
  shows "mset (inorder (Node dat chi n)) = mset (take n dat) + mset (concat (map inorder (take (Suc n) chi)))"
  unfolding inorder_eq[OF assms] using assms by (simp add: mset_elems_pre take_Suc_conv_app_nth del: inorder.simps)

lemma mset_concat_update:
  "i < length xs \<Longrightarrow> mset (concat (map f (xs[i := a]))) + mset (f (xs ! i)) = mset (concat (map f xs)) + mset (f a)"
proof (induction xs arbitrary: i)
  case (Cons x xs)
  then show ?case by (cases i) (auto simp: ac_simps)
qed simp

lemma mset_update_swap: "i < length xs \<Longrightarrow> mset (xs[i := a]) + {#xs ! i#} = mset xs + {#a#}"
  by (simp add: mset_update)

lemma split_child_elems:
  assumes v: "valid M (Suc h) lo (Node dat chi n)" and M: "2 \<le> M" and n: "n < 2 * M - 1" and h: "h \<noteq> 0"
    and i: "i < n" and c: "nsize (chi ! i) = 2 * M - 1"
  shows "\<exists>x'. split_child M d i (Node dat chi n) = Ret x' \<and>
    mset (inorder x') + {#dat ! i#} = mset (inorder (Node dat chi n)) + {#dat ! n#}"
proof -
  obtain k where k: "h = Suc k" using h not0_implies_Suc by blast
  have len: "length dat = 2 * M - 1" "length chi = 2 * M" and vi: "valid M (Suc k) (M - 1) (chi ! i)"
    using v h i k by auto
  obtain ld lc where ci: "chi ! i = Node ld lc (2 * M - 1)" using valid_root[OF vi] c by auto
  define L where "L = split_left M d ld lc"
  define R where "R = split_right M d ld lc"
  note s = split_halves(3)[OF vi[unfolded ci] M, where d = d, folded L_def R_def]
  define dat' where "dat' = dat[i := ld ! (M - 1)]"
  define chi' where "chi' = take i chi @ [L, R] @ drop (Suc i) (take (Suc n) chi) @ drop (n + 2) chi"
  have sp: "split_child M d i (Node dat chi n) = Ret (Node dat' chi' (Suc n))"
    using n len ci i by (simp add: dat'_def chi'_def L_def R_def)
  have tk: "take (Suc n) chi = take i chi @ chi ! i # drop (Suc i) (take (Suc n) chi)"
  proof -
    have "i < length (take (Suc n) chi)" using i n len by simp
    from id_take_nth_drop[OF this] show ?thesis using i by (simp add: min_def)
  qed
  have tk': "take (Suc (Suc n)) chi' = take i chi @ [L, R] @ drop (Suc i) (take (Suc n) chi)"
    using i n len by (simp add: chi'_def min_def Suc_diff_le)
  have m1: "mset (inorder (Node dat' chi' (Suc n))) = mset (take (Suc n) dat') + mset (concat (map inorder (take (Suc (Suc n)) chi')))"
    using i n len by (intro mset_inorder) (simp_all add: dat'_def chi'_def)
  have m0: "mset (inorder (Node dat chi n)) = mset (take n dat) + mset (concat (map inorder (take (Suc n) chi)))"
    using n len by (intro mset_inorder) simp_all
  have mc: "mset (concat (map inorder (take (Suc (Suc n)) chi'))) + {#ld ! (M - 1)#} = mset (concat (map inorder (take (Suc n) chi)))"
  proof -
    have "mset (inorder (chi ! i)) = mset (inorder L) + mset (inorder R) + {#ld ! (M - 1)#}"
      unfolding ci s[symmetric] by simp
    then show ?thesis unfolding tk' by (subst tk) simp
  qed
  have tk0: "take (Suc n) dat' = (take (Suc n) dat)[i := ld ! (M - 1)]" by (simp add: dat'_def take_update_swap)
  have tk2: "take (Suc n) dat = take n dat @ [dat ! n]" using n len by (simp add: take_Suc_conv_app_nth)
  have tk1: "i < length (take (Suc n) dat)" using i n len by simp
  have "mset (take (Suc n) dat') + {#dat ! i#} = mset (take n dat) + {#dat ! n#} + {#ld ! (M - 1)#}"
    using mset_update_swap[OF tk1, of "ld ! (M - 1)"] i n len unfolding tk0 by (simp add: tk2 nth_append)
  then have "mset (inorder (Node dat' chi' (Suc n))) + {#dat ! i#} = mset (inorder (Node dat chi n)) + {#dat ! n#}"
    unfolding m1 m0 mc[symmetric] by simp
  with sp show ?thesis by blast
qed

lemma shift_key_left_elems:
  assumes v: "valid M (Suc (Suc (Suc h))) lo (Node pd pc pn)" and M: "2 \<le> M" and k: "0 < k" "k \<le> pn"
    and l: "nsize (pc ! (k - 1)) < 2 * M - 1"
  shows "\<exists>p'. shift_key_left d k (Node pd pc pn) = Ret p' \<and>
    mset (inorder p') + mset (inorder (nchildren (pc ! k) ! nsize (pc ! k))) = mset (inorder (Node pd pc pn))"
proof -
  have vi: "valid M (Suc (Suc h)) (M - 1) (pc ! i)" if "i \<le> pn" for i using v that by auto
  have len: "length pd = 2 * M - 1" "length pc = 2 * M" "pn \<le> 2 * M - 1" "pn < 2 * M" using v M by auto
  have k1: "k - 1 \<le> pn" using k by linarith
  obtain ld lc ln where L: "pc ! (k - 1) = Node ld lc ln" using valid_root[OF vi[OF k1]] by blast
  obtain rd rc rn where R: "pc ! k = Node rd rc rn" using valid_root[OF vi[of k]] k by auto
  have vl: "valid M (Suc (Suc h)) (M - 1) (Node ld lc ln)" and vr: "valid M (Suc (Suc h)) (M - 1) (Node rd rc rn)"
    using vi[of "k - 1"] vi[of k] k L R by simp_all
  have ll: "ln < 2 * M - 1" "length ld = 2 * M - 1" "length lc = 2 * M" using l L vl by auto
  have rl: "rn \<le> 2 * M - 1" "length rd = 2 * M - 1" "length rc = 2 * M" "0 < rn" using vr M by auto
  have i0: "lc ! 0 \<noteq> Null" using valid_leaf_test[OF vl M] by simp
  define left' where "left' = Node (ld[ln := pd ! (k - 1)]) (lc[Suc ln := rc ! 0]) (Suc ln)"
  define right' where "right' = Node (take_out 0 rn d rd) (drop 1 (take rn rc) @ [Null] @ drop rn rc) (rn - 1)"
  define cs where "cs = (take (Suc pn) pc)[k - 1 := left']"
  let ?f = "\<lambda>xs. mset (concat (map inorder xs))"
  let ?p = "Node (pd[k - 1 := rd ! 0]) (pc[k - 1 := left', k := right']) pn"
  have r: "shift_key_left d k (Node pd pc pn) = Ret ?p"
  proof -
    have "0 < k \<and> k < length pc" using k len M by linarith
    then show ?thesis using ll rl i0 by (simp only: shift_key_left.simps L R) (simp add: left'_def right'_def Let_def)
  qed
  have ml: "mset (inorder left') = mset (inorder (pc ! (k - 1))) + {#pd ! (k - 1)#} + mset (inorder (rc ! 0))"
  proof -
    have "mset (inorder left') = mset (take (Suc ln) (ld[ln := pd ! (k - 1)])) + ?f (take (Suc (Suc ln)) (lc[Suc ln := rc ! 0]))"
      unfolding left'_def using ll by (intro mset_inorder) simp_all
    moreover have "take (Suc ln) (ld[ln := pd ! (k - 1)]) = take ln ld @ [pd ! (k - 1)]"
      using ll by (simp add: take_Suc_conv_app_nth)
    moreover have "take (Suc (Suc ln)) (lc[Suc ln := rc ! 0]) = take (Suc ln) lc @ [rc ! 0]"
      using ll by (simp add: take_Suc_conv_app_nth[of "Suc ln"])
    moreover have "mset (inorder (pc ! (k - 1))) = mset (take ln ld) + ?f (take (Suc ln) lc)"
      unfolding L using ll by (intro mset_inorder) simp_all
    ultimately show ?thesis by (simp del: inorder.simps)
  qed
  have mr: "mset (inorder right') + {#rd ! 0#} + mset (inorder (rc ! 0)) + mset (inorder (rc ! rn)) = mset (inorder (pc ! k))"
  proof -
    let ?D = "drop 1 (take rn rd)" and ?E = "drop 1 (take rn rc)"
    have "mset (inorder right') = mset (take (rn - 1) (take_out 0 rn d rd)) + ?f (take (Suc (rn - 1)) (?E @ [Null] @ drop rn rc))"
      unfolding right'_def using rl length_take_out[of 0 rn rd d] by (intro mset_inorder) simp_all
    moreover have "take (rn - 1) (take_out 0 rn d rd) = ?D" using take_out_take[of 0 rn rd d] rl by simp
    moreover have "take (Suc (rn - 1)) (?E @ [Null] @ drop rn rc) = ?E @ [Null]" using rl by simp
    ultimately have r: "mset (inorder right') = mset ?D + ?f ?E" by simp
    have "mset (inorder (pc ! k)) = mset (take rn rd) + ?f (take (Suc rn) rc)"
      unfolding R using rl by (intro mset_inorder) simp_all
    moreover have "take rn rd = rd ! 0 # ?D"
      using rl id_take_nth_drop[of 0 "take rn rd"] by simp
    moreover have "take (Suc rn) rc = rc ! 0 # ?E @ [rc ! rn]"
      using rl id_take_nth_drop[of 0 "take rn rc"] by (simp add: take_Suc_conv_app_nth)
    ultimately have c: "mset (inorder (pc ! k)) = mset (rd ! 0 # ?D) + ?f (rc ! 0 # ?E @ [rc ! rn])" by simp
    show ?thesis unfolding r c by (simp del: inorder.simps)
  qed
  have k': "k - 1 < length (take (Suc pn) pc)" "k < length cs" using k len by (simp_all add: cs_def)
  have mp: "mset (inorder ?p) = mset (take pn (pd[k - 1 := rd ! 0])) + ?f (cs[k := right'])"
  proof -
    have "mset (inorder ?p) = mset (take pn (pd[k - 1 := rd ! 0])) + ?f (take (Suc pn) (pc[k - 1 := left', k := right']))"
      using len by (intro mset_inorder) simp_all
    then show ?thesis by (simp add: cs_def take_update_swap del: inorder.simps)
  qed
  have u1: "?f (cs[k := right']) + mset (inorder (pc ! k)) = ?f cs + mset (inorder right')"
  proof -
    have "cs ! k = pc ! k" using k len by (simp add: cs_def)
    then show ?thesis using mset_concat_update[OF k'(2), of inorder right'] by simp
  qed
  have u2: "?f cs + mset (inorder (pc ! (k - 1))) = ?f (take (Suc pn) pc) + mset (inorder left')"
    using mset_concat_update[OF k'(1), of inorder left'] k by (simp add: cs_def)
  have u3: "mset (take pn (pd[k - 1 := rd ! 0])) + {#pd ! (k - 1)#} = mset (take pn pd) + {#rd ! 0#}"
    using mset_update_swap[of "k - 1" "take pn pd" "rd ! 0"] k len by (simp add: take_update_swap)
  have m0: "mset (inorder (Node pd pc pn)) = mset (take pn pd) + ?f (take (Suc pn) pc)"
    using len by (intro mset_inorder) simp_all
  have "mset (inorder ?p) + mset (inorder (rc ! rn)) = mset (inorder (Node pd pc pn))"
  proof (rule multiset_eqI)
    fix x
    note c = arg_cong[where f = "\<lambda>m. count m x"]
    show "count (mset (inorder ?p) + mset (inorder (rc ! rn))) x = count (mset (inorder (Node pd pc pn))) x"
      using c[OF mp] c[OF u1] c[OF u2] c[OF u3] c[OF ml] c[OF mr] c[OF m0] unfolding count_union by linarith
  qed
  then show ?thesis using r R by auto
qed

section \<open>Properties\<close>

text \<open>C13. Search is right on every valid tree whose keys ascend: \<open>find\<close> returns the element of the tree with
  the key of \<open>cmp\<close>, or nothing when there is none, and reads no slot outside the arrays.\<close>

theorem btree_find_correct:
  assumes "valid_tree M t" "sorted_keys key (inorder (m_root t))"
  shows "btree_find key cmp t = Ret (List.find (\<lambda>x. key x = key cmp) (inorder (m_root t)))"
proof -
  obtain h where "valid M h 1 (m_root t)" "2 \<le> M" using assms(1) by (auto simp: valid_tree_def)
  from find_node_correct[OF this assms(2)] show ?thesis by (simp add: btree_find_def)
qed

text \<open>C15. Ascending insertion works on trees of any height: an element above all keys of a valid tree is
  inserted as the last one, with the shape (fill of the nodes, equal depth, recorded size) kept.\<close>

theorem btree_insert_ascending:
  assumes "valid_tree M t" "\<forall>x \<in> set (inorder (m_root t)). key x < key cmp"
  shows "\<exists>t'. btree_insert key M d cmp t = Ret t' \<and> valid_tree M t' \<and> inorder (m_root t') = inorder (m_root t) @ [cmp]"
  by (rule insert_last[OF assms])

text \<open>C18. A tree of fewer than \<open>2 * M - 1\<close> elements is a sorted list: insertion puts \<open>cmp\<close> behind the
  elements up to its key and before the others, whatever the order of insertions, and removal reports
  whether the key is there and takes the first such element out; both keep the tree valid.\<close>

theorem btree_small_tree:
  assumes "valid_tree M t" "length (inorder (m_root t)) < 2 * M - 1" "sorted_keys key (inorder (m_root t))"
  shows "(\<exists>t' xs ys. btree_insert key M d cmp t = Ret t' \<and> valid_tree M t' \<and> inorder (m_root t) = xs @ ys \<and>
      inorder (m_root t') = xs @ cmp # ys \<and> (\<forall>x \<in> set xs. key x \<le> key cmp) \<and> (\<forall>y \<in> set ys. key cmp < key y)) \<and>
    (\<exists>t'. btree_remove key M d cmp t = Ret (\<exists>x \<in> set (inorder (m_root t)). key x = key cmp, t') \<and> valid_tree M t' \<and>
      inorder (m_root t') = remove_first (\<lambda>x. key x = key cmp) (inorder (m_root t)))"
  using insert_small[OF assms] remove_small[OF assms(1,2)] by blast

text \<open>Splitting a full child that is not the last one loses an element of the parent: the median
  overwrites the separator \<open>data[i]\<close>, and since the separators are not moved up, the unused slot
  \<open>data[n]\<close> becomes an element instead.\<close>

theorem split_child_loses_separator:
  assumes "valid M (Suc h) lo (Node dat chi n)" "2 \<le> M" "n < 2 * M - 1" "h \<noteq> 0" "i < n" "nsize (chi ! i) = 2 * M - 1"
  shows "\<exists>x'. split_child M d i (Node dat chi n) = Ret x' \<and>
    mset (inorder x') + {#dat ! i#} = mset (inorder (Node dat chi n)) + {#dat ! n#}"
  by (rule split_child_elems[OF assms])

text \<open>Moving a key to the left sibling between two inner nodes loses the whole last subtree of the
  right one: its pointer is overwritten with null, since the loop over the children ends one short.\<close>

theorem shift_key_loses_subtree:
  assumes "valid M (Suc (Suc (Suc h))) lo (Node pd pc pn)" "2 \<le> M" "0 < k" "k \<le> pn" "nsize (pc ! (k - 1)) < 2 * M - 1"
  shows "\<exists>p'. shift_key_left d k (Node pd pc pn) = Ret p' \<and>
    mset (inorder p') + mset (inorder (nchildren (pc ! k) ! nsize (pc ! k))) = mset (inorder (Node pd pc pn))"
  by (rule shift_key_left_elems[OF assms])

section \<open>Witnesses\<close>

definition demo_leaf :: "nat list \<Rightarrow> nat btree_node" where
  "demo_leaf xs = Node (xs @ replicate (3 - length xs) 0) [Null, Null, Null, Null] (length xs)"

definition demo_btree :: "nat btree" where
  "demo_btree = \<lparr>m_root = Node [10, 20, 0] [demo_leaf [1, 2, 3], demo_leaf [15], demo_leaf [30, 40, 50], Null] 2, m_size = 9\<rparr>"

lemma le_2_cases: "(\<forall>i \<le> Suc (Suc 0). P i) \<longleftrightarrow> P 0 \<and> P (Suc 0) \<and> P (Suc (Suc 0))"
  "(\<forall>i \<le> Suc 0. P i) \<longleftrightarrow> P 0 \<and> P (Suc 0)"
  by (auto simp: le_Suc_eq)

lemma demo_btree_valid: "valid_tree 2 demo_btree"
  unfolding valid_tree_def
  by (intro conjI exI[of _ "Suc (Suc 0)"]) (simp_all add: demo_btree_def demo_leaf_def le_2_cases numeral_2_eq_2 numeral_3_eq_3)

lemma demo_btree_inorder: "inorder (m_root demo_btree) = [1, 2, 3, 10, 15, 20, 30, 40, 50]"
  by (simp add: demo_btree_def demo_leaf_def numeral_2_eq_2 numeral_3_eq_3)

lemma btree_find_correct_witness:
  "btree_find (\<lambda>x. x) 15 demo_btree = Ret (List.find (\<lambda>x. x = 15) (inorder (m_root demo_btree)))"
  by (rule btree_find_correct[OF demo_btree_valid]) (simp add: demo_btree_inorder)

lemma btree_insert_ascending_witness:
  "\<exists>t'. btree_insert (\<lambda>x. x) 2 0 60 demo_btree = Ret t' \<and> valid_tree 2 t' \<and> inorder (m_root t') = inorder (m_root demo_btree) @ [60]"
  by (rule btree_insert_ascending[OF demo_btree_valid]) (simp add: demo_btree_inorder)

definition demo_small :: "nat btree" where
  "demo_small = \<lparr>m_root = demo_leaf [10, 20], m_size = 2\<rparr>"

lemma demo_small_valid: "valid_tree 2 demo_small" "inorder (m_root demo_small) = [10, 20]"
  unfolding valid_tree_def
  by (intro conjI exI[of _ "Suc 0"]) (simp_all add: demo_small_def demo_leaf_def numeral_2_eq_2 numeral_3_eq_3)

lemma btree_small_tree_witness:
  "(\<exists>t' xs ys. btree_insert (\<lambda>x. x) 2 0 15 demo_small = Ret t' \<and> valid_tree 2 t' \<and> inorder (m_root demo_small) = xs @ ys \<and>
      inorder (m_root t') = xs @ 15 # ys \<and> (\<forall>x \<in> set xs. x \<le> 15) \<and> (\<forall>y \<in> set ys. 15 < y)) \<and>
    (\<exists>t'. btree_remove (\<lambda>x. x) 2 0 15 demo_small = Ret (\<exists>x \<in> set (inorder (m_root demo_small)). x = 15, t') \<and> valid_tree 2 t' \<and>
      inorder (m_root t') = remove_first (\<lambda>x. x = 15) (inorder (m_root demo_small)))"
  by (rule btree_small_tree[OF demo_small_valid(1)]) (simp_all add: demo_small_valid(2))

lemma split_child_loses_separator_witness:
  "\<exists>x'. split_child 2 0 0 (m_root demo_btree) = Ret x' \<and>
    mset (inorder x') + {#10#} = mset (inorder (m_root demo_btree)) + {#0#}"
proof -
  have v: "valid 2 (Suc (Suc 0)) 1 (Node [10, 20, 0] [demo_leaf [1, 2, 3], demo_leaf [15], demo_leaf [30, 40, 50], Null] 2)"
    by (simp add: demo_leaf_def le_2_cases numeral_2_eq_2 numeral_3_eq_3)
  show ?thesis
    using split_child_loses_separator[OF v, of 0 0] by (simp add: demo_btree_def demo_leaf_def del: split_child.simps inorder.simps)
qed

definition demo_inner :: "nat \<Rightarrow> nat btree_node" where
  "demo_inner a = Node [a + 2, 0, 0] [demo_leaf [a], demo_leaf [a + 4], Null, Null] 1"

lemma shift_key_loses_subtree_witness:
  "\<exists>p'. shift_key_left 0 1 (Node [10, 0, 0] [demo_inner 1, demo_inner 20, Null, Null] 1) = Ret p' \<and>
    mset (inorder p') + mset (inorder (demo_leaf [24])) =
      mset (inorder (Node [10, 0, 0] [demo_inner 1, demo_inner 20, Null, Null] 1))"
proof -
  have v: "valid 2 (Suc (Suc (Suc 0))) 1 (Node [10, 0, 0] [demo_inner 1, demo_inner 20, Null, Null] 1)"
    by (simp add: demo_inner_def demo_leaf_def numeral_2_eq_2 numeral_3_eq_3 le_2_cases)
  show ?thesis
    using shift_key_loses_subtree[OF v, of 1 0] by (simp add: demo_inner_def del: shift_key_left.simps inorder.simps)
qed

end
