(* ===== verification/Kheap.thy ===== *)
theory Kheap
  imports Heap BTree
begin

text \<open>
  The rest of \<^verbatim>\<open>src/high/memory/heap.cpp\<close>: the large allocator, which keeps its regions in a
  \<open>btree_map\<close> from start address to size, the dispatch of \<open>kheap\<close> over the three allocators, and the
  operators \<open>new\<close> and \<open>delete\<close>.  The nodes of the map are values; the memory they take from the page
  allocator is not part of the state.
\<close>

section \<open>The large allocator\<close>

record 'p kheap =
  heap :: "'p heap_state"
  ptr_size :: "(u64, u64) btree_map"

definition region_M :: nat where "region_M = 85"

definition large_init :: "'p kheap \<Rightarrow> 'p kheap" where
  "large_init h = h\<lparr>ptr_size := btree_empty\<rparr>"

text \<open>The callable that \<open>malloc\<close> passes to \<open>iterate_kv\<close>.\<close>

definition region_step :: "u64 \<Rightarrow> u64 \<Rightarrow> u64 \<Rightarrow> u64 \<Rightarrow> bool \<times> u64" where
  "region_step npages k v last_region_end =
     (if k - last_region_end > npages * page_size then (False, last_region_end)
      else (True, k + v * page_size))"

definition large_pages :: "u64 \<Rightarrow> u64" where
  "large_pages sz = (sz + page_size - 1) div page_size"

definition large_region :: "u64 \<Rightarrow> (u64, u64) btree_map \<Rightarrow> u64" where
  "large_region npages t = iterate_kv (region_step npages) t (Ti 96 + Ti 20)"

text \<open>The loop that maps the pages \<open>i\<close> to \<open>i + n - 1\<close> of the region.\<close>

fun large_map :: "'p page_alloc \<Rightarrow> u64 \<Rightarrow> nat \<Rightarrow> nat \<Rightarrow> 'p pt_state \<Rightarrow> 'p pt_state res option" where
  "large_map alloc start i 0 s = Some (Ret s)"
| "large_map alloc start i (Suc n) s =
     bindo (alloc (pal s)) (\<lambda>(page, a').
       case page of
         None \<Rightarrow> Some (Stop (Panic ''out of physical memory in large_allocator::malloc''))
       | Some p \<Rightarrow>
           bindo (pt_map alloc p (start + of_nat i * page_size)
               \<lparr>writeable = True, user = False, writeThrough = False, cacheDisabled = False\<rparr> (s\<lparr>pal := a'\<rparr>))
             (large_map alloc start (Suc i) n))"

definition large_malloc :: "'p page_alloc \<Rightarrow> u64 \<Rightarrow> 'p kheap \<Rightarrow> (u64 \<times> 'p kheap) res option" where
  "large_malloc alloc sz h =
     (let n = large_pages sz;
          start = large_region n (ptr_size h)
      in if start + n * page_size > Ti 96 + Ti 30
         then Some (Stop (Panic ''out of memory in large_allocator::malloc''))
         else bindo (large_map alloc start 0 (unat n) (pt (heap h))) (\<lambda>pt'.
                bindo (Some (map_insert region_M (0, 0) start (n * page_size) (ptr_size h))) (\<lambda>t'.
                  Some (Ret (start, h\<lparr>heap := (heap h)\<lparr>pt := pt'\<rparr>, ptr_size := t'\<rparr>)))))"

text \<open>The loop of \<open>free\<close>: page by page, the frame goes back and the page is unmapped.\<close>

fun large_unmap :: "(u64 \<Rightarrow> 'p \<Rightarrow> 'p res) \<Rightarrow> u64 \<Rightarrow> nat \<Rightarrow> nat \<Rightarrow> 'p pt_state \<Rightarrow> 'p pt_state res" where
  "large_unmap dealloc ptr i 0 s = Ret s"
| "large_unmap dealloc ptr i (Suc n) s =
     (let a = ptr + of_nat i * page_size
      in bindr (or_panic ''invalid page in large_allocator::free'' (pt_get s a)) (\<lambda>page.
         bindr (dealloc page (pal s)) (\<lambda>a'.
         large_unmap dealloc ptr (Suc i) n (pt_unmap a (s\<lparr>pal := a'\<rparr>)))))"

definition large_free :: "(u64 \<Rightarrow> 'p \<Rightarrow> 'p res) \<Rightarrow> u64 \<Rightarrow> 'p kheap \<Rightarrow> 'p kheap res" where
  "large_free dealloc ptr h =
     (if ptr = 0 then Ret h
      else
        bindr (map_find 0 ptr (ptr_size h)) (\<lambda>found.
        bindr (or_panic ''removed non existing ptr in large_allocator::free'' found) (\<lambda>sz.
        bindr (large_unmap dealloc ptr 0 ((unat sz + 4095) div 4096) (pt (heap h))) (\<lambda>pt'.
        bindr (map_remove region_M (0, 0) ptr (ptr_size h)) (\<lambda>(removed, t').
          if removed then Ret (h\<lparr>heap := (heap h)\<lparr>pt := pt'\<rparr>, ptr_size := t'\<rparr>)
          else Stop (Panic ''removed non existing ptr in large_allocator::free''))))))"

definition large_size :: "u64 \<Rightarrow> 'p kheap \<Rightarrow> u64 res" where
  "large_size ptr h =
     (if ptr = 0 then Ret 0
      else bindr (map_find 0 ptr (ptr_size h)) (\<lambda>found. Ret (value_or found 0)))"

section \<open>The dispatch\<close>

definition kheap_malloc ::
    "'p page_alloc \<Rightarrow> (u64 \<Rightarrow> 'p \<Rightarrow> 'p res) \<Rightarrow> u64 \<Rightarrow> 'p kheap \<Rightarrow> (u64 \<times> 'p kheap) res option" where
  "kheap_malloc alloc dealloc sz h =
     bindo (small_malloc alloc dealloc sz (heap h)) (\<lambda>(res, h1).
       if res \<noteq> 0 then Some (Ret (res, h\<lparr>heap := h1\<rparr>))
       else bindo (page_malloc alloc sz (pt h1)) (\<lambda>(res, pt').
         if res \<noteq> 0 then Some (Ret (res, h\<lparr>heap := h1\<lparr>pt := pt'\<rparr>\<rparr>))
         else large_malloc alloc sz (h\<lparr>heap := h1\<lparr>pt := pt'\<rparr>\<rparr>)))"

definition kheap_free ::
    "'p page_alloc \<Rightarrow> (u64 \<Rightarrow> 'p \<Rightarrow> 'p res) \<Rightarrow> u64 \<Rightarrow> 'p kheap \<Rightarrow> 'p kheap res option" where
  "kheap_free alloc dealloc ptr h =
     (if ptr < Ti 96 then Some (Ret h)
      else
        let off = ptr - Ti 96
        in if off < Ti 10
           then Some (bindr (page_free dealloc ptr (pt (heap h))) (\<lambda>pt'. Ret (h\<lparr>heap := (heap h)\<lparr>pt := pt'\<rparr>\<rparr>)))
           else if off < Ti 20
           then bindo (small_free alloc dealloc ptr (heap h)) (\<lambda>h'. Some (Ret (h\<lparr>heap := h'\<rparr>)))
           else Some (large_free dealloc ptr h))"

definition kheap_get_size :: "u64 \<Rightarrow> 'p kheap \<Rightarrow> u64 option res" where
  "kheap_get_size ptr h =
     (if ptr < Ti 96 then Ret None
      else
        let off = ptr - Ti 96
        in if off < Ti 10 then Ret (Some (page_alloc_size ptr))
           else if off < Ti 20 then bindr (small_size ptr (heap h)) (\<lambda>n. Ret (Some n))
           else bindr (large_size ptr h) (\<lambda>n. Ret (Some n)))"

definition kheap_init :: "'p kheap \<Rightarrow> 'p kheap" where
  "kheap_init h = large_init (h\<lparr>heap := small_init (heap h)\<rparr>)"

definition operator_new ::
    "'p page_alloc \<Rightarrow> (u64 \<Rightarrow> 'p \<Rightarrow> 'p res) \<Rightarrow> u64 \<Rightarrow> 'p kheap \<Rightarrow> (u64 \<times> 'p kheap) res option" where
  "operator_new alloc dealloc sz h =
     bindo (kheap_malloc alloc dealloc sz h) (\<lambda>(p, h').
       Some (Ret (p, h'\<lparr>heap := (heap h')\<lparr>hmem := memset p 0 (unat sz) (hmem (heap h'))\<rparr>\<rparr>)))"

definition operator_delete ::
    "'p page_alloc \<Rightarrow> (u64 \<Rightarrow> 'p \<Rightarrow> 'p res) \<Rightarrow> u64 \<Rightarrow> 'p kheap \<Rightarrow> 'p kheap res option" where
  "operator_delete alloc dealloc ptr h = kheap_free alloc dealloc ptr h"

section \<open>Regions\<close>

text \<open>Regions, ordered by address, of which each starts behind the end that the scan computes for the one
  before: \<open>page_size\<close> times its recorded size in bytes.\<close>

fun spaced :: "nat \<Rightarrow> (u64 \<times> u64) list \<Rightarrow> bool" where
  "spaced lo [] \<longleftrightarrow> True"
| "spaced lo ((k, v) # rs) \<longleftrightarrow>
     lo \<le> unat k \<and> unat k + unat v * 4096 < 2 ^ 63 \<and> spaced (unat k + unat v * 4096) rs"

lemma unat_page_size: "unat page_size = 4096"
  by (simp add: page_size_def)

lemma region_step_spaced:
  assumes "unat k + unat v * 4096 < 2 ^ 63" "unat e \<le> unat k" "unat n * 4096 < 2 ^ 63"
  shows "region_step n k v e =
      (if unat k - unat e > unat n * 4096 then (False, e) else (True, k + v * page_size))"
    "unat (k + v * page_size) = unat k + unat v * 4096"
proof -
  have v: "unat (v * page_size) = unat v * 4096"
    using assms(1) by (subst unat_mult_u64) (simp_all add: unat_page_size)
  then show "unat (k + v * page_size) = unat k + unat v * 4096"
    using assms(1) by (subst unat_add_u64) simp_all
  have n: "unat (n * page_size) = unat n * 4096"
    using assms(3) by (subst unat_mult_u64) (simp_all add: unat_page_size)
  have "e \<le> k" using assms(2) by (simp add: unat_le_iff)
  then have "unat (k - e) = unat k - unat e" by (rule unat_diff_u64)
  with n show "region_step n k v e =
      (if unat k - unat e > unat n * 4096 then (False, e) else (True, k + v * page_size))"
    by (simp add: region_step_def unat_less_iff)
qed

lemma spaced_lower: "spaced lo rs \<Longrightarrow> (k, v) \<in> set rs \<Longrightarrow> lo \<le> unat k \<and> unat k + unat v * 4096 < 2 ^ 63"
  by (induction lo rs rule: spaced.induct) auto

lemma spaced_stopped:
  assumes "spaced (unat k) rs" "unat e \<le> unat k" "unat k - unat e > unat n * 4096" "unat n * 4096 < 2 ^ 63" "(k', v') \<in> set rs"
  shows "region_step n k' v' e = (False, e)"
proof -
  have "unat k \<le> unat k'" "unat k' + unat v' * 4096 < 2 ^ 63" using spaced_lower[OF assms(1,5)] by auto
  then show ?thesis using region_step_spaced(1)[of k' v' e n] assms by simp
qed

lemma scan_spaced:
  assumes "spaced (unat e) rs" "unat n * 4096 < 2 ^ 63" "unat e < 2 ^ 63"
  shows "quiet (\<lambda>(k, v). region_step n k v) rs e \<and>
    (\<forall>(k, v) \<in> set rs.
       unat k + unat v \<le> unat (fold (\<lambda>x s. snd ((\<lambda>(k, v). region_step n k v) x s)) rs e) \<or>
       unat (fold (\<lambda>x s. snd ((\<lambda>(k, v). region_step n k v) x s)) rs e) + unat n * 4096 < unat k) \<and>
    unat e \<le> unat (fold (\<lambda>x s. snd ((\<lambda>(k, v). region_step n k v) x s)) rs e) \<and>
    unat (fold (\<lambda>x s. snd ((\<lambda>(k, v). region_step n k v) x s)) rs e) < 2 ^ 63"
  using assms
proof (induction rs arbitrary: e)
  case (Cons r rs)
  obtain k v where r: "r = (k, v)" by (cases r)
  let ?f = "\<lambda>(k, v). region_step n k v" and ?g = "\<lambda>x s. snd ((\<lambda>(k, v). region_step n k v) x s)"
  have k: "unat e \<le> unat k" "unat k + unat v * 4096 < 2 ^ 63" and sp: "spaced (unat k + unat v * 4096) rs"
    using Cons.prems(1) by (simp_all add: r)
  note st = region_step_spaced[OF k(2,1) Cons.prems(2)]
  show ?case
  proof (cases "unat k - unat e > unat n * 4096")
    case True
    have sp': "spaced (unat k) rs"
    proof (cases rs)
      case (Cons a xs)
      then show ?thesis using sp by (cases a) auto
    qed simp
    have stop: "\<forall>y \<in> set rs. ?f y e = (False, e)"
      using spaced_stopped[OF sp' k(1) True Cons.prems(2)] by auto
    have "fold ?g rs e = e" "quiet ?f rs e" using quiet_stopped[of rs ?f e] stop by blast+
    moreover have "\<forall>(k', v') \<in> set (r # rs). unat e + unat n * 4096 < unat k'"
      using spaced_lower[OF sp'] True k(1) by (fastforce simp: r)
    ultimately show ?thesis using st True stop Cons.prems(3) by (auto simp: r)
  next
    case False
    have "spaced (unat (k + v * page_size)) rs" using sp st(2) by simp
    from Cons.IH[OF this Cons.prems(2)] have ih: "quiet ?f rs (k + v * page_size)"
      "\<forall>(k', v') \<in> set rs. unat k' + unat v' \<le> unat (fold ?g rs (k + v * page_size)) \<or>
         unat (fold ?g rs (k + v * page_size)) + unat n * 4096 < unat k'"
      "unat (k + v * page_size) \<le> unat (fold ?g rs (k + v * page_size))"
      "unat (fold ?g rs (k + v * page_size)) < 2 ^ 63"
      using k(2) st(2) by auto
    then show ?thesis using st False k(1) by (auto simp: r)
  qed
qed simp

section \<open>Properties\<close>

text \<open>When the recorded regions are spaced as the scan of \<open>large_allocator::malloc\<close> assumes, the address it
  chooses for \<open>n\<close> pages lies behind the start of the area and the new region meets no recorded one,
  in a map of any height.\<close>

theorem large_region_disjoint:
  assumes "spaced (unat (Ti 96 + Ti 20)) (inorder (m_root t))" "unat n * 4096 < 2 ^ 63"
  shows "Ti 96 + Ti 20 \<le> large_region n t \<and>
    (\<forall>(k, v) \<in> set (inorder (m_root t)).
       unat k + unat v \<le> unat (large_region n t) \<or> unat (large_region n t) + unat n * 4096 < unat k)"
proof -
  have e: "unat (Ti 96 + Ti 20) < 2 ^ 63" by (simp add: Ti_def Gi_def Mi_def Ki_def)
  note s = scan_spaced[OF assms e]
  have "large_region n t = fold (\<lambda>x s. snd ((\<lambda>(k, v). region_step n k v) x s)) (inorder (m_root t)) (Ti 96 + Ti 20)"
    unfolding large_region_def iterate_kv_def iterate_def using s by (intro iter_impl_fold) simp
  then show ?thesis using s by (simp add: unat_le_iff)
qed

text \<open>Without that spacing the large allocator hands out memory that is in use: sizes are recorded in
  bytes and read back as pages, so with a region of one page at the start of the area, and one of
  eight pages 16 MiB minus a page behind it, two disjoint regions, the scan for one page chooses the
  second page of the latter.\<close>

definition overlap_tree :: "(u64, u64) btree_map" where
  "overlap_tree = \<lparr>m_root = Node ([(Ti 116, 4096), (Ti 116 + Mi 16 - 4096, 32768)] @ replicate 167 (0, 0)) (replicate 170 Null) 2, m_size = 2\<rparr>"

theorem large_malloc_overlaps:
  "valid_tree region_M overlap_tree \<and> sorted_keys fst (inorder (m_root overlap_tree)) \<and>
   inorder (m_root overlap_tree) = [(Ti 116, 4096), (Ti 116 + Mi 16 - 4096, 32768)] \<and>
   large_region 1 overlap_tree = Ti 116 + Mi 16 - 4096 + page_size"
proof -
  have io: "inorder (m_root overlap_tree) = [(Ti 116, 4096), (Ti 116 + Mi 16 - 4096, 32768)]"
    unfolding overlap_tree_def by (simp only: btree.simps, subst inorder_leaf) simp_all
  have l: "\<forall>c \<in> set (replicate 170 Null). c = (Null :: (u64 \<times> u64) btree_node)" by simp
  have v: "valid_tree region_M overlap_tree"
    unfolding valid_tree_def io by (intro conjI exI[of _ "Suc 0"]) (simp_all add: overlap_tree_def region_M_def l del: set_replicate)
  have so: "sorted_keys fst (inorder (m_root overlap_tree))"
    unfolding io by (simp add: Ti_def Gi_def Mi_def Ki_def)
  have q: "quiet (\<lambda>(k, v). region_step 1 k v) (inorder (m_root overlap_tree)) (Ti 96 + Ti 20)"
    unfolding io by (simp add: region_step_def page_size_def Ti_def Gi_def Mi_def Ki_def)
  have "large_region 1 overlap_tree = Ti 116 + Mi 16 - 4096 + page_size"
    unfolding large_region_def iterate_kv_def iterate_def iter_impl_fold[OF q] unfolding io
    by (simp add: region_step_def page_size_def Ti_def Gi_def Mi_def Ki_def)
  with io v so show ?thesis by blast
qed

section \<open>Witness\<close>

definition spaced_tree :: "(u64, u64) btree_map" where
  "spaced_tree = \<lparr>m_root = Node ([(Ti 116, 4096), (Ti 116 + Mi 16, 8192)] @ replicate 167 (0, 0)) (replicate 170 Null) 2, m_size = 2\<rparr>"

lemma spaced_tree_inorder: "inorder (m_root spaced_tree) = [(Ti 116, 4096), (Ti 116 + Mi 16, 8192)]"
  unfolding spaced_tree_def by (simp only: btree.simps, subst inorder_leaf) simp_all

lemma large_region_disjoint_witness:
  "\<exists>r. r = large_region 2 spaced_tree \<and> Ti 96 + Ti 20 \<le> r \<and>
    (unat (Ti 116) + unat (4096 :: u64) \<le> unat r \<or> unat r + unat (2 :: u64) * 4096 < unat (Ti 116)) \<and>
    (unat (Ti 116 + Mi 16) + unat (8192 :: u64) \<le> unat r \<or> unat r + unat (2 :: u64) * 4096 < unat (Ti 116 + Mi 16))"
proof (intro exI conjI)
  show "large_region 2 spaced_tree = large_region 2 spaced_tree" by (rule refl)
  have p: "spaced (unat (Ti 96 + Ti 20)) (inorder (m_root spaced_tree))" "unat (2 :: u64) * 4096 < 2 ^ 63"
    by (simp_all add: spaced_tree_inorder Ti_def Gi_def Mi_def Ki_def)
  note r = large_region_disjoint[OF p, unfolded spaced_tree_inorder]
  show "Ti 96 + Ti 20 \<le> large_region 2 spaced_tree" by (rule conjunct1[OF r])
  show "unat (Ti 116) + unat (4096 :: u64) \<le> unat (large_region 2 spaced_tree) \<or>
      unat (large_region 2 spaced_tree) + unat (2 :: u64) * 4096 < unat (Ti 116)"
    using bspec[OF conjunct2[OF r] list.set_intros(1)] unfolding case_prod_conv .
  show "unat (Ti 116 + Mi 16) + unat (8192 :: u64) \<le> unat (large_region 2 spaced_tree) \<or>
      unat (large_region 2 spaced_tree) + unat (2 :: u64) * 4096 < unat (Ti 116 + Mi 16)"
    using bspec[OF conjunct2[OF r] list.set_intros(2)[OF list.set_intros(1)]] unfolding case_prod_conv .
qed

end
