(* ===== verification/Process.thy ===== *)
theory Process
  imports Paging BTree
begin

text \<open>
  \<^verbatim>\<open>src/high/process/process.cpp\<close> and \<^verbatim>\<open>include/process/process.h\<close>: the processes, their relations
  (children, friends, adoption) and the system calls that change them.  A process is the index of its
  object; shared pointers count in \<open>strong\<close>, weak pointers are optional indices, and a process is
  destroyed when its last shared pointer goes.  A process that \<open>get_process_by_descriptor\<close> returns as a
  raw pointer becomes a shared pointer with a control block of its own (\<open>Rogue\<close>), which destroys the
  process when it goes out of scope.  The weak counts, and with them the life of a control block, are not modelled:
  a weak pointer locks as long as the strong count of its process is positive.
\<close>

section \<open>Processes\<close>

record memory_area =
  virt :: u64
  phys :: u64
  area_flags :: Flags
  area_size :: u64

datatype argument_type = number | null_terminated | fixed_length | dynamic_length

record argument_descriptor =
  arg_type :: argument_type
  width :: u8
  arg_length :: u64

record method_descriptor =
  method_name :: "u8 list"
  arguments :: "argument_descriptor list"
  expected_argument_count :: u64
  call_address :: u64

record thread =
  owner :: "nat option"
  working_in :: "nat list"
  thread_memory :: "memory_area list"
  stack_ptr :: u64
  code_ptr :: u64

record process =
  methods :: "method_descriptor list"
  pname :: "u8 list"
  pid :: u64
  main_thread :: thread
  parent :: "nat option"
  children :: "nat list"
  friends :: "nat option list"
  pending_adoption :: "nat option list"
  adopter :: "nat option"
  self :: "nat option"
  proc_memory :: "memory_area list"
  method_call_argument_memory :: "(u64, memory_area) btree_map"
  strong :: nat
  destroyed :: bool

record world =
  procs :: "process list"
  next_pid :: u64

definition empty_thread :: thread where
  "empty_thread = \<lparr>owner = None, working_in = [], thread_memory = [], stack_ptr = 0, code_ptr = 0\<rparr>"

text \<open>\<open>new process()\<close>: the constructor takes the next process id.\<close>

definition new_process :: "world \<Rightarrow> nat \<times> world" where
  "new_process w = (length (procs w), w\<lparr>
     procs := procs w @ [\<lparr>methods = [], pname = [], pid = next_pid w, main_thread = empty_thread, parent = None, children = [],
       friends = [], pending_adoption = [], adopter = None, self = None, proc_memory = [],
       method_call_argument_memory = btree_empty, strong = 0, destroyed = False\<rparr>],
     next_pid := next_pid w + 1\<rparr>)"

section \<open>References\<close>

definition upd :: "nat \<Rightarrow> (process \<Rightarrow> process) \<Rightarrow> world \<Rightarrow> world" where
  "upd i f w = w\<lparr>procs := (procs w)[i := f (procs w ! i)]\<rparr>"

definition deref :: "world \<Rightarrow> nat \<Rightarrow> process res" where
  "deref w i = (if i < length (procs w) \<and> \<not> destroyed (procs w ! i) then Ret (procs w ! i) else Stop Undef)"

definition lock_weak :: "world \<Rightarrow> nat option \<Rightarrow> nat option" where
  "lock_weak w x = (case x of None \<Rightarrow> None
     | Some i \<Rightarrow> if i < length (procs w) \<and> 0 < strong (procs w ! i) then Some i else None)"

definition retain :: "nat \<Rightarrow> world \<Rightarrow> world" where
  "retain i = upd i (\<lambda>p. p\<lparr>strong := Suc (strong p)\<rparr>)"

definition owned :: "process \<Rightarrow> nat list" where
  "owned p = children p @ working_in (main_thread p)"

definition destroy :: "process \<Rightarrow> process" where
  "destroy p = p\<lparr>destroyed := True, children := [], main_thread := (main_thread p)\<lparr>working_in := []\<rparr>\<rparr>"

lemma procs_upd [simp]: "length (procs (upd i f w)) = length (procs w)" "next_pid (upd i f w) = next_pid w"
  by (simp_all add: upd_def)

lemma nth_upd [simp]: "i < length (procs w) \<Longrightarrow> procs (upd i f w) ! j = (if i = j then f (procs w ! j) else procs w ! j)"
  by (simp add: upd_def nth_list_update)

text \<open>Dropping shared pointers; the last one destroys the process and drops those it holds.\<close>

lemma sum_strong_less:
  assumes "i < length (procs w)" "strong (f (procs w ! i)) < strong (procs w ! i)"
  shows "sum_list (map strong (procs (upd i f w))) < sum_list (map strong (procs w))"
proof -
  have "strong (procs w ! i) \<le> sum_list (map strong (procs w))"
    using elem_le_sum_list[of i "map strong (procs w)"] assms(1) by simp
  then show ?thesis using assms by (simp add: upd_def map_update sum_list_update)
qed

function release_all :: "nat list \<Rightarrow> world \<Rightarrow> world res" where
  "release_all [] w = Ret w"
| "release_all (i # is) w =
     (if i < length (procs w) \<and> 0 < strong (procs w ! i) then
        if strong (procs w ! i) = 1 then
          if destroyed (procs w ! i) then Stop Undef
          else release_all (owned (procs w ! i) @ is) (upd i (\<lambda>p. (destroy p)\<lparr>strong := 0\<rparr>) w)
        else release_all is (upd i (\<lambda>p. p\<lparr>strong := strong p - 1\<rparr>) w)
      else Stop Undef)"
  by pat_completeness auto
termination
  by (relation "measure (\<lambda>(is, w). sum_list (map strong (procs w)))") (auto intro!: sum_strong_less)

text \<open>What \<open>get_process_by_descriptor\<close> returns, and its end of life.\<close>

datatype handle = Proper nat | Rogue nat

fun handle_id :: "handle \<Rightarrow> nat" where
  "handle_id (Proper i) = i"
| "handle_id (Rogue i) = i"

text \<open>A weak pointer made from it; one to a rogue control block is dead after the system call.\<close>

fun handle_weak :: "handle \<Rightarrow> nat option" where
  "handle_weak (Proper i) = Some i"
| "handle_weak (Rogue i) = None"

fun drop_handle :: "handle \<Rightarrow> world \<Rightarrow> world res" where
  "drop_handle (Proper i) w = Ret w"
| "drop_handle (Rogue i) w = bindr (deref w i) (\<lambda>p. release_all (owned p) (upd i destroy w))"

section \<open>Finding processes\<close>

text \<open>The process a thread works in; \<open>th\<close> is the process whose main thread it is.\<close>

definition get_current :: "world \<Rightarrow> nat \<Rightarrow> nat option" where
  "get_current w th = (let t = main_thread (procs w ! th)
     in if working_in t = [] then lock_weak w (owner t) else Some (last (working_in t)))"

definition current :: "world \<Rightarrow> nat \<Rightarrow> nat res" where
  "current w th = or_undef (get_current w th)"

text \<open>Loops over a list of pointers to the first element with a property of its process; a weak pointer
  is locked and dereferenced without a check.\<close>

fun find_strong :: "world \<Rightarrow> (process \<Rightarrow> bool) \<Rightarrow> nat list \<Rightarrow> nat \<Rightarrow> (nat \<times> nat) option res" where
  "find_strong w P [] k = Ret None"
| "find_strong w P (i # is) k =
     bindr (deref w i) (\<lambda>p. if P p then Ret (Some (k, i)) else find_strong w P is (Suc k))"

fun find_weak :: "world \<Rightarrow> (process \<Rightarrow> bool) \<Rightarrow> nat option list \<Rightarrow> nat \<Rightarrow> (nat \<times> nat) option res" where
  "find_weak w P [] k = Ret None"
| "find_weak w P (x # xs) k =
     bindr (or_undef (lock_weak w x)) (\<lambda>i.
     bindr (deref w i) (\<lambda>p. if P p then Ret (Some (k, i)) else find_weak w P xs (Suc k)))"

text \<open>The loop with the check.\<close>

fun find_locked :: "world \<Rightarrow> (process \<Rightarrow> bool) \<Rightarrow> nat option list \<Rightarrow> nat option res" where
  "find_locked w P [] = Ret None"
| "find_locked w P (x # xs) =
     (case lock_weak w x of
        None \<Rightarrow> find_locked w P xs
      | Some i \<Rightarrow> bindr (deref w i) (\<lambda>p. if P p then Ret (Some i) else find_locked w P xs))"

text \<open>Zero-terminated strings: \<open>char_at s k\<close> reads up to the terminator.\<close>

definition char_at :: "u8 list \<Rightarrow> nat \<Rightarrow> u8" where
  "char_at s k = (if k < length s then s ! k else 0)"

definition str_child :: "u8 list" where "str_child = [0x63, 0x68, 0x69, 0x6C, 0x64]"
definition str_friend :: "u8 list" where "str_friend = [0x66, 0x72, 0x69, 0x65, 0x6E, 0x64]"
definition str_adoption :: "u8 list" where "str_adoption = [0x61, 0x64, 0x6F, 0x70, 0x74, 0x69, 0x6F, 0x6E]"
definition colon :: u8 where "colon = 0x3A"
definition arrow :: u8 where "arrow = 0x3E"

text \<open>\<open>len >= sizeof(kw) && memcmp(s, kw, sizeof(kw) - 1) == 0\<close>, where \<open>sizeof\<close> counts the terminator.\<close>

definition starts_with :: "u8 list \<Rightarrow> u8 list \<Rightarrow> bool" where
  "starts_with kw s \<longleftrightarrow> length kw + 1 \<le> length s \<and> take (length kw) s = kw"

text \<open>\<open>find_process\<close>.\<close>

function find_process :: "world \<Rightarrow> nat \<Rightarrow> u8 list \<Rightarrow> bool \<Rightarrow> nat option res" where
  "find_process w i s with_adoption =
     bindr (deref w i) (\<lambda>p.
       if starts_with str_child s then
         if char_at s (length str_child + 1) \<noteq> colon then Ret None
         else
           let rest = drop (length str_child + 1) s;
               name = takeWhile (\<lambda>c. c \<noteq> arrow) rest
           in case find_strong w (\<lambda>c. pname c = name) (children p) 0 of
                Inl e \<Rightarrow> Stop e
              | Inr None \<Rightarrow> Ret None
              | Inr (Some (k, c)) \<Rightarrow>
                  if length name = length rest then Ret (Some c)
                  else find_process w c (drop (length name + 1) rest) False
       else if starts_with str_friend s then
         if char_at s (length str_friend + 1) \<noteq> colon then Ret None
         else
           let rest = drop (length str_friend + 1) s;
               name = takeWhile (\<lambda>c. c \<noteq> arrow) rest
           in case find_weak w (\<lambda>c. pname c = name) (friends p) 0 of
                Inl e \<Rightarrow> Stop e
              | Inr None \<Rightarrow> Ret None
              | Inr (Some (k, c)) \<Rightarrow>
                  if length name = length rest then Ret (Some c)
                  else find_process w c (drop (length name + 1) rest) False
       else if with_adoption \<and> starts_with str_adoption s then
         if char_at s (length str_adoption + 1) \<noteq> colon then Ret None
         else
           let rest = drop (length str_adoption + 1) s;
               name = takeWhile (\<lambda>c. c \<noteq> arrow) rest
           in case find_weak w (\<lambda>c. pname c = name) (pending_adoption p) 0 of
                Inl e \<Rightarrow> Stop e
              | Inr None \<Rightarrow> Ret None
              | Inr (Some (k, c)) \<Rightarrow> if length name = length rest then Ret (Some c) else Ret None
       else Ret None)"
  by pat_completeness auto
termination
  by (relation "measure (\<lambda>(w, i, s, a). length s)") (auto simp: starts_with_def)

text \<open>\<open>get_process_by_descriptor\<close> for a number: the process itself, its parent, its children, friends and
  pending adoptions, then the same for the children and the friends.  The recursion has no memory of
  visited processes; \<open>None\<close> is a search that does not end.\<close>

definition number_here :: "world \<Rightarrow> nat \<Rightarrow> u64 \<Rightarrow> nat option res" where
  "number_here w i n =
     bindr (deref w i) (\<lambda>p.
       if pid p = n then Ret (Some i)
       else bindr (find_locked w (\<lambda>q. pid q = n) [parent p]) (\<lambda>r1. if r1 \<noteq> None then Ret r1
       else bindr (find_strong w (\<lambda>q. pid q = n) (children p) 0) (\<lambda>r2. if r2 \<noteq> None then Ret (map_option snd r2)
       else bindr (find_locked w (\<lambda>q. pid q = n) (friends p)) (\<lambda>r3. if r3 \<noteq> None then Ret r3
       else find_locked w (\<lambda>q. pid q = n) (pending_adoption p)))))"

definition neighbours :: "world \<Rightarrow> nat \<Rightarrow> nat list" where
  "neighbours w i = children (procs w ! i) @ map the (filter (\<lambda>x. x \<noteq> None) (map (lock_weak w) (friends (procs w ! i))))"

partial_function (option) find_number :: "world \<Rightarrow> u64 \<Rightarrow> nat list \<Rightarrow> nat option res option" where
  "find_number w n is =
     (case is of
        [] \<Rightarrow> Some (Ret None)
      | i # rest \<Rightarrow>
          (case number_here w i n of
             Inl e \<Rightarrow> Some (Stop e)
           | Inr (Some j) \<Rightarrow> Some (Ret (Some j))
           | Inr None \<Rightarrow> find_number w n (neighbours w i @ rest)))"

datatype process_descriptor =
    Number u64
  | Path "u8 list"
  | Self
  | Parent
  | Invalid_short
  | Invalid_type

definition get_process_by_descriptor :: "world \<Rightarrow> nat \<Rightarrow> process_descriptor \<Rightarrow> bool \<Rightarrow> handle option res option" where
  "get_process_by_descriptor w i d with_adoption = (case d of
     Self \<Rightarrow> Some (bindr (deref w i) (\<lambda>p. Ret (map_option Proper (lock_weak w (self p)))))
   | Parent \<Rightarrow> Some (bindr (deref w i) (\<lambda>p. Ret (map_option Proper (lock_weak w (parent p)))))
   | Number n \<Rightarrow> bindo (find_number w n [i]) (\<lambda>r. Some (Ret (map_option Rogue r)))
   | Path s \<Rightarrow> Some (bindr (find_process w i s with_adoption) (\<lambda>r. Ret (map_option Rogue r)))
   | _ \<Rightarrow> Some (Ret None))"

section \<open>Disowning\<close>

definition remove_at :: "nat \<Rightarrow> 'a list \<Rightarrow> 'a list" where
  "remove_at k xs = take k xs @ drop (Suc k) xs"

text \<open>\<open>handle_disown\<close>: a process that its adopter wants becomes the adopter's child.\<close>

definition handle_disown :: "nat \<Rightarrow> world \<Rightarrow> world res" where
  "handle_disown i w =
     bindr (deref w i) (\<lambda>p.
       case lock_weak w (adopter p) of
         None \<Rightarrow> Ret w
       | Some a \<Rightarrow>
           bindr (deref w a) (\<lambda>q.
             let k = index_of (\<lambda>x. lock_weak w x = Some i) (pending_adoption q)
             in if k < length (pending_adoption q)
                then Ret (retain i (upd a (\<lambda>q. q\<lparr>pending_adoption := remove_at k (pending_adoption q), children := children q @ [i]\<rparr>) w))
                else Ret w))"

definition remove_child :: "nat \<Rightarrow> nat \<Rightarrow> nat \<Rightarrow> world \<Rightarrow> world res" where
  "remove_child i k c w =
     bindr (handle_disown c w) (\<lambda>w1.
       release_all [c] (upd i (\<lambda>p. p\<lparr>children := remove_at k (children p)\<rparr>) w1))"

text \<open>\<open>target->adopter.reset()\<close> lowers the weak count and leaves the pointer and its control block in place
  (\<open>smart_pointer.h\<close>, \<open>weak_ptr::reset\<close>), so that the adopter of the target still locks afterwards.\<close>

definition remove_pending :: "nat \<Rightarrow> nat \<Rightarrow> world \<Rightarrow> world" where
  "remove_pending i k w = upd i (\<lambda>p. p\<lparr>pending_adoption := remove_at k (pending_adoption p)\<rparr>) w"

definition remove_friend :: "nat \<Rightarrow> nat \<Rightarrow> world \<Rightarrow> world" where
  "remove_friend i k w = upd i (\<lambda>p. p\<lparr>friends := remove_at k (friends p)\<rparr>) w"

definition disown_number :: "nat \<Rightarrow> u64 \<Rightarrow> world \<Rightarrow> world res" where
  "disown_number i n w =
     bindr (deref w i) (\<lambda>p.
     bindr (find_strong w (\<lambda>q. pid q = n) (children p) 0) (\<lambda>child.
       case child of
         Some (k, c) \<Rightarrow> remove_child i k c w
       | None \<Rightarrow>
           bindr (find_weak w (\<lambda>q. pid q = n) (friends p) 0) (\<lambda>friend.
             case friend of
               Some (k, c) \<Rightarrow> Ret (remove_friend i k w)
             | None \<Rightarrow>
                 bindr (find_weak w (\<lambda>q. pid q = n) (pending_adoption p) 0) (\<lambda>adopted.
                   case adopted of
                     Some (k, c) \<Rightarrow> Ret (remove_pending i k w)
                   | None \<Rightarrow> Ret w))))"

text \<open>Whether the string selects the list of the keyword; the name is what follows.\<close>

definition selects :: "u8 list \<Rightarrow> u8 list \<Rightarrow> bool" where
  "selects kw s \<longleftrightarrow> starts_with kw s \<and> char_at s (length kw + 1) = colon"

definition disown_path :: "nat \<Rightarrow> u8 list \<Rightarrow> world \<Rightarrow> world res" where
  "disown_path i s w =
     bindr (deref w i) (\<lambda>p.
       if selects str_child s then
         bindr (find_strong w (\<lambda>q. pname q = drop (length str_child + 1) s) (children p) 0) (\<lambda>child. Ret w)
       else if selects str_friend s then
         bindr (find_weak w (\<lambda>q. pname q = drop (length str_friend + 1) s) (friends p) 0) (\<lambda>friend.
           case friend of Some (k, c) \<Rightarrow> Ret (remove_friend i k w) | None \<Rightarrow> Ret w)
       else if selects str_adoption s then
         bindr (find_weak w (\<lambda>q. pname q = drop (length str_adoption + 1) s) (pending_adoption p) 0) (\<lambda>adopted.
           case adopted of Some (k, c) \<Rightarrow> Ret (remove_pending i k w) | None \<Rightarrow> Ret w)
       else Ret w)"

definition on_syscall_disown :: "nat \<Rightarrow> process_descriptor \<Rightarrow> world \<Rightarrow> world res" where
  "on_syscall_disown th d w = (case d of
     Number n \<Rightarrow> bindr (current w th) (\<lambda>i. disown_number i n w)
   | Path s \<Rightarrow> bindr (current w th) (\<lambda>i. disown_path i s w)
   | _ \<Rightarrow> Ret w)"

section \<open>Adoption, friends, names\<close>

text \<open>The loop over the ancestors of the target, from its parent; it compares them with the target.\<close>

partial_function (option) ancestor_is :: "world \<Rightarrow> nat \<Rightarrow> nat option \<Rightarrow> bool res option" where
  "ancestor_is w target p =
     (case p of
        None \<Rightarrow> Some (Ret False)
      | Some a \<Rightarrow>
          (case deref w a of
             Inl e \<Rightarrow> Some (Stop e)
           | Inr q \<Rightarrow>
               if lock_weak w (parent q) = Some a then Some (Ret False)
               else if target = a then Some (Ret True)
               else ancestor_is w target (lock_weak w (parent q))))"

definition on_syscall_adopt :: "nat \<Rightarrow> process_descriptor \<Rightarrow> world \<Rightarrow> world res option" where
  "on_syscall_adopt th d w =
     bindo (Some (current w th)) (\<lambda>i.
     bindo (get_process_by_descriptor w i d False) (\<lambda>target.
       case target of
         None \<Rightarrow> Some (Ret w)
       | Some h \<Rightarrow>
           let t = handle_id h
           in if t = i then Some (drop_handle h w)
              else
                bindo (Some (deref w t)) (\<lambda>q.
                bindo (ancestor_is w t (lock_weak w (parent q))) (\<lambda>bad.
                  if bad then Some (drop_handle h w)
                  else if lock_weak w (adopter q) \<noteq> None then Some (drop_handle h w)
                  else Some (drop_handle h
                    (upd i (\<lambda>p. p\<lparr>pending_adoption := pending_adoption p @ [handle_weak h]\<rparr>)
                      (upd t (\<lambda>q. q\<lparr>adopter := Some i\<rparr>) w)))))))"

definition on_syscall_make_friend :: "nat \<Rightarrow> process_descriptor \<Rightarrow> process_descriptor \<Rightarrow> world \<Rightarrow> world res option" where
  "on_syscall_make_friend th dA dB w =
     bindo (Some (current w th)) (\<lambda>i.
     bindo (get_process_by_descriptor w i dA False) (\<lambda>targetA.
     bindo (get_process_by_descriptor w i dB False) (\<lambda>targetB.
       case (targetA, targetB) of
         (Some a, Some b) \<Rightarrow>
           Some (bindr (deref w (handle_id b)) (\<lambda>q.
             bindr (drop_handle b (upd (handle_id b) (\<lambda>q. q\<lparr>friends := friends q @ [handle_weak a]\<rparr>) w)) (drop_handle a)))
       | (Some a, None) \<Rightarrow> Some (drop_handle a w)
       | (None, Some b) \<Rightarrow> Some (drop_handle b w)
       | (None, None) \<Rightarrow> Some (Ret w))))"

definition on_syscall_set_name :: "nat \<Rightarrow> u8 list \<Rightarrow> world \<Rightarrow> world res" where
  "on_syscall_set_name th name w = bindr (current w th) (\<lambda>i. bindr (deref w i) (\<lambda>p. Ret (upd i (\<lambda>p. p\<lparr>pname := name\<rparr>) w)))"

text \<open>\<open>cleanup_dead\<close>: as long as there is a dead pointer, the first one is removed.\<close>

function remove_dead :: "world \<Rightarrow> nat option list \<Rightarrow> nat option list" where
  "remove_dead w xs =
     (let k = index_of (\<lambda>x. lock_weak w x = None) xs
      in if k < length xs then remove_dead w (remove_at k xs) else xs)"
  by pat_completeness auto
termination by (relation "measure (\<lambda>(w, xs). length xs)") (auto simp: remove_at_def)

definition cleanup_dead :: "nat \<Rightarrow> world \<Rightarrow> world" where
  "cleanup_dead i w =
     (let w1 = upd i (\<lambda>p. p\<lparr>friends := remove_dead w (friends p)\<rparr>) w
      in upd i (\<lambda>p. p\<lparr>pending_adoption := remove_dead w1 (pending_adoption p)\<rparr>) w1)"

definition add_kernel_method_by_array :: "nat \<Rightarrow> u8 list \<Rightarrow> u64 \<Rightarrow> argument_descriptor list \<Rightarrow> world \<Rightarrow> world" where
  "add_kernel_method_by_array i name addr args w =
     upd i (\<lambda>p. p\<lparr>methods := methods p @ [\<lparr>method_name = name, arguments = args,
       expected_argument_count = fold (\<lambda>a n. if arg_type a = dynamic_length then n + 2 else n + 1) args 0,
       call_address = addr\<rparr>]\<rparr>) w"

lemma remove_dead_filter: "remove_dead w xs = filter (\<lambda>x. lock_weak w x \<noteq> None) xs"
proof (induction w xs rule: remove_dead.induct)
  case (1 w xs)
  let ?dead = "\<lambda>x. lock_weak w x = None"
  have "filter (\<lambda>x. \<not> ?dead x) (remove_at (index_of ?dead xs) xs) = filter (\<lambda>x. \<not> ?dead x) xs"
    by (induction xs) (auto simp: remove_at_def)
  moreover have "filter (\<lambda>x. \<not> ?dead x) xs = xs" if "\<not> index_of ?dead xs < length xs"
    using that by (auto simp: index_of_less intro: filter_True)
  ultimately show ?case using 1 by (subst remove_dead.simps) (auto simp: Let_def simp del: remove_dead.simps)
qed

declare remove_dead.simps [simp del] find_process.simps [simp del]

section \<open>Reference counts\<close>

text \<open>Every count is the number of shared pointers: those of living processes, those of \<open>ws\<close> (being
  dropped) and those outside the processes, \<open>ext\<close>.\<close>

definition refs :: "world \<Rightarrow> nat \<Rightarrow> nat" where
  "refs w i = sum_list (map (\<lambda>p. count_list (owned p) i) (procs w))"

definition ref_inv :: "(nat \<Rightarrow> nat) \<Rightarrow> nat list \<Rightarrow> world \<Rightarrow> bool" where
  "ref_inv ext ws w \<longleftrightarrow>
     (\<forall>i < length (procs w). strong (procs w ! i) = ext i + refs w i + count_list ws i \<and>
        destroyed (procs w ! i) = (strong (procs w ! i) = 0) \<and> (destroyed (procs w ! i) \<longrightarrow> owned (procs w ! i) = []) \<and>
        (\<forall>j \<in> set (owned (procs w ! i)). j < length (procs w))) \<and>
     (\<forall>j \<in> set ws. j < length (procs w))"

lemma refs_upd:
  assumes "i < length (procs w)"
  shows "refs (upd i f w) j + count_list (owned (procs w ! i)) j = refs w j + count_list (owned (f (procs w ! i))) j"
proof -
  have "count_list (owned (procs w ! i)) j \<le> sum_list (map (\<lambda>p. count_list (owned p) j) (procs w))"
    using elem_le_sum_list[of i "map (\<lambda>p. count_list (owned p) j) (procs w)"] assms by simp
  then show ?thesis using assms by (simp add: refs_def upd_def map_update sum_list_update)
qed

lemma refs_upd_same: "i < length (procs w) \<Longrightarrow> owned (f (procs w ! i)) = owned (procs w ! i) \<Longrightarrow> refs (upd i f w) j = refs w j"
  using refs_upd[of i w f j] by simp

lemma owned_simps [simp]:
  "owned (destroy p) = []" "owned (p\<lparr>strong := n\<rparr>) = owned p" "owned (p\<lparr>pending_adoption := xs\<rparr>) = owned p"
  "owned (p\<lparr>friends := xs\<rparr>) = owned p" "owned (p\<lparr>adopter := a\<rparr>) = owned p" "owned (p\<lparr>pname := s\<rparr>) = owned p"
  "owned (p\<lparr>children := cs\<rparr>) = cs @ working_in (main_thread p)"
  by (simp_all add: owned_def destroy_def)

lemma owned_elem_refs: "i < length (procs w) \<Longrightarrow> j \<in> set (owned (procs w ! i)) \<Longrightarrow> 0 < refs w j"
proof -
  assume "i < length (procs w)" "j \<in> set (owned (procs w ! i))"
  then have "0 < count_list (owned (procs w ! i)) j" by (simp add: count_list_0_iff neq0_conv[symmetric] del: neq0_conv)
  then show ?thesis
    using elem_le_sum_list[of i "map (\<lambda>p. count_list (owned p) j) (procs w)"] \<open>i < length (procs w)\<close> by (simp add: refs_def)
qed

lemma ref_invD:
  assumes "ref_inv ext ws w" "i < length (procs w)"
  shows "strong (procs w ! i) = ext i + refs w i + count_list ws i"
    "destroyed (procs w ! i) = (strong (procs w ! i) = 0)"
    "destroyed (procs w ! i) \<Longrightarrow> owned (procs w ! i) = []"
    "j \<in> set (owned (procs w ! i)) \<Longrightarrow> j < length (procs w)"
  using assms unfolding ref_inv_def by blast+

lemma ref_inv_ws: "ref_inv ext ws w \<Longrightarrow> j \<in> set ws \<Longrightarrow> j < length (procs w)"
  unfolding ref_inv_def by blast

lemma ref_invI:
  assumes "\<And>j. j < length (procs w) \<Longrightarrow> strong (procs w ! j) = ext j + refs w j + count_list ws j"
    and "\<And>j. j < length (procs w) \<Longrightarrow> destroyed (procs w ! j) = (strong (procs w ! j) = 0)"
    and "\<And>j. j < length (procs w) \<Longrightarrow> destroyed (procs w ! j) \<Longrightarrow> owned (procs w ! j) = []"
    and "\<And>j x. j < length (procs w) \<Longrightarrow> x \<in> set (owned (procs w ! j)) \<Longrightarrow> x < length (procs w)"
    and "\<And>x. x \<in> set ws \<Longrightarrow> x < length (procs w)"
  shows "ref_inv ext ws w"
  using assms unfolding ref_inv_def by blast

lemma ref_inv_deref: "ref_inv ext ws w \<Longrightarrow> i < length (procs w) \<Longrightarrow> 0 < strong (procs w ! i) \<Longrightarrow> deref w i = Ret (procs w ! i)"
  by (simp add: ref_inv_def deref_def)

lemma ref_inv_child:
  assumes "ref_inv ext ws w" "i < length (procs w)" "j \<in> set (owned (procs w ! i))"
  shows "j < length (procs w)" "0 < strong (procs w ! j)"
proof -
  show j: "j < length (procs w)" using assms unfolding ref_inv_def by blast
  then have "strong (procs w ! j) = ext j + refs w j + count_list ws j" using assms(1) unfolding ref_inv_def by blast
  then show "0 < strong (procs w ! j)" using owned_elem_refs[OF assms(2,3)] by simp
qed

text \<open>Dropping what is to be dropped never fails and leaves the counts right.\<close>

lemma release_all_inv: "ref_inv ext ws w \<Longrightarrow> \<exists>w'. release_all ws w = Ret w' \<and> ref_inv ext [] w' \<and> length (procs w') = length (procs w)"
proof (induction ws w rule: release_all.induct)
  case (2 i "is" w)
  have i: "i < length (procs w)" using 2(3) by (simp add: ref_inv_def)
  have s: "strong (procs w ! i) = ext i + refs w i + Suc (count_list is i)" and
    d: "destroyed (procs w ! i) = (strong (procs w ! i) = 0)"
    using 2(3) i by (simp_all add: ref_inv_def)
  show ?case
  proof (cases "strong (procs w ! i) = 1")
    case True
    let ?w = "upd i (\<lambda>p. (destroy p)\<lparr>strong := 0\<rparr>) w" and ?o = "owned (procs w ! i)"
    have r: "refs ?w j + count_list ?o j = refs w j" for j
      using refs_upd[OF i, of "\<lambda>p. (destroy p)\<lparr>strong := 0\<rparr>" j] by simp
    have "ref_inv ext (?o @ is) ?w"
    proof (rule ref_invI)
      fix j assume "j < length (procs ?w)"
      then have j: "j < length (procs w)" by simp
      note h = ref_invD[OF 2(3) j] r[of j] s True i j
      show "strong (procs ?w ! j) = ext j + refs ?w j + count_list (?o @ is) j" using h by (cases "j = i") simp_all
      show "destroyed (procs ?w ! j) = (strong (procs ?w ! j) = 0)" using h by (cases "j = i") (simp_all add: destroy_def)
      show "destroyed (procs ?w ! j) \<Longrightarrow> owned (procs ?w ! j) = []" using h by (cases "j = i") simp_all
      show "x \<in> set (owned (procs ?w ! j)) \<Longrightarrow> x < length (procs ?w)" for x using ref_invD(4)[OF 2(3) j, of x] i j by (cases "j = i") simp_all
    next
      fix x assume "x \<in> set (?o @ is)"
      then show "x < length (procs ?w)" using ref_inv_ws[OF 2(3), of x] ref_invD(4)[OF 2(3) i, of x] by auto
    qed
    then obtain w' where "release_all (?o @ is) ?w = Ret w'" "ref_inv ext [] w'" "length (procs w') = length (procs ?w)"
      using 2(1) i True d by auto
    then show ?thesis using i True d by auto
  next
    case False
    let ?w = "upd i (\<lambda>p. p\<lparr>strong := strong p - 1\<rparr>) w"
    have r: "refs ?w j = refs w j" for j by (intro refs_upd_same[OF i]) simp
    have "ref_inv ext is ?w"
    proof (rule ref_invI)
      fix j assume "j < length (procs ?w)"
      then have j: "j < length (procs w)" by simp
      note h = ref_invD[OF 2(3) j] r[of j] s False i j
      show "strong (procs ?w ! j) = ext j + refs ?w j + count_list is j" using h by (cases "j = i") simp_all
      show "destroyed (procs ?w ! j) = (strong (procs ?w ! j) = 0)" using h by (cases "j = i") simp_all
      show "destroyed (procs ?w ! j) \<Longrightarrow> owned (procs ?w ! j) = []" using h by (cases "j = i") simp_all
      show "x \<in> set (owned (procs ?w ! j)) \<Longrightarrow> x < length (procs ?w)" for x using ref_invD(4)[OF 2(3) j, of x] i j by (cases "j = i") simp_all
    next
      fix x assume "x \<in> set is"
      then show "x < length (procs ?w)" using ref_inv_ws[OF 2(3), of x] by simp
    qed
    then obtain w' where "release_all is ?w = Ret w'" "ref_inv ext [] w'" "length (procs w') = length (procs ?w)"
      using 2(2) i False s by auto
    then show ?thesis using i False s by auto
  qed
qed simp

declare release_all.simps [simp del]

text \<open>The loops over living processes.\<close>

lemma find_strong_alive:
  assumes "\<forall>c \<in> set cs. deref w c = Ret (procs w ! c)"
  shows "\<exists>r. find_strong w P cs k = Ret r \<and> (\<forall>m c. r = Some (m, c) \<longrightarrow> k \<le> m \<and> m < k + length cs \<and> cs ! (m - k) = c \<and> P (procs w ! c))"
  using assms
proof (induction cs arbitrary: k)
  case (Cons c cs)
  show ?case
  proof (cases "P (procs w ! c)")
    case False
    from Cons obtain r where r: "find_strong w P cs (Suc k) = Ret r"
      "\<forall>m c. r = Some (m, c) \<longrightarrow> Suc k \<le> m \<and> m < Suc k + length cs \<and> cs ! (m - Suc k) = c \<and> P (procs w ! c)" by force
    then show ?thesis using Cons.prems False by (auto simp: nth_Cons')
  qed (use Cons.prems in auto)
qed simp

lemma find_weak_alive:
  assumes "\<forall>x \<in> set xs. \<exists>c. lock_weak w x = Some c \<and> deref w c = Ret (procs w ! c)"
  shows "\<exists>r. find_weak w P xs k = Ret r \<and> (\<forall>m c. r = Some (m, c) \<longrightarrow> k \<le> m \<and> m < k + length xs \<and> lock_weak w (xs ! (m - k)) = Some c \<and> P (procs w ! c))"
  using assms
proof (induction xs arbitrary: k)
  case (Cons x xs)
  then obtain c where c: "lock_weak w x = Some c" "deref w c = Ret (procs w ! c)" by auto
  show ?case
  proof (cases "P (procs w ! c)")
    case False
    from Cons obtain r where r: "find_weak w P xs (Suc k) = Ret r"
      "\<forall>m c. r = Some (m, c) \<longrightarrow> Suc k \<le> m \<and> m < Suc k + length xs \<and> lock_weak w (xs ! (m - Suc k)) = Some c \<and> P (procs w ! c)" by force
    then show ?thesis using c False by (auto simp: nth_Cons')
  qed (use c in auto)
qed simp

lemma count_remove_at: "k < length xs \<Longrightarrow> count_list (remove_at k xs) j + (if xs ! k = j then 1 else 0) = count_list xs j"
proof -
  assume "k < length xs"
  then have "count_list xs j = count_list (take k xs @ xs ! k # drop (Suc k) xs) j" by (simp add: id_take_nth_drop[symmetric])
  then show ?thesis by (simp add: remove_at_def)
qed

lemma ref_inv_cong:
  assumes inv: "ref_inv ext ws w" and i: "i < length (procs w)"
    and f: "\<And>p. owned (f p) = owned p" "\<And>p. strong (f p) = strong p" "\<And>p. destroyed (f p) = destroyed p"
  shows "ref_inv ext ws (upd i f w)"
proof (rule ref_invI)
  fix j assume "j < length (procs (upd i f w))"
  then have j: "j < length (procs w)" by simp
  note h = ref_invD[OF inv j] refs_upd_same[of i w f j, OF i f(1)] i j f
  show "strong (procs (upd i f w) ! j) = ext j + refs (upd i f w) j + count_list ws j" using h by (cases "j = i") simp_all
  show "destroyed (procs (upd i f w) ! j) = (strong (procs (upd i f w) ! j) = 0)" using h by (cases "j = i") simp_all
  show "destroyed (procs (upd i f w) ! j) \<Longrightarrow> owned (procs (upd i f w) ! j) = []" using h by (cases "j = i") simp_all
  show "x \<in> set (owned (procs (upd i f w) ! j)) \<Longrightarrow> x < length (procs (upd i f w))" for x
    using ref_invD(4)[OF inv j, of x] i j f by (cases "j = i") simp_all
qed (use ref_inv_ws[OF inv] in simp)

text \<open>Moving a pointer into a children list, and taking one out for dropping.\<close>

lemma ref_inv_push_child:
  assumes inv: "ref_inv ext ws w" and a: "a < length (procs w)" "\<not> destroyed (procs w ! a)" and c: "c < length (procs w)" "0 < strong (procs w ! c)"
  shows "ref_inv ext ws (retain c (upd a (\<lambda>q. q\<lparr>pending_adoption := f q, children := children q @ [c]\<rparr>) w))"
proof -
  let ?g = "\<lambda>q. q\<lparr>pending_adoption := f q, children := children q @ [c]\<rparr>"
  let ?w1 = "upd a ?g w"
  let ?w = "retain c ?w1"
  have cl: "count_list (owned (?g (procs w ! a))) j = count_list (owned (procs w ! a)) j + (if c = j then 1 else 0)" for j
    by (simp add: owned_def)
  have "refs ?w j = refs ?w1 j" for j unfolding retain_def using c by (intro refs_upd_same) simp_all
  moreover have "refs ?w1 j = refs w j + (if c = j then 1 else 0)" for j
    using refs_upd[OF a(1), of ?g j] cl[of j] by simp
  ultimately have r: "refs ?w j = refs w j + (if c = j then 1 else 0)" for j by simp
  show ?thesis
  proof (rule ref_invI)
    fix j assume "j < length (procs ?w)"
    then have j: "j < length (procs w)" by (simp add: retain_def)
    have p: "procs ?w ! j = (if j = c then (\<lambda>p. p\<lparr>strong := Suc (strong p)\<rparr>) else id) ((if j = a then ?g else id) (procs w ! j))"
      using a c j by (simp add: retain_def)
    note h = ref_invD[OF inv j]
    show "strong (procs ?w ! j) = ext j + refs ?w j + count_list ws j" unfolding p r using h(1) by auto
    show "destroyed (procs ?w ! j) = (strong (procs ?w ! j) = 0)" unfolding p using h(2) c(2) by auto
    show "destroyed (procs ?w ! j) \<Longrightarrow> owned (procs ?w ! j) = []" unfolding p using h(3) a(2) by (auto split: if_splits)
    show "x \<in> set (owned (procs ?w ! j)) \<Longrightarrow> x < length (procs ?w)" for x
      unfolding p using h(4)[of x] c(1) by (auto simp: retain_def owned_def split: if_splits)
  qed (use ref_inv_ws[OF inv] in \<open>simp add: retain_def\<close>)
qed

lemma ref_inv_take_child:
  assumes inv: "ref_inv ext [] w" and i: "i < length (procs w)" and k: "k < length (children (procs w ! i))" "children (procs w ! i) ! k = c"
  shows "ref_inv ext [c] (upd i (\<lambda>p. p\<lparr>children := remove_at k (children p)\<rparr>) w)"
proof -
  let ?g = "\<lambda>p. p\<lparr>children := remove_at k (children p)\<rparr>"
  let ?w = "upd i ?g w"
  have r: "refs ?w j + (if c = j then 1 else 0) = refs w j" for j
    using refs_upd[OF i, of ?g j] count_remove_at[OF k(1), of j] k(2) by (simp add: owned_def)
  have c: "c < length (procs w)" using ref_inv_child(1)[OF inv i, of c] k by (auto simp: owned_def in_set_conv_nth)
  show ?thesis
  proof (rule ref_invI)
    fix j assume "j < length (procs ?w)"
    then have j: "j < length (procs w)" by simp
    have p: "procs ?w ! j = (if j = i then ?g else id) (procs w ! j)" using i j by simp
    note h = ref_invD[OF inv j]
    show "strong (procs ?w ! j) = ext j + refs ?w j + count_list [c] j" unfolding p using h(1) r[of j] by auto
    show "destroyed (procs ?w ! j) = (strong (procs ?w ! j) = 0)" unfolding p using h(2) by auto
    show "destroyed (procs ?w ! j) \<Longrightarrow> owned (procs ?w ! j) = []"
      unfolding p using h(3) k(1) by (auto simp: owned_def split: if_splits)
    show "x \<in> set (owned (procs ?w ! j)) \<Longrightarrow> x < length (procs ?w)" for x
      unfolding p using h(4)[of x] by (auto simp: owned_def remove_at_def split: if_splits dest: in_set_takeD in_set_dropD)
  qed (use c in simp)
qed

lemma handle_disown_inv:
  assumes inv: "ref_inv ext [] w" and c: "c < length (procs w)" "0 < strong (procs w ! c)"
  shows "\<exists>w'. handle_disown c w = Ret w' \<and> ref_inv ext [] w' \<and> length (procs w') = length (procs w) \<and>
    (\<forall>i < length (procs w). \<exists>xs. children (procs w' ! i) = children (procs w ! i) @ xs)"
proof (cases "lock_weak w (adopter (procs w ! c))")
  case None
  then show ?thesis using ref_inv_deref[OF inv c] inv by (simp add: handle_disown_def)
next
  case (Some a)
  then have a: "a < length (procs w)" "0 < strong (procs w ! a)" by (auto simp: lock_weak_def split: option.splits if_splits)
  then have "\<not> destroyed (procs w ! a)" using inv by (simp add: ref_inv_def)
  note push = ref_inv_push_child[OF inv a(1) this c]
  have "\<forall>i < length (procs w). \<exists>xs. children (procs (retain c (upd a (\<lambda>q. q\<lparr>pending_adoption := f q, children := children q @ [c]\<rparr>) w)) ! i) =
      children (procs w ! i) @ xs" for f
    using a c by (auto simp: retain_def)
  then show ?thesis
    using Some ref_inv_deref[OF inv c] ref_inv_deref[OF inv a] inv push
    by (auto simp: handle_disown_def Let_def retain_def)
qed

lemma disown_number_inv:
  assumes inv: "ref_inv ext [] w" and i: "i < length (procs w)" "0 < strong (procs w ! i)"
    and weak: "\<forall>x \<in> set (friends (procs w ! i) @ pending_adoption (procs w ! i)). lock_weak w x \<noteq> None"
  shows "\<exists>w'. disown_number i n w = Ret w' \<and> ref_inv ext [] w'"
proof -
  have di: "deref w i = Ret (procs w ! i)" by (rule ref_inv_deref[OF inv i])
  have "\<forall>c \<in> set (children (procs w ! i)). deref w c = Ret (procs w ! c)"
    using ref_inv_child[OF inv i(1)] ref_inv_deref[OF inv] by (auto simp: owned_def)
  from find_strong_alive[OF this, of "\<lambda>q. pid q = n" 0] obtain r1 where r1:
    "find_strong w (\<lambda>q. pid q = n) (children (procs w ! i)) 0 = Ret r1"
    "\<forall>m c. r1 = Some (m, c) \<longrightarrow> m < length (children (procs w ! i)) \<and> children (procs w ! i) ! m = c" by auto
  have alive: "\<exists>c. lock_weak w x = Some c \<and> deref w c = Ret (procs w ! c)"
    if "x \<in> set (friends (procs w ! i) @ pending_adoption (procs w ! i))" for x
    using weak that ref_inv_deref[OF inv] by (fastforce simp: lock_weak_def split: option.splits if_splits)
  obtain r2 where r2: "find_weak w (\<lambda>q. pid q = n) (friends (procs w ! i)) 0 = Ret r2"
    using find_weak_alive[of "friends (procs w ! i)" w "\<lambda>q. pid q = n" 0] alive by auto
  obtain r3 where r3: "find_weak w (\<lambda>q. pid q = n) (pending_adoption (procs w ! i)) 0 = Ret r3"
    "\<forall>m c. r3 = Some (m, c) \<longrightarrow> lock_weak w (pending_adoption (procs w ! i) ! m) = Some c"
    using find_weak_alive[of "pending_adoption (procs w ! i)" w "\<lambda>q. pid q = n" 0] alive by auto
  show ?thesis
  proof (cases r1)
    case (Some mc)
    obtain m c where mc: "mc = (m, c)" by (cases mc)
    have m: "m < length (children (procs w ! i))" "children (procs w ! i) ! m = c" using r1(2) Some mc by auto
    then have "c \<in> set (owned (procs w ! i))" by (auto simp: owned_def)
    note c = ref_inv_child[OF inv i(1) this]
    obtain w1 xs where w1: "handle_disown c w = Ret w1" "ref_inv ext [] w1" "length (procs w1) = length (procs w)"
      "children (procs w1 ! i) = children (procs w ! i) @ xs"
      using handle_disown_inv[OF inv c] i(1) by blast
    have "ref_inv ext [c] (upd i (\<lambda>p. p\<lparr>children := remove_at m (children p)\<rparr>) w1)"
      using w1 m i(1) by (intro ref_inv_take_child) (simp_all add: nth_append)
    from release_all_inv[OF this] show ?thesis
      using w1(1) di r1(1) Some mc by (auto simp: disown_number_def remove_child_def)
  next
    case None
    have fr: "ref_inv ext [] (remove_friend i k w)" for k
      unfolding remove_friend_def by (intro ref_inv_cong[OF inv i(1)]) simp_all
    have pe: "ref_inv ext [] (remove_pending i k w)" for k
      unfolding remove_pending_def by (intro ref_inv_cong[OF inv i(1)]) simp_all
    show ?thesis
      using None di r1(1) r2 r3(1) inv fr pe by (auto simp: disown_number_def split: option.splits)
  qed
qed

section \<open>Searches that do not end\<close>

text \<open>A set of processes each of which passes the search on to another one of the set first.\<close>

definition endless :: "world \<Rightarrow> u64 \<Rightarrow> nat set \<Rightarrow> bool" where
  "endless w n S \<longleftrightarrow> (\<forall>i \<in> S. number_here w i n = Ret None \<and> (\<exists>j rest. neighbours w i = j # rest \<and> j \<in> S))"

lemma find_number_endless_aux:
  assumes e: "endless w n S" and r: "find_number w n is = Some r"
  shows "is = [] \<or> hd is \<notin> S"
proof -
  have "w = w \<longrightarrow> n = n \<longrightarrow> is = [] \<or> hd is \<notin> S"
  proof (rule find_number.raw_induct[OF _ r, where P = "\<lambda>w' n' is r. w' = w \<longrightarrow> n' = n \<longrightarrow> is = [] \<or> hd is \<notin> S"], intro impI)
    fix f :: "world \<Rightarrow> u64 \<Rightarrow> nat list \<Rightarrow> nat option res option" and w' n' ns y
    assume ih: "\<And>w' n' ns y. f w' n' ns = Some y \<Longrightarrow> w' = w \<longrightarrow> n' = n \<longrightarrow> ns = [] \<or> hd ns \<notin> S"
      and step: "(case ns of [] \<Rightarrow> Some (Ret None) | i # rest \<Rightarrow>
        case number_here w' i n' of Inl e \<Rightarrow> Some (Stop e) | Inr None \<Rightarrow> f w' n' (neighbours w' i @ rest) | Inr (Some j) \<Rightarrow> Some (Ret (Some j))) = Some y"
      and w': "w' = w" "n' = n"
    show "ns = [] \<or> hd ns \<notin> S"
    proof (rule ccontr)
      assume "\<not> ?thesis"
      then obtain i rest where ns: "ns = i # rest" "i \<in> S" by (cases ns) auto
      then obtain j nb where nb: "number_here w i n = Ret None" "neighbours w i = j # nb" "j \<in> S"
        using e unfolding endless_def by blast
      then have "f w n (j # nb @ rest) = Some y" using step w' ns(1) by simp
      from ih[OF this] show False using nb(3) by simp
    qed
  qed
  then show ?thesis by simp
qed

lemma find_number_endless:
  assumes "endless w n S" "i \<in> S"
  shows "find_number w n (i # rest) = None"
  using find_number_endless_aux[OF assms(1), of "i # rest"] assms(2) by (cases "find_number w n (i # rest)") auto

section \<open>Properties\<close>

text \<open>In a state with right strong counts in which no friend or pending adoption of the caller is dead, disowning by
  process id keeps every strong count equal to the number of shared pointers.\<close>

lemma disown_keeps_reference_counts:
  assumes "ref_inv ext [] w" "i < length (procs w)" "0 < strong (procs w ! i)" "current w th = Ret i"
    and "\<forall>x \<in> set (friends (procs w ! i) @ pending_adoption (procs w ! i)). lock_weak w x \<noteq> None"
  shows "\<exists>w'. on_syscall_disown th (Number n) w = Ret w' \<and> ref_inv ext [] w'"
  using disown_number_inv[OF assms(1-3,5)] assms(4) by (simp add: on_syscall_disown_def)

text \<open>The first match in a list, and what is at its place.\<close>

lemma find_strong_first:
  assumes "\<forall>x \<in> set xs. deref w x = Ret (procs w ! x) \<and> \<not> P (procs w ! x)" "deref w c = Ret (procs w ! c)" "P (procs w ! c)"
  shows "find_strong w P (xs @ c # ys) k = Ret (Some (k + length xs, c))"
  using assms by (induction xs arbitrary: k) simp_all

lemma index_of_first: "\<forall>x \<in> set xs. \<not> P x \<Longrightarrow> P y \<Longrightarrow> index_of P (xs @ y # ys) = length xs"
  by (induction xs) auto

lemma remove_at_append [simp]: "remove_at (length xs) (xs @ y # ys) = xs @ ys"
  by (simp add: remove_at_def)

text \<open>C23. The system call by which a process disowns, by process id, a child that a third process has offered to adopt
  (the child's \<open>adopter\<close> is alive, and the child is among its pending adoptions) hands the child over: it leaves the
  caller's children, joins the adopter's as the last one, leaves the adopter's pending adoptions, stays alive with its
  strong count unchanged, and every strong count is still the number of shared pointers.  Its recorded
  parent remains the process that disowned it.  The state before has right strong counts; the weak counts are
  not modelled.\<close>

theorem disown_hands_over_adopted_child:
  assumes "ref_inv ext [] w" "current w th = Ret i" "i < length (procs w)" "0 < strong (procs w ! i)"
    and "children (procs w ! i) = as @ c # bs" "pid (procs w ! c) = n" "\<forall>x \<in> set as. pid (procs w ! x) \<noteq> n"
    and "adopter (procs w ! c) = Some a" "a < length (procs w)" "0 < strong (procs w ! a)" "distinct [i, c, a]"
    and "pending_adoption (procs w ! a) = ps @ Some c # qs" "Some c \<notin> set ps"
  shows "\<exists>w'. on_syscall_disown th (Number n) w = Ret w' \<and> ref_inv ext [] w' \<and> children (procs w' ! i) = as @ bs \<and>
    children (procs w' ! a) = children (procs w ! a) @ [c] \<and> pending_adoption (procs w' ! a) = ps @ qs \<and>
    strong (procs w' ! c) = strong (procs w ! c) \<and> \<not> destroyed (procs w' ! c) \<and> parent (procs w' ! c) = parent (procs w ! c)"
proof -
  have own: "x < length (procs w) \<and> 0 < strong (procs w ! x)" if "x \<in> set as \<union> {c}" for x
    using ref_inv_child[OF assms(1,3), of x] assms(5) that by (auto simp: owned_def)
  then have c: "c < length (procs w)" "0 < strong (procs w ! c)" by simp_all
  note d = ref_inv_deref[OF assms(1)]
  let ?w1 = "retain c (upd a (\<lambda>q. q\<lparr>pending_adoption := remove_at (length ps) (pending_adoption q), children := children q @ [c]\<rparr>) w)"
  let ?w2 = "upd i (\<lambda>p. p\<lparr>children := remove_at (length as) (children p)\<rparr>) ?w1"
  let ?w3 = "upd c (\<lambda>p. p\<lparr>strong := strong p - 1\<rparr>) ?w2"
  have "lock_weak w x = Some c \<longleftrightarrow> x = Some c" for x
    using c by (auto simp: lock_weak_def split: option.splits if_splits)
  then have "index_of (\<lambda>x. lock_weak w x = Some c) (pending_adoption (procs w ! a)) = length ps"
    unfolding assms(12) using assms(13) by (simp, intro index_of_first) auto
  moreover have "lock_weak w (Some a) = Some a" using assms(9,10) by (simp add: lock_weak_def)
  ultimately have h: "handle_disown c w = Ret ?w1"
    using d[OF c] d[OF assms(9,10)] assms(8,12) by (simp add: handle_disown_def Let_def)
  have "strong (procs ?w2 ! c) = Suc (strong (procs w ! c))" "c < length (procs ?w2)"
    using c assms(3,9,11) by (simp_all add: retain_def)
  then have rel: "release_all [c] ?w2 = Ret ?w3" using c by (simp add: release_all.simps)
  have "find_strong w (\<lambda>q. pid q = n) (children (procs w ! i)) 0 = Ret (Some (length as, c))"
    unfolding assms(5) using own d c assms(6,7) by (subst find_strong_first) simp_all
  then have r: "on_syscall_disown th (Number n) w = Ret ?w3"
    using h rel d[OF assms(3,4)] assms(2) by (simp add: on_syscall_disown_def disown_number_def remove_child_def)
  have "ref_inv ext [] ?w1"
    using ref_inv_push_child[OF assms(1,9) _ c, of "\<lambda>q. remove_at (length ps) (pending_adoption q)"] ref_invD(2)[OF assms(1,9)] assms(10)
    by simp
  then have "ref_inv ext [c] ?w2"
    by (rule ref_inv_take_child) (use assms(3,5,9,11) c in \<open>simp_all add: retain_def nth_append\<close>)
  then have "ref_inv ext [] ?w3" using release_all_inv rel by fastforce
  moreover have "\<not> destroyed (procs w ! c)" using ref_invD(2)[OF assms(1) c(1)] c(2) by simp
  ultimately show ?thesis
    using r c assms(3,5,9,11,12) by (intro exI[of _ ?w3]) (simp add: retain_def)
qed

text \<open>A target named by a number is destroyed by the lookup: the raw pointer becomes a shared pointer
  with a count of its own, so after \<open>adopt\<close> the target is gone while its count, and the children list
  that holds it, still say it is alive; the adoption that was to be recorded is a dead pointer.\<close>

theorem adopt_by_number_destroys_target:
  assumes "current w th = Ret i" "i < length (procs w)" "find_number w n [i] = Some (Ret (Some t))" "t \<noteq> i"
    and "t < length (procs w)" "\<not> destroyed (procs w ! t)" "ancestor_is w t (lock_weak w (parent (procs w ! t))) = Some (Ret False)"
    and "lock_weak w (adopter (procs w ! t)) = None" "owned (procs w ! t) = []"
  shows "\<exists>w'. on_syscall_adopt th (Number n) w = Some (Ret w') \<and> deref w' t = Stop Undef \<and>
    strong (procs w' ! t) = strong (procs w ! t) \<and> children (procs w' ! i) = children (procs w ! i) \<and>
    pending_adoption (procs w' ! i) = pending_adoption (procs w ! i) @ [None]"
proof -
  let ?w1 = "upd i (\<lambda>p. p\<lparr>pending_adoption := pending_adoption p @ [None]\<rparr>) (upd t (\<lambda>q. q\<lparr>adopter := Some i\<rparr>) w)"
  let ?w2 = "upd t destroy ?w1"
  have dt: "deref w t = Ret (procs w ! t)" "deref ?w1 t = Ret (procs ?w1 ! t)" using assms(2,4-6) by (simp_all add: deref_def)
  have "owned (procs ?w1 ! t) = []" using assms(2,4,5,9) by (simp add: owned_def)
  then have "drop_handle (Rogue t) ?w1 = Ret ?w2" using dt(2) by (simp add: release_all.simps)
  then have "on_syscall_adopt th (Number n) w = Some (Ret ?w2)"
    using assms(1,3,4,7,8) dt(1) by (simp add: on_syscall_adopt_def get_process_by_descriptor_def)
  then show ?thesis
    using assms(2,4,5) by (intro exI[of _ ?w2]) (simp add: deref_def destroy_def)
qed

text \<open>The lookup of a process id that is not there does not return when processes befriend each other in
  a cycle: each of them hands the search to the next, and visited processes are not remembered.\<close>

theorem find_number_diverges:
  assumes "endless w n S" "i \<in> S"
  shows "get_process_by_descriptor w i (Number n) a = None"
  using find_number_endless[OF assms, of "[]"] by (simp add: get_process_by_descriptor_def)

text \<open>The documented descriptors \<open>child:name\<close> and \<open>friend:name\<close> never name anything: the code expects the
  colon one place later, behind the terminator that \<open>sizeof\<close> counts, so unless the name itself begins
  with a colon the search finds no process and disowning changes nothing.\<close>

theorem documented_paths_fail:
  assumes "i < length (procs w)" "\<not> destroyed (procs w ! i)" "kw = str_child \<or> kw = str_friend" "char_at name 0 \<noteq> colon"
  shows "find_process w i (kw @ colon # name) a = Ret None \<and> disown_path i (kw @ colon # name) w = Ret w"
proof -
  have d: "deref w i = Ret (procs w ! i)" using assms(1,2) by (simp add: deref_def)
  have at: "char_at (kw @ colon # name) (length kw + 1) = char_at name 0"
    by (simp add: char_at_def nth_append)
  have sw: "starts_with kw (kw @ colon # name)" by (simp add: starts_with_def)
  have no: "\<not> starts_with str_child (str_friend @ colon # name)" "\<not> starts_with str_adoption (str_friend @ colon # name)"
    "\<not> starts_with str_friend (str_child @ colon # name)" "\<not> starts_with str_adoption (str_child @ colon # name)"
    by (simp_all add: starts_with_def str_child_def str_friend_def str_adoption_def)
  from assms(3) show ?thesis
  proof
    assume k: "kw = str_child"
    then show ?thesis using d at sw no assms(4) by (simp add: find_process.simps disown_path_def selects_def)
  next
    assume k: "kw = str_friend"
    then show ?thesis using d at sw no assms(4) by (simp add: find_process.simps disown_path_def selects_def)
  qed
qed

section \<open>Witnesses\<close>

definition demo_process :: "u64 \<Rightarrow> nat option \<Rightarrow> nat list \<Rightarrow> nat option list \<Rightarrow> nat option list \<Rightarrow> nat option \<Rightarrow> process" where
  "demo_process n par cs fs ps ad = \<lparr>methods = [], pname = [0x78], pid = n, main_thread = empty_thread\<lparr>owner := Some (unat n)\<rparr>,
     parent = par, children = cs, friends = fs, pending_adoption = ps, adopter = ad, self = Some (unat n), proc_memory = [],
     method_call_argument_memory = btree_empty, strong = 1, destroyed = False\<rparr>"

text \<open>A root with two children, of which the second wants to adopt the first.\<close>

definition demo_world :: world where
  "demo_world = \<lparr>procs = [demo_process 0 None [1, 2] [] [] None, demo_process 1 (Some 0) [] [] [] (Some 2),
     demo_process 2 (Some 0) [] [] [Some 1] None], next_pid = 3\<rparr>"

definition demo_ext :: "nat \<Rightarrow> nat" where "demo_ext i = (if i = 0 then 1 else 0)"

lemma less_3_cases: "(\<forall>i < Suc (Suc (Suc 0)). P i) \<longleftrightarrow> P 0 \<and> P (Suc 0) \<and> P (Suc (Suc 0))"
  by (auto simp: less_Suc_eq)

lemma demo_world_inv: "ref_inv demo_ext [] demo_world"
  by (simp add: ref_inv_def less_3_cases refs_def demo_world_def demo_process_def owned_def empty_thread_def demo_ext_def)

lemma disown_hands_over_adopted_child_witness:
  "\<exists>w'. on_syscall_disown 0 (Number 1) demo_world = Ret w' \<and> ref_inv demo_ext [] w' \<and> children (procs w' ! 0) = [] @ [2] \<and>
    children (procs w' ! 2) = children (procs demo_world ! 2) @ [1] \<and> pending_adoption (procs w' ! 2) = [] @ [] \<and>
    strong (procs w' ! 1) = strong (procs demo_world ! 1) \<and> \<not> destroyed (procs w' ! 1) \<and> parent (procs w' ! 1) = parent (procs demo_world ! 1)"
  by (rule disown_hands_over_adopted_child[OF demo_world_inv])
    (simp_all add: demo_world_def demo_process_def current_def get_current_def empty_thread_def lock_weak_def)

lemma adopt_by_number_destroys_target_witness:
  "\<exists>w'. on_syscall_adopt 0 (Number 2) demo_world = Some (Ret w') \<and> deref w' 2 = Stop Undef \<and>
    strong (procs w' ! 2) = strong (procs demo_world ! 2) \<and> children (procs w' ! 0) = children (procs demo_world ! 0) \<and>
    pending_adoption (procs w' ! 0) = pending_adoption (procs demo_world ! 0) @ [None]"
proof -
  have f: "find_number demo_world 2 [0] = Some (Ret (Some 2))"
    by (subst find_number.simps) (simp add: number_here_def deref_def demo_world_def demo_process_def lock_weak_def)
  have a: "ancestor_is demo_world 2 (lock_weak demo_world (parent (procs demo_world ! 2))) = Some (Ret False)"
    by (simp add: demo_world_def demo_process_def lock_weak_def, subst ancestor_is.simps, subst ancestor_is.simps)
      (simp add: deref_def lock_weak_def)
  show ?thesis
    by (rule adopt_by_number_destroys_target[OF _ _ f _ _ _ a])
      (simp_all add: demo_world_def demo_process_def current_def get_current_def empty_thread_def lock_weak_def owned_def)
qed

text \<open>Two processes that are friends of each other.\<close>

definition demo_friends :: world where
  "demo_friends = \<lparr>procs = [demo_process 0 None [] [Some 1] [] None, demo_process 1 None [] [Some 0] [] None], next_pid = 2\<rparr>"

lemma find_number_diverges_witness: "get_process_by_descriptor demo_friends 0 (Number 99) False = None"
  by (rule find_number_diverges[of _ _ "{0, 1}"])
    (simp_all add: endless_def number_here_def neighbours_def deref_def lock_weak_def demo_friends_def demo_process_def)

lemma documented_paths_fail_witness:
  "find_process demo_world 0 (str_child @ colon # [0x78]) True = Ret None \<and>
   disown_path 0 (str_child @ colon # [0x78]) demo_world = Ret demo_world"
  by (rule documented_paths_fail) (simp_all add: demo_world_def demo_process_def char_at_def colon_def)

end
