(* ===== verification/Mmio.thy ===== *)
theory Mmio
  imports KBase
begin

text \<open>
  Device registers.  A device is a state of its own, read and written through 32-bit registers by
  physical address; what it does with a write is not code of the kernel, so it is an argument of the
  drivers' definitions.  Reads do not change the device.
\<close>

record 'd mmio =
  mm_rd :: "u64 \<Rightarrow> 'd \<Rightarrow> u32"
  mm_wr :: "u64 \<Rightarrow> u32 \<Rightarrow> 'd \<Rightarrow> 'd"

text \<open>A write to one register leaves another one's value.\<close>

definition separate :: "'d mmio \<Rightarrow> u64 \<Rightarrow> u64 \<Rightarrow> bool" where
  "separate ops a b \<longleftrightarrow> (\<forall>v d. mm_rd ops b (mm_wr ops a v d) = mm_rd ops b d)"

text \<open>A register with the writable bits \<open>m\<close> and the fixed bits \<open>f\<close>.\<close>

definition masked_register :: "'d mmio \<Rightarrow> u64 \<Rightarrow> u32 \<Rightarrow> u32 \<Rightarrow> bool" where
  "masked_register ops r m f \<longleftrightarrow> (\<forall>v d. mm_rd ops r (mm_wr ops r v d) = (v AND m) OR f)"

text \<open>Registers that store what is written, masked, as a concrete device.\<close>

definition registers :: "(u64 \<Rightarrow> u32) \<Rightarrow> (u64 \<Rightarrow> u32) \<Rightarrow> (u64 \<Rightarrow> u32) mmio" where
  "registers m f = \<lparr>mm_rd = (\<lambda>a d. d a), mm_wr = (\<lambda>a v d. d(a := (v AND m a) OR f a))\<rparr>"

lemma registers_simps [simp]:
  "mm_rd (registers m f) a d = d a"
  "mm_wr (registers m f) a v d = d(a := (v AND m a) OR f a)"
  by (simp_all add: registers_def)

lemma registers_separate: "a \<noteq> b \<Longrightarrow> separate (registers m f) a b"
  by (simp add: separate_def)

lemma registers_masked: "masked_register (registers m f) a (m a) (f a)"
  by (simp add: masked_register_def)

section \<open>Packed structures\<close>

text \<open>A little-endian value from its bytes, and the fields of a structure in a list of bytes.\<close>

fun from_le :: "u8 list \<Rightarrow> 'a::len word" where
  "from_le [] = 0"
| "from_le (b # bs) = ucast b OR push_bit 8 (from_le bs)"

definition field_u8 :: "u8 list \<Rightarrow> nat \<Rightarrow> u8" where "field_u8 bs i = bs ! i"
definition field_u16 :: "u8 list \<Rightarrow> nat \<Rightarrow> u16" where "field_u16 bs i = from_le (take 2 (drop i bs))"
definition field_u32 :: "u8 list \<Rightarrow> nat \<Rightarrow> u32" where "field_u32 bs i = from_le (take 4 (drop i bs))"
definition field_u64 :: "u8 list \<Rightarrow> nat \<Rightarrow> u64" where "field_u64 bs i = from_le (take 8 (drop i bs))"

lemma bit_le_byte: "bit (ucast (drop_bit n w) :: u8) j \<longleftrightarrow> j < 8 \<and> bit w (n + j)"
  for w :: "'a::len word"
  by (simp add: bit_simps)

lemma from_le_le_bytes:
  assumes "8 * n \<le> LENGTH('a)"
  shows "from_le (le_bytes n w) = take_bit (8 * n) (w :: 'a::len word)"
  using assms
proof (induction n arbitrary: w)
  case 0
  show ?case by (simp add: le_bytes_def)
next
  case (Suc n)
  have l: "le_bytes (Suc n) w = ucast w # le_bytes n (drop_bit 8 w)"
    unfolding le_bytes_def map_upt_Suc0 by (simp add: drop_bit_drop_bit add.commute)
  have "8 * n \<le> LENGTH('a)" using Suc.prems by simp
  then have ih: "from_le (le_bytes n (drop_bit 8 w)) = take_bit (8 * n) (drop_bit 8 w)" by (rule Suc.IH)
  show ?case
    unfolding l from_le.simps ih
    by (rule bit_word_eqI) (use Suc.prems in \<open>auto simp: bit_simps\<close>)
qed

text \<open>Reading memory by bytes.\<close>

lemma bit_from_le:
  "bit (from_le bs :: 'a::len word) n \<longleftrightarrow>
     n < LENGTH('a) \<and> n < 8 * length bs \<and> bit (bs ! (n div 8)) (n mod 8)"
proof (induction bs arbitrary: n)
  case (Cons b bs)
  show ?case
  proof (cases "n < 8")
    case True
    then show ?thesis by (simp add: bit_simps)
  next
    case False
    then have "bs ! ((n - 8) div 8) = (b # bs) ! (n div 8)" "(n - 8) mod 8 = n mod 8"
      by (simp_all add: nth_Cons' div_nat_eqI mod_nat_eqI le_mod_geq[symmetric] le_div_geq)
    then show ?thesis using False Cons.IH[of "n - 8"]
      by (auto simp: bit_simps not_less dest: bit_imp_le_length)
  qed
qed simp

lemma ucast_from_le:
  "8 * length bs \<le> LENGTH('b) \<Longrightarrow> ucast (from_le bs :: 'b::len word) = (from_le bs :: 'a::len word)"
  by (rule bit_word_eqI) (auto simp: bit_simps bit_from_le)

lemma from_le_append:
  "(from_le (xs @ ys) :: 'a::len word) = from_le xs OR push_bit (8 * length xs) (from_le ys)"
  by (induction xs) (simp_all add: push_bit_or or.assoc add.commute)

lemma rd16_from_le: "rd16 m a = from_le (rd_bytes m a 2)"
  by (simp add: rd16_def rd_bytes_def upt_rec)

lemma rd32_from_le: "rd32 m a = from_le (rd_bytes m a 4)"
proof -
  have l: "rd_bytes m a 4 = rd_bytes m a 2 @ rd_bytes m (a + 2) 2"
    by (simp add: rd_bytes_def upt_rec add.assoc)
  show ?thesis unfolding l from_le_append rd32_def rd16_from_le by (simp add: ucast_from_le)
qed

lemma rd64_from_le: "rd64 m a = from_le (rd_bytes m a 8)"
proof -
  have l: "rd_bytes m a 8 = rd_bytes m a 4 @ rd_bytes m (a + 4) 4"
    by (simp add: rd_bytes_def upt_rec add.assoc)
  show ?thesis unfolding l from_le_append rd64_def rd32_from_le by (simp add: ucast_from_le)
qed

lemma rd_bytes_le:
  "rd_bytes m a 4 = le_bytes 4 v \<Longrightarrow> rd32 m a = v"
  "rd_bytes m a 8 = le_bytes 8 w \<Longrightarrow> rd64 m a = w"
  unfolding rd32_from_le rd64_from_le by (simp_all add: from_le_le_bytes take_bit_word_eq_self)

end
