(* ===== verification/Syscall.thy ===== *)
theory Syscall
  imports Process Mmio
begin

text \<open>
  The system calls of \<^verbatim>\<open>src/high/process/process.cpp\<close> that read and write memory, the loading of the
  memory areas of threads and processes into the page tables, \<open>from_elf\<close>, and \<open>syscall_handler\<close>.
  \<open>umem\<close> is the memory by virtual address.  The allocator of physical pages, the called method
  (\<open>call_indirect\<close>) and the file are arguments.
\<close>

section \<open>State\<close>

record 'p kernel =
  kw :: world
  kpt :: "'p pt_state"
  umem :: bytes

type_synonym 'p palloc = "u64 \<Rightarrow> 'p \<Rightarrow> (u64 option \<times> 'p) res option"

definition wr64 :: "u64 \<Rightarrow> u64 \<Rightarrow> bytes \<Rightarrow> bytes" where
  "wr64 a v m = wr_bytes a (le_bytes 8 v) m"

definition in_world :: "(world \<Rightarrow> world res) \<Rightarrow> 'p kernel \<Rightarrow> 'p kernel res option" where
  "in_world f k = Some (bindr (f (kw k)) (\<lambda>w. Ret (k\<lparr>kw := w\<rparr>)))"

definition in_world_o :: "(world \<Rightarrow> world res option) \<Rightarrow> 'p kernel \<Rightarrow> 'p kernel res option" where
  "in_world_o f k = bindo (f (kw k)) (\<lambda>w. Some (Ret (k\<lparr>kw := w\<rparr>)))"

definition page_count :: "u64 \<Rightarrow> nat" where
  "page_count sz = (unat sz + 4095) div 4096"

section \<open>Loading memory areas\<close>

fun load_area :: "'p page_alloc \<Rightarrow> memory_area \<Rightarrow> nat \<Rightarrow> nat \<Rightarrow> 'p pt_state \<Rightarrow> 'p pt_state res option" where
  "load_area alloc r i 0 s = Some (Ret s)"
| "load_area alloc r i (Suc n) s =
     bindo (pt_map alloc (phys r + of_nat i * page_size) (virt r + of_nat i * page_size) (area_flags r) s)
       (load_area alloc r (Suc i) n)"

fun load_areas :: "'p page_alloc \<Rightarrow> memory_area list \<Rightarrow> 'p pt_state \<Rightarrow> 'p pt_state res option" where
  "load_areas alloc [] s = Some (Ret s)"
| "load_areas alloc (r # rs) s = bindo (load_area alloc r 0 (page_count (area_size r)) s) (load_areas alloc rs)"

definition thread_load :: "'p page_alloc \<Rightarrow> thread \<Rightarrow> 'p pt_state \<Rightarrow> 'p pt_state res option" where
  "thread_load alloc t s = load_areas alloc (thread_memory t) s"

definition process_load :: "'p page_alloc \<Rightarrow> process \<Rightarrow> 'p pt_state \<Rightarrow> 'p pt_state res option" where
  "process_load alloc p s =
     bindo (load_areas alloc (proc_memory p) s) (\<lambda>s1.
       iterate_kv (\<lambda>key r st. (True, bindo st (load_area alloc r 0 (page_count (area_size r)))))
         (method_call_argument_memory p) (Some (Ret s1)))"

text \<open>\<open>thread::execute\<close> up to the entry of the thread's code.\<close>

definition thread_execute :: "'p page_alloc \<Rightarrow> nat \<Rightarrow> 'p kernel \<Rightarrow> 'p kernel res option" where
  "thread_execute alloc th k =
     bindo (thread_load alloc (main_thread (procs (kw k) ! th)) (kpt k)) (\<lambda>s1.
     bindo (Some (bindr (current (kw k) th) (deref (kw k)))) (\<lambda>p.
     bindo (process_load alloc p s1) (\<lambda>s2. Some (Ret (k\<lparr>kpt := s2\<rparr>)))))"

section \<open>Creating processes\<close>

definition user_flags :: "bool \<Rightarrow> bool \<Rightarrow> bool \<Rightarrow> Flags" where
  "user_flags w t c = \<lparr>writeable = w, user = True, writeThrough = t, cacheDisabled = c\<rparr>"

record memory_descriptor =
  source_virtual_address :: u64
  target_virtual_address :: u64
  desc_size :: u64
  desc_writeable :: bool
  cache_disabled :: bool
  write_through :: bool

definition alloc_or_panic :: "'p palloc \<Rightarrow> string \<Rightarrow> u64 \<Rightarrow> 'p kernel \<Rightarrow> (u64 \<times> 'p kernel) res option" where
  "alloc_or_panic pa msg n k =
     bindo (pa n (pal (kpt k))) (\<lambda>(r, a').
       Some (bindr (or_panic msg r) (\<lambda>p. Ret (p, k\<lparr>kpt := (kpt k)\<lparr>pal := a'\<rparr>\<rparr>))))"

definition add_stack :: "nat \<Rightarrow> u64 \<Rightarrow> u64 \<Rightarrow> world \<Rightarrow> world" where
  "add_stack c base stack = upd c (\<lambda>p. p\<lparr>main_thread := (main_thread p)\<lparr>thread_memory := thread_memory (main_thread p) @
     [\<lparr>virt = base, phys = stack, area_flags = user_flags True False False, area_size = Mi 1\<rparr>]\<rparr>\<rparr>)"

fun copy_regions :: "'p palloc \<Rightarrow> nat \<Rightarrow> memory_descriptor list \<Rightarrow> 'p kernel \<Rightarrow> 'p kernel res option" where
  "copy_regions pa c [] k = Some (Ret k)"
| "copy_regions pa c (d # ds) k =
     (let sz = desc_size d + target_virtual_address d mod page_size + (page_size - 1)
      in bindo (alloc_or_panic pa ''out of memory, todo: implement fragmented memory'' (sz div page_size) k) (\<lambda>(p, k1).
         copy_regions pa c ds
           (k1\<lparr>umem := memcpy (map_tmp p) (source_virtual_address d) (unat (desc_size d)) (memset (map_tmp p) 0 (unat sz) (umem k1)),
               kw := upd c (\<lambda>q. q\<lparr>proc_memory := proc_memory q @ [\<lparr>virt = target_virtual_address d, phys = p,
                 area_flags = user_flags (desc_writeable d) (write_through d) (cache_disabled d), area_size = sz\<rparr>]\<rparr>) (kw k1)\<rparr>)))"

text \<open>\<open>create_child\<close>; \<open>scheduler::add_process\<close> is empty in the code.\<close>

definition on_syscall_create_child :: "'p palloc \<Rightarrow> nat \<Rightarrow> memory_descriptor list \<Rightarrow> u64 \<Rightarrow> 'p kernel \<Rightarrow> 'p kernel res option" where
  "on_syscall_create_child pa th ds entry k =
     bindo (Some (current (kw k) th)) (\<lambda>i.
       let (c, w1) = new_process (kw k);
           w2 = upd c (\<lambda>p. p\<lparr>self := Some c, parent := Some i, strong := 1,
                  main_thread := (main_thread p)\<lparr>owner := Some c, code_ptr := entry\<rparr>\<rparr>) w1
       in bindo (alloc_or_panic pa ''out of memory, todo: implement fragmented stack'' (Mi 1 div page_size) (k\<lparr>kw := w2\<rparr>)) (\<lambda>(stack, k1).
            let w3 = upd c (\<lambda>p. p\<lparr>main_thread := (main_thread p)\<lparr>stack_ptr := Ti 32 - 8\<rparr>\<rparr>) (add_stack c (Ti 32 - Mi 1) stack (kw k1))
            in bindo (copy_regions pa c ds (k1\<lparr>kw := w3\<rparr>)) (\<lambda>k2.
                 Some (Ret (k2\<lparr>kw := upd i (\<lambda>p. p\<lparr>children := children p @ [c]\<rparr>) (kw k2)\<rparr>)))))"

section \<open>Listing processes\<close>

text \<open>The output buffer: position, bytes left, memory.  A process entry is 16 bytes, id and name pointer.\<close>

record out_buffer =
  buf :: u64
  left_over :: u64
  omem :: bytes

definition advance :: "u64 \<Rightarrow> out_buffer \<Rightarrow> out_buffer" where
  "advance n b = b\<lparr>buf := buf b + n, left_over := left_over b - n\<rparr>"

text \<open>A loop over the processes of one list, whose counter is in memory at \<open>cnt\<close>; the first component is whether the
  call returned early.\<close>

fun emit_ids :: "world \<Rightarrow> u64 \<Rightarrow> nat option list \<Rightarrow> out_buffer \<Rightarrow> (bool \<times> out_buffer) res" where
  "emit_ids w cnt [] b = Ret (False, b)"
| "emit_ids w cnt (x # xs) b =
     (if left_over b < 16 then Ret (True, b)
      else case x of
        None \<Rightarrow> emit_ids w cnt xs b
      | Some i \<Rightarrow> bindr (deref w i) (\<lambda>p.
          let m = wr64 (buf b) (pid p) (omem b)
          in emit_ids w cnt xs (advance 16 (b\<lparr>omem := wr64 cnt (rd64 m cnt + 1) m\<rparr>))))"

text \<open>The loop that appends the names; the pointer to the list's entries is read at \<open>slot\<close> for each.\<close>

fun emit_names :: "world \<Rightarrow> u64 \<Rightarrow> nat option list \<Rightarrow> nat \<Rightarrow> out_buffer \<Rightarrow> (bool \<times> out_buffer) res" where
  "emit_names w slot [] i b = Ret (False, b)"
| "emit_names w slot (x # xs) i b =
     (case x of
        None \<Rightarrow> emit_names w slot xs i b
      | Some c \<Rightarrow> bindr (deref w c) (\<lambda>p.
          let n = of_nat (length (pname p)) + 1
          in if left_over b < n then Ret (True, b)
             else let m = wr64 (rd64 (omem b) slot + 16 * of_nat i + 8) (buf b) (omem b)
                  in emit_names w slot xs (Suc i) (advance n (b\<lparr>omem := wr_bytes (buf b) (pname p @ [0]) m\<rparr>))))"

text \<open>The caller's structure \<open>list_processes_data\<close> is in memory at \<open>d\<close>: the buffer and its size at 16 and 24, then for
  the children, the friends and the pending adoptions the pointer, the count and the total, from 32, 56 and 80 on.\<close>

definition list_names :: "world \<Rightarrow> process \<Rightarrow> u64 \<Rightarrow> out_buffer \<Rightarrow> out_buffer res" where
  "list_names w p d b =
     bindr (emit_names w (d + 32) (map Some (children p)) 0 b) (\<lambda>(stop1, b1).
     if stop1 then Ret b1 else
     bindr (emit_names w (d + 56) (map (lock_weak w) (friends p)) 0 b1) (\<lambda>(stop2, b2).
     if stop2 then Ret b2 else
     bindr (emit_names w (d + 80) (map (lock_weak w) (pending_adoption p)) 0 b2) (\<lambda>(stop3, b3). Ret b3)))"

definition list_totals :: "process \<Rightarrow> u64 \<Rightarrow> bytes \<Rightarrow> bytes" where
  "list_totals p d m =
     wr64 (d + 96) (of_nat (length (pending_adoption p))) (wr64 (d + 72) (of_nat (length (friends p)))
       (wr64 (d + 48) (of_nat (length (children p))) m))"

definition list_entries :: "world \<Rightarrow> process \<Rightarrow> u64 \<Rightarrow> bytes \<Rightarrow> out_buffer res" where
  "list_entries w p d m =
     (let buffer = rd64 m (d + 16); buffer_size = rd64 m (d + 24);
          m0 = wr64 (d + 32) buffer (list_totals p d m)
      in bindr (emit_ids w (d + 40) (map Some (children p)) \<lparr>buf = buffer, left_over = buffer_size, omem = m0\<rparr>) (\<lambda>(stop1, b1).
         if stop1 then Ret b1 else
         bindr (emit_ids w (d + 64) (map (lock_weak w) (friends p)) (b1\<lparr>omem := wr64 (d + 56) (buf b1) (omem b1)\<rparr>)) (\<lambda>(stop2, b2).
         if stop2 then Ret b2 else
         bindr (emit_ids w (d + 88) (map (lock_weak w) (pending_adoption p)) (b2\<lparr>omem := wr64 (d + 80) (buf b2) (omem b2)\<rparr>)) (\<lambda>(stop3, b3).
         if stop3 then Ret b3 else list_names w p d b3))))"

text \<open>The target is read from the structure before anything is written.\<close>

definition on_syscall_list_processes :: "nat \<Rightarrow> process_descriptor \<Rightarrow> u64 \<Rightarrow> 'p kernel \<Rightarrow> 'p kernel res option" where
  "on_syscall_list_processes th t d k =
     bindo (Some (current (kw k) th)) (\<lambda>i.
     bindo (get_process_by_descriptor (kw k) i t False) (\<lambda>target.
       case target of
         None \<Rightarrow> Some (Ret k)
       | Some h \<Rightarrow>
           let w = cleanup_dead (handle_id h) (kw k)
           in bindo (Some (bindr (deref w (handle_id h)) (\<lambda>p. list_entries w p d (umem k)))) (\<lambda>b.
                Some (bindr (drop_handle h w) (\<lambda>w'. Ret (k\<lparr>kw := w', umem := omem b\<rparr>))))))"

section \<open>Sending messages\<close>

definition area_M :: nat where "area_M = 43"

definition no_area :: "u64 \<times> memory_area" where
  "no_area = (0, \<lparr>virt = 0, phys = 0, area_flags = user_flags False False False, area_size = 0\<rparr>)"

text \<open>\<open>null_terminated_length\<close>; without a terminator it does not end.\<close>

partial_function (option) null_terminated_length :: "bytes \<Rightarrow> u64 \<Rightarrow> nat \<Rightarrow> u64 \<Rightarrow> u64 option" where
  "null_terminated_length m va w n =
     (if list_all (\<lambda>i. m (va + n * of_nat w + of_nat i) = 0) [0..<w] then Some n
      else null_terminated_length m va w (n + 1))"

text \<open>The scan for a free area; the end of an area is masked with \<open>page_size - 1\<close>, as written.\<close>

definition area_step :: "u64 \<Rightarrow> memory_area \<Rightarrow> bool \<times> u64 \<Rightarrow> bool \<times> (bool \<times> u64)" where
  "area_step sz area st =
     (if virt area - snd st \<ge> sz then (False, (True, snd st))
      else (True, (fst st, (virt area + area_size area + page_size - 1) AND (page_size - 1))))"

type_synonym arg_map = "(u64, memory_area) btree_map"

text \<open>The loop that collects the physical pages of an argument into areas: pages \<open>j\<close> to \<open>j + n - 1\<close>.\<close>

fun map_argument :: "(u64 \<Rightarrow> u64 option) \<Rightarrow> u64 \<Rightarrow> u64 \<Rightarrow> nat \<Rightarrow> nat \<Rightarrow> memory_area option \<Rightarrow> arg_map \<Rightarrow> u64 list \<Rightarrow>
    (bool \<times> arg_map \<times> u64 list) res" where
  "map_argument get ptr last_end j 0 ia t keys =
     (case ia of
        None \<Rightarrow> Ret (True, t, keys)
      | Some a \<Rightarrow> bindr (map_insert area_M no_area (virt a) a t) (\<lambda>t'. Ret (True, t', keys @ [virt a])))"
| "map_argument get ptr last_end j (Suc n) ia t keys =
     (let off = of_nat j * page_size;
          fresh = (\<lambda>p. \<lparr>virt = last_end + off, phys = p, area_flags = user_flags True False False, area_size = page_size\<rparr>)
      in case get (ptr + off) of
           None \<Rightarrow> Ret (False, t, keys)
         | Some p \<Rightarrow>
             (case ia of
                None \<Rightarrow> map_argument get ptr last_end (Suc j) n (Some (fresh p)) t keys
              | Some a \<Rightarrow>
                  if phys a + (ptr + off - virt a) = p
                  then map_argument get ptr last_end (Suc j) n (Some (a\<lparr>area_size := area_size a + page_size\<rparr>)) t keys
                  else bindr (map_insert area_M no_area (virt a) a t) (\<lambda>t'.
                         map_argument get ptr last_end (Suc j) n (Some (fresh p)) t' (keys @ [virt a]))))"

definition argument_pages :: "u64 \<Rightarrow> u64 \<Rightarrow> u64" where
  "argument_pages ptr sz =
     (let start = ptr mod page_size
      in sz + (start + (page_size - (sz + start) mod page_size)))"

text \<open>One argument: its bytes are mapped into the target's area; \<open>False\<close> is an error return.\<close>

definition place_argument :: "(u64 \<Rightarrow> u64 option) \<Rightarrow> u64 \<Rightarrow> u64 \<Rightarrow> arg_map \<Rightarrow> u64 list \<Rightarrow> (bool \<times> arg_map \<times> u64 list) res" where
  "place_argument get ptr sz0 t keys =
     (if sz0 = 0 then Ret (True, t, keys)
      else
        let sz = argument_pages ptr sz0;
            (found, last_end) = iterate_kv (\<lambda>key area. area_step sz area) t (False, Ti 16)
        in if \<not> found \<and> Ti 32 - last_end < sz then Ret (False, t, keys)
           else map_argument get ptr last_end 0 (page_count sz) None t keys)"

fun place_arguments :: "(u64 \<Rightarrow> u64 option) \<Rightarrow> bytes \<Rightarrow> argument_descriptor list \<Rightarrow> u64 list \<Rightarrow> nat \<Rightarrow> arg_map \<Rightarrow> u64 list \<Rightarrow>
    (bool \<times> arg_map \<times> u64 list) res option" where
  "place_arguments get m [] args i t keys = Some (Ret (True, t, keys))"
| "place_arguments get m (a # as) args i t keys =
     (let arg = (\<lambda>j. if j < length args then Some (Ret (args ! j)) else Some (Stop Undef));
          continue = (\<lambda>ptr sz i'. bindo (Some (place_argument get ptr sz t keys)) (\<lambda>(ok, t', keys').
            if ok then place_arguments get m as args i' t' keys' else Some (Ret (False, t', keys'))))
      in case arg_type a of
           fixed_length \<Rightarrow> bindo (arg i) (\<lambda>ptr. continue ptr (ucast (width a) * arg_length a) (Suc i))
         | dynamic_length \<Rightarrow>
             if i + 1 \<ge> length args then Some (Ret (False, t, keys))
             else bindo (arg i) (\<lambda>ptr. bindo (arg (i + 1)) (\<lambda>n. continue ptr (ucast (width a) * n) (i + 2)))
         | null_terminated \<Rightarrow>
             bindo (arg i) (\<lambda>ptr. case null_terminated_length m ptr (unat (width a)) 0 of
               None \<Rightarrow> None
             | Some n \<Rightarrow> continue ptr n (Suc i))
         | number \<Rightarrow> continue 0 0 (Suc i))"

fun remove_keys :: "u64 list \<Rightarrow> arg_map \<Rightarrow> arg_map res" where
  "remove_keys [] t = Ret t"
| "remove_keys (key # keys) t = bindr (map_remove area_M no_area key t) (\<lambda>(r, t'). remove_keys keys t')"

definition set_args :: "nat \<Rightarrow> arg_map \<Rightarrow> world \<Rightarrow> world" where
  "set_args i t = upd i (\<lambda>p. p\<lparr>method_call_argument_memory := t\<rparr>)"

definition set_working :: "nat \<Rightarrow> (nat list \<Rightarrow> nat list) \<Rightarrow> world \<Rightarrow> world" where
  "set_working th f = upd th (\<lambda>p. p\<lparr>main_thread := (main_thread p)\<lparr>working_in := f (working_in (main_thread p))\<rparr>\<rparr>)"

text \<open>Entering and leaving the target; a list entry is a shared pointer to the target's control block.\<close>

fun enter_target :: "nat \<Rightarrow> handle \<Rightarrow> world \<Rightarrow> world" where
  "enter_target th (Proper i) w = retain i (set_working th (\<lambda>xs. xs @ [i]) w)"
| "enter_target th (Rogue i) w = set_working th (\<lambda>xs. xs @ [i]) w"

fun leave_target :: "nat \<Rightarrow> handle \<Rightarrow> world \<Rightarrow> world res" where
  "leave_target th (Proper i) w = release_all [i] (set_working th butlast w)"
| "leave_target th (Rogue i) w = Ret (set_working th butlast w)"

definition message_cleanup :: "nat \<Rightarrow> handle \<Rightarrow> u64 list \<Rightarrow> world \<Rightarrow> world res" where
  "message_cleanup th h keys w =
     bindr (deref w (handle_id h)) (\<lambda>p.
     bindr (remove_keys keys (method_call_argument_memory p)) (\<lambda>t.
     bindr (leave_target th h (set_args (handle_id h) t w)) (drop_handle h)))"

text \<open>The result is the value of \<open>result\<close> when the method was called.\<close>

definition on_syscall_send_message ::
    "'p page_alloc \<Rightarrow> (u64 \<Rightarrow> u64 list \<Rightarrow> 'p kernel \<Rightarrow> (u64 \<times> 'p kernel) res option) \<Rightarrow>
     nat \<Rightarrow> process_descriptor \<Rightarrow> u64 \<Rightarrow> u64 list \<Rightarrow> 'p kernel \<Rightarrow> (u64 option \<times> 'p kernel) res option" where
  "on_syscall_send_message alloc call_indirect th t method_id args k =
     bindo (Some (current (kw k) th)) (\<lambda>i.
     bindo (get_process_by_descriptor (kw k) i t False) (\<lambda>target.
       case target of
         None \<Rightarrow> Some (Ret (None, k))
       | Some h \<Rightarrow>
           bindo (Some (deref (kw k) (handle_id h))) (\<lambda>p.
             if unat method_id \<ge> length (methods p)
             then Some (bindr (drop_handle h (kw k)) (\<lambda>w. Ret (None, k\<lparr>kw := w\<rparr>)))
             else
               let w1 = enter_target th h (kw k);
                   method = methods p ! unat method_id
               in bindo (place_arguments (pt_get (kpt k)) (umem k) (arguments method) args 0 (method_call_argument_memory p) []) (\<lambda>(ok, t', keys).
                    let w2 = set_args (handle_id h) t' w1
                    in if \<not> ok then Some (bindr (message_cleanup th h keys w2) (\<lambda>w. Ret (None, k\<lparr>kw := w\<rparr>)))
                       else
                         bindo (Some (deref w2 (handle_id h))) (\<lambda>p2.
                         bindo (process_load alloc p2 (kpt k)) (\<lambda>s.
                         bindo (call_indirect (call_address method) args (k\<lparr>kw := w2, kpt := s\<rparr>)) (\<lambda>(r, k').
                           Some (bindr (message_cleanup th h keys (kw k')) (\<lambda>w. Ret (Some r, k'\<lparr>kw := w\<rparr>))))))))))"

section \<open>Abilities\<close>

text \<open>A registration of the caller's own methods builds a descriptor per method and drops it again.\<close>

definition register_abilities :: "nat \<Rightarrow> method_descriptor list \<Rightarrow> world \<Rightarrow> world res" where
  "register_abilities i ms w = bindr (deref w i) (\<lambda>p. Ret (upd i (\<lambda>p. p\<lparr>methods := []\<rparr>) w))"

text \<open>Reading: 32 bytes per method (name, argument count, arguments, entry point), then the arguments of 16
  bytes each in slots of 32, then the names.\<close>

fun emit_methods :: "method_descriptor list \<Rightarrow> u64 \<Rightarrow> nat \<Rightarrow> out_buffer \<Rightarrow> u64 \<times> out_buffer" where
  "emit_methods [] base i b = (of_nat i, b)"
| "emit_methods (m # ms) base i b =
     (if left_over b < 32 then (of_nat i, b)
      else let e = base + 32 * of_nat i
           in emit_methods ms base (Suc i)
                (advance 32 (b\<lparr>omem := wr64 (e + 16) 0 (wr64 e 0 (wr64 (e + 8) (of_nat (length (arguments m))) (omem b)))\<rparr>)))"

fun type_code :: "argument_type \<Rightarrow> u32" where
  "type_code number = 0"
| "type_code null_terminated = 1"
| "type_code fixed_length = 2"
| "type_code dynamic_length = 3"

fun write_arguments :: "u64 \<Rightarrow> argument_descriptor list \<Rightarrow> bytes \<Rightarrow> bytes" where
  "write_arguments a [] m = m"
| "write_arguments a (d # ds) m =
     write_arguments (a + 16) ds (wr64 (a + 8) (arg_length d) (wr8 (a + 4) (width d) (wr32 a (type_code (arg_type d)) m)))"

fun emit_arguments :: "method_descriptor list \<Rightarrow> u64 \<Rightarrow> nat \<Rightarrow> out_buffer \<Rightarrow> out_buffer" where
  "emit_arguments [] base i b = b"
| "emit_arguments (m # ms) base i b =
     (let n = 32 * of_nat (length (arguments m))
      in if left_over b < n then b
         else emit_arguments ms base (Suc i)
           (advance n (b\<lparr>omem := write_arguments (buf b) (arguments m) (wr64 (base + 32 * of_nat i + 16) (buf b) (omem b))\<rparr>)))"

fun emit_method_names :: "method_descriptor list \<Rightarrow> u64 \<Rightarrow> nat \<Rightarrow> out_buffer \<Rightarrow> out_buffer" where
  "emit_method_names [] base i b = b"
| "emit_method_names (m # ms) base i b =
     (let n = of_nat (length (method_name m)) + 1
      in if left_over b < n then b
         else emit_method_names ms base (Suc i)
           (advance n (b\<lparr>omem := wr_bytes (buf b) (method_name m @ [0]) (wr64 (base + 32 * of_nat i) (buf b) (omem b))\<rparr>)))"

text \<open>The result is the number of methods written and their total, when it is a read.\<close>

definition on_syscall_ask_abilities ::
    "nat \<Rightarrow> process_descriptor \<Rightarrow> method_descriptor list \<Rightarrow> u64 \<Rightarrow> u64 \<Rightarrow> 'p kernel \<Rightarrow> ((u64 \<times> u64) option \<times> 'p kernel) res option" where
  "on_syscall_ask_abilities th t ms buffer buffer_size k =
     bindo (Some (current (kw k) th)) (\<lambda>i.
     bindo (get_process_by_descriptor (kw k) i t False) (\<lambda>target.
       case target of
         None \<Rightarrow> Some (Stop Undef)
       | Some h \<Rightarrow>
           if t = Self then Some (bindr (register_abilities (handle_id h) ms (kw k)) (\<lambda>w. Ret (None, k\<lparr>kw := w\<rparr>)))
           else
             Some (bindr (deref (kw k) (handle_id h)) (\<lambda>p.
               let (n, b1) = emit_methods (methods p) buffer 0 \<lparr>buf = buffer, left_over = buffer_size, omem = umem k\<rparr>;
                   b2 = emit_arguments (methods p) buffer 0 b1;
                   b3 = emit_method_names (methods p) buffer 0 b2
               in bindr (drop_handle h (kw k)) (\<lambda>w.
                    Ret (Some (n, of_nat (length (methods p))), k\<lparr>kw := w, umem := omem b3\<rparr>))))))"

section \<open>Loading an ELF file\<close>

record program_header =
  ph_type :: u32
  file_offset :: u64
  virtual_address :: u64
  file_size :: u64
  memory_size :: u64

definition bytes_of :: "u8 list \<Rightarrow> bytes" where
  "bytes_of xs a = char_at xs (unat a)"

text \<open>The checks of the file header: magic, 64 bit, little endian, x86-64.\<close>

definition elf_header_ok :: "u8 list \<Rightarrow> bool" where
  "elf_header_ok h \<longleftrightarrow> char_at h 0 = 0x7F \<and> char_at h 1 = 0x45 \<and> char_at h 2 = 0x4C \<and> char_at h 3 = 0x46 \<and>
     char_at h 4 = 2 \<and> char_at h 5 = 1 \<and> rd16 (bytes_of h) 0x12 = 0x3E"

definition header_at :: "bytes \<Rightarrow> u64 \<Rightarrow> program_header" where
  "header_at m a = \<lparr>ph_type = rd32 m a, file_offset = rd64 m (a + 8), virtual_address = rd64 m (a + 16),
     file_size = rd64 m (a + 32), memory_size = rd64 m (a + 40)\<rparr>"

text \<open>The headers are read, and stepped through, with the program header offset as element size.\<close>

definition program_headers :: "(u64 \<Rightarrow> u64 \<Rightarrow> u8 list) \<Rightarrow> u8 list \<Rightarrow> program_header list" where
  "program_headers read h =
     (let off = rd64 (bytes_of h) 0x20;
          count = rd16 (bytes_of h) 0x38;
          data = bytes_of (read off (ucast count * off))
      in map (\<lambda>i. header_at data (of_nat i * off)) [0..<unat count])"

fun elf_allocate :: "'p palloc \<Rightarrow> nat \<Rightarrow> program_header list \<Rightarrow> 'p kernel \<Rightarrow> 'p kernel res option" where
  "elf_allocate pa c [] k = Some (Ret k)"
| "elf_allocate pa c (h # hs) k =
     (if ph_type h = 1 then
        if virtual_address h + memory_size h > Ti 16 then Some (Stop (Panic ''program too big''))
        else bindo (alloc_or_panic pa ''out of memory, todo: implement fragmented program headers''
               ((memory_size h + page_size - 1) div page_size) k) (\<lambda>(p, k1).
             elf_allocate pa c hs (k1\<lparr>kw := upd c (\<lambda>q. q\<lparr>proc_memory := proc_memory q @
               [\<lparr>virt = virtual_address h, phys = p, area_flags = user_flags True False False, area_size = memory_size h\<rparr>]\<rparr>) (kw k1)\<rparr>))
      else elf_allocate pa c hs k)"

fun elf_copy :: "(u64 \<Rightarrow> u64 \<Rightarrow> u8 list) \<Rightarrow> program_header list \<Rightarrow> bytes \<Rightarrow> bytes" where
  "elf_copy read [] m = m"
| "elf_copy read (h # hs) m =
     elf_copy read hs (if ph_type h = 1
       then wr_bytes (virtual_address h) (read (file_offset h) (file_size h)) (memset (virtual_address h) 0 (unat (memory_size h)) m)
       else m)"

text \<open>The result is the process, or the null pointer.\<close>

definition from_elf :: "'p palloc \<Rightarrow> 'p page_alloc \<Rightarrow> (u64 \<Rightarrow> u64 \<Rightarrow> u8 list) \<Rightarrow> 'p kernel \<Rightarrow> (nat option \<times> 'p kernel) res option" where
  "from_elf pa alloc read k =
     (let h = read 0 64
      in if \<not> elf_header_ok h then Some (Ret (None, k))
         else
           let (c, w1) = new_process (kw k);
               headers = program_headers read h
           in bindo (elf_allocate pa c headers (k\<lparr>kw := w1\<rparr>)) (\<lambda>k1.
              bindo (process_load alloc (procs (kw k1) ! c) (kpt k1)) (\<lambda>s.
              let k2 = k1\<lparr>kpt := s, umem := elf_copy read headers (umem k1)\<rparr>
              in bindo (alloc_or_panic pa ''out of memory, todo: implement fragmented stack'' (Mi 1 div page_size) k2) (\<lambda>(stack, k3).
                   Some (Ret (Some c, k3\<lparr>kw := upd c (\<lambda>p. p\<lparr>self := Some c, strong := 1,
                     main_thread := (main_thread p)\<lparr>owner := Some c, stack_ptr := Ti 16 - 16, code_ptr := rd64 (bytes_of h) 0x18\<rparr>\<rparr>)
                     (add_stack c (Ti 16 - Mi 1) stack (kw k3))\<rparr>))))))"

section \<open>The dispatcher\<close>

text \<open>The system calls, with the data that the caller's structure holds.\<close>

datatype call_data =
    Disown process_descriptor
  | Adopt process_descriptor
  | Make_friend process_descriptor process_descriptor
  | Create_child "memory_descriptor list" u64
  | Set_name "u8 list"
  | List_processes process_descriptor u64
  | Send_message process_descriptor u64 "u64 list"
  | Ask_abilities process_descriptor "method_descriptor list" u64 u64
  | Other_call u64

fun syscall_number :: "call_data \<Rightarrow> u64" where
  "syscall_number (Disown _) = 0"
| "syscall_number (Adopt _) = 1"
| "syscall_number (Make_friend _ _) = 2"
| "syscall_number (Create_child _ _) = 3"
| "syscall_number (Set_name _) = 4"
| "syscall_number (List_processes _ _) = 5"
| "syscall_number (Send_message _ _ _) = 6"
| "syscall_number (Ask_abilities _ _ _ _) = 7"
| "syscall_number (Other_call n) = n"

definition forget :: "('a \<times> 'p kernel) res option \<Rightarrow> 'p kernel res option" where
  "forget r = bindo r (\<lambda>(x, k). Some (Ret k))"

text \<open>\<open>th\<close> is the current thread, if any.  \<open>Log::fatal\<close> panics; call 69 prints the owner's name before.\<close>

definition syscall_handler ::
    "'p palloc \<Rightarrow> (u64 \<Rightarrow> u64 list \<Rightarrow> 'p kernel \<Rightarrow> (u64 \<times> 'p kernel) res option) \<Rightarrow> nat option \<Rightarrow> call_data \<Rightarrow> 'p kernel \<Rightarrow> 'p kernel res option" where
  "syscall_handler pa call_indirect th c k = (case th of
     None \<Rightarrow> Some (Stop (Panic ''Fatal error''))
   | Some t \<Rightarrow>
       (case c of
          Disown d \<Rightarrow> in_world (on_syscall_disown t d) k
        | Adopt d \<Rightarrow> in_world_o (on_syscall_adopt t d) k
        | Make_friend a b \<Rightarrow> in_world_o (on_syscall_make_friend t a b) k
        | Create_child ds e \<Rightarrow> on_syscall_create_child pa t ds e k
        | Set_name s \<Rightarrow> in_world (on_syscall_set_name t s) k
        | List_processes d ld \<Rightarrow> on_syscall_list_processes t d ld k
        | Send_message d m args \<Rightarrow> forget (on_syscall_send_message (pa 1) call_indirect t d m args k)
        | Ask_abilities d ms b n \<Rightarrow> forget (on_syscall_ask_abilities t d ms b n k)
        | Other_call n \<Rightarrow>
            if n = 69 \<and> lock_weak (kw k) (owner (main_thread (procs (kw k) ! t))) = None then Some (Stop Undef)
            else Some (Stop (Panic ''Fatal error''))))"

section \<open>The listing stays in its buffer\<close>

lemma wr_bytes_outside:
  "unat a + length bs \<le> 2 ^ 64 \<Longrightarrow> unat x < unat a \<or> unat a + length bs \<le> unat x \<Longrightarrow> wr_bytes a bs m x = m x"
proof (induction bs arbitrary: a m)
  case (Cons b bs)
  have "x \<noteq> a" using Cons.prems(2) by auto
  show ?case
  proof (cases "bs = []")
    case False
    then have "unat a + 1 < 2 ^ 64" using Cons.prems(1) by (cases bs) auto
    then have "unat (a + 1) = unat a + 1" by (subst unat_add_u64) simp_all
    then show ?thesis using Cons.IH[of "a + 1"] Cons.prems \<open>x \<noteq> a\<close> by auto
  qed (use \<open>x \<noteq> a\<close> in simp)
qed simp

text \<open>Memory that agrees on a set of addresses, those outside \<open>n\<close> bytes, and reading there.\<close>

definition agrees :: "(u64 \<Rightarrow> bool) \<Rightarrow> bytes \<Rightarrow> bytes \<Rightarrow> bool" where
  "agrees P m m' \<longleftrightarrow> (\<forall>a. P a \<longrightarrow> m' a = m a)"

definition outside :: "nat \<Rightarrow> nat \<Rightarrow> u64 \<Rightarrow> bool" where
  "outside B S a \<longleftrightarrow> unat a < B \<or> B + S \<le> unat a"

lemma agrees_refl [simp]: "agrees P m m"
  by (simp add: agrees_def)

lemma agrees_trans: "agrees P m m' \<Longrightarrow> agrees P m' m'' \<Longrightarrow> agrees P m m''"
  by (simp add: agrees_def)

lemma agrees_mono: "agrees P m m' \<Longrightarrow> (\<And>a. Q a \<Longrightarrow> P a) \<Longrightarrow> agrees Q m m'"
  by (simp add: agrees_def)

lemma agrees_write:
  assumes "B + S \<le> 2 ^ 64" "unat a = B + o'" "o' + length bs \<le> S"
  shows "agrees (outside B S) m (wr_bytes a bs m)"
  unfolding agrees_def outside_def
proof (intro allI impI)
  fix x :: u64
  assume "unat x < B \<or> B + S \<le> unat x"
  then show "wr_bytes a bs m x = m x" using assms by (intro wr_bytes_outside) linarith+
qed

lemma agrees_wr64: "B + S \<le> 2 ^ 64 \<Longrightarrow> unat a = B + o' \<Longrightarrow> o' + 8 \<le> S \<Longrightarrow> agrees (outside B S) m (wr64 a v m)"
  unfolding wr64_def by (rule agrees_write) simp_all

lemma agrees_rd64:
  assumes "agrees P m m'" "unat a + 8 \<le> 2 ^ 64" "\<And>x. unat a \<le> unat x \<Longrightarrow> unat x < unat a + 8 \<Longrightarrow> P x"
  shows "rd64 m' a = rd64 m a"
proof -
  have "m' (a + of_nat n) = m (a + of_nat n)" if "n < 8" for n
  proof -
    have "unat (of_nat n :: u64) = n" using that by (simp add: unat_of_nat_u64)
    then have "unat (a + of_nat n) = unat a + n" using that assms(2) by (subst unat_add_u64) simp_all
    then show ?thesis using that assms(1,3) by (simp add: agrees_def)
  qed
  from this[of 0] this[of 1] this[of 2] this[of 3] this[of 4] this[of 5] this[of 6] this[of 7]
  show ?thesis by (simp add: rd64_def rd32_def rd16_def add.assoc)
qed

lemma rd64_wr64: "rd64 (wr64 a v m) a = v"
  unfolding wr64_def rd64_from_le
proof -
  have "rd_bytes (wr_bytes a (le_bytes 8 v) m) a 8 = le_bytes 8 v"
    by (simp add: rd_bytes_def le_bytes_def upt_rec)
  then show "from_le (rd_bytes (wr_bytes a (le_bytes 8 v) m) a 8) = v" by (simp add: from_le_le_bytes take_bit_word_eq_self)
qed

text \<open>A buffer of \<open>S\<close> bytes at \<open>B\<close> of which \<open>u\<close> are used.\<close>

definition buffer_at :: "nat \<Rightarrow> nat \<Rightarrow> nat \<Rightarrow> out_buffer \<Rightarrow> bool" where
  "buffer_at B S u b \<longleftrightarrow> B + S < 2 ^ 64 \<and> u \<le> S \<and> unat (buf b) = B + u \<and> unat (left_over b) = S - u"

lemma buffer_at_omem [simp]: "buffer_at B S u (b\<lparr>omem := m\<rparr>) = buffer_at B S u b"
  by (simp add: buffer_at_def)

lemma buffer_advance:
  assumes "buffer_at B S u b" "unat n \<le> S - u"
  shows "buffer_at B S (u + unat n) (advance n (b\<lparr>omem := m\<rparr>))"
proof -
  have "n \<le> left_over b" using assms by (simp add: buffer_at_def unat_le_iff)
  then have "unat (left_over b - n) = unat (left_over b) - unat n" by (rule unat_diff_u64)
  moreover have "unat (buf b + n) = unat (buf b) + unat n"
    using assms by (subst unat_add_u64) (auto simp: buffer_at_def)
  ultimately show ?thesis using assms by (auto simp: buffer_at_def advance_def)
qed

text \<open>Lists whose processes are alive.\<close>

definition all_alive :: "world \<Rightarrow> nat option list \<Rightarrow> bool" where
  "all_alive w xs \<longleftrightarrow> (\<forall>x \<in> set xs. \<forall>i. x = Some i \<longrightarrow> deref w i = Ret (procs w ! i) \<and> length (pname (procs w ! i)) < 2 ^ 63)"

abbreviation entries_of :: "nat option list \<Rightarrow> nat" where
  "entries_of xs \<equiv> length (filter (\<lambda>x. x \<noteq> None) xs)"

lemma emit_ids_bounded:
  assumes "buffer_at B S u b" "all_alive w xs" "unat cnt + 8 \<le> 2 ^ 64"
  shows "\<exists>stop b' u'. emit_ids w cnt xs b = Ret (stop, b') \<and> buffer_at B S u' b' \<and>
    agrees (\<lambda>a. outside B S a \<and> outside (unat cnt) 8 a) (omem b) (omem b') \<and> (\<not> stop \<longrightarrow> u' = u + 16 * entries_of xs)"
  using assms(1,2)
proof (induction xs arbitrary: b u)
  case (Cons x xs)
  show ?case
  proof (cases "left_over b < 16")
    case True
    then show ?thesis using Cons.prems(1) by auto
  next
    case False
    show ?thesis
    proof (cases x)
      case None
      then show ?thesis using False Cons.IH[OF Cons.prems(1)] Cons.prems(2) by (simp add: all_alive_def)
    next
      case (Some i)
      let ?P = "\<lambda>a. outside B S a \<and> outside (unat cnt) 8 a"
      have d: "deref w i = Ret (procs w ! i)" using Cons.prems(2) Some by (simp add: all_alive_def)
      have l: "16 \<le> S - u" "B + S \<le> 2 ^ 64" "unat (buf b) = B + u" "u + 8 \<le> S"
        using False Cons.prems(1) by (auto simp: buffer_at_def not_less unat_le_iff)
      let ?m1 = "wr64 (buf b) (pid (procs w ! i)) (omem b)"
      let ?m = "wr64 cnt (rd64 ?m1 cnt + 1) ?m1"
      let ?b = "advance 16 (b\<lparr>omem := ?m\<rparr>)"
      have b: "buffer_at B S (u + 16) ?b" using buffer_advance[OF Cons.prems(1), of 16 ?m] l(1) by simp
      obtain stop b' u' where r: "emit_ids w cnt xs ?b = Ret (stop, b')" "buffer_at B S u' b'" "agrees ?P ?m (omem b')"
        "\<not> stop \<longrightarrow> u' = u + 16 + 16 * entries_of xs"
        using Cons.IH[OF b] Cons.prems(2) by (auto simp: all_alive_def advance_def)
      have "agrees ?P (omem b) ?m1" using agrees_wr64[OF l(2,3,4)] by (rule agrees_mono) simp
      moreover have "agrees ?P ?m1 ?m" using agrees_wr64[OF assms(3), of cnt 0] by (rule agrees_mono) simp_all
      ultimately have "agrees ?P (omem b) (omem b')" using r(3) agrees_trans by blast
      then show ?thesis using r d Some False by (auto simp: Let_def)
    qed
  qed
qed auto

lemma emit_names_bounded:
  assumes "buffer_at B S u b" "all_alive w xs" "e + 16 * (i + entries_of xs) \<le> S" "unat (rd64 (omem b) slot) = B + e"
    and slot: "unat slot + 8 \<le> 2 ^ 64" "unat slot + 8 \<le> B \<or> B + S \<le> unat slot"
  shows "\<exists>stop b' u'. emit_names w slot xs i b = Ret (stop, b') \<and> buffer_at B S u' b' \<and> agrees (outside B S) (omem b) (omem b')"
  using assms(1-4)
proof (induction xs arbitrary: i b u)
  case (Cons x xs)
  show ?case
  proof (cases x)
    case None
    then show ?thesis using Cons.IH[OF Cons.prems(1), of i] Cons.prems(2-4) by (simp add: all_alive_def)
  next
    case (Some c)
    have d: "deref w c = Ret (procs w ! c)" "length (pname (procs w ! c)) < 2 ^ 63" using Cons.prems(2) Some by (simp_all add: all_alive_def)
    let ?nm = "pname (procs w ! c)"
    let ?n = "of_nat (length ?nm) + 1 :: u64"
    have n: "unat ?n = length ?nm + 1" using d(2) by (subst unat_add_u64) (simp_all add: unat_of_nat_u64)
    show ?thesis
    proof (cases "left_over b < ?n")
      case True
      then show ?thesis using Some d Cons.prems(1) by (auto simp: Let_def)
    next
      case False
      have l: "length ?nm + 1 \<le> S - u" "B + S \<le> 2 ^ 64" "B + S < 2 ^ 64" "unat (buf b) = B + u" "u \<le> S"
        using False n Cons.prems(1) by (auto simp: buffer_at_def not_less unat_le_iff)
      let ?entries = "rd64 (omem b) slot"
      let ?a = "?entries + 16 * of_nat i + 8"
      let ?m1 = "wr64 ?a (buf b) (omem b)"
      let ?m = "wr_bytes (buf b) (?nm @ [0]) ?m1"
      let ?b = "advance ?n (b\<lparr>omem := ?m\<rparr>)"
      have ei: "e + 16 * i + 16 \<le> S" using Cons.prems(3) Some by simp
      have i64: "unat (16 * of_nat i :: u64) = 16 * i" using ei l(3) by (subst unat_mult_u64) (simp_all add: unat_of_nat_u64)
      have "unat (?entries + 16 * of_nat i) = B + e + 16 * i" using ei l(3) Cons.prems(4) i64 by (subst unat_add_u64) simp_all
      then have a: "unat ?a = B + (e + 16 * i + 8)" using ei l(3) by (subst unat_add_u64) simp_all
      have "agrees (outside B S) (omem b) ?m1" using a ei l(2) by (intro agrees_wr64[OF l(2) a]) simp
      moreover have "agrees (outside B S) ?m1 ?m" using l by (intro agrees_write[OF l(2,4)]) simp
      ultimately have m: "agrees (outside B S) (omem b) ?m" by (rule agrees_trans)
      have b: "buffer_at B S (u + unat ?n) ?b" using n l(1) by (intro buffer_advance[OF Cons.prems(1)]) simp
      have "rd64 ?m slot = ?entries" using slot by (intro agrees_rd64[OF m]) (auto simp: outside_def)
      then have e: "unat (rd64 (omem ?b) slot) = B + e" using Cons.prems(4) by (simp add: advance_def)
      obtain stop b' u' where r: "emit_names w slot xs (Suc i) ?b = Ret (stop, b')" "buffer_at B S u' b'" "agrees (outside B S) ?m (omem b')"
        using Cons.IH[OF b _ _ e, of "Suc i"] Cons.prems(2,3) Some by (auto simp: all_alive_def advance_def)
      have "agrees (outside B S) (omem b) (omem b')" using m r(3) by (rule agrees_trans)
      then show ?thesis using r d Some False by (auto simp: Let_def)
    qed
  qed
qed auto

text \<open>
  The caller's structure at \<open>d\<close> (104 bytes) and a buffer beside it.  One step that writes in the buffer and at one
  field of the structure keeps every other field.\<close>

definition beside :: "u64 \<Rightarrow> nat \<Rightarrow> nat \<Rightarrow> bool" where
  "beside d B S \<longleftrightarrow> unat d + 104 \<le> 2 ^ 64 \<and> B + S < 2 ^ 64 \<and> (unat d + 104 \<le> B \<or> B + S \<le> unat d)"

abbreviation "frame d k B S \<equiv> agrees (\<lambda>a. outside B S a \<and> outside (unat d + k) 8 a)"
abbreviation "written d B S \<equiv> agrees (\<lambda>a. outside B S a \<and> outside (unat d + 32) 72 a)"

lemma unat_field: "unat (d :: u64) + 104 \<le> 2 ^ 64 \<Longrightarrow> k < 104 \<Longrightarrow> unat (d + of_nat k) = unat d + k"
  by (subst unat_add_u64) (simp_all add: unat_of_nat_u64)

lemma frame_field:
  assumes "frame d k B S m m'" "beside d B S" "j + 8 \<le> k \<or> k + 8 \<le> j" "j + 8 \<le> 104"
  shows "rd64 m' (d + of_nat j) = rd64 m (d + of_nat j)"
proof -
  have u: "unat (d + of_nat j) = unat d + j" using assms(2,4) by (intro unat_field) (simp_all add: beside_def)
  show ?thesis
    by (rule agrees_rd64[OF assms(1)]) (use assms(2-4) in \<open>auto simp: outside_def beside_def u\<close>)
qed

lemma frame_write:
  assumes "beside d B S" "k + 8 \<le> 104"
  shows "frame d k B S m (wr64 (d + of_nat k) v m)"
proof -
  have u: "unat (d + of_nat k) = unat d + k" using assms by (intro unat_field) (simp_all add: beside_def)
  have "agrees (outside (unat d + k) 8) m (wr64 (d + of_nat k) v m)"
    using assms u by (intro agrees_wr64[of _ _ _ 0]) (simp_all add: beside_def)
  then show ?thesis by (rule agrees_mono) simp
qed

lemma frame_written: "frame d k B S m m' \<Longrightarrow> 32 \<le> k \<Longrightarrow> k + 8 \<le> 104 \<Longrightarrow> written d B S m m'"
  by (erule agrees_mono) (auto simp: outside_def)

text \<open>The loop over the ids of one list, after the pointer to its entries is stored at \<open>k\<close>.\<close>

lemma ids_step:
  assumes "beside d B S" "buffer_at B S u b" "all_alive w xs" "k \<in> {32, 56, 80}"
  shows "\<exists>stop b' u'. emit_ids w (d + of_nat (k + 8)) xs (b\<lparr>omem := wr64 (d + of_nat k) (buf b) m\<rparr>) = Ret (stop, b') \<and>
    buffer_at B S u' b' \<and> written d B S m (omem b') \<and> rd64 (omem b') (d + of_nat k) = buf b \<and>
    (\<forall>j \<in> {32, 56, 80}. j \<noteq> k \<longrightarrow> rd64 (omem b') (d + of_nat j) = rd64 m (d + of_nat j)) \<and>
    (\<not> stop \<longrightarrow> u' = u + 16 * entries_of xs)"
proof -
  let ?m = "wr64 (d + of_nat k) (buf b) m"
  have k: "k + 8 \<le> 104" "32 \<le> k" "k + 16 \<le> 104" using assms(4) by auto
  have u: "unat (d + of_nat (k + 8)) = unat d + (k + 8)" using assms(1) k by (intro unat_field) (simp_all add: beside_def)
  have "buffer_at B S u (b\<lparr>omem := ?m\<rparr>)" using assms(2) by simp
  moreover have "unat (d + of_nat (k + 8)) + 8 \<le> 2 ^ 64" unfolding u using assms(1) k by (simp add: beside_def)
  ultimately obtain stop b' u' where r: "emit_ids w (d + of_nat (k + 8)) xs (b\<lparr>omem := ?m\<rparr>) = Ret (stop, b')" "buffer_at B S u' b'"
    "frame d (k + 8) B S ?m (omem b')" "\<not> stop \<longrightarrow> u' = u + 16 * entries_of xs"
    using emit_ids_bounded[of B S u "b\<lparr>omem := ?m\<rparr>" w xs "d + of_nat (k + 8)"] assms(3) unfolding u by auto
  have f: "frame d k B S m ?m" using assms(1) k(1) by (rule frame_write)
  have "written d B S m (omem b')"
    using agrees_trans[OF frame_written[OF f] frame_written[OF r(3)]] k by simp
  moreover have "rd64 (omem b') (d + of_nat k) = buf b"
    using frame_field[OF r(3) assms(1), of k] k(1) by (simp add: rd64_wr64)
  moreover have "rd64 (omem b') (d + of_nat j) = rd64 m (d + of_nat j)" if "j \<in> {32, 56, 80}" "j \<noteq> k" for j
  proof -
    have "j + 8 \<le> k \<or> k + 8 \<le> j" "j + 8 \<le> k + 8 \<or> k + 8 + 8 \<le> j" "j + 8 \<le> 104" using that assms(4) by auto
    then show ?thesis using frame_field[OF r(3) assms(1), of j] frame_field[OF f assms(1), of j] by simp
  qed
  ultimately show ?thesis using r(1,2,4) by blast
qed

lemma names_step:
  assumes "beside d B S" "buffer_at B S u b" "all_alive w xs" "k \<in> {32, 56, 80}"
    and "unat (rd64 (omem b) (d + of_nat k)) = B + e" "e + 16 * entries_of xs \<le> S"
  shows "\<exists>stop b' u'. emit_names w (d + of_nat k) xs 0 b = Ret (stop, b') \<and> buffer_at B S u' b' \<and> written d B S (omem b) (omem b') \<and>
    (\<forall>j \<in> {32, 56, 80}. rd64 (omem b') (d + of_nat j) = rd64 (omem b) (d + of_nat j))"
proof -
  have "unat (d + of_nat k) = unat d + k" using assms(1,4) by (intro unat_field) (auto simp: beside_def)
  then have "unat (d + of_nat k) + 8 \<le> 2 ^ 64" "unat (d + of_nat k) + 8 \<le> B \<or> B + S \<le> unat (d + of_nat k)"
    using assms(1,4) by (auto simp: beside_def)
  then obtain stop b' u' where r: "emit_names w (d + of_nat k) xs 0 b = Ret (stop, b')" "buffer_at B S u' b'"
    "agrees (outside B S) (omem b) (omem b')"
    using emit_names_bounded[OF assms(2,3), of e 0 "d + of_nat k"] assms(5,6) by auto
  have f: "frame d i B S (omem b) (omem b')" for i using r(3) by (rule agrees_mono) simp
  have "rd64 (omem b') (d + of_nat j) = rd64 (omem b) (d + of_nat j)" if "j \<in> {32, 56, 80}" for j
    using frame_field[OF f[of 0] assms(1), of j] that by auto
  moreover have "written d B S (omem b) (omem b')" using r(3) by (rule agrees_mono) simp
  ultimately show ?thesis using r(1,2) by blast
qed

lemma list_totals_written:
  assumes "beside d B S"
  shows "written d B S m (list_totals p d m)"
proof -
  let ?m1 = "wr64 (d + 48) (of_nat (length (children p))) m"
  let ?m2 = "wr64 (d + 72) (of_nat (length (friends p))) ?m1"
  have "frame d 48 B S m ?m1" "frame d 72 B S ?m1 ?m2" "frame d 96 B S ?m2 (list_totals p d m)"
    using frame_write[OF assms, of 48] frame_write[OF assms, of 72] frame_write[OF assms, of 96]
    by (simp_all add: list_totals_def)
  from this[THEN frame_written] show ?thesis by (simp, meson agrees_trans)
qed

lemma list_names_bounded:
  assumes bes: "beside d B S" and b: "buffer_at B S u b"
    and alive: "all_alive w (map Some (children p))" "all_alive w (map (lock_weak w) (friends p))"
      "all_alive w (map (lock_weak w) (pending_adoption p))"
    and e: "unat (rd64 (omem b) (d + 32)) = B" "unat (rd64 (omem b) (d + 56)) = B + e1" "unat (rd64 (omem b) (d + 80)) = B + e2"
      "16 * entries_of (map Some (children p)) \<le> S" "e1 + 16 * entries_of (map (lock_weak w) (friends p)) \<le> S"
      "e2 + 16 * entries_of (map (lock_weak w) (pending_adoption p)) \<le> S"
  shows "\<exists>b'. list_names w p d b = Ret b' \<and> written d B S (omem b) (omem b')"
proof -
  obtain t1 c1 v1 where 1: "emit_names w (d + 32) (map Some (children p)) 0 b = Ret (t1, c1)" "buffer_at B S v1 c1"
    "written d B S (omem b) (omem c1)" "rd64 (omem c1) (d + 56) = rd64 (omem b) (d + 56)" "rd64 (omem c1) (d + 80) = rd64 (omem b) (d + 80)"
    using names_step[OF bes b alive(1), of 32 0] e by auto
  obtain t2 c2 v2 where 2: "emit_names w (d + 56) (map (lock_weak w) (friends p)) 0 c1 = Ret (t2, c2)" "buffer_at B S v2 c2"
    "written d B S (omem c1) (omem c2)" "rd64 (omem c2) (d + 80) = rd64 (omem c1) (d + 80)"
    using names_step[OF bes 1(2) alive(2), of 56 e1] e 1(4) by auto
  obtain t3 c3 where 3: "emit_names w (d + 80) (map (lock_weak w) (pending_adoption p)) 0 c2 = Ret (t3, c3)"
    "written d B S (omem c2) (omem c3)"
    using names_step[OF bes 2(2) alive(3), of 80 e2] e 1(5) 2(4) by auto
  have w2: "written d B S (omem b) (omem c2)" and w3: "written d B S (omem b) (omem c3)"
    using agrees_trans[OF 1(3) 2(3)] agrees_trans[OF agrees_trans[OF 1(3) 2(3)] 3(2)] by simp_all
  show ?thesis
    using 1(1,3) 2(1) w2 3(1) w3 by (cases t1; cases t2) (simp_all add: list_names_def)
qed

lemma list_entries_bounded:
  assumes bes: "beside d (unat (rd64 m (d + 16))) (unat (rd64 m (d + 24)))"
    and alive: "all_alive w (map Some (children p))" "all_alive w (map (lock_weak w) (friends p))"
      "all_alive w (map (lock_weak w) (pending_adoption p))"
  shows "\<exists>b. list_entries w p d m = Ret b \<and> written d (unat (rd64 m (d + 16))) (unat (rd64 m (d + 24))) m (omem b)"
proof -
  let ?B = "unat (rd64 m (d + 16))" and ?S = "unat (rd64 m (d + 24))"
  let ?W = "written d ?B ?S" and ?m = "list_totals p d m"
  let ?b0 = "\<lparr>buf = rd64 m (d + 16), left_over = rd64 m (d + 24), omem = m\<rparr>"
  let ?b = "\<lparr>buf = rd64 m (d + 16), left_over = rd64 m (d + 24), omem = wr64 (d + 32) (rd64 m (d + 16)) ?m\<rparr>"
  have b0: "buffer_at ?B ?S 0 ?b0" using bes by (simp add: buffer_at_def beside_def)
  obtain s1 b1 u1 where 1: "emit_ids w (d + 40) (map Some (children p)) ?b = Ret (s1, b1)" "buffer_at ?B ?S u1 b1" "?W ?m (omem b1)"
    "unat (rd64 (omem b1) (d + 32)) = ?B" "\<not> s1 \<longrightarrow> u1 = 16 * entries_of (map Some (children p))"
    using ids_step[OF bes b0 alive(1), of 32 ?m] by auto
  obtain s2 b2 u2 where 2: "emit_ids w (d + 64) (map (lock_weak w) (friends p)) (b1\<lparr>omem := wr64 (d + 56) (buf b1) (omem b1)\<rparr>) = Ret (s2, b2)"
    "buffer_at ?B ?S u2 b2" "?W (omem b1) (omem b2)" "rd64 (omem b2) (d + 56) = buf b1" "rd64 (omem b2) (d + 32) = rd64 (omem b1) (d + 32)"
    "\<not> s2 \<longrightarrow> u2 = u1 + 16 * entries_of (map (lock_weak w) (friends p))"
    using ids_step[OF bes 1(2) alive(2), of 56 "omem b1"] by auto
  obtain s3 b3 u3 where 3: "emit_ids w (d + 88) (map (lock_weak w) (pending_adoption p)) (b2\<lparr>omem := wr64 (d + 80) (buf b2) (omem b2)\<rparr>) = Ret (s3, b3)"
    "buffer_at ?B ?S u3 b3" "?W (omem b2) (omem b3)" "rd64 (omem b3) (d + 80) = buf b2" "rd64 (omem b3) (d + 32) = rd64 (omem b2) (d + 32)"
    "rd64 (omem b3) (d + 56) = rd64 (omem b2) (d + 56)" "\<not> s3 \<longrightarrow> u3 = u2 + 16 * entries_of (map (lock_weak w) (pending_adoption p))"
    using ids_step[OF bes 2(2) alive(3), of 80 "omem b2"] by auto
  have w1: "?W m (omem b1)" using list_totals_written[OF bes] 1(3) by (rule agrees_trans)
  have w2: "?W m (omem b2)" using w1 2(3) by (rule agrees_trans)
  have w3: "?W m (omem b3)" using w2 3(3) by (rule agrees_trans)
  have L: "list_entries w p d m = (if s1 then Ret b1 else if s2 then Ret b2 else if s3 then Ret b3 else list_names w p d b3)"
    by (simp add: list_entries_def Let_def 1(1) 2(1) 3(1))
  show ?thesis
  proof (cases "s1 \<or> s2 \<or> s3")
    case True
    then show ?thesis using w1 w2 w3 by (auto simp: L)
  next
    case False
    have S: "unat (rd64 (omem b3) (d + 56)) = ?B + u1" "unat (rd64 (omem b3) (d + 80)) = ?B + u2" "unat (rd64 (omem b3) (d + 32)) = ?B"
      using 1(2,4) 2(2,4,5) 3(4-6) by (simp_all add: buffer_at_def)
    have "u1 \<le> ?S" "u2 \<le> ?S" "u3 \<le> ?S" using 1(2) 2(2) 3(2) by (simp_all add: buffer_at_def)
    then obtain b4 where "list_names w p d b3 = Ret b4" "?W (omem b3) (omem b4)"
      using list_names_bounded[OF bes 3(2) alive S(3,1,2)] 1(5) 2(6) 3(7) False by auto
    then show ?thesis using w3 agrees_trans False by (auto simp: L)
  qed
qed

section \<open>Properties\<close>

text \<open>The lists of a process whose dead pointers are removed.\<close>

lemma cleanup_dead_alive:
  assumes inv: "ref_inv ext [] w" and t: "t < length (procs w)" and names: "\<forall>q \<in> set (procs w). length (pname q) < 2 ^ 63"
  defines "w' \<equiv> cleanup_dead t w"
  shows "all_alive w' (map Some (children (procs w' ! t)))" "all_alive w' (map (lock_weak w') xs)"
proof -
  have inv': "ref_inv ext [] w'" and len: "length (procs w') = length (procs w)"
    unfolding w'_def cleanup_dead_def Let_def using t by (auto intro!: ref_inv_cong[OF ref_inv_cong[OF inv]])
  have "pname (procs w' ! c) = pname (procs w ! c)" if "c < length (procs w)" for c
    using that t by (simp add: w'_def cleanup_dead_def Let_def)
  then have alive: "deref w' c = Ret (procs w' ! c) \<and> length (pname (procs w' ! c)) < 2 ^ 63"
    if "c < length (procs w')" "0 < strong (procs w' ! c)" for c
    using ref_inv_deref[OF inv' that] that(1) names len by simp
  show "all_alive w' (map Some (children (procs w' ! t)))"
    using ref_inv_child[OF inv', of t] t len alive by (auto simp: all_alive_def owned_def)
  show "all_alive w' (map (lock_weak w') xs)"
    using alive by (auto simp: all_alive_def lock_weak_def split: option.splits if_splits)
qed

text \<open>C27. The system call that lists the relations of the caller or of its parent, in a state with right reference
  counts: it returns, whatever the number of processes, the length of their names and the size of the
  buffer, and writes only into the buffer that the caller's structure names and into the fields of the structure
  behind the buffer's size - the name pointers, which are stored through the pointers the structure itself
  holds, included.  The buffer and the structure (104 bytes at \<open>d\<close>) are in the caller's memory, do not wrap and do not
  overlap.  Descriptors by process id and by path are excluded: their search may not end, and it destroys the process
  that it finds.\<close>

theorem listing_stays_in_buffer:
  assumes "ref_inv ext [] (kw k)" "current (kw k) th = Ret i" "i < length (procs (kw k))" "0 < strong (procs (kw k) ! i)"
    and "t \<in> {Self, Parent}" "\<forall>q \<in> set (procs (kw k)). length (pname q) < 2 ^ 63"
    and "beside d (unat (rd64 (umem k) (d + 16))) (unat (rd64 (umem k) (d + 24)))"
  shows "\<exists>k'. on_syscall_list_processes th t d k = Some (Ret k') \<and> kpt k' = kpt k \<and>
    (\<forall>a. outside (unat (rd64 (umem k) (d + 16))) (unat (rd64 (umem k) (d + 24))) a \<and> outside (unat d + 32) 72 a \<longrightarrow> umem k' a = umem k a)"
proof -
  note di = ref_inv_deref[OF assms(1,3,4)]
  obtain r where r: "get_process_by_descriptor (kw k) i t False = Some (Ret (map_option Proper (lock_weak (kw k) r)))"
    using assms(5) di by (auto simp: get_process_by_descriptor_def)
  show ?thesis
  proof (cases "lock_weak (kw k) r")
    case None
    then show ?thesis using assms(2) r by (simp add: on_syscall_list_processes_def)
  next
    case (Some c)
    then have c: "c < length (procs (kw k))" "0 < strong (procs (kw k) ! c)" by (auto simp: lock_weak_def split: option.splits if_splits)
    let ?w = "cleanup_dead c (kw k)"
    have "deref ?w c = Ret (procs ?w ! c)"
      using c ref_invD(2)[OF assms(1) c(1)] by (simp add: deref_def cleanup_dead_def Let_def)
    moreover obtain b where "list_entries ?w (procs ?w ! c) d (umem k) = Ret b"
      "written d (unat (rd64 (umem k) (d + 16))) (unat (rd64 (umem k) (d + 24))) (umem k) (omem b)"
      using list_entries_bounded[OF assms(7)] cleanup_dead_alive[OF assms(1) c(1) assms(6)] by blast
    ultimately show ?thesis using assms(2) r Some by (simp add: on_syscall_list_processes_def Let_def agrees_def)
  qed
qed

section \<open>Witness\<close>

text \<open>A structure at \<open>0x1000\<close> with a buffer of 40 bytes at \<open>0x5000\<close>.\<close>

definition demo_listing :: "phys_state kernel" where
  "demo_listing = \<lparr>kw = demo_world, kpt = demo_pt, umem = (\<lambda>_. 0)(0x1011 := 0x50, 0x1018 := 40)\<rparr>"

lemma listing_stays_in_buffer_witness:
  "\<exists>k'. on_syscall_list_processes 0 Self 0x1000 demo_listing = Some (Ret k') \<and> kpt k' = kpt demo_listing \<and>
    (\<forall>a. outside 0x5000 40 a \<and> outside 0x1020 72 a \<longrightarrow> umem k' a = umem demo_listing a)"
proof -
  have f: "rd64 (umem demo_listing) (0x1000 + 16) = 0x5000" "rd64 (umem demo_listing) (0x1000 + 24) = 40"
    by (simp_all add: demo_listing_def rd64_def rd32_def rd16_def)
  have "ref_inv demo_ext [] (kw demo_listing)" using demo_world_inv by (simp add: demo_listing_def)
  moreover have "beside 0x1000 (unat (rd64 (umem demo_listing) (0x1000 + 16))) (unat (rd64 (umem demo_listing) (0x1000 + 24)))"
    unfolding f by (simp add: beside_def)
  ultimately show ?thesis
    using listing_stays_in_buffer[of demo_ext demo_listing 0 0 Self "0x1000"] f
    by (simp add: demo_listing_def demo_world_def demo_process_def current_def get_current_def empty_thread_def lock_weak_def)
qed

end
