(* ===== verification/Acpi.thy ===== *)
theory Acpi
  imports Multiboot
begin

text \<open>
  \<^verbatim>\<open>src/high/ACPI/RSDP.cpp\<close>, \<^verbatim>\<open>include/ACPI/RSDP.h\<close> and the \<open>MCFG\<close> part of \<^verbatim>\<open>src/high/PCI/PCI.cpp\<close>: the
  root table (32- or 64-bit pointers), its entries, and the search for a table by its signature.  Memory
  is read by virtual address; physical addresses in the tables go through \<open>map_tmp\<close>.
\<close>

section \<open>The root table\<close>

record sdp =
  sdp_ptr :: u64
  signature :: "u8 list"

definition make_sdp :: "bytes \<Rightarrow> u64 \<Rightarrow> sdp" where
  "make_sdp m p = \<lparr>sdp_ptr = p, signature = takeWhile (\<lambda>c. c \<noteq> 0) (rd_bytes m p 4)\<rparr>"

datatype root_sdt = RSDT u64 | XSDT u64

text \<open>The RSDP's copy in the boot information holds the 32-bit address at 16, the 64-bit one at 24.\<close>

definition make_rsdt :: "bytes \<Rightarrow> u64 \<Rightarrow> root_sdt" where
  "make_rsdt m descriptor = RSDT (map_tmp (ucast (rd32 m (descriptor + 16))))"

definition make_xsdt :: "bytes \<Rightarrow> u64 \<Rightarrow> root_sdt" where
  "make_xsdt m descriptor = XSDT (map_tmp (rd64 m (descriptor + 24)))"

definition get_root :: "bytes \<Rightarrow> u64 \<Rightarrow> root_sdt option res option" where
  "get_root m header =
     bindo (get_tag m header 15 True) (\<lambda>xsdt_tag.
       if xsdt_tag \<noteq> 0 then Some (Ret (Some (make_xsdt m (xsdt_tag + 8))))
       else
         bindo (get_tag m header 14 True) (\<lambda>rsdt_tag.
           if rsdt_tag \<noteq> 0 then Some (Ret (Some (make_rsdt m (rsdt_tag + 8))))
           else Some (Ret None)))"

text \<open>The length minus the header's fields; it wraps for a length below 36.\<close>

definition table_payload :: "bytes \<Rightarrow> u64 \<Rightarrow> u64" where
  "table_payload m p = ucast (rd32 m (p + 4)) - 4 - 4 - 1 - 1 - 6 - 8 - 4 - 4 - 4"

fun get_sdp_count :: "bytes \<Rightarrow> root_sdt \<Rightarrow> u64" where
  "get_sdp_count m (RSDT p) = table_payload m p div 4"
| "get_sdp_count m (XSDT p) = table_payload m p div 8"

fun get_sdp :: "bytes \<Rightarrow> root_sdt \<Rightarrow> u64 \<Rightarrow> sdp" where
  "get_sdp m (RSDT p) index = make_sdp m (map_tmp (ucast (rd32 m (p + 36 + index * 4))))"
| "get_sdp m (XSDT p) index = make_sdp m (map_tmp (rd64 m (p + 36 + index * 8)))"

fun find_sdp :: "bytes \<Rightarrow> root_sdt \<Rightarrow> u8 list \<Rightarrow> nat \<Rightarrow> nat \<Rightarrow> sdp option" where
  "find_sdp m t sig i 0 = None"
| "find_sdp m t sig i (Suc n) =
     (let s = get_sdp m t (of_nat i)
      in if strcmp sig (signature s) = 0 then Some s else find_sdp m t sig (Suc i) n)"

definition get_sdp_by_signature :: "bytes \<Rightarrow> root_sdt \<Rightarrow> u8 list \<Rightarrow> sdp option" where
  "get_sdp_by_signature m t sig = find_sdp m t sig 0 (unat (get_sdp_count m t))"

section \<open>The configuration space table\<close>

definition str_MCFG :: "u8 list" where "str_MCFG = [0x4D, 0x43, 0x46, 0x47]"

definition make_mcfg :: "sdp \<Rightarrow> sdp option" where
  "make_mcfg s = (if strcmp (signature s) str_MCFG = 0 then Some s else None)"

record pci_group =
  base :: u64
  segment_number :: u16
  start_number :: u8
  end_number :: u8

definition get_entry :: "bytes \<Rightarrow> sdp \<Rightarrow> u64 \<Rightarrow> pci_group" where
  "get_entry m s index =
     (let entry = sdp_ptr s + 44 + index * 16
      in \<lparr>base = rd64 m entry, segment_number = rd16 m (entry + 8), start_number = m (entry + 10), end_number = m (entry + 11)\<rparr>)"

definition get_entry_count :: "bytes \<Rightarrow> sdp \<Rightarrow> u64" where
  "get_entry_count m s = ucast ((rd32 m (sdp_ptr s + 4) - 44) div 16)"

section \<open>The search by signature\<close>

lemma make_sdp_c_string: "c_string (signature (make_sdp m p))"
  by (auto simp: make_sdp_def c_string_def dest: set_takeWhileD)

lemma get_sdp_c_string: "c_string (signature (get_sdp m t i))"
  by (cases t) (simp_all add: make_sdp_c_string)

lemma find_sdp_eq:
  assumes "c_string sig"
  shows "find_sdp m t sig i n = find (\<lambda>s. sig = signature s) (map (\<lambda>k. get_sdp m t (of_nat k)) [i..<i + n])"
proof (induction n arbitrary: i)
  case (Suc n)
  have u: "[i..<i + Suc n] = i # [Suc i..<Suc i + n]" by (simp add: upt_conv_Cons)
  show ?case
    unfolding u by (simp add: Suc.IH Let_def strcmp_eq_0[OF assms get_sdp_c_string])
qed simp

text \<open>The search returns the first table of the root table whose signature is the given one.\<close>

lemma get_sdp_by_signature_first:
  assumes "c_string sig"
  shows "get_sdp_by_signature m t sig =
    find (\<lambda>s. sig = signature s) (map (\<lambda>k. get_sdp m t (of_nat k)) [0..<unat (get_sdp_count m t)])"
  unfolding get_sdp_by_signature_def using find_sdp_eq[OF assms, of m t 0] by simp

end
