(* ===== verification/Interrupt.thy ===== *)
theory Interrupt
  imports Paging
begin

text \<open>
  \<^verbatim>\<open>src/high/interrupt/interrupt.cpp\<close>, \<^verbatim>\<open>include/interrupt/interrupt.h\<close> and
  \<^verbatim>\<open>src/high/interrupt/default_handler.cpp\<close>: the descriptor table, the registered handlers, the stubs'
  arithmetic that recovers the interrupt number, and the default handlers.  A registered C++ function is a
  value of type \<open>'h\<close>; whether interrupts are enabled is a flag.
\<close>

section \<open>State\<close>

record interrupt_gate =
  low_address :: u16
  segment_selector_of :: u16
  interrupt_stack :: u8
  gate_type :: u8
  privilege_level :: u8
  gate_present :: bool
  middle_address :: u16
  high_address :: u32

definition empty_gate :: interrupt_gate where
  "empty_gate = \<lparr>low_address = 0, segment_selector_of = 0, interrupt_stack = 0, gate_type = 0, privilege_level = 0,
     gate_present = False, middle_address = 0, high_address = 0\<rparr>"

record 'h int_state =
  enabled :: bool
  interrupt_vector_table :: "interrupt_gate list"
  interrupt_handlers :: "'h option list"
  user_ptrs :: "u64 list"
  interrupt_number_value :: u64
  idtr_loaded :: bool

text \<open>\<open>Guard\<close>: interrupts are off inside and as before outside.\<close>

definition with_guard :: "('h int_state \<Rightarrow> 'h int_state) \<Rightarrow> 'h int_state \<Rightarrow> 'h int_state" where
  "with_guard f s =
     (let s1 = f (s\<lparr>enabled := False\<rparr>)
      in if enabled s then s1\<lparr>enabled := True\<rparr> else s1)"

section \<open>Gates\<close>

definition make_gate :: "u64 \<Rightarrow> u8 \<Rightarrow> interrupt_gate" where
  "make_gate handler stack = \<lparr>low_address = ucast (handler AND 0xFFFF),
     segment_selector_of = segment_selector KERNEL_CODE, interrupt_stack = take_bit 3 stack, gate_type = 0xE,
     privilege_level = 0, gate_present = True, middle_address = ucast (drop_bit 16 handler AND 0xFFFF),
     high_address = ucast (drop_bit 32 handler)\<rparr>"

definition set_handler :: "u64 \<Rightarrow> u8 \<Rightarrow> u8 \<Rightarrow> 'h int_state \<Rightarrow> 'h int_state" where
  "set_handler handler interrupt stack =
     with_guard (\<lambda>s. s\<lparr>interrupt_vector_table := (interrupt_vector_table s)[unat interrupt := make_gate handler stack]\<rparr>)"

definition set_native_interrupt_handler :: "u64 \<Rightarrow> u8 \<Rightarrow> u8 \<Rightarrow> 'h int_state \<Rightarrow> 'h int_state" where
  "set_native_interrupt_handler = set_handler"

definition register_handler :: "u8 \<Rightarrow> 'h \<Rightarrow> u64 \<Rightarrow> 'h int_state \<Rightarrow> 'h int_state" where
  "register_handler number handler user_ptr =
     with_guard (\<lambda>s. s\<lparr>interrupt_handlers := (interrupt_handlers s)[unat number := Some handler],
       user_ptrs := (user_ptrs s)[unat number := user_ptr]\<rparr>)"

text \<open>\<open>init\<close>, with the addresses of the first stage's begin and end.\<close>

definition init_gates :: "u64 \<Rightarrow> u64 \<Rightarrow> 'h int_state \<Rightarrow> 'h int_state" where
  "init_gates start element_size s =
     fold (\<lambda>i. set_handler (start + of_nat i * element_size) (of_nat i) 0) [0..<256] s"

definition interrupt_init :: "u64 \<Rightarrow> u64 \<Rightarrow> 'h int_state \<Rightarrow> 'h int_state" where
  "interrupt_init start stop =
     with_guard (\<lambda>s.
       (init_gates start ((stop - start) div 256) (s\<lparr>interrupt_handlers := replicate 256 None\<rparr>))
         \<lparr>interrupt_number_value := 0, idtr_loaded := True\<rparr>)"

section \<open>Dispatch\<close>

text \<open>A stub is \<open>cli\<close> and \<open>call\<close>; stage two stores the return address relative to the first stub, and
  compares it with the offsets of the interrupts that push an error code.\<close>

definition stage_two_offset :: "u64 \<Rightarrow> u64 \<Rightarrow> u64" where
  "stage_two_offset start return_address = return_address - start"

definition stage_two_has_error_code :: "u64 \<Rightarrow> bool" where
  "stage_two_has_error_code off \<longleftrightarrow> off \<in> {54, 66, 72, 78, 84, 90, 108}"

definition interrupt_number :: "u64 \<Rightarrow> u64 \<Rightarrow> u64 \<Rightarrow> u64 res" where
  "interrupt_number start stop off =
     (let element_size = (stop - start) div 256
      in if element_size = 0 then Stop Undef else Ret (off div element_size - 1))"

text \<open>\<open>interrupt_handler\<close>: the call that it makes, as handler, number, error code, frame and user pointer.  The
  frame is what is left of the stack (from the top) when the error code is popped.\<close>

definition interrupt_handler :: "u64 \<Rightarrow> u64 \<Rightarrow> u64 list \<Rightarrow> u64 \<Rightarrow> 'h int_state \<Rightarrow> ('h \<times> u8 \<times> u64 \<times> u64 list \<times> u64) res" where
  "interrupt_handler start stop frame err s =
     bindr (interrupt_number start stop (interrupt_number_value s)) (\<lambda>n.
       if n \<ge> 256 then Stop (Panic ''Invalid Interrupt'')
       else case interrupt_handlers s ! unat n of
              None \<Rightarrow> Stop (Panic ''Unhandled Interrupt'')
            | Some h \<Rightarrow> Ret (h, ucast n, err, frame, user_ptrs s ! unat n))"

text \<open>A stub and stage two on the stack (from the top) that the processor left: for an interrupt of stage two's
  list the top is the error code, for the others stage two pushes a zero.\<close>

definition run_stub :: "u64 \<Rightarrow> u64 \<Rightarrow> u64 \<Rightarrow> u64 list \<Rightarrow> 'h int_state \<Rightarrow> ('h \<times> u8 \<times> u64 \<times> u64 list \<times> u64) res" where
  "run_stub start stop target stack s =
     (let return_address = target + (stop - start) div 256;
          off = stage_two_offset start return_address;
          stack' = (if stage_two_has_error_code off then stack else 0 # stack)
      in interrupt_handler start stop (tl stack') (hd stack') (s\<lparr>interrupt_number_value := off\<rparr>))"

text \<open>
  The processor on an interrupt of vector \<open>n\<close>: with the IDTR loaded and the vector's gate a present interrupt
  gate into the kernel's code segment it pushes the frame, the error code for the exceptions that have one
  (8, 10 to 14, 17 and 21, and on AMD's processors 29 and 30), and jumps to the gate's target.  Otherwise it delivers
  nothing to the kernel.\<close>

definition pushes_error_code :: "u8 \<Rightarrow> bool" where
  "pushes_error_code n \<longleftrightarrow> n \<in> {8, 10, 11, 12, 13, 14, 17, 21, 29, 30}"

definition gate_address :: "interrupt_gate \<Rightarrow> u64" where
  "gate_address g = ucast (low_address g) OR push_bit 16 (ucast (middle_address g)) OR push_bit 32 (ucast (high_address g))"

definition take_interrupt :: "u64 \<Rightarrow> u64 \<Rightarrow> u8 \<Rightarrow> u64 \<Rightarrow> u64 list \<Rightarrow> 'h int_state \<Rightarrow> ('h \<times> u8 \<times> u64 \<times> u64 list \<times> u64) res option" where
  "take_interrupt start stop n err frame s =
     (let g = interrupt_vector_table s ! unat n
      in if idtr_loaded s \<and> gate_present g \<and> gate_type g = 0xE \<and> segment_selector_of g = segment_selector KERNEL_CODE
         then Some (run_stub start stop (gate_address g) (if pushes_error_code n then err # frame else frame) s)
         else None)"

text \<open>\<open>get_free_interrupt_number\<close>: the first number from 32 to 254 without a handler.\<close>

definition get_free_interrupt_number :: "'h int_state \<Rightarrow> u8 res" where
  "get_free_interrupt_number s =
     (case find (\<lambda>i. interrupt_handlers s ! i = None) [32..<255] of
        Some i \<Rightarrow> Ret (of_nat i)
      | None \<Rightarrow> Stop (Panic ''No free interrupt number''))"

section \<open>Default handlers\<close>

definition exception_names :: "string list" where
  "exception_names = [''Division by zero'', ''Debug'', ''Non-maskable interrupt'', ''Breakpoint'', ''Overflow'',
     ''Bound range exceeded'', ''Invalid opcode'', ''Device not available'', ''Double fault'',
     ''Coprocessor segment overrun'', ''Invalid TSS'', ''Segment not present'', ''Stack-segment fault'',
     ''General protection fault'', ''Page fault'', ''Reserved'', ''x87 floating-point exception'', ''Alignment check'',
     ''Machine check'', ''SIMD floating-point exception'', ''Virtualization exception'', ''Control protection exception'']"

definition get_name :: "u8 \<Rightarrow> string" where
  "get_name number' =
     (if unat number' < length exception_names then exception_names ! unat number'
      else if number' < 32 then ''Reserved'' else ''Unknown'')"

text \<open>\<open>trace_page_fault\<close>: the table, the slot and the entry that are printed per level.  The slot is kept in
  a \<open>uint8_t\<close>.\<close>

fun trace_levels :: "'p pt_state \<Rightarrow> u64 \<Rightarrow> u64 list \<Rightarrow> (u64 \<times> u8 \<times> u64) list" where
  "trace_levels s page [] = []"
| "trace_levels s page (off # offs) =
     (let slot = ucast off :: u8;
          entry = read_word s (page + 8 * ucast slot)
      in (page, slot, entry) #
         (if present entry = 0 then [] else trace_levels s (map_tmp (entry_address entry)) offs))"

definition trace_page_fault :: "'p pt_state \<Rightarrow> u64 \<Rightarrow> (u64 \<times> u8 \<times> u64) list" where
  "trace_page_fault s a = trace_levels s (map_tmp (cr3 s)) [l4_offset a, l3_offset a, l2_offset a, l1_offset a]"

definition page_fault_text :: "u64 \<Rightarrow> string" where
  "page_fault_text err =
     (if bit err 0 then ''present '' else ''not-present '') @ (if bit err 1 then ''write '' else ''read '') @
     (if bit err 2 then ''user '' else '''') @ (if bit err 3 then ''reserved '' else '''') @
     (if bit err 4 then ''instruction '' else '''') @ (if bit err 5 then ''protection key '' else '''') @
     (if bit err 6 then ''shadow stack '' else '''') @ (if bit err 7 then ''hlat '' else '''') @
     (if bit err 15 then ''sgx '' else '''')"

text \<open>\<open>page_fault_handler\<close> never returns: what it prints, and how it stops.\<close>

definition page_fault_handler :: "'p pt_state \<Rightarrow> u64 \<Rightarrow> u64 \<Rightarrow> bool \<Rightarrow> (string \<times> (u64 \<times> u8 \<times> u64) list) option \<times> halt" where
  "page_fault_handler s address err recursion =
     (if recursion then (None, Panic ''Page fault in page fault handler'')
      else (Some (page_fault_text err, trace_page_fault s address), Panic ''Fatal error''))"

text \<open>\<open>init_default_handlers\<close>, with the two handlers it registers.\<close>

definition init_default_handlers :: "'h \<Rightarrow> 'h \<Rightarrow> 'h int_state \<Rightarrow> 'h int_state" where
  "init_default_handlers unhandled page_fault =
     with_guard (\<lambda>s. register_handler 14 page_fault 0 (fold (\<lambda>i. register_handler (of_nat i) unhandled 0) [0..<32] s))"

section \<open>From a gate to its handler\<close>

lemma bit_FFFF: "bit (0xFFFF :: u64) n \<longleftrightarrow> n < 16"
proof -
  have "bit (mask 16 :: u64) n \<longleftrightarrow> n < 16" by (simp only: bit_mask_iff) auto
  moreover have "(mask 16 :: u64) = 0xFFFF" by (simp add: mask_eq_exp_minus_1)
  ultimately show ?thesis by simp
qed

lemma gate_address_make [simp]: "gate_address (make_gate a st) = a"
  unfolding gate_address_def make_gate_def
proof (rule bit_word_eqI, goal_cases)
  case (1 n)
  consider "n < 16" | "16 \<le> n" "n < 32" | k where "n = 32 + k" by (metis le_add_diff_inverse not_le)
  then show ?case using 1 by cases (auto simp: bit_simps bit_FFFF simp del: bit_numeral_word_iff)
qed

lemma gate_make_simps [simp]: "gate_present (make_gate a st)" "gate_type (make_gate a st) = 0xE"
  "segment_selector_of (make_gate a st) = segment_selector KERNEL_CODE"
  by (simp_all add: make_gate_def)

lemma with_guard_simps [simp]:
  "enabled (with_guard f s) = (enabled s \<or> enabled (f (s\<lparr>enabled := False\<rparr>)))"
  "interrupt_vector_table (with_guard f s) = interrupt_vector_table (f (s\<lparr>enabled := False\<rparr>))"
  "interrupt_handlers (with_guard f s) = interrupt_handlers (f (s\<lparr>enabled := False\<rparr>))"
  "user_ptrs (with_guard f s) = user_ptrs (f (s\<lparr>enabled := False\<rparr>))"
  "idtr_loaded (with_guard f s) = idtr_loaded (f (s\<lparr>enabled := False\<rparr>))"
  by (simp_all add: with_guard_def Let_def)

definition tables_full :: "'h int_state \<Rightarrow> bool" where
  "tables_full s \<longleftrightarrow> length (interrupt_vector_table s) = 256 \<and> length (interrupt_handlers s) = 256 \<and> length (user_ptrs s) = 256"

lemma set_handler_simps [simp]:
  "interrupt_vector_table (set_handler a i st s) = (interrupt_vector_table s)[unat i := make_gate a st]"
  "interrupt_handlers (set_handler a i st s) = interrupt_handlers s"
  "user_ptrs (set_handler a i st s) = user_ptrs s" "enabled (set_handler a i st s) = enabled s"
  by (simp_all add: set_handler_def)

lemma set_handlers_prefix:
  assumes "length (interrupt_vector_table s) = 256" "n \<le> 256"
  shows "interrupt_vector_table (fold (\<lambda>i. set_handler (start + of_nat i * es) (of_nat i) 0) [0..<n] s) =
      map (\<lambda>i. make_gate (start + of_nat i * es) 0) [0..<n] @ drop n (interrupt_vector_table s) \<and>
    interrupt_handlers (fold (\<lambda>i. set_handler (start + of_nat i * es) (of_nat i) 0) [0..<n] s) = interrupt_handlers s \<and>
    user_ptrs (fold (\<lambda>i. set_handler (start + of_nat i * es) (of_nat i) 0) [0..<n] s) = user_ptrs s \<and>
    enabled (fold (\<lambda>i. set_handler (start + of_nat i * es) (of_nat i) 0) [0..<n] s) = enabled s"
  using assms(2)
proof (induction n)
  case (Suc n)
  have n: "unat (of_nat n :: u8) = n" using Suc.prems by (simp add: unat_of_nat take_bit_nat_eq_self)
  have "drop n (interrupt_vector_table s) = interrupt_vector_table s ! n # drop (Suc n) (interrupt_vector_table s)"
    using Suc.prems assms(1) by (intro Cons_nth_drop_Suc[symmetric]) simp
  then show ?case using Suc n by (simp add: list_update_append)
qed simp

lemma interrupt_init_simps:
  assumes "tables_full s"
  shows "interrupt_vector_table (interrupt_init start stop s) = map (\<lambda>i. make_gate (start + of_nat i * ((stop - start) div 256)) 0) [0..<256]"
    and "interrupt_handlers (interrupt_init start stop s) = replicate 256 None"
    and "user_ptrs (interrupt_init start stop s) = user_ptrs s"
    and "enabled (interrupt_init start stop s) = enabled s" and "idtr_loaded (interrupt_init start stop s)"
proof -
  let ?s = "s\<lparr>enabled := False, interrupt_handlers := replicate 256 None\<rparr>"
  have "length (interrupt_vector_table ?s) = 256" using assms by (simp add: tables_full_def)
  note p = set_handlers_prefix[OF this order.refl, of start "(stop - start) div 256"]
  then show "interrupt_vector_table (interrupt_init start stop s) = map (\<lambda>i. make_gate (start + of_nat i * ((stop - start) div 256)) 0) [0..<256]"
    "interrupt_handlers (interrupt_init start stop s) = replicate 256 None" "user_ptrs (interrupt_init start stop s) = user_ptrs s"
    "enabled (interrupt_init start stop s) = enabled s" "idtr_loaded (interrupt_init start stop s)"
    using assms by (simp_all add: interrupt_init_def init_gates_def tables_full_def del: upt_Suc)
qed

lemma register_handler_simps [simp]:
  "interrupt_vector_table (register_handler n h u s) = interrupt_vector_table s"
  "interrupt_handlers (register_handler n h u s) = (interrupt_handlers s)[unat n := Some h]"
  "user_ptrs (register_handler n h u s) = (user_ptrs s)[unat n := u]" "enabled (register_handler n h u s) = enabled s"
  "idtr_loaded (register_handler n h u s) = idtr_loaded s"
  by (simp_all add: register_handler_def)

lemma unat_u8: "unat (n :: u8) < 256"
  using unsigned_less[of n] by simp

lemma unat_ucast_up: "unat (ucast (m :: u8) :: u64) = unat m"
  using unat_u8[of m] by (simp add: unsigned_ucast_eq take_bit_nat_eq_self)

text \<open>The offsets of six-byte stubs.\<close>

lemma stub_offset:
  assumes "stop = start + 1536" "k < 256"
  shows "stage_two_offset start (start + of_nat k * 6 + (stop - start) div 256) = of_nat (6 * k + 6)"
    "interrupt_number start stop (of_nat (6 * k + 6)) = Ret (of_nat k)"
    "stage_two_has_error_code (of_nat (6 * k + 6)) \<longleftrightarrow> k \<in> {8, 10, 11, 12, 13, 14, 17}"
proof -
  have es: "(stop - start) div 256 = 6" unfolding assms(1) by simp
  show "stage_two_offset start (start + of_nat k * 6 + (stop - start) div 256) = of_nat (6 * k + 6)"
    unfolding es by (simp add: stage_two_offset_def mult.commute)
  have u: "unat (of_nat (6 * k + 6) :: u64) = 6 * k + 6" using assms(2) by (intro unat_of_nat_u64) simp
  have "unat (of_nat (6 * k + 6) div 6 :: u64) = k + 1" by (simp only: unat_div u) simp
  then have "of_nat (6 * k + 6) div 6 = (of_nat (k + 1) :: u64)" by (rule word_eq_of_nat)
  then have "of_nat (6 * k + 6) div 6 - 1 = (of_nat k :: u64)" by (simp only: of_nat_add of_nat_1) simp
  then show "interrupt_number start stop (of_nat (6 * k + 6)) = Ret (of_nat k)"
    unfolding interrupt_number_def es Let_def by simp
  have e: "of_nat (6 * k + 6) = (of_nat m :: u64) \<longleftrightarrow> 6 * k + 6 = m" if "m < 2 ^ 64" for m
    using u unat_of_nat_u64[OF that] by (auto simp: word_cong_unat)
  show "stage_two_has_error_code (of_nat (6 * k + 6)) \<longleftrightarrow> k \<in> {8, 10, 11, 12, 13, 14, 17}"
    using e[of 54] e[of 66] e[of 72] e[of 78] e[of 84] e[of 90] e[of 108] by (auto simp: stage_two_has_error_code_def)
qed

lemma run_stub_dispatches:
  assumes "stop = start + 1536"
  shows "run_stub start stop (start + of_nat (unat (m :: u8)) * 6) stack s =
    (case interrupt_handlers s ! unat m of
       None \<Rightarrow> Stop (Panic ''Unhandled Interrupt'')
     | Some h \<Rightarrow>
         if unat m \<in> {8, 10, 11, 12, 13, 14, 17} then Ret (h, m, hd stack, tl stack, user_ptrs s ! unat m)
         else Ret (h, m, 0, stack, user_ptrs s ! unat m))"
proof -
  note o = stub_offset[OF assms unat_u8[of m]]
  have l: "\<not> (256 :: u64) \<le> of_nat (unat m)" "unat (of_nat (unat m) :: u64) = unat m"
    using unat_u8[of m] by (simp_all add: unat_le_iff unat_ucast_up)
  have u: "(ucast (of_nat (unat m) :: u64) :: u8) = m" by (rule bit_word_eqI) (auto simp: bit_simps dest: bit_imp_le_length)
  show ?thesis
    unfolding run_stub_def Let_def o(1) o(3) interrupt_handler_def
    using o(2) l u by (simp del: of_nat_add of_nat_mult of_nat_unat insert_iff split: option.split)
qed

text \<open>C31. From an interrupt to the C++ function: after \<open>init\<close> with six-byte stubs and one \<open>registerHandler\<close> the
  descriptor table is loaded and every gate points to its stub, so that the processor delivers every
  vector; the registered vector's handler is called with its number and its user pointer and, if the processor
  pushes no error code, with 0 and the interrupt's frame, if it pushes one, with that code and the frame - except for
  21, 29 and 30, which stage two does not know: there the handler is given 0 for the code and a frame that is
  off by the word of the code.  Every other vector panics as unhandled, and whether interrupts are
  enabled is as before.\<close>

theorem interrupt_reaches_handler:
  assumes "tables_full s" "stop = start + 1536" "s' = register_handler n h u (interrupt_init start stop s)"
  shows "(\<forall>m :: u8. gate_address (interrupt_vector_table s' ! unat m) = start + 6 * of_nat (unat m)) \<and>
    take_interrupt start stop n err frame s' = Some (Ret
      (if \<not> pushes_error_code n then (h, n, 0, frame, u)
       else if n \<notin> {21, 29, 30} then (h, n, err, frame, u)
       else (h, n, 0, err # frame, u))) \<and>
    (\<forall>m. m \<noteq> n \<longrightarrow> take_interrupt start stop m err frame s' = Some (Stop (Panic ''Unhandled Interrupt''))) \<and>
    enabled s' = enabled s"
proof -
  have es: "(stop - start) div 256 = 6" unfolding assms(2) by simp
  have g: "interrupt_vector_table s' ! unat m = make_gate (start + of_nat (unat m) * 6) 0" for m :: u8
    unfolding assms(3) using unat_u8[of m] by (simp add: interrupt_init_simps[OF assms(1)] es del: upt_Suc)
  have hs: "interrupt_handlers s' = (replicate 256 None)[unat n := Some h]" "user_ptrs s' = (user_ptrs s)[unat n := u]" "length (user_ptrs s) = 256"
    "idtr_loaded s'"
    unfolding assms(3) using assms(1) by (simp_all add: interrupt_init_simps[OF assms(1)] tables_full_def)
  have take: "take_interrupt start stop m err frame s' =
      Some (run_stub start stop (start + of_nat (unat m) * 6) (if pushes_error_code m then err # frame else frame) s')" for m
    by (simp add: take_interrupt_def Let_def g hs(4))
  note t = run_stub_dispatches[OF assms(2)]
  have listed: "unat n \<in> {8, 10, 11, 12, 13, 14, 17} \<longleftrightarrow> pushes_error_code n \<and> n \<notin> {21, 29, 30}"
    by (auto simp: pushes_error_code_def word_cong_unat)
  have "\<forall>m :: u8. gate_address (interrupt_vector_table s' ! unat m) = start + 6 * of_nat (unat m)"
    unfolding g by (simp add: mult.commute)
  moreover have "take_interrupt start stop n err frame s' = Some (Ret
      (if \<not> pushes_error_code n then (h, n, 0, frame, u)
       else if n \<notin> {21, 29, 30} then (h, n, err, frame, u)
       else (h, n, 0, err # frame, u)))"
    unfolding take t listed using unat_u8[of n] hs by (simp del: insert_iff)
  moreover have "take_interrupt start stop m err frame s' = Some (Stop (Panic ''Unhandled Interrupt''))" if "m \<noteq> n" for m
    unfolding take t hs(1) using unat_u8[of m] that by (auto simp: word_cong_unat)
  moreover have "enabled s' = enabled s" unfolding assms(3) by (simp add: interrupt_init_simps[OF assms(1)])
  ultimately show ?thesis by blast
qed

text \<open>The trace of a page fault looks at the wrong slot when an index is above 255: it is kept in a byte.\<close>

lemma trace_page_fault_slot: "trace_page_fault s a \<noteq> []" "fst (snd (hd (trace_page_fault s a))) = ucast (l4_offset a)"
  by (simp_all add: trace_page_fault_def Let_def)

lemma trace_slot_truncated: "unat (ucast (l4_offset a) :: u8) = unat (l4_offset a) mod 256"
  by (simp add: unsigned_ucast_eq take_bit_eq_mod)

definition demo_int :: "nat int_state" where
  "demo_int = \<lparr>enabled = True, interrupt_vector_table = replicate 256 empty_gate, interrupt_handlers = replicate 256 None,
     user_ptrs = replicate 256 0, interrupt_number_value = 0, idtr_loaded = False\<rparr>"

lemma interrupt_reaches_handler_witness:
  "take_interrupt 0x100000 0x100600 14 2 [0x1234] (register_handler 14 42 7 (interrupt_init 0x100000 0x100600 demo_int))
     = Some (Ret (42, 14, 2, [0x1234], 7))"
proof -
  have t: "tables_full demo_int" by (simp add: tables_full_def demo_int_def)
  have "pushes_error_code 14" by (simp add: pushes_error_code_def)
  then show ?thesis
    using interrupt_reaches_handler[where start = "0x100000" and stop = "0x100600" and n = "14" and h = "42" and u = "7" and err = "2" and frame = "[0x1234]", OF t _ refl] by simp
qed

end
