(* ===== verification/Apic.thy ===== *)
theory Apic
  imports Acpi Mmio Interrupt
begin

text \<open>
  \<^verbatim>\<open>src/high/ACPI/APIC.cpp\<close> and \<^verbatim>\<open>include/ACPI/APIC.h\<close>: the scan of the MADT for cores, I/O APICs and
  interrupt source overrides, the set-up and masking of the I/O APICs' pins, inter-processor interrupts, and
  the one-shot timer.  The table is read from byte memory; the APICs' registers are a device.  What
  waits for hardware (\<open>sleep\<close>, the timer's calibration, the start of the other cores) is in \<open>ApStart\<close>.
\<close>

section \<open>The table\<close>

record cpu_core =
  acpi_id :: u8
  apic_id :: u8
  os_id :: u64

record io_apic =
  io_id :: u8
  io_address :: u32
  gsi_base :: u32

record source_override =
  override_from :: u8
  override_to :: u32

text \<open>\<open>search\<close>: the next entry of the type and the position after it; an entry of length 0 makes it loop.\<close>

partial_function (option) madt_search :: "bytes \<Rightarrow> u64 \<Rightarrow> u64 \<Rightarrow> u8 \<Rightarrow> (u64 option \<times> u64) option" where
  "madt_search m iter stop type =
     (if iter < stop then
        if m iter = type then Some (Some iter, iter + ucast (m (iter + 1)))
        else madt_search m (iter + ucast (m (iter + 1))) stop type
      else Some (None, iter))"

partial_function (option) count_loop :: "bytes \<Rightarrow> u64 \<Rightarrow> u64 \<Rightarrow> u8 \<Rightarrow> u64 \<Rightarrow> u64 option" where
  "count_loop m iter stop type n =
     (if iter < stop then
        Option.bind (madt_search m iter stop type) (\<lambda>(r, iter').
          count_loop m iter' stop type (if r = None then n else n + 1))
      else Some n)"

definition madt_start :: "u64 \<Rightarrow> u64" where
  "madt_start table = table + 44"

definition madt_stop :: "bytes \<Rightarrow> u64 \<Rightarrow> u64" where
  "madt_stop m table = table + ucast (rd32 m (table + 4))"

definition count_madt_entries :: "bytes \<Rightarrow> u64 \<Rightarrow> u8 \<Rightarrow> u64 option" where
  "count_madt_entries m table type = count_loop m (madt_start table) (madt_stop m table) type 0"

text \<open>The loops of \<open>init\<close> over the entries of one type, each of which is handled at an index of one byte.\<close>

partial_function (option) madt_fill :: "(u64 \<Rightarrow> u8 \<Rightarrow> 'a) \<Rightarrow> bytes \<Rightarrow> u64 \<Rightarrow> u64 \<Rightarrow> u8 \<Rightarrow> u8 \<Rightarrow> 'a list \<Rightarrow> 'a list option" where
  "madt_fill f m iter stop type index xs =
     (if iter < stop then
        Option.bind (madt_search m iter stop type) (\<lambda>(r, iter').
          case r of
            None \<Rightarrow> madt_fill f m iter' stop type index xs
          | Some e \<Rightarrow> madt_fill f m iter' stop type (index + 1) (xs[unat index := f e index]))
      else Some xs)"

definition core_entry :: "bytes \<Rightarrow> u64 \<Rightarrow> u8 \<Rightarrow> cpu_core" where
  "core_entry m e index = \<lparr>acpi_id = m (e + 2), apic_id = m (e + 3), os_id = ucast index\<rparr>"

definition io_apic_entry_of :: "bytes \<Rightarrow> u64 \<Rightarrow> u8 \<Rightarrow> io_apic" where
  "io_apic_entry_of m e index = \<lparr>io_id = m (e + 2), io_address = rd32 m (e + 4), gsi_base = rd32 m (e + 8)\<rparr>"

definition override_entry :: "bytes \<Rightarrow> u64 \<Rightarrow> u8 \<Rightarrow> source_override" where
  "override_entry m e index = \<lparr>override_from = m (e + 3), override_to = rd32 m (e + 4)\<rparr>"

definition madt_read :: "(u64 \<Rightarrow> u8 \<Rightarrow> 'a) \<Rightarrow> 'a \<Rightarrow> bytes \<Rightarrow> u64 \<Rightarrow> u8 \<Rightarrow> 'a list option" where
  "madt_read f zero m table type =
     Option.bind (count_madt_entries m table type) (\<lambda>n.
       madt_fill f m (madt_start table) (madt_stop m table) type 0 (replicate (unat n) zero))"

record madt =
  local_apic_address :: u64
  cores :: "cpu_core list"
  ioapics :: "io_apic list"
  overrides :: "source_override list"

definition madt_tables :: "bytes \<Rightarrow> u64 \<Rightarrow> madt option" where
  "madt_tables m table =
     Option.bind (madt_read (core_entry m) \<lparr>acpi_id = 0, apic_id = 0, os_id = 0\<rparr> m table 0) (\<lambda>cs.
     Option.bind (madt_search m (madt_start table) (madt_stop m table) 5) (\<lambda>(r, _).
     Option.bind (madt_read (io_apic_entry_of m) \<lparr>io_id = 0, io_address = 0, gsi_base = 0\<rparr> m table 1) (\<lambda>ios.
     Option.bind (madt_read (override_entry m) \<lparr>override_from = 0, override_to = 0\<rparr> m table 2) (\<lambda>os.
       Some \<lparr>local_apic_address = (case r of None \<Rightarrow> ucast (rd32 m (table + 36)) | Some e \<Rightarrow> rd64 m (e + 4)),
         cores = cs, ioapics = ios, overrides = os\<rparr>))))"

section \<open>I/O APICs\<close>

datatype handler = Io_apic_unhandled | Io_apic_dispatch | Local_timer | Registered nat

record 'd apic_state =
  apic_dev :: 'd
  apic_tables :: madt
  apic_interrupts :: "handler int_state"
  io_interrupt_handlers :: "nat option list"

definition lapic_register :: "madt \<Rightarrow> u64 \<Rightarrow> u64" where
  "lapic_register t off = local_apic_address t + off"

definition lapic_id :: "'d mmio \<Rightarrow> madt \<Rightarrow> 'd \<Rightarrow> u32" where
  "lapic_id ops t d = drop_bit 24 (mm_rd ops (lapic_register t 0x20) d)"

text \<open>Selecting a register and reading or writing it through the window.\<close>

definition io_select :: "'d mmio \<Rightarrow> io_apic \<Rightarrow> u32 \<Rightarrow> 'd \<Rightarrow> 'd" where
  "io_select ops a reg d = mm_wr ops (ucast (io_address a)) reg d"

definition io_window :: "io_apic \<Rightarrow> u64" where
  "io_window a = ucast (io_address a + 0x10)"

definition io_pin_count :: "'d mmio \<Rightarrow> io_apic \<Rightarrow> 'd \<Rightarrow> u32 \<times> 'd" where
  "io_pin_count ops a d =
     (let d1 = io_select ops a 1 d
      in ((drop_bit 16 (mm_rd ops (io_window a) d1) AND 0xFF) + 1, d1))"

text \<open>The entry: vector in bits 0 to 7, mask in bit 16.\<close>

definition masked_entry :: "u32 \<Rightarrow> u32" where
  "masked_entry vector = set_fld 16 1 1 (set_fld 0 8 vector 0)"

definition init_pin :: "'d mmio \<Rightarrow> madt \<Rightarrow> io_apic \<Rightarrow> u32 \<Rightarrow> u32 \<Rightarrow> 'd \<times> handler int_state \<Rightarrow> 'd \<times> handler int_state" where
  "init_pin ops t a j offset s =
     (let d1 = mm_wr ops (io_window a) (masked_entry offset) (io_select ops a (0x10 + 2 * j) (fst s));
          d2 = mm_wr ops (io_window a) (push_bit 24 (lapic_id ops t d1)) (io_select ops a (0x10 + 2 * j + 1) d1)
      in (d2, register_handler (ucast offset) Io_apic_unhandled 0 (snd s)))"

fun init_pins :: "'d mmio \<Rightarrow> madt \<Rightarrow> io_apic \<Rightarrow> nat \<Rightarrow> u32 \<Rightarrow> u32 \<Rightarrow> 'd \<times> handler int_state \<Rightarrow> u32 \<times> 'd \<times> handler int_state" where
  "init_pins ops t a 0 j offset s = (offset, s)"
| "init_pins ops t a (Suc n) j offset s = init_pins ops t a n (j + 1) (offset + 1) (init_pin ops t a j offset s)"

fun init_io_apics :: "'d mmio \<Rightarrow> madt \<Rightarrow> io_apic list \<Rightarrow> u32 \<Rightarrow> 'd \<times> handler int_state \<Rightarrow> 'd \<times> handler int_state" where
  "init_io_apics ops t [] offset s = s"
| "init_io_apics ops t (a # as) offset s =
     (let (n, d) = io_pin_count ops a (fst s);
          (offset', s') = init_pins ops t a (unat n) 0 offset (d, snd s)
      in init_io_apics ops t as offset' s')"

text \<open>\<open>MADT::init\<close> up to the set-up of the local APIC.\<close>

definition madt_init :: "'d mmio \<Rightarrow> bytes \<Rightarrow> u64 \<Rightarrow> 'd apic_state \<Rightarrow> 'd apic_state option" where
  "madt_init ops m table s =
     Option.bind (madt_tables m table) (\<lambda>t.
       let (d, i) = init_io_apics ops t (ioapics t) 32 (apic_dev s, apic_interrupts s)
       in Some (s\<lparr>apic_dev := d, apic_tables := t, apic_interrupts := i\<rparr>))"

definition gsi_of :: "source_override list \<Rightarrow> u8 \<Rightarrow> u32" where
  "gsi_of os io_vector = (case find (\<lambda>v. override_from v = io_vector) os of Some v \<Rightarrow> override_to v | None \<Rightarrow> ucast io_vector)"

text \<open>\<open>IOAPIC::interrupt_handler\<close>; the vector is a \<open>uint32_t\<close>, the registration takes its low byte.\<close>

definition io_interrupt_handler :: "u8 \<Rightarrow> nat \<Rightarrow> u64 \<Rightarrow> 'd apic_state \<Rightarrow> 'd apic_state res" where
  "io_interrupt_handler io_vector h data s =
     (let vector = gsi_of (overrides (apic_tables s)) io_vector + 32
      in if vector > 255 then Stop (Panic ''io vector too large'')
         else Ret (s\<lparr>io_interrupt_handlers := (io_interrupt_handlers s)[unat vector := Some h],
                apic_interrupts := register_handler (ucast vector) Io_apic_dispatch data (apic_interrupts s)\<rparr>))"

text \<open>\<open>IOAPIC::interrupt_set_mask\<close>: the first I/O APIC whose range holds the interrupt; the register is computed from
  the interrupt's global number.\<close>

fun set_mask_loop :: "'d mmio \<Rightarrow> io_apic list \<Rightarrow> u32 \<Rightarrow> bool \<Rightarrow> 'd \<Rightarrow> 'd" where
  "set_mask_loop ops [] gas msk d = d"
| "set_mask_loop ops (a # as) gas msk d =
     (let (n, d1) = io_pin_count ops a d
      in if gas < n + gsi_base a \<and> gas \<ge> gsi_base a then
           let d2 = io_select ops a (0x10 + 2 * gas) d1
           in mm_wr ops (io_window a) (set_fld 16 1 (of_bool msk) (mm_rd ops (io_window a) d2)) d2
         else set_mask_loop ops as gas msk d1)"

definition interrupt_set_mask :: "'d mmio \<Rightarrow> u8 \<Rightarrow> bool \<Rightarrow> 'd apic_state \<Rightarrow> 'd apic_state" where
  "interrupt_set_mask ops io_vector msk s =
     s\<lparr>apic_dev := set_mask_loop ops (ioapics (apic_tables s)) (gsi_of (overrides (apic_tables s)) io_vector) msk (apic_dev s)\<rparr>"

section \<open>Inter-processor interrupts\<close>

datatype interrupt_type = Normal | Lowest_priority | SMI | NMI | INIT | SIPI | DE_INIT

fun type_number :: "interrupt_type \<Rightarrow> u8" where
  "type_number Normal = 0"
| "type_number Lowest_priority = 1"
| "type_number SMI = 2"
| "type_number NMI = 4"
| "type_number INIT = 5"
| "type_number SIPI = 6"
| "type_number DE_INIT = 255"

text \<open>The low word of the command: vector 0 to 7, type 8 to 10, destination mode 11, delivery status 12, level 14,
  trigger mode 15, destination type 16 and 17.\<close>

definition interrupt_command :: "interrupt_type \<Rightarrow> u8 \<Rightarrow> u32" where
  "interrupt_command type vector =
     (let c1 = set_fld 0 8 (ucast vector) 0;
          c2 = set_fld 8 3 (ucast (type_number type)) c1;
          c3 = set_fld 14 1 (of_bool (fld 8 3 c2 = ucast (type_number INIT))) c2;
          c4 = (if type = DE_INIT then set_fld 8 3 (ucast (type_number INIT)) c3 else c3);
          c5 = set_fld 15 1 (of_bool (fld 8 3 c4 = ucast (type_number INIT))) c4
      in set_fld 16 2 0 (set_fld 12 1 0 (set_fld 11 1 0 c5)))"

definition send_interrupt :: "'d mmio \<Rightarrow> madt \<Rightarrow> interrupt_type \<Rightarrow> u8 \<Rightarrow> u32 \<Rightarrow> 'd \<Rightarrow> 'd" where
  "send_interrupt ops t type vector local_apic_id d =
     mm_wr ops (lapic_register t 0x300) (interrupt_command type vector)
       (mm_wr ops (lapic_register t 0x310) (push_bit 24 local_apic_id) d)"

definition is_interrupt_pending :: "'d mmio \<Rightarrow> madt \<Rightarrow> 'd \<Rightarrow> bool" where
  "is_interrupt_pending ops t d \<longleftrightarrow> mm_rd ops (lapic_register t 0x300) d AND push_bit 12 1 \<noteq> 0"

definition get_current_cpu :: "'d mmio \<Rightarrow> madt \<Rightarrow> 'd \<Rightarrow> cpu_core option" where
  "get_current_cpu ops t d = find (\<lambda>c. ucast (apic_id c) = lapic_id ops t d) (cores t)"

text \<open>\<open>Interrupt::interrupt\<close> and \<open>sendEOI\<close>.\<close>

definition interrupt_self :: "'d mmio \<Rightarrow> madt \<Rightarrow> u8 \<Rightarrow> 'd \<Rightarrow> 'd res" where
  "interrupt_self ops t number' d =
     (if get_current_cpu ops t d = None then Stop (Panic ''Interrupt::interrupt called before APIC::init'')
      else Ret (send_interrupt ops t Normal number' (lapic_id ops t d) d))"

definition send_eoi :: "'d mmio \<Rightarrow> madt \<Rightarrow> 'd \<Rightarrow> 'd res" where
  "send_eoi ops t d =
     (if get_current_cpu ops t d = None then Stop (Panic ''Interrupt::sendEOI called before APIC::init'')
      else Ret (mm_wr ops (lapic_register t 0xB0) 0 d))"

text \<open>The checks of the trampoline's address.\<close>

definition trampoline_vector :: "u64 \<Rightarrow> u64 res" where
  "trampoline_vector a =
     (if a = 0 then Stop (Panic ''trampoline not found'')
      else if a mod page_size \<noteq> 0 then Stop (Panic ''trampoline not page aligned'')
      else if drop_bit 12 a > 0xFF then Stop (Panic ''trampoline address too large'')
      else Ret (drop_bit 12 a))"

text \<open>The cores that are started: all but the first and the current one.\<close>

definition started_cores :: "'d mmio \<Rightarrow> madt \<Rightarrow> 'd \<Rightarrow> cpu_core list" where
  "started_cores ops t d = filter (\<lambda>c. ucast (apic_id c) \<noteq> lapic_id ops t d) (drop 1 (cores t))"

section \<open>The timer\<close>

record timer_data =
  ticks_needed :: u64
  prev_init :: u64
  callback :: "nat option"
  callback_data :: u64

record 'd timer_state =
  timer_dev :: 'd
  timer_tables :: madt
  timer_data_array :: "timer_data list"
  timer_interrupt :: u8
  ticks_per_ms :: u32
  timer_interrupts :: "handler int_state"

definition max_timer_ticks :: u64 where
  "max_timer_ticks = push_bit 31 1 - 1"

text \<open>\<open>onLocalTimer\<close>: the new state and the callback that is called.  The array is indexed by the local APIC's id.\<close>

definition timer_tick :: "'d mmio \<Rightarrow> 'd timer_state \<Rightarrow> ((nat \<times> u64) option \<times> 'd timer_state) res" where
  "timer_tick ops s =
     (let i = unat (lapic_id ops (timer_tables s) (timer_dev s))
      in if i \<ge> length (timer_data_array s) then Stop Undef
         else
           let t = timer_data_array s ! i;
               needed = ticks_needed t - prev_init t;
               t1 = t\<lparr>ticks_needed := needed\<rparr>
           in if needed = 0 then
                Ret (map_option (\<lambda>c. (c, callback_data t)) (callback t), s\<lparr>timer_data_array := (timer_data_array s)[i := t1]\<rparr>)
              else
                let n = min2 max_timer_ticks needed
                in Ret (None, s\<lparr>timer_data_array := (timer_data_array s)[i := t1\<lparr>prev_init := n\<rparr>],
                     timer_dev := mm_wr ops (lapic_register (timer_tables s) 0x380) (ucast n) (timer_dev s)\<rparr>))"

definition on_local_timer :: "'d mmio \<Rightarrow> bool \<Rightarrow> 'd timer_state \<Rightarrow> ((nat \<times> u64) option \<times> 'd timer_state) res" where
  "on_local_timer ops from_interrupt s =
     bindr (timer_tick ops s) (\<lambda>(c, s1).
       if from_interrupt then bindr (send_eoi ops (timer_tables s1) (timer_dev s1)) (\<lambda>d. Ret (c, s1\<lparr>timer_dev := d\<rparr>))
       else Ret (c, s1))"

definition notify :: "'d mmio \<Rightarrow> duration_t \<Rightarrow> nat option \<Rightarrow> u64 \<Rightarrow> 'd timer_state \<Rightarrow> ((nat \<times> u64) option \<times> 'd timer_state) res" where
  "notify ops duration cb data s =
     (if timer_data_array s = [] then Ret (None, s)
      else
        let i = unat (lapic_id ops (timer_tables s) (timer_dev s))
        in if i \<ge> length (timer_data_array s) then Stop Undef
           else if ticks_needed (timer_data_array s ! i) \<noteq> 0 then Ret (None, s)
           else
             let t = \<lparr>ticks_needed = nanoseconds duration * ucast (ticks_per_ms s) div 1000000, prev_init = 0,
                   callback = cb, callback_data = data\<rparr>
             in on_local_timer ops False
                  (s\<lparr>timer_data_array := (timer_data_array s)[i := t],
                     timer_interrupts := register_handler (timer_interrupt s) Local_timer 0 (timer_interrupts s),
                     timer_dev := mm_wr ops (lapic_register (timer_tables s) 0x320) (ucast (timer_interrupt s)) (timer_dev s)\<rparr>))"

text \<open>\<open>sleep(duration)\<close> up to the wait.\<close>

definition begin_sleep :: "'d mmio \<Rightarrow> nat \<Rightarrow> duration_t \<Rightarrow> 'd timer_state \<Rightarrow> ((nat \<times> u64) option \<times> 'd timer_state) res" where
  "begin_sleep ops nothing duration s =
     (let i = unat (lapic_id ops (timer_tables s) (timer_dev s))
      in if i \<ge> length (timer_data_array s) then Stop Undef
         else if ticks_needed (timer_data_array s ! i) \<noteq> 0 then Stop (Panic ''timer already running'')
         else notify ops duration (Some nothing) 0 s)"

section \<open>The scan of the table\<close>

text \<open>A list of entries (type and length) in memory from \<open>a\<close> to \<open>e\<close>, and the addresses of those of a type.\<close>

fun entries_at :: "bytes \<Rightarrow> u64 \<Rightarrow> (u8 \<times> nat) list \<Rightarrow> u64 \<Rightarrow> bool" where
  "entries_at m a [] e \<longleftrightarrow> a = e"
| "entries_at m a ((t, n) # es) e \<longleftrightarrow>
     m a = t \<and> m (a + 1) = of_nat n \<and> 2 \<le> n \<and> n < 256 \<and> unat a + n \<le> unat e \<and> entries_at m (a + of_nat n) es e"

fun entry_addresses :: "u64 \<Rightarrow> (u8 \<times> nat) list \<Rightarrow> u8 \<Rightarrow> u64 list" where
  "entry_addresses a [] type = []"
| "entry_addresses a ((t, n) # es) type =
     (if t = type then [a] else []) @ entry_addresses (a + of_nat n) es type"

lemma entry_step:
  assumes "entries_at m a ((t, n) # es) e"
  shows "a < e" "(ucast (m (a + 1)) :: u64) = of_nat n" "m a = t" "entries_at m (a + of_nat n) es e"
proof -
  have n: "2 \<le> n" "n < 256" "m (a + 1) = of_nat n" "unat a + n \<le> unat e" using assms by auto
  then show "a < e" by (simp add: unat_less_iff)
  have "unat (of_nat n :: u8) = n" using n(2) by (simp add: unat_of_nat take_bit_nat_eq_self)
  then have "unat (ucast (m (a + 1)) :: u64) = n" unfolding n(3) by (simp only: unat_ucast_up)
  then show "(ucast (m (a + 1)) :: u64) = of_nat n" by (rule word_eq_of_nat)
qed (use assms in auto)

text \<open>One search either finds the first entry of the type and stops after it, or runs to the end.\<close>

lemma madt_search_entries:
  "entries_at m a es e \<Longrightarrow>
    (entry_addresses a es type = [] \<and> madt_search m a e type = Some (None, e)) \<or>
    (\<exists>x xs a' es'. entry_addresses a es type = x # xs \<and> madt_search m a e type = Some (Some x, a') \<and>
       entries_at m a' es' e \<and> entry_addresses a' es' type = xs \<and> length es' < length es)"
proof (induction es arbitrary: a)
  case Nil
  then show ?case by (simp add: madt_search.simps)
next
  case (Cons p es)
  obtain t n where p: "p = (t, n)" by (cases p)
  note s = entry_step[OF Cons.prems[unfolded p]]
  show ?case
  proof (cases "t = type")
    case True
    then have "madt_search m a e type = Some (Some a, a + of_nat n)" using s by (subst madt_search.simps) simp
    then show ?thesis using True p s(4)
      by (intro disjI2 exI[of _ a] exI[of _ "entry_addresses (a + of_nat n) es type"] exI[of _ "a + of_nat n"] exI[of _ es]) simp
  next
    case False
    then have "madt_search m a e type = madt_search m (a + of_nat n) e type" using s by (subst madt_search.simps) simp
    note step = this
    from Cons.IH[OF s(4)] show ?thesis
    proof (elim disjE exE conjE)
      assume "entry_addresses (a + of_nat n) es type = []" "madt_search m (a + of_nat n) e type = Some (None, e)"
      then show ?thesis using step False p by simp
    next
      fix x xs a' es'
      assume "entry_addresses (a + of_nat n) es type = x # xs" "madt_search m (a + of_nat n) e type = Some (Some x, a')"
        "entries_at m a' es' e" "entry_addresses a' es' type = xs" "length es' < length es"
      then show ?thesis using step False p
        by (intro disjI2 exI[of _ x] exI[of _ xs] exI[of _ a'] exI[of _ es']) simp
    qed
  qed
qed

lemma count_loop_entries:
  "entries_at m a es e \<Longrightarrow> count_loop m a e type n = Some (n + of_nat (length (entry_addresses a es type)))"
proof (induction "length es" arbitrary: a es n rule: less_induct)
  case less
  show ?case
  proof (cases "es = []")
    case True
    then show ?thesis using less.prems by (simp add: count_loop.simps)
  next
    case False
    then have "a < e" using less.prems entry_step(1) by (cases es) (auto simp del: entries_at.simps)
    then have u: "count_loop m a e type n = Option.bind (madt_search m a e type) (\<lambda>(r, a'). count_loop m a' e type (if r = None then n else n + 1))"
      by (subst count_loop.simps) simp
    from madt_search_entries[OF less.prems, of type] show ?thesis
    proof (elim disjE exE conjE)
      assume "entry_addresses a es type = []" "madt_search m a e type = Some (None, e)"
      then show ?thesis unfolding u by (simp add: count_loop.simps[of m e e])
    next
      fix x xs a' es'
      assume "entry_addresses a es type = x # xs" "madt_search m a e type = Some (Some x, a')" "entries_at m a' es' e"
        "entry_addresses a' es' type = xs" "length es' < length es"
      then show ?thesis unfolding u using less.hyps[of es' a' "n + 1"] by (simp add: algebra_simps)
    qed
  qed
qed

lemma madt_fill_entries:
  assumes "entries_at m a es e" "k + length (entry_addresses a es type) = length xs" "length xs \<le> 256"
  shows "madt_fill f m a e type (of_nat k) xs =
    Some (take k xs @ map (\<lambda>i. f (entry_addresses a es type ! i) (of_nat (k + i))) [0..<length (entry_addresses a es type)])"
  using assms
proof (induction "length es" arbitrary: a es k xs rule: less_induct)
  case less
  show ?case
  proof (cases "es = []")
    case True
    then show ?thesis using less.prems by (simp add: madt_fill.simps)
  next
    case False
    then have "a < e" using less.prems(1) entry_step(1) by (cases es) (auto simp del: entries_at.simps)
    then have u: "madt_fill f m a e type (of_nat k) xs = Option.bind (madt_search m a e type) (\<lambda>(r, a').
        case r of None \<Rightarrow> madt_fill f m a' e type (of_nat k) xs
        | Some x \<Rightarrow> madt_fill f m a' e type (of_nat k + 1) (xs[unat (of_nat k :: u8) := f x (of_nat k)]))"
      by (subst madt_fill.simps) simp
    from madt_search_entries[OF less.prems(1), of type] show ?thesis
    proof (elim disjE exE conjE)
      assume "entry_addresses a es type = []" "madt_search m a e type = Some (None, e)"
      then show ?thesis unfolding u using less.prems(2) by (simp add: madt_fill.simps[of f m e e])
    next
      fix x ys a' es'
      assume x: "entry_addresses a es type = x # ys" "madt_search m a e type = Some (Some x, a')" "entries_at m a' es' e"
        "entry_addresses a' es' type = ys" "length es' < length es"
      have k: "k < length xs" "k < 256" using less.prems(2,3) x(1) by auto
      then have uk: "unat (of_nat k :: u8) = k" by (simp add: unat_of_nat take_bit_nat_eq_self)
      have e2: "take (Suc k) (xs[k := f x (of_nat k)]) = take k xs @ [f x (of_nat k)]"
        using k by (simp add: take_Suc_conv_app_nth)
      have e3: "map (\<lambda>i. f ((x # ys) ! i) (of_nat (k + i))) [0..<length (x # ys)] =
          f x (of_nat k) # map (\<lambda>i. f (ys ! i) (of_nat (Suc k + i))) [0..<length ys]"
        by (simp only: length_Cons map_upt_Suc0 nth_Cons_0 nth_Cons_Suc add_0_right add_Suc_right add_Suc)
      have "madt_fill f m a e type (of_nat k) xs = madt_fill f m a' e type (of_nat (Suc k)) (xs[k := f x (of_nat k)])"
        unfolding u using x(2) uk by (simp add: add.commute)
      also have "\<dots> = Some (take (Suc k) (xs[k := f x (of_nat k)]) @ map (\<lambda>i. f (ys ! i) (of_nat (Suc k + i))) [0..<length ys])"
        unfolding x(4)[symmetric] using x(1,4) less.prems(2,3) by (intro less.hyps[OF x(5,3)]) simp_all
      also have "\<dots> = Some (take k xs @ map (\<lambda>i. f ((x # ys) ! i) (of_nat (k + i))) [0..<length (x # ys)])"
        unfolding e2 e3 by simp
      finally show ?thesis unfolding x(1) .
    qed
  qed
qed

lemma madt_read_entries:
  assumes "entries_at m (madt_start p) es (madt_stop m p)" "length (entry_addresses (madt_start p) es type) \<le> 256"
  shows "madt_read f zero m p type = Some (map (\<lambda>i. f (entry_addresses (madt_start p) es type ! i) (of_nat i))
    [0..<length (entry_addresses (madt_start p) es type)])"
proof -
  let ?as = "entry_addresses (madt_start p) es type"
  have "count_madt_entries m p type = Some (of_nat (length ?as))"
    unfolding count_madt_entries_def using count_loop_entries[OF assms(1), of type 0] by simp
  moreover have "unat (of_nat (length ?as) :: u64) = length ?as" using assms(2) by (intro unat_of_nat_u64) simp
  ultimately show ?thesis
    unfolding madt_read_def using madt_fill_entries[OF assms(1), of 0 type "replicate (length ?as) zero" f] assms(2) by simp
qed

lemma madt_tables_entries:
  assumes "entries_at m (madt_start p) es (madt_stop m p)"
    and "\<forall>type \<in> {0, 1, 2}. length (entry_addresses (madt_start p) es type) \<le> 256"
  shows "madt_tables m p = Some \<lparr>
    local_apic_address = (case entry_addresses (madt_start p) es 5 of [] \<Rightarrow> ucast (rd32 m (p + 36)) | x # _ \<Rightarrow> rd64 m (x + 4)),
    cores = map (\<lambda>i. core_entry m (entry_addresses (madt_start p) es 0 ! i) (of_nat i)) [0..<length (entry_addresses (madt_start p) es 0)],
    ioapics = map (\<lambda>i. io_apic_entry_of m (entry_addresses (madt_start p) es 1 ! i) (of_nat i)) [0..<length (entry_addresses (madt_start p) es 1)],
    overrides = map (\<lambda>i. override_entry m (entry_addresses (madt_start p) es 2 ! i) (of_nat i)) [0..<length (entry_addresses (madt_start p) es 2)]\<rparr>"
proof -
  have l: "length (entry_addresses (madt_start p) es 0) \<le> 256" "length (entry_addresses (madt_start p) es 1) \<le> 256"
    "length (entry_addresses (madt_start p) es 2) \<le> 256" using assms(2) by simp_all
  note r = madt_read_entries[OF assms(1) l(1)] madt_read_entries[OF assms(1) l(2)] madt_read_entries[OF assms(1) l(3)]
  obtain x y where s: "madt_search m (madt_start p) (madt_stop m p) 5 = Some (x, y)"
    "x = (case entry_addresses (madt_start p) es 5 of [] \<Rightarrow> None | a # _ \<Rightarrow> Some a)"
    using madt_search_entries[OF assms(1), of 5] by (elim disjE exE conjE) auto
  then show ?thesis unfolding madt_tables_def r by (cases "entry_addresses (madt_start p) es 5") simp_all
qed

section \<open>The table as ACPI writes it\<close>

text \<open>
  The interrupt controller structures of an MADT as the ACPI specification lays them out (5.2.12), by the
  bytes a firmware writes: processor local APIC (processor id, APIC id, flags), I/O APIC (id, reserved, address,
  global system interrupt base), interrupt source override (bus, source, global system interrupt,
  flags), local APIC address override, and every other type.  None of the code's own readers occurs here.
\<close>

datatype madt_item =
    Core_item u8 u8 u32
  | Io_item u8 u8 u32 u32
  | Override_item u8 u8 u32 u16
  | Local_item u16 u64
  | Other_item u8 "u8 list"

fun item_bytes :: "madt_item \<Rightarrow> u8 list" where
  "item_bytes (Core_item acpi apic flags) = [0, 8, acpi, apic] @ le_bytes 4 flags"
| "item_bytes (Io_item i r address gsi) = [1, 12, i, r] @ le_bytes 4 address @ le_bytes 4 gsi"
| "item_bytes (Override_item bus source gsi flags) = [2, 10, bus, source] @ le_bytes 4 gsi @ le_bytes 2 flags"
| "item_bytes (Local_item r address) = [5, 12] @ le_bytes 2 r @ le_bytes 8 address"
| "item_bytes (Other_item t bs) = [t, of_nat (length bs + 2)] @ bs"

fun item_ok :: "madt_item \<Rightarrow> bool" where
  "item_ok (Other_item t bs) \<longleftrightarrow> t \<notin> {0, 1, 2, 5} \<and> length bs + 2 < 256"
| "item_ok _ \<longleftrightarrow> True"

fun items_at :: "bytes \<Rightarrow> u64 \<Rightarrow> madt_item list \<Rightarrow> u64 \<Rightarrow> bool" where
  "items_at m a [] e \<longleftrightarrow> a = e"
| "items_at m a (x # xs) e \<longleftrightarrow> item_ok x \<and> rd_bytes m a (length (item_bytes x)) = item_bytes x \<and>
     unat a + length (item_bytes x) \<le> unat e \<and> items_at m (a + of_nat (length (item_bytes x))) xs e"

text \<open>What the structures say: the cores numbered from \<open>k\<close> on, the I/O APICs, the overrides, the local APIC's address.\<close>

fun item_cores :: "nat \<Rightarrow> madt_item list \<Rightarrow> cpu_core list" where
  "item_cores k [] = []"
| "item_cores k (Core_item acpi apic flags # xs) =
     \<lparr>acpi_id = acpi, apic_id = apic, os_id = of_nat k\<rparr> # item_cores (Suc k) xs"
| "item_cores k (_ # xs) = item_cores k xs"

fun item_ioapics :: "madt_item list \<Rightarrow> io_apic list" where
  "item_ioapics [] = []"
| "item_ioapics (Io_item i r address gsi # xs) =
     \<lparr>io_id = i, io_address = address, gsi_base = gsi\<rparr> # item_ioapics xs"
| "item_ioapics (_ # xs) = item_ioapics xs"

fun item_overrides :: "madt_item list \<Rightarrow> source_override list" where
  "item_overrides [] = []"
| "item_overrides (Override_item bus source gsi flags # xs) =
     \<lparr>override_from = source, override_to = gsi\<rparr> # item_overrides xs"
| "item_overrides (_ # xs) = item_overrides xs"

fun item_local :: "madt_item list \<Rightarrow> u64 option" where
  "item_local [] = None"
| "item_local (Local_item r address # xs) = Some address"
| "item_local (_ # xs) = item_local xs"

lemma rd_bytes_Cons:
  "rd_bytes m a (Suc n) = x # xs \<longleftrightarrow> m a = x \<and> rd_bytes m (a + 1) n = xs"
  unfolding rd_bytes_def by (simp add: upt_conv_Cons map_Suc_upt[symmetric] add.assoc comp_def del: upt_Suc)

text \<open>The structures are entries for the scan, and the readers of \<open>init\<close> find the fields where they were written.\<close>

abbreviation item_entry :: "madt_item \<Rightarrow> u8 \<times> nat" where
  "item_entry x \<equiv> (hd (item_bytes x), length (item_bytes x))"

lemma item_bytes_head:
  "item_ok x \<Longrightarrow> \<exists>t bs. item_bytes x = t # of_nat (length bs + 2) # bs \<and> length bs + 2 < 256"
  by (cases x) simp_all

lemma items_at_entries: "items_at m a xs e \<Longrightarrow> entries_at m a (map item_entry xs) e"
proof (induction xs arbitrary: a)
  case (Cons x xs)
  then obtain t bs where b: "item_bytes x = t # of_nat (length bs + 2) # bs" "length bs + 2 < 256"
    using item_bytes_head[of x] by auto
  have "rd_bytes m a (Suc (Suc (length bs))) = t # of_nat (length bs + 2) # bs" using Cons.prems by (simp add: b)
  then have "m a = t" "m (a + 1) = of_nat (length bs + 2)" by (simp_all only: rd_bytes_Cons)
  moreover have "entries_at m (a + of_nat (length (item_bytes x))) (map item_entry xs) e"
    using Cons.prems by (intro Cons.IH) simp
  ultimately show ?case using Cons.prems b by simp
qed simp

lemma core_item_at:
  "rd_bytes m a 8 = [0, 8, acpi, apic] @ le_bytes 4 flags \<Longrightarrow> core_entry m a k = \<lparr>acpi_id = acpi, apic_id = apic, os_id = ucast k\<rparr>"
  by (simp add: core_entry_def rd_bytes_def upt_rec)

lemma io_item_at:
  assumes "rd_bytes m a 12 = [1, 12, i, r] @ le_bytes 4 address @ le_bytes 4 gsi"
  shows "io_apic_entry_of m a k = \<lparr>io_id = i, io_address = address, gsi_base = gsi\<rparr>"
proof -
  have "rd_bytes m (a + 4) 4 = le_bytes 4 address" "rd_bytes m (a + 8) 4 = le_bytes 4 gsi" "m (a + 2) = i"
    using assms by (simp_all add: rd_bytes_def le_bytes_def upt_rec add.commute)
  then show ?thesis by (simp add: io_apic_entry_of_def rd_bytes_le)
qed

lemma override_item_at:
  assumes "rd_bytes m a 10 = [2, 10, bus, source] @ le_bytes 4 gsi @ le_bytes 2 flags"
  shows "override_entry m a k = \<lparr>override_from = source, override_to = gsi\<rparr>"
proof -
  have "rd_bytes m (a + 4) 4 = le_bytes 4 gsi" "m (a + 3) = source"
    using assms by (simp_all add: rd_bytes_def le_bytes_def upt_rec add.commute)
  then show ?thesis by (simp add: override_entry_def rd_bytes_le)
qed

lemma local_item_at:
  assumes "rd_bytes m a 12 = [5, 12] @ le_bytes 2 r @ le_bytes 8 address"
  shows "rd64 m (a + 4) = address"
proof -
  have "rd_bytes m (a + 4) 8 = le_bytes 8 address"
    using assms by (simp add: rd_bytes_def le_bytes_def upt_rec add.commute)
  then show ?thesis by (rule rd_bytes_le)
qed

lemma map_upt_entries:
  "map (\<lambda>i. f ((x # xs) ! i) (of_nat k + of_nat i)) [0..<Suc (length xs)] =
     f x (of_nat k) # map (\<lambda>i. f (xs ! i) (1 + (of_nat k + of_nat i))) [0..<length xs]"
  by (simp add: upt_conv_Cons map_Suc_upt[symmetric] comp_def add.assoc add.left_commute del: upt_Suc)

lemma entries_cores:
  "items_at m a xs e \<Longrightarrow> k + length (item_cores k xs) \<le> 256 \<Longrightarrow>
     map (\<lambda>i. core_entry m (entry_addresses a (map item_entry xs) 0 ! i) (of_nat (k + i))) [0..<length (entry_addresses a (map item_entry xs) 0)]
       = item_cores k xs"
proof (induction xs arbitrary: a k)
  case (Cons x xs)
  note IH = Cons.IH[of "a + of_nat (length (item_bytes x))"]
  show ?case
  proof (cases x)
    case (Core_item acpi apic flags)
    have "(ucast (of_nat k :: u8) :: u64) = of_nat k"
      using Cons.prems(2) unfolding Core_item by (intro word_eq_of_nat) (simp add: unat_ucast_up unat_of_nat take_bit_nat_eq_self)
    moreover have "core_entry m a (of_nat k) = \<lparr>acpi_id = acpi, apic_id = apic, os_id = ucast (of_nat k :: u8)\<rparr>"
      using Cons.prems(1) unfolding Core_item by (intro core_item_at[of m a acpi apic flags]) simp
    ultimately show ?thesis using IH[of "Suc k"] Cons.prems
      by (simp add: Core_item map_upt_entries[of "core_entry m"] del: upt_Suc)
  qed (use IH[of k] Cons.prems in auto)
qed simp

lemma entries_ioapics:
  "items_at m a xs e \<Longrightarrow>
     map (\<lambda>i. io_apic_entry_of m (entry_addresses a (map item_entry xs) 1 ! i) (of_nat (k + i))) [0..<length (entry_addresses a (map item_entry xs) 1)]
       = item_ioapics xs"
proof (induction xs arbitrary: a k)
  case (Cons x xs)
  note IH = Cons.IH[of "a + of_nat (length (item_bytes x))"]
  show ?case
  proof (cases x)
    case (Io_item i r address gsi)
    then show ?thesis using IH[of "Suc k"] Cons.prems io_item_at[of m a i r address gsi]
      by (simp add: map_upt_entries[of "io_apic_entry_of m"] del: upt_Suc)
  qed (use IH[of k] Cons.prems in auto)
qed simp

lemma entries_overrides:
  "items_at m a xs e \<Longrightarrow>
     map (\<lambda>i. override_entry m (entry_addresses a (map item_entry xs) 2 ! i) (of_nat (k + i))) [0..<length (entry_addresses a (map item_entry xs) 2)]
       = item_overrides xs"
proof (induction xs arbitrary: a k)
  case (Cons x xs)
  note IH = Cons.IH[of "a + of_nat (length (item_bytes x))"]
  show ?case
  proof (cases x)
    case (Override_item bus source gsi flags)
    then show ?thesis using IH[of "Suc k"] Cons.prems override_item_at[of m a bus source gsi flags]
      by (simp add: map_upt_entries[of "override_entry m"] del: upt_Suc)
  qed (use IH[of k] Cons.prems in auto)
qed simp

lemma entries_local:
  "items_at m a xs e \<Longrightarrow>
     (case entry_addresses a (map item_entry xs) 5 of [] \<Rightarrow> d | x # _ \<Rightarrow> rd64 m (x + 4)) = (case item_local xs of None \<Rightarrow> d | Some l \<Rightarrow> l)"
proof (induction xs arbitrary: a)
  case (Cons x xs)
  show ?case
  proof (cases x)
    case (Local_item r address)
    then show ?thesis using Cons.prems local_item_at[of m a r address] by simp
  qed (use Cons.IH[of "a + of_nat (length (item_bytes x))"] Cons.prems in auto)
qed simp

text \<open>C32. On every MADT that is laid out as ACPI says (a header with the length and the local APIC's address at their
  offsets, then structures that fill the table exactly, at most 256 each of cores, I/O APICs and overrides, the table
  not wrapping the address space) the scan ends and records exactly what the structures say, in order: each
  core's processor id and APIC id with its running number, each I/O APIC's id, address and first
  interrupt, each override's source and target, and the local APIC's address from the first structure that
  overrides it, else from the header.  The table is given by the bytes a firmware writes.\<close>

theorem madt_tables_complete:
  assumes "rd_bytes m (p + 4) 4 = le_bytes 4 (len :: u32)" and "rd_bytes m (p + 36) 4 = le_bytes 4 (laddr :: u32)"
    and "items_at m (p + 44) xs (p + ucast len)"
    and "length (item_cores 0 xs) \<le> 256" "length (item_ioapics xs) \<le> 256" "length (item_overrides xs) \<le> 256"
  shows "madt_tables m p = Some \<lparr>
    local_apic_address = (case item_local xs of None \<Rightarrow> ucast laddr | Some address \<Rightarrow> address),
    cores = item_cores 0 xs, ioapics = item_ioapics xs, overrides = item_overrides xs\<rparr>"
proof -
  have h: "rd32 m (p + 4) = len" "rd32 m (p + 36) = laddr" using assms(1,2) by (simp_all add: rd_bytes_le)
  have start: "madt_start p = p + 44" and stop: "madt_stop m p = p + ucast len"
    by (simp_all add: madt_start_def madt_stop_def h)
  have es: "entries_at m (madt_start p) (map item_entry xs) (madt_stop m p)"
    unfolding start stop using assms(3) by (rule items_at_entries)
  note io = entries_ioapics[OF assms(3), of 0, unfolded add_0] and os = entries_overrides[OF assms(3), of 0, unfolded add_0]
  note loc = entries_local[OF assms(3), of "ucast laddr"]
  have co: "map (\<lambda>i. core_entry m (entry_addresses (p + 44) (map item_entry xs) 0 ! i) (of_nat i))
      [0..<length (entry_addresses (p + 44) (map item_entry xs) 0)] = item_cores 0 xs"
    using entries_cores[OF assms(3), of 0] assms(4) by simp
  have "\<forall>type \<in> {0, 1, 2}. length (entry_addresses (madt_start p) (map item_entry xs) type) \<le> 256"
    using arg_cong[OF co, of length] arg_cong[OF io, of length] arg_cong[OF os, of length] assms(4-6)
    by (simp add: start)
  then show ?thesis
    by (simp only: madt_tables_entries[OF es] start h co io os loc)
qed

section \<open>The timer reaches its deadline\<close>

text \<open>A device that keeps a list of the register writes, and the interrupts of the timer, one per expiry: for each the
  callback that is made and the writes of the handler.\<close>

definition recording :: "'d mmio \<Rightarrow> ('d \<times> (u64 \<times> u32) list) mmio" where
  "recording ops = \<lparr>mm_rd = (\<lambda>a x. mm_rd ops a (fst x)), mm_wr = (\<lambda>a v x. (mm_wr ops a v (fst x), snd x @ [(a, v)]))\<rparr>"

definition writes :: "('d \<times> (u64 \<times> u32) list) timer_state \<Rightarrow> (u64 \<times> u32) list" where
  "writes s = snd (timer_dev s)"

fun expiries :: "('d \<times> (u64 \<times> u32) list) mmio \<Rightarrow> nat \<Rightarrow> ('d \<times> (u64 \<times> u32) list) timer_state
    \<Rightarrow> (((nat \<times> u64) option \<times> (u64 \<times> u32) list) list \<times> ('d \<times> (u64 \<times> u32) list) timer_state) res" where
  "expiries ops 0 s = Ret ([], s)"
| "expiries ops (Suc n) s =
     bindr (on_local_timer ops True s) (\<lambda>(c, s1).
     bindr (expiries ops n s1) (\<lambda>(cs, s2). Ret ((c, drop (length (writes s)) (writes s1)) # cs, s2)))"

lemma recording_simps [simp]:
  "mm_rd (recording ops) a x = mm_rd ops a (fst x)" "mm_wr (recording ops) a v x = (mm_wr ops a v (fst x), snd x @ [(a, v)])"
  by (simp_all add: recording_def)

lemma recording_separate: "separate ops a b \<Longrightarrow> separate (recording ops) a b"
  by (simp add: separate_def)

lemma max_ticks: "unat max_timer_ticks = 2 ^ 31 - 1"
  by (simp add: max_timer_ticks_def)

lemma min2_max_ticks: "unat (min2 max_timer_ticks n) = min (2 ^ 31 - 1) (unat n)"
  by (simp add: min_def unat_le_iff max_ticks)

lemma waits_step: "0 < (r :: nat) \<Longrightarrow> (r + 2147483646) div 2147483647 = Suc ((r - min 2147483647 r + 2147483646) div 2147483647)"
proof (cases "r \<le> 2147483647")
  case True
  assume "0 < r"
  then have "(r + 2147483646) div 2147483647 = Suc ((r - 1) div 2147483647)" using div_add_self2[of 2147483647 "r - 1"] by simp
  then show ?thesis using True \<open>0 < r\<close> by simp
next
  case False
  then show ?thesis using div_add_self2[of 2147483647 "r - 1"] by simp
qed

text \<open>What an interrupt does to the local APIC: the next count, unless it is the last one, and the end of interrupt.\<close>

definition next_count :: "madt \<Rightarrow> u32 \<Rightarrow> (u64 \<times> u32) list" where
  "next_count t n = [(lapic_register t 0x380, n), (lapic_register t 0xB0, 0)]"

lemma count_bounds: "unat (w :: u32) = min 2147483647 r \<Longrightarrow> 0 < r \<Longrightarrow> 0 < w \<and> unat w < 2 ^ 31"
  by (simp add: unat_less_iff)

lemma timer_runs:
  assumes sep: "separate ops (lapic_register t 0x380) (lapic_register t 0x20)" "separate ops (lapic_register t 0xB0) (lapic_register t 0x20)"
    and "timer_tables s = t" "i = unat (lapic_id ops t (fst (timer_dev s)))" "i < length (timer_data_array s)"
    and "get_current_cpu ops t (fst (timer_dev s)) \<noteq> None"
    and "td = timer_data_array s ! i" "prev_init td \<le> ticks_needed td" "r = unat (ticks_needed td - prev_init td)"
  shows "\<exists>ns s'. expiries (recording ops) (Suc (length ns)) s =
      Ret (map (\<lambda>n. (None, next_count t n)) ns @ [(map_option (\<lambda>c. (c, callback_data td)) (callback td), [(lapic_register t 0xB0, 0)])], s') \<and>
    sum_list (map unat ns) = r \<and> length ns = (r + 2147483646) div 2147483647 \<and> (\<forall>n \<in> set ns. 0 < n \<and> unat n < 2 ^ 31) \<and>
    ticks_needed (timer_data_array s' ! i) = 0"
  using assms(3-)
proof (induction r arbitrary: s td rule: less_induct)
  case (less r)
  let ?needed = "ticks_needed td - prev_init td"
  have rec: "lapic_id (recording ops) t d = lapic_id ops t (fst d)" "get_current_cpu (recording ops) t d = get_current_cpu ops t (fst d)" for d
    by (simp_all add: lapic_id_def get_current_cpu_def)
  have keep: "lapic_id ops t (mm_wr ops (lapic_register t 0x380) v d) = lapic_id ops t d" "lapic_id ops t (mm_wr ops (lapic_register t 0xB0) v d) = lapic_id ops t d"
    "get_current_cpu ops t (mm_wr ops (lapic_register t 0x380) v d) = get_current_cpu ops t d"
    "get_current_cpu ops t (mm_wr ops (lapic_register t 0xB0) v d) = get_current_cpu ops t d" for v d
    using sep by (simp_all add: lapic_id_def get_current_cpu_def separate_def)
  show ?case
  proof (cases "?needed = 0")
    case True
    let ?s = "s\<lparr>timer_data_array := (timer_data_array s)[i := td\<lparr>ticks_needed := 0\<rparr>],
      timer_dev := mm_wr (recording ops) (lapic_register t 0xB0) 0 (timer_dev s)\<rparr>"
    have "on_local_timer (recording ops) True s = Ret (map_option (\<lambda>c. (c, callback_data td)) (callback td), ?s)"
      using less.prems True by (simp add: on_local_timer_def timer_tick_def send_eoi_def Let_def rec)
    then show ?thesis using less.prems True by (intro exI[of _ "[]"] exI[of _ ?s]) (simp add: writes_def)
  next
    case False
    let ?n = "min2 max_timer_ticks ?needed"
    let ?td = "td\<lparr>ticks_needed := ?needed, prev_init := ?n\<rparr>"
    let ?s = "s\<lparr>timer_data_array := (timer_data_array s)[i := ?td], timer_dev :=
      mm_wr (recording ops) (lapic_register t 0xB0) 0 (mm_wr (recording ops) (lapic_register t 0x380) (ucast ?n) (timer_dev s))\<rparr>"
    have tick: "on_local_timer (recording ops) True s = Ret (None, ?s)"
      using less.prems False by (simp add: on_local_timer_def timer_tick_def send_eoi_def Let_def rec keep)
    have w: "drop (length (writes s)) (writes ?s) = next_count t (ucast ?n)" by (simp add: writes_def next_count_def)
    have id: "i = unat (lapic_id ops t (fst (timer_dev ?s)))" "get_current_cpu ops t (fst (timer_dev ?s)) \<noteq> None"
      using less.prems(2,4) by (simp_all add: keep)
    have td: "?td = timer_data_array ?s ! i" using less.prems(3) by simp
    have r: "0 < r" using False less.prems(7) by (simp add: unat_gt_0)
    have n: "unat ?n = min 2147483647 r" using min2_max_ticks[of ?needed] less.prems(7) by (simp del: min2_min)
    then have n32: "unat (ucast ?n :: u32) = min 2147483647 r" by (simp add: unsigned_ucast_eq take_bit_nat_eq_self del: min2_min)
    have le: "prev_init ?td \<le> ticks_needed ?td" by simp
    have "unat (?needed - ?n) = r - min 2147483647 r"
      using less.prems(7) n by (subst unat_diff_u64) (simp_all)
    then have rest: "r - min 2147483647 r = unat (ticks_needed ?td - prev_init ?td)" by simp
    have "r - min 2147483647 r < r" using r by simp
    from less.IH[OF this _ id(1) _ id(2) td le rest] less.prems(1,3) obtain ns s' where
      ns: "expiries (recording ops) (Suc (length ns)) ?s =
          Ret (map (\<lambda>n. (None, next_count t n)) ns @ [(map_option (\<lambda>c. (c, callback_data td)) (callback td), [(lapic_register t 0xB0, 0)])], s')"
        "sum_list (map unat ns) = r - min 2147483647 r" "length ns = (r - min 2147483647 r + 2147483646) div 2147483647"
        "\<forall>n \<in> set ns. 0 < n \<and> unat n < 2 ^ 31" "ticks_needed (timer_data_array s' ! i) = 0"
      by auto
    have "expiries (recording ops) (Suc (Suc (length ns))) s =
        Ret ((None, next_count t (ucast ?n)) # map (\<lambda>n. (None, next_count t n)) ns @
          [(map_option (\<lambda>c. (c, callback_data td)) (callback td), [(lapic_register t 0xB0, 0)])], s')"
      using tick ns(1) w by (simp only: expiries.simps(2)[of "recording ops" "Suc (length ns)"] bindr_Ret prod.case)
    moreover have "0 < (ucast ?n :: u32) \<and> unat (ucast ?n :: u32) < 2 ^ 31"
      using count_bounds[OF n32 r] .
    ultimately show ?thesis using ns n32 r waits_step[OF r] by (intro exI[of _ "ucast ?n # ns"] exI[of _ s']) (simp del: min2_min)
  qed
qed

text \<open>C29. A notification reaches its deadline.  On a device that keeps all register writes, \<open>notify\<close> for a positive number
  of ticks registers the handler, writes the vector and then a first count to the local APIC.  Every interrupt of the
  timer but the last writes the next count and the end of interrupt and calls nothing; the last one calls
  the callback with its data and writes only the end of interrupt.  The counts that are written are between 1 and
  \<open>2 ^ 31 - 1\<close> and add up to exactly the number of ticks asked for, by the least possible number of interrupts, and the
  timer is left free.  The writes must not disturb the register of the identifier, and the core must be known.\<close>

theorem notify_reaches_deadline:
  assumes sep: "separate ops (lapic_register t 0x380) (lapic_register t 0x20)" "separate ops (lapic_register t 0xB0) (lapic_register t 0x20)"
      "separate ops (lapic_register t 0x320) (lapic_register t 0x20)"
    and "timer_tables s = t" "i = unat (lapic_id ops t (fst (timer_dev s)))" "i < length (timer_data_array s)"
    and "get_current_cpu ops t (fst (timer_dev s)) \<noteq> None"
    and "ticks_needed (timer_data_array s ! i) = 0"
    and "ticks = nanoseconds duration * ucast (ticks_per_ms s) div 1000000" "ticks \<noteq> 0"
  shows "\<exists>s1 n ns s'. notify (recording ops) duration (Some c) x s = Ret (None, s1) \<and>
    interrupt_handlers (timer_interrupts s1) = (interrupt_handlers (timer_interrupts s))[unat (timer_interrupt s) := Some Local_timer] \<and>
    writes s1 = writes s @ [(lapic_register t 0x320, ucast (timer_interrupt s)), (lapic_register t 0x380, n)] \<and>
    expiries (recording ops) (Suc (length ns)) s1 =
      Ret (map (\<lambda>n. (None, next_count t n)) ns @ [(Some (c, x), [(lapic_register t 0xB0, 0)])], s') \<and>
    unat n + sum_list (map unat ns) = unat ticks \<and>
    Suc (length ns) = (unat ticks + 2147483646) div 2147483647 \<and> (\<forall>k \<in> set (n # ns). 0 < k \<and> unat k < 2 ^ 31) \<and>
    ticks_needed (timer_data_array s' ! i) = 0"
proof -
  let ?td = "\<lparr>ticks_needed = ticks, prev_init = 0, callback = Some c, callback_data = x\<rparr>" and ?n = "min2 max_timer_ticks ticks"
  let ?td1 = "?td\<lparr>prev_init := ?n\<rparr>"
  let ?s1 = "s\<lparr>timer_data_array := (timer_data_array s)[i := ?td1],
    timer_interrupts := register_handler (timer_interrupt s) Local_timer 0 (timer_interrupts s),
    timer_dev := mm_wr (recording ops) (lapic_register t 0x380) (ucast ?n)
      (mm_wr (recording ops) (lapic_register t 0x320) (ucast (timer_interrupt s)) (timer_dev s))\<rparr>"
  have keep: "lapic_id ops t (mm_wr ops a v d) = lapic_id ops t d" "get_current_cpu ops t (mm_wr ops a v d) = get_current_cpu ops t d"
    if "a \<in> {lapic_register t 0x380, lapic_register t 0x320}" for a v d
    using sep that by (auto simp: lapic_id_def get_current_cpu_def separate_def)
  have rec: "lapic_id (recording ops) t d = lapic_id ops t (fst d)" for d by (simp add: lapic_id_def)
  have "timer_data_array s \<noteq> []" using assms(6) by auto
  then have nt: "notify (recording ops) duration (Some c) x s = Ret (None, ?s1)"
    using assms(4-10) by (simp add: notify_def Let_def on_local_timer_def timer_tick_def rec keep)
  have id: "i = unat (lapic_id ops t (fst (timer_dev ?s1)))" "get_current_cpu ops t (fst (timer_dev ?s1)) \<noteq> None"
    using assms(5,7) by (simp_all add: keep)
  have td: "?td1 = timer_data_array ?s1 ! i" using assms(6) by simp
  have n: "unat ?n = min 2147483647 (unat ticks)" using min2_max_ticks[of ticks] by (simp del: min2_min)
  then have n32: "unat (ucast ?n :: u32) = min 2147483647 (unat ticks)" by (simp add: unsigned_ucast_eq take_bit_nat_eq_self del: min2_min)
  have le: "prev_init ?td1 \<le> ticks_needed ?td1" by simp
  have tp: "0 < unat ticks" using assms(10) by (simp add: unat_gt_0)
  have "unat (ticks - ?n) = unat ticks - min 2147483647 (unat ticks)" using n by (subst unat_diff_u64) simp_all
  then have rest: "unat ticks - min 2147483647 (unat ticks) = unat (ticks_needed ?td1 - prev_init ?td1)" by simp
  obtain ns s' where r: "expiries (recording ops) (Suc (length ns)) ?s1 =
      Ret (map (\<lambda>n. (None, next_count t n)) ns @ [(Some (c, x), [(lapic_register t 0xB0, 0)])], s')"
    "sum_list (map unat ns) = unat ticks - min 2147483647 (unat ticks)"
    "length ns = (unat ticks - min 2147483647 (unat ticks) + 2147483646) div 2147483647"
    "\<forall>n \<in> set ns. 0 < n \<and> unat n < 2 ^ 31" "ticks_needed (timer_data_array s' ! i) = 0"
    using timer_runs[OF sep(1,2) _ id(1) _ id(2) td le rest] assms(4,6) by auto
  have h: "interrupt_handlers (timer_interrupts ?s1) = (interrupt_handlers (timer_interrupts s))[unat (timer_interrupt s) := Some Local_timer]"
    by (simp add: register_handler_def with_guard_def Let_def)
  have "0 < (ucast ?n :: u32) \<and> unat (ucast ?n :: u32) < 2 ^ 31" using count_bounds[OF n32 tp] .
  then show ?thesis using nt h r n32 waits_step[OF tp]
    by (intro exI[of _ ?s1] exI[of _ "ucast ?n"] exI[of _ ns] exI[of _ s']) (simp add: writes_def del: min2_min expiries.simps)
qed

section \<open>Interrupt commands\<close>

text \<open>The words that start a core: INIT with level and trigger, INIT without level, and the start-up vector.\<close>

lemma startup_commands:
  "interrupt_command INIT 0 = 0xC500" "interrupt_command DE_INIT 0 = 0x8500" "interrupt_command SIPI 8 = 0x608"
  by code_simp+

text \<open>The register of a pin is computed from the interrupt's global number, so on an I/O APIC with a base above 0 another
  pin's entry is rewritten.\<close>

lemma set_mask_register:
  assumes "gas < n + gsi_base a" "gas \<ge> gsi_base a" "io_pin_count ops a d = (n, d1)"
  shows "set_mask_loop ops (a # as) gas b d =
    (let d2 = io_select ops a (0x10 + 2 * gas) d1 in mm_wr ops (io_window a) (set_fld 16 1 (of_bool b) (mm_rd ops (io_window a) d2)) d2)"
  using assms by simp

section \<open>Witnesses\<close>

text \<open>A table with one structure of every kind.\<close>

definition demo_items :: "madt_item list" where
  "demo_items = [Core_item 3 5 1, Io_item 2 0 0xFEC00000 0x18, Override_item 0 0 2 5, Other_item 4 [0xFF, 5, 0, 1],
     Local_item 0 0xFEE01000]"

definition demo_madt :: bytes where
  "demo_madt = wr_bytes 0x1004 (le_bytes 4 (0x5C :: u32)) (wr_bytes 0x1024 (le_bytes 4 (0xFEE00000 :: u32))
     (wr_bytes 0x102C (concat (map item_bytes demo_items)) (\<lambda>_. 0)))"

lemma madt_tables_complete_witness:
  "madt_tables demo_madt 0x1000 = Some \<lparr>local_apic_address = 0xFEE01000,
     cores = [\<lparr>acpi_id = 3, apic_id = 5, os_id = 0\<rparr>], ioapics = [\<lparr>io_id = 2, io_address = 0xFEC00000, gsi_base = 0x18\<rparr>],
     overrides = [\<lparr>override_from = 0, override_to = 2\<rparr>]\<rparr>"
proof -
  have h: "rd_bytes demo_madt (0x1000 + 4) 4 = le_bytes 4 (0x5C :: u32)"
    "rd_bytes demo_madt (0x1000 + 36) 4 = le_bytes 4 (0xFEE00000 :: u32)" by code_simp+
  have i: "items_at demo_madt (0x1000 + 44) demo_items (0x1000 + ucast (0x5C :: u32))" by code_simp
  show ?thesis using madt_tables_complete[OF h i] by (simp add: demo_items_def)
qed

definition demo_timer :: "((u64 \<Rightarrow> u32) \<times> (u64 \<times> u32) list) timer_state" where
  "demo_timer = \<lparr>timer_dev = (\<lambda>_. 0, []), timer_tables = \<lparr>local_apic_address = 0xFEE00000,
     cores = [\<lparr>acpi_id = 0, apic_id = 0, os_id = 0\<rparr>], ioapics = [], overrides = []\<rparr>,
     timer_data_array = [\<lparr>ticks_needed = 0, prev_init = 0, callback = None, callback_data = 0\<rparr>], timer_interrupt = 32,
     ticks_per_ms = 1000000,
     timer_interrupts = \<lparr>enabled = False, interrupt_vector_table = replicate 256 empty_gate, interrupt_handlers = replicate 256 None,
       user_ptrs = replicate 256 0, interrupt_number_value = 0, idtr_loaded = True\<rparr>\<rparr>"

definition plain_device :: "(u64 \<Rightarrow> u32) mmio" where
  "plain_device = registers (\<lambda>_. NOT 0) (\<lambda>_. 0)"

lemma notify_reaches_deadline_witness:
  "\<exists>s1 n ns s'. notify (recording plain_device) (dur_s 5) (Some 1) 7 demo_timer = Ret (None, s1) \<and>
    writes s1 = [(0xFEE00320, 32), (0xFEE00380, n)] \<and>
    expiries (recording plain_device) (Suc (length ns)) s1 =
      Ret (map (\<lambda>n. (None, next_count (timer_tables demo_timer) n)) ns @ [(Some (1, 7), [(0xFEE000B0, 0)])], s') \<and>
    unat (n :: u32) + sum_list (map unat (ns :: u32 list)) = 5000000000 \<and> length ns = 2"
proof -
  let ?t = "timer_tables demo_timer"
  have sep: "separate plain_device (lapic_register ?t 0x380) (lapic_register ?t 0x20)"
    "separate plain_device (lapic_register ?t 0xB0) (lapic_register ?t 0x20)"
    "separate plain_device (lapic_register ?t 0x320) (lapic_register ?t 0x20)"
    unfolding plain_device_def by (rule registers_separate, simp add: lapic_register_def)+
  have i: "0 = unat (lapic_id plain_device ?t (fst (timer_dev demo_timer)))" "0 < length (timer_data_array demo_timer)"
    "get_current_cpu plain_device ?t (fst (timer_dev demo_timer)) \<noteq> None" "ticks_needed (timer_data_array demo_timer ! 0) = 0"
    by (simp_all add: plain_device_def demo_timer_def lapic_id_def get_current_cpu_def)
  have t: "5000000000 = nanoseconds (dur_s 5) * ucast (ticks_per_ms demo_timer) div 1000000" "(5000000000 :: u64) \<noteq> 0"
    by (simp_all add: dur_s_def demo_timer_def)
  obtain s1 n ns s' where r: "notify (recording plain_device) (dur_s 5) (Some 1) 7 demo_timer = Ret (None, s1)"
    "writes s1 = writes demo_timer @ [(lapic_register ?t 0x320, ucast (timer_interrupt demo_timer)), (lapic_register ?t 0x380, n)]"
    "expiries (recording plain_device) (Suc (length ns)) s1 =
      Ret (map (\<lambda>n. (None, next_count ?t n)) ns @ [(Some (1, 7), [(lapic_register ?t 0xB0, 0)])], s')"
    "unat (n :: u32) + sum_list (map unat (ns :: u32 list)) = unat (5000000000 :: u64)" "Suc (length ns) = (unat (5000000000 :: u64) + 2147483646) div 2147483647"
    using notify_reaches_deadline[OF sep refl i t, of 1 7] by (elim exE conjE) (rule that)
  have "length ns = 2" "unat n + sum_list (map unat ns) = 5000000000" using r(4,5) by simp_all
  moreover have "lapic_register ?t 0x320 = 0xFEE00320" "lapic_register ?t 0x380 = 0xFEE00380" "lapic_register ?t 0xB0 = 0xFEE000B0"
    "writes demo_timer = []" "timer_interrupt demo_timer = 32" by (simp_all add: lapic_register_def demo_timer_def writes_def)
  ultimately show ?thesis using r(1-3)
    by (intro exI[of _ s1] exI[of _ n] exI[of _ ns] exI[of _ s'] conjI) (simp_all del: expiries.simps)
qed

end
