(* ===== verification/PciClass.thy ===== *)
theory PciClass
  imports Prelude
begin

text \<open>
  \<open>generic_device::human_readable_class\<close> of \<^verbatim>\<open>src/high/PCI/PCI.cpp\<close>: the names of the device classes, one
  table per class code of the names of its subclasses, and the name of the class for all others.
\<close>

section \<open>The names\<close>

definition unclassified_classes :: "(u8 \<times> string) list" where
  "unclassified_classes = [
     (0x0, ''Unclassified | Non-VGA-Compatible Unclassified Device''),
     (0x1, ''Unclassified | VGA-Compatible Unclassified Device'')]"

definition storage_classes :: "(u8 \<times> string) list" where
  "storage_classes = [
     (0x0, ''Mass Storage Controller | SCSI Bus Controller''),
     (0x1, ''Mass Storage Controller | IDE Controller''),
     (0x2, ''Mass Storage Controller | Floppy Disk Controller''),
     (0x3, ''Mass Storage Controller | IPI Bus Controller''),
     (0x4, ''Mass Storage Controller | RAID Controller''),
     (0x5, ''Mass Storage Controller | ATA Controller''),
     (0x6, ''Mass Storage Controller | SATA Controller''),
     (0x7, ''Mass Storage Controller | Serial Attached SCSI Controller''),
     (0x8, ''Mass Storage Controller | Non-Volatile Memory Controller'')]"

definition network_classes :: "(u8 \<times> string) list" where
  "network_classes = [
     (0x0, ''Network Controller | Ethernet Controller''),
     (0x1, ''Network Controller | Token Ring Controller''),
     (0x2, ''Network Controller | FDDI Controller''),
     (0x3, ''Network Controller | ATM Controller''),
     (0x4, ''Network Controller | ISDN Controller''),
     (0x5, ''Network Controller | WorldFip Controller''),
     (0x6, ''Network Controller | PICMG 2.14 Multi Computing''),
     (0x7, ''Network Controller | InfiniBand Controller''),
     (0x8, ''Network Controller | Fabric Controller'')]"

definition display_classes :: "(u8 \<times> string) list" where
  "display_classes = [
     (0x0, ''Display Controller | VGA Compatible Controller''),
     (0x1, ''Display Controller | XGA Compatible Controller''),
     (0x2, ''Display Controller | 3D Controller (Not VGA-Compatible)'')]"

definition multimedia_classes :: "(u8 \<times> string) list" where
  "multimedia_classes = [
     (0x0, ''Multimedia Controller | Multimedia Video Controller''),
     (0x1, ''Multimedia Controller | Multimedia Audio Controller''),
     (0x2, ''Multimedia Controller | Computer Telephony Device''),
     (0x3, ''Multimedia Controller | Audio Device'')]"

definition memory_classes :: "(u8 \<times> string) list" where
  "memory_classes = [
     (0x0, ''Memory Controller | RAM Controller''),
     (0x1, ''Memory Controller | Flash Controller'')]"

definition bridge_classes :: "(u8 \<times> string) list" where
  "bridge_classes = [
     (0x0, ''Bridge Device | Host Bridge''),
     (0x1, ''Bridge Device | ISA Bridge''),
     (0x2, ''Bridge Device | EISA Bridge''),
     (0x3, ''Bridge Device | MicroChannel Bridge''),
     (0x4, ''Bridge Device | PCI-to-PCI Bridge''),
     (0x5, ''Bridge Device | PCMCIA Bridge''),
     (0x6, ''Bridge Device | NuBus Bridge''),
     (0x7, ''Bridge Device | CardBus Bridge''),
     (0x8, ''Bridge Device | RACEway Bridge''),
     (0x9, ''Bridge Device | PCI-to-PCI Bridge''),
     (0xA, ''Bridge Device | InfiniBand-to-PCI Host Bridge'')]"

definition communication_classes :: "(u8 \<times> string) list" where
  "communication_classes = [
     (0x0, ''Simple Communication Controller | Serial Controller''),
     (0x1, ''Simple Communication Controller | Parallel Controller''),
     (0x2, ''Simple Communication Controller | Multiport Serial Controller''),
     (0x3, ''Simple Communication Controller | Modem''),
     (0x4, ''Simple Communication Controller | GPIB (IEEE 488.1/2) Controller''),
     (0x5, ''Simple Communication Controller | Smart Card'')]"

definition peripheral_classes :: "(u8 \<times> string) list" where
  "peripheral_classes = [
     (0x0, ''Base System Peripherals | PIC''),
     (0x1, ''Base System Peripherals | DMA Controller''),
     (0x2, ''Base System Peripherals | Timer''),
     (0x3, ''Base System Peripherals | RTC Controller''),
     (0x4, ''Base System Peripherals | PCI Hot-Plug Controller''),
     (0x5, ''Base System Peripherals | SD Host Controller''),
     (0x6, ''Base System Peripherals | IOMMU'')]"

definition input_classes :: "(u8 \<times> string) list" where
  "input_classes = [
     (0x0, ''Input Devices | Keyboard Controller''),
     (0x1, ''Input Devices | Digitizer (Pen)''),
     (0x2, ''Input Devices | Mouse Controller''),
     (0x3, ''Input Devices | Scanner Controller''),
     (0x4, ''Input Devices | Gameport Controller'')]"

definition processor_classes :: "(u8 \<times> string) list" where
  "processor_classes = [
     (0x0, ''Processor | 386''),
     (0x1, ''Processor | 486''),
     (0x2, ''Processor | Pentium''),
     (0x10, ''Processor | Alpha''),
     (0x20, ''Processor | PowerPC''),
     (0x30, ''Processor | MIPS''),
     (0x40, ''Processor | Co-Processor'')]"

definition serial_bus_classes :: "(u8 \<times> string) list" where
  "serial_bus_classes = [
     (0x0, ''Serial Bus Controller | FireWire (IEEE 1394)''),
     (0x1, ''Serial Bus Controller | ACCESS Bus''),
     (0x2, ''Serial Bus Controller | SSA''),
     (0x3, ''Serial Bus Controller | USB Controller''),
     (0x4, ''Serial Bus Controller | Fibre Channel''),
     (0x5, ''Serial Bus Controller | SMBus''),
     (0x6, ''Serial Bus Controller | InfiniBand''),
     (0x7, ''Serial Bus Controller | IPMI Interface''),
     (0x8, ''Serial Bus Controller | SERCOS Interface Standard (IEC 61491)''),
     (0x9, ''Serial Bus Controller | CANbus'')]"

definition wireless_classes :: "(u8 \<times> string) list" where
  "wireless_classes = [
     (0x0, ''Wireless Controller | iRDA Compatible Controller''),
     (0x1, ''Wireless Controller | Consumer IR Controller''),
     (0x10, ''Wireless Controller | RF Controller''),
     (0x11, ''Wireless Controller | Bluetooth''),
     (0x12, ''Wireless Controller | Broadband''),
     (0x20, ''Wireless Controller | Ethernet (802.11a - 5 GHz)''),
     (0x21, ''Wireless Controller | Ethernet (802.11b - 2.4 GHz)'')]"

definition intelligent_classes :: "(u8 \<times> string) list" where
  "intelligent_classes = [
     (0x0, ''Intelligent I/O Controller | I20'')]"

definition satellite_classes :: "(u8 \<times> string) list" where
  "satellite_classes = [
     (0x1, ''Satellite Communication Controller | TV''),
     (0x2, ''Satellite Communication Controller | Audio''),
     (0x3, ''Satellite Communication Controller | Voice''),
     (0x4, ''Satellite Communication Controller | Data'')]"

definition encryption_classes :: "(u8 \<times> string) list" where
  "encryption_classes = [
     (0x0, ''Encryption Controller | Network and Computing Encrpytion/Decryption''),
     (0x10, ''Encryption Controller | Entertainment Encryption/Decryption'')]"

definition acquisition_classes :: "(u8 \<times> string) list" where
  "acquisition_classes = [
     (0x0, ''Data Acquisition and Signal Processing Controller | DPIO Modules''),
     (0x1, ''Data Acquisition and Signal Processing Controller | Performance Counters''),
     (0x10, ''Data Acquisition and Signal Processing Controller | Communications Syncrhonization + Time and Frequency Test/Measurment''),
     (0x20, ''Data Acquisition and Signal Processing Controller | Management Card'')]"

definition subclass_name :: "string \<Rightarrow> (u8 \<times> string) list \<Rightarrow> u8 \<Rightarrow> string" where
  "subclass_name other names sub = (case map_of names sub of None \<Rightarrow> other | Some s \<Rightarrow> s)"

definition human_readable_class :: "u8 \<Rightarrow> u8 \<Rightarrow> string" where
  "human_readable_class class_code sub =
     (if class_code = 0x0 then subclass_name ''Unclassified'' unclassified_classes sub
      else if class_code = 0x1 then subclass_name ''Mass Storage Controller'' storage_classes sub
      else if class_code = 0x2 then subclass_name ''Network Controller'' network_classes sub
      else if class_code = 0x3 then subclass_name ''Display Controller'' display_classes sub
      else if class_code = 0x4 then subclass_name ''Multimedia Controller'' multimedia_classes sub
      else if class_code = 0x5 then subclass_name ''Memory Controller'' memory_classes sub
      else if class_code = 0x6 then subclass_name ''Bridge Device'' bridge_classes sub
      else if class_code = 0x7 then subclass_name ''Simple Communication Controller'' communication_classes sub
      else if class_code = 0x8 then subclass_name ''Base System Peripheral'' peripheral_classes sub
      else if class_code = 0x9 then subclass_name ''Input Device'' input_classes sub
      else if class_code = 0xA then ''Docking Station''
      else if class_code = 0xB then subclass_name ''Processor'' processor_classes sub
      else if class_code = 0xC then subclass_name ''Serial Bus Controller'' serial_bus_classes sub
      else if class_code = 0xD then subclass_name ''Wireless Controller'' wireless_classes sub
      else if class_code = 0xE then subclass_name ''Intelligent I/O Controller'' intelligent_classes sub
      else if class_code = 0xF then subclass_name ''Satellite Communication Controller'' satellite_classes sub
      else if class_code = 0x10 then subclass_name ''Encryption Controller'' encryption_classes sub
      else if class_code = 0x11 then subclass_name ''Data Acquisition and Signal Processing Controller'' acquisition_classes sub
      else if class_code = 0x12 then ''Processing Accelerator''
      else if class_code = 0x13 then ''non-Essential Instrumentation''
      else if class_code = 0x40 then ''Co-Processor''
      else if class_code = 0xFF then ''Unassigned Class''
      else ''Unknown Class'')"

text \<open>Every class has a name, whatever the subclass, and the tables of names are functions of the subclass.\<close>

lemma class_tables_distinct:
  "distinct (map fst bridge_classes)" "distinct (map fst storage_classes)" "distinct (map fst serial_bus_classes)"
  by (simp_all add: bridge_classes_def storage_classes_def serial_bus_classes_def)

lemma subclass_name_in: "subclass_name d t s = d \<or> (s, subclass_name d t s) \<in> set t"
  by (auto simp: subclass_name_def split: option.splits dest: map_of_SomeD)

lemma human_readable_class_bridge: "human_readable_class 6 4 = ''Bridge Device | PCI-to-PCI Bridge''"
  by (simp add: human_readable_class_def subclass_name_def bridge_classes_def)

lemma human_readable_class_sata: "human_readable_class 1 6 = ''Mass Storage Controller | SATA Controller''"
  by (simp add: human_readable_class_def subclass_name_def storage_classes_def)

end
