(* ===== verification/Pci.thy ===== *)
theory Pci
  imports Acpi Mmio PciClass Paging BTree
begin

text \<open>
  \<^verbatim>\<open>src/high/PCI/PCI.cpp\<close> and \<^verbatim>\<open>include/PCI/PCI.h\<close>: access to the memory-mapped configuration space,
  enumeration of the buses, headers and capabilities, base address registers, and message signalled
  interrupts.  The configuration space of all functions is one device (\<open>mmio\<close>), by physical address.
\<close>

section \<open>Reading the configuration space\<close>

text \<open>The loop that goes down to the 32-bit boundary, counting the offset.\<close>

function align_down :: "u64 \<Rightarrow> u8 \<Rightarrow> u64 \<times> u8" where
  "align_down a off = (if a mod 4 \<noteq> 0 then align_down (a - 1) (off + 1) else (a, off))"
  by pat_completeness auto

lemma mod4_unat: "unat ((a :: u64) mod 4) = unat a mod 4"
  by (simp add: unat_mod)

lemma len64: "LENGTH(64) = 64"
  by simp

lemma mod4_add: "unat (((a :: u64) + of_nat i) mod 4) = (unat a + i) mod 4"
proof -
  have "unat (a + of_nat i) mod 4 = (unat a + i) mod 2 ^ 64 mod 4"
    by (simp only: unat_word_ariths unat_of_nat take_bit_eq_mod mod_add_right_eq len64)
  also have "\<dots> = (unat a + i) mod 4" by (intro mod_mod_cancel) simp
  finally show ?thesis by (simp add: mod4_unat)
qed

lemma nat_pred_mod4: "(n :: nat) mod 4 \<noteq> 0 \<Longrightarrow> (n - 1) mod 4 = n mod 4 - 1"
  by (cases n) (auto simp: mod_Suc split: if_splits)

lemma mod4_pred:
  assumes "(a :: u64) mod 4 \<noteq> 0"
  shows "unat ((a - 1) mod 4) = unat (a mod 4) - 1"
proof -
  have n: "unat a mod 4 \<noteq> 0" using assms by (simp add: word_cong_unat unat_mod)
  then have "a \<noteq> 0" by auto
  then have "unat (a - 1) = unat a - 1" by (simp add: unat_minus_one)
  moreover have "(unat a - 1) mod 4 = unat a mod 4 - 1" using n by (rule nat_pred_mod4)
  ultimately show ?thesis by (simp add: mod4_unat)
qed

termination align_down
proof (relation "measure (\<lambda>(a, off). unat (a mod 4))", goal_cases)
  case (2 a off)
  then have "unat (a mod 4) \<noteq> 0" by (simp add: word_cong_unat)
  then show ?case using mod4_pred[OF 2] by simp
qed simp

declare align_down.simps [simp del]

text \<open>The 32-bit reads; the last one may be used in part.\<close>

function read_words :: "'d mmio \<Rightarrow> u64 \<Rightarrow> nat \<Rightarrow> 'd \<Rightarrow> u8 list" where
  "read_words ops a n d =
     (if n \<ge> 4 then le_bytes 4 (mm_rd ops a d) @ read_words ops (a + 4) (n - 4) d
      else if n > 0 then take n (le_bytes 4 (mm_rd ops a d))
      else [])"
  by pat_completeness auto
termination by (relation "measure (\<lambda>(ops, a, n, d). n)") auto

declare read_words.simps [simp del]

definition read_configuration_space :: "'d mmio \<Rightarrow> u64 \<Rightarrow> nat \<Rightarrow> 'd \<Rightarrow> u8 list" where
  "read_configuration_space ops address size' d =
     (if address mod 4 \<noteq> 0 then
        let (aligned_address, offset) = align_down address 0;
            align_start_size = min (4 - unat offset) size'
        in take align_start_size (drop (unat offset) (le_bytes 4 (mm_rd ops aligned_address d)))
           @ read_words ops (address + of_nat align_start_size) (size' - align_start_size) d
      else read_words ops address size' d)"

text \<open>The 32-bit writes; the last word keeps the bytes that are not written.\<close>

function write_words :: "'d mmio \<Rightarrow> u64 \<Rightarrow> u8 list \<Rightarrow> 'd \<Rightarrow> 'd" where
  "write_words ops a bs d =
     (if length bs \<ge> 4 then write_words ops (a + 4) (drop 4 bs) (mm_wr ops a (from_le (take 4 bs)) d)
      else if bs \<noteq> [] then mm_wr ops a (from_le (bs @ drop (length bs) (le_bytes 4 (mm_rd ops a d)))) d
      else d)"
  by pat_completeness auto
termination by (relation "measure (\<lambda>(ops, a, bs, d). length bs)") auto

declare write_words.simps [simp del]

text \<open>An unaligned write copies to \<open>&data + offset\<close>, which is \<open>4 * offset\<close> bytes behind the variable.\<close>

definition write_configuration_space :: "'d mmio \<Rightarrow> u64 \<Rightarrow> u8 list \<Rightarrow> 'd \<Rightarrow> 'd res" where
  "write_configuration_space ops address bs d =
     (if address mod 4 \<noteq> 0 then
        if bs \<noteq> [] then Stop Undef
        else let aligned_address = fst (align_down address 0)
             in Ret (mm_wr ops aligned_address (mm_rd ops aligned_address d) d)
      else Ret (write_words ops address bs d))"

section \<open>Devices\<close>

record header_t =
  vendor_id :: u16
  device_id :: u16
  command :: u16
  status :: u16
  revision_id :: u8
  prog_if :: u8
  subclass_code :: u8
  class_code :: u8
  cache_line_size :: u8
  latency_timer :: u8
  header_type :: u8
  bist :: u8

definition parse_header :: "u8 list \<Rightarrow> header_t" where
  "parse_header bs = \<lparr>vendor_id = field_u16 bs 0, device_id = field_u16 bs 2, command = field_u16 bs 4, status = field_u16 bs 6,
     revision_id = field_u8 bs 8, prog_if = field_u8 bs 9, subclass_code = field_u8 bs 10, class_code = field_u8 bs 11,
     cache_line_size = field_u8 bs 12, latency_timer = field_u8 bs 13, header_type = field_u8 bs 14, bist = field_u8 bs 15\<rparr>"

record generic_device =
  header :: header_t
  address :: u64
  bus :: u8
  device :: u8
  funct :: u8

definition get_physical :: "pci_group \<Rightarrow> u8 \<Rightarrow> u8 \<Rightarrow> u8 \<Rightarrow> u64" where
  "get_physical g b dv fn = base g + push_bit 20 (ucast b) + push_bit 15 (ucast dv) + push_bit 12 (ucast fn)"

text \<open>\<open>readConfigSpace\<close> for the two members that are read so.\<close>

definition read_header_type :: "'d mmio \<Rightarrow> pci_group \<Rightarrow> u8 \<Rightarrow> u8 \<Rightarrow> u8 \<Rightarrow> 'd \<Rightarrow> u8" where
  "read_header_type ops g b dv fn d = from_le (read_configuration_space ops (get_physical g b dv fn + 14) 1 d)"

definition read_vendor_id :: "'d mmio \<Rightarrow> pci_group \<Rightarrow> u8 \<Rightarrow> u8 \<Rightarrow> u8 \<Rightarrow> 'd \<Rightarrow> u16" where
  "read_vendor_id ops g b dv fn d = from_le (read_configuration_space ops (get_physical g b dv fn) 2 d)"

definition read_device :: "'d mmio \<Rightarrow> pci_group \<Rightarrow> u8 \<Rightarrow> u8 \<Rightarrow> u8 \<Rightarrow> 'd \<Rightarrow> generic_device" where
  "read_device ops g b dv fn d =
     (let a = get_physical g b dv fn
      in \<lparr>header = parse_header (read_configuration_space ops a 16 d), address = a, bus = b, device = dv, funct = fn\<rparr>)"

text \<open>A bridge's data follow the header; the secondary bus is their byte 9.\<close>

definition bridge_secondary_bus :: "'d mmio \<Rightarrow> generic_device \<Rightarrow> 'd \<Rightarrow> u8" where
  "bridge_secondary_bus ops x d = field_u8 (read_configuration_space ops (address x + 16) 48 d) 9"

definition is_bridge :: "generic_device \<Rightarrow> bool" where
  "is_bridge x \<longleftrightarrow> class_code (header x) = 0x06 \<and> subclass_code (header x) = 0x04"

section \<open>Enumeration\<close>

text \<open>
  The calls of \<open>check_bus\<close>, \<open>check_device\<close> and \<open>check_function\<close> that are still to be made, in order.
  Bridges make the recursion run over buses that the hardware names, so it may not end.
\<close>

datatype scan = Check_bus u8 | Check_device u8 u8 | Check_function u8 u8 u8

definition devices_of_bus :: "u8 \<Rightarrow> scan list" where
  "devices_of_bus b = map (\<lambda>i. Check_device b (of_nat i)) [0..<32]"

definition functions_of_device :: "'d mmio \<Rightarrow> pci_group \<Rightarrow> u8 \<Rightarrow> u8 \<Rightarrow> 'd \<Rightarrow> scan list" where
  "functions_of_device ops g b dv d =
     (if read_header_type ops g b dv 0 d AND 0x80 \<noteq> 0 then map (\<lambda>i. Check_function b dv (of_nat i)) [0..<8]
      else [Check_function b dv 0])"

definition check_function :: "'d mmio \<Rightarrow> pci_group \<Rightarrow> u8 \<Rightarrow> u8 \<Rightarrow> u8 \<Rightarrow> 'd \<Rightarrow> generic_device list \<times> scan list" where
  "check_function ops g b dv fn d =
     (let x = read_device ops g b dv fn d
      in if vendor_id (header x) \<noteq> 0xFFFF
         then ([x], if is_bridge x then [Check_bus (bridge_secondary_bus ops x d)] else [])
         else ([], []))"

partial_function (option) run_scan :: "'d mmio \<Rightarrow> pci_group \<Rightarrow> 'd \<Rightarrow> scan list \<Rightarrow> generic_device list \<Rightarrow> generic_device list option" where
  "run_scan ops g d ts acc =
     (case ts of
        [] \<Rightarrow> Some acc
      | t # rest \<Rightarrow>
          (case t of
             Check_bus b \<Rightarrow> run_scan ops g d (devices_of_bus b @ rest) acc
           | Check_device b dv \<Rightarrow> run_scan ops g d (functions_of_device ops g b dv d @ rest) acc
           | Check_function b dv fn \<Rightarrow>
               run_scan ops g d (snd (check_function ops g b dv fn d) @ rest) (acc @ fst (check_function ops g b dv fn d))))"

text \<open>The host bridge's first function that responds gives the bus, if it has several functions.\<close>

fun first_function :: "'d mmio \<Rightarrow> pci_group \<Rightarrow> 'd \<Rightarrow> u8 list \<Rightarrow> u8 option" where
  "first_function ops g d [] = None"
| "first_function ops g d (fn # fns) =
     (if read_vendor_id ops g 0 0 fn d \<noteq> 0xFFFF then Some fn else first_function ops g d fns)"

definition check_all :: "'d mmio \<Rightarrow> pci_group \<Rightarrow> 'd \<Rightarrow> generic_device list \<Rightarrow> generic_device list option" where
  "check_all ops g d acc =
     (if read_header_type ops g 0 0 0 d AND 0x80 \<noteq> 0 then
        (case first_function ops g d (map of_nat [0..<8]) of
           Some fn \<Rightarrow> run_scan ops g d [Check_bus fn] acc
         | None \<Rightarrow> Some acc)
      else run_scan ops g d [Check_bus 0] acc)"

section \<open>Reading is byte access\<close>

text \<open>The byte of the configuration space at an address, from the aligned 32-bit register that holds it.\<close>

definition config_byte :: "'d mmio \<Rightarrow> 'd \<Rightarrow> u64 \<Rightarrow> u8" where
  "config_byte ops d a = le_bytes 4 (mm_rd ops (a - a mod 4) d) ! unat (a mod 4)"

lemma upt_split: "k \<le> n \<Longrightarrow> [0..<n] = [0..<k] @ map (\<lambda>i. i + k) [0..<n - k]"
  using upt_add_eq_append[of 0 k "n - k"] by (simp add: map_add_upt)

lemma unat_ucast_u8: "unat (w :: u64) < 256 \<Longrightarrow> unat (ucast w :: u8) = unat w"
  by (simp add: unsigned_ucast_eq take_bit_nat_eq_self)

lemma ucast_of_nat: "(ucast (of_nat n :: u64) :: u8) = of_nat n"
  by (rule bit_word_eqI) (auto simp: bit_simps)

lemma align_down_eq: "align_down a off = (a - a mod 4, off + ucast (a mod 4))"
proof (induction a off rule: align_down.induct)
  case (1 a off)
  show ?case
  proof (cases "a mod 4 = 0")
    case True
    then show ?thesis by (subst align_down.simps) simp
  next
    case False
    let ?r = "(a - 1) mod 4"
    have u: "unat ?r = unat (a mod 4) - 1" by (rule mod4_pred[OF False])
    moreover have "unat (a mod 4) \<noteq> 0" using False by (simp add: word_cong_unat)
    ultimately have "unat (a mod 4) = Suc (unat ?r)" by simp
    then have "a mod 4 = of_nat (Suc (unat ?r))" by (rule word_eq_of_nat)
    then have r: "a mod 4 = 1 + ?r" by (simp only: of_nat_Suc of_nat_unat ucast_id)
    have "(ucast (a mod 4) :: u8) = of_nat (Suc (unat ?r))" unfolding \<open>a mod 4 = of_nat (Suc (unat ?r))\<close> by (rule ucast_of_nat)
    moreover have "(ucast ?r :: u8) = of_nat (unat ?r)" by (subst ucast_of_nat[symmetric]) simp
    ultimately have c: "(ucast (a mod 4) :: u8) = 1 + ucast ?r" by (simp only: of_nat_Suc)
    have d: "a - 1 - ?r = a - a mod 4" unfolding r by simp
    show ?thesis using 1[OF False] unfolding d c by (subst align_down.simps) (simp add: False algebra_simps)
  qed
qed

lemma config_byte_offset:
  assumes "unat (a mod 4) + i < 4"
  shows "config_byte ops d (a + of_nat i) = le_bytes 4 (mm_rd ops (a - a mod 4) d) ! (unat (a mod 4) + i)"
proof -
  have u: "unat ((a + of_nat i) mod 4) = unat (a mod 4) + i"
  proof -
    have "(unat a + i) mod 4 = (unat a mod 4 + i) mod 4" by (simp only: mod_add_left_eq)
    then show ?thesis unfolding mod4_add using assms by (simp add: mod4_unat)
  qed
  then have "(a + of_nat i) mod 4 = of_nat (unat (a mod 4) + i)" by (rule word_eq_of_nat)
  then have "(a + of_nat i) mod 4 = a mod 4 + of_nat i" by (simp only: of_nat_add of_nat_unat ucast_id)
  then show ?thesis unfolding config_byte_def u by simp
qed

lemma read_words_bytes:
  "a mod 4 = 0 \<Longrightarrow> read_words ops a n d = map (\<lambda>i. config_byte ops d (a + of_nat i)) [0..<n]"
proof (induction ops a n d rule: read_words.induct)
  case (1 ops a n d)
  have byte: "i < 4 \<Longrightarrow> config_byte ops d (a + of_nat i) = le_bytes 4 (mm_rd ops a d) ! i" for i
    using config_byte_offset[of a i ops d] 1(2) by simp
  consider "4 \<le> n" | "0 < n" "n < 4" | "n = 0" by linarith
  then show ?case
  proof cases
    case 1
    have "unat ((a + 4) mod 4) = 0" using mod4_add[of a 4] \<open>a mod 4 = 0\<close> by (simp add: mod4_unat word_cong_unat)
    then have "read_words ops (a + 4) (n - 4) d = map (\<lambda>i. config_byte ops d (a + 4 + of_nat i)) [0..<n - 4]"
      using "1.IH" 1 by (simp add: word_cong_unat)
    moreover have "[0..<n] = [0..<4] @ map (\<lambda>i. i + 4) [0..<n - 4]" using 1 by (rule upt_split)
    moreover have "le_bytes 4 (mm_rd ops a d) = map (\<lambda>i. config_byte ops d (a + of_nat i)) [0..<4]"
      by (rule nth_equalityI) (simp_all add: byte)
    ultimately show ?thesis using 1 by (subst read_words.simps) (simp add: algebra_simps comp_def)
  next
    case 2
    have "take n (le_bytes 4 (mm_rd ops a d)) = map (\<lambda>i. config_byte ops d (a + of_nat i)) [0..<n]"
      using 2 by (intro nth_equalityI) (simp_all add: byte)
    then show ?thesis using 2 by (subst read_words.simps) simp
  next
    case 3
    then show ?thesis by (subst read_words.simps) simp
  qed
qed

lemma read_space_bytes:
  "read_configuration_space ops a n d = map (\<lambda>i. config_byte ops d (a + of_nat i)) [0..<n]"
proof (cases "a mod 4 = 0")
  case True
  then show ?thesis by (simp add: read_configuration_space_def read_words_bytes)
next
  case False
  let ?r = "unat (a mod 4)"
  let ?k = "min (4 - ?r) n"
  have r: "?r < 4" "unat (ucast (a mod 4) :: u8) = ?r" 
    using mod_less_divisor[of 4 "unat a"] by (simp_all add: mod4_unat unat_ucast_u8)
  have head: "take ?k (drop ?r (le_bytes 4 (mm_rd ops (a - a mod 4) d))) = map (\<lambda>i. config_byte ops d (a + of_nat i)) [0..<?k]"
  proof (rule nth_equalityI)
    fix i
    assume "i < length (take ?k (drop ?r (le_bytes 4 (mm_rd ops (a - a mod 4) d))))"
    then have i: "i < ?k" using r(1) by simp
    then have "?r + i < 4" by linarith
    then show "take ?k (drop ?r (le_bytes 4 (mm_rd ops (a - a mod 4) d))) ! i = map (\<lambda>i. config_byte ops d (a + of_nat i)) [0..<?k] ! i"
      using i config_byte_offset[of a i ops d] by simp
  qed (use r(1) in simp)
  have rest: "read_words ops (a + of_nat ?k) (n - ?k) d = map (\<lambda>i. config_byte ops d (a + of_nat ?k + of_nat i)) [0..<n - ?k]"
  proof (cases "4 - ?r \<le> n")
    case True
    have "(unat a + (4 - ?r)) mod 4 = 0" using r(1) unfolding mod4_unat by presburger
    then have "(a + of_nat ?k) mod 4 = 0" using mod4_add[of a ?k] True by (simp add: word_cong_unat)
    then show ?thesis by (rule read_words_bytes)
  next
    case False
    then show ?thesis by (subst read_words.simps) simp
  qed
  have "[0..<n] = [0..<?k] @ map (\<lambda>i. i + ?k) [0..<n - ?k]" by (rule upt_split) simp
  then show ?thesis
    using False r(2) head rest by (simp add: read_configuration_space_def align_down_eq Let_def comp_def algebra_simps del: of_nat_min)
qed

text \<open>C30. Reading any number of bytes from any address of the configuration space, with 32-bit aligned
  accesses alone, gives exactly the bytes of the registers at those addresses, whatever the alignment and
  the length.\<close>

theorem read_configuration_space_bytes:
  "read_configuration_space ops a n d = map (\<lambda>i. config_byte ops d (a + of_nat i)) [0..<n]"
  by (rule read_space_bytes)

section \<open>Enumeration\<close>

text \<open>\<open>ds\<close> is what the calls \<open>ts\<close> append to the list.\<close>

definition scans :: "'d mmio \<Rightarrow> pci_group \<Rightarrow> 'd \<Rightarrow> scan list \<Rightarrow> generic_device list \<Rightarrow> bool" where
  "scans ops g d ts ds \<longleftrightarrow> (\<forall>rest acc. run_scan ops g d (ts @ rest) acc = run_scan ops g d rest (acc @ ds))"

lemma scans_Nil: "scans ops g d [] []"
  by (simp add: scans_def)

lemma scans_append: "scans ops g d ts ds \<Longrightarrow> scans ops g d ts' ds' \<Longrightarrow> scans ops g d (ts @ ts') (ds @ ds')"
  by (simp add: scans_def)

lemma scans_result: "scans ops g d ts ds \<Longrightarrow> run_scan ops g d ts acc = Some (acc @ ds)"
  unfolding scans_def by (drule spec[of _ "[]"]) (simp add: run_scan.simps[of _ _ _ "[]"])

lemma scans_step:
  "scans ops g d (devices_of_bus b) ds \<Longrightarrow> scans ops g d [Check_bus b] ds"
  "scans ops g d (functions_of_device ops g b dv d) ds \<Longrightarrow> scans ops g d [Check_device b dv] ds"
  "scans ops g d (snd (check_function ops g b dv fn d)) ds \<Longrightarrow>
     scans ops g d [Check_function b dv fn] (fst (check_function ops g b dv fn d) @ ds)"
  by (simp_all add: scans_def run_scan.simps[of _ _ _ "_ # _"])

text \<open>What a list of devices must hold: every entry is a function that responds, as read.\<close>

definition read_true :: "'d mmio \<Rightarrow> pci_group \<Rightarrow> 'd \<Rightarrow> generic_device list \<Rightarrow> bool" where
  "read_true ops g d ds \<longleftrightarrow> (\<forall>x \<in> set ds. x = read_device ops g (bus x) (device x) (funct x) d \<and> vendor_id (header x) \<noteq> 0xFFFF)"

text \<open>What a call finds at least: function 0 of the device, if it responds.\<close>

fun finds :: "'d mmio \<Rightarrow> pci_group \<Rightarrow> 'd \<Rightarrow> scan \<Rightarrow> generic_device list \<Rightarrow> bool" where
  "finds ops g d (Check_bus b) ds \<longleftrightarrow>
     (\<forall>i < 32. vendor_id (header (read_device ops g b (of_nat i) 0 d)) \<noteq> 0xFFFF \<longrightarrow> read_device ops g b (of_nat i) 0 d \<in> set ds)"
| "finds ops g d (Check_device b dv) ds \<longleftrightarrow>
     (vendor_id (header (read_device ops g b dv 0 d)) \<noteq> 0xFFFF \<longrightarrow> read_device ops g b dv 0 d \<in> set ds)"
| "finds ops g d (Check_function b dv fn) ds \<longleftrightarrow>
     (vendor_id (header (read_device ops g b dv fn d)) \<noteq> 0xFFFF \<longrightarrow> read_device ops g b dv fn d \<in> set ds)"

definition enumerates :: "'d mmio \<Rightarrow> pci_group \<Rightarrow> 'd \<Rightarrow> scan \<Rightarrow> bool" where
  "enumerates ops g d t \<longleftrightarrow> (\<exists>ds. scans ops g d [t] ds \<and> read_true ops g d ds \<and> finds ops g d t ds)"

lemma finds_mono: "finds ops g d t ds \<Longrightarrow> set ds \<subseteq> set ds' \<Longrightarrow> finds ops g d t ds'"
  by (cases t) auto

lemma scans_list:
  "\<forall>t \<in> set ts. enumerates ops g d t \<Longrightarrow> \<exists>ds. scans ops g d ts ds \<and> read_true ops g d ds \<and> (\<forall>t \<in> set ts. finds ops g d t ds)"
proof (induction ts)
  case Nil
  then show ?case using scans_Nil[of ops g d] by (intro exI[of _ "[]"]) (simp add: read_true_def)
next
  case (Cons t ts)
  obtain ds1 where 1: "scans ops g d [t] ds1" "read_true ops g d ds1" "finds ops g d t ds1"
    using Cons.prems by (auto simp: enumerates_def)
  obtain ds2 where 2: "scans ops g d ts ds2" "read_true ops g d ds2" "\<forall>t \<in> set ts. finds ops g d t ds2" using Cons by auto
  have "scans ops g d (t # ts) (ds1 @ ds2)" using scans_append[OF 1(1) 2(1)] by simp
  moreover have "read_true ops g d (ds1 @ ds2)" using 1(2) 2(2) by (auto simp: read_true_def)
  moreover have "finds ops g d u (ds1 @ ds2)" if "u \<in> set (t # ts)" for u
    using that 1(3) 2(3) finds_mono[of ops g d u ds1 "ds1 @ ds2"] finds_mono[of ops g d u ds2 "ds1 @ ds2"] by auto
  ultimately show ?case by blast
qed

lemma check_function_enumerates:
  assumes "is_bridge (read_device ops g b dv fn d) \<Longrightarrow> vendor_id (header (read_device ops g b dv fn d)) \<noteq> 0xFFFF \<Longrightarrow>
    enumerates ops g d (Check_bus (bridge_secondary_bus ops (read_device ops g b dv fn d) d))"
  shows "enumerates ops g d (Check_function b dv fn)"
proof -
  have "\<forall>t \<in> set (snd (check_function ops g b dv fn d)). enumerates ops g d t"
    using assms by (auto simp: check_function_def Let_def)
  from scans_list[OF this] obtain ds where ds: "scans ops g d (snd (check_function ops g b dv fn d)) ds" "read_true ops g d ds" by blast
  have "read_true ops g d (fst (check_function ops g b dv fn d))"
    by (auto simp: read_true_def check_function_def Let_def read_device_def)
  then have "read_true ops g d (fst (check_function ops g b dv fn d) @ ds)" using ds(2) by (auto simp: read_true_def)
  moreover have "finds ops g d (Check_function b dv fn) (fst (check_function ops g b dv fn d) @ ds)"
    by (auto simp: check_function_def Let_def)
  ultimately show ?thesis unfolding enumerates_def using scans_step(3)[OF ds(1)] by blast
qed

lemma check_device_enumerates:
  assumes "\<forall>fn. enumerates ops g d (Check_function b dv fn)"
  shows "enumerates ops g d (Check_device b dv)"
proof -
  have "\<forall>t \<in> set (functions_of_device ops g b dv d). enumerates ops g d t" using assms by (auto simp: functions_of_device_def)
  from scans_list[OF this] obtain ds where ds: "scans ops g d (functions_of_device ops g b dv d) ds" "read_true ops g d ds"
    "\<forall>t \<in> set (functions_of_device ops g b dv d). finds ops g d t ds" by blast
  have "Check_function b dv 0 \<in> set (functions_of_device ops g b dv d)"
    by (auto simp: functions_of_device_def image_iff intro: bexI[of _ 0])
  then have "finds ops g d (Check_device b dv) ds" using ds(3) by fastforce
  then show ?thesis unfolding enumerates_def using scans_step(2)[OF ds(1)] ds(2) by blast
qed

lemma check_bus_enumerates:
  assumes "\<forall>dv. enumerates ops g d (Check_device b dv)"
  shows "enumerates ops g d (Check_bus b)"
proof -
  have "\<forall>t \<in> set (devices_of_bus b). enumerates ops g d t" using assms by (auto simp: devices_of_bus_def)
  from scans_list[OF this] obtain ds where ds: "scans ops g d (devices_of_bus b) ds" "read_true ops g d ds"
    "\<forall>t \<in> set (devices_of_bus b). finds ops g d t ds" by blast
  have "finds ops g d (Check_device b (of_nat i)) ds" if "i < 32" for i using ds(3) that by (auto simp: devices_of_bus_def)
  then have "finds ops g d (Check_bus b) ds" by simp
  then show ?thesis unfolding enumerates_def using scans_step(1)[OF ds(1)] ds(2) by blast
qed

text \<open>Bridges lead to buses with greater numbers.\<close>

definition buses_ascend :: "'d mmio \<Rightarrow> pci_group \<Rightarrow> 'd \<Rightarrow> bool" where
  "buses_ascend ops g d \<longleftrightarrow> (\<forall>b dv fn. is_bridge (read_device ops g b dv fn d) \<longrightarrow> vendor_id (header (read_device ops g b dv fn d)) \<noteq> 0xFFFF \<longrightarrow>
     b < bridge_secondary_bus ops (read_device ops g b dv fn d) d)"

lemma bus_enumerates: "buses_ascend ops g d \<Longrightarrow> enumerates ops g d (Check_bus b)"
proof (induction "256 - unat b" arbitrary: b rule: less_induct)
  case less
  have "enumerates ops g d (Check_function b dv fn)" for dv fn
  proof (rule check_function_enumerates)
    let ?s = "bridge_secondary_bus ops (read_device ops g b dv fn d) d"
    assume "is_bridge (read_device ops g b dv fn d)" "vendor_id (header (read_device ops g b dv fn d)) \<noteq> 0xFFFF"
    then have "unat b < unat ?s" using less.prems by (simp add: buses_ascend_def unat_less_iff)
    moreover have "unat ?s < 256" using unsigned_less[of ?s] by simp
    ultimately show "enumerates ops g d (Check_bus ?s)" using less by simp
  qed
  then have "enumerates ops g d (Check_device b dv)" for dv by (intro check_device_enumerates allI)
  then show ?case by (intro check_bus_enumerates allI)
qed

text \<open>C28. On a machine whose bridges lead to buses with greater numbers, and where 0:0.0, the host bridge, responds or is
  not marked as having several functions (bit 7 of its header type), the enumeration returns: every
  device it appends is a function that responds, with the header and address of its place, and every device
  of bus 0 that responds at function 0 is among them.  Where 0:0.0 is marked and does not respond, the code enumerates
  the bus numbered like the first function that does, which need not be bus 0; that case is excluded.\<close>

theorem check_all_enumerates:
  assumes "buses_ascend ops g d" "read_header_type ops g 0 0 0 d AND 0x80 = 0 \<or> read_vendor_id ops g 0 0 0 d \<noteq> 0xFFFF"
  shows "\<exists>ds. check_all ops g d acc = Some (acc @ ds) \<and>
    (\<forall>x \<in> set ds. x = read_device ops g (bus x) (device x) (funct x) d \<and> vendor_id (header x) \<noteq> 0xFFFF) \<and>
    (\<forall>i < 32. vendor_id (header (read_device ops g 0 (of_nat i) 0 d)) \<noteq> 0xFFFF \<longrightarrow> read_device ops g 0 (of_nat i) 0 d \<in> set ds)"
proof -
  obtain ds where "scans ops g d [Check_bus 0] ds" "read_true ops g d ds" "finds ops g d (Check_bus 0) ds"
    using bus_enumerates[OF assms(1), of 0] by (auto simp: enumerates_def)
  moreover have "check_all ops g d acc = run_scan ops g d [Check_bus 0] acc"
    using assms(2) by (auto simp: check_all_def upt_rec)
  ultimately show ?thesis using scans_result[of ops g d "[Check_bus 0]" ds acc] by (auto simp: read_true_def)
qed

section \<open>Headers and capabilities\<close>

record device_header =
  dh_device :: generic_device
  dh_bars :: "u32 list"
  capabilities_pointer :: u8
  interrupt_line :: u8
  interrupt_pin :: u8

definition is_normal_device :: "u8 \<Rightarrow> bool" where
  "is_normal_device type \<longleftrightarrow> type AND 0x7F = 0"

text \<open>The constructor reads the 48 bytes after the common header.\<close>

definition make_device_header :: "'d mmio \<Rightarrow> generic_device \<Rightarrow> 'd \<Rightarrow> device_header" where
  "make_device_header ops x d =
     (let bs = read_configuration_space ops (address x + 16) 48 d
      in \<lparr>dh_device = x, dh_bars = map (\<lambda>i. field_u32 bs (4 * i)) [0..<6], capabilities_pointer = field_u8 bs 36,
          interrupt_line = field_u8 bs 44, interrupt_pin = field_u8 bs 45\<rparr>)"

record capabilities =
  device_base :: u64
  current :: u64

definition has_next :: "capabilities \<Rightarrow> bool" where
  "has_next c \<longleftrightarrow> current c \<noteq> device_base c"

definition next_cap :: "'d mmio \<Rightarrow> capabilities \<Rightarrow> 'd \<Rightarrow> capabilities" where
  "next_cap ops c d =
     (let next_offset = field_u8 (read_configuration_space ops (current c + 1) 1 d) 0
      in \<lparr>device_base = device_base c, current = device_base c + ucast next_offset\<rparr>)"

definition cap_type :: "'d mmio \<Rightarrow> capabilities \<Rightarrow> 'd \<Rightarrow> u8" where
  "cap_type ops c d = field_u8 (read_configuration_space ops (current c) 1 d) 0"

definition get_capabilities :: "device_header \<Rightarrow> capabilities" where
  "get_capabilities h =
     (let a = address (dh_device h)
      in \<lparr>device_base = a, current = (a + ucast (capabilities_pointer h)) AND NOT 3\<rparr>)"

text \<open>The walk along the list; a cyclic list without the type does not end.\<close>

partial_function (option) find_capability :: "'d mmio \<Rightarrow> u8 \<Rightarrow> 'd \<Rightarrow> capabilities \<Rightarrow> capabilities option option" where
  "find_capability ops type d c =
     (if has_next c then
        if cap_type ops c d = type then Some (Some c) else find_capability ops type d (next_cap ops c d)
      else Some None)"

definition get_capability :: "'d mmio \<Rightarrow> device_header \<Rightarrow> u8 \<Rightarrow> 'd \<Rightarrow> capabilities option option" where
  "get_capability ops h type d = find_capability ops type d (get_capabilities h)"

section \<open>Base address registers\<close>

datatype BAR = Io_bar u16 u64 | Mem_bar u64 u64

fun bar_size :: "BAR \<Rightarrow> u64" where
  "bar_size (Io_bar a n) = n"
| "bar_size (Mem_bar a n) = n"

fun get_address :: "BAR \<Rightarrow> u64 option" where
  "get_address (Mem_bar a n) = Some a"
| "get_address (Io_bar a n) = None"

fun get_io_address :: "BAR \<Rightarrow> u16 option" where
  "get_io_address (Io_bar a n) = Some a"
| "get_io_address (Mem_bar a n) = None"

definition get_bar_raw :: "device_header \<Rightarrow> u64 \<Rightarrow> u32" where
  "get_bar_raw h index = (if index < 6 then dh_bars h ! unat index else 0)"

text \<open>\<open>getBARSize\<close>: all ones are written, the answer is read back, the register restored.  The masks
  \<open>~0b11\<close> and \<open>~0b1111\<close> are \<open>int\<close>s, sign-extended; the upper half of a 64-bit register is masked, too.\<close>

definition get_bar_size :: "'d mmio \<Rightarrow> device_header \<Rightarrow> u64 \<Rightarrow> 'd \<Rightarrow> u64 option \<times> 'd" where
  "get_bar_size ops h index d =
     (if index \<ge> 6 then (None, d)
      else
        let ptr = address (dh_device h) + (0x10 + index * 4) div 4 * 4;
            low = ucast (mm_rd ops ptr d) :: u64;
            is64 = (low AND 7 = 4)
        in if is64 \<and> index = 5 then (None, d)
           else
             let bar = (if is64 then low OR push_bit 32 (ucast (mm_rd ops (ptr + 4) d)) else low);
                 d1 = (if is64 then mm_wr ops (ptr + 4) (NOT 0) d else d);
                 d2 = mm_wr ops ptr (NOT 0) d1;
                 size1 = ucast (mm_rd ops ptr d2) :: u64;
                 size2 = (if bar AND 1 \<noteq> 0 then size1 AND NOT 3 else size1 AND NOT 15);
                 size3 = (if bar AND 7 = 4 then size2 OR push_bit 32 (ucast (mm_rd ops (ptr + 4) d2 AND NOT 15)) else size2);
                 d3 = (if bar AND 7 = 4 then mm_wr ops (ptr + 4) (ucast (drop_bit 32 bar)) d2 else d2);
                 d4 = mm_wr ops ptr (ucast bar) d3
             in if size3 = 0 then (None, d4)
                else
                  let size4 = NOT size3 + 1
                  in (Some (if bar AND 7 \<noteq> 4 then size4 AND 0xFFFFFFFF else size4), d4))"

text \<open>The cache of registers that were set up, and the address space for uncached mappings.\<close>

record ('d, 'p) pci_state =
  pci_dev :: 'd
  pci_has_init :: bool
  pci_bar_memory :: "(u64, BAR) btree_map"
  pci_bar_memory_next :: u64
  pci_pt :: "'p pt_state"

definition bar_M :: nat where "bar_M = 51"

definition no_bar :: "u64 \<times> BAR" where "no_bar = (0, Io_bar 0 0)"

definition pci_init :: "('d, 'p) pci_state \<Rightarrow> ('d, 'p) pci_state" where
  "pci_init s = (if pci_has_init s then s
     else s\<lparr>pci_has_init := True, pci_bar_memory := btree_empty, pci_bar_memory_next := Ti 126\<rparr>)"

definition allocate_uncached_virtual :: "u64 \<Rightarrow> ('d, 'p) pci_state \<Rightarrow> u64 \<times> ('d, 'p) pci_state" where
  "allocate_uncached_virtual n s =
     (let s1 = pci_init s
      in (pci_bar_memory_next s1, s1\<lparr>pci_bar_memory_next := pci_bar_memory_next s1 + n * page_size\<rparr>))"

definition remember_bar :: "u64 \<Rightarrow> BAR \<Rightarrow> ('d, 'p) pci_state \<Rightarrow> (BAR option \<times> ('d, 'p) pci_state) res option" where
  "remember_bar bar b s = Some (bindr (map_insert bar_M no_bar bar b (pci_bar_memory s)) (\<lambda>t. Ret (Some b, s\<lparr>pci_bar_memory := t\<rparr>)))"

definition bar_value :: "device_header \<Rightarrow> u64 \<Rightarrow> u64" where
  "bar_value h index =
     (let low = ucast (get_bar_raw h index)
      in if low AND 7 = 4 then low OR push_bit 32 (ucast (get_bar_raw h (index + 1))) else low)"

definition get_bar ::
    "'d mmio \<Rightarrow> 'p page_alloc \<Rightarrow> device_header \<Rightarrow> u64 \<Rightarrow> ('d, 'p) pci_state \<Rightarrow> (BAR option \<times> ('d, 'p) pci_state) res option" where
  "get_bar ops alloc h index s0 =
     (let s = pci_init s0; bar = bar_value h index
      in if get_bar_raw h index = 0 then Some (Ret (None, s))
         else
           bindo (Some (map_find (snd no_bar) bar (pci_bar_memory s))) (\<lambda>cached.
             case cached of
               Some b \<Rightarrow> Some (Ret (Some b, s))
             | None \<Rightarrow>
                 (let (size_opt, d) = get_bar_size ops h index (pci_dev s); s1 = s\<lparr>pci_dev := d\<rparr>
                  in case size_opt of
                       None \<Rightarrow> Some (Ret (None, s1))
                     | Some size' \<Rightarrow>
                         if bar AND 1 \<noteq> 0 then remember_bar bar (Io_bar (ucast (bar AND NOT 3)) size') s1
                         else
                           let physical_address = bar AND NOT 15
                           in if bar AND 15 = 8 then remember_bar bar (Mem_bar (map_tmp physical_address) size') s1
                              else
                                let page_count = (size' + page_size - 1) div page_size;
                                    (a, s2) = allocate_uncached_virtual page_count s1
                                in bindo (pt_map alloc physical_address a
                                     \<lparr>writeable = True, user = False, writeThrough = True, cacheDisabled = True\<rparr> (pci_pt s2)) (\<lambda>pt.
                                   remember_bar bar (Mem_bar a size') (s2\<lparr>pci_pt := pt\<rparr>)))))"

text \<open>\<open>printBAR\<close>: the name of the type, the size and the address that are printed.\<close>

definition bar_type_name :: "u32 \<Rightarrow> string" where
  "bar_type_name raw =
     (let type_value = raw AND 15
      in if type_value = 0 then ''Mem 32-bit !pref''
         else if type_value = 8 then ''Mem 32-bit  pref''
         else if type_value = 4 then ''Mem 64-bit !pref''
         else if type_value = 12 then ''Mem 64-bit  pref''
         else if odd type_value then ''I/O''
         else ''Unknown'')"

definition bar_pointer :: "BAR \<Rightarrow> u64 res" where
  "bar_pointer b = (case get_address b of Some a \<Rightarrow> Ret a
     | None \<Rightarrow> bindr (or_panic ''Invalid BAR'' (get_io_address b)) (\<lambda>io. Ret (ucast io)))"

definition print_bar ::
    "'d mmio \<Rightarrow> 'p page_alloc \<Rightarrow> device_header \<Rightarrow> u64 \<Rightarrow> ('d, 'p) pci_state \<Rightarrow>
     ((string \<times> u64 \<times> u64) option \<times> ('d, 'p) pci_state) res option" where
  "print_bar ops alloc h index s =
     bindo (get_bar ops alloc h index s) (\<lambda>(b, s').
       case b of
         None \<Rightarrow> Some (Ret (None, s'))
       | Some b \<Rightarrow> Some (bindr (bar_pointer b) (\<lambda>p. Ret (Some (bar_type_name (get_bar_raw h index), bar_size b, p), s'))))"

section \<open>Message signalled interrupts\<close>

definition setup_msi :: "'d mmio \<Rightarrow> device_header \<Rightarrow> u8 \<Rightarrow> 'd \<Rightarrow> (bool \<times> 'd) res option" where
  "setup_msi ops h interrupt_vector d =
     (case get_capability ops h 0x05 d of
        None \<Rightarrow> None
      | Some None \<Rightarrow> Some (Ret (False, d))
      | Some (Some c) \<Rightarrow>
          let cur = current c;
              control0 = field_u16 (read_configuration_space ops (cur + 2) 2 d) 0;
              control = (control0 AND NOT 0x70) OR 1
          in if \<not> bit control 7 then Some (Ret (False, d))
             else
               let msi_address = 0xFEE00000 OR push_bit 12 0 :: u64;
                   msi_data = ucast interrupt_vector :: u16
               in Some (bindr (write_configuration_space ops (cur + 4) (le_bytes 8 msi_address) d) (\<lambda>d1.
                        bindr (write_configuration_space ops (cur + 0xC) (le_bytes 2 msi_data) d1) (\<lambda>d2.
                        bindr (write_configuration_space ops (cur + 2) (le_bytes 2 control) d2) (\<lambda>d3. Ret (True, d3))))))"

section \<open>Drivers by class\<close>

text \<open>\<open>generate\<close>: the first type of the list whose class, subclass and interface match, as far as it asks.\<close>

definition match_class_code :: u8 where "match_class_code = 1"
definition match_subclass :: u8 where "match_subclass = 2"
definition match_prog_if :: u8 where "match_prog_if = 4"

definition is_set :: "u8 \<Rightarrow> u8 \<Rightarrow> bool" where
  "is_set a b \<longleftrightarrow> a AND b = b"

record driver_type =
  drv_match :: u8
  drv_class_code :: u8
  drv_subclass :: u8
  drv_prog_if :: u8

definition driver_matches :: "generic_device \<Rightarrow> driver_type \<Rightarrow> bool" where
  "driver_matches x t \<longleftrightarrow>
     (\<not> is_set (drv_match t) match_class_code \<or> class_code (header x) = drv_class_code t) \<and>
     (\<not> is_set (drv_match t) match_subclass \<or> subclass_code (header x) = drv_subclass t) \<and>
     (\<not> is_set (drv_match t) match_prog_if \<or> prog_if (header x) = drv_prog_if t)"

fun generate_fill :: "generic_device \<Rightarrow> driver_type list \<Rightarrow> driver_type option" where
  "generate_fill x [] = None"
| "generate_fill x (t # ts) = (if driver_matches x t then Some t else generate_fill x ts)"

section \<open>The size of a base address register\<close>

lemma bar_register_address:
  assumes "index < (6 :: u64)"
  shows "a + (0x10 + index * 4) div 4 * 4 = a + 0x10 + index * 4"
proof -
  define n where "n = unat index"
  have "n < 6" using assms by (simp add: n_def unat_less_iff)
  then have "n = 0 \<or> n = 1 \<or> n = 2 \<or> n = 3 \<or> n = 4 \<or> n = 5" by linarith
  moreover have "index = of_nat n" by (simp add: n_def)
  ultimately show ?thesis by auto
qed

lemma bar_answer_32: "\<forall>k \<in> set [4..<32]. \<forall>f \<in> {0, 8}. (NOT (ucast ((NOT (mask k) OR f) :: u32) AND NOT 15) + 1 :: u64) AND 0xFFFFFFFF = 2 ^ k"
  by code_simp

lemma bar_answer_32_nonzero: "\<forall>k \<in> set [4..<32]. \<forall>f \<in> {0, 8}. (ucast ((NOT (mask k) OR f) :: u32) AND NOT 15 :: u64) \<noteq> 0"
  by code_simp

lemma bar_answer_64: "\<forall>k \<in> set [4..<32]. \<forall>f \<in> {4, 12}.
    NOT ((ucast ((NOT (mask k) OR f) :: u32) AND NOT 15 :: u64) OR push_bit 32 (ucast (NOT 15 :: u32))) + 1 = 2 ^ k + 15 * 2 ^ 32 \<and>
    ((ucast ((NOT (mask k) OR f) :: u32) AND NOT 15 :: u64) OR push_bit 32 (ucast (NOT 15 :: u32))) \<noteq> 0"
  by code_simp

lemma bit_7: "bit (7 :: u64) n \<longleftrightarrow> n < 3"
proof -
  have "bit (mask 3 :: u64) n \<longleftrightarrow> n < 3" by (simp only: bit_mask_iff) auto
  moreover have "(mask 3 :: u64) = 7" by (simp add: mask_eq_exp_minus_1)
  ultimately show ?thesis by simp
qed

lemma fixed_bits:
  assumes "3 \<le> k"
  shows "(ucast ((v AND NOT (mask k)) OR f :: u32) :: u64) AND 7 = ucast f AND 7"
  using assms by (intro bit_word_eqI) (auto simp: bit_simps bit_7 simp del: bit_numeral_word_iff)

lemma bit0_of_7: "(x :: u64) AND 7 = y \<Longrightarrow> x AND 1 = y AND 1"
proof -
  have "x AND 1 = (x AND 7) AND 1" by (simp add: and.assoc)
  then show "x AND 7 = y \<Longrightarrow> x AND 1 = y AND 1" by simp
qed

lemma low_half: "(ucast (ucast x OR push_bit 32 y :: u64) :: u32) = (x :: u32)"
  by (rule bit_word_eqI) (auto simp: bit_simps)

lemma ucast_back: "(ucast (ucast (x :: u32) :: u64) :: u32) = x"
  by (rule bit_word_eqI) (auto simp: bit_simps)

lemma high_half: "(ucast (drop_bit 32 (ucast x OR push_bit 32 (ucast y) :: u64)) :: u32) = (y :: u32)" for x :: u32
  by (rule bit_word_eqI) (auto simp: bit_simps dest: bit_imp_le_length)

lemma masked_again: "((v AND NOT (mask k)) OR f) AND NOT (mask k) OR f = (v AND NOT (mask k)) OR (f :: u32)"
  by (rule bit_word_eqI) (auto simp: bit_simps)

lemma word_and_low_64: "((x OR push_bit 32 y) AND 7 :: u64) = x AND 7"
  by (intro bit_word_eqI) (auto simp: bit_simps bit_7 simp del: bit_numeral_word_iff)

text \<open>The size of a 32-bit memory register that decodes \<open>2 ^ k\<close> bytes (16 bytes to 2 GiB), prefetchable
  or not: writing all ones and reading back gives exactly that size, and the register holds its old value
  afterwards.\<close>

theorem get_bar_size_32:
  assumes "index < 6" "r = address (dh_device h) + 0x10 + index * 4"
    and "masked_register ops r (NOT (mask k)) f" "4 \<le> k" "k < 32" "f \<in> {0, 8}"
    and "mm_rd ops r d = (v AND NOT (mask k)) OR f"
  shows "\<exists>d'. get_bar_size ops h index d = (Some (2 ^ k), d') \<and> mm_rd ops r d' = mm_rd ops r d"
proof -
  have w: "mm_rd ops r (mm_wr ops r x d) = (x AND NOT (mask k)) OR f" for x d
    using assms(3) by (simp add: masked_register_def)
  have k: "k \<in> set [4..<32]" using assms(4,5) by (simp only: set_upt atLeastLessThan_iff)
  have p: "address (dh_device h) + (0x10 + index * 4) div 4 * 4 = r"
    unfolding assms(2) by (rule bar_register_address[OF assms(1)])
  let ?low = "ucast (mm_rd ops r d) :: u64"
  have a7: "?low AND 7 = 0" unfolding assms(7) using assms(4,6) by (subst fixed_bits) auto
  then have a1: "?low AND 1 = 0" by (simp add: bit0_of_7[OF a7])
  let ?d2 = "mm_wr ops r (NOT 0) d"
  have s: "mm_rd ops r ?d2 = NOT (mask k) OR f" by (simp add: w)
  have "(NOT (ucast (mm_rd ops r ?d2) AND NOT 15) + 1 :: u64) AND 0xFFFFFFFF = 2 ^ k" "(ucast (mm_rd ops r ?d2) AND NOT 15 :: u64) \<noteq> 0"
    unfolding s using bar_answer_32 bar_answer_32_nonzero k assms(6) by blast+
  then have "get_bar_size ops h index d = (Some (2 ^ k), mm_wr ops r (ucast ?low) ?d2)"
    unfolding get_bar_size_def p using assms(1) a7 a1 by (simp add: Let_def not_le)
  moreover have "mm_rd ops r (mm_wr ops r (ucast ?low) ?d2) = mm_rd ops r d" by (simp add: w assms(7) masked_again ucast_back)
  ultimately show ?thesis by blast
qed

text \<open>The size of a 64-bit memory register that decodes \<open>2 ^ k\<close> bytes, below 4 GiB: the result is 60 GiB
  too large, since the low four bits of the upper half are masked like those of the lower half.\<close>

theorem get_bar_size_64_wrong:
  assumes "index < 5" "r = address (dh_device h) + 0x10 + index * 4"
    and "masked_register ops r (NOT (mask k)) f" "masked_register ops (r + 4) (NOT 0) 0" "4 \<le> k" "k < 32" "f \<in> {4, 12}"
    and "mm_rd ops r d = (v AND NOT (mask k)) OR f" "separate ops r (r + 4)" "separate ops (r + 4) r"
  shows "\<exists>d'. get_bar_size ops h index d = (Some (2 ^ k + 15 * 2 ^ 32), d') \<and> mm_rd ops r d' = mm_rd ops r d \<and> mm_rd ops (r + 4) d' = mm_rd ops (r + 4) d"
proof -
  have w: "mm_rd ops r (mm_wr ops r x d) = (x AND NOT (mask k)) OR f" "mm_rd ops (r + 4) (mm_wr ops (r + 4) x d) = x"
    "mm_rd ops (r + 4) (mm_wr ops r x d) = mm_rd ops (r + 4) d" "mm_rd ops r (mm_wr ops (r + 4) x d) = mm_rd ops r d" for x d
    using assms(3,4,9,10) by (simp_all add: masked_register_def separate_def)
  have i: "index < 6" "index \<noteq> 5" using assms(1) by (auto simp: unat_less_iff)
  have k: "k \<in> set [4..<32]" using assms(5,6) by (simp only: set_upt atLeastLessThan_iff)
  have p: "address (dh_device h) + (0x10 + index * 4) div 4 * 4 = r"
    unfolding assms(2) by (rule bar_register_address[OF i(1)])
  let ?low = "ucast (mm_rd ops r d) :: u64"
  let ?bar = "?low OR push_bit 32 (ucast (mm_rd ops (r + 4) d))"
  have a7: "?low AND 7 = 4" unfolding assms(8) using assms(5,7) by (subst fixed_bits) auto
  have b7: "?bar AND 7 = 4" using a7 by (simp add: word_and_low_64)
  then have b1: "?bar AND 1 = 0" by (simp add: bit0_of_7[OF b7])
  let ?d2 = "mm_wr ops r (NOT 0) (mm_wr ops (r + 4) (NOT 0) d)"
  let ?d4 = "mm_wr ops r (ucast ?bar) (mm_wr ops (r + 4) (ucast (drop_bit 32 ?bar)) ?d2)"
  let ?size = "(ucast (mm_rd ops r ?d2) AND NOT 15) OR push_bit 32 (ucast (mm_rd ops (r + 4) ?d2 AND NOT 15)) :: u64"
  have s: "mm_rd ops r ?d2 = NOT (mask k) OR f" "mm_rd ops (r + 4) ?d2 AND NOT 15 = NOT 15" by (simp_all add: w)
  have "NOT ?size + 1 = 2 ^ k + 15 * 2 ^ 32" "?size \<noteq> 0"
    unfolding s using bar_answer_64 k assms(7) by blast+
  then have "get_bar_size ops h index d = (Some (2 ^ k + 15 * 2 ^ 32), ?d4)"
    unfolding get_bar_size_def p using i a7 b7 b1 by (simp add: Let_def not_le)
  moreover have "mm_rd ops r ?d4 = mm_rd ops r d"
    unfolding w(1) low_half unfolding assms(8) by (rule masked_again)
  moreover have "mm_rd ops (r + 4) ?d4 = mm_rd ops (r + 4) d"
    unfolding w(3) w(2) by (rule high_half)
  ultimately show ?thesis by blast
qed

section \<open>Interrupts\<close>

lemma mod4_zero_add: "(a :: u64) mod 4 = 0 \<Longrightarrow> (a + of_nat i) mod 4 = 0 \<longleftrightarrow> i mod 4 = 0"
proof -
  assume "a mod 4 = 0"
  then have "unat a mod 4 = 0" by (simp add: word_cong_unat mod4_unat)
  then have "(unat a + i) mod 4 = i mod 4" using mod_add_left_eq[of "unat a" 4 i] by simp
  then show ?thesis using mod4_add[of a i] by (simp add: word_cong_unat mod4_unat)
qed

lemma write_unaligned:
  assumes "a mod 4 \<noteq> 0"
  shows "write_configuration_space ops a (le_bytes (Suc n) w) d = Stop Undef"
proof -
  have "le_bytes (Suc n) w \<noteq> []" by (metis length_le_bytes list.size(3) nat.distinct(1))
  then show ?thesis using assms by (simp add: write_configuration_space_def)
qed

lemma write_aligned_or_undef:
  "a mod 4 = 0 \<and> write_configuration_space ops a bs d = Ret (write_words ops a bs d) \<or>
   a mod 4 \<noteq> 0 \<and> (bs = [] \<or> write_configuration_space ops a bs d = Stop Undef)"
  by (simp add: write_configuration_space_def)

lemma unaligned_sequence:
  "bindr (write_configuration_space ops (a + 4) (le_bytes 8 x) d) (\<lambda>d1.
   bindr (write_configuration_space ops (a + 0xC) (le_bytes 2 y) d1) (\<lambda>d2.
   bindr (write_configuration_space ops (a + 2) (le_bytes 2 z) d2) (\<lambda>d3. Ret (True, d3)))) = Stop Undef"
proof (cases "a mod 4 = 0")
  case True
  then have "(a + 2) mod 4 \<noteq> 0" "(a + 4) mod 4 = 0" "(a + 0xC) mod 4 = 0"
    using mod4_zero_add[of a 2] mod4_zero_add[of a 4] mod4_zero_add[of a 12] by simp_all
  moreover from this have "write_configuration_space ops (a + 2) (le_bytes 2 z) d = Stop Undef" for d
    using write_unaligned[of "a + 2" ops 1 z] by (simp add: numeral_2_eq_2)
  ultimately show ?thesis by (simp add: write_configuration_space_def)
next
  case False
  have "unat ((a + of_nat 4) mod 4) = unat (a mod 4)" unfolding mod4_add by (simp add: mod4_unat)
  then have "(a + 4) mod 4 \<noteq> 0" using False by (simp add: word_cong_unat)
  then have "write_configuration_space ops (a + 4) (le_bytes 8 x) d = Stop Undef"
    using write_unaligned[of "a + 4" ops 7 x] by simp
  then show ?thesis by simp
qed

text \<open>C37. A message signalled interrupt is never set up: \<open>setup_msi\<close> walks the capabilities for ever, reports
  failure and changes nothing, or reaches an unaligned write of the configuration space, which is
  undefined; it never returns \<open>true\<close>.\<close>

theorem setup_msi_never_succeeds:
  "setup_msi ops h v d \<in> {None, Some (Ret (False, d)), Some (Stop Undef)}"
  unfolding setup_msi_def Let_def unaligned_sequence by (simp split: option.split)

section \<open>Witnesses\<close>

definition demo_header :: device_header where
  "demo_header = \<lparr>dh_device = \<lparr>header = parse_header (replicate 16 0), address = 0x1000, bus = 0, device = 0, funct = 0\<rparr>,
     dh_bars = replicate 6 0, capabilities_pointer = 0, interrupt_line = 0, interrupt_pin = 0\<rparr>"

text \<open>A device with a page-sized memory register, and one with a 64-bit register.\<close>

definition demo_pci :: "(u64 \<Rightarrow> u32) mmio" where
  "demo_pci = registers (\<lambda>a. NOT (mask 12)) (\<lambda>a. 8)"

definition demo_pci_64 :: "(u64 \<Rightarrow> u32) mmio" where
  "demo_pci_64 = registers (\<lambda>a. if a = 0x1010 then NOT (mask 14) else NOT 0) (\<lambda>a. if a = 0x1010 then 4 else 0)"

lemma get_bar_size_32_witness:
  "\<exists>d'. get_bar_size demo_pci demo_header 1 (\<lambda>_. 0xFEB00008) = (Some (2 ^ 12), d') \<and>
     mm_rd demo_pci 0x1014 d' = mm_rd demo_pci 0x1014 (\<lambda>_. 0xFEB00008)"
proof (rule get_bar_size_32)
  show "mm_rd demo_pci 0x1014 (\<lambda>_. 0xFEB00008) = (0xFEB00000 AND NOT (mask 12)) OR 8"
    unfolding demo_pci_def registers_simps by code_simp
  show "masked_register demo_pci 0x1014 (NOT (mask 12)) 8"
    unfolding demo_pci_def by (rule registers_masked)
qed (simp_all add: demo_header_def)

lemma get_bar_size_64_wrong_witness:
  "\<exists>d'. get_bar_size demo_pci_64 demo_header 0 (\<lambda>a. if a = 0x1010 then 0xFEB00004 else 0) = (Some (2 ^ 14 + 15 * 2 ^ 32), d') \<and>
     mm_rd demo_pci_64 0x1010 d' = mm_rd demo_pci_64 0x1010 (\<lambda>a. if a = 0x1010 then 0xFEB00004 else 0) \<and>
     mm_rd demo_pci_64 (0x1010 + 4) d' = mm_rd demo_pci_64 (0x1010 + 4) (\<lambda>a. if a = 0x1010 then 0xFEB00004 else 0)"
proof (rule get_bar_size_64_wrong)
  show "mm_rd demo_pci_64 0x1010 (\<lambda>a. if a = 0x1010 then 0xFEB00004 else 0) = (0xFEB00000 AND NOT (mask 14)) OR 4"
    unfolding demo_pci_64_def registers_simps by code_simp
  show "masked_register demo_pci_64 0x1010 (NOT (mask 14)) 4" "masked_register demo_pci_64 (0x1010 + 4) (NOT 0) 0"
    unfolding demo_pci_64_def masked_register_def by simp_all
  show "separate demo_pci_64 0x1010 (0x1010 + 4)" "separate demo_pci_64 (0x1010 + 4) 0x1010"
    unfolding demo_pci_64_def by (rule registers_separate, simp)+
qed (simp_all add: demo_header_def)

text \<open>A configuration space whose bytes are all 6: a device of class 6, subclass 6 at every place.\<close>

definition demo_group :: pci_group where
  "demo_group = \<lparr>base = 0, segment_number = 0, start_number = 0, end_number = 255\<rparr>"

lemma demo_config_byte: "config_byte demo_pci (\<lambda>_. 0x06060606) a = 6"
proof -
  have "unat (a mod 4) < 4" by (simp add: mod4_unat)
  then have "unat (a mod 4) = 0 \<or> unat (a mod 4) = 1 \<or> unat (a mod 4) = 2 \<or> unat (a mod 4) = 3" by linarith
  moreover have "le_bytes 4 (0x06060606 :: u32) = [6, 6, 6, 6]" by code_simp
  ultimately show ?thesis by (auto simp: config_byte_def demo_pci_def)
qed

lemma demo_read: "read_configuration_space demo_pci a n (\<lambda>_. 0x06060606) = replicate n 6"
  unfolding read_space_bytes demo_config_byte by (simp add: map_replicate_const)

lemma demo_device_header: "header (read_device demo_pci demo_group b dv fn (\<lambda>_. 0x06060606)) = parse_header (replicate 16 6)"
  unfolding read_device_def Let_def demo_read by simp

lemma demo_header_fields:
  "subclass_code (parse_header (replicate 16 6)) = 6" "vendor_id (parse_header (replicate 16 6)) = 0x0606"
  by code_simp+

lemma check_all_enumerates_witness:
  "\<exists>ds. check_all demo_pci demo_group (\<lambda>_. 0x06060606) [] = Some ds \<and> read_device demo_pci demo_group 0 0 0 (\<lambda>_. 0x06060606) \<in> set ds"
proof -
  have a: "buses_ascend demo_pci demo_group (\<lambda>_. 0x06060606)"
    by (simp add: buses_ascend_def is_bridge_def demo_device_header demo_header_fields)
  have h: "read_header_type demo_pci demo_group 0 0 0 (\<lambda>_. 0x06060606) AND 0x80 = 0"
    unfolding read_header_type_def demo_read by code_simp
  obtain ds where ds: "check_all demo_pci demo_group (\<lambda>_. 0x06060606) [] = Some ([] @ ds)"
    "\<forall>i < 32. vendor_id (header (read_device demo_pci demo_group 0 (of_nat i) 0 (\<lambda>_. 0x06060606))) \<noteq> 0xFFFF \<longrightarrow>
       read_device demo_pci demo_group 0 (of_nat i) 0 (\<lambda>_. 0x06060606) \<in> set ds"
    using check_all_enumerates[OF a disjI1[OF h], of "[]"] by blast
  have "read_device demo_pci demo_group 0 (of_nat 0) 0 (\<lambda>_. 0x06060606) \<in> set ds"
    using ds(2)[rule_format, of 0] by (simp add: demo_device_header demo_header_fields)
  then show ?thesis using ds(1) by simp
qed

end
