(* ===== verification/AddressSpace.thy ===== *)
theory AddressSpace
  imports Paging
begin

text \<open>
  What the users of \<open>PageTable::get\<close> rely on: translation works by pages.  The interface is stated for any
  translation and proved of the four-level tables, huge pages and the temporary mapping included.  Buffers
  that a driver hands to a device, and copies through virtual addresses, are stated over it.
\<close>

section \<open>Offsets within a page\<close>

lemma unat_va_offset: "unat (va_offset v) = unat v mod 4096"
  by (simp add: va_offset_def unat_fld)

lemma unat_add_in_page:
  assumes "unat (va_offset v) + n < 4096"
  shows "unat (v + of_nat n) = unat v + n"
proof -
  have v: "unat v = 4096 * (unat v div 4096) + unat (va_offset v)" unfolding unat_va_offset by simp
  have "unat v div 4096 < 2 ^ 52" using unat_u64[of v] by (simp add: less_mult_imp_div_less)
  then have "4096 * (unat v div 4096) + 4096 \<le> 2 ^ 64" by simp
  then have "unat v + n < 2 ^ 64" using v assms by linarith
  moreover have "unat (of_nat n :: u64) = n" using assms by (intro unat_of_nat_u64) simp
  ultimately show ?thesis by (simp add: unat_add_u64)
qed

lemma fld_in_page:
  assumes "unat (va_offset v) + n < 4096" "12 \<le> lo"
  shows "fld lo k (v + of_nat n) = fld lo k v"
proof -
  have "4096 * (unat v div 4096) \<le> unat v + n" "unat v + n < 4096 * (unat v div 4096) + 4096"
    using assms(1) mult_div_mod_eq[of 4096 "unat v"] unfolding unat_va_offset by linarith+
  then have "(unat v + n) div 4096 = unat v div 4096" by (intro div_nat_eqI) simp_all
  then have "(unat v + n) div 2 ^ 12 = unat v div 2 ^ 12" by simp
  moreover have "(2 :: nat) ^ lo = 2 ^ 12 * 2 ^ (lo - 12)" using assms(2) by (simp only: power_add[symmetric] le_add_diff_inverse)
  ultimately have "(unat v + n) div 2 ^ lo = unat v div 2 ^ lo" by (simp add: div_mult2_eq)
  then show ?thesis unfolding word_cong_unat unat_fld unat_add_in_page[OF assms(1)] by simp
qed

lemma va_offset_add:
  assumes "unat (va_offset v) + n < 4096"
  shows "va_offset (v + of_nat n) = va_offset v + of_nat n"
proof -
  have "unat (va_offset (v + of_nat n)) = unat (va_offset v) + n"
    unfolding unat_va_offset[of "v + of_nat n"] unat_add_in_page[OF assms]
    using assms unfolding unat_va_offset by (metis mod_add_left_eq mod_less)
  moreover have "unat (va_offset v + of_nat n) = unat (va_offset v) + n"
    using assms by (subst unat_add_u64) (simp_all add: unat_of_nat_u64)
  ultimately show ?thesis by (simp add: word_cong_unat)
qed

lemma va_offset_mult_page: "va_offset (a + 4096 * k) = va_offset a"
proof -
  have "unat (a + 4096 * k) mod 4096 = (unat a + 4096 * unat k) mod 2 ^ 64 mod 4096"
    by (simp add: unat_word_ariths mod_simps)
  also have "\<dots> = unat a mod 4096" by (subst mod_mod_cancel) simp_all
  finally show ?thesis unfolding word_cong_unat unat_va_offset .
qed

section \<open>The interface\<close>

locale address_space =
  fixes get :: "u64 \<Rightarrow> u64 option"
  assumes same_page: "get v = Some a \<Longrightarrow> unat (va_offset v) + n < 4096 \<Longrightarrow> get (v + of_nat n) = Some (a + of_nat n)"
    and same_offset: "get v = Some a \<Longrightarrow> va_offset a = va_offset v"

text \<open>The physical addresses of the bytes of a buffer, if all of it is mapped.\<close>

definition phys_bytes :: "(u64 \<Rightarrow> u64 option) \<Rightarrow> u64 \<Rightarrow> nat \<Rightarrow> u64 list option" where
  "phys_bytes get v n = those (map (\<lambda>i. get (v + of_nat i)) [0..<n])"

lemma those_append: "those (xs @ ys) = Option.bind (those xs) (\<lambda>a. map_option ((@) a) (those ys))"
proof (induction xs)
  case Nil
  show ?case by (cases "those ys") simp_all
next
  case (Cons x xs)
  then show ?case by (cases x; cases "those xs"; cases "those ys") simp_all
qed

lemma phys_bytes_0 [simp]: "phys_bytes get v 0 = Some []"
  by (simp add: phys_bytes_def)

lemma phys_bytes_add:
  "phys_bytes get v (m + n) = Option.bind (phys_bytes get v m) (\<lambda>a. map_option ((@) a) (phys_bytes get (v + of_nat m) n))"
proof -
  have "map (\<lambda>i. get (v + of_nat i)) [m..<m + n] = map (\<lambda>i. get (v + of_nat m + of_nat i)) [0..<n]"
    by (rule nth_equalityI) (simp_all add: add.assoc)
  moreover have "[0..<m + n] = [0..<m] @ [m..<m + n]" by (rule upt_add_eq_append) simp
  ultimately show ?thesis by (simp add: phys_bytes_def those_append)
qed

lemma those_None: "those xs = None \<longleftrightarrow> None \<in> set xs"
  by (induction xs) (auto split: option.splits)

lemma those_Some: "those xs = Some ys \<longleftrightarrow> xs = map Some ys"
  by (induction xs arbitrary: ys) (auto split: option.splits simp: Cons_eq_map_conv)

context address_space
begin

lemma phys_bytes_page:
  assumes "get v = Some a" "unat (va_offset v) + n \<le> 4096"
  shows "phys_bytes get v n = Some (map (\<lambda>i. a + of_nat i) [0..<n])"
  using same_page[OF assms(1)] assms(2) by (auto simp: phys_bytes_def those_Some)

end

section \<open>The page tables provide it\<close>

lemma offsets_in_page:
  assumes "unat (va_offset v) + n < 4096"
  shows "l1_offset (v + of_nat n) = l1_offset v" "l2_offset (v + of_nat n) = l2_offset v"
    "l3_offset (v + of_nat n) = l3_offset v" "l4_offset (v + of_nat n) = l4_offset v"
  using assms by (simp_all add: l1_offset_def l2_offset_def l3_offset_def l4_offset_def fld_in_page)

lemma window_in_page:
  assumes "unat (va_offset v) + n < 4096" "v \<ge> Ti 64" "v < Ti 96"
  shows "v + of_nat n \<ge> Ti 64 \<and> v + of_nat n < Ti 96"
proof -
  note u = unat_add_in_page[OF assms(1)]
  have w: "unat (Ti 64) = 4096 * 0x400000000" "unat (Ti 96) = 4096 * 0x600000000" by (simp_all add: Ti_values)
  have "unat v < 4096 * 0x600000000" using assms(3) w by (simp add: unat_less_iff)
  then have "unat v div 4096 < 0x600000000" by (simp add: less_mult_imp_div_less mult.commute)
  moreover have "unat v + n < 4096 * (unat v div 4096) + 4096"
    using assms(1) mult_div_mod_eq[of 4096 "unat v"] unfolding unat_va_offset by linarith
  ultimately have "unat v + n < 4096 * 0x600000000" by linarith
  then show ?thesis using u w assms(2) by (simp add: unat_less_iff unat_le_iff)
qed

lemma window_in_page_iff:
  assumes "unat (va_offset v) + n < 4096"
  shows "(v + of_nat n \<ge> Ti 64 \<and> v + of_nat n < Ti 96) \<longleftrightarrow> (v \<ge> Ti 64 \<and> v < Ti 96)"
proof -
  note u = unat_add_in_page[OF assms]
  have w: "unat (Ti 64) = 4096 * 0x400000000" "unat (Ti 96) = 4096 * 0x600000000" by (simp_all add: Ti_values)
  have "v \<ge> Ti 64" if "v + of_nat n \<ge> Ti 64"
  proof (rule ccontr)
    assume "\<not> v \<ge> Ti 64"
    then have "unat v div 4096 < 0x400000000" using w by (simp add: unat_le_iff less_mult_imp_div_less mult.commute)
    moreover have "unat v + n < 4096 * (unat v div 4096) + 4096"
      using assms mult_div_mod_eq[of 4096 "unat v"] unfolding unat_va_offset by linarith
    ultimately have "unat v + n < 4096 * 0x400000000" by linarith
    then show False using that u w by (simp add: unat_le_iff)
  qed
  moreover have "v < Ti 96" if "v + of_nat n < Ti 96" using that u by (simp add: unat_less_iff)
  ultimately show ?thesis using window_in_page[OF assms] by blast
qed

lemma pt_get_same_page:
  assumes "pt_get s v = Some a" "unat (va_offset v) + n < 4096"
  shows "pt_get s (v + of_nat n) = Some (a + of_nat n)"
proof (cases "v \<ge> Ti 64 \<and> v < Ti 96")
  case True
  then show ?thesis using assms(1) window_in_page[OF assms(2)] by (auto simp: pt_get_def)
next
  case False
  then show ?thesis using assms(1)
    unfolding pt_get_def window_in_page_iff[OF assms(2)] offsets_in_page[OF assms(2)] va_offset_add[OF assms(2)]
    by (auto simp: opt_map_def algebra_simps split: option.splits if_splits)
qed

lemma va_offset_idem: "va_offset (va_offset v) = va_offset v"
  by (simp add: va_offset_def fld_def)

lemma va_offset_frame: "va_offset (push_bit 12 e + x) = va_offset x"
  using va_offset_mult_page[of x e] by (simp add: push_bit_eq_mult add.commute mult.commute)

lemma pt_get_same_offset:
  assumes "pt_get s v = Some a"
  shows "va_offset a = va_offset v"
proof (cases "v \<ge> Ti 64 \<and> v < Ti 96")
  case True
  then have "a = v + 4096 * (- 0x400000000)" using assms by (auto simp: pt_get_def Ti_values)
  then show ?thesis by (simp only: va_offset_mult_page)
next
  case False
  have "va_offset (entry_address e + va_offset v + l1 * Ki 4 + l2 * Mi 2) = va_offset v" for e l1 l2
  proof -
    have "entry_address e + va_offset v + l1 * Ki 4 + l2 * Mi 2 = (entry_address e + va_offset v) + 4096 * (l1 + l2 * 512)"
      by (simp add: Ki_def Mi_def algebra_simps)
    then show ?thesis by (simp only: va_offset_mult_page entry_address_def va_offset_frame va_offset_idem)
  qed
  from this[of _ _ 0] this this[of _ 0 0] show ?thesis using assms False
    by (auto simp: pt_get_def opt_map_def split: option.splits if_splits)
qed

interpretation pt: address_space "pt_get s" for s :: "'p pt_state"
  by unfold_locales (erule (1) pt_get_same_page, erule pt_get_same_offset)

end
