(* ===== verification/Sata.thy ===== *)
theory Sata
  imports Pci Interrupt AddressSpace
begin

text \<open>
  \<^verbatim>\<open>include/PCI/sata.h\<close> and \<^verbatim>\<open>src/high/PCI/sata.cpp\<close>: the AHCI driver.  A port keeps 32 command slots,
  each a command header and a command table with the command's register FIS and a list of memory regions.
  The controller is a parameter: its registers, and what it does (to the registers and to memory) while the
  processor pauses.  It runs at the pauses of the wait loops only.  Buffers are virtual; \<open>get\<close> stands for
  \<open>PageTable::get\<close> on the current page tables, and is \<open>pt_get\<close> in the kernel.  The lock of a port is held
  around the operations and is not part of the state.
\<close>

section \<open>Data\<close>

datatype sata_error = SUCCESS | NO_DEVICE | INVALID_ALIGNMENT | OUT_OF_BOUNDS | FRAGMENTED_MEMORY
  | NOT_SUPPORTED | INVALID_MEMORY | NO_RESOURCES | UNKNOWN_ERROR

fun sata_error_code :: "sata_error \<Rightarrow> u32" where
  "sata_error_code SUCCESS = 0"
| "sata_error_code NO_DEVICE = 1"
| "sata_error_code INVALID_ALIGNMENT = 2"
| "sata_error_code OUT_OF_BOUNDS = 3"
| "sata_error_code FRAGMENTED_MEMORY = 4"
| "sata_error_code NOT_SUPPORTED = 5"
| "sata_error_code INVALID_MEMORY = 6"
| "sata_error_code NO_RESOURCES = 7"
| "sata_error_code UNKNOWN_ERROR = 8"

fun sata_error_to_string :: "sata_error \<Rightarrow> string" where
  "sata_error_to_string SUCCESS = ''SUCCESS''"
| "sata_error_to_string FRAGMENTED_MEMORY = ''FRAGMENTED_MEMORY''"
| "sata_error_to_string NO_DEVICE = ''NO_DEVICE''"
| "sata_error_to_string INVALID_ALIGNMENT = ''INVALID_ALIGNMENT''"
| "sata_error_to_string OUT_OF_BOUNDS = ''OUT_OF_BOUNDS''"
| "sata_error_to_string NOT_SUPPORTED = ''NOT_SUPPORTED''"
| "sata_error_to_string INVALID_MEMORY = ''INVALID_MEMORY''"
| "sata_error_to_string NO_RESOURCES = ''NO_RESOURCES''"
| "sata_error_to_string UNKNOWN_ERROR = ''UNKNOWN_ERROR''"

text \<open>The register FIS of a command; the reserved bytes are left out of the record and are zero.\<close>

record h2d_register_fis =
  fis_type :: u8
  fis_pmport :: u8
  fis_is_command :: u8
  fis_command :: u8
  fis_featurel :: u8
  fis_lba0 :: u8
  fis_lba1 :: u8
  fis_lba2 :: u8
  fis_device :: u8
  fis_lba3 :: u8
  fis_lba4 :: u8
  fis_lba5 :: u8
  fis_featureh :: u8
  fis_count :: u16
  fis_icc :: u8
  fis_control :: u8

definition zero_fis :: h2d_register_fis where
  "zero_fis = \<lparr>fis_type = 0, fis_pmport = 0, fis_is_command = 0, fis_command = 0, fis_featurel = 0,
     fis_lba0 = 0, fis_lba1 = 0, fis_lba2 = 0, fis_device = 0, fis_lba3 = 0, fis_lba4 = 0, fis_lba5 = 0,
     fis_featureh = 0, fis_count = 0, fis_icc = 0, fis_control = 0\<rparr>"

text \<open>Its 20 bytes in memory.\<close>

definition fis_bytes :: "h2d_register_fis \<Rightarrow> u8 list" where
  "fis_bytes f =
     [fis_type f, set_fld 7 1 (fis_is_command f) (set_fld 0 4 (fis_pmport f) 0), fis_command f, fis_featurel f,
      fis_lba0 f, fis_lba1 f, fis_lba2 f, fis_device f, fis_lba3 f, fis_lba4 f, fis_lba5 f, fis_featureh f]
     @ le_bytes 2 (fis_count f) @ [fis_icc f, fis_control f, 0, 0, 0, 0]"

record command_header =
  command_fis_length :: u8
  header_atapi :: u8
  direction :: u8
  port_multiplier :: u8
  prdt_entry_count :: u16
  prd_byte_count :: u32
  command_table_base_low :: u32
  command_table_base_high :: u32

record physical_region_descriptor =
  physical_base_address :: u64
  byte_count :: u32
  interrupt_on_completion :: u32

record command_table =
  command_fis :: h2d_register_fis
  prdt :: "physical_region_descriptor list"

definition page_count_per_port :: u64 where "page_count_per_port = 4"

text \<open>The number of regions of a command: what a 32nd of three pages leaves after the first 128 bytes, 16 bytes each.\<close>

definition prdt_max :: u64 where
  "prdt_max = ((page_count_per_port - 1) * page_size div 32 - 0x80) div 16"

lemma prdt_max_16: "prdt_max = 16"
  by (simp add: prdt_max_def page_count_per_port_def page_size_def)

record 'd port =
  has_device :: bool
  is_atapi :: bool
  sector_count :: u64
  sector_size :: u64
  queue_capable :: bool
  running :: bool
  scheduled_slots :: u32
  port_mmio :: u64
  command_list :: "command_header list"
  command_tables :: "command_table list"
  port_dev :: 'd
  port_mem :: bytes

text \<open>The controller: its registers, and its progress during one pause.\<close>

record 'd ahci =
  ahci_regs :: "'d mmio"
  ahci_run :: "command_header list \<Rightarrow> command_table list \<Rightarrow> 'd \<times> bytes \<Rightarrow> 'd \<times> bytes"

definition port_reg :: "'d ahci \<Rightarrow> u64 \<Rightarrow> 'd port \<Rightarrow> u32" where
  "port_reg ah off p = mm_rd (ahci_regs ah) (port_mmio p + off) (port_dev p)"

definition set_port_reg :: "'d ahci \<Rightarrow> u64 \<Rightarrow> u32 \<Rightarrow> 'd port \<Rightarrow> 'd port" where
  "set_port_reg ah off v p = p\<lparr>port_dev := mm_wr (ahci_regs ah) (port_mmio p + off) v (port_dev p)\<rparr>"

definition pause :: "'d ahci \<Rightarrow> 'd port \<Rightarrow> 'd port" where
  "pause ah p =
     (let (d, m) = ahci_run ah (command_list p) (command_tables p) (port_dev p, port_mem p)
      in p\<lparr>port_dev := d, port_mem := m\<rparr>)"

section \<open>Slots\<close>

definition find_free_slot :: "'d ahci \<Rightarrow> 'd port \<Rightarrow> u8 option" where
  "find_free_slot ah p =
     map_option of_nat (find (\<lambda>i. port_reg ah 0x38 p AND push_bit i 1 = 0 \<and> scheduled_slots p AND push_bit i 1 = 0) [0..<32])"

definition issue_slot :: "'d ahci \<Rightarrow> u8 \<Rightarrow> 'd port \<Rightarrow> 'd port" where
  "issue_slot ah slot p =
     (let b = push_bit (unat slot) 1;
          p1 = set_port_reg ah 0x38 (port_reg ah 0x38 p OR b) p
      in p1\<lparr>scheduled_slots := scheduled_slots p1 OR b\<rparr>)"

definition test_done :: "'d ahci \<Rightarrow> u8 \<Rightarrow> 'd port \<Rightarrow> (sata_error + bool) \<times> 'd port" where
  "test_done ah slot p =
     (if port_reg ah 0x30 p \<noteq> 0 then (Inl UNKNOWN_ERROR, p)
      else if port_reg ah 0x30 p AND 1 \<noteq> 0 then (Inl UNKNOWN_ERROR, p)
      else if port_reg ah 0x38 p AND push_bit (unat slot) 1 = 0
      then (Inr True, p\<lparr>scheduled_slots := scheduled_slots p AND NOT (push_bit (unat slot) 1)\<rparr>)
      else (Inr False, p))"

partial_function (option) wait_for :: "'d ahci \<Rightarrow> u8 \<Rightarrow> 'd port \<Rightarrow> (bool \<times> 'd port) option" where
  "wait_for ah slot p =
     (case test_done ah slot p of
        (Inl e, p1) \<Rightarrow> Some (False, p1)
      | (Inr d, p1) \<Rightarrow> if d then Some (True, p1) else wait_for ah slot (pause ah p1))"

partial_function (option) wait_all :: "'d ahci \<Rightarrow> 'd port \<Rightarrow> (bool \<times> 'd port) option" where
  "wait_all ah p =
     (if port_reg ah 0x30 p \<noteq> 0 then Some (False, p)
      else if port_reg ah 0x30 p AND 1 \<noteq> 0 then Some (False, p)
      else if port_reg ah 0x38 p = 0 then Some (True, p\<lparr>scheduled_slots := 0\<rparr>)
      else wait_all ah (pause ah p))"

section \<open>Commands\<close>

text \<open>The number of sectors that hold \<open>size\<close> bytes, as computed (and wrapping) in 64 bits.\<close>

definition sectors_for :: "'d port \<Rightarrow> u64 \<Rightarrow> u64" where
  "sectors_for p size' = (size' + sector_size p - 1) div sector_size p"

definition check_command_valid :: "u64 \<Rightarrow> u64 \<Rightarrow> u64 \<Rightarrow> 'd port \<Rightarrow> sata_error option" where
  "check_command_valid lba size' buffer p =
     (let count' = sectors_for p size'
      in if buffer AND 1 \<noteq> 0 then Some INVALID_ALIGNMENT
         else if \<not> has_device p then Some NO_DEVICE
         else if is_atapi p then Some NOT_SUPPORTED
         else if lba + count' > sector_count p then Some OUT_OF_BOUNDS
         else if count' \<ge> push_bit 16 1 then Some NOT_SUPPORTED
         else if count' = 0 then Some SUCCESS
         else None)"

definition h2d_fis :: "u8 \<Rightarrow> u64 \<Rightarrow> u16 \<Rightarrow> u8 \<Rightarrow> h2d_register_fis" where
  "h2d_fis cmd lba count' dev =
     zero_fis\<lparr>fis_type := 0x27, fis_command := cmd, fis_device := dev, fis_is_command := 1,
       fis_lba0 := ucast (lba AND 0xFF), fis_lba1 := ucast (drop_bit 8 lba AND 0xFF),
       fis_lba2 := ucast (drop_bit 16 lba AND 0xFF), fis_lba3 := ucast (drop_bit 24 lba AND 0xFF),
       fis_lba4 := ucast (drop_bit 32 lba AND 0xFF), fis_lba5 := ucast (drop_bit 40 lba AND 0xFF),
       fis_count := count'\<rparr>"

definition upd_table :: "nat \<Rightarrow> (command_table \<Rightarrow> command_table) \<Rightarrow> 'd port \<Rightarrow> 'd port" where
  "upd_table i f p = p\<lparr>command_tables := (command_tables p)[i := f (command_tables p ! i)]\<rparr>"

definition upd_header :: "nat \<Rightarrow> (command_header \<Rightarrow> command_header) \<Rightarrow> 'd port \<Rightarrow> 'd port" where
  "upd_header i f p = p\<lparr>command_list := (command_list p)[i := f (command_list p ! i)]\<rparr>"

definition setup_h2d :: "u8 \<Rightarrow> u8 \<Rightarrow> u64 \<Rightarrow> u16 \<Rightarrow> u8 \<Rightarrow> 'd port \<Rightarrow> 'd port" where
  "setup_h2d slot cmd lba count' dev p =
     upd_table (unat slot) (\<lambda>t. t\<lparr>command_fis := h2d_fis cmd lba count' dev\<rparr>) p"

text \<open>
  One round of \<open>setup_physical_region\<close>: \<open>lastp\<close> is the address of the previous round, \<open>ri\<close> the index of the last
  region, -1 before the first.  Either the last region grows or a new one is opened, if there is room.
\<close>

definition region_step :: "u64 \<Rightarrow> u64 \<Rightarrow> u64 option \<Rightarrow> int \<Rightarrow> physical_region_descriptor list
    \<Rightarrow> (int \<times> physical_region_descriptor list) option" where
  "region_step a sub lastp ri arr =
     (if (case lastp of None \<Rightarrow> False | Some l \<Rightarrow> l + page_size = a) \<and> ri \<ge> 0 \<and>
         ucast (byte_count (arr ! nat ri)) + page_size < (push_bit 22 1 :: u64)
      then Some (ri, arr[nat ri := (arr ! nat ri)\<lparr>byte_count := take_bit 22 (byte_count (arr ! nat ri) + ucast sub)\<rparr>])
      else if ri + 1 \<ge> uint prdt_max then None
      else Some (ri + 1, arr[nat (ri + 1) := \<lparr>physical_base_address = a,
             byte_count = take_bit 22 (ucast (sub - 1)), interrupt_on_completion = 0\<rparr>]))"

definition sub_size :: "u64 \<Rightarrow> u64 \<Rightarrow> u64 \<Rightarrow> u64" where
  "sub_size buffer size' offset =
     min2 page_size (min2 (size' - offset) (page_size - va_offset (buffer + offset)))"

lemma unat_sub_size:
  assumes "offset < size'"
  shows "unat (sub_size buffer size' offset) =
    min 4096 (min (unat size' - unat offset) (4096 - unat (va_offset (buffer + offset))))"
proof -
  let ?o = "va_offset (buffer + offset)"
  have p: "unat page_size = 4096" by (simp add: page_size_def)
  have "?o \<le> page_size" using l_offset_less(5)[of "buffer + offset"] p by (simp add: unat_le_iff)
  then have "unat (page_size - ?o) = 4096 - unat ?o" using p by (simp add: unat_diff_u64)
  moreover have "unat (size' - offset) = unat size' - unat offset" using assms by (simp add: unat_diff_u64)
  ultimately show ?thesis unfolding sub_size_def min2_min using p by (simp add: min_def unat_le_iff)
qed

lemma sub_size_bounds:
  assumes "offset < size'"
  shows "0 < unat (sub_size buffer size' offset)"
    "unat (sub_size buffer size' offset) \<le> unat size' - unat offset"
    "unat (va_offset (buffer + offset)) + unat (sub_size buffer size' offset) \<le> 4096"
  unfolding unat_sub_size[OF assms] using assms l_offset_less(5)[of "buffer + offset"] by (auto simp: unat_less_iff)

function region_loop :: "(u64 \<Rightarrow> u64 option) \<Rightarrow> u64 \<Rightarrow> u64 \<Rightarrow> u64 \<Rightarrow> u64 option \<Rightarrow> int
    \<Rightarrow> physical_region_descriptor list \<Rightarrow> (sata_error + u64) \<times> physical_region_descriptor list" where
  "region_loop get buffer size' offset lastp ri arr =
     (if offset < size' then
        case get (buffer + offset) of
          None \<Rightarrow> (Inl INVALID_MEMORY, arr)
        | Some a \<Rightarrow>
            (case region_step a (sub_size buffer size' offset) lastp ri arr of
               None \<Rightarrow> (Inl FRAGMENTED_MEMORY, arr)
             | Some (ri', arr') \<Rightarrow>
                 region_loop get buffer size' (offset + sub_size buffer size' offset) (Some a) ri' arr')
      else (Inr (of_int (ri + 1)), arr))"
  by pat_completeness auto
termination
proof (relation "measure (\<lambda>(get, buffer, size', offset, lastp, ri, arr). unat size' - unat offset)", goal_cases)
  case (2 get buffer size' offset lastp ri arr a x ri' arr')
  note s = sub_size_bounds[OF 2(1), of buffer]
  have "unat (offset + sub_size buffer size' offset) = unat offset + unat (sub_size buffer size' offset)"
    using s unat_u64[of size'] 2(1) by (intro unat_add_u64) (simp add: unat_less_iff)
  then show ?case using s 2(1) by (simp add: unat_less_iff)
qed simp

declare region_loop.simps [simp del]

definition setup_physical_region :: "(u64 \<Rightarrow> u64 option) \<Rightarrow> u8 \<Rightarrow> u64 \<Rightarrow> u64 \<Rightarrow> 'd port \<Rightarrow> (sata_error + u64) \<times> 'd port" where
  "setup_physical_region get slot buffer size' p =
     (let (r, arr) = region_loop get buffer size' 0 None (-1) (prdt (command_tables p ! unat slot))
      in (r, upd_table (unat slot) (\<lambda>t. t\<lparr>prdt := arr\<rparr>) p))"

text \<open>\<open>sendRead\<close> and \<open>sendWrite\<close> differ in the command and the direction bit only.\<close>

definition submit :: "(u64 \<Rightarrow> u64 option) \<Rightarrow> 'd ahci \<Rightarrow> u8 \<Rightarrow> u8 \<Rightarrow> u64 \<Rightarrow> u64 \<Rightarrow> u64 \<Rightarrow> 'd port \<Rightarrow> (sata_error + u8) \<times> 'd port" where
  "submit get ah cmd dir lba size' buffer p =
     (case find_free_slot ah p of
        None \<Rightarrow> (Inl NO_RESOURCES, p)
      | Some slot \<Rightarrow>
          (case setup_physical_region get slot buffer size'
                  (setup_h2d slot cmd lba (ucast (sectors_for p size')) (push_bit 6 1) p) of
             (Inl e, p1) \<Rightarrow> (Inl e, p1)
           | (Inr n, p1) \<Rightarrow>
               (Inr slot, issue_slot ah slot
                  (upd_header (unat slot) (\<lambda>h. h\<lparr>prdt_entry_count := ucast n, command_fis_length := 5,
                     direction := dir, port_multiplier := 0, prd_byte_count := 0\<rparr>) p1))))"

text \<open>A sector size of zero makes the first division fail.\<close>

definition send_command :: "(u64 \<Rightarrow> u64 option) \<Rightarrow> 'd ahci \<Rightarrow> u8 \<Rightarrow> u8 \<Rightarrow> u64 \<Rightarrow> u64 \<Rightarrow> u64 \<Rightarrow> 'd port
    \<Rightarrow> ((sata_error + u8) \<times> 'd port) res option" where
  "send_command get ah cmd dir lba size' buffer p =
     (if sector_size p = 0 then Some (Stop Undef)
      else
        case check_command_valid lba size' buffer p of
          Some e \<Rightarrow> Some (Ret (Inl e, p))
        | None \<Rightarrow>
            if \<not> queue_capable p then
              Option.bind (wait_all ah p) (\<lambda>(ok, p1).
                Some (Ret (if ok then submit get ah cmd dir lba size' buffer p1 else (Inl UNKNOWN_ERROR, p1))))
            else Some (Ret (submit get ah cmd dir lba size' buffer p)))"

definition send_read :: "(u64 \<Rightarrow> u64 option) \<Rightarrow> 'd ahci \<Rightarrow> u64 \<Rightarrow> u64 \<Rightarrow> u64 \<Rightarrow> 'd port \<Rightarrow> ((sata_error + u8) \<times> 'd port) res option" where
  "send_read get ah lba size' buffer p =
     send_command get ah (if queue_capable p then 0x26 else 0x25) 1 lba size' buffer p"

definition send_write :: "(u64 \<Rightarrow> u64 option) \<Rightarrow> 'd ahci \<Rightarrow> u64 \<Rightarrow> u64 \<Rightarrow> u64 \<Rightarrow> 'd port \<Rightarrow> ((sata_error + u8) \<times> 'd port) res option" where
  "send_write get ah lba size' buffer p =
     send_command get ah (if queue_capable p then 0x36 else 0x35) 0 lba size' buffer p"

text \<open>\<open>sendIdentify\<close>: slot 0, one region, the 512 bytes of the static buffer at \<open>ib\<close>; the sizes and
  the queue bit from the answer, with defaults.\<close>

definition identify_data :: "u8 list \<Rightarrow> 'd port \<Rightarrow> 'd port" where
  "identify_data bs p =
     (let n = field_u64 bs 200;
          ss = ucast (field_u32 bs 234)
      in p\<lparr>sector_count := if n = 0 then ucast (field_u32 bs 120) else n,
           sector_size := if ss = 0 then 512 else ss,
           queue_capable := bit (field_u64 bs 170) 17\<rparr>)"

definition identify_fis :: h2d_register_fis where
  "identify_fis = zero_fis\<lparr>fis_type := 0x27, fis_command := 0xEC, fis_device := 0, fis_is_command := 1\<rparr>"

definition send_identify :: "(u64 \<Rightarrow> u64 option) \<Rightarrow> 'd ahci \<Rightarrow> u64 \<Rightarrow> 'd port \<Rightarrow> 'd port res option" where
  "send_identify get ah ib p =
     (if is_atapi p then Some (Ret p)
      else case phys_bytes get ib 512 of
        None \<Rightarrow> Some (Stop Undef)
      | Some as \<Rightarrow>
          let p1 = p\<lparr>port_mem := fold (\<lambda>a m. m(a := 0)) as (port_mem p)\<rparr>;
              p2 = upd_table 0 (\<lambda>t. t\<lparr>command_fis := identify_fis\<rparr>) p1;
              p3 = upd_header 0 (\<lambda>h. h\<lparr>command_fis_length := 5, direction := 0, prdt_entry_count := 1\<rparr>) p2
          in case get ib of
               None \<Rightarrow> Some (Stop (Panic ''Failed to get physical address of buffer''))
             | Some a \<Rightarrow>
                 let p4 = upd_table 0 (\<lambda>t. t\<lparr>prdt := (prdt t)[0 := (prdt t ! 0)\<lparr>byte_count := 511,
                            physical_base_address := a, interrupt_on_completion := 1\<rparr>]\<rparr>) p3
                 in Option.bind (wait_for ah 0 (issue_slot ah 0 p4)) (\<lambda>(ok, p5).
                      if ok then Some (Ret (identify_data (map (port_mem p5) as) p5)) else Some (Ret p5)))"

section \<open>Starting and stopping\<close>

text \<open>The waits for bits of the command register; \<open>sleep\<close> is a pause.\<close>

partial_function (option) wait_clear :: "'d ahci \<Rightarrow> u64 \<Rightarrow> u32 \<Rightarrow> 'd port \<Rightarrow> 'd port option" where
  "wait_clear ah off msk p = (if port_reg ah off p AND msk \<noteq> 0 then wait_clear ah off msk (pause ah p) else Some p)"

definition update_reg :: "'d ahci \<Rightarrow> u64 \<Rightarrow> (u32 \<Rightarrow> u32) \<Rightarrow> 'd port \<Rightarrow> 'd port" where
  "update_reg ah off f p = set_port_reg ah off (f (port_reg ah off p)) p"

definition port_stop :: "'d ahci \<Rightarrow> 'd port \<Rightarrow> 'd port option" where
  "port_stop ah p =
     wait_clear ah 0x18 (push_bit 14 1 OR push_bit 15 1)
       (update_reg ah 0x18 (\<lambda>c. c AND NOT 1) (update_reg ah 0x18 (\<lambda>c. c AND NOT (push_bit 4 1)) (p\<lparr>running := False\<rparr>)))"

definition port_start :: "'d ahci \<Rightarrow> 'd port \<Rightarrow> 'd port option" where
  "port_start ah p =
     map_option (\<lambda>p1. update_reg ah 0x18 (\<lambda>c. c OR 1) (update_reg ah 0x18 (\<lambda>c. c OR push_bit 4 1) p1))
       (wait_clear ah 0x18 (push_bit 15 1) (p\<lparr>running := True\<rparr>))"

text \<open>\<open>Port::init\<close> on its four pages at the physical address \<open>a\<close>: the zeroed lists, the base addresses, the
  reset, the start, the device's state and signature.\<close>

definition zero_header :: command_header where
  "zero_header = \<lparr>command_fis_length = 0, header_atapi = 0, direction = 0, port_multiplier = 0, prdt_entry_count = 0,
     prd_byte_count = 0, command_table_base_low = 0, command_table_base_high = 0\<rparr>"

definition zero_table :: command_table where
  "zero_table = \<lparr>command_fis = zero_fis,
     prdt = replicate (unat prdt_max) \<lparr>physical_base_address = 0, byte_count = 0, interrupt_on_completion = 0\<rparr>\<rparr>"

definition table_address :: "u64 \<Rightarrow> nat \<Rightarrow> u64" where
  "table_address a i = a + page_size + of_nat i * 0x180"

definition init_lists :: "'d ahci \<Rightarrow> u64 \<Rightarrow> 'd port \<Rightarrow> 'd port" where
  "init_lists ah a p =
     (let p1 = set_port_reg ah 0x00 (ucast a) p;
          p2 = set_port_reg ah 0x04 (ucast (drop_bit 32 a)) p1;
          p3 = set_port_reg ah 0x08 (ucast (a + 1024)) p2;
          p4 = set_port_reg ah 0x0C (ucast (drop_bit 32 (a + 1024))) p3
      in p4\<lparr>command_list := map (\<lambda>i. zero_header\<lparr>command_table_base_low := ucast (table_address a i),
             command_table_base_high := ucast (drop_bit 32 (table_address a i))\<rparr>) [0..<32],
           command_tables := replicate 32 zero_table\<rparr>)"

definition read_signature :: "'d ahci \<Rightarrow> 'd port \<Rightarrow> 'd port" where
  "read_signature ah p =
     (let ssts = port_reg ah 0x28 p
      in if ssts AND 15 \<noteq> 3 then p
         else if drop_bit 8 ssts AND 15 \<noteq> 1 then p
         else
           let signature = port_reg ah 0x24 p
           in if signature = 0xEB140101 then p\<lparr>has_device := True, is_atapi := True\<rparr>
              else if signature = 0 then p
              else p\<lparr>has_device := True, is_atapi := False\<rparr>)"

definition has_connection :: "'d ahci \<Rightarrow> 'd port \<Rightarrow> bool" where
  "has_connection ah p \<longleftrightarrow> port_reg ah 0x28 p AND 15 = 3 \<and> drop_bit 8 (port_reg ah 0x28 p) AND 15 = 1"

definition port_init_at :: "(u64 \<Rightarrow> u64 option) \<Rightarrow> 'd ahci \<Rightarrow> u64 \<Rightarrow> u64 \<Rightarrow> 'd port \<Rightarrow> 'd port res option" where
  "port_init_at get ah ib a p =
     (let p1 = init_lists ah a p;
          p2 = update_reg ah 0x24 (\<lambda>c. c AND NOT 15 OR 2) p1;
          p3 = update_reg ah 0x24 (\<lambda>c. c AND NOT 15) (pause ah p2)
      in Option.bind (port_start ah p3) (\<lambda>p4.
           let p5 = set_port_reg ah 0x14 (NOT 0) (set_port_reg ah 0x10 (NOT 0) p4);
               p6 = read_signature ah p5
           in if \<not> has_connection ah p5 \<or> \<not> has_device p6 then Some (Ret p6) else send_identify get ah ib p6))"

text \<open>\<open>Port::init\<close>: \<open>palloc n\<close> is \<open>PhysicalAllocator::alloc(n)\<close>; the four pages are mapped uncached one by one.\<close>

fun map_pages :: "'p page_alloc \<Rightarrow> nat \<Rightarrow> u64 \<Rightarrow> u64 \<Rightarrow> 'p pt_state \<Rightarrow> 'p pt_state res option" where
  "map_pages alloc 0 a v s = Some (Ret s)"
| "map_pages alloc (Suc n) a v s =
     bindo (pt_map alloc a v \<lparr>writeable = True, user = False, writeThrough = False, cacheDisabled = True\<rparr> s)
       (map_pages alloc n (a + page_size) (v + page_size))"

definition port_init :: "(u64 \<Rightarrow> 'p page_alloc) \<Rightarrow> 'd ahci \<Rightarrow> u64 \<Rightarrow> 'd port \<Rightarrow> ('e, 'p) pci_state
    \<Rightarrow> ('d port \<times> ('e, 'p) pci_state) res option" where
  "port_init palloc ah ib p s =
     Option.bind (port_stop ah p) (\<lambda>p1.
     bindo (palloc page_count_per_port (pal (pci_pt s))) (\<lambda>(ppage, al).
     bindo (Some (or_panic ''Failed to allocate page for SATA'' ppage)) (\<lambda>a.
       let (v, s1) = allocate_uncached_virtual page_count_per_port (s\<lparr>pci_pt := (pci_pt s)\<lparr>pal := al\<rparr>\<rparr>)
       in bindo (map_pages (palloc 1) (unat page_count_per_port) a v (pci_pt s1)) (\<lambda>pt.
          bindo (port_init_at (pt_get pt) ah ib a p1) (\<lambda>p2. Some (Ret (p2, s1\<lparr>pci_pt := pt\<rparr>)))))))"

section \<open>The controller\<close>

record 'd hba =
  hba_mmio :: u64
  host_capabilities :: u32
  global_host_control :: u32
  ports_implemented :: u32
  host_capabilities_extended :: u32
  max_command_slot_count :: u8
  hba_dev :: 'd
  hba_mem :: bytes

definition hba_reg :: "'d ahci \<Rightarrow> u64 \<Rightarrow> 'd hba \<Rightarrow> u32" where
  "hba_reg ah off h = mm_rd (ahci_regs ah) (hba_mmio h + off) (hba_dev h)"

definition set_hba_reg :: "'d ahci \<Rightarrow> u64 \<Rightarrow> u32 \<Rightarrow> 'd hba \<Rightarrow> 'd hba" where
  "set_hba_reg ah off v h = h\<lparr>hba_dev := mm_wr (ahci_regs ah) (hba_mmio h + off) v (hba_dev h)\<rparr>"

definition hba_pause :: "'d ahci \<Rightarrow> 'd hba \<Rightarrow> 'd hba" where
  "hba_pause ah h = (let (d, m) = ahci_run ah [] [] (hba_dev h, hba_mem h) in h\<lparr>hba_dev := d, hba_mem := m\<rparr>)"

partial_function (option) hba_wait :: "'d ahci \<Rightarrow> u64 \<Rightarrow> u32 \<Rightarrow> u32 \<Rightarrow> 'd hba \<Rightarrow> 'd hba option" where
  "hba_wait ah off msk v h = (if hba_reg ah off h AND msk \<noteq> v then hba_wait ah off msk v (hba_pause ah h) else Some h)"

text \<open>The registers, and the ports that exist.\<close>

definition hba_probe :: "'d ahci \<Rightarrow> 'd hba \<Rightarrow> 'd hba" where
  "hba_probe ah h = h\<lparr>host_capabilities := hba_reg ah 0x00 h, global_host_control := hba_reg ah 0x04 h,
     ports_implemented := hba_reg ah 0x0C h, host_capabilities_extended := hba_reg ah 0x24 h\<rparr>"

definition implemented_ports :: "'d hba \<Rightarrow> nat list" where
  "implemented_ports h = filter (\<lambda>i. ports_implemented h AND push_bit i 1 \<noteq> 0) [0..<32]"

definition new_port :: "nat \<Rightarrow> 'd hba \<Rightarrow> 'd port" where
  "new_port i h = \<lparr>has_device = False, is_atapi = False, sector_count = 0, sector_size = 0, queue_capable = False,
     running = False, scheduled_slots = 0, port_mmio = hba_mmio h + 0x100 + of_nat i * 0x80,
     command_list = [], command_tables = [], port_dev = hba_dev h, port_mem = hba_mem h\<rparr>"

text \<open>The handover from the firmware and the reset.\<close>

definition hba_handoff :: "'d ahci \<Rightarrow> 'd hba \<Rightarrow> 'd hba option" where
  "hba_handoff ah h =
     (if host_capabilities_extended h AND 1 \<noteq> 0
      then hba_wait ah 0x28 3 2 (set_hba_reg ah 0x28 (hba_reg ah 0x28 h OR 2) h)
      else Some h)"

definition hba_reset :: "'d ahci \<Rightarrow> 'd hba \<Rightarrow> 'd hba option" where
  "hba_reset ah h =
     (let h1 = h\<lparr>global_host_control := global_host_control h OR 1\<rparr>
      in hba_wait ah 0x04 1 0 (set_hba_reg ah 0x04 (global_host_control h1) h1))"

definition hba_enable_interrupts :: "'d ahci \<Rightarrow> 'd hba \<Rightarrow> 'd hba" where
  "hba_enable_interrupts ah h =
     (let h1 = h\<lparr>global_host_control := hba_reg ah 0x04 h OR 2\<rparr> in set_hba_reg ah 0x04 (global_host_control h1) h1)"

text \<open>The loop over the ports: each is initialised; one with a disk is registered with its size.\<close>

fun init_ports :: "(u64 \<Rightarrow> 'p page_alloc) \<Rightarrow> 'd ahci \<Rightarrow> u64 \<Rightarrow> nat list \<Rightarrow> 'd hba \<Rightarrow> (u64 \<times> 'd port) list
    \<Rightarrow> ('e, 'p) pci_state \<Rightarrow> ('d hba \<times> (u64 \<times> 'd port) list \<times> ('e, 'p) pci_state) res option" where
  "init_ports palloc ah ib [] h devs s = Some (Ret (h, devs, s))"
| "init_ports palloc ah ib (i # is) h devs s =
     bindo (port_init palloc ah ib (new_port i h) s) (\<lambda>(p, s1).
       init_ports palloc ah ib is (h\<lparr>hba_dev := port_dev p, hba_mem := port_mem p\<rparr>)
         (if has_device p \<and> \<not> is_atapi p then devs @ [(sector_size p * sector_count p, p)] else devs) s1)"

text \<open>
  \<open>Sata::init\<close> after the MMIO range of BAR 5 is known.  The test for 64-bit addressing is never true, as written.
  \<open>handler\<close> is the driver's interrupt handler, \<open>this\<close> its pointer.  Without a message signalled interrupt the
  ports are not initialised.
\<close>

definition hba_init :: "'e mmio \<Rightarrow> (u64 \<Rightarrow> 'p page_alloc) \<Rightarrow> 'd ahci \<Rightarrow> u64 \<Rightarrow> device_header \<Rightarrow> 'h \<Rightarrow> u64 \<Rightarrow> 'd hba
    \<Rightarrow> 'h int_state \<Rightarrow> ('e, 'p) pci_state
    \<Rightarrow> (('d hba \<times> (u64 \<times> 'd port) list) \<times> 'h int_state \<times> ('e, 'p) pci_state) res option" where
  "hba_init ops palloc ah ib hdr handler this h0 ints s =
     (let h = hba_probe ah h0
      in if host_capabilities h OR push_bit 31 1 = 0 then Some (Ret ((h, []), ints, s))
         else
           let h1 = h\<lparr>max_command_slot_count := ucast (drop_bit 8 (host_capabilities h) AND 31) + 1\<rparr>
           in Option.bind (hba_handoff ah h1) (\<lambda>h2.
              Option.bind (hba_reset ah h2) (\<lambda>h3.
              bindo (Some (get_free_interrupt_number ints)) (\<lambda>n.
                let ints1 = register_handler n handler this ints
                in bindo (setup_msi ops hdr n (pci_dev s)) (\<lambda>(ok, d).
                     let s1 = s\<lparr>pci_dev := d\<rparr>
                     in if \<not> ok then Some (Ret ((h3, []), ints1, s1))
                        else bindo (init_ports palloc ah ib (implemented_ports h) (hba_enable_interrupts ah h3) [] s1)
                               (\<lambda>(h4, devs, s2). Some (Ret ((h4, devs), ints1, s2))))))))"

definition sata_init :: "'e mmio \<Rightarrow> (u64 \<Rightarrow> 'p page_alloc) \<Rightarrow> 'd ahci \<Rightarrow> u64 \<Rightarrow> device_header \<Rightarrow> 'h \<Rightarrow> u64 \<Rightarrow> 'd hba
    \<Rightarrow> 'h int_state \<Rightarrow> ('e, 'p) pci_state
    \<Rightarrow> (('d hba \<times> (u64 \<times> 'd port) list) \<times> 'h int_state \<times> ('e, 'p) pci_state) res option" where
  "sata_init ops palloc ah ib hdr handler this h0 ints s =
     bindo (get_bar ops (palloc 1) hdr 5 s) (\<lambda>(b, s1).
       case b of
         Some (Mem_bar a n) \<Rightarrow> hba_init ops palloc ah ib hdr handler this (h0\<lparr>hba_mmio := a\<rparr>) ints s1
       | _ \<Rightarrow> Some (Ret ((h0, []), ints, s1)))"

section \<open>The regions cover the buffer\<close>

definition region_bytes :: "physical_region_descriptor \<Rightarrow> u64 list" where
  "region_bytes d = map (\<lambda>i. physical_base_address d + of_nat i) [0..<Suc (unat (byte_count d))]"

definition region_end :: "physical_region_descriptor \<Rightarrow> u64" where
  "region_end d = physical_base_address d + of_nat (Suc (unat (byte_count d)))"

lemma region_bytes_extend:
  "unat c = unat (byte_count d) + m \<Longrightarrow>
   region_bytes (d\<lparr>byte_count := c\<rparr>) = region_bytes d @ map (\<lambda>i. region_end d + of_nat i) [0..<m]"
  by (rule nth_equalityI) (auto simp: region_bytes_def region_end_def nth_append algebra_simps simp del: upt_Suc)

definition regions_cover :: "(u64 \<Rightarrow> u64 option) \<Rightarrow> u64 \<Rightarrow> nat \<Rightarrow> physical_region_descriptor list \<Rightarrow> bool" where
  "regions_cover get buffer n ds \<longleftrightarrow> phys_bytes get buffer n = Some (concat (map region_bytes ds))"

text \<open>The state between two rounds.\<close>

definition region_inv :: "(u64 \<Rightarrow> u64 option) \<Rightarrow> u64 \<Rightarrow> u64 \<Rightarrow> u64 \<Rightarrow> u64 option \<Rightarrow> int \<Rightarrow> physical_region_descriptor list \<Rightarrow> bool" where
  "region_inv get buffer size' offset lastp ri arr \<longleftrightarrow>
     offset \<le> size' \<and> length arr = 16 \<and> - 1 \<le> ri \<and> ri < 16 \<and>
     regions_cover get buffer (unat offset) (take (nat (ri + 1)) arr) \<and>
     (\<forall>l. lastp = Some l \<longrightarrow> 0 \<le> ri \<and> unat (byte_count (arr ! nat ri)) < 2 ^ 22 \<and>
        (\<exists>sub. region_end (arr ! nat ri) = l + sub \<and>
           (offset < size' \<longrightarrow> va_offset (buffer + offset) = 0 \<and> sub = page_size - va_offset l)))"

lemma take_Suc_nat: "0 \<le> ri \<Longrightarrow> take (nat (ri + 1)) xs = take (Suc (nat ri)) xs"
  by (simp add: nat_add_distrib)

lemma take_update_last:
  assumes "0 \<le> ri" "nat ri < length xs"
  shows "take (nat (ri + 1)) (xs[nat ri := x]) = take (nat ri) xs @ [x]"
    "take (nat (ri + 1)) xs = take (nat ri) xs @ [xs ! nat ri]"
  using assms by (simp_all add: take_Suc_nat take_Suc_conv_app_nth)

lemma take_append_new:
  assumes "- 1 \<le> ri" "nat (ri + 1) < length xs"
  shows "take (nat (2 + ri)) (xs[nat (ri + 1) := x]) = take (nat (ri + 1)) xs @ [x]"
  using assms take_update_last(1)[of "ri + 1" xs x] by (simp add: add.commute)

lemma rest_of_page: "unat x = 4096 - unat (va_offset v) \<Longrightarrow> x = page_size - va_offset v"
  using l_offset_less(5)[of v] by (simp add: word_cong_unat unat_diff_u64 unat_le_iff page_size_def)

lemma to_next_page: "va_offset (v + (page_size - va_offset v)) = 0"
proof -
  have "v = va_offset v + 4096 * drop_bit 12 v"
    using bits_ident[of 12 v] by (simp add: va_offset_def fld_def push_bit_eq_mult add.commute mult.commute)
  then have "v + (page_size - va_offset v) = 0 + 4096 * (1 + drop_bit 12 v)" by (simp add: page_size_def algebra_simps)
  then show ?thesis by (simp only: va_offset_mult_page) (simp add: va_offset_def)
qed

lemma unat_u32: "unat (w :: u32) < 2 ^ 32"
  using unsigned_less[of w] by simp

lemma unat_small_u32: "unat (n :: u64) < 2 ^ 32 \<Longrightarrow> unat (ucast n :: u32) = unat n"
  by (simp add: unsigned_ucast_eq take_bit_nat_eq_self)

lemma unat_take_22: "unat (take_bit 22 (w :: u32)) < 2 ^ 22"
  using take_bit_nat_less_exp[of 22 "unat w"] by (simp add: unsigned_take_bit_eq)

lemma merged_count:
  assumes "ucast (c :: u32) + page_size < (push_bit 22 1 :: u64)" "unat (n :: u64) \<le> 4096"
  shows "unat (take_bit 22 (c + ucast n)) = unat c + unat n"
proof -
  have u: "unat (ucast c :: u64) = unat c"
    using unat_u32[of c] by (simp add: unsigned_ucast_eq take_bit_nat_eq_self)
  have "unat (ucast c + page_size :: u64) = unat c + 4096"
    using u unat_u32[of c] by (subst unat_add_u64) (simp_all add: page_size_def)
  then have c: "unat c + 4096 < 2 ^ 22" using assms(1) by (simp add: unat_less_iff)
  have n: "unat (ucast n :: u32) = unat n" using assms(2) by (simp add: unat_small_u32)
  have "unat (c + ucast n) = unat c + unat n" using n c assms(2) by (simp add: unat_word_ariths)
  then show ?thesis using c assms(2) by (simp add: unsigned_take_bit_eq take_bit_nat_eq_self)
qed

lemma new_count:
  assumes "0 < unat (n :: u64)" "unat n \<le> 4096"
  shows "unat (take_bit 22 (ucast (n - 1) :: u32)) = unat n - 1"
proof -
  have "unat (n - 1) = unat n - 1" using assms(1) by (subst unat_diff_u64) (simp_all add: unat_le_iff)
  moreover from this have "unat (ucast (n - 1) :: u32) = unat n - 1" using assms(2) by (simp add: unat_small_u32)
  ultimately show ?thesis using assms(2) by (simp add: unsigned_take_bit_eq take_bit_nat_eq_self)
qed

context address_space
begin

lemma region_step_cover:
  assumes inv: "region_inv get buffer size' offset lastp ri arr" and off: "offset < size'"
    and g: "get (buffer + offset) = Some a"
    and st: "region_step a (sub_size buffer size' offset) lastp ri arr = Some (ri', arr')"
  shows "region_inv get buffer size' (offset + sub_size buffer size' offset) (Some a) ri' arr'"
proof -
  let ?sub = "sub_size buffer size' offset"
  note sb = sub_size_bounds[OF off, of buffer]
  have usub: "unat ?sub \<le> 4096" using sb(3) by linarith
  have uo: "unat (offset + ?sub) = unat offset + unat ?sub"
    using sb(2) off unat_u64[of size'] by (intro unat_add_u64) (simp add: unat_less_iff)
  have le: "offset + ?sub \<le> size'" using uo sb(2) off by (simp add: unat_le_iff unat_less_iff)
  have ao: "va_offset a = va_offset (buffer + offset)" by (rule same_offset[OF g])
  have new: "phys_bytes get (buffer + offset) (unat ?sub) = Some (map (\<lambda>i. a + of_nat i) [0..<unat ?sub])"
    by (rule phys_bytes_page[OF g sb(3)])
  have I: "length arr = 16" "- 1 \<le> ri" "ri < 16" "regions_cover get buffer (unat offset) (take (nat (ri + 1)) arr)"
    using inv by (auto simp: region_inv_def)
  have cover: "phys_bytes get buffer (unat (offset + ?sub)) =
      Some (concat (map region_bytes (take (nat (ri + 1)) arr)) @ map (\<lambda>i. a + of_nat i) [0..<unat ?sub])"
    using I(4) new by (simp add: uo phys_bytes_add regions_cover_def)
  have rest: "va_offset (buffer + (offset + ?sub)) = 0 \<and> ?sub = page_size - va_offset a" if lt: "offset + ?sub < size'"
  proof -
    have "unat ?sub = 4096 - unat (va_offset (buffer + offset))"
      using lt uo unat_sub_size[OF off, of buffer] l_offset_less(5)[of "buffer + offset"] by (simp add: unat_less_iff)
    then have "?sub = page_size - va_offset (buffer + offset)" by (rule rest_of_page)
    then show ?thesis using to_next_page[of "buffer + offset"] ao by (simp add: add.assoc)
  qed
  show ?thesis
  proof (cases "(case lastp of None \<Rightarrow> False | Some l \<Rightarrow> l + page_size = a) \<and> ri \<ge> 0 \<and>
      ucast (byte_count (arr ! nat ri)) + page_size < (push_bit 22 1 :: u64)")
    case True
    then obtain l where l: "lastp = Some l" "l + page_size = a" and ri: "0 \<le> ri" "nat ri < length arr"
      and bc: "ucast (byte_count (arr ! nat ri)) + page_size < (push_bit 22 1 :: u64)"
      using I(1-3) by (auto split: option.splits)
    from st True have st': "ri' = ri" "arr' = arr[nat ri := (arr ! nat ri)\<lparr>byte_count := take_bit 22 (byte_count (arr ! nat ri) + ucast ?sub)\<rparr>]"
      unfolding region_step_def if_P[OF True] by blast+
    note m = merged_count[OF bc usub]
    have "va_offset (buffer + offset) = 0" "region_end (arr ! nat ri) = l + (page_size - va_offset l)"
      using inv l off by (auto simp: region_inv_def)
    moreover have "va_offset l = va_offset a" using va_offset_mult_page[of l 1] l(2) by (simp add: page_size_def)
    ultimately have e: "region_end (arr ! nat ri) = a" using ao l(2) by simp
    have "region_end (arr' ! nat ri) = a + ?sub"
      using e ri st'(2) m by (simp add: region_end_def algebra_simps)
    then show ?thesis
      using I cover rest le ri m e unat_take_22[of "byte_count (arr ! nat ri) + ucast ?sub"] unfolding region_inv_def st'(1) regions_cover_def
      by (auto simp: st'(2) take_update_last region_bytes_extend)
  next
    case False
    from st False have st': "ri' = ri + 1" "ri + 1 < 16"
        "arr' = arr[nat (ri + 1) := \<lparr>physical_base_address = a, byte_count = take_bit 22 (ucast (?sub - 1)), interrupt_on_completion = 0\<rparr>]"
      by (auto simp: region_step_def prdt_max_16 split: if_splits)
    note m = new_count[OF sb(1) usub]
    have n: "nat (ri + 1) < length arr" using I st'(2) by auto
    have "region_end (arr' ! nat (ri + 1)) = a + ?sub" using n st'(3) m sb(1) by (simp add: region_end_def)
    moreover have "region_bytes (arr' ! nat (ri + 1)) = map (\<lambda>i. a + of_nat i) [0..<unat ?sub]"
      using n st'(3) m sb(1) by (simp add: region_bytes_def del: upt_Suc)
    ultimately show ?thesis
      using I cover rest le n m st'(2) usub unfolding region_inv_def st'(1) regions_cover_def
      by (auto simp: st'(3) take_append_new)
  qed
qed

lemma region_loop_cover:
  "region_inv get buffer size' offset lastp ri arr \<Longrightarrow>
   case region_loop get buffer size' offset lastp ri arr of
     (Inr n, arr') \<Rightarrow> length arr' = 16 \<and> unat n \<le> 16 \<and> regions_cover get buffer (unat size') (take (unat n) arr')
   | (Inl e, arr') \<Rightarrow> e = INVALID_MEMORY \<and> phys_bytes get buffer (unat size') = None \<or> e = FRAGMENTED_MEMORY"
proof (induction "unat size' - unat offset" arbitrary: offset lastp ri arr rule: less_induct)
  case less
  show ?case
  proof (cases "offset < size'")
    case False
    then have "offset = size'" using less.prems by (auto simp: region_inv_def)
    moreover have ri: "0 \<le> ri + 1" "nat (ri + 1) < 2 ^ 64" "nat (ri + 1) \<le> 16"
      using less.prems by (auto simp: region_inv_def)
    have "unat (of_int (ri + 1) :: u64) = nat (ri + 1)"
      using unat_of_nat_u64[OF ri(2)] ri(1) by simp
    ultimately show ?thesis using less.prems ri(3) by (auto simp: region_loop.simps region_inv_def)
  next
    case True
    show ?thesis
    proof (cases "get (buffer + offset)")
      case None
      moreover have "unat offset < unat size'" using True by (simp add: unat_less_iff)
      ultimately have "phys_bytes get buffer (unat size') = None"
        unfolding phys_bytes_def those_None set_map by (intro image_eqI[of _ _ "unat offset"]) auto
      then show ?thesis using None True by (simp add: region_loop.simps)
    next
      case (Some a)
      show ?thesis
      proof (cases "region_step a (sub_size buffer size' offset) lastp ri arr")
        case None
        then show ?thesis using Some True by (simp add: region_loop.simps)
      next
        case (Some r)
        obtain ri' arr' where r: "r = (ri', arr')" by (cases r)
        let ?o = "offset + sub_size buffer size' offset"
        have inv: "region_inv get buffer size' ?o (Some a) ri' arr'"
          using region_step_cover[OF less.prems True \<open>get (buffer + offset) = Some a\<close>] Some r by simp
        have "unat ?o = unat offset + unat (sub_size buffer size' offset)"
          using sub_size_bounds[OF True, of buffer] True unat_u64[of size'] by (intro unat_add_u64) (simp add: unat_less_iff)
        then have "unat size' - unat ?o < unat size' - unat offset"
          using sub_size_bounds(1)[OF True, of buffer] True by (simp add: unat_less_iff)
        from less.hyps[OF this inv] show ?thesis
          using Some \<open>get (buffer + offset) = Some a\<close> True r by (subst region_loop.simps) simp
      qed
    qed
  qed
qed

end

lemma setup_region_covers:
  assumes "unat slot < length (command_tables p)" "length (prdt (command_tables p ! unat slot)) = 16"
  shows "case setup_physical_region (pt_get s) slot buffer size' p of
      (Inr n, p') \<Rightarrow> unat n \<le> 16 \<and>
        phys_bytes (pt_get s) buffer (unat size') =
          Some (concat (map region_bytes (take (unat n) (prdt (command_tables p' ! unat slot)))))
    | (Inl e, p') \<Rightarrow> e = FRAGMENTED_MEMORY \<or> e = INVALID_MEMORY \<and> phys_bytes (pt_get s) buffer (unat size') = None"
proof -
  have "region_inv (pt_get s) buffer size' 0 None (- 1) (prdt (command_tables p ! unat slot))"
    using assms(2) by (simp add: region_inv_def regions_cover_def)
  from pt.region_loop_cover[OF this] show ?thesis
    using assms by (auto simp: setup_physical_region_def upd_table_def regions_cover_def split: sum.splits prod.splits)
qed

text \<open>C20. The memory regions that a command gets are exactly its buffer: on success at most 16 descriptors are
  used and their bytes are the physical addresses of the buffer's bytes, in order, however the pages lie in
  physical memory and however regions are merged; \<open>INVALID_MEMORY\<close> means that a byte is not mapped; the only
  other failure is \<open>FRAGMENTED_MEMORY\<close>.\<close>

theorem setup_physical_region_covers:
  assumes "unat slot < length (command_tables p)" "length (prdt (command_tables p ! unat slot)) = 16"
  shows "case setup_physical_region (pt_get s) slot buffer size' p of
      (Inr n, p') \<Rightarrow> unat n \<le> 16 \<and>
        phys_bytes (pt_get s) buffer (unat size') =
          Some (concat (map region_bytes (take (unat n) (prdt (command_tables p' ! unat slot)))))
    | (Inl e, p') \<Rightarrow> e = FRAGMENTED_MEMORY \<or> e = INVALID_MEMORY \<and> phys_bytes (pt_get s) buffer (unat size') = None"
  by (rule setup_region_covers[OF assms])

section \<open>Commands as the device sees them\<close>

text \<open>The sector and the opcode that the bytes of a FIS encode, in the order of the SATA specification.\<close>

definition fis_sector :: "u8 list \<Rightarrow> u64" where
  "fis_sector bs = from_le [bs ! 4, bs ! 5, bs ! 6, bs ! 8, bs ! 9, bs ! 10]"

definition fis_sectors :: "u8 list \<Rightarrow> u16" where
  "fis_sectors bs = from_le [bs ! 12, bs ! 13]"

lemma byte_and: "(ucast (w AND 0xFF) :: u8) = ucast (w :: u64)"
proof -
  have m: "(0xFF :: u64) = mask 8" by (simp add: mask_eq_exp_minus_1)
  show ?thesis unfolding m by (intro bit_word_eqI) (auto simp: bit_simps)
qed

lemma fis_sector_h2d: "fis_sector (fis_bytes (h2d_fis cmd lba n dev)) = take_bit 48 lba"
proof -
  have "fis_sector (fis_bytes (h2d_fis cmd lba n dev)) = from_le (le_bytes 6 lba)"
    by (simp add: fis_sector_def fis_bytes_def h2d_fis_def zero_fis_def le_bytes_def upt_rec nth_Cons' byte_and)
  then show ?thesis by (simp add: from_le_le_bytes)
qed

lemma fis_sectors_h2d: "fis_sectors (fis_bytes (h2d_fis cmd lba n dev)) = n"
proof -
  have "fis_sectors (fis_bytes (h2d_fis cmd lba n dev)) = from_le (le_bytes 2 n)"
    by (simp add: fis_sectors_def fis_bytes_def h2d_fis_def zero_fis_def le_bytes_def upt_rec nth_Cons')
  then show ?thesis using take_bit_length_eq[of n] by (simp add: from_le_le_bytes)
qed

lemma fis_opcode_h2d: "fis_bytes (h2d_fis cmd lba n dev) ! 0 = 0x27" "bit (fis_bytes (h2d_fis cmd lba n dev) ! Suc 0) 7"
  "fis_bytes (h2d_fis cmd lba n dev) ! 2 = cmd" "length (fis_bytes (h2d_fis cmd lba n dev)) = 20"
  "fis_bytes (h2d_fis cmd lba n dev) ! 7 = dev"
  by (simp_all add: fis_bytes_def h2d_fis_def zero_fis_def bit_set_fld)

definition port_ok :: "'d port \<Rightarrow> bool" where
  "port_ok p \<longleftrightarrow> length (command_list p) = 32 \<and> length (command_tables p) = 32 \<and>
     (\<forall>t \<in> set (command_tables p). length (prdt t) = 16)"


text \<open>A command in a slot, and the rest of the port as it was.\<close>

definition slot_holds :: "(u64 \<Rightarrow> u64 option) \<Rightarrow> u8 \<Rightarrow> u8 \<Rightarrow> u64 \<Rightarrow> u64 \<Rightarrow> u64 \<Rightarrow> nat \<Rightarrow> 'd port \<Rightarrow> bool" where
  "slot_holds get cmd dir lba size' buffer slot p \<longleftrightarrow>
     (let bs = fis_bytes (command_fis (command_tables p ! slot)); h = command_list p ! slot
      in bs ! 0 = 0x27 \<and> bit (bs ! 1) 7 \<and> bs ! 2 = cmd \<and> bit (bs ! 7) 6 \<and> fis_sector bs = lba \<and>
         unat (fis_sectors bs) * unat (sector_size p) < unat size' + unat (sector_size p) \<and>
         unat size' \<le> unat (fis_sectors bs) * unat (sector_size p) \<and>
         direction h = dir \<and> 4 * unat (command_fis_length h) = length bs \<and>
         phys_bytes get buffer (unat size') =
           Some (concat (map region_bytes (take (unat (prdt_entry_count h)) (prdt (command_tables p ! slot))))))"

definition slot_free :: "'d ahci \<Rightarrow> nat \<Rightarrow> 'd port \<Rightarrow> bool" where
  "slot_free ah slot p \<longleftrightarrow> \<not> bit (port_reg ah 0x38 p) slot \<and> \<not> bit (scheduled_slots p) slot"

lemma and_push_bit_0: "(w :: u32) AND push_bit i 1 = 0 \<longleftrightarrow> \<not> bit w i"
  by (simp add: and_exp_eq_0_iff_not_bit)

lemma find_free_slot_Some:
  assumes "find_free_slot ah p = Some slot"
  shows "unat slot < 32 \<and> slot_free ah (unat slot) p \<and> (\<forall>j < unat slot. \<not> slot_free ah j p)"
proof -
  obtain i where i: "find (\<lambda>i. port_reg ah 0x38 p AND push_bit i 1 = 0 \<and> scheduled_slots p AND push_bit i 1 = 0) [0..<32] = Some i"
    "slot = of_nat i" using assms by (auto simp: find_free_slot_def)
  then have f: "i < 32" "slot_free ah i p" "\<forall>j < i. \<not> slot_free ah j p"
    by (auto simp: find_Some_iff and_exp_eq_0_iff_not_bit slot_free_def)
  then have "unat slot = i" using i(2) by (simp add: unat_of_nat take_bit_nat_eq_self)
  then show ?thesis using f by simp
qed

text \<open>Waiting changes the device, the memory and the record of used slots only.\<close>

definition same_setup :: "'d port \<Rightarrow> 'd port \<Rightarrow> bool" where
  "same_setup p p' \<longleftrightarrow> has_device p' = has_device p \<and> is_atapi p' = is_atapi p \<and> sector_count p' = sector_count p \<and>
     sector_size p' = sector_size p \<and> queue_capable p' = queue_capable p \<and> running p' = running p \<and>
     port_mmio p' = port_mmio p \<and> command_list p' = command_list p \<and> command_tables p' = command_tables p"

lemma same_setup_refl [simp]: "same_setup p p" "same_setup p (p\<lparr>scheduled_slots := b\<rparr>)"
  by (simp_all add: same_setup_def)

lemma same_setup_pause [simp]: "same_setup (pause ah p) p' \<longleftrightarrow> same_setup p p'"
  by (simp add: same_setup_def pause_def split: prod.splits)

lemma port_reg_scheduled [simp]: "port_reg ah r (p\<lparr>scheduled_slots := b\<rparr>) = port_reg ah r p"
  by (simp add: port_reg_def)

lemma wait_all_frame:
  assumes "wait_all ah p = Some r"
  shows "same_setup p (snd r) \<and> (fst r \<longrightarrow> scheduled_slots (snd r) = 0 \<and> port_reg ah 0x38 (snd r) = 0)"
proof (rule wait_all.raw_induct[where P = "\<lambda>ah p r. same_setup p (snd r) \<and>
    (fst r \<longrightarrow> scheduled_slots (snd r) = 0 \<and> port_reg ah 0x38 (snd r) = 0)", OF _ assms], goal_cases)
  case (1 f ah p r)
  then show ?case
    by (cases r; cases "port_reg ah 0x30 p = 0"; cases "port_reg ah 0x38 p = 0") fastforce+
qed

lemma wait_for_frame:
  assumes "wait_for ah slot p = Some r"
  shows "same_setup p (snd r)"
proof (rule wait_for.raw_induct[where P = "\<lambda>ah slot p r. same_setup p (snd r)", OF _ assms], goal_cases)
  case (1 f ah slot p r)
  then show ?case
    by (cases r; cases "port_reg ah 0x30 p = 0"; cases "port_reg ah 0x38 p AND push_bit (unat slot) 1 = 0")
      (fastforce simp: test_done_def)+
qed

lemma sectors_for_bounds:
  assumes "sector_size p \<noteq> 0" "unat size' + unat (sector_size p) \<le> 2 ^ 64"
  shows "unat (sectors_for p size') * unat (sector_size p) < unat size' + unat (sector_size p)"
    "unat size' \<le> unat (sectors_for p size') * unat (sector_size p)"
proof -
  let ?s = "unat (sector_size p)"
  have s: "0 < ?s" using assms(1) by (simp add: unat_gt_0)
  have "unat (sector_size p - 1) = ?s - 1" using s by (subst unat_diff_u64) (simp_all add: unat_le_iff)
  then have "unat (size' + (sector_size p - 1)) = unat size' + (?s - 1)"
    using assms(2) s by (subst unat_add_u64) simp_all
  then have u: "unat (sectors_for p size') = (unat size' + (?s - 1)) div ?s"
    by (simp add: sectors_for_def unat_div add_diff_eq)
  have m: "(unat size' + (?s - 1)) div ?s * ?s + (unat size' + (?s - 1)) mod ?s = unat size' + (?s - 1)"
    by simp
  have l: "(unat size' + (?s - 1)) mod ?s < ?s" using s by simp
  show "unat (sectors_for p size') * ?s < unat size' + ?s" "unat size' \<le> unat (sectors_for p size') * ?s"
    unfolding u using m l s by linarith+
qed

lemma upd_simps [simp]:
  "command_list (upd_table i f p) = command_list p" "port_dev (upd_table i f p) = port_dev p"
  "port_mem (upd_table i f p) = port_mem p" "scheduled_slots (upd_table i f p) = scheduled_slots p"
  "sector_size (upd_table i f p) = sector_size p" "port_mmio (upd_table i f p) = port_mmio p"
  "command_tables (upd_table i f p) = (command_tables p)[i := f (command_tables p ! i)]"
  "command_tables (upd_header i g p) = command_tables p" "port_dev (upd_header i g p) = port_dev p"
  "port_mem (upd_header i g p) = port_mem p" "scheduled_slots (upd_header i g p) = scheduled_slots p"
  "sector_size (upd_header i g p) = sector_size p" "port_mmio (upd_header i g p) = port_mmio p"
  "command_list (upd_header i g p) = (command_list p)[i := g (command_list p ! i)]"
  by (simp_all add: upd_table_def upd_header_def)

lemma issue_simps [simp]:
  "command_list (issue_slot ah slot p) = command_list p" "command_tables (issue_slot ah slot p) = command_tables p"
  "sector_size (issue_slot ah slot p) = sector_size p" "port_mem (issue_slot ah slot p) = port_mem p"
  "scheduled_slots (issue_slot ah slot p) = scheduled_slots p OR push_bit (unat slot) 1"
  "port_dev (issue_slot ah slot p) =
     mm_wr (ahci_regs ah) (port_mmio p + 0x38) (port_reg ah 0x38 p OR push_bit (unat slot) 1) (port_dev p)"
  by (simp_all add: issue_slot_def set_port_reg_def Let_def)

text \<open>What \<open>submit\<close> leaves for the device.\<close>

lemma submit_issues:
  assumes ok: "port_ok p" and ss: "sector_size p \<noteq> 0" "unat size' + unat (sector_size p) \<le> 2 ^ 64"
    and n: "unat (sectors_for p size') < 2 ^ 16" and lba: "unat lba < 2 ^ 48"
    and r: "submit (pt_get s) ah cmd dir lba size' buffer p = (Inr slot, p')"
  shows "unat slot < 32 \<and> slot_free ah (unat slot) p \<and>
    slot_holds (pt_get s) cmd dir lba size' buffer (unat slot) p' \<and>
    port_dev p' = mm_wr (ahci_regs ah) (port_mmio p + 0x38) (port_reg ah 0x38 p OR push_bit (unat slot) 1) (port_dev p) \<and>
    scheduled_slots p' = scheduled_slots p OR push_bit (unat slot) 1 \<and> port_mem p' = port_mem p \<and>
    (\<forall>i. i \<noteq> unat slot \<longrightarrow> command_tables p' ! i = command_tables p ! i \<and> command_list p' ! i = command_list p ! i)"
proof -
  let ?q = "setup_h2d slot cmd lba (ucast (sectors_for p size')) (push_bit 6 1) p"
  from r obtain k p1 where f: "find_free_slot ah p = Some slot"
    and reg: "setup_physical_region (pt_get s) slot buffer size' ?q = (Inr k, p1)"
    and p': "p' = issue_slot ah slot (upd_header (unat slot) (\<lambda>h. h\<lparr>prdt_entry_count := ucast k, command_fis_length := 5,
               direction := dir, port_multiplier := 0, prd_byte_count := 0\<rparr>) p1)"
    by (auto simp: submit_def split: option.splits prod.splits sum.splits)
  have slot: "unat slot < 32" "slot_free ah (unat slot) p" using find_free_slot_Some[OF f] by auto
  have len: "unat slot < length (command_tables p)" "unat slot < length (command_list p)"
    "length (prdt (command_tables p ! unat slot)) = 16" using ok slot by (auto simp: port_ok_def)
  have cover: "unat k \<le> 16" "phys_bytes (pt_get s) buffer (unat size') =
      Some (concat (map region_bytes (take (unat k) (prdt (command_tables p1 ! unat slot)))))"
    using setup_region_covers[of slot ?q s buffer size'] len reg by (auto simp: setup_h2d_def)
  obtain arr where arr: "p1 = upd_table (unat slot) (\<lambda>t. t\<lparr>prdt := arr\<rparr>) ?q"
    using reg by (auto simp: setup_physical_region_def split: prod.splits)
  have fis: "command_fis (command_tables p1 ! unat slot) = h2d_fis cmd lba (ucast (sectors_for p size')) (push_bit 6 1)"
    using len by (simp add: arr setup_h2d_def)
  have same: "command_list p1 = command_list p" "port_dev p1 = port_dev p" "port_mem p1 = port_mem p"
    "scheduled_slots p1 = scheduled_slots p" "sector_size p1 = sector_size p" "port_mmio p1 = port_mmio p"
    "\<And>i. i \<noteq> unat slot \<Longrightarrow> command_tables p1 ! i = command_tables p ! i"
    by (simp_all add: arr setup_h2d_def)
  have "unat (ucast (sectors_for p size') :: u16) = unat (sectors_for p size')"
    using n by (simp add: unsigned_ucast_eq take_bit_nat_eq_self)
  note count = sectors_for_bounds[OF ss, folded this]
  have lba48: "take_bit 48 lba = lba"
    using lba by (simp add: word_cong_unat unsigned_take_bit_eq take_bit_nat_eq_self)
  have k: "unat (ucast k :: u16) = unat k" using cover(1) by (simp add: unsigned_ucast_eq take_bit_nat_eq_self)
  have "slot_holds (pt_get s) cmd dir lba size' buffer (unat slot) p'"
    using cover(2) count len same
    by (simp add: slot_holds_def p' fis fis_sector_h2d fis_sectors_h2d fis_opcode_h2d lba48 k bit_simps)
  then show ?thesis using slot same by (simp add: p' port_reg_def)
qed

lemma send_command_issues:
  assumes "port_ok p" "unat size' + unat (sector_size p) \<le> 2 ^ 64" "unat (sector_count p) \<le> 2 ^ 48"
    and "unat lba + unat (sectors_for p size') < 2 ^ 64"
    and r: "send_command (pt_get s) ah cmd dir lba size' buffer p = Some (Ret (Inr slot, p'))"
  obtains p1 where "if queue_capable p then p1 = p else wait_all ah p = Some (True, p1)"
    "port_ok p1" "same_setup p p1" "sector_size p1 \<noteq> 0" "unat lba < 2 ^ 48" "unat (sectors_for p1 size') < 2 ^ 16"
    "unat lba + unat (sectors_for p1 size') \<le> unat (sector_count p1)"
    "submit (pt_get s) ah cmd dir lba size' buffer p1 = (Inr slot, p')"
proof -
  obtain p1 where p1: "if queue_capable p then p1 = p else wait_all ah p = Some (True, p1)"
    and v: "sector_size p \<noteq> 0" "check_command_valid lba size' buffer p = None"
    and s: "submit (pt_get s) ah cmd dir lba size' buffer p1 = (Inr slot, p')"
    using r by (auto simp: send_command_def bind_eq_Some_conv split: if_splits option.splits)
  have same: "same_setup p p1" using p1 wait_all_frame[of ah p "(True, p1)"] by (auto split: if_splits)
  have sec: "sectors_for p1 size' = sectors_for p size'" using same by (simp add: sectors_for_def same_setup_def)
  have "lba + sectors_for p size' \<le> sector_count p" "sectors_for p size' < 2 ^ 16" "sectors_for p size' \<noteq> 0"
    using v(2) by (auto simp: check_command_valid_def Let_def not_less not_le split: if_splits)
  moreover from this(3) have "0 < unat (sectors_for p size')" by (simp add: unat_gt_0)
  ultimately show thesis
    using that[OF p1 _ same] assms v(1) same s sec
    by (auto simp: port_ok_def same_setup_def unat_le_iff unat_less_iff unat_add_u64)
qed

section \<open>No fragmentation in small buffers\<close>

text \<open>While there is more to come, every region in use accounts for a page of the buffer.\<close>

definition few_regions :: "u64 \<Rightarrow> u64 \<Rightarrow> u64 \<Rightarrow> int \<Rightarrow> bool" where
  "few_regions buffer size' offset ri \<longleftrightarrow>
     unat size' \<le> 61440 \<and> (offset < size' \<longrightarrow>
       (offset = 0 \<and> ri = - 1 \<or>
        va_offset (buffer + offset) = 0 \<and> 4096 * nat (ri + 1) \<le> unat (va_offset buffer) + unat offset))"

lemma region_step_small:
  assumes "few_regions buffer size' offset ri" "offset < size'"
  shows "\<exists>ri' arr'. region_step a sub lastp ri arr = Some (ri', arr') \<and> ri' \<le> ri + 1"
proof -
  have "ri + 1 < 16"
  proof (cases "ri = - 1")
    case False
    then have "4096 * nat (ri + 1) \<le> unat (va_offset buffer) + unat offset" "unat size' \<le> 61440"
      using assms by (auto simp: few_regions_def)
    then show ?thesis using l_offset_less(5)[of buffer] assms(2) by (simp add: unat_less_iff)
  qed simp
  then show ?thesis by (auto simp: region_step_def prdt_max_16)
qed

lemma few_regions_step:
  assumes "few_regions buffer size' offset ri" "offset < size'" "ri' \<le> ri + 1"
  shows "few_regions buffer size' (offset + sub_size buffer size' offset) ri'"
proof (cases "offset + sub_size buffer size' offset < size'")
  case True
  let ?sub = "sub_size buffer size' offset"
  note sb = sub_size_bounds[OF assms(2), of buffer]
  have uo: "unat (offset + ?sub) = unat offset + unat ?sub"
    using sb(2) assms(2) unat_u64[of size'] by (intro unat_add_u64) (simp add: unat_less_iff)
  have s: "unat ?sub = 4096 - unat (va_offset (buffer + offset))"
    using True uo unat_sub_size[OF assms(2), of buffer] l_offset_less(5)[of "buffer + offset"] by (simp add: unat_less_iff)
  then have "?sub = page_size - va_offset (buffer + offset)" by (rule rest_of_page)
  then have z: "va_offset (buffer + (offset + ?sub)) = 0" using to_next_page[of "buffer + offset"] by (simp add: add.assoc)
  have "4096 * nat (ri' + 1) \<le> unat (va_offset buffer) + unat (offset + ?sub)"
  proof (cases "offset = 0")
    case True
    then have "ri = - 1 \<or> 4096 * nat (ri + 1) \<le> unat (va_offset buffer) \<and> va_offset buffer = 0"
      using assms(1,2) by (auto simp: few_regions_def)
    then have "ri' + 1 \<le> 1" using assms(3) by auto
    then show ?thesis using s True uo l_offset_less(5)[of buffer] by simp
  next
    case False
    then show ?thesis using assms s uo by (auto simp: few_regions_def)
  qed
  then show ?thesis using assms(1) z by (simp add: few_regions_def)
qed (use assms(1) in \<open>simp add: few_regions_def\<close>)

lemma region_loop_small:
  "few_regions buffer size' offset ri \<Longrightarrow> fst (region_loop get buffer size' offset lastp ri arr) \<noteq> Inl FRAGMENTED_MEMORY"
proof (induction "unat size' - unat offset" arbitrary: offset lastp ri arr rule: less_induct)
  case less
  show ?case
  proof (cases "offset < size'")
    case True
    let ?o = "offset + sub_size buffer size' offset"
    have u: "unat ?o = unat offset + unat (sub_size buffer size' offset)"
      using sub_size_bounds[OF True, of buffer] True unat_u64[of size'] by (intro unat_add_u64) (simp add: unat_less_iff)
    have d: "unat size' - unat ?o < unat size' - unat offset"
      using sub_size_bounds(1)[OF True, of buffer] True u by (simp add: unat_less_iff)
    show ?thesis
    proof (cases "get (buffer + offset)")
      case (Some a)
      obtain ri' arr' where st: "region_step a (sub_size buffer size' offset) lastp ri arr = Some (ri', arr')" "ri' \<le> ri + 1"
        using region_step_small[OF less.prems True] by blast
      have "few_regions buffer size' ?o ri'" by (rule few_regions_step[OF less.prems True st(2)])
      from less.hyps[OF d this] show ?thesis using Some st True by (subst region_loop.simps) simp
    qed (use True in \<open>simp add: region_loop.simps\<close>)
  qed (simp add: region_loop.simps)
qed

lemma setup_region_small:
  assumes "unat slot < length (command_tables p)" "length (prdt (command_tables p ! unat slot)) = 16"
    and "phys_bytes (pt_get s) buffer (unat size') \<noteq> None" "unat size' \<le> 61440"
  shows "\<exists>n p'. setup_physical_region (pt_get s) slot buffer size' p = (Inr n, p')"
proof -
  obtain r p' where r: "setup_physical_region (pt_get s) slot buffer size' p = (r, p')" by fastforce
  have "few_regions buffer size' 0 (- 1)" using assms(4) by (simp add: few_regions_def)
  then have "r \<noteq> Inl FRAGMENTED_MEMORY"
    using region_loop_small[of buffer size' 0 "- 1" "pt_get s" None "prdt (command_tables p ! unat slot)"] r
    by (auto simp: setup_physical_region_def split: prod.splits)
  then show ?thesis using setup_region_covers[OF assms(1,2), of s buffer size'] r assms(3) by (cases r) auto
qed

section \<open>Waiting for a device\<close>

lemma pause_iterate:
  "(pause ah ^^ k) p =
     (let dm = (ahci_run ah (command_list p) (command_tables p) ^^ k) (port_dev p, port_mem p)
      in p\<lparr>port_dev := fst dm, port_mem := snd dm\<rparr>)"
  by (induction k) (simp_all add: pause_def Let_def split_beta)

lemma wait_for_steps:
  "(\<And>k. k < n \<Longrightarrow> port_reg ah 0x30 ((pause ah ^^ k) p) = 0 \<and> bit (port_reg ah 0x38 ((pause ah ^^ k) p)) (unat slot)) \<Longrightarrow>
   wait_for ah slot p = wait_for ah slot ((pause ah ^^ n) p)"
proof (induction n arbitrary: p)
  case (Suc n)
  have "wait_for ah slot p = wait_for ah slot (pause ah p)"
    using Suc.prems[of 0] by (subst wait_for.simps) (simp add: test_done_def and_exp_eq_0_iff_not_bit)
  also have "\<dots> = wait_for ah slot ((pause ah ^^ n) (pause ah p))"
    using Suc.prems[of "Suc k" for k] by (intro Suc.IH) (simp add: funpow_swap1)
  finally show ?case by (simp add: funpow_swap1)
qed simp

end
