(* ===== verification/SataDisk.thy ===== *)
theory SataDisk
  imports Sata
begin

text \<open>
  The disk of \<^verbatim>\<open>src/high/PCI/sata.cpp\<close> as a block device (\<open>sata_port_device\<close>): reads and writes of any
  byte range, split into whole sectors and parts of sectors; and what they do on a controller that answers as
  documented.
\<close>

section \<open>The disk as a block device\<close>

datatype device_error = DEVICE_SUCCESS | DEVICE_OUT_OF_BOUNDS | DEVICE_UNAVAILABLE

text \<open>
  A \<open>Sata::error_t\<close> that is returned where a \<open>result<size_t, device::error_t>\<close> is expected: the enumeration has no
  scope and converts to the number, not to the error.
\<close>

definition as_result :: "sata_error \<Rightarrow> device_error + u64" where
  "as_result e = Inr (ucast (sata_error_code e))"

text \<open>\<open>memcpy\<close> through virtual addresses; an unmapped byte faults.\<close>

fun store_list :: "u64 list \<Rightarrow> u8 list \<Rightarrow> bytes \<Rightarrow> bytes" where
  "store_list (a # as) (x # xs) m = store_list as xs (m(a := x))"
| "store_list _ _ m = m"

definition vcopy :: "(u64 \<Rightarrow> u64 option) \<Rightarrow> u64 \<Rightarrow> u64 \<Rightarrow> u64 \<Rightarrow> 'd port \<Rightarrow> 'd port res" where
  "vcopy get dst src n p =
     (case (phys_bytes get dst (unat n), phys_bytes get src (unat n)) of
        (Some ds, Some ss) \<Rightarrow> Ret (p\<lparr>port_mem := store_list ds (map (port_mem p) ss) (port_mem p)\<rparr>)
      | _ \<Rightarrow> Stop Undef)"

text \<open>Send a command and wait for it; \<open>k\<close> is what follows when it has succeeded.\<close>

definition and_wait :: "'d ahci \<Rightarrow> ('d port \<Rightarrow> ((device_error + u64) \<times> 'd port) res option)
    \<Rightarrow> ((sata_error + u8) \<times> 'd port) res option \<Rightarrow> ((device_error + u64) \<times> 'd port) res option" where
  "and_wait ah k r =
     bindo r (\<lambda>(slot, p).
       case slot of
         Inl e \<Rightarrow> Some (Ret (as_result e, p))
       | Inr i \<Rightarrow> Option.bind (wait_for ah i p) (\<lambda>(ok, p1).
           if ok then k p1 else Some (Ret (Inl DEVICE_UNAVAILABLE, p1))))"

text \<open>Half-word pointers: an offset of \<open>n\<close> bytes is rounded down to an even one.\<close>

definition half_words :: "u64 \<Rightarrow> u64" where "half_words n = 2 * (n div 2)"

text \<open>The loops over the three parts of a long transfer: sector, length and buffer of each.\<close>

fun send_parts :: "(u64 \<Rightarrow> u64 \<Rightarrow> u64 \<Rightarrow> 'd port \<Rightarrow> ((sata_error + u8) \<times> 'd port) res option) \<Rightarrow> (u64 \<times> u64 \<times> u64) list \<Rightarrow> 'd port
    \<Rightarrow> (sata_error option \<times> u8 list \<times> 'd port) res option" where
  "send_parts send [] p = Some (Ret (None, [], p))"
| "send_parts send ((lba, n, b) # parts) p =
     bindo (send lba n b p) (\<lambda>(r, p1).
       case r of
         Inl e \<Rightarrow> Some (Ret (Some e, [], p1))
       | Inr slot \<Rightarrow> bindo (send_parts send parts p1) (\<lambda>(e, slots, p2). Some (Ret (e, slot # slots, p2))))"

fun wait_parts :: "'d ahci \<Rightarrow> u8 list \<Rightarrow> 'd port \<Rightarrow> (bool \<times> 'd port) option" where
  "wait_parts ah [] p = Some (True, p)"
| "wait_parts ah (slot # slots) p =
     Option.bind (wait_for ah slot p) (\<lambda>(ok, p1). if ok then wait_parts ah slots p1 else Some (False, p1))"

text \<open>\<open>read\<close> to an even address; the sector buffers are at \<open>b0\<close> and \<open>b2\<close> on the stack.\<close>

definition sata_read_even :: "(u64 \<Rightarrow> u64 option) \<Rightarrow> 'd ahci \<Rightarrow> u64 \<Rightarrow> u64 \<Rightarrow> u64 \<Rightarrow> u64 \<Rightarrow> u64 \<Rightarrow> 'd port
    \<Rightarrow> ((device_error + u64) \<times> 'd port) res option" where
  "sata_read_even get ah b0 b2 buffer offset size' p =
     (let ss = sector_size p;
          finish = (\<lambda>p. Some (Ret (Inr size', p)));
          from_sectors = (\<lambda>n.
            and_wait ah (\<lambda>p1. bindo (Some (vcopy get buffer (b0 + half_words (offset mod ss)) size' p1)) finish)
              (send_read get ah (offset div ss) n b0 p))
      in if offset + size' > sector_count p * ss then Some (Ret (Inl DEVICE_OUT_OF_BOUNDS, p))
         else if ss = 0 then Some (Stop Undef)
         else if offset mod ss = 0 \<and> size' mod ss = 0
         then and_wait ah finish (send_read get ah (offset div ss) size' buffer p)
         else if offset div ss = (offset + size') div ss then from_sectors ss
         else if offset div ss + 1 = (offset + size') div ss then from_sectors (ss * 2)
         else
           let n0 = ss - offset mod ss; n2 = (offset + size') mod ss; n1 = size' - n0 - n2;
               o1 = offset + n0; o2 = o1 + n1;
               parts = (if n0 = 0 then [] else [(offset div ss, ss, b0)])
                     @ (if n1 = 0 then [] else [(o1 div ss, n1, buffer + half_words n0)])
                     @ (if n2 = 0 then [] else [(o2 div ss, ss, b2)])
           in bindo (send_parts (send_read get ah) parts p) (\<lambda>(e, slots, p1).
              Option.bind (wait_parts ah slots p1) (\<lambda>(ok, p2).
              case (if ok then e else Some UNKNOWN_ERROR) of
                Some e' \<Rightarrow> Some (Ret (as_result e', p2))
              | None \<Rightarrow>
                  bindo (Some (vcopy get buffer (b0 + half_words (offset mod ss)) n0 p2)) (\<lambda>p3.
                  bindo (Some (vcopy get (buffer + half_words n0 + half_words n1) b2 n2 p3)) finish))))"

text \<open>\<open>tmp\<close> is the block of memory that \<open>new\<close> returns for an odd address.\<close>

definition even_ptr :: "u64 \<Rightarrow> u64" where
  "even_ptr tmp = (tmp + 1) AND NOT 1"

definition sata_read :: "(u64 \<Rightarrow> u64 option) \<Rightarrow> 'd ahci \<Rightarrow> u64 \<Rightarrow> u64 \<Rightarrow> u64 \<Rightarrow> u64 \<Rightarrow> u64 \<Rightarrow> u64 \<Rightarrow> 'd port
    \<Rightarrow> ((device_error + u64) \<times> 'd port) res option" where
  "sata_read get ah tmp b0 b2 buffer offset size' p =
     (if buffer AND 1 \<noteq> 0 then
        bindo (sata_read_even get ah b0 b2 (even_ptr tmp) offset size' p) (\<lambda>(r, p1).
          case r of
            Inl e \<Rightarrow> Some (Ret (Inl e, p1))
          | Inr n \<Rightarrow> bindo (Some (vcopy get buffer (even_ptr tmp) size' p1)) (\<lambda>p2. Some (Ret (Inr n, p2))))
      else sata_read_even get ah b0 b2 buffer offset size' p)"

text \<open>
  \<open>write\<close>: the same cases; a part of a sector is read, changed and written back.  In the case of many sectors the
  loop over the parts looks into the request of the middle part, which was never made: once the first part is
  sent, the program reads an object that does not exist.
\<close>

definition sata_write_even :: "(u64 \<Rightarrow> u64 option) \<Rightarrow> 'd ahci \<Rightarrow> u64 \<Rightarrow> u64 \<Rightarrow> u64 \<Rightarrow> u64 \<Rightarrow> u64 \<Rightarrow> 'd port
    \<Rightarrow> ((device_error + u64) \<times> 'd port) res option" where
  "sata_write_even get ah b0 b2 buffer offset size' p =
     (let ss = sector_size p;
          finish = (\<lambda>p. Some (Ret (Inr size', p)));
          change_sectors = (\<lambda>n.
            and_wait ah (\<lambda>p1.
              bindo (Some (vcopy get (b0 + half_words (offset mod ss)) buffer size' p1)) (\<lambda>p2.
                and_wait ah finish (send_write get ah (offset div ss) n b0 p2)))
              (send_read get ah (offset div ss) n b0 p))
      in if offset + size' > sector_count p * ss then Some (Ret (Inl DEVICE_OUT_OF_BOUNDS, p))
         else if ss = 0 then Some (Stop Undef)
         else if offset mod ss = 0 \<and> size' mod ss = 0
         then and_wait ah finish (send_write get ah (offset div ss) (size' div ss) buffer p)
         else if offset div ss = (offset + size') div ss then change_sectors ss
         else if offset div ss + 1 = (offset + size') div ss then change_sectors (ss * 2)
         else
           let n0 = ss - offset mod ss; n1 = size' - n0; n2 = (offset + size') mod ss;
               o1 = offset + n0; o2 = offset + size' - n2
           in bindo (send_read get ah (offset div ss) ss b0 p) (\<lambda>(r0, p1).
              bindo (send_read get ah (o2 div ss) ss b2 p1) (\<lambda>(r2, p2).
              case (r0, r2) of
                (Inl e, Inr slot) \<Rightarrow> Option.bind (wait_for ah slot p2) (\<lambda>(_, p3). Some (Ret (as_result e, p3)))
              | (Inl e, Inl _) \<Rightarrow> Some (Ret (as_result e, p2))
              | (Inr slot, Inl e) \<Rightarrow> Option.bind (wait_for ah slot p2) (\<lambda>(_, p3). Some (Ret (as_result e, p3)))
              | (Inr s0, Inr s2) \<Rightarrow>
                  bindo (Some (vcopy get (b0 + half_words (offset mod ss)) buffer n0 p2)) (\<lambda>p3.
                  bindo (Some (vcopy get b2 (buffer + half_words (n0 + n1)) n2 p3)) (\<lambda>p4.
                  bindo (send_write get ah (offset div ss) ss b0 p4) (\<lambda>(w, p5).
                  case w of
                    Inr slot \<Rightarrow> Some (Stop Undef)
                  | Inl e \<Rightarrow> Option.bind (wait_for ah s2 p5) (\<lambda>(ok, p6).
                      Some (Ret (as_result (if ok then e else UNKNOWN_ERROR), p6)))))))))"

definition sata_write :: "(u64 \<Rightarrow> u64 option) \<Rightarrow> 'd ahci \<Rightarrow> u64 \<Rightarrow> u64 \<Rightarrow> u64 \<Rightarrow> u64 \<Rightarrow> u64 \<Rightarrow> u64 \<Rightarrow> 'd port
    \<Rightarrow> ((device_error + u64) \<times> 'd port) res option" where
  "sata_write get ah tmp b0 b2 buffer offset size' p =
     (if buffer AND 1 \<noteq> 0 then
        bindo (Some (vcopy get (even_ptr tmp) buffer size' p)) (sata_write_even get ah b0 b2 (even_ptr tmp) offset size')
      else sata_write_even get ah b0 b2 buffer offset size' p)"

section \<open>Reading from a disk\<close>

text \<open>
  What the driver relies on: a command register that takes the bit that is written and leaves the error register
  alone, and a disk of \<open>n\<close> sectors that answers the one pending command after some time without an error, if it is a well
  formed READ DMA EXT: a register FIS from the host of five words with the command bit set, the opcode and the bit for
  sector addresses; a header that is not for ATAPI and has the direction that \<^verbatim>\<open>sata.h\<close> gives for a read; sectors that
  exist, and regions of their length.  Then the sectors are stored at the addresses of the regions, in order, and
  the slot's bit is cleared, not before.  Nothing is asked of the disk for any other command.
\<close>

definition command_addresses :: "command_header list \<Rightarrow> command_table list \<Rightarrow> nat \<Rightarrow> u64 list" where
  "command_addresses hs ts slot =
     concat (map region_bytes (take (unat (prdt_entry_count (hs ! slot))) (prdt (ts ! slot))))"

definition command_sectors :: "nat \<Rightarrow> (nat \<Rightarrow> u8) \<Rightarrow> u8 list \<Rightarrow> u8 list" where
  "command_sectors ss disk bs =
     map disk [unat (fis_sector bs) * ss..<unat (fis_sector bs) * ss + unat (fis_sectors bs) * ss]"

definition read_command :: "nat \<Rightarrow> nat \<Rightarrow> command_header list \<Rightarrow> command_table list \<Rightarrow> nat \<Rightarrow> bool" where
  "read_command ss n hs ts slot \<longleftrightarrow>
     (let bs = fis_bytes (command_fis (ts ! slot)); h = hs ! slot
      in bs ! 0 = 0x27 \<and> bit (bs ! 1) 7 \<and> bs ! 2 = 0x25 \<and> bit (bs ! 7) 6 \<and> command_fis_length h = 5 \<and>
         header_atapi h = 0 \<and> direction h = 1 \<and>
         0 < fis_sectors bs \<and> unat (fis_sector bs) + unat (fis_sectors bs) \<le> n \<and>
         length (command_addresses hs ts slot) = unat (fis_sectors bs) * ss)"

definition reads_disk :: "'d ahci \<Rightarrow> u64 \<Rightarrow> nat \<Rightarrow> nat \<Rightarrow> (nat \<Rightarrow> u8) \<Rightarrow> bool" where
  "reads_disk ah mb ss n disk \<longleftrightarrow>
     (let ci = mm_rd (ahci_regs ah) (mb + 0x38); err = mm_rd (ahci_regs ah) (mb + 0x30) in
     (\<forall>v d. ci d = 0 \<longrightarrow> ci (mm_wr (ahci_regs ah) (mb + 0x38) v d) = v) \<and>
     (\<forall>v d. err (mm_wr (ahci_regs ah) (mb + 0x38) v d) = err d) \<and>
     (\<forall>hs ts d m slot. slot < 32 \<longrightarrow> ci d = push_bit slot 1 \<longrightarrow> err d = 0 \<longrightarrow> read_command ss n hs ts slot \<longrightarrow>
        (\<exists>t. (\<forall>k < t. ci (fst ((ahci_run ah hs ts ^^ k) (d, m))) = push_bit slot 1 \<and>
                      err (fst ((ahci_run ah hs ts ^^ k) (d, m))) = 0) \<and>
             ci (fst ((ahci_run ah hs ts ^^ t) (d, m))) = 0 \<and> err (fst ((ahci_run ah hs ts ^^ t) (d, m))) = 0 \<and>
             snd ((ahci_run ah hs ts ^^ t) (d, m)) =
               store_list (command_addresses hs ts slot) (command_sectors ss disk (fis_bytes (command_fis (ts ! slot)))) m)))"

definition port_idle :: "'d ahci \<Rightarrow> 'd port \<Rightarrow> bool" where
  "port_idle ah p \<longleftrightarrow> port_reg ah 0x38 p = 0 \<and> port_reg ah 0x30 p = 0"

definition disk_port :: "nat \<Rightarrow> 'd port \<Rightarrow> bool" where
  "disk_port ss p \<longleftrightarrow> port_ok p \<and> (\<forall>a \<in> set (map header_atapi (command_list p)). a = 0) \<and> has_device p \<and> \<not> is_atapi p \<and> \<not> queue_capable p \<and>
     0 < ss \<and> unat (sector_size p) = ss \<and> unat (sector_count p) \<le> 2 ^ 48 \<and> unat (sector_count p) * ss < 2 ^ 64"

lemma disk_port_setup: "same_setup p p' \<Longrightarrow> disk_port ss p' = disk_port ss p"
  by (simp add: disk_port_def same_setup_def port_ok_def)

lemma wait_all_idle: "port_idle ah p \<Longrightarrow> wait_all ah p = Some (True, p\<lparr>scheduled_slots := 0\<rparr>)"
  by (simp add: port_idle_def wait_all.simps)

lemma length_region_loop: "length (snd (region_loop get buffer size' offset lastp ri arr)) = length arr"
proof (induction get buffer size' offset lastp ri arr rule: region_loop.induct)
  case (1 get buffer size' offset lastp ri arr)
  then show ?case
    by (subst region_loop.simps) (auto simp: region_step_def split: option.splits if_splits)
qed

definition same_port :: "'d port \<Rightarrow> 'd port \<Rightarrow> bool" where
  "same_port p p' \<longleftrightarrow> has_device p' = has_device p \<and> is_atapi p' = is_atapi p \<and> sector_count p' = sector_count p \<and>
     sector_size p' = sector_size p \<and> queue_capable p' = queue_capable p \<and> port_mmio p' = port_mmio p \<and>
     (port_ok p \<longrightarrow> port_ok p') \<and> map header_atapi (command_list p') = map header_atapi (command_list p)"

lemma same_port_setup: "same_setup p p' \<Longrightarrow> same_port p p'"
  by (simp add: same_setup_def same_port_def port_ok_def)

lemma same_port_trans: "same_port p q \<Longrightarrow> same_port q r \<Longrightarrow> same_port p r"
  by (simp add: same_port_def)

lemma port_ok_upd_table:
  "port_ok p \<Longrightarrow> (i < 32 \<Longrightarrow> length (prdt (f (command_tables p ! i))) = 16) \<Longrightarrow> port_ok (upd_table i f p)"
  using set_update_subset_insert[of "command_tables p" i "f (command_tables p ! i)"]
  by (cases "i < 32") (auto simp: port_ok_def upd_table_def list_update_beyond)

lemma port_ok_upd_header: "port_ok p \<Longrightarrow> port_ok (upd_header i f p)"
  by (simp add: port_ok_def upd_header_def)

lemma same_port_updates:
  "(port_ok p \<Longrightarrow> i < 32 \<Longrightarrow> length (prdt (f (command_tables p ! i))) = 16) \<Longrightarrow> same_port p (upd_table i f p)"
  "(\<And>h. header_atapi (g h) = header_atapi h) \<Longrightarrow> same_port p (upd_header i g p)" "same_port p (issue_slot ah slot p)" "same_port p p"
proof -
  assume h: "port_ok p \<Longrightarrow> i < 32 \<Longrightarrow> length (prdt (f (command_tables p ! i))) = 16"
  have "port_ok p \<Longrightarrow> port_ok (upd_table i f p)" by (rule port_ok_upd_table) (simp_all add: h)
  then show "same_port p (upd_table i f p)" by (simp add: same_port_def upd_table_def)
next
  assume "\<And>h. header_atapi (g h) = header_atapi h"
  then have "map header_atapi ((command_list p)[i := g (command_list p ! i)]) = map header_atapi (command_list p)"
    by (cases "i < length (command_list p)") (simp_all add: map_update list_update_same_conv list_update_beyond)
  then show "same_port p (upd_header i g p)"
    using port_ok_upd_header[of p i g] by (simp add: same_port_def upd_header_def)
next
  show "same_port p (issue_slot ah slot p)"
    by (simp add: same_port_def issue_slot_def set_port_reg_def Let_def port_ok_def)
qed (simp add: same_port_def)

lemma port_ok_prdt: "port_ok p \<Longrightarrow> i < 32 \<Longrightarrow> length (prdt (command_tables p ! i)) = 16"
  by (simp add: port_ok_def)

lemma setup_h2d_same: "same_port p (setup_h2d slot cmd lba n dev p)"
  unfolding setup_h2d_def by (rule same_port_updates) (simp add: port_ok_prdt)

lemma setup_region_same: "same_port p (snd (setup_physical_region get slot buffer size' p))"
  using length_region_loop[of get buffer size' 0 None "- 1" "prdt (command_tables p ! unat slot)"]
  by (auto simp: setup_physical_region_def port_ok_prdt intro!: same_port_updates split: prod.splits)

lemma submit_same_port: "same_port p (snd (submit get ah cmd dir lba size' buffer p))"
proof (cases "find_free_slot ah p")
  case (Some slot)
  let ?q = "setup_h2d slot cmd lba (ucast (sectors_for p size')) (push_bit 6 1) p"
  obtain r p1 where r: "setup_physical_region get slot buffer size' ?q = (r, p1)" by fastforce
  have "same_port p p1"
    using same_port_trans[OF setup_h2d_same setup_region_same[of ?q get slot buffer size']] r by simp
  then show ?thesis using Some r
    by (auto simp: submit_def intro!: same_port_trans[OF _ same_port_updates(3)] same_port_trans[OF _ same_port_updates(2)] split: sum.splits)
qed (simp add: submit_def same_port_updates)

lemma disk_port_same: "same_port p p' \<Longrightarrow> disk_port ss p \<Longrightarrow> disk_port ss p'"
  by (simp add: disk_port_def same_port_def)

lemma phys_bytes_length: "phys_bytes get v n = Some as \<Longrightarrow> length as = n"
  by (auto simp: phys_bytes_def those_Some dest: arg_cong[of _ _ length])

text \<open>One read: it is sent, it succeeds, and the sectors are in memory.\<close>

lemma read_sectors:
  assumes disk: "reads_disk ah (port_mmio p) ss (unat (sector_count p)) disk" and p: "disk_port ss p" "port_idle ah p"
    and buf: "even buffer" "phys_bytes (pt_get s) buffer (unat size') = Some as"
    and n: "0 < unat size'" "unat size' \<le> 61440" "unat size' = k * ss"
    and range: "unat lba + k \<le> unat (sector_count p)"
  shows "\<exists>slot p1 p2. send_read (pt_get s) ah lba size' buffer p = Some (Ret (Inr slot, p1)) \<and>
    wait_for ah slot p1 = Some (True, p2) \<and> port_idle ah p2 \<and> disk_port ss p2 \<and> port_mmio p2 = port_mmio p \<and>
    sector_size p2 = sector_size p \<and> sector_count p2 = sector_count p \<and>
    port_mem p2 = store_list as (map disk [unat lba * ss..<unat lba * ss + unat size']) (port_mem p)"
proof -
  have ss: "sector_size p \<noteq> 0" "unat (sector_size p) = ss" "0 < ss" using p(1) by (auto simp: disk_port_def)
  have k: "0 < k" "k \<le> unat size'" "ss \<le> unat size'" using n ss(3) by (auto intro: Nat.gr0I)
  have sz: "unat size' + unat (sector_size p) \<le> 2 ^ 64" using k n(2) ss(2) by simp
  have "unat (sectors_for p size') * ss < (k + 1) * ss" "k * ss \<le> unat (sectors_for p size') * ss"
    using sectors_for_bounds[OF ss(1) sz] n(3) ss(2) by simp_all
  then have "unat (sectors_for p size') < k + 1" "k \<le> unat (sectors_for p size')"
    using ss(3) by (simp_all only: mult_less_cancel2 mult_le_cancel2)
  then have cnt: "unat (sectors_for p size') = k" by simp
  let ?p = "p\<lparr>scheduled_slots := 0\<rparr>"
  have lc: "unat (lba + sectors_for p size') = unat lba + k"
    using range p(1) unfolding cnt[symmetric] by (intro unat_add_u64) (simp add: disk_port_def)
  have chk: "check_command_valid lba size' buffer p = None"
    using p(1) buf(1) range lc cnt k n(2)
    by (auto simp: check_command_valid_def disk_port_def Let_def not_less unat_le_iff unat_less_iff and_one_eq even_iff_mod_2_eq_zero)
  have slot: "find_free_slot ah ?p = Some 0"
    using p(2) by (simp add: find_free_slot_def port_idle_def upt_rec)
  let ?q = "setup_h2d 0 0x25 lba (ucast (sectors_for ?p size')) (push_bit 6 1) ?p"
  have ok: "port_ok ?p" using p(1) by (simp add: disk_port_def port_ok_def)
  have "\<exists>m p1. setup_physical_region (pt_get s) 0 buffer size' ?q = (Inr m, p1)"
    using p(1) buf(2) n(2) by (intro setup_region_small) (auto simp: disk_port_def port_ok_def setup_h2d_def)
  then obtain p1 where sub: "submit (pt_get s) ah 0x25 1 lba size' buffer ?p = (Inr 0, p1)"
    using slot by (auto simp: submit_def)
  have send: "send_read (pt_get s) ah lba size' buffer p = Some (Ret (Inr 0, p1))"
    using ss chk sub wait_all_idle[OF p(2)] p(1) by (simp add: send_read_def send_command_def disk_port_def)
  have lba: "unat lba < 2 ^ 48" using range p(1) k by (simp add: disk_port_def)
  have cnt': "unat (sectors_for ?p size') < 2 ^ 16" using cnt k n(2) by (simp add: sectors_for_def)
  have iss: "slot_holds (pt_get s) 0x25 1 lba size' buffer 0 p1"
    "port_dev p1 = mm_wr (ahci_regs ah) (port_mmio p + 0x38) 1 (port_dev p)" "port_mem p1 = port_mem p"
    using submit_issues[OF ok _ _ cnt' lba sub] ss(1) sz p(2) by (auto simp: port_idle_def port_reg_def)
  have same: "same_port p p1"
    using submit_same_port[where get = "pt_get s" and ah = ah and p = ?p and cmd = "0x25" and dir = 1 and lba = lba and size' = size' and buffer = buffer] sub by (simp add: same_port_def port_ok_def)
  then have mm: "port_mmio p1 = port_mmio p" "unat (sector_size p1) = ss" using ss(2) by (simp_all add: same_port_def)
  have adr: "command_addresses (command_list p1) (command_tables p1) 0 = as"
    and sec1: "fis_sector (fis_bytes (command_fis (command_tables p1 ! 0))) = lba"
    and op: "fis_bytes (command_fis (command_tables p1 ! 0)) ! 0 = 0x27" "bit (fis_bytes (command_fis (command_tables p1 ! 0)) ! 1) 7"
      "fis_bytes (command_fis (command_tables p1 ! 0)) ! 2 = 0x25" "bit (fis_bytes (command_fis (command_tables p1 ! 0)) ! 7) 6"
    and hd: "4 * unat (command_fis_length (command_list p1 ! 0)) = length (fis_bytes (command_fis (command_tables p1 ! 0)))"
      "direction (command_list p1 ! 0) = 1"
    and b: "unat (fis_sectors (fis_bytes (command_fis (command_tables p1 ! 0)))) * ss < unat size' + ss"
      "unat size' \<le> unat (fis_sectors (fis_bytes (command_fis (command_tables p1 ! 0)))) * ss"
    using iss(1) buf(2) mm(2) by (auto simp: slot_holds_def Let_def command_addresses_def)
  from b have "unat (fis_sectors (fis_bytes (command_fis (command_tables p1 ! 0)))) * ss < (k + 1) * ss"
    "k * ss \<le> unat (fis_sectors (fis_bytes (command_fis (command_tables p1 ! 0)))) * ss" unfolding n(3) by simp_all
  then have "unat (fis_sectors (fis_bytes (command_fis (command_tables p1 ! 0)))) < k + 1"
    "k \<le> unat (fis_sectors (fis_bytes (command_fis (command_tables p1 ! 0))))"
    using ss(3) by (simp_all only: mult_less_cancel2 mult_le_cancel2)
  then have "unat (fis_sectors (fis_bytes (command_fis (command_tables p1 ! 0)))) = k" by simp
  with sec1 n(3) have sec: "unat (fis_sector (fis_bytes (command_fis (command_tables p1 ! 0)))) = unat lba"
    "unat (fis_sectors (fis_bytes (command_fis (command_tables p1 ! 0)))) * ss = unat size'" by simp_all
  have "length (command_list p1) = 32" using same p(1) by (simp add: same_port_def disk_port_def port_ok_def)
  then have "header_atapi (command_list p1 ! 0) \<in> set (map header_atapi (command_list p1))" by simp
  then have at: "header_atapi (command_list p1 ! 0) = 0" using same p(1) by (simp only: same_port_def disk_port_def)
  have "length (fis_bytes (command_fis (command_tables p1 ! 0))) = 20" by (simp add: fis_bytes_def)
  then have fl: "command_fis_length (command_list p1 ! 0) = 5" using hd(1) by (simp add: word_unat_eq_iff)
  have rc: "read_command ss (unat (sector_count p)) (command_list p1) (command_tables p1) 0"
    using op hd(2) at fl adr sec1 \<open>unat (fis_sectors _) = k\<close> k(1) range n(3) phys_bytes_length[OF buf(2)]
    by (simp add: read_command_def Let_def word_neq_0_conv[symmetric] unat_gt_0[symmetric])
  let ?run = "\<lambda>i. (ahci_run ah (command_list p1) (command_tables p1) ^^ i) (port_dev p1, port_mem p1)"
  have ci: "mm_rd (ahci_regs ah) (port_mmio p + 0x38) (port_dev p1) = push_bit 0 1"
    "mm_rd (ahci_regs ah) (port_mmio p + 0x30) (port_dev p1) = 0"
    using disk p(2) unfolding iss(2) by (simp_all add: reads_disk_def port_idle_def port_reg_def Let_def)
  obtain i where i: "\<And>j. j < i \<Longrightarrow> mm_rd (ahci_regs ah) (port_mmio p + 0x38) (fst (?run j)) = push_bit 0 1 \<and>
      mm_rd (ahci_regs ah) (port_mmio p + 0x30) (fst (?run j)) = 0"
    "mm_rd (ahci_regs ah) (port_mmio p + 0x38) (fst (?run i)) = 0" "mm_rd (ahci_regs ah) (port_mmio p + 0x30) (fst (?run i)) = 0"
    "snd (?run i) = store_list as (command_sectors ss disk (fis_bytes (command_fis (command_tables p1 ! 0)))) (port_mem p1)"
    using disk[unfolded reads_disk_def Let_def] ci rc adr by (metis zero_less_numeral)
  let ?r = "(pause ah ^^ i) p1"
  have r: "port_dev ?r = fst (?run i)" "port_mem ?r = snd (?run i)" "same_setup p1 ?r"
    by (simp_all add: pause_iterate Let_def same_setup_def)
  have "wait_for ah 0 p1 = wait_for ah 0 ?r"
    using i(1) mm by (intro wait_for_steps) (simp add: pause_iterate port_reg_def Let_def)
  also have "\<dots> = Some (True, ?r\<lparr>scheduled_slots := scheduled_slots ?r AND NOT 1\<rparr>)"
    using i(2,3) r same by (subst wait_for.simps) (simp add: test_done_def port_reg_def same_port_def same_setup_def)
  finally have w: "wait_for ah 0 p1 = Some (True, ?r\<lparr>scheduled_slots := scheduled_slots ?r AND NOT 1\<rparr>)" .
  have s2: "same_port p (?r\<lparr>scheduled_slots := scheduled_slots ?r AND NOT 1\<rparr>)"
    using same r(3) by (auto simp: same_port_def same_setup_def port_ok_def)
  show ?thesis
    using send w disk_port_same[OF s2 p(1)] s2 i(2,3,4) r iss(3) sec same
    by (intro exI[of _ 0] exI[of _ p1] exI[of _ "?r\<lparr>scheduled_slots := scheduled_slots ?r AND NOT 1\<rparr>"])
      (simp add: port_idle_def port_reg_def same_port_def command_sectors_def)
qed

lemma store_list_read:
  assumes "distinct as" "length as \<le> length xs"
  shows "map (store_list as xs m) as = take (length as) xs"
  using assms
proof (induction as xs m rule: store_list.induct)
  case (1 a as x xs m)
  have keep: "store_list as xs m' a = m' a" if "a \<notin> set as" for as xs m' and a :: u64
    using that by (induction as xs m' rule: store_list.induct) auto
  from 1 show ?case by (simp add: keep fun_upd_def)
qed auto

lemma in_range_word:
  assumes "unat offset + unat size' \<le> unat (sector_count p) * ss" "disk_port ss p"
  shows "\<not> offset + size' > sector_count p * sector_size p" "sector_size p \<noteq> 0"
    "unat (offset mod sector_size p) = unat offset mod ss" "unat (offset div sector_size p) = unat offset div ss"
    "unat (offset + size') = unat offset + unat size'"
proof -
  have p: "unat (sector_size p) = ss" "0 < ss" "unat (sector_count p) * ss < 2 ^ 64" using assms(2) by (auto simp: disk_port_def)
  have "unat (sector_count p * sector_size p) = unat (sector_count p) * ss"
    using unat_mult_u64[of "sector_count p" "sector_size p"] p by simp
  moreover show "unat (offset + size') = unat offset + unat size'" using assms(1) p(3) by (intro unat_add_u64) simp
  ultimately show "\<not> offset + size' > sector_count p * sector_size p" using assms(1) by (simp add: unat_less_iff)
  show "sector_size p \<noteq> 0" using p by auto
  show "unat (offset mod sector_size p) = unat offset mod ss" "unat (offset div sector_size p) = unat offset div ss"
    using p(1) by (simp_all add: unat_mod unat_div)
qed

text \<open>The port after a transfer is ready for the next one.\<close>

definition still_ready :: "'d ahci \<Rightarrow> nat \<Rightarrow> 'd port \<Rightarrow> 'd port \<Rightarrow> bool" where
  "still_ready ah ss p p' \<longleftrightarrow> disk_port ss p' \<and> port_idle ah p' \<and> port_mmio p' = port_mmio p \<and> sector_count p' = sector_count p"

lemma still_ready_mem [simp]: "still_ready ah ss p (p'\<lparr>port_mem := m\<rparr>) = still_ready ah ss p p'"
  by (simp add: still_ready_def disk_port_def port_ok_def port_idle_def port_reg_def)

lemma sata_read_aligned:
  assumes disk: "reads_disk ah (port_mmio p) ss (unat (sector_count p)) disk" and p: "disk_port ss p" "port_idle ah p"
    and buf: "even buffer" "phys_bytes (pt_get s) buffer (unat size') = Some as"
    and n: "0 < size'" "unat size' \<le> 61440" "ss dvd unat size'" "ss dvd unat offset"
    and range: "unat offset + unat size' \<le> unat (sector_count p) * ss"
  shows "\<exists>p'. sata_read (pt_get s) ah tmp b0 b2 buffer offset size' p = Some (Ret (Inr size', p')) \<and>
    port_mem p' = store_list as (map disk [unat offset..<unat offset + unat size']) (port_mem p) \<and> still_ready ah ss p p'"
proof -
  note w = in_range_word[OF range p(1)]
  obtain k where k: "unat size' = k * ss" using n(3) by (auto simp: dvd_def mult.commute)
  obtain j where j: "unat offset = j * ss" using n(4) by (auto simp: dvd_def mult.commute)
  have ss: "0 < ss" "unat (sector_size p) = ss" using p(1) by (auto simp: disk_port_def)
  have "(j + k) * ss \<le> unat (sector_count p) * ss" using range k j by (simp add: add_mult_distrib)
  then have lba: "unat (offset div sector_size p) = j" "unat (offset div sector_size p) + k \<le> unat (sector_count p)"
    using ss w(4) j by (simp_all only: mult_le_cancel2) simp_all
  have m: "offset mod sector_size p = 0" "size' mod sector_size p = 0"
    using w(3) j k ss by (simp_all add: word_cong_unat unat_mod)
  have "0 < unat size'" using n(1) by (simp add: unat_less_iff)
  from read_sectors[OF disk p buf this n(2) k lba(2)] obtain slot p1 p2 where
    "send_read (pt_get s) ah (offset div sector_size p) size' buffer p = Some (Ret (Inr slot, p1))"
    "wait_for ah slot p1 = Some (True, p2)"
    "port_mem p2 = store_list as (map disk [unat offset..<unat offset + unat size']) (port_mem p)" "still_ready ah ss p p2"
    using lba(1) j by (auto simp: still_ready_def)
  then show ?thesis
    using w(1,2) m buf(1)
    by (simp add: sata_read_def sata_read_even_def and_wait_def Let_def and_one_eq even_iff_mod_2_eq_zero)
qed

text \<open>C19. Reading whole sectors: on an idle port with a disk that is not queue-capable, a read of one sector up to 60 KiB of whole sectors
  inside the disk, into a mapped buffer at an even address, returns the size, and the buffer's bytes are the disk's bytes from the
  offset on; nothing else in memory changes.  The controller is assumed to carry out a command table with a well-formed READ DMA EXT
  and no other (\<open>read_command\<close>: the type of a host-to-device FIS, the command bit, the opcode, LBA mode, the length of five words,
  the direction bit as \<open>sata.h\<close> documents it, sectors that exist and regions of the length of the data).\<close>

theorem aligned_read_returns_disk:
  assumes disk: "reads_disk ah (port_mmio p) ss (unat (sector_count p)) disk" and p: "disk_port ss p" "port_idle ah p"
    and buf: "even buffer" "phys_bytes (pt_get s) buffer (unat size') = Some as"
    and n: "0 < size'" "unat size' \<le> 61440" "ss dvd unat size'" "ss dvd unat offset"
    and range: "unat offset + unat size' \<le> unat (sector_count p) * ss"
  shows "\<exists>p'. sata_read (pt_get s) ah tmp b0 b2 buffer offset size' p = Some (Ret (Inr size', p')) \<and>
    port_mem p' = store_list as (map disk [unat offset..<unat offset + unat size']) (port_mem p)"
  using sata_read_aligned[OF assms] by blast

lemma phys_bytes_part:
  assumes "phys_bytes get v n = Some bs" "a + b \<le> n"
  shows "phys_bytes get (v + of_nat a) b = Some (take b (drop a bs))"
proof -
  have l: "map (\<lambda>i. get (v + of_nat i)) [0..<n] = map Some bs" using assms(1) by (simp add: phys_bytes_def those_Some)
  from arg_cong[OF l, of length] have len: "length bs = n" by simp
  have "get (v + of_nat i) = Some (bs ! i)" if "i < n" for i using arg_cong[OF l, of "\<lambda>xs. xs ! i"] that len by simp
  then show ?thesis
    using assms(2) len unfolding phys_bytes_def those_Some
    by (intro nth_equalityI) (simp_all add: add.assoc flip: of_nat_add)
qed

lemma sata_read_in_sectors:
  assumes disk: "reads_disk ah (port_mmio p) ss (unat (sector_count p)) disk" and p: "disk_port ss p" "port_idle ah p" "ss \<le> 4096" "even ss"
    and buf: "even buffer" "phys_bytes (pt_get s) buffer (unat size') = Some as"
    and sb: "even b0" "phys_bytes (pt_get s) b0 (k * ss) = Some bs" "distinct bs"
    and k: "k = 1 \<or> k = 2" "(unat offset + unat size') div ss + 1 = unat offset div ss + k"
    and na: "\<not> (ss dvd unat offset \<and> ss dvd unat size')"
    and range: "unat offset + unat size' \<le> unat (sector_count p) * ss" "unat offset div ss + k \<le> unat (sector_count p)"
  shows "\<exists>p'. sata_read (pt_get s) ah tmp b0 b2 buffer offset size' p = Some (Ret (Inr size', p')) \<and>
    port_mem p' = store_list as (map disk [2 * (unat offset div 2)..<2 * (unat offset div 2) + unat size'])
      (store_list bs (map disk [unat offset div ss * ss..<unat offset div ss * ss + k * ss]) (port_mem p)) \<and> still_ready ah ss p p'"
proof -
  note w = in_range_word[OF range(1) p(1)]
  let ?S = "sector_size p"
  let ?h = "2 * (unat offset mod ss div 2)"
  have ss: "0 < ss" "unat ?S = ss" "unat (sector_count p) \<le> 2 ^ 48" using p(1) by (auto simp: disk_port_def)
  have d: "unat offset = unat offset div ss * ss + unat offset mod ss" by simp
  have na': "\<not> (offset mod ?S = 0 \<and> size' mod ?S = 0)"
    using na w(3) ss(2) by (auto simp: word_cong_unat unat_mod dvd_eq_mod_eq_0)
  have n: "unat offset mod ss + unat size' < k * ss"
  proof -
    have "unat offset + unat size' < ((unat offset + unat size') div ss + 1) * ss"
      using ss(1) by (metis add.commute dividend_less_times_div mult.commute mult_Suc_right plus_1_eq_Suc)
    then show ?thesis using d unfolding k(2) add_mult_distrib by linarith
  qed
  have kS: "unat (of_nat k * ?S :: u64) = k * ss" using k(1) p(3) ss(2) by (subst unat_mult_u64) auto
  have b0: "phys_bytes (pt_get s) b0 (unat (of_nat k * ?S)) = Some bs" using sb(2) kS by simp
  have lba: "unat (offset div ?S) + k \<le> unat (sector_count p)" using range(2) w(4) by simp
  from read_sectors[OF disk p(1,2) sb(1) b0 _ _ kS lba] kS ss k(1) p(3) obtain slot p1 p2 where
    r: "send_read (pt_get s) ah (offset div ?S) (of_nat k * ?S) b0 p = Some (Ret (Inr slot, p1))" "wait_for ah slot p1 = Some (True, p2)"
      "port_mem p2 = store_list bs (map disk [unat offset div ss * ss..<unat offset div ss * ss + k * ss]) (port_mem p)" "still_ready ah ss p p2"
    using w(4) by (auto simp: still_ready_def)
  have "unat (half_words (offset mod ?S)) = ?h"
    using w(3) unat_u64[of "offset mod ?S"] by (simp add: half_words_def unat_div unat_word_ariths) 
  then have h: "half_words (offset mod ?S) = of_nat ?h" by (rule word_eq_of_nat)
  have hs: "?h + unat size' \<le> k * ss" using n by linarith
  have src: "phys_bytes (pt_get s) (b0 + half_words (offset mod ?S)) (unat size') = Some (take (unat size') (drop ?h bs))"
    unfolding h by (rule phys_bytes_part[OF sb(2) hs])
  have len: "length bs = k * ss" using sb(2) by (auto simp: phys_bytes_def those_Some dest: arg_cong[of _ _ length])
  have "map (port_mem p2) bs = map disk [unat offset div ss * ss..<unat offset div ss * ss + k * ss]"
    unfolding r(3) using store_list_read[OF sb(3)] len by simp
  then have "map (port_mem p2) (take (unat size') (drop ?h bs)) =
      map disk (take (unat size') (drop ?h [unat offset div ss * ss..<unat offset div ss * ss + k * ss]))"
    by (simp only: take_map[symmetric] drop_map[symmetric])
  also have "\<dots> = map disk [unat offset div ss * ss + ?h..<unat offset div ss * ss + ?h + unat size']"
    using hs by simp
  also have "unat offset div ss * ss + ?h = 2 * (unat offset div 2)"
  proof -
    obtain e where e: "ss = 2 * e" using p(4) by (rule evenE)
    have "unat offset div 2 = (unat offset mod ss + unat offset div ss * e * 2) div 2"
      using d unfolding e by (metis add.commute mult.assoc mult.commute)
    also have "\<dots> = unat offset mod ss div 2 + unat offset div ss * e" by (subst div_mult_self1) simp_all
    finally show ?thesis unfolding e by simp
  qed
  finally have bytes: "map (port_mem p2) (take (unat size') (drop ?h bs)) =
      map disk [2 * (unat offset div 2)..<2 * (unat offset div 2) + unat size']" .
  have ev: "\<not> buffer AND 1 \<noteq> 0" using buf(1) by (simp add: and_one_eq even_iff_mod_2_eq_zero)
  have dv: "unat ((offset + size') div ?S) = (unat offset + unat size') div ss" using ss w(5) by (simp add: unat_div)
  have fin: "and_wait ah (\<lambda>p1. bindo (Some (vcopy (pt_get s) buffer (b0 + half_words (offset mod ?S)) size' p1)) (\<lambda>p. Some (Ret (Inr size', p))))
      (send_read (pt_get s) ah (offset div ?S) (of_nat k * ?S) b0 p) =
    Some (Ret (Inr size', p2\<lparr>port_mem := store_list as (map disk [2 * (unat offset div 2)..<2 * (unat offset div 2) + unat size']) (port_mem p2)\<rparr>))"
    using r(1,2) src bytes buf(2) by (simp add: and_wait_def vcopy_def)
  note unf = sata_read_def sata_read_even_def Let_def if_not_P[OF ev] if_not_P[OF w(1)] if_not_P[OF w(2)] if_not_P[OF na']
  show ?thesis
  proof (cases "k = 1")
    case True
    then have one: "offset div ?S = (offset + size') div ?S" using k(2) dv w(4) by (simp add: word_cong_unat)
    show ?thesis unfolding unf if_P[OF one] using fin r(4) True by (simp add: r(3))
  next
    case False
    then have k2: "k = 2" using k(1) by simp
    have "unat offset div ss < 2 ^ 63" using range(2) ss(3) k2 by simp
    then have "unat (offset div ?S + 1) = unat offset div ss + 1" using w(4) by (subst unat_add_u64) simp_all
    then have two: "offset div ?S \<noteq> (offset + size') div ?S" "offset div ?S + 1 = (offset + size') div ?S"
      using k(2) dv w(4) k2 by (simp_all add: word_cong_unat)
    have m2: "of_nat k * ?S = ?S * 2" using k2 by simp
    show ?thesis unfolding unf if_not_P[OF two(1)] if_P[OF two(2)] using fin r(4) unfolding m2 by (simp add: r(3))
  qed
qed

text \<open>Reading inside one sector: the bytes come from the offset rounded down to an even one, because
  the offset into the sector is halved for a pointer to 16-bit words; at an odd offset the read
  returns success and the bytes one before those asked for.\<close>

theorem read_in_sector_rounds_offset:
  assumes disk: "reads_disk ah (port_mmio p) ss (unat (sector_count p)) disk" and p: "disk_port ss p" "port_idle ah p" "ss \<le> 4096" "even ss"
    and buf: "even buffer" "phys_bytes (pt_get s) buffer (unat size') = Some as"
    and sb: "even b0" "phys_bytes (pt_get s) b0 ss = Some bs" "distinct bs"
    and n: "unat offset mod ss + unat size' < ss" "0 < unat offset mod ss \<or> 0 < size'"
    and range: "unat offset + unat size' \<le> unat (sector_count p) * ss"
  shows "\<exists>p'. sata_read (pt_get s) ah tmp b0 b2 buffer offset size' p = Some (Ret (Inr size', p')) \<and>
    port_mem p' = store_list as (map disk [2 * (unat offset div 2)..<2 * (unat offset div 2) + unat size'])
      (store_list bs (map disk [unat offset div ss * ss..<unat offset div ss * ss + ss]) (port_mem p))"
proof -
  have ss: "0 < ss" using p(1) by (simp add: disk_port_def)
  have d: "unat offset = unat offset div ss * ss + unat offset mod ss" by simp
  have "(unat offset + unat size') div ss = (unat offset div ss * ss + (unat offset mod ss + unat size')) div ss" by simp
  also have "\<dots> = unat offset div ss" using n(1) ss by (simp only: div_mult_self3) simp
  finally have one: "(unat offset + unat size') div ss + 1 = unat offset div ss + 1" by simp
  have pos: "0 < unat offset mod ss \<or> 0 < unat size'" using n(2) by (simp add: unat_less_iff)
  then have "unat offset div ss * ss < unat (sector_count p) * ss" using range d by linarith
  then have lba: "unat offset div ss + 1 \<le> unat (sector_count p)" by simp
  have "\<not> (ss dvd unat offset \<and> ss dvd unat size')" using pos n(1) by (auto dest: dvd_imp_le)
  from sata_read_in_sectors[OF disk p buf sb(1) _ sb(3) _ one this range lba] show ?thesis using sb(2) by auto
qed

section \<open>A disk that answers at once\<close>

definition demo_ahci :: "u64 \<Rightarrow> nat \<Rightarrow> (nat \<Rightarrow> u8) \<Rightarrow> (u64 \<Rightarrow> u32) ahci" where
  "demo_ahci mb ss disk = \<lparr>ahci_regs = registers (\<lambda>a. NOT 0) (\<lambda>a. 0),
     ahci_run = (\<lambda>hs ts (d, m).
       case find (\<lambda>i. d (mb + 0x38) = push_bit i 1) [0..<32] of
         None \<Rightarrow> (d, m)
       | Some i \<Rightarrow> (d(mb + 0x38 := 0),
           store_list (command_addresses hs ts i) (command_sectors ss disk (fis_bytes (command_fis (ts ! i)))) m))\<rparr>"

lemma find_bit:
  assumes "slot < 32"
  shows "find (\<lambda>i. (push_bit slot 1 :: u32) = push_bit i 1) [0..<32] = Some slot"
proof -
  have "(push_bit slot 1 :: u32) \<noteq> push_bit j 1" if "j < slot" for j
    using that assms by (auto dest: arg_cong[of _ _ "\<lambda>w. bit w slot"] simp: bit_simps)
  then show ?thesis unfolding find_Some_iff using assms by (intro exI[of _ slot]) (simp del: push_bit_of_1)
qed

definition demo_disk :: "nat \<Rightarrow> u8" where "demo_disk i = of_nat i"

lemma demo_reads_disk: "reads_disk (demo_ahci mb ss disk) mb ss n disk"
  unfolding reads_disk_def Let_def
  by (intro conjI allI impI exI[of _ 1]) (simp_all add: demo_ahci_def find_bit[simplified])

definition demo_port :: "(u64 \<Rightarrow> u32) port" where
  "demo_port = \<lparr>has_device = True, is_atapi = False, sector_count = 8, sector_size = 512, queue_capable = False,
     running = True, scheduled_slots = 0, port_mmio = 0x100, command_list = replicate 32 zero_header,
     command_tables = replicate 32 zero_table, port_dev = (\<lambda>_. 0), port_mem = (\<lambda>_. 0)\<rparr>"

lemma demo_disk_port: "disk_port 512 demo_port" "port_idle (demo_ahci 0x100 512 disk) demo_port"
  by (simp_all add: disk_port_def demo_port_def port_ok_def zero_table_def zero_header_def prdt_max_16 port_idle_def port_reg_def demo_ahci_def)

lemma phys_bytes_window:
  assumes "unat a + n \<le> 2 ^ 32"
  shows "phys_bytes (pt_get s) (Ti 64 + a) n = Some (map (\<lambda>i. a + of_nat i) [0..<n])"
proof -
  have "pt_get s (Ti 64 + a + of_nat i) = Some (a + of_nat i)" if "i < n" for i
  proof -
    have i: "unat (of_nat i :: u64) = i" using that assms by (intro unat_of_nat_u64) simp
    then have "unat (a + of_nat i) = unat a + i" using that assms by (subst unat_add_u64) simp_all
    then have lt: "unat (a + of_nat i) < 2 ^ 32" using that assms by simp
    then have "unat (Ti 64 + (a + of_nat i)) = unat (Ti 64) + unat (a + of_nat i)"
      by (subst unat_add_u64) (simp_all add: Ti_values)
    then show ?thesis using lt by (simp add: pt_get_def unat_le_iff unat_less_iff Ti_values add.assoc)
  qed
  then show ?thesis by (simp add: phys_bytes_def those_Some)
qed

lemma window_distinct: "unat (a :: u64) + n \<le> 2 ^ 32 \<Longrightarrow> distinct (map (\<lambda>i. a + of_nat i) [0..<n])"
proof (rule distinct_map[THEN iffD2], intro conjI inj_onI)
  fix x y assume n: "unat a + n \<le> 2 ^ 32" and "x \<in> set [0..<n]" "y \<in> set [0..<n]" "a + of_nat x = a + of_nat y"
  then have "unat (of_nat x :: u64) = unat (of_nat y :: u64)" "x < 2 ^ 64" "y < 2 ^ 64" by simp_all
  then show "x = y" by (simp only: unat_of_nat_u64)
qed simp

lemma demo_setup:
  "reads_disk (demo_ahci 0x100 512 demo_disk) (port_mmio demo_port) 512 (unat (sector_count demo_port)) demo_disk"
  "port_mem demo_port = (\<lambda>_. 0)" "sector_count demo_port = 8"
  "phys_bytes (pt_get demo_pt) (Ti 64 + 0x1000) (unat (1024 :: u64)) = Some (map (\<lambda>i. 0x1000 + of_nat i) [0..<1024])"
  "phys_bytes (pt_get demo_pt) (Ti 64 + 0x1000) (unat (2 :: u64)) = Some [0x1000, 0x1001]"
  "phys_bytes (pt_get demo_pt) (Ti 64 + 0x3000) 512 = Some (map (\<lambda>i. 0x3000 + of_nat i) [0..<512])"
  "even (Ti 64 + 0x1000)" "even (Ti 64 + 0x3000)"
proof -
  have "port_mmio demo_port = 0x100" by (simp add: demo_port_def)
  then show "reads_disk (demo_ahci 0x100 512 demo_disk) (port_mmio demo_port) 512 (unat (sector_count demo_port)) demo_disk" by (simp only: demo_reads_disk)
  show "phys_bytes (pt_get demo_pt) (Ti 64 + 0x1000) (unat (1024 :: u64)) = Some (map (\<lambda>i. 0x1000 + of_nat i) [0..<1024])"
    using phys_bytes_window[of "0x1000" 1024 demo_pt] by (simp del: upt_rec_numeral)
  have "[0..<2] = [0, Suc 0]" by (simp add: upt_rec)
  then show "phys_bytes (pt_get demo_pt) (Ti 64 + 0x1000) (unat (2 :: u64)) = Some [0x1000, 0x1001]"
    using phys_bytes_window[of "0x1000" 2 demo_pt] by (simp del: upt_rec_numeral)
  show "phys_bytes (pt_get demo_pt) (Ti 64 + 0x3000) 512 = Some (map (\<lambda>i. 0x3000 + of_nat i) [0..<512])"
    using phys_bytes_window[of "0x3000" 512 demo_pt] by (simp del: upt_rec_numeral)
qed (simp_all add: demo_port_def Ti_values even_iff_mod_2_eq_zero)

lemma aligned_read_returns_disk_witness:
  "\<exists>p'. sata_read (pt_get demo_pt) (demo_ahci 0x100 512 demo_disk) 0 0 0 (Ti 64 + 0x1000) 512 1024 demo_port = Some (Ret (Inr 1024, p')) \<and>
    port_mem p' = store_list (map (\<lambda>i. 0x1000 + of_nat i) [0..<1024]) (map demo_disk [512..<1536]) (\<lambda>_. 0)"
  using aligned_read_returns_disk[where offset = 512 and tmp = 0 and ?b0.0 = 0 and ?b2.0 = 0,
      OF demo_setup(1) demo_disk_port demo_setup(7,4)]
  by (simp add: demo_setup(2,3) del: upt_rec_numeral)

lemma read_in_sector_rounds_offset_witness:
  "\<exists>p'. sata_read (pt_get demo_pt) (demo_ahci 0x100 512 demo_disk) 0 (Ti 64 + 0x3000) 0 (Ti 64 + 0x1000) 5 2 demo_port = Some (Ret (Inr 2, p')) \<and>
    port_mem p' = store_list [0x1000, 0x1001] (map demo_disk [4..<6])
      (store_list (map (\<lambda>i. 0x3000 + of_nat i) [0..<512]) (map demo_disk [0..<512]) (\<lambda>_. 0))"
proof -
  have d: "distinct (map (\<lambda>i. 0x3000 + of_nat i :: u64) [0..<512])" by (rule window_distinct) simp
  show ?thesis
    using read_in_sector_rounds_offset[where offset = 5 and tmp = 0 and ?b2.0 = 0,
        OF demo_setup(1) demo_disk_port _ _ demo_setup(7,5,8,6) d]
    by (simp add: demo_setup(2,3) del: upt_rec_numeral)
qed

lemma setup_physical_region_covers_witness:
  "case setup_physical_region (pt_get demo_pt) 0 (Ti 64 + 0x1800) 6000 demo_port of
      (Inr n, p') \<Rightarrow> unat n \<le> 16 \<and>
        phys_bytes (pt_get demo_pt) (Ti 64 + 0x1800) (unat (6000 :: u64)) =
          Some (concat (map region_bytes (take (unat n) (prdt (command_tables p' ! unat (0 :: u8))))))
    | (Inl e, p') \<Rightarrow> e = FRAGMENTED_MEMORY \<or>
        e = INVALID_MEMORY \<and> phys_bytes (pt_get demo_pt) (Ti 64 + 0x1800) (unat (6000 :: u64)) = None"
  by (rule setup_physical_region_covers) (simp_all add: demo_port_def zero_table_def prdt_max_16)

text \<open>C21. A command that the driver sends is the command it was asked for, when the first sector plus the number of
  sectors does not exceed \<open>2 ^ 64 - 1\<close>, the size with one sector does not either and the disk has at most \<open>2 ^ 48\<close> sectors: in a slot that neither
  the device nor the driver was using, the FIS encodes the opcode, the first sector and the number of sectors that hold the
  bytes, inside the disk; the regions are the buffer; only that slot's bit is set and no other slot changes.  Where the sum of
  first sector and number wraps, the driver's range check passes by mistake and sends another command; that case is excluded.\<close>

theorem commands_reach_device:
  assumes "port_ok p" "unat size' + unat (sector_size p) \<le> 2 ^ 64" "unat (sector_count p) \<le> 2 ^ 48"
    and "unat lba + unat (sectors_for p size') < 2 ^ 64"
    and "(if w then send_write else send_read) (pt_get s) ah lba size' buffer p = Some (Ret (Inr slot, p'))"
  shows "\<exists>p1. (if queue_capable p then p1 = p else wait_all ah p = Some (True, p1)) \<and>
    unat slot < 32 \<and> slot_free ah (unat slot) p1 \<and>
    slot_holds (pt_get s) ((if queue_capable p then 0x26 else 0x25) + (if w then 0x10 else 0)) (if w then 0 else 1)
      lba size' buffer (unat slot) p' \<and>
    unat lba + unat (sectors_for p size') \<le> unat (sector_count p) \<and>
    port_dev p' = mm_wr (ahci_regs ah) (port_mmio p + 0x38) (port_reg ah 0x38 p1 OR push_bit (unat slot) 1) (port_dev p1) \<and>
    scheduled_slots p' = scheduled_slots p1 OR push_bit (unat slot) 1 \<and> port_mem p' = port_mem p1 \<and>
    (\<forall>i. i \<noteq> unat slot \<longrightarrow> command_tables p' ! i = command_tables p ! i \<and> command_list p' ! i = command_list p ! i)"
proof -
  let ?cmd = "(if queue_capable p then 0x26 else 0x25) + (if w then 0x10 else 0)" and ?dir = "if w then 0 else 1"
  have "send_command (pt_get s) ah ?cmd ?dir lba size' buffer p = Some (Ret (Inr slot, p'))"
    using assms(5) by (auto simp: send_read_def send_write_def split: if_splits)
  from send_command_issues[OF assms(1-4) this] obtain p1 where
    p1: "if queue_capable p then p1 = p else wait_all ah p = Some (True, p1)" "port_ok p1" "same_setup p p1" "sector_size p1 \<noteq> 0"
      "unat lba < 2 ^ 48" "unat (sectors_for p1 size') < 2 ^ 16" "unat lba + unat (sectors_for p1 size') \<le> unat (sector_count p1)"
    and s: "submit (pt_get s) ah ?cmd ?dir lba size' buffer p1 = (Inr slot, p')" by blast
  have "unat size' + unat (sector_size p1) \<le> 2 ^ 64" using assms(2) p1(3) by (simp add: same_setup_def)
  from submit_issues[OF p1(2,4) this p1(6,5) s] show ?thesis
    using p1 by (intro exI[of _ p1]) (auto simp: same_setup_def sectors_for_def)
qed

lemma commands_reach_device_witness:
  "\<exists>slot p' p1. send_write (pt_get demo_pt) (demo_ahci 0x100 512 demo_disk) 2 1024 (Ti 64 + 0x1000) demo_port = Some (Ret (Inr slot, p')) \<and>
    unat slot < 32 \<and> slot_free (demo_ahci 0x100 512 demo_disk) (unat slot) p1 \<and>
    slot_holds (pt_get demo_pt) 0x35 0 2 1024 (Ti 64 + 0x1000) (unat slot) p'"
proof -
  let ?ah = "demo_ahci 0x100 512 demo_disk" and ?p = "demo_port\<lparr>scheduled_slots := 0\<rparr>"
  have c: "check_command_valid 2 1024 (Ti 64 + 0x1000) demo_port = None" "demo_port\<lparr>scheduled_slots := 0\<rparr> = demo_port"
    by (simp_all add: check_command_valid_def sectors_for_def demo_port_def Ti_values)
  have f: "find_free_slot ?ah demo_port = Some 0"
    using demo_disk_port(2)[of demo_disk] by (simp add: find_free_slot_def port_idle_def upt_rec demo_port_def)
  have "phys_bytes (pt_get demo_pt) (Ti 64 + 0x1000) (unat (1024 :: u64)) \<noteq> None" unfolding demo_setup(4) by simp
  moreover have "port_ok demo_port" using demo_disk_port(1) by (simp add: disk_port_def)
  ultimately have "\<exists>n p'. setup_physical_region (pt_get demo_pt) 0 (Ti 64 + 0x1000) 1024
      (setup_h2d 0 0x35 2 (ucast (sectors_for demo_port 1024)) (push_bit 6 1) demo_port) = (Inr n, p')"
    by (intro setup_region_small) (simp_all add: setup_h2d_def port_ok_def)
  then obtain p' where "submit (pt_get demo_pt) ?ah 0x35 0 2 1024 (Ti 64 + 0x1000) demo_port = (Inr 0, p')"
    using f by (auto simp: submit_def)
  moreover have "sector_size demo_port \<noteq> 0" "\<not> queue_capable demo_port" by (simp_all add: demo_port_def)
  ultimately have r: "send_write (pt_get demo_pt) ?ah 2 1024 (Ti 64 + 0x1000) demo_port = Some (Ret (Inr 0, p'))"
    using c wait_all_idle[OF demo_disk_port(2)] by (simp add: send_write_def send_command_def)
  have "port_ok demo_port" "sector_size demo_port = 512" "sector_count demo_port = 8" "\<not> queue_capable demo_port"
    by (simp_all add: demo_port_def port_ok_def zero_table_def prdt_max_16)
  then show ?thesis using commands_reach_device[of demo_port 1024 2 True demo_pt "demo_ahci 0x100 512 demo_disk" "Ti 64 + 0x1000" 0 p'] r
    by (auto simp: sectors_for_def)
qed

end
