(* ===== verification/BlockDevice.thy ===== *)
theory BlockDevice
  imports SataDisk
begin

text \<open>
  Block devices, \<^verbatim>\<open>include/file/device.h\<close> and \<^verbatim>\<open>src/high/file/device.cpp\<close>, and their partitions,
  \<^verbatim>\<open>include/file/GPT.h\<close>, \<^verbatim>\<open>src/high/file/GPT.cpp\<close>, \<^verbatim>\<open>include/file/partition.h\<close>,
  \<^verbatim>\<open>src/high/file/partition.cpp\<close>.  A buffer argument is the list of the bytes it holds, passed in and
  returned changed.  Memory from \<open>new\<close> and uninitialised arrays have the contents \<open>junk n\<close>, \<open>n\<close> bytes that
  the program does not determine.
\<close>

section \<open>Devices\<close>

text \<open>\<open>read(buffer, offset, size)\<close>: the result, the buffer afterwards, the state of the device.\<close>

type_synonym 's transfer = "u64 \<Rightarrow> u64 \<Rightarrow> u8 list \<Rightarrow> 's \<Rightarrow> ((device_error + u64) \<times> u8 list \<times> 's) res option"

record 's device =
  dev_size :: u64
  dev_read :: "'s transfer"
  dev_write :: "'s transfer"

record 's device_table =
  dt_has_init :: bool
  dt_devices :: "'s device list"
  dt_size :: u64

definition devices_init :: "'s device_table \<Rightarrow> 's device_table" where
  "devices_init t = (if dt_has_init t then t else \<lparr>dt_has_init = True, dt_devices = [], dt_size = 0\<rparr>)"

definition push_device :: "'s device \<Rightarrow> 's device_table \<Rightarrow> 's device_table" where
  "push_device d t =
     (let t1 = devices_init t in t1\<lparr>dt_devices := dt_devices t1 @ [d], dt_size := dt_size t1 + 1\<rparr>)"

definition device_count :: "'s device_table \<Rightarrow> u64 \<times> 's device_table" where
  "device_count t = (let t1 = devices_init t in (dt_size t1, t1))"

definition get_device :: "u64 \<Rightarrow> 's device_table \<Rightarrow> ('s device \<times> 's device_table) res" where
  "get_device i t =
     (let t1 = devices_init t
      in if unat i < length (dt_devices t1) then Ret (dt_devices t1 ! unat i, t1) else Stop Undef)"

text \<open>The SATA disk with the caller's buffer at an address.\<close>

definition sata_block_read :: "(u64 \<Rightarrow> u64 option) \<Rightarrow> 'd ahci \<Rightarrow> u64 \<Rightarrow> u64 \<Rightarrow> u64 \<Rightarrow> u64 \<Rightarrow> 'd port transfer" where
  "sata_block_read get ah tmp b0 b2 buffer offset n buf p =
     (case phys_bytes get buffer (unat n) of
        None \<Rightarrow> Some (Stop Undef)
      | Some as \<Rightarrow>
          bindo (sata_read get ah tmp b0 b2 buffer offset n (p\<lparr>port_mem := store_list as buf (port_mem p)\<rparr>))
            (\<lambda>(r, p1). Some (Ret (r, map (port_mem p1) as, p1))))"

section \<open>Partitions\<close>

record 's partition =
  part_name :: "u8 list"
  part_type :: "u8 list"
  part_guid :: "u8 list"
  part_starting_lba :: u64
  part_ending_lba :: u64
  part_attributes :: u64
  part_dev :: "'s device"

text \<open>
  The result of the device is converted to \<open>size_t\<close> by way of \<open>operator bool\<close>: one for a success, zero for an error.
\<close>

definition result_as_size :: "device_error + u64 \<Rightarrow> u64" where
  "result_as_size r = (case r of Inl e \<Rightarrow> 0 | Inr n \<Rightarrow> 1)"

definition partition_read :: "'s partition \<Rightarrow> u64 \<Rightarrow> u64 \<Rightarrow> u8 list \<Rightarrow> 's \<Rightarrow> (u64 \<times> u8 list \<times> 's) res option" where
  "partition_read p offset n buf s =
     bindo (dev_read (part_dev p) (part_starting_lba p * 512 + offset) n buf s) (\<lambda>(r, buf', s1).
       Some (Ret (result_as_size r, buf', s1)))"

definition partition_write :: "'s partition \<Rightarrow> u64 \<Rightarrow> u64 \<Rightarrow> u8 list \<Rightarrow> 's \<Rightarrow> (u64 \<times> u8 list \<times> 's) res option" where
  "partition_write p offset n buf s =
     bindo (dev_write (part_dev p) (part_starting_lba p * 512 + offset) n buf s) (\<lambda>(r, buf', s1).
       Some (Ret (result_as_size r, buf', s1)))"

definition partition_exists :: "'s partition \<Rightarrow> bool" where
  "partition_exists p \<longleftrightarrow> list_ex (\<lambda>i. i \<noteq> 0) (part_type p)"

definition partition_size :: "'s partition \<Rightarrow> u64" where
  "partition_size p = part_ending_lba p - part_starting_lba p"

definition ext4_type :: "u8 list" where
  "ext4_type = [0xAF, 0x3D, 0xC6, 0x0F, 0x83, 0x84, 0x72, 0x47, 0x8E, 0x79, 0x3D, 0x69, 0xD8, 0x47, 0x7D, 0xE4]"

definition type_name :: "'s partition \<Rightarrow> string" where
  "type_name p = (if part_type p = ext4_type then ''ext4'' else ''unknown'')"

section \<open>The partition table\<close>

record 's gpt =
  gpt_dev :: "'s device"
  gpt_count :: u64
  gpt_starting_lba :: u64
  gpt_entry_size :: u64

definition efi_part :: "u8 list" where
  "efi_part = [0x45, 0x46, 0x49, 0x20, 0x50, 0x41, 0x52, 0x54]"

definition find_partitions :: "'s device \<Rightarrow> 's \<Rightarrow> ('s gpt option \<times> 's) res option" where
  "find_partitions d s =
     bindo (dev_read d 0 512 (replicate 512 0) s) (\<lambda>(r, sector, s1).
       if isl r then Some (Ret (None, s1))
       else if field_u16 sector 510 \<noteq> 0xAA55 then Some (Ret (None, s1))
       else bindo (dev_read d 512 512 sector s1) (\<lambda>(r, sector, s2).
         if isl r then Some (Ret (None, s2))
         else if take 8 sector \<noteq> efi_part then Some (Ret (None, s2))
         else Some (Ret (Some \<lparr>gpt_dev = d, gpt_count = ucast (field_u32 sector 0x50),
                gpt_starting_lba = field_u64 sector 0x48, gpt_entry_size = ucast (field_u32 sector 0x54)\<rparr>, s2))))"

text \<open>The name: every second byte from 0x38, up to the first zero.\<close>

definition partition_name :: "u8 list \<Rightarrow> nat \<Rightarrow> u8 list" where
  "partition_name buffer n = takeWhile (\<lambda>c. c \<noteq> 0) (map (\<lambda>i. buffer ! (0x38 + i * 2)) [0..<n])"

definition get_partition :: "(nat \<Rightarrow> u8 list) \<Rightarrow> 's gpt \<Rightarrow> u64 \<Rightarrow> 's \<Rightarrow> ('s partition option \<times> 's) res option" where
  "get_partition junk g index s =
     (let offset = gpt_starting_lba g * 512 + index * gpt_entry_size g; n = gpt_entry_size g
      in bindo (dev_read (gpt_dev g) offset n (junk (unat n)) s) (\<lambda>(r, buffer, s1).
         if isl r then Some (Ret (None, s1))
         else if unat n < 0x38 then Some (Stop Undef)
         else Some (Ret (Some \<lparr>part_name = partition_name buffer ((unat n - 0x38) div 2),
                part_type = take 16 buffer, part_guid = take 16 (drop 0x10 buffer),
                part_starting_lba = field_u64 buffer 0x20, part_ending_lba = field_u64 buffer 0x28,
                part_attributes = field_u64 buffer 0x30, part_dev = gpt_dev g\<rparr>, s1))))"

section \<open>The interface: reading an image\<close>

text \<open>
  What the file systems ask of a device: a read of \<open>n\<close> bytes at an offset that the device serves exactly returns \<open>n\<close>
  and the bytes of the medium, and leaves the device able to serve the next one.
\<close>

text \<open>The partition that an entry of \<open>n\<close> bytes at the offset \<open>o'\<close> of a medium describes.\<close>

definition entry_at :: "(nat \<Rightarrow> u8) \<Rightarrow> nat \<Rightarrow> nat \<Rightarrow> 's device \<Rightarrow> 's partition" where
  "entry_at img o' n d = \<lparr>part_name = takeWhile (\<lambda>c. c \<noteq> 0) (map (\<lambda>i. img (o' + 0x38 + i * 2)) [0..<(n - 0x38) div 2]),
     part_type = map img [o'..<o' + 16], part_guid = map img [o' + 16..<o' + 32],
     part_starting_lba = from_le (map img [o' + 32..<o' + 40]), part_ending_lba = from_le (map img [o' + 40..<o' + 48]),
     part_attributes = from_le (map img [o' + 48..<o' + 56]), part_dev = d\<rparr>"

locale disk_image =
  fixes rd :: "'s transfer"
    and img :: "nat \<Rightarrow> u8"
    and fits :: "nat \<Rightarrow> nat \<Rightarrow> bool"
    and ok :: "'s \<Rightarrow> bool"
  assumes read_exact: "ok s \<Longrightarrow> fits (unat off) (unat n) \<Longrightarrow> length buf = unat n \<Longrightarrow>
    \<exists>s'. rd off n buf s = Some (Ret (Inr n, map img [unat off..<unat off + unat n], s')) \<and> ok s'"
begin

lemma read_obtain:
  assumes "ok s" "fits (unat off) (unat n)" "length buf = unat n"
  obtains s' where "rd off n buf s = Some (Ret (Inr n, map img [unat off..<unat off + unat n], s'))" "ok s'"
  using read_exact[OF assms] by blast

lemma partition_read_exact:
  assumes p: "dev_read (part_dev p) = rd" and ok: "ok s"
    and base: "unat (part_starting_lba p) * 512 = b" "b + unat off + unat n < 2 ^ 64"
    and f: "fits (b + unat off) (unat n)" "length buf = unat n"
  shows "\<exists>s'. partition_read p off n buf s = Some (Ret (1, map (\<lambda>i. img (b + i)) [unat off..<unat off + unat n], s')) \<and> ok s'"
proof -
  have "unat (part_starting_lba p * 512) = b" using base by (subst unat_mult_u64) simp_all
  then have o: "unat (part_starting_lba p * 512 + off) = b + unat off" using base by (subst unat_add_u64) simp_all
  from f(1) have f': "fits (unat (part_starting_lba p * 512 + off)) (unat n)" unfolding o .
  obtain s' where s': "rd (part_starting_lba p * 512 + off) n buf s =
      Some (Ret (Inr n, map img [b + unat off..<b + unat off + unat n], s'))" "ok s'"
    by (rule read_obtain[OF ok f' f(2)]) (simp add: o)
  have "map img [b + unat off..<b + unat off + unat n] = map (\<lambda>i. img (b + i)) [unat off..<unat off + unat n]"
    by (rule nth_equalityI) (simp_all add: add.assoc)
  then show ?thesis using s' by (simp add: partition_read_def p result_as_size_def)
qed

text \<open>The partition table of a medium: the signatures, and an entry.\<close>

lemma find_partitions_found:
  assumes d: "dev_read d = rd" and ok: "ok s" and f: "fits 0 512" "fits 512 512"
    and sig: "img 510 = 0x55" "img 511 = 0xAA" "map img [512..<520] = efi_part"
  shows "\<exists>s'. find_partitions d s = Some (Ret (Some \<lparr>gpt_dev = d,
      gpt_count = ucast (from_le (map img [592..<596]) :: u32), gpt_starting_lba = from_le (map img [584..<592]),
      gpt_entry_size = ucast (from_le (map img [596..<600]) :: u32)\<rparr>, s')) \<and> ok s'"
proof -
  obtain s1 where s1: "rd 0 512 (replicate 512 0) s = Some (Ret (Inr 512, map img [0..<512], s1))" "ok s1"
    by (rule read_obtain[OF ok, of 0 512 "replicate 512 0"]) (simp_all add: f del: upt_rec_numeral)
  obtain s2 where s2: "rd 512 512 (map img [0..<512]) s1 = Some (Ret (Inr 512, map img [512..<1024], s2))" "ok s2"
    by (rule read_obtain[OF s1(2), of 512 512 "map img [0..<512]"]) (simp_all add: f del: upt_rec_numeral)
  have "[510..<512] = [510, 511 :: nat]" by simp
  then have "field_u16 (map img [0..<512]) 510 = 0xAA55"
    using sig by (simp add: field_u16_def drop_map take_map push_bit_eq_mult del: upt_rec_numeral)
  then show ?thesis using s1 s2 sig(3)
    by (simp add: find_partitions_def d field_u32_def field_u64_def drop_map take_map del: upt_rec_numeral)
qed

lemma get_partition_found:
  assumes d: "dev_read (gpt_dev g) = rd" and ok: "ok s"
    and o: "unat (gpt_starting_lba g) * 512 + unat i * unat (gpt_entry_size g) < 2 ^ 64" "56 \<le> unat (gpt_entry_size g)"
    and f: "fits (unat (gpt_starting_lba g) * 512 + unat i * unat (gpt_entry_size g)) (unat (gpt_entry_size g))"
    and j: "length (junk (unat (gpt_entry_size g))) = unat (gpt_entry_size g)"
  shows "\<exists>s'. get_partition junk g i s = Some (Ret (Some (entry_at img
      (unat (gpt_starting_lba g) * 512 + unat i * unat (gpt_entry_size g)) (unat (gpt_entry_size g)) (gpt_dev g)), s')) \<and> ok s'"
proof -
  let ?n = "unat (gpt_entry_size g)" and ?o = "unat (gpt_starting_lba g) * 512 + unat i * unat (gpt_entry_size g)"
  have "unat (gpt_starting_lba g * 512) = unat (gpt_starting_lba g) * 512" using o(1) by (subst unat_mult_u64) simp_all
  moreover have "unat (i * gpt_entry_size g) = unat i * ?n" using o(1) by (intro unat_mult_u64) simp
  ultimately have off: "unat (gpt_starting_lba g * 512 + i * gpt_entry_size g) = ?o" using o(1) by (subst unat_add_u64) simp_all
  obtain s' where s': "rd (gpt_starting_lba g * 512 + i * gpt_entry_size g) (gpt_entry_size g) (junk ?n) s =
      Some (Ret (Inr (gpt_entry_size g), map img [?o..<?o + ?n], s'))" "ok s'"
    by (rule read_obtain[OF ok, of "gpt_starting_lba g * 512 + i * gpt_entry_size g" "gpt_entry_size g" "junk ?n"]) (simp_all add: off f j)
  have name: "partition_name (map img [?o..<?o + ?n]) ((?n - 0x38) div 2) =
      takeWhile (\<lambda>c. c \<noteq> 0) (map (\<lambda>i. img (?o + 0x38 + i * 2)) [0..<(?n - 0x38) div 2])"
    unfolding partition_name_def using o(2) by (intro arg_cong[of _ _ "takeWhile _"]) (auto simp: algebra_simps)
  show ?thesis using s' o(2) name
    by (simp add: get_partition_def Let_def d entry_at_def field_u64_def drop_map take_map take_upt)
      (simp only: add.commute[of _ "?o"] simp_thms)
qed

end

section \<open>The SATA disk provides it\<close>

text \<open>Whole sectors up to 60 KiB, and ranges from an even offset that end in the same or the next sector.\<close>

definition sata_fits :: "nat \<Rightarrow> nat \<Rightarrow> nat \<Rightarrow> nat \<Rightarrow> bool" where
  "sata_fits ss cap off n \<longleftrightarrow> 0 < n \<and> n \<le> 61440 \<and> off + n \<le> cap \<and>
     (ss dvd off \<and> ss dvd n \<or>
      even off \<and> ((off + n) div ss = off div ss \<or> (off + n) div ss = Suc (off div ss) \<and> off div ss * ss + 2 * ss \<le> cap))"

definition sata_ready :: "'p pt_state \<Rightarrow> 'd ahci \<Rightarrow> u64 \<Rightarrow> u64 \<Rightarrow> nat \<Rightarrow> nat \<Rightarrow> (nat \<Rightarrow> u8) \<Rightarrow> 'd port \<Rightarrow> bool" where
  "sata_ready s ah b0 buffer ss cap disk p \<longleftrightarrow>
     reads_disk ah (port_mmio p) ss (unat (sector_count p)) disk \<and> disk_port ss p \<and> port_idle ah p \<and> ss \<le> 4096 \<and> even ss \<and>
     unat (sector_count p) * ss = cap \<and> even buffer \<and> even b0 \<and>
     (\<exists>as. phys_bytes (pt_get s) buffer 61440 = Some as \<and> distinct as) \<and>
     (\<exists>bs. phys_bytes (pt_get s) b0 (2 * ss) = Some bs \<and> distinct bs)"

lemma sata_ready_mem [simp]: "sata_ready s ah b0 buffer ss cap disk (p\<lparr>port_mem := m\<rparr>) = sata_ready s ah b0 buffer ss cap disk p"
  by (simp add: sata_ready_def disk_port_def port_ok_def port_idle_def port_reg_def)

lemma sata_ready_still: "sata_ready s ah b0 buffer ss cap disk p \<Longrightarrow> still_ready ah ss p p' \<Longrightarrow> sata_ready s ah b0 buffer ss cap disk p'"
  by (simp add: sata_ready_def still_ready_def)

lemma sata_fits_sectors:
  assumes f: "sata_fits ss cap off n" and ss: "0 < ss" and cap: "c * ss = cap" and na: "\<not> (ss dvd off \<and> ss dvd n)"
  shows "\<exists>k. (k = 1 \<or> k = 2) \<and> (off + n) div ss + 1 = off div ss + k \<and> off div ss + k \<le> c"
proof -
  from f na consider "(off + n) div ss = off div ss" | "(off + n) div ss = Suc (off div ss)" "off div ss * ss + 2 * ss \<le> cap"
    by (auto simp: sata_fits_def)
  then show ?thesis
  proof cases
    case 1
    have "off div ss * ss \<le> off" by simp
    moreover have "off < c * ss" using f cap by (auto simp: sata_fits_def)
    ultimately have "off div ss * ss < c * ss" by linarith
    then show ?thesis using 1 by (intro exI[of _ 1]) simp
  next
    case 2
    then have "(off div ss + 2) * ss \<le> c * ss" using cap by (simp add: add_mult_distrib)
    then have "off div ss + 2 \<le> c" using ss by (simp only: mult_le_cancel2)
    then show ?thesis using 2 by (intro exI[of _ 2]) simp
  qed
qed

lemma sata_block_read_exact:
  assumes r: "sata_ready s ah b0 buffer ss cap disk p" and f: "sata_fits ss cap (unat off) (unat n)" and l: "length buf = unat n"
  shows "\<exists>p'. sata_block_read (pt_get s) ah tmp b0 b2 buffer off n buf p =
      Some (Ret (Inr n, map disk [unat off..<unat off + unat n], p')) \<and> sata_ready s ah b0 buffer ss cap disk p'"
proof -
  obtain as bs where as: "phys_bytes (pt_get s) buffer 61440 = Some as" "distinct as"
    and bs: "phys_bytes (pt_get s) b0 (2 * ss) = Some bs" "distinct bs" using r by (auto simp: sata_ready_def)
  have n: "0 < n" "unat n \<le> 61440" "unat off + unat n \<le> unat (sector_count p) * ss"
    using f r by (auto simp: sata_fits_def sata_ready_def unat_less_iff)
  let ?as = "take (unat n) as"
  have b: "phys_bytes (pt_get s) buffer (unat n) = Some ?as" using phys_bytes_part[OF as(1), of 0 "unat n"] n(2) by simp
  have da: "distinct ?as" "length ?as = unat n" using as(2) phys_bytes_length[OF b] by simp_all
  let ?p = "p\<lparr>port_mem := store_list ?as buf (port_mem p)\<rparr>"
  have r': "sata_ready s ah b0 buffer ss cap disk ?p" using r by simp
  have R: "reads_disk ah (port_mmio ?p) ss (unat (sector_count ?p)) disk" "disk_port ss ?p" "port_idle ah ?p" "ss \<le> 4096" "even ss" "even buffer" "even b0"
    "unat off + unat n \<le> unat (sector_count ?p) * ss"
    using r' n(3) by (simp_all add: sata_ready_def)
  have "\<exists>p' m. sata_read (pt_get s) ah tmp b0 b2 buffer off n ?p = Some (Ret (Inr n, p')) \<and>
      port_mem p' = store_list ?as (map disk [unat off..<unat off + unat n]) m \<and> still_ready ah ss ?p p'"
  proof (cases "ss dvd unat off \<and> ss dvd unat n")
    case True
    then show ?thesis using sata_read_aligned[OF R(1-3,6) b n(1,2) _ _ R(8)] by blast
  next
    case False
    then have e: "even (unat off)" using f by (auto simp: sata_fits_def)
    have ss: "0 < ss" using R(2) by (simp add: disk_port_def)
    have cap: "unat (sector_count ?p) * ss = cap" using r by (simp add: sata_ready_def)
    obtain k where k: "k = 1 \<or> k = 2" "(unat off + unat n) div ss + 1 = unat off div ss + k" "unat off div ss + k \<le> unat (sector_count ?p)"
      using sata_fits_sectors[OF f ss cap False] by blast
    from k(1) have le: "0 + k * ss \<le> 2 * ss" by auto
    let ?bs = "take (k * ss) bs"
    have b': "phys_bytes (pt_get s) b0 (k * ss) = Some ?bs" using phys_bytes_part[OF bs(1) le] by simp
    have "distinct ?bs" using bs(2) by simp
    from sata_read_in_sectors[OF R(1-6) b R(7) b' this k(1,2) False R(8) k(3), unfolded dvd_mult_div_cancel[OF e]]
    show ?thesis by blast
  qed
  then obtain p' m where p': "sata_read (pt_get s) ah tmp b0 b2 buffer off n ?p = Some (Ret (Inr n, p'))"
    "port_mem p' = store_list ?as (map disk [unat off..<unat off + unat n]) m" "still_ready ah ss ?p p'" by blast
  have "map (port_mem p') ?as = map disk [unat off..<unat off + unat n]"
    unfolding p'(2) using store_list_read[OF da(1), of "map disk [unat off..<unat off + unat n]" m] da(2) by simp
  then show ?thesis using b p'(1) sata_ready_still[OF r' p'(3)] by (simp add: sata_block_read_def)
qed

interpretation sata: disk_image "sata_block_read (pt_get s) ah tmp b0 b2 buffer" disk "sata_fits ss cap" "sata_ready s ah b0 buffer ss cap disk"
  for s :: "'p pt_state" and ah :: "'d ahci" and tmp b0 b2 buffer disk ss cap
  by unfold_locales (rule sata_block_read_exact)

text \<open>The partition table of a disk: on a SATA disk with 512-byte sectors and a GUID partition table,
  \<open>find_partitions\<close> returns the count, the place and the size of the entries that are on the disk, and
  \<open>getPartition\<close> of any 128-byte entry returns exactly the name, type, identifier, range and
  attributes that the entry holds.\<close>

theorem gpt_partitions_found:
  assumes r: "sata_ready s ah b0 buffer 512 cap disk p" and d: "dev_read d = sata_block_read (pt_get s) ah tmp b0 b2 buffer"
    and sig: "disk 510 = 0x55" "disk 511 = 0xAA" "map disk [512..<520] = efi_part"
    and es: "from_le (map disk [596..<600]) = (128 :: u32)"
    and lba: "unat (from_le (map disk [584..<592]) :: u64) = L"
    and cap: "1024 \<le> cap" "L * 512 + unat i * 128 + 1024 \<le> cap" "cap < 2 ^ 64"
    and junk: "length (junk 128) = 128"
  shows "\<exists>p1 p2. find_partitions d p = Some (Ret (Some \<lparr>gpt_dev = d,
      gpt_count = ucast (from_le (map disk [592..<596]) :: u32), gpt_starting_lba = of_nat L, gpt_entry_size = 128\<rparr>, p1)) \<and>
    get_partition junk \<lparr>gpt_dev = d, gpt_count = ucast (from_le (map disk [592..<596]) :: u32),
      gpt_starting_lba = of_nat L, gpt_entry_size = 128\<rparr> i p1 = Some (Ret (Some (entry_at disk (L * 512 + unat i * 128) 128 d), p2))"
proof -
  let ?g = "\<lparr>gpt_dev = d, gpt_count = ucast (from_le (map disk [592..<596]) :: u32), gpt_starting_lba = of_nat L, gpt_entry_size = 128\<rparr>"
  have L: "(from_le (map disk [584..<592]) :: u64) = of_nat L" by (rule word_eq_of_nat[OF lba])
  have "sata_fits 512 cap 0 512" "sata_fits 512 cap 512 512" using cap(1) by (simp_all add: sata_fits_def)
  from sata.find_partitions_found[OF d r this sig] obtain p1 where
    p1: "find_partitions d p = Some (Ret (Some ?g, p1))" "sata_ready s ah b0 buffer 512 cap disk p1"
    unfolding es L by auto
  let ?o = "L * 512 + unat i * 128"
  have "?o div 512 = (?o + 128) div 512 \<or> (?o + 128) div 512 = Suc (?o div 512)" "even ?o" "?o div 512 * 512 \<le> ?o" by auto
  then have f: "sata_fits 512 cap ?o 128" using cap(2) by (auto simp: sata_fits_def)
  have uL: "unat (of_nat L :: u64) = L" using lba L by simp
  have "\<exists>p2. get_partition junk ?g i p1 = Some (Ret (Some (entry_at disk ?o 128 d), p2)) \<and> sata_ready s ah b0 buffer 512 cap disk p2"
    using sata.get_partition_found[of ?g s ah tmp b0 b2 buffer 512 cap disk p1 i junk] d p1(2) cap(2,3) f junk
    by (simp add: uL)
  then show ?thesis using p1(1) by blast
qed

definition demo_gpt_disk :: "nat \<Rightarrow> u8" where
  "demo_gpt_disk i =
     (if i = 510 then 0x55 else if i = 511 then 0xAA
      else if 512 \<le> i \<and> i < 520 then efi_part ! (i - 512)
      else if i = 584 then 2 else if i = 592 then 4 else if i = 596 then 128
      else if 1152 \<le> i \<and> i < 1168 then ext4_type ! (i - 1152)
      else if i = 1184 then 6 else if i = 1192 then 7 else if i = 1208 then 0x41 else 0)"

lemma demo_gpt_ready:
  "sata_ready demo_pt (demo_ahci 0x100 512 demo_gpt_disk) (Ti 64 + 0x100000) (Ti 64 + 0x1000) 512 4096 demo_gpt_disk demo_port"
proof -
  have m: "port_mmio demo_port = 0x100" "sector_count demo_port = 8" by (simp_all add: demo_port_def)
  have "even (Ti 64 + 0x1000)" "even (Ti 64 + 0x100000)" by (simp_all add: Ti_values even_iff_mod_2_eq_zero)
  moreover have "reads_disk (demo_ahci 0x100 512 demo_gpt_disk) (port_mmio demo_port) 512 (unat (sector_count demo_port)) demo_gpt_disk"
    unfolding m(1) by (rule demo_reads_disk)
  ultimately show ?thesis
    using demo_disk_port(1) demo_disk_port(2)[of demo_gpt_disk] phys_bytes_window[of "0x1000" 61440 demo_pt]
      phys_bytes_window[of "0x100000" 1024 demo_pt] window_distinct[of "0x1000" 61440] window_distinct[of "0x100000" 1024]
    by (simp add: sata_ready_def m(2) del: upt_rec_numeral)
qed

lemma gpt_partitions_found_witness:
  "\<exists>d p1 p2. find_partitions d demo_port = Some (Ret (Some \<lparr>gpt_dev = d, gpt_count = 4, gpt_starting_lba = 2, gpt_entry_size = 128\<rparr>, p1)) \<and>
    get_partition (\<lambda>n. replicate n 7) \<lparr>gpt_dev = d, gpt_count = 4, gpt_starting_lba = 2, gpt_entry_size = 128\<rparr> 1 p1 =
      Some (Ret (Some \<lparr>part_name = [0x41], part_type = ext4_type, part_guid = map (\<lambda>_. 0) [0..<16], part_starting_lba = 6,
        part_ending_lba = 7, part_attributes = 0, part_dev = d\<rparr>, p2))"
proof -
  let ?d = "\<lparr>dev_size = 4096, dev_read = sata_block_read (pt_get demo_pt) (demo_ahci 0x100 512 demo_gpt_disk) 0 (Ti 64 + 0x100000) 0 (Ti 64 + 0x1000),
     dev_write = (\<lambda>_ _ _ _. None)\<rparr>"
  have e: "entry_at demo_gpt_disk 1152 128 ?d = \<lparr>part_name = [0x41], part_type = ext4_type, part_guid = map (\<lambda>_. 0) [0..<16],
      part_starting_lba = 6, part_ending_lba = 7, part_attributes = 0, part_dev = ?d\<rparr>"
    by (simp add: entry_at_def demo_gpt_disk_def ext4_type_def upt_conv_Cons)
  have s: "map demo_gpt_disk [512..<520] = efi_part" "map demo_gpt_disk [596..<600] = [128, 0, 0, 0]"
    "map demo_gpt_disk [592..<596] = [4, 0, 0, 0]" "map demo_gpt_disk [584..<592] = [2, 0, 0, 0, 0, 0, 0, 0]"
    by (simp_all add: demo_gpt_disk_def efi_part_def)
  show ?thesis
    using gpt_partitions_found[OF demo_gpt_ready, of ?d 0 0 2 1 "\<lambda>n. replicate n 7"]
    by (intro exI[of _ ?d]) (simp add: s demo_gpt_disk_def[of 510] demo_gpt_disk_def[of 511] e del: upt_rec_numeral)
qed

end
