(* ===== verification/Ext4.thy ===== *)
theory Ext4
  imports BlockDevice
begin

text \<open>
  \<^verbatim>\<open>src/high/file/ext4.cpp\<close> with the interfaces of \<^verbatim>\<open>include/file/file.h\<close> and
  \<^verbatim>\<open>include/file/filesystem.h\<close>: reading ext4 file systems.  The structures on the disk are lists of bytes,
  their fields are read at their offsets; signed fields are extended with their sign, as written.  A directory whose
  entry has the size zero makes the iteration loop.
\<close>

lemma bindo_mono [partial_function_mono]:
  assumes "mono_option B" "\<And>y. mono_option (C y)"
  shows "mono_option (\<lambda>f. bindo (B f) (\<lambda>y. C y f))"
  unfolding bindo_def
  apply (rule bind_mono[OF assms(1)])
  subgoal for r by (cases r) (simp_all add: assms(2) partial_function_mono)
  done

section \<open>Structures on the disk\<close>

definition sfield32 :: "u8 list \<Rightarrow> nat \<Rightarrow> u64" where "sfield32 bs i = scast (field_u32 bs i)"
definition sfield16 :: "u8 list \<Rightarrow> nat \<Rightarrow> u64" where "sfield16 bs i = scast (field_u16 bs i)"

text \<open>Two 32-bit halves: the low one is extended with its sign before the high one is added.\<close>

definition lo_hi :: "u8 list \<Rightarrow> nat \<Rightarrow> nat \<Rightarrow> u64" where
  "lo_hi bs lo hi = sfield32 bs lo OR push_bit 32 (sfield32 bs hi)"

definition from_char_array :: "u8 list \<Rightarrow> u8 list" where
  "from_char_array cs = takeWhile (\<lambda>c. c \<noteq> 0) cs"

text \<open>The superblock.\<close>

definition sb_blocks_count :: "u8 list \<Rightarrow> u64" where "sb_blocks_count sb = lo_hi sb 4 336"
definition sb_magic :: "u8 list \<Rightarrow> u16" where "sb_magic sb = field_u16 sb 56"
definition sb_volume_name :: "u8 list \<Rightarrow> u8 list" where "sb_volume_name sb = from_char_array (take 16 (drop 120 sb))"
definition sb_incompatible_features :: "u8 list \<Rightarrow> u32" where "sb_incompatible_features sb = field_u32 sb 96"
definition sb_blocks_per_group :: "u8 list \<Rightarrow> u64" where "sb_blocks_per_group sb = sfield32 sb 32"
definition sb_inodes_per_group :: "u8 list \<Rightarrow> u64" where "sb_inodes_per_group sb = sfield32 sb 40"
definition sb_group_descriptor_size :: "u8 list \<Rightarrow> u64" where "sb_group_descriptor_size sb = sfield16 sb 254"
definition sb_inode_size :: "u8 list \<Rightarrow> u64" where "sb_inode_size sb = sfield16 sb 88"

definition sb_group_count :: "u8 list \<Rightarrow> u64 res" where
  "sb_group_count sb =
     (if sb_blocks_per_group sb = 0 then Stop Undef
      else Ret ((sb_blocks_count sb + sb_blocks_per_group sb - 1) div sb_blocks_per_group sb))"

text \<open>\<open>1024 << s_log_block_size\<close> in \<open>int\<close>; a shift past the sign bit is undefined.\<close>

definition sb_block_size :: "u8 list \<Rightarrow> u64 res" where
  "sb_block_size sb =
     (if field_u32 sb 24 > 21 then Stop Undef
      else Ret (scast (push_bit (unat (field_u32 sb 24)) 1024 :: u32)))"

text \<open>Block group descriptors.\<close>

definition bg_block_bitmap_index :: "u8 list \<Rightarrow> u64" where "bg_block_bitmap_index g = lo_hi g 0 32"
definition bg_inode_bitmap_index :: "u8 list \<Rightarrow> u64" where "bg_inode_bitmap_index g = lo_hi g 4 36"
definition bg_inode_table_index :: "u8 list \<Rightarrow> u64" where "bg_inode_table_index g = lo_hi g 8 40"
definition bg_exclude_bitmap_index :: "u8 list \<Rightarrow> u64" where "bg_exclude_bitmap_index g = lo_hi g 20 52"

text \<open>Inodes.\<close>

definition inode_mode :: "u8 list \<Rightarrow> u16" where "inode_mode i = field_u16 i 0"
definition inode_uses_extent_tree :: "u8 list \<Rightarrow> bool" where "inode_uses_extent_tree i \<longleftrightarrow> field_u32 i 32 AND 0x80000 \<noteq> 0"
definition inode_block_data :: "u8 list \<Rightarrow> u8 list" where "inode_block_data i = take 60 (drop 40 i)"
definition inode_get_size :: "u8 list \<Rightarrow> u64" where
  "inode_get_size i = ucast (field_u32 i 4) OR push_bit 32 (ucast (field_u32 i 108))"

section \<open>The file system\<close>

record 's ext4_filesystem =
  fs_part :: "'s partition"
  fs_name :: "u8 list"
  fs_group_count :: u64
  fs_group_size :: u64
  fs_groups :: "u8 list"
  fs_block_size :: u64
  fs_valid :: bool
  fs_sb :: "u8 list"

definition supported_features :: u32 where
  "supported_features = 0x2 OR 0x40 OR 0x80 OR 0x200"

text \<open>The constructor; the block size is not initialised on the error paths.\<close>

definition ext4_mount :: "(nat \<Rightarrow> u8 list) \<Rightarrow> u64 \<Rightarrow> 's partition \<Rightarrow> 's \<Rightarrow> ('s ext4_filesystem \<times> 's) res option" where
  "ext4_mount junk uninit part s =
     bindo (partition_read part 1024 1024 (junk 1024) s) (\<lambda>(_, sb, s1).
       let fs = \<lparr>fs_part = part, fs_name = sb_volume_name sb, fs_group_count = 0, fs_group_size = 0, fs_groups = [],
                 fs_block_size = uninit, fs_valid = False, fs_sb = sb\<rparr>
       in if sb_magic sb \<noteq> 0xEF53 then Some (Ret (fs, s1))
          else if sb_incompatible_features sb \<noteq> supported_features then Some (Ret (fs, s1))
          else
            bindo (Some (sb_block_size sb)) (\<lambda>bs.
            bindo (Some (sb_group_count sb)) (\<lambda>gc.
              let ds = sb_group_descriptor_size sb
              in bindo (partition_read part bs (gc * ds) (junk (unat (gc * ds))) s1) (\<lambda>(_, groups, s2).
                   Some (Ret (fs\<lparr>fs_block_size := bs, fs_group_count := gc, fs_group_size := ds, fs_groups := groups,
                     fs_valid := True\<rparr>, s2))))))"

definition create_ext4_filesystem :: "(nat \<Rightarrow> u8 list) \<Rightarrow> u64 \<Rightarrow> 's partition \<Rightarrow> 's \<Rightarrow> ('s ext4_filesystem option \<times> 's) res option" where
  "create_ext4_filesystem junk uninit part s =
     bindo (ext4_mount junk uninit part s) (\<lambda>(fs, s1). Some (Ret (if fs_valid fs then Some fs else None, s1)))"

definition create_filesystem :: "(nat \<Rightarrow> u8 list) \<Rightarrow> u64 \<Rightarrow> 's partition \<Rightarrow> 's \<Rightarrow> ('s ext4_filesystem option \<times> 's) res option" where
  "create_filesystem junk uninit part s =
     (if part_type part = ext4_type then create_ext4_filesystem junk uninit part s else Some (Ret (None, s)))"

definition get_inode :: "'s ext4_filesystem \<Rightarrow> u64 \<Rightarrow> 's \<Rightarrow> (u8 list \<times> 's) res option" where
  "get_inode fs inode_number s =
     (let ipg = sb_inodes_per_group (fs_sb fs)
      in if ipg = 0 then Some (Stop Undef)
         else
           let o' = unat ((inode_number - 1) div ipg * fs_group_size fs)
           in if o' + 64 > length (fs_groups fs) then Some (Stop Undef)
              else
                let offset = bg_inode_table_index (drop o' (fs_groups fs)) * fs_block_size fs
                             + (inode_number - 1) mod ipg * sb_inode_size (fs_sb fs);
                    n = min2 160 (sb_inode_size (fs_sb fs))
                in bindo (partition_read (fs_part fs) offset n (replicate (unat n) 0) s) (\<lambda>(_, buf, s1).
                     Some (Ret (buf @ replicate (160 - unat n) 0, s1))))"

section \<open>Files\<close>

record ext4_file =
  ef_inode_number :: u64
  ef_inode :: "u8 list"

text \<open>
  The extents of a leaf.  The part of each extent that is asked for is read to the start of the buffer, from the
  extent's start plus the offset in the file.
\<close>

fun read_leaves :: "'s ext4_filesystem \<Rightarrow> u8 list \<Rightarrow> nat \<Rightarrow> nat \<Rightarrow> u64 \<Rightarrow> u64 \<Rightarrow> u8 list \<Rightarrow> 's \<Rightarrow> (u8 list \<times> 's) res option" where
  "read_leaves fs ext 0 i offset n buf s = Some (Ret (buf, s))"
| "read_leaves fs ext (Suc k) i offset n buf s =
     (if i \<ge> 4 then Some (Stop Undef)
      else
        let leaf = drop (12 + 12 * i) ext;
            bs = fs_block_size fs;
            start_offset = ucast (field_u32 leaf 0) * bs;
            end_offset = start_offset + ucast (field_u16 leaf 4) * bs;
            common_start = max2 start_offset offset;
            common_end = min2 end_offset (offset + n);
            block = (ucast (field_u32 leaf 8) OR push_bit 32 (ucast (field_u16 leaf 6))) * bs
        in if common_start \<ge> common_end then read_leaves fs ext k (i + 1) offset n buf s
           else
             bindo (partition_read (fs_part fs) (common_start + block) (common_end - common_start)
                     (take (unat (common_end - common_start)) buf) s) (\<lambda>(_, b, s1).
               read_leaves fs ext k (i + 1) offset n (b @ drop (length b) buf) s1))"

definition read_region :: "'s ext4_filesystem \<Rightarrow> u8 list \<Rightarrow> u64 \<Rightarrow> u64 \<Rightarrow> u8 list \<Rightarrow> 's \<Rightarrow> (u8 list \<times> 's) res option" where
  "read_region fs ext offset n buf s =
     (if field_u16 ext 0 \<noteq> 0xF30A then Some (Stop (Panic ''invalid extent header''))
      else if field_u16 ext 6 = 0 then read_leaves fs ext (unat (field_u16 ext 2)) 0 offset n buf s
      else Some (Stop (Panic ''deep extent tree not implemented'')))"

definition is_directory :: "ext4_file \<Rightarrow> bool" where "is_directory f \<longleftrightarrow> inode_mode (ef_inode f) AND 0x4000 \<noteq> 0"
definition is_file :: "ext4_file \<Rightarrow> bool" where "is_file f \<longleftrightarrow> inode_mode (ef_inode f) AND 0x8000 \<noteq> 0"

definition file_read :: "'s ext4_filesystem \<Rightarrow> ext4_file \<Rightarrow> u64 \<Rightarrow> u64 \<Rightarrow> u8 list \<Rightarrow> 's \<Rightarrow> (u64 \<times> u8 list \<times> 's) res option" where
  "file_read fs f offset n buf s =
     (if \<not> inode_uses_extent_tree (ef_inode f) then Some (Stop (Panic ''not extent tree''))
      else bindo (read_region fs (inode_block_data (ef_inode f)) offset n buf s) (\<lambda>(buf', s1). Some (Ret (n, buf', s1))))"

definition file_get_size :: "ext4_file \<Rightarrow> u64" where "file_get_size f = inode_get_size (ef_inode f)"

datatype file_type = Normal_file | Directory | Extra

definition file_get_type :: "ext4_file \<Rightarrow> file_type" where
  "file_get_type f = (if is_directory f then Directory else if is_file f then Normal_file else Extra)"

section \<open>Directories\<close>

record directory_entry =
  de_inode :: u32
  de_flags :: u8
  de_name :: "u8 list"

text \<open>
  \<open>iterate_directory\<close>: the callback \<open>c\<close> works on an accumulator and the disk and says whether to go on.  The loop over
  the entries of a block, then the loop over the blocks.
\<close>

partial_function (option) iterate_block ::
    "(directory_entry \<Rightarrow> 'a \<Rightarrow> 's \<Rightarrow> (bool \<times> 'a \<times> 's) res option) \<Rightarrow> u64 \<Rightarrow> u8 list \<Rightarrow> u64 \<Rightarrow> 'a \<Rightarrow> 's \<Rightarrow> (bool \<times> 'a \<times> 's) res option" where
  "iterate_block c bs buffer offset acc s =
     (if \<not> offset < bs then Some (Ret (True, acc, s))
      else if unat offset + 8 > length buffer then Some (Stop Undef)
      else
        let e = drop (unat offset) buffer;
            offset' = offset + ucast (field_u16 e 4);
            len = unat (field_u8 e 6)
        in if field_u32 e 0 = 0 then iterate_block c bs buffer offset' acc s
           else if unat offset + 8 + len > length buffer then Some (Stop Undef)
           else
             bindo (c \<lparr>de_inode = field_u32 e 0, de_flags = field_u8 e 7, de_name = from_char_array (take len (drop 8 e))\<rparr> acc s)
               (\<lambda>(go, acc', s'). if go then iterate_block c bs buffer offset' acc' s' else Some (Ret (False, acc', s'))))"

partial_function (option) iterate_blocks ::
    "'s ext4_filesystem \<Rightarrow> ext4_file \<Rightarrow> (directory_entry \<Rightarrow> 'a \<Rightarrow> 's \<Rightarrow> (bool \<times> 'a \<times> 's) res option)
     \<Rightarrow> u64 \<Rightarrow> u8 list \<Rightarrow> 'a \<Rightarrow> 's \<Rightarrow> ('a \<times> 's) res option" where
  "iterate_blocks fs f c i buffer acc s =
     (if \<not> i < file_get_size f then Some (Ret (acc, s))
      else
        bindo (file_read fs f i (fs_block_size fs) buffer s) (\<lambda>(_, buffer', s1).
        bindo (iterate_block c (fs_block_size fs) buffer' 0 acc s1) (\<lambda>(go, acc', s2).
          if go then iterate_blocks fs f c (i + fs_block_size fs) buffer' acc' s2 else Some (Ret (acc', s2)))))"

definition iterate_directory :: "(nat \<Rightarrow> u8 list) \<Rightarrow> 's ext4_filesystem \<Rightarrow> ext4_file
    \<Rightarrow> (directory_entry \<Rightarrow> 'a \<Rightarrow> 's \<Rightarrow> (bool \<times> 'a \<times> 's) res option) \<Rightarrow> 'a \<Rightarrow> 's \<Rightarrow> ('a \<times> 's) res option" where
  "iterate_directory junk fs f c acc s =
     (if \<not> is_directory f then Some (Stop (Panic ''not a directory''))
      else iterate_blocks fs f c 0 (junk (unat (fs_block_size fs))) acc s)"

definition get_directory_entry_count :: "(nat \<Rightarrow> u8 list) \<Rightarrow> 's ext4_filesystem \<Rightarrow> ext4_file \<Rightarrow> 's \<Rightarrow> (u64 \<times> 's) res option" where
  "get_directory_entry_count junk fs f s = iterate_directory junk fs f (\<lambda>de n s. Some (Ret (True, n + 1, s))) 0 s"

text \<open>\<open>get_directory_entries\<close>: the caller's buffer is a list of names and types.\<close>

definition entry_type :: "u8 \<Rightarrow> file_type" where
  "entry_type flags = (if flags = 2 then Directory else if flags = 1 then Normal_file else Extra)"

definition put_entry :: "u64 \<Rightarrow> u64 \<Rightarrow> directory_entry \<Rightarrow> u64 \<times> (u8 list \<times> file_type) list \<Rightarrow> 's
    \<Rightarrow> (bool \<times> (u64 \<times> (u8 list \<times> file_type) list) \<times> 's) res option" where
  "put_entry offset n de = (\<lambda>(i, buffer) s.
     if i \<ge> n then Some (Ret (False, (i, buffer), s))
     else if i \<ge> offset then
       if unat (i - offset) \<ge> length buffer then Some (Stop Undef)
       else Some (Ret (True, (i + 1, buffer[unat (i - offset) := (de_name de, entry_type (de_flags de))]), s))
     else Some (Ret (True, (i + 1, buffer), s)))"

definition get_directory_entries :: "(nat \<Rightarrow> u8 list) \<Rightarrow> 's ext4_filesystem \<Rightarrow> ext4_file \<Rightarrow> (u8 list \<times> file_type) list \<Rightarrow> u64 \<Rightarrow> u64 \<Rightarrow> 's
    \<Rightarrow> ((u64 \<times> (u8 list \<times> file_type) list) \<times> 's) res option" where
  "get_directory_entries junk fs f buffer offset n s = iterate_directory junk fs f (put_entry offset n) (0, buffer) s"

section \<open>Paths\<close>

text \<open>The callback of \<open>open\<close>: on the entry with the name, its number and inode, and stop.\<close>

definition find_entry :: "'s ext4_filesystem \<Rightarrow> u8 list \<Rightarrow> directory_entry \<Rightarrow> ext4_file option \<Rightarrow> 's
    \<Rightarrow> (bool \<times> ext4_file option \<times> 's) res option" where
  "find_entry fs name de acc s =
     (if de_name de = name then
        bindo (get_inode fs (ucast (de_inode de)) s) (\<lambda>(i, s1).
          Some (Ret (False, Some \<lparr>ef_inode_number = ucast (de_inode de), ef_inode = i\<rparr>, s1)))
      else Some (Ret (True, acc, s)))"

definition slash :: u8 where "slash = 0x2F"

text \<open>The loop of \<open>open\<close>; \<open>remaining\<close> is the path without its terminating zero.\<close>

function open_loop :: "(nat \<Rightarrow> u8 list) \<Rightarrow> 's ext4_filesystem \<Rightarrow> ext4_file \<Rightarrow> u8 list \<Rightarrow> 's \<Rightarrow> (ext4_file option \<times> 's) res option" where
  "open_loop junk fs cur [] s = Some (Ret (Some cur, s))"
| "open_loop junk fs cur (c # path) s =
     (if c = slash then open_loop junk fs cur path s
      else if \<not> is_directory cur then Some (Ret (None, s))
      else
        bindo (iterate_directory junk fs cur (find_entry fs (takeWhile (\<lambda>c. c \<noteq> slash) (c # path))) None s) (\<lambda>(r, s1).
          case r of
            None \<Rightarrow> Some (Ret (None, s1))
          | Some next_file \<Rightarrow> open_loop junk fs next_file (dropWhile (\<lambda>c. c \<noteq> slash) (c # path)) s1))"
  by pat_completeness auto
termination
  by (relation "measure (\<lambda>(junk, fs, cur, path, s). length path)") (auto simp: length_dropWhile_le less_Suc_eq_le)

definition fs_open :: "(nat \<Rightarrow> u8 list) \<Rightarrow> 's ext4_filesystem \<Rightarrow> u8 list \<Rightarrow> 's \<Rightarrow> (ext4_file option \<times> 's) res option" where
  "fs_open junk fs path s =
     bindo (get_inode fs 2 s) (\<lambda>(i, s1). open_loop junk fs \<lparr>ef_inode_number = 2, ef_inode = i\<rparr> path s1)"

end
