(* ===== verification/Ext4Files.thy ===== *)
theory Ext4Files
  imports Ext4
begin

text \<open>
  What the ext4 code of \<^verbatim>\<open>src/high/file/ext4.cpp\<close> finds on a medium: reads through the extents, inodes, directories,
  paths.  The lemmas hold for every device that serves an image exactly (the locale \<open>disk_image\<close>); the properties
  instantiate them with the SATA disk.
\<close>

section \<open>Reading through the extents\<close>

text \<open>The range of a file that a leaf covers, and whether a read meets it, computed as in \<open>read_region\<close>.\<close>

definition leaf_at :: "u8 list \<Rightarrow> nat \<Rightarrow> u8 list" where "leaf_at ext i = drop (12 + 12 * i) ext"
definition leaf_block :: "u8 list \<Rightarrow> nat" where "leaf_block leaf = unat (field_u32 leaf 0)"
definition leaf_len :: "u8 list \<Rightarrow> nat" where "leaf_len leaf = unat (field_u16 leaf 4)"
definition leaf_start :: "u8 list \<Rightarrow> u64" where
  "leaf_start leaf = ucast (field_u32 leaf 8) OR push_bit 32 (ucast (field_u16 leaf 6))"

definition leaf_hit :: "u64 \<Rightarrow> u8 list \<Rightarrow> u64 \<Rightarrow> u64 \<Rightarrow> bool" where
  "leaf_hit bs leaf offset n \<longleftrightarrow>
     max (ucast (field_u32 leaf 0) * bs) offset
     < min (ucast (field_u32 leaf 0) * bs + ucast (field_u16 leaf 4) * bs) (offset + n)"

lemma read_leaves_miss:
  "\<forall>j. i \<le> j \<and> j < i + k \<longrightarrow> \<not> leaf_hit (fs_block_size fs) (leaf_at ext j) offset n \<Longrightarrow> i + k \<le> 4 \<Longrightarrow>
   read_leaves fs ext (k + m) i offset n buf s = read_leaves fs ext m (i + k) offset n buf s"
proof (induction k arbitrary: i)
  case (Suc k)
  have "\<not> leaf_hit (fs_block_size fs) (leaf_at ext i) offset n" using Suc.prems by auto
  moreover have "read_leaves fs ext (k + m) (i + 1) offset n buf s = read_leaves fs ext m (i + 1 + k) offset n buf s"
    using Suc.prems by (intro Suc.IH) auto
  ultimately show ?case using Suc.prems(2) unfolding leaf_hit_def leaf_at_def not_less
    by (simp add: Let_def del: max.bounded_iff min.bounded_iff)
qed simp

text \<open>A read inside one leaf: the bytes come from the leaf's start plus the offset in the file.\<close>

definition read_inside :: "u64 \<Rightarrow> u8 list \<Rightarrow> nat \<Rightarrow> nat \<Rightarrow> u64 \<Rightarrow> u64 \<Rightarrow> bool" where
  "read_inside bs ext k j offset n \<longleftrightarrow>
     k \<le> 4 \<and> j < k \<and> 0 < n \<and>
     leaf_block (leaf_at ext j) * unat bs \<le> unat offset \<and>
     unat offset + unat n \<le> (leaf_block (leaf_at ext j) + leaf_len (leaf_at ext j)) * unat bs \<and>
     (leaf_block (leaf_at ext j) + leaf_len (leaf_at ext j)) * unat bs < 2 ^ 64 \<and>
     (\<forall>i < k. i \<noteq> j \<longrightarrow> \<not> leaf_hit bs (leaf_at ext i) offset n)"

lemma unat_u16: "unat (w :: u16) < 2 ^ 16"
  using unsigned_less[of w] by simp

lemma unat_ucast_u64:
  "unat (ucast (a :: u32) :: u64) = unat a" "unat (ucast (b :: u16) :: u64) = unat b"
  using unat_u32[of a] unat_u16[of b] by (simp_all add: unsigned_ucast_eq take_bit_nat_eq_self)

lemma inside_range:
  assumes "read_inside bs ext k j offset n"
  shows "max2 (ucast (field_u32 (leaf_at ext j) 0) * bs) offset = offset"
    "min2 (ucast (field_u32 (leaf_at ext j) 0) * bs + ucast (field_u16 (leaf_at ext j) 4) * bs) (offset + n) = offset + n"
    "unat (offset + n) = unat offset + unat n" "offset + n - offset = n" "\<not> offset + n \<le> offset"
proof -
  let ?b = "leaf_block (leaf_at ext j)" and ?l = "leaf_len (leaf_at ext j)"
  have r: "?b * unat bs \<le> unat offset" "unat offset + unat n \<le> (?b + ?l) * unat bs" "(?b + ?l) * unat bs < 2 ^ 64" "0 < unat n"
    using assms by (auto simp: read_inside_def unat_less_iff)
  have m: "?b * unat bs + ?l * unat bs < 2 ^ 64" using r(3) by (simp add: add_mult_distrib)
  then have b: "unat (ucast (field_u32 (leaf_at ext j) 0) * bs) = ?b * unat bs" 
    by (subst unat_mult_u64) (simp_all add: unat_ucast_u64 leaf_block_def leaf_len_def)
  have l: "unat (ucast (field_u16 (leaf_at ext j) 4) * bs) = ?l * unat bs"
    using m by (subst unat_mult_u64) (simp_all add: unat_ucast_u64 leaf_block_def leaf_len_def)
  have e: "unat (ucast (field_u32 (leaf_at ext j) 0) * bs + ucast (field_u16 (leaf_at ext j) 4) * bs) = (?b + ?l) * unat bs"
    using m b l by (subst unat_add_u64) (simp_all add: add_mult_distrib)
  show o: "unat (offset + n) = unat offset + unat n" using r(2,3) by (intro unat_add_u64) simp
  show "max2 (ucast (field_u32 (leaf_at ext j) 0) * bs) offset = offset" using b r(1) by (simp add: max_def unat_le_iff)
  show "min2 (ucast (field_u32 (leaf_at ext j) 0) * bs + ucast (field_u16 (leaf_at ext j) 4) * bs) (offset + n) = offset + n"
    using e r(2) o unfolding min2_min by (intro min.absorb2) (simp add: unat_le_iff)
  show "\<not> offset + n \<le> offset" using o r(4) by (simp add: unat_le_iff)
qed simp

lemma read_leaves_inside:
  assumes "read_inside (fs_block_size fs) ext k j offset n" "length buf = unat n"
  shows "read_leaves fs ext k 0 offset n buf s =
    bindo (partition_read (fs_part fs) (offset + leaf_start (leaf_at ext j) * fs_block_size fs) n buf s) (\<lambda>(_, b, s1).
      Some (Ret (b @ drop (length b) buf, s1)))"
proof -
  have k: "k = j + Suc (k - j - 1)" "k \<le> 4" and miss: "\<forall>i < k. i \<noteq> j \<longrightarrow> \<not> leaf_hit (fs_block_size fs) (leaf_at ext i) offset n"
    using assms(1) by (auto simp: read_inside_def)
  note r = inside_range[OF assms(1)]
  have skip: "read_leaves fs ext k 0 offset n buf s = read_leaves fs ext (Suc (k - j - 1)) j offset n buf s"
    using read_leaves_miss[of 0 j fs ext offset n "Suc (k - j - 1)" buf s] miss k by auto
  have rest: "read_leaves fs ext (k - j - 1) (Suc j) offset n b s' = Some (Ret (b, s'))" for b s'
    using read_leaves_miss[of "Suc j" "k - j - 1" fs ext offset n 0 b s'] miss k by auto
  have "j < 4" using k by simp
  then show ?thesis unfolding skip
    using r assms(2) rest by (simp add: leaf_at_def[symmetric] Let_def leaf_start_def[symmetric] case_prod_unfold del: max2_max min2_min)
qed

section \<open>Regions, inodes and blocks on a medium\<close>

text \<open>The file system lies on the device with the read function \<open>rd\<close>, from the byte \<open>b\<close>.\<close>

definition fs_on :: "'s transfer \<Rightarrow> nat \<Rightarrow> 's ext4_filesystem \<Rightarrow> bool" where
  "fs_on rd b fs \<longleftrightarrow> dev_read (part_dev (fs_part fs)) = rd \<and> unat (part_starting_lba (fs_part fs)) * 512 = b"

definition there :: "(nat \<Rightarrow> nat \<Rightarrow> bool) \<Rightarrow> nat \<Rightarrow> nat \<Rightarrow> nat \<Rightarrow> bool" where
  "there fits b off n \<longleftrightarrow> b + off + n < 2 ^ 64 \<and> fits (b + off) n"

definition medium :: "(nat \<Rightarrow> u8) \<Rightarrow> nat \<Rightarrow> nat \<Rightarrow> nat \<Rightarrow> u8 list" where
  "medium img b off n = map (\<lambda>i. img (b + i)) [off..<off + n]"

lemma length_medium [simp]: "length (medium img b off n) = n"
  by (simp add: medium_def)

definition inode_place :: "'s ext4_filesystem \<Rightarrow> u64 \<Rightarrow> u64" where
  "inode_place fs ino =
     bg_inode_table_index (drop (unat ((ino - 1) div sb_inodes_per_group (fs_sb fs) * fs_group_size fs)) (fs_groups fs)) * fs_block_size fs
     + (ino - 1) mod sb_inodes_per_group (fs_sb fs) * sb_inode_size (fs_sb fs)"

definition inode_length :: "'s ext4_filesystem \<Rightarrow> nat" where
  "inode_length fs = min 160 (unat (sb_inode_size (fs_sb fs)))"

definition inode_there :: "(nat \<Rightarrow> nat \<Rightarrow> bool) \<Rightarrow> nat \<Rightarrow> 's ext4_filesystem \<Rightarrow> u64 \<Rightarrow> bool" where
  "inode_there fits b fs ino \<longleftrightarrow>
     sb_inodes_per_group (fs_sb fs) \<noteq> 0 \<and>
     unat ((ino - 1) div sb_inodes_per_group (fs_sb fs) * fs_group_size fs) + 64 \<le> length (fs_groups fs) \<and>
     there fits b (unat (inode_place fs ino)) (inode_length fs)"

definition inode_bytes :: "(nat \<Rightarrow> u8) \<Rightarrow> nat \<Rightarrow> 's ext4_filesystem \<Rightarrow> u64 \<Rightarrow> u8 list" where
  "inode_bytes img b fs ino = medium img b (unat (inode_place fs ino)) (inode_length fs) @ replicate (160 - inode_length fs) 0"

definition file_at :: "(nat \<Rightarrow> u8) \<Rightarrow> nat \<Rightarrow> 's ext4_filesystem \<Rightarrow> u64 \<Rightarrow> ext4_file" where
  "file_at img b fs ino = \<lparr>ef_inode_number = ino, ef_inode = inode_bytes img b fs ino\<rparr>"

context disk_image
begin

lemma part_read:
  assumes "ok s" "fs_on rd b fs" "there fits b (unat off) (unat n)" "length buf = unat n"
  shows "\<exists>s'. partition_read (fs_part fs) off n buf s = Some (Ret (1, medium img b (unat off) (unat n), s')) \<and> ok s'"
  unfolding medium_def
  by (rule partition_read_exact) (use assms in \<open>auto simp: fs_on_def there_def\<close>)

lemma get_inode_exact:
  assumes "ok s" "fs_on rd b fs" "inode_there fits b fs ino"
  shows "\<exists>s'. get_inode fs ino s = Some (Ret (inode_bytes img b fs ino, s')) \<and> ok s'"
proof -
  have n: "unat (min 160 (sb_inode_size (fs_sb fs))) = inode_length fs"
    by (auto simp: inode_length_def min_def unat_le_iff)
  obtain s' where s': "partition_read (fs_part fs) (inode_place fs ino) (min 160 (sb_inode_size (fs_sb fs)))
      (replicate (inode_length fs) 0) s = Some (Ret (1, medium img b (unat (inode_place fs ino)) (inode_length fs), s'))" "ok s'"
    using part_read[OF assms(1,2), of "inode_place fs ino" "min 160 (sb_inode_size (fs_sb fs))" "replicate (inode_length fs) 0"]
      assms(3) n by (auto simp: inode_there_def)
  have "\<not> unat ((ino - 1) div sb_inodes_per_group (fs_sb fs) * fs_group_size fs) + 64 > length (fs_groups fs)"
    "sb_inodes_per_group (fs_sb fs) \<noteq> 0" using assms(3) by (simp_all add: inode_there_def)
  then show ?thesis using s' n
    by (simp add: get_inode_def Let_def inode_place_def[symmetric] inode_bytes_def)
qed

lemma read_region_exact:
  assumes "ok s" "fs_on rd b fs" "field_u16 ext 0 = 0xF30A" "field_u16 ext 6 = 0"
    and r: "read_inside (fs_block_size fs) ext (unat (field_u16 ext 2)) j offset n" "length buf = unat n"
    and t: "there fits b (unat offset + unat (leaf_start (leaf_at ext j)) * unat (fs_block_size fs)) (unat n)"
  shows "\<exists>s'. read_region fs ext offset n buf s =
    Some (Ret (medium img b (unat offset + unat (leaf_start (leaf_at ext j)) * unat (fs_block_size fs)) (unat n), s')) \<and> ok s'"
proof -
  let ?p = "offset + leaf_start (leaf_at ext j) * fs_block_size fs"
  have m: "unat (leaf_start (leaf_at ext j) * fs_block_size fs) = unat (leaf_start (leaf_at ext j)) * unat (fs_block_size fs)"
    using t by (intro unat_mult_u64) (simp add: there_def)
  then have p: "unat ?p = unat offset + unat (leaf_start (leaf_at ext j)) * unat (fs_block_size fs)"
    using t by (subst unat_add_u64) (simp_all add: there_def)
  show ?thesis using part_read[OF assms(1,2), of ?p n buf] t r(2) read_leaves_inside[OF r, of s]
    by (auto simp: read_region_def assms(3,4) p)
qed

end

section \<open>The entries of a directory\<close>

text \<open>The entries of a block, in order, from the entry at \<open>off\<close>.\<close>

definition entry_inode :: "u8 list \<Rightarrow> nat \<Rightarrow> u32" where "entry_inode blk off = field_u32 (drop off blk) 0"
definition entry_size :: "u8 list \<Rightarrow> nat \<Rightarrow> nat" where "entry_size blk off = unat (field_u16 (drop off blk) 4)"
definition name_length :: "u8 list \<Rightarrow> nat \<Rightarrow> nat" where "name_length blk off = unat (field_u8 (drop off blk) 6)"

definition read_entry :: "u8 list \<Rightarrow> nat \<Rightarrow> directory_entry" where
  "read_entry blk off = \<lparr>de_inode = entry_inode blk off, de_flags = field_u8 (drop off blk) 7,
     de_name = from_char_array (take (name_length blk off) (drop (off + 8) blk))\<rparr>"

function entries_from :: "u8 list \<Rightarrow> nat \<Rightarrow> directory_entry list" where
  "entries_from blk off =
     (if off < length blk \<and> 0 < entry_size blk off
      then (if entry_inode blk off = 0 then [] else [read_entry blk off]) @ entries_from blk (off + entry_size blk off)
      else [])"
  by pat_completeness auto
termination by (relation "measure (\<lambda>(blk, off). length blk - off)") auto

text \<open>The chain of entries is sound: each has a size, and it and its name lie in the block.\<close>

function chain_ok :: "u8 list \<Rightarrow> nat \<Rightarrow> bool" where
  "chain_ok blk off =
     (if length blk \<le> off then True
      else if entry_size blk off = 0 then False
      else off + 8 + name_length blk off \<le> length blk \<and> chain_ok blk (off + entry_size blk off))"
  by pat_completeness auto
termination by (relation "measure (\<lambda>(blk, off). length blk - off)") auto

declare entries_from.simps [simp del] chain_ok.simps [simp del]

text \<open>Going through a list with a callback, and with one that does not use the disk.\<close>

fun visit :: "(directory_entry \<Rightarrow> 'a \<Rightarrow> 's \<Rightarrow> (bool \<times> 'a \<times> 's) res option) \<Rightarrow> directory_entry list \<Rightarrow> 'a \<Rightarrow> 's
    \<Rightarrow> (bool \<times> 'a \<times> 's) res option" where
  "visit c [] acc s = Some (Ret (True, acc, s))"
| "visit c (d # ds) acc s = bindo (c d acc s) (\<lambda>(go, acc', s'). if go then visit c ds acc' s' else Some (Ret (False, acc', s')))"

fun scan :: "(directory_entry \<Rightarrow> 'a \<Rightarrow> bool \<times> 'a) \<Rightarrow> directory_entry list \<Rightarrow> 'a \<Rightarrow> bool \<times> 'a" where
  "scan v [] acc = (True, acc)"
| "scan v (d # ds) acc = (case v d acc of (go, acc') \<Rightarrow> if go then scan v ds acc' else (False, acc'))"

lemma scan_append:
  "scan v (ds @ es) acc = (case scan v ds acc of (go, acc') \<Rightarrow> if go then scan v es acc' else (False, acc'))"
  by (induction ds arbitrary: acc) (auto split: prod.splits)

lemma iterate_block_visit:
  assumes "chain_ok blk (unat off)" "length blk < 2 ^ 63" "unat bs = length blk" "unat off < 2 ^ 63 + 2 ^ 16"
  shows "iterate_block c bs blk off acc s = visit c (entries_from blk (unat off)) acc s"
  using assms
proof (induction blk "unat off" arbitrary: off acc s rule: chain_ok.induct)
  case (1 blk)
  show ?case
  proof (cases "unat off < length blk")
    case False
    then show ?thesis using 1(4) by (simp add: iterate_block.simps entries_from.simps unat_less_iff)
  next
    case True
    let ?o = "off + ucast (field_u16 (drop (unat off) blk) 4)"
    have c: "0 < entry_size blk (unat off)" "unat off + 8 + name_length blk (unat off) \<le> length blk"
      "chain_ok blk (unat off + entry_size blk (unat off))"
      using 1(2) True chain_ok.simps[of blk "unat off"] by (simp_all split: if_splits)
    have l: "entry_size blk (unat off) < 2 ^ 16" unfolding entry_size_def by (rule unat_u16)
    have o: "unat ?o = unat off + entry_size blk (unat off)"
      using l True 1(3) by (subst unat_add_u64) (simp_all add: unat_ucast_u64 entry_size_def)
    have IH: "iterate_block c bs blk ?o acc' s' = visit c (entries_from blk (unat ?o)) acc' s'" for acc' s'
      by (rule 1(1)) (use True c l o 1(3,4) in \<open>simp_all\<close>)
    have e: "entries_from blk (unat off) = (if entry_inode blk (unat off) = 0 then [] else [read_entry blk (unat off)]) @ entries_from blk (unat ?o)"
      unfolding o using True c(1) by (subst entries_from.simps) simp
    have t: "off < bs" using True 1(4) by (simp add: unat_less_iff)
    have "iterate_block c bs blk off acc s =
      (if entry_inode blk (unat off) = 0 then iterate_block c bs blk ?o acc s
       else bindo (c (read_entry blk (unat off)) acc s)
               (\<lambda>(go, acc', s'). if go then iterate_block c bs blk ?o acc' s' else Some (Ret (False, acc', s'))))"
      using t c(2) by (subst iterate_block.simps)
        (simp add: Let_def entry_inode_def read_entry_def name_length_def add.commute)
    then show ?thesis unfolding e by (simp add: IH case_prod_unfold cong del: if_weak_cong)
  qed
qed

text \<open>
  A callback that acts on the entries like \<open>v\<close>, on accumulators that satisfy \<open>J\<close> and a device that stays fit for
  reading.
\<close>

definition acts_like :: "('s \<Rightarrow> bool) \<Rightarrow> ('a \<Rightarrow> bool) \<Rightarrow> (directory_entry \<Rightarrow> 'a \<Rightarrow> 's \<Rightarrow> (bool \<times> 'a \<times> 's) res option)
    \<Rightarrow> (directory_entry \<Rightarrow> 'a \<Rightarrow> bool \<times> 'a) \<Rightarrow> directory_entry set \<Rightarrow> bool" where
  "acts_like ok J c v ds \<longleftrightarrow>
     (\<forall>d \<in> ds. \<forall>acc s. J acc \<longrightarrow> ok s \<longrightarrow>
        J (snd (v d acc)) \<and> (\<exists>s'. c d acc s = Some (Ret (fst (v d acc), snd (v d acc), s')) \<and> ok s'))"

lemma visit_scan:
  "acts_like ok J c v (set ds) \<Longrightarrow> J acc \<Longrightarrow> ok s \<Longrightarrow>
   J (snd (scan v ds acc)) \<and>
   (\<exists>s'. visit c ds acc s = Some (Ret (fst (scan v ds acc), snd (scan v ds acc), s')) \<and> ok s')"
proof (induction ds arbitrary: acc s)
  case (Cons d ds)
  obtain go a where v: "v d acc = (go, a)" by force
  have "d \<in> set (d # ds)" by simp
  then have "J (snd (v d acc)) \<and> (\<exists>s'. c d acc s = Some (Ret (fst (v d acc), snd (v d acc), s')) \<and> ok s')"
    using Cons.prems unfolding acts_like_def by blast
  then obtain s1 where "c d acc s = Some (Ret (go, a, s1))" "ok s1" "J a" using v by auto
  then show ?case using Cons.IH[of a s1] Cons.prems(1) v by (auto simp: acts_like_def)
qed auto

section \<open>Whole files and directories\<close>

text \<open>A file whose first extent, the only one before the byte \<open>n\<close>, holds its first \<open>n\<close> bytes, and where they are.\<close>

definition ext_of :: "ext4_file \<Rightarrow> u8 list" where "ext_of f = inode_block_data (ef_inode f)"

definition in_first_extent :: "u64 \<Rightarrow> ext4_file \<Rightarrow> nat \<Rightarrow> bool" where
  "in_first_extent bs f n \<longleftrightarrow>
     inode_uses_extent_tree (ef_inode f) \<and> field_u16 (ext_of f) 0 = 0xF30A \<and> field_u16 (ext_of f) 6 = 0 \<and>
     0 < unat (field_u16 (ext_of f) 2) \<and> unat (field_u16 (ext_of f) 2) \<le> 4 \<and>
     leaf_block (leaf_at (ext_of f) 0) = 0 \<and> n \<le> leaf_len (leaf_at (ext_of f) 0) * unat bs \<and> 
     leaf_len (leaf_at (ext_of f) 0) * unat bs < 2 ^ 64 \<and>
     (\<forall>i \<in> {1..<unat (field_u16 (ext_of f) 2)}.
        n \<le> leaf_block (leaf_at (ext_of f) i) * unat bs \<and> leaf_block (leaf_at (ext_of f) i) * unat bs < 2 ^ 64)"

definition file_start :: "u64 \<Rightarrow> ext4_file \<Rightarrow> nat" where
  "file_start bs f = unat (leaf_start (leaf_at (ext_of f) 0)) * unat bs"

lemma first_extent_inside:
  assumes f: "in_first_extent bs f m" and o: "unat offset + unat n \<le> m" "0 < n"
  shows "read_inside bs (ext_of f) (unat (field_u16 (ext_of f) 2)) 0 offset n"
proof -
  have m: "m \<le> leaf_len (leaf_at (ext_of f) 0) * unat bs" "leaf_len (leaf_at (ext_of f) 0) * unat bs < 2 ^ 64"
    using f by (simp_all add: in_first_extent_def)
  then have s: "unat (offset + n) = unat offset + unat n" using o(1) by (intro unat_add_u64) linarith
  have "\<not> leaf_hit bs (leaf_at (ext_of f) i) offset n" if i: "i < unat (field_u16 (ext_of f) 2)" "i \<noteq> 0" for i
  proof -
    have b: "m \<le> leaf_block (leaf_at (ext_of f) i) * unat bs" "leaf_block (leaf_at (ext_of f) i) * unat bs < 2 ^ 64"
      using f i by (auto simp: in_first_extent_def)
    then have "unat (ucast (field_u32 (leaf_at (ext_of f) i) 0) * bs) = leaf_block (leaf_at (ext_of f) i) * unat bs"
      by (subst unat_mult_u64) (simp_all add: unat_ucast_u64 leaf_block_def)
    then have "offset + n \<le> ucast (field_u32 (leaf_at (ext_of f) i) 0) * bs" using b(1) o(1) s by (simp add: unat_le_iff)
    then show ?thesis by (auto simp: leaf_hit_def not_less)
  qed
  then show ?thesis using f m o by (auto simp: read_inside_def in_first_extent_def)
qed

definition dir_blocks :: "u64 \<Rightarrow> ext4_file \<Rightarrow> nat" where
  "dir_blocks bs f = (unat (file_get_size f) + unat bs - 1) div unat bs"

definition dir_block :: "(nat \<Rightarrow> u8) \<Rightarrow> nat \<Rightarrow> u64 \<Rightarrow> ext4_file \<Rightarrow> nat \<Rightarrow> u8 list" where
  "dir_block img b bs f k = medium img b (k * unat bs + file_start bs f) (unat bs)"

definition dir_entries :: "(nat \<Rightarrow> u8) \<Rightarrow> nat \<Rightarrow> u64 \<Rightarrow> ext4_file \<Rightarrow> directory_entry list" where
  "dir_entries img b bs f = concat (map (\<lambda>k. entries_from (dir_block img b bs f k) 0) [0..<dir_blocks bs f])"

definition dir_there :: "(nat \<Rightarrow> nat \<Rightarrow> bool) \<Rightarrow> (nat \<Rightarrow> u8) \<Rightarrow> nat \<Rightarrow> u64 \<Rightarrow> ext4_file \<Rightarrow> bool" where
  "dir_there fits img b bs f \<longleftrightarrow>
     0 < bs \<and> unat bs < 2 ^ 63 \<and> in_first_extent bs f (dir_blocks bs f * unat bs) \<and>
     (\<forall>k < dir_blocks bs f. there fits b (k * unat bs + file_start bs f) (unat bs) \<and> chain_ok (dir_block img b bs f k) 0)"

lemma less_dir_blocks: "0 < bs \<Longrightarrow> k < dir_blocks bs f \<longleftrightarrow> k * unat bs < unat (file_get_size f)"
proof -
  assume "0 < bs"
  then have b: "0 < unat bs" by (simp add: unat_less_iff)
  have "k < (n + unat bs - 1) div unat bs \<longleftrightarrow> k * unat bs < n" for n
    using less_eq_div_iff_mult_less_eq[OF b, of "Suc k" "n + unat bs - 1"] b by auto
  then show ?thesis by (simp add: dir_blocks_def)
qed

context disk_image
begin

lemma file_read_exact:
  assumes "ok s" "fs_on rd b fs" and f: "in_first_extent (fs_block_size fs) f m" "unat off + unat n \<le> m" "0 < n"
    and t: "there fits b (unat off + file_start (fs_block_size fs) f) (unat n)" "length buf = unat n"
  shows "\<exists>s'. file_read fs f off n buf s =
    Some (Ret (n, medium img b (unat off + file_start (fs_block_size fs) f) (unat n), s')) \<and> ok s'"
proof -
  have e: "inode_uses_extent_tree (ef_inode f)" "field_u16 (ext_of f) 0 = 0xF30A" "field_u16 (ext_of f) 6 = 0"
    using f(1) by (simp_all add: in_first_extent_def)
  show ?thesis
    using read_region_exact[OF assms(1,2) e(2,3) first_extent_inside[OF f] t(2)] t(1) e(1)
    by (auto simp: file_read_def file_start_def ext_of_def)
qed

lemma iterate_blocks_scan:
  assumes on: "fs_on rd b fs" and d: "dir_there fits img b (fs_block_size fs) f"
    and k: "k \<le> dir_blocks (fs_block_size fs) f" and ok: "ok s" "length buf = unat (fs_block_size fs)" "J acc"
    and c: "acts_like ok J c v (set (dir_entries img b (fs_block_size fs) f))"
  shows "\<exists>s'. iterate_blocks fs f c (of_nat (k * unat (fs_block_size fs))) buf acc s =
      Some (Ret (snd (scan v (concat (map (\<lambda>k. entries_from (dir_block img b (fs_block_size fs) f k) 0)
        [k..<dir_blocks (fs_block_size fs) f])) acc), s')) \<and> ok s'"
  using k ok
proof (induction "dir_blocks (fs_block_size fs) f - k" arbitrary: k buf acc s)
  let ?bs = "fs_block_size fs"
  let ?B = "unat ?bs" and ?N = "dir_blocks ?bs f"
  have bs: "0 < ?bs" "?B < 2 ^ 63" and ext: "in_first_extent ?bs f (?N * ?B)" using d by (auto simp: dir_there_def)
  have N: "?N * ?B < 2 ^ 64" using ext unfolding in_first_extent_def by linarith
  have i: "unat (of_nat (k * ?B) :: u64) = k * ?B" if "k \<le> ?N" for k
    using N mult_le_mono1[OF that, of ?B] by (intro unat_of_nat_u64) linarith
  have less: "(of_nat (k * ?B) :: u64) < file_get_size f \<longleftrightarrow> k < ?N" if "k \<le> ?N" for k
    using less_dir_blocks[OF bs(1), of k f] i[OF that] by (simp add: unat_less_iff)
  {
    case 0
    then have "k = ?N" by simp
    then show ?case using less[of ?N] 0 by (simp add: iterate_blocks.simps)
  next
    case (Suc x)
    let ?blk = "dir_block img b ?bs f k" and ?rest = "concat (map (\<lambda>k. entries_from (dir_block img b ?bs f k) 0) [Suc k..<?N])"
    have k: "k < ?N" "unat (of_nat (k * ?B) :: u64) = k * ?B" using Suc(2) i[OF Suc(3)] by auto
    have kN: "k * ?B + ?B \<le> ?N * ?B" using mult_le_mono1[of "Suc k" ?N ?B] k(1) by simp
    have t: "there fits b (k * ?B + file_start ?bs f) ?B" "chain_ok ?blk 0" using d k(1) by (auto simp: dir_there_def)
    obtain s1 where s1: "file_read fs f (of_nat (k * ?B)) ?bs buf s = Some (Ret (?bs, ?blk, s1))" "ok s1"
      using file_read_exact[OF Suc(4) on ext, of "of_nat (k * ?B)" ?bs buf] kN t(1) bs(1) Suc(5)
      unfolding k(2) dir_block_def by blast
    have sub: "set (entries_from ?blk 0) \<subseteq> set (dir_entries img b ?bs f)" using k(1) by (auto simp: dir_entries_def)
    have "acts_like ok J c v (set (entries_from ?blk 0))" using c sub by (auto simp: acts_like_def)
    from visit_scan[OF this Suc(6) s1(2)] obtain s2 where
      s2: "visit c (entries_from ?blk 0) acc s1 = Some (Ret (fst (scan v (entries_from ?blk 0) acc), snd (scan v (entries_from ?blk 0) acc), s2))" "ok s2"
      "J (snd (scan v (entries_from ?blk 0) acc))"
      by blast
    have l: "length ?blk = ?B" by (simp add: dir_block_def)
    have it: "iterate_block c ?bs ?blk 0 acc s1 = visit c (entries_from ?blk 0) acc s1"
      using iterate_block_visit[of ?blk 0 ?bs c acc s1, OF _ _ l[symmetric]] t(2) bs(2) unfolding l by simp
    have step: "(of_nat (k * ?B) :: u64) + ?bs = of_nat (Suc k * ?B)" by simp
    have x: "x = ?N - Suc k" "Suc k \<le> ?N" using Suc(2) k(1) by simp_all
    from Suc(1)[OF x s2(2) l s2(3)] obtain s3 where
      s3: "iterate_blocks fs f c (of_nat (Suc k * ?B)) ?blk (snd (scan v (entries_from ?blk 0) acc)) s2 =
        Some (Ret (snd (scan v ?rest (snd (scan v (entries_from ?blk 0) acc))), s3))" "ok s3" by blast
    have cons: "[k..<?N] = k # [Suc k..<?N]" using k(1) by (simp add: upt_conv_Cons)
    have lt: "of_nat (k * ?B) < file_get_size f" using less[OF Suc(3)] k(1) by simp
    show ?case unfolding cons
      using s1 s2 s3 lt it
      by (subst iterate_blocks.simps) (simp add: scan_append step case_prod_unfold del: of_nat_mult of_nat_Suc)
  }
qed

end

section \<open>Counting, listing, opening\<close>

context disk_image
begin

lemma iterate_directory_scan:
  assumes on: "fs_on rd b fs" and d: "dir_there fits img b (fs_block_size fs) f" "is_directory f"
    and ok: "ok s" "length (junk (unat (fs_block_size fs))) = unat (fs_block_size fs)"
    and acc: "J acc" and c: "acts_like ok J c v (set (dir_entries img b (fs_block_size fs) f))"
  shows "\<exists>s'. iterate_directory junk fs f c acc s =
    Some (Ret (snd (scan v (dir_entries img b (fs_block_size fs) f) acc), s')) \<and> ok s'"
  using iterate_blocks_scan[OF on d(1) le0 ok acc c] d(2)
  by (auto simp: iterate_directory_def dir_entries_def)

end

lemma scan_count: "scan (\<lambda>d n. (True, n + 1)) ds n = (True, n + of_nat (length ds))"
  by (induction ds arbitrary: n) (simp_all add: add.assoc)

context disk_image
begin

lemma entry_count_exact:
  assumes "fs_on rd b fs" "dir_there fits img b (fs_block_size fs) f" "is_directory f"
    and "ok s" "length (junk (unat (fs_block_size fs))) = unat (fs_block_size fs)"
  shows "\<exists>s'. get_directory_entry_count junk fs f s =
    Some (Ret (of_nat (length (dir_entries img b (fs_block_size fs) f)), s')) \<and> ok s'"
  using iterate_directory_scan[where junk = junk and J = "\<lambda>_. True", OF assms TrueI, of "\<lambda>de n s. Some (Ret (True, n + 1, s))" "\<lambda>d n. (True, n + 1)" "0 :: u64"]
  by (auto simp: get_directory_entry_count_def acts_like_def scan_count)

end

text \<open>What \<open>get_directory_entries\<close> leaves in the caller's buffer: the entries from \<open>offset\<close> to \<open>n\<close>, at its start.\<close>

definition listed :: "directory_entry \<Rightarrow> u8 list \<times> file_type" where
  "listed d = (de_name d, entry_type (de_flags d))"

definition put_pure :: "nat \<Rightarrow> nat \<Rightarrow> directory_entry \<Rightarrow> nat \<times> (u8 list \<times> file_type) list \<Rightarrow> bool \<times> (nat \<times> (u8 list \<times> file_type) list)" where
  "put_pure offset n d = (\<lambda>(i, buffer).
     if n \<le> i then (False, (i, buffer))
     else (True, (i + 1, if offset \<le> i then buffer[i - offset := listed d] else buffer)))"

lemma put_pure_apply [simp]:
  "put_pure offset n d (i, buffer) =
     (if n \<le> i then (False, (i, buffer))
      else (True, (i + 1, if offset \<le> i then buffer[i - offset := listed d] else buffer)))"
  by (simp add: put_pure_def)

lemma scan_put:
  assumes "n \<le> offset + length buffer" "i \<le> n"
  shows "snd (scan (put_pure offset n) ds (i, buffer)) =
    (min n (i + length ds),
     take (i - offset) buffer @ map listed (take (n - max i offset) (drop (offset - i) ds))
     @ drop (i - offset + length (take (n - max i offset) (drop (offset - i) ds))) buffer)"
  using assms
proof (induction ds arbitrary: i buffer)
  case (Cons d ds)
  show ?case
  proof (cases "i < n")
    case True
    then show ?thesis
    proof (cases "offset \<le> i")
      case o: True
      have l: "i - offset < length buffer" using o True Cons.prems(1) by simp
      have t: "take (Suc i - offset) (buffer[i - offset := listed d]) = take (i - offset) buffer @ [listed d]"
        using l o by (simp add: Suc_diff_le take_Suc_conv_app_nth)
      have n: "n - i = Suc (n - Suc i)" using True by simp
      show ?thesis using Cons.IH[of "buffer[i - offset := listed d]" "Suc i"] Cons.prems True o l t
        by (simp add: max_def n Suc_diff_le)
    next
      case False
      then have "offset - i = Suc (offset - Suc i)" by simp
      then show ?thesis using Cons.IH[of buffer "Suc i"] Cons.prems True False
        by (simp add: max_def)
    qed
  next
    case False
    then show ?thesis using Cons.prems by simp
  qed
qed simp

section \<open>Resolving a path\<close>

text \<open>The parts of a path between slashes, the empty ones left out.\<close>

function components :: "u8 list \<Rightarrow> u8 list list" where
  "components [] = []"
| "components (c # path) =
     (if c = slash then components path
      else takeWhile (\<lambda>c. c \<noteq> slash) (c # path) # components (dropWhile (\<lambda>c. c \<noteq> slash) (c # path)))"
  by pat_completeness auto
termination by (relation "measure length") (auto simp: length_dropWhile_le less_Suc_eq_le)

text \<open>
  The specification: from a directory, each part names the first entry with that name, in the file system that lies on
  the medium.
\<close>

fun resolve :: "(nat \<Rightarrow> u8) \<Rightarrow> nat \<Rightarrow> 's ext4_filesystem \<Rightarrow> u64 \<Rightarrow> u8 list list \<Rightarrow> u64 option" where
  "resolve img b fs ino [] = Some ino"
| "resolve img b fs ino (n # ns) =
     (if \<not> is_directory (file_at img b fs ino) then None
      else case find (\<lambda>d. de_name d = n) (dir_entries img b (fs_block_size fs) (file_at img b fs ino)) of
             None \<Rightarrow> None
           | Some d \<Rightarrow> resolve img b fs (ucast (de_inode d)) ns)"

text \<open>A set of inodes of a sound file system, closed under the entries of its directories.\<close>

definition sound_inodes :: "(nat \<Rightarrow> nat \<Rightarrow> bool) \<Rightarrow> (nat \<Rightarrow> u8) \<Rightarrow> nat \<Rightarrow> 's ext4_filesystem \<Rightarrow> u64 set \<Rightarrow> bool" where
  "sound_inodes fits img b fs R \<longleftrightarrow>
     (\<forall>ino \<in> R. inode_there fits b fs ino \<and>
        (is_directory (file_at img b fs ino) \<longrightarrow>
           dir_there fits img b (fs_block_size fs) (file_at img b fs ino) \<and>
           (\<forall>d \<in> set (dir_entries img b (fs_block_size fs) (file_at img b fs ino)). ucast (de_inode d) \<in> R)))"

lemma scan_find:
  "snd (scan (\<lambda>d acc. if de_name d = n then (False, Some (g d)) else (True, acc)) ds None) = map_option g (find (\<lambda>d. de_name d = n) ds)"
  by (induction ds) auto

lemma find_set: "find P xs = Some x \<Longrightarrow> x \<in> set xs"
  by (induction xs) (auto split: if_splits)

context disk_image
begin

lemma find_entry_acts_like:
  assumes "fs_on rd b fs" "\<forall>d \<in> D. inode_there fits b fs (ucast (de_inode d))"
  shows "acts_like ok (\<lambda>_. True) (find_entry fs n) (\<lambda>d acc. if de_name d = n then (False, Some (file_at img b fs (ucast (de_inode d)))) else (True, acc)) D"
  unfolding acts_like_def
proof (intro ballI allI impI)
  fix d acc s assume "d \<in> D" "ok s"
  with get_inode_exact[OF this(2) assms(1)] assms(2) obtain s' where
    "get_inode fs (ucast (de_inode d)) s = Some (Ret (inode_bytes img b fs (ucast (de_inode d)), s'))" "ok s'" by blast
  with \<open>ok s\<close> show "True \<and> (\<exists>s'. find_entry fs n d acc s =
      Some (Ret (fst (if de_name d = n then (False, Some (file_at img b fs (ucast (de_inode d)))) else (True, acc)),
        snd (if de_name d = n then (False, Some (file_at img b fs (ucast (de_inode d)))) else (True, acc)), s')) \<and> ok s')"
    by (auto simp: find_entry_def file_at_def)
qed

lemma open_loop_resolves:
  assumes on: "fs_on rd b fs" and R: "sound_inodes fits img b fs R"
    and junk: "length (junk (unat (fs_block_size fs))) = unat (fs_block_size fs)"
  shows "ino \<in> R \<Longrightarrow> ok s \<Longrightarrow> \<exists>s'. open_loop junk fs (file_at img b fs ino) path s =
    Some (Ret (map_option (file_at img b fs) (resolve img b fs ino (components path)), s')) \<and> ok s'"
proof (induction path arbitrary: ino s rule: components.induct)
  case (2 c path)
  let ?f = "file_at img b fs ino" and ?n = "takeWhile (\<lambda>c. c \<noteq> slash) (c # path)"
  let ?ds = "dir_entries img b (fs_block_size fs) ?f"
  show ?case
  proof (cases "c = slash \<or> \<not> is_directory ?f")
    case True
    then show ?thesis using 2 by auto
  next
    case False
    then have dir: "is_directory ?f" "c \<noteq> slash" by simp_all
    have d: "dir_there fits img b (fs_block_size fs) ?f" "\<forall>d \<in> set ?ds. ucast (de_inode d) \<in> R"
      using R 2(3) dir(1) by (auto simp: sound_inodes_def)
    then have "\<forall>d \<in> set ?ds. inode_there fits b fs (ucast (de_inode d))" using R by (auto simp: sound_inodes_def)
    from iterate_directory_scan[where junk = junk, OF on d(1) dir(1) 2(4) junk TrueI find_entry_acts_like[OF on this, of ?n], of None] obtain s1 where
      s1: "iterate_directory junk fs ?f (find_entry fs ?n) None s =
        Some (Ret (map_option (\<lambda>d. file_at img b fs (ucast (de_inode d))) (find (\<lambda>d. de_name d = ?n) ?ds), s1))" "ok s1"
      unfolding scan_find by blast
    show ?thesis
    proof (cases "find (\<lambda>d. de_name d = ?n) ?ds")
      case None
      then show ?thesis using s1 dir by auto
    next
      case (Some e)
      then have "ucast (de_inode e) \<in> R" using d(2) find_set by metis
      from 2(2)[OF dir(2) this s1(2)] show ?thesis using s1(1) dir Some by auto
    qed
  qed
qed auto

lemma open_resolves:
  assumes on: "fs_on rd b fs" and R: "sound_inodes fits img b fs R" "2 \<in> R"
    and ok: "ok s" "length (junk (unat (fs_block_size fs))) = unat (fs_block_size fs)"
  shows "\<exists>s'. fs_open junk fs path s =
    Some (Ret (map_option (file_at img b fs) (resolve img b fs 2 (components path)), s')) \<and> ok s'"
proof -
  have "inode_there fits b fs 2" using R by (auto simp: sound_inodes_def)
  from get_inode_exact[OF ok(1) on this] obtain s1 where
    s1: "get_inode fs 2 s = Some (Ret (inode_bytes img b fs 2, s1))" "ok s1" by blast
  from open_loop_resolves[where junk = junk, OF on R(1) ok(2) R(2) s1(2), of path] show ?thesis
    using s1(1) by (simp add: fs_open_def file_at_def)
qed

end

lemma put_entry_acts_like:
  assumes "unat n \<le> unat offset + length buf0"
  shows "acts_like ok (\<lambda>(i, buf). unat i \<le> unat n \<and> length buf = length buf0) (put_entry offset n)
    (\<lambda>d (i, buf). case put_pure (unat offset) (unat n) d (unat i, buf) of (go, i', buf') \<Rightarrow> (go, of_nat i', buf')) D"
  unfolding acts_like_def
proof (intro ballI allI impI, clarify)
  fix d and i :: u64 and buf :: "(u8 list \<times> file_type) list" and s
  assume "d \<in> D" "unat i \<le> unat n" "length buf = length buf0" "ok s"
  moreover have "unat (i - offset) = unat i - unat offset" if "offset \<le> i" using that by (simp add: unat_sub_if' unat_le_iff)
  moreover have "unat (1 + i) = 1 + unat i" if "unat i < unat n" using that unat_u64[of n] by (subst unat_add_u64) simp_all
  ultimately show "(case snd (case put_pure (unat offset) (unat n) d (unat i, buf) of (go, i', buf') \<Rightarrow> (go, of_nat i' :: u64, buf')) of
        (i, buf) \<Rightarrow> unat i \<le> unat n \<and> length buf = length buf0) \<and>
    (\<exists>s'. put_entry offset n d (i, buf) s =
      Some (Ret (fst (case put_pure (unat offset) (unat n) d (unat i, buf) of (go, i', buf') \<Rightarrow> (go, of_nat i', buf')),
        snd (case put_pure (unat offset) (unat n) d (unat i, buf) of (go, i', buf') \<Rightarrow> (go, of_nat i', buf')), s')) \<and> ok s')"
    using assms unat_u64[of n]
    by (auto simp: put_entry_def listed_def unat_le_iff unat_less_iff not_le add.commute intro: le_less_trans)
qed

lemma scan_put_word:
  fixes n :: u64
  assumes "unat i \<le> unat n"
  shows "scan (\<lambda>d (i, buf). case put_pure (unat offset) (unat n) d (unat i, buf) of (go, i', buf') \<Rightarrow> (go, of_nat i', buf')) ds (i :: u64, buf) =
    (case scan (put_pure (unat offset) (unat n)) ds (unat i, buf) of (go, i', buf') \<Rightarrow> (go, of_nat i', buf'))"
  using assms
proof (induction ds arbitrary: i buf)
  case (Cons d ds)
  show ?case
  proof (cases "unat n \<le> unat i")
    case False
    then have u: "unat (1 + i) = Suc (unat i)" using unat_u64[of n] by (subst unat_add_u64) simp_all
    then show ?thesis using False Cons.IH[of "1 + i"] Cons.prems by simp
  qed (use Cons.prems in simp)
qed simp

context disk_image
begin

text \<open>The caller gets the entries from \<open>offset\<close> up to, and without, number \<open>n\<close>, and how many entries there were, at most \<open>n\<close>.\<close>

lemma directory_entries_exact:
  assumes "fs_on rd b fs" "dir_there fits img b (fs_block_size fs) f" "is_directory f"
    and "ok s" "length (junk (unat (fs_block_size fs))) = unat (fs_block_size fs)"
    and n: "unat n \<le> unat offset + length buf"
  shows "\<exists>s'. get_directory_entries junk fs f buf offset n s =
    Some (Ret ((of_nat (min (unat n) (length (dir_entries img b (fs_block_size fs) f))),
      (let es = map listed (take (unat n - unat offset) (drop (unat offset) (dir_entries img b (fs_block_size fs) f)))
       in es @ drop (length es) buf)), s')) \<and> ok s'"
proof -
  let ?ds = "dir_entries img b (fs_block_size fs) f"
  note it = iterate_directory_scan[where junk = junk and acc = "(0 :: u64, buf)", OF assms(1-5) _ put_entry_acts_like[OF n]]
  have "snd (scan (put_pure (unat offset) (unat n)) ?ds (0, buf)) =
    (min (unat n) (length ?ds),
     (let es = map listed (take (unat n - unat offset) (drop (unat offset) ?ds)) in es @ drop (length es) buf))"
    using scan_put[OF n, of 0 ?ds] by (simp add: Let_def)
  then have "snd (scan (\<lambda>d (i, buf). case put_pure (unat offset) (unat n) d (unat i, buf) of (go, i', buf') \<Rightarrow> (go, of_nat i', buf')) ?ds (0 :: u64, buf)) =
    (of_nat (min (unat n) (length ?ds)),
     (let es = map listed (take (unat n - unat offset) (drop (unat offset) ?ds)) in es @ drop (length es) buf))"
    by (subst scan_put_word) (auto simp: case_prod_unfold prod_eq_iff)
  then show ?thesis using it by (simp add: get_directory_entries_def)
qed

end

section \<open>Mounting\<close>

text \<open>What the constructor keeps of a medium whose superblock it accepts.\<close>

definition superblock_at :: "(nat \<Rightarrow> u8) \<Rightarrow> nat \<Rightarrow> u8 list" where
  "superblock_at img b = medium img b 1024 1024"

definition accepted :: "u8 list \<Rightarrow> bool" where
  "accepted sb \<longleftrightarrow> sb_magic sb = 0xEF53 \<and> sb_incompatible_features sb = supported_features"

definition mounted :: "(nat \<Rightarrow> u8) \<Rightarrow> nat \<Rightarrow> 's partition \<Rightarrow> u64 \<Rightarrow> u64 \<Rightarrow> 's ext4_filesystem" where
  "mounted img b part bs gc =
     (let sb = superblock_at img b
      in \<lparr>fs_part = part, fs_name = sb_volume_name sb, fs_group_count = gc, fs_group_size = sb_group_descriptor_size sb,
          fs_groups = medium img b (unat bs) (unat (gc * sb_group_descriptor_size sb)), fs_block_size = bs, fs_valid = True, fs_sb = sb\<rparr>)"

context disk_image
begin

lemma mount_exact:
  assumes ok: "ok s" and p: "dev_read (part_dev part) = rd" "unat (part_starting_lba part) * 512 = b"
    and sb: "accepted (superblock_at img b)" "sb_block_size (superblock_at img b) = Ret bs" "sb_group_count (superblock_at img b) = Ret gc"
    and t: "there fits b 1024 1024" "there fits b (unat bs) (unat (gc * sb_group_descriptor_size (superblock_at img b)))"
    and junk: "\<And>n. length (junk n) = n"
  shows "\<exists>s'. ext4_mount junk uninit part s = Some (Ret (mounted img b part bs gc, s')) \<and> ok s'"
proof -
  let ?sb = "superblock_at img b"
  let ?n = "gc * sb_group_descriptor_size ?sb"
  have on: "fs_on rd b \<lparr>fs_part = part, fs_name = [], fs_group_count = 0, fs_group_size = 0, fs_groups = [],
      fs_block_size = 0, fs_valid = False, fs_sb = []\<rparr>" using p by (simp add: fs_on_def)
  obtain s1 where s1: "partition_read part 1024 1024 (junk 1024) s = Some (Ret (1, ?sb, s1))" "ok s1"
    using part_read[OF ok on, of 1024 1024 "junk 1024"] t(1) junk by (auto simp: superblock_at_def)
  obtain s2 where s2: "partition_read part bs ?n (junk (unat ?n)) s1 = Some (Ret (1, medium img b (unat bs) (unat ?n), s2))" "ok s2"
    using part_read[OF s1(2) on, of bs ?n "junk (unat ?n)"] t(2) junk by auto
  show ?thesis using s1(1) s2 sb by (simp add: ext4_mount_def Let_def accepted_def mounted_def)
qed

lemma mount_and_open:
  assumes ok: "ok s" and p: "dev_read (part_dev part) = rd" "unat (part_starting_lba part) * 512 = b" "part_type part = ext4_type"
    and sb: "accepted (superblock_at img b)" "sb_block_size (superblock_at img b) = Ret bs" "sb_group_count (superblock_at img b) = Ret gc"
    and t: "there fits b 1024 1024" "there fits b (unat bs) (unat (gc * sb_group_descriptor_size (superblock_at img b)))"
    and junk: "\<And>n. length (junk n) = n"
    and R: "sound_inodes fits img b (mounted img b part bs gc) R" "2 \<in> R"
  shows "\<exists>s1 s2. create_filesystem junk uninit part s = Some (Ret (Some (mounted img b part bs gc), s1)) \<and>
    fs_open junk (mounted img b part bs gc) path s1 =
      Some (Ret (map_option (file_at img b (mounted img b part bs gc)) (resolve img b (mounted img b part bs gc) 2 (components path)), s2))"
proof -
  let ?fs = "mounted img b part bs gc"
  obtain s1 where s1: "ext4_mount junk uninit part s = Some (Ret (?fs, s1))" "ok s1"
    using mount_exact[OF ok p(1,2) sb t junk] by blast
  have "fs_on rd b ?fs" "fs_valid ?fs" using p by (simp_all add: fs_on_def mounted_def Let_def)
  with open_resolves[OF this(1) R s1(2), of junk path] junk s1(1) p(3) show ?thesis
    by (auto simp: create_filesystem_def create_ext4_filesystem_def)
qed

end

section \<open>Properties\<close>

text \<open>C1. Paths are resolved as the tree on the medium says, on a file system whose directories lie in their first extent: on an
  ext4 partition of a SATA disk that answers as documented, with a superblock that the driver accepts, and a set of inodes with the
  root that is closed under the entries of its directories (\<open>sound_inodes\<close>), mounting succeeds with the fields of the superblock, and \<open>open\<close>
  of any path returns the file that the components of the path lead to from the root, entry by entry, or no
  file when a component is missing or is looked up in something that is not a directory.  Every directory
  of the set must have all its blocks in the first of one to four extents held in the inode, with well-formed
  chains of entries - the code reads a directory with blocks in further extents from the wrong place -, and the
  superblock, the group descriptors, the inodes and the directory blocks must each be readable by one request that the
  driver serves (\<open>sata_fits\<close>: whole sectors up to 60 KiB, or at an even place within a sector or over two).\<close>

theorem open_resolves_path:
  assumes "sata_ready s ah b0 buffer ss cap disk p"
    and "dev_read (part_dev part) = sata_block_read (pt_get s) ah tmp b0 b2 buffer" "unat (part_starting_lba part) * 512 = b"
      "part_type part = ext4_type"
    and "accepted (superblock_at disk b)" "sb_block_size (superblock_at disk b) = Ret bs" "sb_group_count (superblock_at disk b) = Ret gc"
    and "there (sata_fits ss cap) b 1024 1024"
      "there (sata_fits ss cap) b (unat bs) (unat (gc * sb_group_descriptor_size (superblock_at disk b)))"
    and "\<And>n. length (junk n) = n"
    and "sound_inodes (sata_fits ss cap) disk b (mounted disk b part bs gc) R" "2 \<in> R"
  shows "\<exists>p1 p2. create_filesystem junk uninit part p = Some (Ret (Some (mounted disk b part bs gc), p1)) \<and>
    fs_open junk (mounted disk b part bs gc) path p1 =
      Some (Ret (map_option (file_at disk b (mounted disk b part bs gc)) (resolve disk b (mounted disk b part bs gc) 2 (components path)), p2))"
  by (rule sata.mount_and_open[OF assms])

text \<open>C25. A directory whose blocks all lie in the first of its extents is listed exactly (\<open>dir_there\<close>: one to four extents in the
  inode, the first one holding every block, each block readable by one request, the entries well-formed chains): the count is the number of
  entries of the directory in use, and the listing writes the names and types of entries \<open>offset\<close> to \<open>n - 1\<close>, in
  order, to the start of the caller's buffer, which must have room for them, and nothing else, and returns the
  number of entries up to \<open>n\<close>.  Directories with blocks in further extents are read from the wrong place and are
  not covered.\<close>

theorem directory_listing_exact:
  assumes "sata_ready s ah b0 buffer ss cap disk p"
    and "fs_on (sata_block_read (pt_get s) ah tmp b0 b2 buffer) b fs"
    and "dir_there (sata_fits ss cap) disk b (fs_block_size fs) f" "is_directory f"
    and "length (junk (unat (fs_block_size fs))) = unat (fs_block_size fs)" "unat n \<le> unat offset + length buf"
  shows "\<exists>p1 p2. get_directory_entry_count junk fs f p = Some (Ret (of_nat (length (dir_entries disk b (fs_block_size fs) f)), p1)) \<and>
    get_directory_entries junk fs f buf offset n p1 =
      Some (Ret ((of_nat (min (unat n) (length (dir_entries disk b (fs_block_size fs) f))),
        (let es = map listed (take (unat n - unat offset) (drop (unat offset) (dir_entries disk b (fs_block_size fs) f)))
         in es @ drop (length es) buf)), p2))"
proof -
  obtain p1 where "get_directory_entry_count junk fs f p = Some (Ret (of_nat (length (dir_entries disk b (fs_block_size fs) f)), p1))"
    "sata_ready s ah b0 buffer ss cap disk p1"
    using sata.entry_count_exact[where junk = junk, OF assms(2-4,1,5)] by blast
  with sata.directory_entries_exact[where junk = junk, OF assms(2-4) this(2) assms(5,6)] show ?thesis by blast
qed


section \<open>A small file system\<close>

text \<open>
  Blocks of 2 KiB: the superblock, one group, the inodes 2 (the root) and 12 (a file of two extents, blocks 5 and 6),
  and the root's entries \<open>.\<close>, \<open>..\<close> and \<open>a\<close> in block 4.
\<close>

definition demo_bytes :: "(nat \<times> u8) list" where
  "demo_bytes =
    [(1028, 16), (1048, 1), (1056, 16), (1064, 16), (1080, 0x53), (1081, 0xEF), (1113, 1), (1120, 0xC2), (1121, 2), (1278, 64),
     (2056, 2),
     (4352, 0xED), (4353, 0x41), (4357, 8), (4386, 8), (4392, 0x0A), (4393, 0xF3), (4394, 1), (4408, 1), (4412, 4),
     (6912, 0xA4), (6913, 0x81), (6917, 16), (6946, 8), (6952, 0x0A), (6953, 0xF3), (6954, 2), (6968, 1), (6972, 5),
     (6976, 1), (6980, 1), (6984, 6),
     (8192, 2), (8196, 12), (8198, 1), (8199, 2), (8200, 0x2E),
     (8204, 2), (8208, 12), (8210, 2), (8211, 2), (8212, 0x2E), (8213, 0x2E),
     (8216, 12), (8220, 0xE8), (8221, 7), (8222, 1), (8223, 1), (8224, 0x61),
     (12288, 0x41), (12289, 0x42), (14336, 0x43), (14337, 0x44)]"

definition demo_fs :: "nat \<Rightarrow> u8" where
  "demo_fs i = (case map_of demo_bytes i of None \<Rightarrow> 0 | Some v \<Rightarrow> v)"

text \<open>The file system lies from sector 4 of a disk of 40 sectors.\<close>

definition demo_ext4_disk :: "nat \<Rightarrow> u8" where
  "demo_ext4_disk i = (if i < 2048 then 0 else demo_fs (i - 2048))"

lemma part_medium: "k + m \<le> n \<Longrightarrow> take m (drop k (medium img b off n)) = medium img b (off + k) m"
  by (simp add: medium_def drop_map take_map add.assoc)

lemma medium_Suc: "medium img b off (Suc n) = img (b + off) # medium img b (Suc off) n"
  by (simp add: medium_def upt_rec)

lemma medium_0: "medium img b off 0 = []"
  by (simp add: medium_def)

lemma field_medium:
  "k < n \<Longrightarrow> field_u8 (medium img b off n) k = img (b + off + k)"
  "k + 2 \<le> n \<Longrightarrow> field_u16 (medium img b off n) k = from_le (medium img b (off + k) 2)"
  "k + 4 \<le> n \<Longrightarrow> field_u32 (medium img b off n) k = from_le (medium img b (off + k) 4)"
  unfolding field_u16_def field_u32_def by (simp_all only: part_medium) (simp add: field_u8_def medium_def add.assoc)

lemma medium_unfold:
  "medium img b off 2 = [img (b + off), img (b + off + 1)]"
  "medium img b off 4 = [img (b + off), img (b + off + 1), img (b + off + 2), img (b + off + 3)]"
  by (simp_all add: numeral_eq_Suc medium_Suc medium_0)

lemmas demo_eval = medium_unfold demo_ext4_disk_def demo_fs_def demo_bytes_def

lemmas fields = field_medium[where img = demo_ext4_disk and b = 2048]

abbreviation "demo_sb \<equiv> superblock_at demo_ext4_disk 2048"

lemma demo_superblock:
  "accepted demo_sb" "sb_block_size demo_sb = Ret 2048" "sb_group_count demo_sb = Ret 1" "sb_group_descriptor_size demo_sb = 64"
  "sb_inodes_per_group demo_sb = 16" "sb_inode_size demo_sb = 256"
  by (simp_all add: superblock_at_def accepted_def sb_magic_def sb_incompatible_features_def supported_features_def sb_block_size_def
      sb_group_count_def sb_blocks_per_group_def sb_blocks_count_def lo_hi_def sfield32_def sfield16_def sb_group_descriptor_size_def
      sb_inodes_per_group_def sb_inode_size_def fields demo_eval)

definition demo_part :: "'s device \<Rightarrow> 's partition" where
  "demo_part d = \<lparr>part_name = [], part_type = ext4_type, part_guid = [], part_starting_lba = 4, part_ending_lba = 39,
     part_attributes = 0, part_dev = d\<rparr>"

abbreviation "demo_mounted d \<equiv> mounted demo_ext4_disk 2048 (demo_part d) 2048 1"

lemma demo_mounted_fields:
  "fs_block_size (demo_mounted d) = 2048" "fs_group_size (demo_mounted d) = 64" "fs_sb (demo_mounted d) = demo_sb"
  "fs_groups (demo_mounted d) = medium demo_ext4_disk 2048 2048 64" "fs_part (demo_mounted d) = demo_part d"
  by (simp_all add: mounted_def Let_def demo_superblock)

lemma field_drop: "field_u16 (drop a xs) k = field_u16 xs (a + k)" "field_u32 (drop a xs) k = field_u32 xs (a + k)"
  by (simp_all add: field_u16_def field_u32_def add.commute)

lemma field_drop8: "a + k < length xs \<Longrightarrow> field_u8 (drop a xs) k = field_u8 xs (a + k)"
  by (simp add: field_u8_def)

lemma demo_inode_place:
  "unat (inode_place (demo_mounted d) 2) = 4352" "unat (inode_place (demo_mounted d) 12) = 6912" "inode_length (demo_mounted d) = 160"
  by (simp_all add: inode_place_def inode_length_def demo_mounted_fields demo_superblock bg_inode_table_index_def lo_hi_def
      sfield32_def field_drop fields demo_eval)

lemma demo_inode:
  "inode_bytes demo_ext4_disk 2048 (demo_mounted d) 2 = medium demo_ext4_disk 2048 4352 160"
  "inode_bytes demo_ext4_disk 2048 (demo_mounted d) 12 = medium demo_ext4_disk 2048 6912 160"
  by (simp_all add: inode_bytes_def demo_inode_place)

lemma demo_inode_there:
  "inode_there (sata_fits 512 20480) 2048 (demo_mounted d) 2" "inode_there (sata_fits 512 20480) 2048 (demo_mounted d) 12"
  by (simp_all add: inode_there_def there_def demo_inode_place demo_mounted_fields demo_superblock sata_fits_def)

abbreviation "demo_root d \<equiv> file_at demo_ext4_disk 2048 (demo_mounted d) 2"
abbreviation "demo_file d \<equiv> file_at demo_ext4_disk 2048 (demo_mounted d) 12"

lemma demo_modes: "is_directory (demo_root d)" "\<not> is_directory (demo_file d)"
  by (simp_all add: is_directory_def file_at_def demo_inode inode_mode_def fields demo_eval)

lemma demo_ext:
  "ext_of (demo_root d) = medium demo_ext4_disk 2048 4392 60" "ext_of (demo_file d) = medium demo_ext4_disk 2048 6952 60"
  by (simp_all add: ext_of_def file_at_def demo_inode inode_block_data_def part_medium)

lemma demo_root_blocks: "dir_blocks 2048 (demo_root d) = 1" "file_start 2048 (demo_root d) = 8192"
  "in_first_extent 2048 (demo_root d) 2048"
  unfolding dir_blocks_def file_start_def in_first_extent_def demo_ext leaf_at_def leaf_block_def leaf_len_def leaf_start_def field_drop
  by (simp_all add: file_get_size_def inode_get_size_def inode_uses_extent_tree_def file_at_def demo_inode fields demo_eval)

lemma demo_root_entries:
  "dir_entries demo_ext4_disk 2048 2048 (demo_root d) =
    [\<lparr>de_inode = 2, de_flags = 2, de_name = [0x2E]\<rparr>, \<lparr>de_inode = 2, de_flags = 2, de_name = [0x2E, 0x2E]\<rparr>,
     \<lparr>de_inode = 12, de_flags = 1, de_name = [0x61]\<rparr>]"
  "chain_ok (dir_block demo_ext4_disk 2048 2048 (demo_root d) 0) 0"
proof -
  let ?b = "dir_block demo_ext4_disk 2048 2048 (demo_root d) 0"
  have b: "?b = medium demo_ext4_disk 2048 8192 2048" by (simp add: dir_block_def demo_root_blocks)
  have s: "entry_size ?b 0 = 12" "entry_size ?b 12 = 12" "entry_size ?b 24 = 2024"
    and i: "entry_inode ?b 0 = 2" "entry_inode ?b 12 = 2" "entry_inode ?b 24 = 12"
    and n: "name_length ?b 0 = 1" "name_length ?b 12 = 2" "name_length ?b 24 = 1"
    by (simp_all add: entry_size_def entry_inode_def name_length_def field_drop field_drop8 b fields demo_eval)
  have r: "read_entry ?b 0 = \<lparr>de_inode = 2, de_flags = 2, de_name = [0x2E]\<rparr>"
    "read_entry ?b 12 = \<lparr>de_inode = 2, de_flags = 2, de_name = [0x2E, 0x2E]\<rparr>"
    "read_entry ?b 24 = \<lparr>de_inode = 12, de_flags = 1, de_name = [0x61]\<rparr>"
    unfolding read_entry_def i n
    by (simp_all add: field_drop8 b fields demo_eval part_medium from_char_array_def medium_Suc medium_0)
  have l: "length ?b = 2048" by (simp add: b)
  show "chain_ok ?b 0" by (simp add: chain_ok.simps s n l)
  have "entries_from ?b 0 = [\<lparr>de_inode = 2, de_flags = 2, de_name = [0x2E]\<rparr>, \<lparr>de_inode = 2, de_flags = 2, de_name = [0x2E, 0x2E]\<rparr>,
     \<lparr>de_inode = 12, de_flags = 1, de_name = [0x61]\<rparr>]" by (simp add: entries_from.simps s i r l)
  then show "dir_entries demo_ext4_disk 2048 2048 (demo_root d) = [\<lparr>de_inode = 2, de_flags = 2, de_name = [0x2E]\<rparr>, 
     \<lparr>de_inode = 2, de_flags = 2, de_name = [0x2E, 0x2E]\<rparr>, \<lparr>de_inode = 12, de_flags = 1, de_name = [0x61]\<rparr>]"
    by (simp add: dir_entries_def demo_root_blocks)
qed

text \<open>The port of the disk, and the partition on it.\<close>

definition demo_big_port :: "(u64 \<Rightarrow> u32) port" where
  "demo_big_port = demo_port\<lparr>sector_count := 40\<rparr>"

lemma demo_big_ready:
  "sata_ready demo_pt (demo_ahci 0x100 512 demo_ext4_disk) (Ti 64 + 0x100000) (Ti 64 + 0x1000) 512 20480 demo_ext4_disk demo_big_port"
proof -
  have m: "port_mmio demo_big_port = 0x100" "sector_count demo_big_port = 40" by (simp_all add: demo_big_port_def demo_port_def)
  have "even (Ti 64 + 0x1000)" "even (Ti 64 + 0x100000)" by (simp_all add: Ti_values even_iff_mod_2_eq_zero)
  moreover have "reads_disk (demo_ahci 0x100 512 demo_ext4_disk) (port_mmio demo_big_port) 512 (unat (sector_count demo_big_port)) demo_ext4_disk"
    unfolding m(1) by (rule demo_reads_disk)
  moreover have "disk_port 512 demo_big_port" "port_idle (demo_ahci 0x100 512 demo_ext4_disk) demo_big_port"
    by (simp_all add: disk_port_def demo_big_port_def demo_port_def port_ok_def zero_table_def zero_header_def prdt_max_16 port_idle_def port_reg_def demo_ahci_def)
  ultimately show ?thesis
    using phys_bytes_window[of "0x1000" 61440 demo_pt]
      phys_bytes_window[of "0x100000" 1024 demo_pt] window_distinct[of "0x1000" 61440] window_distinct[of "0x100000" 1024]
    by (simp add: sata_ready_def m(2) del: upt_rec_numeral)
qed

definition demo_device :: "(u64 \<Rightarrow> u32) port device" where
  "demo_device = \<lparr>dev_size = 20480,
     dev_read = sata_block_read (pt_get demo_pt) (demo_ahci 0x100 512 demo_ext4_disk) 0 (Ti 64 + 0x100000) 0 (Ti 64 + 0x1000),
     dev_write = (\<lambda>_ _ _ _. None)\<rparr>"

lemma demo_part_fields:
  "dev_read (part_dev (demo_part demo_device)) =
     sata_block_read (pt_get demo_pt) (demo_ahci 0x100 512 demo_ext4_disk) 0 (Ti 64 + 0x100000) 0 (Ti 64 + 0x1000)"
  "unat (part_starting_lba (demo_part d)) * 512 = 2048" "part_type (demo_part d) = ext4_type"
  by (simp_all add: demo_part_def demo_device_def)

lemma demo_on: "fs_on (sata_block_read (pt_get demo_pt) (demo_ahci 0x100 512 demo_ext4_disk) 0 (Ti 64 + 0x100000) 0 (Ti 64 + 0x1000))
    2048 (demo_mounted demo_device)"
  unfolding fs_on_def demo_mounted_fields by (intro conjI demo_part_fields)

lemma demo_root_there: "dir_there (sata_fits 512 20480) demo_ext4_disk 2048 2048 (demo_root d)"
  by (simp add: dir_there_def demo_root_blocks demo_root_entries(2) there_def sata_fits_def)

lemma demo_sound: "sound_inodes (sata_fits 512 20480) demo_ext4_disk 2048 (demo_mounted d) {2, 12}"
  by (simp add: sound_inodes_def demo_inode_there demo_modes demo_mounted_fields demo_root_there demo_root_entries)

lemma open_resolves_path_witness:
  "\<exists>p1 p2. create_filesystem (\<lambda>n. replicate n 7) 0 (demo_part demo_device) demo_big_port = Some (Ret (Some (demo_mounted demo_device), p1)) \<and>
    fs_open (\<lambda>n. replicate n 7) (demo_mounted demo_device) [slash, 0x2E, slash, 0x61] p1 = Some (Ret (Some (demo_file demo_device), p2))"
proof -
  have c: "components [slash, 0x2E, slash, 0x61] = [[0x2E], [0x61]]" by (simp add: slash_def)
  have r: "resolve demo_ext4_disk 2048 (demo_mounted demo_device) 2 [[0x2E], [0x61]] = Some 12"
    by (simp add: demo_modes demo_mounted_fields demo_root_entries)
  have "there (sata_fits 512 20480) 2048 1024 1024"
    "there (sata_fits 512 20480) 2048 (unat (2048 :: u64)) (unat (1 * sb_group_descriptor_size demo_sb))"
    by (simp_all add: there_def sata_fits_def demo_superblock)
  from open_resolves_path[OF demo_big_ready demo_part_fields demo_superblock(1-3) this _ demo_sound,
      of "\<lambda>n. replicate n 7" 0 "[slash, 0x2E, slash, 0x61]"]
  show ?thesis unfolding c r by simp
qed

lemma directory_listing_exact_witness:
  "\<exists>p1 p2. get_directory_entry_count (\<lambda>n. replicate n 7) (demo_mounted demo_device) (demo_root demo_device) demo_big_port = Some (Ret (3, p1)) \<and>
    get_directory_entries (\<lambda>n. replicate n 7) (demo_mounted demo_device) (demo_root demo_device) [([], Extra)] 2 3 p1 =
      Some (Ret ((3, [([0x61], Normal_file)]), p2))"
  using directory_listing_exact[OF demo_big_ready demo_on, of "demo_root demo_device" "\<lambda>n. replicate n 7" 3 2 "[([], Extra)]"]
  by (simp add: demo_modes demo_mounted_fields demo_root_there demo_root_entries listed_def entry_type_def)


end
