(* ===== verification/Out.thy ===== *)
theory Out
  imports KBase
begin

text \<open>
  Text output: the VGA text screen of \<^verbatim>\<open>src/high/out/vga.cpp\<close> and \<^verbatim>\<open>include/out/vga.h\<close>, the printer and its
  format strings of \<^verbatim>\<open>include/out/printer.h\<close>, the log of \<^verbatim>\<open>include/out/log.h\<close> and
  \<^verbatim>\<open>src/high/out/log.cpp\<close>, and \<^verbatim>\<open>src/high/out/panic.cpp\<close>.  The screen is the physical memory from the
  text buffer on; a store past the screen is kept, at its address.
\<close>

section \<open>The screen\<close>

record color =
  foreground :: u8
  background :: u8

definition color_byte :: "color \<Rightarrow> u8" where
  "color_byte c = (foreground c AND 15) OR push_bit 4 (background c AND 15)"

record vga =
  vga_buffer :: u64
  char_index :: u32
  width :: u16
  height :: u16
  vga_mem :: "u64 \<Rightarrow> u8"

definition vga_startup :: "(u64 \<Rightarrow> u8) \<Rightarrow> vga" where
  "vga_startup m = \<lparr>vga_buffer = 0, char_index = 0, width = 0, height = 0, vga_mem = m\<rparr>"

definition vga_init :: "vga \<Rightarrow> vga" where
  "vga_init v = v\<lparr>vga_buffer := 0xB8000, width := 80, height := 25\<rparr>"

definition vga_has_init :: "vga \<Rightarrow> bool" where
  "vga_has_init v \<longleftrightarrow> vga_buffer v = 0xB8000"

text \<open>Positions; the products are computed in \<open>int\<close>, and the division by a width of zero is undefined.\<close>

definition position :: "nat \<Rightarrow> nat \<Rightarrow> vga \<Rightarrow> u32 res" where
  "position x y v =
     (let i = y * unat (width v) + x in if i \<ge> 2 ^ 31 then Stop Undef else Ret (of_nat i))"

definition set_cursor :: "u16 \<Rightarrow> u16 \<Rightarrow> vga \<Rightarrow> vga res" where
  "set_cursor x y v = bindr (position (unat x) (unat y) v) (\<lambda>i. Ret (v\<lparr>char_index := i\<rparr>))"

definition get_char_index :: "vga \<Rightarrow> u32" where "get_char_index v = char_index v"

definition set_char_index :: "u32 \<Rightarrow> vga \<Rightarrow> vga" where "set_char_index i v = v\<lparr>char_index := i\<rparr>"

definition get_dimensions :: "vga \<Rightarrow> u16 \<times> u16" where "get_dimensions v = (width v, height v)"

definition get_cursor_x :: "vga \<Rightarrow> u16 res" where
  "get_cursor_x v = (if width v = 0 then Stop Undef else Ret (ucast (char_index v mod ucast (width v))))"

definition get_cursor_y :: "vga \<Rightarrow> u16 res" where
  "get_cursor_y v = (if width v = 0 then Stop Undef else Ret (ucast (char_index v div ucast (width v))))"

definition set_dimensions :: "u16 \<Rightarrow> u16 \<Rightarrow> vga \<Rightarrow> vga res" where
  "set_dimensions w h v =
     bindr (get_cursor_x v) (\<lambda>x. bindr (get_cursor_y v) (\<lambda>y. set_cursor x y (v\<lparr>width := w, height := h\<rparr>)))"

text \<open>\<open>setChar(index)\<close>: the byte of the character and of its color; the offset is computed in 32 bits.\<close>

definition set_char_at :: "u32 \<Rightarrow> u8 \<Rightarrow> color \<Rightarrow> vga \<Rightarrow> vga" where
  "set_char_at i c col v =
     v\<lparr>vga_mem := (vga_mem v)(vga_buffer v + ucast (i * 2) := c, vga_buffer v + ucast (i * 2 + 1) := color_byte col)\<rparr>"

definition set_char :: "u16 \<Rightarrow> u16 \<Rightarrow> u8 \<Rightarrow> color \<Rightarrow> vga \<Rightarrow> vga res" where
  "set_char x y c col v = bindr (position (unat x) (unat y) v) (\<lambda>i. Ret (set_char_at i c col v))"

text \<open>A loop over numbers that may stop.\<close>

fun foldr_res :: "('i \<Rightarrow> 's \<Rightarrow> 's res) \<Rightarrow> 'i list \<Rightarrow> 's \<Rightarrow> 's res" where
  "foldr_res f [] s = Ret s"
| "foldr_res f (i # is) s = bindr (f i s) (foldr_res f is)"

text \<open>The cells of the buffer as 16-bit units.\<close>

definition get_cell :: "nat \<Rightarrow> vga \<Rightarrow> u8 \<times> u8" where
  "get_cell i v = (vga_mem v (vga_buffer v + of_nat (2 * i)), vga_mem v (vga_buffer v + of_nat (2 * i + 1)))"

definition put_cell :: "nat \<Rightarrow> u8 \<times> u8 \<Rightarrow> vga \<Rightarrow> vga" where
  "put_cell i c v =
     v\<lparr>vga_mem := (vga_mem v)(vga_buffer v + of_nat (2 * i) := fst c, vga_buffer v + of_nat (2 * i + 1) := snd c)\<rparr>"

definition scroll_up :: "vga \<Rightarrow> vga" where
  "scroll_up v =
     (let w = unat (width v); n = w * (unat (height v) - 1);
          v1 = fold (\<lambda>i v. put_cell i (get_cell (i + w) v) v) [0..<n] v
      in fold (\<lambda>i v. put_cell i (0, 0) v) [n..<w * unat (height v)] v1)"

text \<open>\<open>line == height - 1\<close> is compared in \<open>int\<close>: never true for a height of zero.\<close>

definition print_ln :: "color \<Rightarrow> vga \<Rightarrow> vga res" where
  "print_ln col v =
     bindr (get_cursor_y v) (\<lambda>line.
     bindr (get_cursor_x v) (\<lambda>column.
     bindr (foldr_res (\<lambda>i. set_char (of_nat i) line 0x20 col) [unat column..<unat (width v)] v) (\<lambda>v1.
     bindr (set_cursor 0 (line + 1) v1) (\<lambda>v2.
       if unat line + 1 = unat (height v2) then set_cursor 0 (height v2 - 1) (scroll_up v2) else Ret v2))))"

definition print_char :: "u8 \<Rightarrow> color \<Rightarrow> vga \<Rightarrow> vga res" where
  "print_char c col v =
     (if c = 0x0A then print_ln col v
      else let v1 = set_char_at (char_index v) c col v in Ret (v1\<lparr>char_index := char_index v1 + 1\<rparr>))"

text \<open>A C string is its bytes without the terminating zero.\<close>

fun print_str :: "u8 list \<Rightarrow> color \<Rightarrow> vga \<Rightarrow> vga res" where
  "print_str [] col v = Ret v"
| "print_str (c # cs) col v =
     (if c = 0x0A then bindr (print_ln col v) (print_str cs col) else bindr (print_char c col v) (print_str cs col))"

definition clear_screen :: "vga \<Rightarrow> vga" where
  "clear_screen v =
     v\<lparr>vga_mem := fold (\<lambda>i m. m(vga_buffer v + of_nat i := 0)) [0..<unat (width v) * unat (height v) * 2] (vga_mem v)\<rparr>"

section \<open>Numbers\<close>

text \<open>
  The digits, the last one first, into the buffer of 64 bytes; \<open>digits\<close> has 17 elements with its zero.  The buffer
  \<open>buf\<close> holds what has been written.
\<close>

definition digits :: "u8 list" where
  "digits = [0x30, 0x31, 0x32, 0x33, 0x34, 0x35, 0x36, 0x37, 0x38, 0x39, 0x41, 0x42, 0x43, 0x44, 0x45, 0x46, 0]"

function digit_loop :: "u64 \<Rightarrow> u8 \<Rightarrow> u8 list \<Rightarrow> u8 list res" where
  "digit_loop val base buf =
     (if length buf \<ge> 64 \<or> base = 0 then Stop Undef
      else let d = unat (val mod ucast base)
           in if d \<ge> 17 then Stop Undef
              else let buf' = buf @ [digits ! d]; val' = val div ucast base
                   in if val' > 0 then digit_loop val' base buf' else Ret buf')"
  by pat_completeness auto
termination by (relation "measure (\<lambda>(val, base, buf). 64 - length buf)") auto

declare digit_loop.simps [simp del]

definition pad_digits :: "u8 \<Rightarrow> u8 list \<Rightarrow> u8 list res" where
  "pad_digits min_digits buf =
     (let buf' = buf @ replicate (unat min_digits - length buf) 0x30
      in if length buf' > 64 then Stop Undef else Ret buf')"

text \<open>Exchanging the ends, as in the source.\<close>

definition swap_pair :: "nat \<Rightarrow> u8 list \<Rightarrow> u8 list" where
  "swap_pair j b = (let n = length b in b[j := b ! (n - j - 1), n - j - 1 := b ! j])"

definition swap_ends :: "u8 list \<Rightarrow> u8 list" where
  "swap_ends b = fold swap_pair [0..<length b div 2] b"

text \<open>The string that is printed; a buffer without a zero is read past its end.\<close>

definition number_string :: "u64 \<Rightarrow> u8 \<Rightarrow> u8 \<Rightarrow> u8 list res" where
  "number_string val base min_digits =
     bindr (digit_loop val base []) (\<lambda>b. bindr (pad_digits min_digits b) (\<lambda>b.
       if length b \<ge> 64 then Stop Undef else Ret (takeWhile (\<lambda>c. c \<noteq> 0) (swap_ends b))))"

definition print_u64 :: "u64 \<Rightarrow> color \<Rightarrow> u8 \<Rightarrow> u8 \<Rightarrow> vga \<Rightarrow> vga res" where
  "print_u64 val col base min_digits v = bindr (number_string val base min_digits) (\<lambda>s. print_str s col v)"

text \<open>A signed number; the negation of the least one overflows.\<close>

definition print_i64 :: "u64 \<Rightarrow> color \<Rightarrow> u8 \<Rightarrow> u8 \<Rightarrow> vga \<Rightarrow> vga res" where
  "print_i64 val col base min_digits v =
     (if val <s 0 then
        bindr (print_char 0x2D col v) (\<lambda>v1.
          if val = 0x8000000000000000 then Stop Undef else print_u64 (- val) col base min_digits v1)
      else if min_digits \<noteq> 0 then
        bindr (print_char (if val \<noteq> 0 then 0x2B else 0x20) col v) (print_u64 val col base min_digits)
      else print_u64 val col base min_digits v)"

section \<open>Printers and format strings\<close>

text \<open>\<open>printer_impl\<close>: the virtual functions that \<open>printf\<close> reaches.\<close>

record 's printer =
  pr_char :: "u8 \<Rightarrow> 's \<Rightarrow> 's res"
  pr_str :: "u8 list \<Rightarrow> 's \<Rightarrow> 's res"
  pr_i64 :: "u64 \<Rightarrow> u8 \<Rightarrow> u8 \<Rightarrow> 's \<Rightarrow> 's res"
  pr_u64 :: "u64 \<Rightarrow> u8 \<Rightarrow> u8 \<Rightarrow> 's \<Rightarrow> 's res"

definition vga_printer :: "color \<Rightarrow> vga printer" where
  "vga_printer col =
     \<lparr>pr_char = (\<lambda>c. print_char c col), pr_str = (\<lambda>s. print_str s col),
      pr_i64 = (\<lambda>n base d. print_i64 n col base d), pr_u64 = (\<lambda>n base d. print_u64 n col base d)\<rparr>"

text \<open>
  \<open>print_to_next\<close>: a format is the bytes from the pointer up to and with the zero; a pointer past the zero is the
  empty list, and reading through it is undefined.
\<close>

fun print_to_next :: "'s printer \<Rightarrow> u8 list \<Rightarrow> 's \<Rightarrow> (u8 \<times> u8 list \<times> 's) res" where
  "print_to_next p [] s = Stop Undef"
| "print_to_next p (c # fmt) s =
     (if c = 0 then Ret (0, c # fmt, s)
      else if c = 0x25 then
        (case fmt of
           [] \<Rightarrow> Stop Undef
         | sp # fmt' \<Rightarrow>
             if sp = 0x25 then bindr (pr_char p 0x25 s) (print_to_next p fmt') else Ret (sp, fmt', s))
      else bindr (pr_char p c s) (print_to_next p fmt))"

definition print_num :: "'s printer \<Rightarrow> u8 \<Rightarrow> u64 \<Rightarrow> 's \<Rightarrow> (bool \<times> 's) res" where
  "print_num p spec val s =
     (if spec = 0x64 \<or> spec = 0x69 then bindr (pr_i64 p val 10 0 s) (\<lambda>s. Ret (True, s))
      else if spec = 0x75 then bindr (pr_u64 p val 10 0 s) (\<lambda>s. Ret (True, s))
      else if spec = 0x78 \<or> spec = 0x70 \<or> spec = 0x58 then bindr (pr_u64 p val 16 0 s) (\<lambda>s. Ret (True, s))
      else if spec = 0x62 \<or> spec = 0x42 then
        if val > Ti 1 then bindr (pr_u64 p (val div Gi 1) 10 0 s) (\<lambda>s. bindr (pr_str p [0x47, 0x69] s) (\<lambda>s. Ret (True, s)))
        else if val > Gi 1 then bindr (pr_u64 p (val div Mi 1) 10 0 s) (\<lambda>s. bindr (pr_str p [0x4D, 0x69] s) (\<lambda>s. Ret (True, s)))
        else if val > Mi 1 then bindr (pr_u64 p (val div Ki 1) 10 0 s) (\<lambda>s. bindr (pr_str p [0x4B, 0x69] s) (\<lambda>s. Ret (True, s)))
        else Ret (True, s)
      else Ret (False, s))"

text \<open>
  The overloads of \<open>printf_impl\<close>.  A C string has its address, which the number formats print; a \<open>string\<close> has none; all
  other numbers and pointers are converted to 64 bits by the caller.
\<close>

datatype argument =
    Char_arg u8
  | Cstr_arg u64 "u8 list"
  | String_arg "u8 list"
  | Num_arg u64

definition bad_format :: "'a res" where "bad_format = Stop (Panic ''Invalid format specifier'')"

fun print_arg :: "'s printer \<Rightarrow> u8 \<Rightarrow> argument \<Rightarrow> 's \<Rightarrow> (bool \<times> 's) res" where
  "print_arg p spec (Char_arg c) s =
     (if spec = 0x63 then bindr (pr_char p c s) (\<lambda>s. Ret (True, s)) else print_num p spec (scast c) s)"
| "print_arg p spec (Cstr_arg a str) s =
     (if spec = 0x73 then bindr (pr_str p str s) (\<lambda>s. Ret (True, s)) else print_num p spec a s)"
| "print_arg p spec (String_arg str) s =
     (if spec = 0x73 then bindr (pr_str p str s) (\<lambda>s. Ret (True, s)) else Ret (False, s))"
| "print_arg p spec (Num_arg n) s = print_num p spec n s"

definition printf_impl :: "'s printer \<Rightarrow> u8 list \<Rightarrow> argument \<Rightarrow> 's \<Rightarrow> (u8 list \<times> 's) res" where
  "printf_impl p fmt a s =
     (case fmt of
        [] \<Rightarrow> Stop Undef
      | c # _ \<Rightarrow>
          if c = 0 then Ret (fmt, s)
          else
            bindr (print_to_next p fmt s) (\<lambda>(spec, fmt', s1).
              if spec = 0 then Ret (fmt', s1)
              else bindr (print_arg p spec a s1) (\<lambda>(ok, s2). if ok then Ret (fmt', s2) else bad_format)))"

fun printf :: "'s printer \<Rightarrow> u8 list \<Rightarrow> argument list \<Rightarrow> 's \<Rightarrow> (u8 list \<times> 's) res" where
  "printf p fmt [] s = bindr (print_to_next p fmt s) (\<lambda>(spec, fmt', s1). if spec \<noteq> 0 then bad_format else Ret (fmt', s1))"
| "printf p fmt (a # as) s = bindr (printf_impl p fmt a s) (\<lambda>(fmt', s1). printf p fmt' as s1)"

section \<open>The log, and the end\<close>

datatype level = Debug | Info | Warning | Error | Fatal

fun level_number :: "level \<Rightarrow> nat" where
  "level_number Debug = 0"
| "level_number Info = 1"
| "level_number Warning = 2"
| "level_number Error = 3"
| "level_number Fatal = 4"

record log_state =
  log_level :: level
  log_vga :: vga

definition log_startup :: "vga \<Rightarrow> log_state" where
  "log_startup v = \<lparr>log_level = Info, log_vga = v\<rparr>"

definition set_level :: "level \<Rightarrow> log_state \<Rightarrow> log_state" where
  "set_level l g = g\<lparr>log_level := l\<rparr>"

definition get_level :: "log_state \<Rightarrow> level" where
  "get_level g = log_level g"

text \<open>\<open>LevelGuard\<close>: the level during a block.\<close>

definition with_level :: "level \<Rightarrow> (log_state \<Rightarrow> 'a \<times> log_state) \<Rightarrow> log_state \<Rightarrow> 'a \<times> log_state" where
  "with_level l body g = (let (a, g1) = body (set_level l g) in (a, set_level (log_level g) g1))"

fun get_color :: "level \<Rightarrow> color" where
  "get_color Debug = \<lparr>foreground = 7, background = 0\<rparr>"
| "get_color Info = \<lparr>foreground = 10, background = 0\<rparr>"
| "get_color Warning = \<lparr>foreground = 14, background = 0\<rparr>"
| "get_color Error = \<lparr>foreground = 12, background = 0\<rparr>"
| "get_color Fatal = \<lparr>foreground = 4, background = 0\<rparr>"

fun level_tag :: "level \<Rightarrow> u8 list" where
  "level_tag Debug = [0x5B, 0x44, 0x45, 0x42, 0x55, 0x47, 0x7C]"
| "level_tag Info = [0x5B, 0x49, 0x4E, 0x46, 0x4F, 0x20, 0x7C]"
| "level_tag Warning = [0x5B, 0x57, 0x41, 0x52, 0x4E, 0x20, 0x7C]"
| "level_tag Error = [0x5B, 0x45, 0x52, 0x52, 0x4F, 0x52, 0x7C]"
| "level_tag Fatal = [0x5B, 0x46, 0x41, 0x54, 0x41, 0x4C, 0x7C]"

definition log_printf :: "level \<Rightarrow> u64 \<Rightarrow> u8 list \<Rightarrow> u8 list \<Rightarrow> argument list \<Rightarrow> log_state \<Rightarrow> log_state res" where
  "log_printf l a mod_name fmt args g =
     (if level_number l < level_number (log_level g) then Ret g
      else
        let p = vga_printer (get_color l)
        in bindr (pr_str p (level_tag l) (log_vga g)) (\<lambda>v1.
           bindr (printf p [0x25, 0x73, 0x5D, 0x20, 0] [Cstr_arg a mod_name] v1) (\<lambda>(_, v2).
           bindr (printf p fmt args v2) (\<lambda>(_, v3).
             if l = Fatal then Stop (Panic ''Fatal error'') else Ret (g\<lparr>log_vga := v3\<rparr>)))))"

definition log_debug :: "u64 \<Rightarrow> u8 list \<Rightarrow> u8 list \<Rightarrow> argument list \<Rightarrow> log_state \<Rightarrow> log_state res" where
  "log_debug a mod_name fmt args g = log_printf Debug a mod_name fmt args g"

definition log_info :: "u64 \<Rightarrow> u8 list \<Rightarrow> u8 list \<Rightarrow> argument list \<Rightarrow> log_state \<Rightarrow> log_state res" where
  "log_info a mod_name fmt args g = log_printf Info a mod_name fmt args g"

definition log_warning :: "u64 \<Rightarrow> u8 list \<Rightarrow> u8 list \<Rightarrow> argument list \<Rightarrow> log_state \<Rightarrow> log_state res" where
  "log_warning a mod_name fmt args g = log_printf Warning a mod_name fmt args g"

definition log_error :: "u64 \<Rightarrow> u8 list \<Rightarrow> u8 list \<Rightarrow> argument list \<Rightarrow> log_state \<Rightarrow> log_state res" where
  "log_error a mod_name fmt args g = log_printf Error a mod_name fmt args g"

definition log_fatal :: "u64 \<Rightarrow> u8 list \<Rightarrow> u8 list \<Rightarrow> argument list \<Rightarrow> log_state \<Rightarrow> log_state res" where
  "log_fatal a mod_name fmt args g = log_printf Fatal a mod_name fmt args g"

text \<open>What \<open>panic\<close> leaves on the screen before it halts the processor.\<close>

definition panic_screen :: "u8 list \<Rightarrow> vga \<Rightarrow> vga res" where
  "panic_screen message v =
     (if \<not> vga_has_init v then Ret v
      else
        bindr (set_cursor 0 (height v - 1) v) (\<lambda>v1.
        bindr (print_str [0x50, 0x41, 0x4E, 0x49, 0x43, 0x3A, 0x20] \<lparr>foreground = 4, background = 0\<rparr> v1)
          (print_str message \<lparr>foreground = 4, background = 0\<rparr>)))"

section \<open>Printing and reading numbers\<close>

text \<open>The value of a string of digits in a base.\<close>

definition digit_value :: "u8 \<Rightarrow> nat option" where
  "digit_value c =
     (if 0x30 \<le> unat c \<and> unat c \<le> 0x39 then Some (unat c - 0x30)
      else if 0x41 \<le> unat c \<and> unat c \<le> 0x46 then Some (unat c - 0x37)
      else None)"

fun number_from :: "nat \<Rightarrow> nat \<Rightarrow> u8 list \<Rightarrow> nat option" where
  "number_from base n [] = Some n"
| "number_from base n (c # cs) =
     (case digit_value c of
        None \<Rightarrow> None
      | Some d \<Rightarrow> if d < base then number_from base (n * base + d) cs else None)"

definition number_value :: "nat \<Rightarrow> u8 list \<Rightarrow> nat option" where
  "number_value base cs = number_from base 0 cs"

lemma number_from_append:
  "number_from base n (cs @ ds) = Option.bind (number_from base n cs) (\<lambda>m. number_from base m ds)"
  by (induction base n cs rule: number_from.induct) (auto split: option.splits)

text \<open>Digits, the last one first.\<close>

fun low_first :: "nat \<Rightarrow> nat list \<Rightarrow> nat" where
  "low_first base [] = 0"
| "low_first base (d # ds) = d + base * low_first base ds"

lemma low_first_append: "low_first base (ds @ es) = low_first base ds + base ^ length ds * low_first base es"
  by (induction ds) (simp_all add: algebra_simps)

lemma low_first_zeros: "low_first base (replicate n 0) = 0"
  by (induction n) simp_all

lemma digit_cases: "d < 16 \<Longrightarrow> digits ! d \<noteq> 0 \<and> digit_value (digits ! d) = Some d"
proof -
  have "\<forall>d < 16. digits ! d \<noteq> 0 \<and> digit_value (digits ! d) = Some d" by code_simp
  then show "d < 16 \<Longrightarrow> digits ! d \<noteq> 0 \<and> digit_value (digits ! d) = Some d" by blast
qed

lemma number_value_rev:
  "\<forall>d \<in> set ds. d < 16 \<and> d < base \<Longrightarrow> number_value base (rev (map ((!) digits) ds)) = Some (low_first base ds)"
  by (induction ds) (simp_all add: number_value_def number_from_append digit_cases algebra_simps)

lemma unat_base: "unat (w :: u8) < 2 ^ 8"
  using unsigned_less[of w] by simp

lemma digit_loop_digits:
  assumes "2 \<le> unat base" "unat base \<le> 16" "unat val < unat base ^ k" "0 < k" "length buf + k \<le> 64"
  shows "\<exists>ds. digit_loop val base buf = Ret (buf @ map ((!) digits) ds) \<and> (\<forall>d \<in> set ds. d < unat base) \<and>
    low_first (unat base) ds = unat val \<and> 0 < length ds \<and> length ds \<le> k"
  using assms(3-5)
proof (induction k arbitrary: val buf)
  case (Suc k)
  have b: "unat (ucast base :: u64) = unat base"
    using unat_base[of base] by (simp add: unsigned_ucast_eq take_bit_nat_eq_self)
  let ?d = "unat (val mod ucast base)" and ?v = "val div ucast base"
  have d: "?d = unat val mod unat base" "unat ?v = unat val div unat base" by (simp_all add: unat_mod unat_div b)
  have "?d < unat base" using assms(1) d(1) by simp
  then have "\<not> ?d \<ge> 17" using assms(2) by linarith
  moreover have "\<not> (length buf \<ge> 64 \<or> base = 0)" using Suc.prems assms(1) by auto
  ultimately have step: "digit_loop val base buf =
      (if ?v > 0 then digit_loop ?v base (buf @ [digits ! ?d]) else Ret (buf @ [digits ! ?d]))"
    by (subst digit_loop.simps) (simp add: Let_def)
  have v: "unat ?v < unat base ^ k" using Suc.prems(1) assms(1) unfolding d(2)
    by (simp add: div_less_iff_less_mult mult.commute)
  have s: "unat val = ?d + unat base * unat ?v" unfolding d by simp
  show ?case
  proof (cases "?v > 0")
    case False
    then have "unat ?v = 0" by (simp add: unat_less_iff)
    then show ?thesis using step False s \<open>?d < unat base\<close> by (intro exI[of _ "[?d]"]) simp
  next
    case True
    then have "k \<noteq> 0" using v by (cases k) (simp_all add: unat_less_iff)
    then obtain ds where "digit_loop ?v base (buf @ [digits ! ?d]) = Ret ((buf @ [digits ! ?d]) @ map ((!) digits) ds)"
      "\<forall>d \<in> set ds. d < unat base" "low_first (unat base) ds = unat ?v" "length ds \<le> k"
      using Suc.IH[OF v, of "buf @ [digits ! ?d]"] Suc.prems(3) by auto
    then show ?thesis using step True s \<open>?d < unat base\<close> by (intro exI[of _ "?d # ds"]) simp
  qed
qed simp

lemma swap_ends_nth:
  "m \<le> length b div 2 \<Longrightarrow>
   length (fold swap_pair [0..<m] b) = length b \<and>
   (\<forall>i < length b. fold swap_pair [0..<m] b ! i =
     (if i < m \<or> length b - m \<le> i then b ! (length b - 1 - i) else b ! i))"
proof (induction m)
  case (Suc m)
  define f where "f = fold swap_pair [0..<m] b"
  have f: "length f = length b" "\<And>i. i < length b \<Longrightarrow> f ! i = (if i < m \<or> length b - m \<le> i then b ! (length b - 1 - i) else b ! i)"
    using Suc unfolding f_def by auto
  let ?n = "length b"
  have m: "m < ?n - m - 1" "?n - m - 1 < ?n" using Suc.prems by linarith+
  have "\<not> (m < m \<or> ?n - m \<le> m)" "\<not> (?n - m - 1 < m \<or> ?n - m \<le> ?n - m - 1)" using m by linarith+
  then have e: "f ! m = b ! m" "f ! (?n - m - 1) = b ! (?n - m - 1)" using f(2)[of m] f(2)[of "?n - m - 1"] m by simp_all
  have u: "fold swap_pair [0..<Suc m] b =
      f[m := b ! (?n - m - 1), ?n - m - 1 := b ! m]" by (simp add: f_def[symmetric] swap_pair_def Let_def f(1) e[simplified])
  have "f[m := b ! (?n - m - 1), ?n - m - 1 := b ! m] ! i = (if i < Suc m \<or> ?n - Suc m \<le> i then b ! (?n - 1 - i) else b ! i)"
    if i: "i < ?n" for i
  proof (cases "i = m \<or> i = ?n - m - 1")
    case True
    then show ?thesis using m f(1) by (auto simp: nth_list_update)
  next
    case False
    then have "(i < Suc m \<or> ?n - Suc m \<le> i) = (i < m \<or> ?n - m \<le> i)" using m by linarith
    then show ?thesis using False f(2)[OF i] by simp
  qed
  then show ?case unfolding u using f(1) by simp
qed simp

lemma swap_ends_rev: "swap_ends b = rev b"
proof (rule nth_equalityI)
  note n = swap_ends_nth[of "length b div 2" b, OF le_refl, folded swap_ends_def]
  then show "length (swap_ends b) = length (rev b)" by simp
  fix i assume "i < length (swap_ends b)"
  then have i: "i < length b" using n by simp
  have "\<not> (i < length b div 2 \<or> length b - length b div 2 \<le> i) \<Longrightarrow> length b - 1 - i = i" using i by presburger
  moreover have "rev b ! i = b ! (length b - 1 - i)" using i by (simp add: rev_nth)
  moreover have "swap_ends b ! i = (if i < length b div 2 \<or> length b - length b div 2 \<le> i then b ! (length b - 1 - i) else b ! i)"
    using n i by blast
  ultimately show "swap_ends b ! i = rev b ! i" by auto
qed



section \<open>Format strings\<close>

text \<open>The parts of a format: text, a percent sign, a place for an argument; a last percent sign alone is none.\<close>

datatype format_item = Text u8 | Percent | Hole u8

fun parse_format :: "u8 list \<Rightarrow> format_item list option" where
  "parse_format [] = Some []"
| "parse_format (c # cs) =
     (if c \<noteq> 0x25 then map_option ((#) (Text c)) (parse_format cs)
      else case cs of
             [] \<Rightarrow> None
           | sp # cs' \<Rightarrow> map_option ((#) (if sp = 0x25 then Percent else Hole sp)) (parse_format cs'))"

text \<open>What \<open>printf\<close> should do: the parts in order, each place with the next argument; arguments left over are ignored.\<close>

fun render :: "'s printer \<Rightarrow> format_item list \<Rightarrow> argument list \<Rightarrow> 's \<Rightarrow> 's res" where
  "render p [] as s = Ret s"
| "render p (Text c # is) as s = bindr (pr_char p c s) (render p is as)"
| "render p (Percent # is) as s = bindr (pr_char p 0x25 s) (render p is as)"
| "render p (Hole sp # is) [] s = bad_format"
| "render p (Hole sp # is) (a # as) s = bindr (print_arg p sp a s) (\<lambda>(ok, s1). if ok then render p is as s1 else bad_format)"

fun next_hole :: "format_item list \<Rightarrow> (u8 \<times> format_item list) option" where
  "next_hole [] = None"
| "next_hole (Hole sp # is) = Some (sp, is)"
| "next_hole (i # is) = next_hole is"

fun put_text :: "'s printer \<Rightarrow> format_item list \<Rightarrow> 's \<Rightarrow> 's res" where
  "put_text p (Text c # is) s = bindr (pr_char p c s) (put_text p is)"
| "put_text p (Percent # is) s = bindr (pr_char p 0x25 s) (put_text p is)"
| "put_text p is s = Ret s"

lemma bindr_assoc: "bindr (bindr r f) g = bindr r (\<lambda>x. bindr (f x) g)"
  by (cases r) simp_all

lemma bindr_ext: "(\<And>x. f x = g x) \<Longrightarrow> bindr r f = bindr r g"
  by (cases r) simp_all

text \<open>Scanning a format goes to its first place, printing the text before it; without a place, to its end.\<close>

definition scans_to :: "'s printer \<Rightarrow> u8 list \<Rightarrow> format_item list \<Rightarrow> u8 \<Rightarrow> u8 list \<Rightarrow> bool" where
  "scans_to p cs is sp rest \<longleftrightarrow> (\<forall>s. print_to_next p (cs @ [0]) s = bindr (put_text p is s) (\<lambda>s1. Ret (sp, rest, s1)))"

lemma scans_to_steps:
  "c \<noteq> 0x25 \<Longrightarrow> c \<noteq> 0 \<Longrightarrow> scans_to p cs is sp rest \<Longrightarrow> scans_to p (c # cs) (Text c # is) sp rest"
  "scans_to p cs is sp rest \<Longrightarrow> scans_to p (0x25 # 0x25 # cs) (Percent # is) sp rest"
  "sp \<noteq> 0x25 \<Longrightarrow> scans_to p (0x25 # sp # cs) (Hole sp # is) sp (cs @ [0])"
  "scans_to p [] [] 0 [0]"
  by (auto simp: scans_to_def bindr_assoc intro: bindr_ext)

lemma parse_format_cases:
  assumes "parse_format cs = Some is" "0 \<notin> set cs"
  obtains "cs = []" "is = []"
  | c cs' js where "cs = c # cs'" "is = Text c # js" "c \<noteq> 0x25" "c \<noteq> 0" "parse_format cs' = Some js" "0 \<notin> set cs'"
  | cs' js where "cs = 0x25 # 0x25 # cs'" "is = Percent # js" "parse_format cs' = Some js" "0 \<notin> set cs'"
  | sp cs' js where "cs = 0x25 # sp # cs'" "is = Hole sp # js" "sp \<noteq> 0x25" "sp \<noteq> 0" "parse_format cs' = Some js" "0 \<notin> set cs'"
  using assms by (cases cs rule: parse_format.cases) (auto split: if_splits list.splits)

lemma next_hole_spec:
  assumes "parse_format cs = Some is" "0 \<notin> set cs"
  shows "case next_hole is of
      None \<Rightarrow> scans_to p cs is 0 [0]
    | Some (sp, js) \<Rightarrow> sp \<noteq> 0 \<and> (\<exists>cs'. parse_format cs' = Some js \<and> 0 \<notin> set cs' \<and> scans_to p cs is sp (cs' @ [0]))"
  using assms
proof (induction "length cs" arbitrary: cs "is" rule: less_induct)
  case less
  from less.prems show ?case
  proof (cases rule: parse_format_cases)
    case 1
    then show ?thesis by (simp add: scans_to_steps)
  next
    case (2 c cs' js)
    then show ?thesis using less.hyps[of cs' js] by (auto intro: scans_to_steps split: option.splits)
  next
    case (3 cs' js)
    then show ?thesis using less.hyps[of cs' js] by (auto intro: scans_to_steps split: option.splits)
  next
    case (4 sp cs' js)
    then show ?thesis by (auto intro: scans_to_steps)
  qed
qed

lemma render_text:
  "render p is as s = bindr (put_text p is s) (\<lambda>s1. case next_hole is of
      None \<Rightarrow> Ret s1
    | Some (sp, is') \<Rightarrow> (case as of [] \<Rightarrow> bad_format
        | a # as' \<Rightarrow> bindr (print_arg p sp a s1) (\<lambda>(ok, s2). if ok then render p is' as' s2 else bad_format)))"
  by (induction p "is" s rule: put_text.induct) (auto simp: bindr_assoc intro: bindr_ext split: list.splits)

lemma printf_end: "bindr (printf p [0] as s) (\<lambda>(_, s'). Ret s') = Ret s"
  by (induction as) (simp_all add: printf_impl_def)

text \<open>C14. \<open>printf\<close> prints what the format says: for every format that does not end in a lone percent sign, all
  arguments and every printer, also one that halts, \<open>printf\<close> is the printing of the text and the arguments in
  order, and panics exactly when a place has no argument or its letter does not fit the argument.\<close>

theorem printf_renders_format:
  assumes "parse_format fmt = Some is" "0 \<notin> set fmt"
  shows "bindr (printf p (fmt @ [0]) as s) (\<lambda>(_, s'). Ret s') = render p is as s"
  using assms
proof (induction "as" arbitrary: fmt "is" s)
  case Nil
  then show ?case using next_hole_spec[OF Nil, of p]
    by (subst render_text) (cases "next_hole is"; auto simp: scans_to_def bindr_assoc bad_format_def)
next
  case (Cons a as)
  have ne: "printf_impl p (fmt @ [0]) a s = (if fmt = [] then Ret ([0], s) else
      bindr (print_to_next p (fmt @ [0]) s) (\<lambda>(spec, fmt', s1).
              if spec = 0 then Ret (fmt', s1)
              else bindr (print_arg p spec a s1) (\<lambda>(ok, s2). if ok then Ret (fmt', s2) else bad_format)))"
    using Cons.prems(2) by (cases fmt) (auto simp: printf_impl_def)
  show ?case
  proof (cases "next_hole is")
    case None
    then show ?thesis using next_hole_spec[OF Cons.prems, of p] ne printf_end[of p as] Cons.prems(1)
      by (subst render_text) (cases "fmt = []"; cases "put_text p is s"; auto simp: scans_to_def)
  next
    case (Some h)
    obtain sp js where h: "h = (sp, js)" by force
    from next_hole_spec[OF Cons.prems, of p] obtain fmt' where
      f: "sp \<noteq> 0" "parse_format fmt' = Some js" "0 \<notin> set fmt'" "scans_to p fmt is sp (fmt' @ [0])"
      unfolding Some h by auto
    have "fmt \<noteq> []" using Some Cons.prems(1) by auto
    then have "printf_impl p (fmt @ [0]) a s = bindr (put_text p is s) (\<lambda>s1.
        bindr (print_arg p sp a s1) (\<lambda>(ok, s2). if ok then Ret (fmt' @ [0], s2) else bad_format))"
      using ne f(1,4) by (simp add: scans_to_def bindr_assoc)
    then show ?thesis using Some h Cons.IH[OF f(2,3)]
      by (subst render_text) (auto simp: bindr_assoc bad_format_def intro!: bindr_ext split: prod.splits)
  qed
qed

definition text_printer :: "u8 list printer" where
  "text_printer = \<lparr>pr_char = (\<lambda>c s. Ret (s @ [c])), pr_str = (\<lambda>t s. Ret (s @ t)),
     pr_i64 = (\<lambda>n base d s. bindr (number_string n base d) (\<lambda>t. Ret (s @ t))),
     pr_u64 = (\<lambda>n base d s. bindr (number_string n base d) (\<lambda>t. Ret (s @ t)))\<rparr>"

lemma printf_renders_format_witness:
  "bindr (printf text_printer ([0x61, 0x25, 0x63, 0x25, 0x25] @ [0]) [Char_arg 0x62] []) (\<lambda>(_, s'). Ret s') = Ret [0x61, 0x62, 0x25]"
  using printf_renders_format[of "[0x61, 0x25, 0x63, 0x25, 0x25]" "[Text 0x61, Hole 0x63, Percent]" text_printer "[Char_arg 0x62]" "[]"]
  by (simp add: text_printer_def)

section \<open>The screen as a list of cells\<close>

lemma of_nat_u64_inj: "m < 2 ^ 64 \<Longrightarrow> n < 2 ^ 64 \<Longrightarrow> (of_nat m :: u64) = of_nat n \<longleftrightarrow> m = n"
  by (metis unat_of_nat_u64)

lemma get_put_cell:
  assumes "i < 2 ^ 62" "j < 2 ^ 62"
  shows "get_cell i (put_cell j c v) = (if i = j then c else get_cell i v)"
proof -
  have n: "2 * i \<noteq> Suc (2 * j)" "Suc (2 * i) \<noteq> 2 * j" by presburger+
  have "((of_nat (2 * i) :: u64) = of_nat (2 * j)) = (i = j)" "((of_nat (Suc (2 * i)) :: u64) = of_nat (Suc (2 * j))) = (i = j)"
    "(of_nat (2 * i) :: u64) \<noteq> of_nat (Suc (2 * j))" "(of_nat (Suc (2 * i)) :: u64) \<noteq> of_nat (2 * j)"
    using assms n by (simp_all add: of_nat_u64_inj del: of_nat_Suc of_nat_add of_nat_mult)
  then show ?thesis
    by (cases c) (simp add: get_cell_def put_cell_def del: of_nat_Suc of_nat_add of_nat_mult)
qed

lemma put_cell_fields [simp]:
  "char_index (put_cell j c v) = char_index v" "width (put_cell j c v) = width v" "height (put_cell j c v) = height v"
  "vga_buffer (put_cell j c v) = vga_buffer v"
  by (simp_all add: put_cell_def)

lemma ucast_u32_u64: "(ucast (w :: u32) :: u64) = of_nat (unat w)"
  by (simp add: word_cong_unat unsigned_ucast_eq)

lemma set_char_at_cell:
  assumes "i < 2 ^ 31"
  shows "set_char_at (of_nat i) c col v = put_cell i (c, color_byte col) v"
proof -
  have "unat (of_nat i * 2 :: u32) = 2 * i" "unat (of_nat i * 2 + 1 :: u32) = 2 * i + 1"
    using assms by (simp_all add: unat_word_ariths unat_of_nat take_bit_nat_eq_self)
  then have "(ucast (of_nat i * 2 :: u32) :: u64) = of_nat (2 * i)" "(ucast (of_nat i * 2 + 1 :: u32) :: u64) = of_nat (2 * i + 1)"
    by (simp_all only: ucast_u32_u64)
  then show ?thesis by (simp add: set_char_at_def put_cell_def)
qed

definition screen :: "vga \<Rightarrow> (u8 \<times> u8) list" where
  "screen v = map (\<lambda>i. get_cell i v) [0..<2000]"

definition text_mode :: "vga \<Rightarrow> bool" where
  "text_mode v \<longleftrightarrow> width v = 80 \<and> height v = 25"

lemma length_screen [simp]: "length (screen v) = 2000"
  by (simp add: screen_def)

lemma nth_screen: "i < 2000 \<Longrightarrow> screen v ! i = get_cell i v"
  by (simp add: screen_def del: upt_rec_numeral)

lemma screen_put_cell: "j < 2 ^ 62 \<Longrightarrow> screen (put_cell j c v) = (screen v)[j := c]"
  by (rule nth_equalityI) (auto simp: nth_screen get_put_cell nth_list_update)

lemma fold_put_cell_fields [simp]:
  "char_index (fold (\<lambda>i v. put_cell (f i) (g i v) v) is v) = char_index v"
  "width (fold (\<lambda>i v. put_cell (f i) (g i v) v) is v) = width v"
  "height (fold (\<lambda>i v. put_cell (f i) (g i v) v) is v) = height v"
  "vga_buffer (fold (\<lambda>i v. put_cell (f i) (g i v) v) is v) = vga_buffer v"
  by (induction "is" arbitrary: v) simp_all

lemma screen_fold_put:
  "\<forall>i \<in> set is. f i < 2 ^ 62 \<Longrightarrow> screen (fold (\<lambda>i v. put_cell (f i) c v) is v) = fold (\<lambda>i s. s[f i := c]) is (screen v)"
  by (induction "is" arbitrary: v) (simp_all add: screen_put_cell)

lemma fold_update_range:
  "k \<le> m \<Longrightarrow> b + m \<le> length s \<Longrightarrow>
   fold (\<lambda>i s. s[b + i := c]) [k..<m] s = take (b + k) s @ replicate (m - k) c @ drop (b + m) s"
proof (induction m)
  case (Suc m)
  show ?case
  proof (cases "k = Suc m")
    case False
    then have k: "k \<le> m" using Suc.prems by simp
    have "drop (b + m) s = s ! (b + m) # drop (b + Suc m) s" using Suc.prems by (simp add: Cons_nth_drop_Suc)
    then show ?thesis using Suc.IH k Suc.prems
      by (simp add: list_update_append Suc_diff_le replicate_append_same[symmetric])
  qed simp
qed simp

lemma fold_update_outside:
  "\<forall>i \<in> set is. length s \<le> f i \<Longrightarrow> fold (\<lambda>i s. s[f i := c]) is s = s"
  by (induction "is") (simp_all add: list_update_beyond)

lemma blank_cells:
  "\<forall>i \<in> set ks. i < 80 \<Longrightarrow> width v = 80 \<Longrightarrow> unat line * 80 + 80 \<le> 2 ^ 31 \<Longrightarrow>
   foldr_res (\<lambda>i. set_char (of_nat i) line c col) ks v = Ret (fold (\<lambda>i v. put_cell (unat line * 80 + i) (c, color_byte col) v) ks v)"
proof (induction ks arbitrary: v)
  case (Cons i ks)
  have "unat (of_nat i :: u16) = i" using Cons.prems(1) by (simp add: unat_of_nat take_bit_nat_eq_self)
  then show ?case using Cons
    by (simp add: set_char_def position_def set_char_at_cell del: of_nat_add of_nat_mult)
qed simp

lemma copied_cells:
  "0 < w \<Longrightarrow> n + w < 2 ^ 61 \<Longrightarrow> j < 2 ^ 61 \<Longrightarrow>
   get_cell j (fold (\<lambda>i v. put_cell i (get_cell (i + w) v) v) [0..<n] v) = (if j < n then get_cell (j + w) v else get_cell j v)"
proof (induction n arbitrary: j)
  case (Suc n)
  have "get_cell (n + w) (fold (\<lambda>i v. put_cell i (get_cell (i + w) v) v) [0..<n] v) = get_cell (n + w) v"
    using Suc by simp
  then show ?case using Suc by (auto simp: get_put_cell less_Suc_eq)
qed simp

lemma scroll_up_screen:
  assumes "text_mode v"
  shows "screen (scroll_up v) = drop 80 (screen v) @ replicate 80 (0, 0)"
proof -
  have w: "unat (width v) = 80" "unat (height v) = 25" using assms by (simp_all add: text_mode_def)
  let ?v = "fold (\<lambda>i v. put_cell i (get_cell (i + 80) v) v) [0..<1920] v"
  have "screen (scroll_up v) = fold (\<lambda>i s. s[0 + i := (0, 0)]) [1920..<2000] (screen ?v)"
    using screen_fold_put[of "[1920..<2000]" "\<lambda>i. i" "(0, 0)" ?v] by (simp add: scroll_up_def w Let_def del: upt_rec_numeral)
  also have "\<dots> = take 1920 (screen ?v) @ replicate 80 (0, 0)" by (subst fold_update_range) simp_all
  also have "take 1920 (screen ?v) = drop 80 (screen v)"
    by (rule nth_equalityI) (simp_all add: nth_screen copied_cells add.commute del: upt_rec_numeral)
  finally show ?thesis .
qed

lemma cursor_place:
  assumes "text_mode v" "unat (char_index v) < 80 * 65536"
  shows "get_cursor_x v = Ret (of_nat (unat (char_index v) mod 80))" "get_cursor_y v = Ret (of_nat (unat (char_index v) div 80))"
    "unat (of_nat (unat (char_index v) mod 80) :: u16) = unat (char_index v) mod 80"
    "unat (of_nat (unat (char_index v) div 80) :: u16) = unat (char_index v) div 80"
proof -
  have l: "unat (char_index v) div 80 < 65536" using assms(2) by (simp add: div_less_iff_less_mult)
  then show "unat (of_nat (unat (char_index v) mod 80) :: u16) = unat (char_index v) mod 80"
    "unat (of_nat (unat (char_index v) div 80) :: u16) = unat (char_index v) div 80"
    by (simp_all add: unat_of_nat take_bit_nat_eq_self)
  have w: "width v = 80" using assms(1) by (simp add: text_mode_def)
  show "get_cursor_x v = Ret (of_nat (unat (char_index v) mod 80))" "get_cursor_y v = Ret (of_nat (unat (char_index v) div 80))"
    by (simp_all add: get_cursor_x_def get_cursor_y_def w word_cong_unat unsigned_ucast_eq unat_of_nat unat_mod unat_div take_bit_eq_mod)
qed

lemma set_cursor_line:
  assumes "text_mode v" "unat y * 80 < 2 ^ 31"
  shows "set_cursor 0 y v = Ret (v\<lparr>char_index := of_nat (unat y * 80)\<rparr>)"
  using assms by (simp add: set_cursor_def position_def text_mode_def)

lemma char_index_frame [simp]:
  "text_mode (v\<lparr>char_index := i\<rparr>) = text_mode v" "screen (v\<lparr>char_index := i\<rparr>) = screen v"
  "text_mode (put_cell j c v) = text_mode v"
  by (simp_all add: text_mode_def screen_def get_cell_def)

text \<open>What \<open>print_ln\<close> does, in the lines of the screen and below.\<close>

lemma print_ln_result:
  fixes col
  assumes v: "text_mode v" "unat (char_index v) < 80 * 65535"
  defines "i \<equiv> unat (char_index v)"
  defines "b \<equiv> fold (\<lambda>k v. put_cell (i div 80 * 80 + k) (0x20, color_byte col) v) [i mod 80..<80] v"
  shows "print_ln col v = Ret (if i div 80 = 24 then scroll_up (b\<lparr>char_index := 2000\<rparr>)\<lparr>char_index := 1920\<rparr>
      else b\<lparr>char_index := of_nat ((i div 80 + 1) * 80)\<rparr>)"
proof -
  have i: "i < 80 * 65535" "i div 80 < 65535" using v(2) by (simp_all add: i_def div_less_iff_less_mult)
  note c = cursor_place[OF v(1), folded i_def]
  have w: "width v = 80" using v(1) by (simp add: text_mode_def)
  have y: "unat (of_nat (i div 80) :: u16) = i div 80" "unat (of_nat (i mod 80) :: u16) = i mod 80" using c(3,4) i(1) by simp_all
  have y1: "unat (of_nat (i div 80) + 1 :: u16) = i div 80 + 1" using i(2) y(1) by (simp add: unat_word_ariths)
  have "i div 80 * 80 + 80 \<le> 2 ^ 31" using i(2) by simp
  then have bl: "foldr_res (\<lambda>k. set_char (of_nat k) (of_nat (i div 80)) 0x20 col) [i mod 80..<80] v = Ret b"
    using blank_cells[where ks = "[i mod 80..<80]" and v = v and line = "of_nat (i div 80)" and c = "0x20" and col = col] w unfolding y(1) b_def by simp
  have b: "text_mode b" using v(1) by (simp add: b_def text_mode_def)
  have s: "text_mode (scroll_up v')" if "text_mode v'" for v' using that by (simp add: scroll_up_def text_mode_def Let_def)
  have sc: "set_cursor 0 24 (scroll_up (b\<lparr>char_index := x\<rparr>)) = Ret (scroll_up (b\<lparr>char_index := x\<rparr>)\<lparr>char_index := 1920\<rparr>)" for x
    using set_cursor_line[of "scroll_up (b\<lparr>char_index := x\<rparr>)" 24] s[of "b\<lparr>char_index := x\<rparr>"] b by simp
  have "set_cursor 0 (of_nat (i div 80) + 1) b = Ret (b\<lparr>char_index := of_nat ((i div 80 + 1) * 80)\<rparr>)"
    using set_cursor_line[OF b, of "of_nat (i div 80) + 1"] i(2) unfolding y1 by simp
  then show ?thesis using c(1,2) i(1) bl sc b w y
    by (simp add: print_ln_def text_mode_def del: of_nat_add of_nat_mult of_nat_Suc)
qed

lemma print_ln_screen:
  assumes v: "text_mode v" "unat (char_index v) < 2000"
  shows "\<exists>v'. print_ln col v = Ret v' \<and> text_mode v' \<and>
    unat (char_index v') = 80 * min 24 (unat (char_index v) div 80 + 1) \<and>
    screen v' = (let i = unat (char_index v); s = take i (screen v) @ replicate (80 - i mod 80) (0x20, color_byte col) @ drop (i div 80 * 80 + 80) (screen v)
                 in if i div 80 = 24 then drop 80 s @ replicate 80 (0, 0) else s)"
proof -
  define i where "i = unat (char_index v)"
  define b where "b = fold (\<lambda>k v. put_cell (i div 80 * 80 + k) (0x20, color_byte col) v) [i mod 80..<80] v"
  have i: "i < 2000" "i div 80 \<le> 24" "i div 80 * 80 + i mod 80 = i" using v(2) by (auto simp: i_def)
  have b: "text_mode b" using v(1) by (simp add: b_def text_mode_def)
  have s: "text_mode (scroll_up v')" if "text_mode v'" for v' using that by (simp add: scroll_up_def text_mode_def Let_def)
  have "screen b = fold (\<lambda>k s. s[i div 80 * 80 + k := (0x20, color_byte col)]) [i mod 80..<80] (screen v)"
    unfolding b_def using i by (intro screen_fold_put) auto
  also have "\<dots> = take i (screen v) @ replicate (80 - i mod 80) (0x20, color_byte col) @ drop (i div 80 * 80 + 80) (screen v)"
    using i by (subst fold_update_range) auto
  finally have sb: "screen b = take i (screen v) @ replicate (80 - i mod 80) (0x20, color_byte col) @ drop (i div 80 * 80 + 80) (screen v)" .
  note r = print_ln_result[of v col, OF v(1), folded i_def, folded b_def]
  show ?thesis
  proof (cases "i div 80 = 24")
    case True
    then show ?thesis using r i s[of "b\<lparr>char_index := 2000\<rparr>"] b scroll_up_screen[of "b\<lparr>char_index := 2000\<rparr>"] sb
      by (simp add: i_def[symmetric])
  next
    case False
    have "(i div 80 + 1) * 80 < 2 ^ 32" using i(2) by simp
    then have "unat (of_nat ((i div 80 + 1) * 80) :: u32) = (i div 80 + 1) * 80"
      by (simp add: unat_of_nat take_bit_nat_eq_self del: of_nat_add of_nat_mult of_nat_Suc)
    moreover have "min 24 (i div 80 + 1) = i div 80 + 1" using False i(2) by simp
    ultimately show ?thesis using r i b sb False
      by (simp add: i_def[symmetric] del: of_nat_add of_nat_mult of_nat_Suc)
  qed
qed

section \<open>The terminal\<close>

text \<open>
  A terminal of 25 lines of 80 cells and a position: a character goes to the position, a line feed blanks the rest of the
  line and goes to the next one, and scrolls on the last line.  Positions past the screen are written nowhere, and a line
  feed there does not scroll.
\<close>

definition blank_rest :: "u8 \<Rightarrow> nat \<Rightarrow> (u8 \<times> u8) list \<Rightarrow> (u8 \<times> u8) list" where
  "blank_rest cb i s = take i s @ replicate (80 - i mod 80) (0x20, cb) @ drop (i div 80 * 80 + 80) s"

definition term_put :: "u8 \<Rightarrow> u8 \<Rightarrow> (u8 \<times> u8) list \<times> nat \<Rightarrow> (u8 \<times> u8) list \<times> nat" where
  "term_put cb c = (\<lambda>(s, i).
     if c \<noteq> 0x0A then (s[i := (c, cb)], i + 1)
     else if i div 80 = 24 then (drop 80 (blank_rest cb i s) @ replicate 80 (0, 0), 1920)
     else (if i < 2000 then blank_rest cb i s else s, (i div 80 + 1) * 80))"

lemma print_ln_below:
  assumes v: "text_mode v" "2000 \<le> unat (char_index v)" "unat (char_index v) < 80 * 65535"
  shows "\<exists>v'. print_ln col v = Ret v' \<and> text_mode v' \<and> screen v' = screen v \<and>
    unat (char_index v') = (unat (char_index v) div 80 + 1) * 80"
proof -
  define i where "i = unat (char_index v)"
  define b where "b = fold (\<lambda>k v. put_cell (i div 80 * 80 + k) (0x20, color_byte col) v) [i mod 80..<80] v"
  have i: "2000 \<le> i" "i div 80 < 65535" "25 \<le> i div 80" using v(2,3) by (simp_all add: i_def div_less_iff_less_mult less_eq_div_iff_mult_less_eq)
  have b: "text_mode b" using v(1) by (simp add: b_def text_mode_def)
  have "screen b = fold (\<lambda>k s. s[i div 80 * 80 + k := (0x20, color_byte col)]) [i mod 80..<80] (screen v)"
    unfolding b_def using i by (intro screen_fold_put) auto
  also have "\<dots> = screen v" by (rule fold_update_outside) (use i in auto)
  finally have sb: "screen b = screen v" .
  have "(i div 80 + 1) * 80 < 2 ^ 32" using i(2) by simp
  then have "unat (of_nat ((i div 80 + 1) * 80) :: u32) = (i div 80 + 1) * 80"
    by (simp add: unat_of_nat take_bit_nat_eq_self del: of_nat_add of_nat_mult of_nat_Suc)
  then show ?thesis using print_ln_result[of v col, OF v(1,3), folded i_def, folded b_def] b sb i(3)
    by (simp add: i_def[symmetric] del: of_nat_add of_nat_mult of_nat_Suc)
qed

lemma print_char_terminal:
  assumes v: "text_mode v" "unat (char_index v) < 80 * 65535"
  shows "\<exists>v'. print_char c col v = Ret v' \<and> text_mode v' \<and>
    (screen v', unat (char_index v')) = term_put (color_byte col) c (screen v, unat (char_index v))"
proof (cases "c = 0x0A")
  case True
  show ?thesis
  proof (cases "unat (char_index v) < 2000")
    case in_screen: True
    then have "min 24 (unat (char_index v) div 80 + 1) = (if unat (char_index v) div 80 = 24 then 24 else unat (char_index v) div 80 + 1)" by auto
    then show ?thesis using print_ln_screen[OF v(1) in_screen, of col] True in_screen
      by (auto simp: print_char_def term_put_def blank_rest_def Let_def)
  next
    case False
    then have "unat (char_index v) div 80 \<noteq> 24" by auto
    then show ?thesis using print_ln_below[OF v(1) _ v(2), of col] True False by (auto simp: print_char_def term_put_def)
  qed
next
  case False
  have n: "unat (char_index v + 1) = unat (char_index v) + 1" using v(2) by (simp add: unat_word_ariths)
  have "set_char_at (char_index v) c col v = put_cell (unat (char_index v)) (c, color_byte col) v"
    using set_char_at_cell[of "unat (char_index v)" c col v] v(2) by simp
  then show ?thesis using False v n
    by (simp add: print_char_def term_put_def Let_def screen_put_cell)
qed

lemma print_str_char: "print_str (c # cs) col v = bindr (print_char c col v) (print_str cs col)"
  by (simp add: print_char_def)

lemma term_put_advance: "snd (term_put cb c (s, i)) \<le> i + 80"
  by (auto simp: term_put_def)

lemma print_str_terminal:
  assumes "text_mode v" "unat (char_index v) + 80 * length cs < 80 * 65535"
  shows "\<exists>v'. print_str cs col v = Ret v' \<and> text_mode v' \<and>
    (screen v', unat (char_index v')) = fold (term_put (color_byte col)) cs (screen v, unat (char_index v))"
  using assms
proof (induction cs arbitrary: v)
  case (Cons c cs)
  then obtain v1 where v1: "print_char c col v = Ret v1" "text_mode v1"
    "(screen v1, unat (char_index v1)) = term_put (color_byte col) c (screen v, unat (char_index v))"
    using print_char_terminal[of v c col] by auto
  have "unat (char_index v1) \<le> unat (char_index v) + 80"
    using term_put_advance[of "color_byte col" c "screen v" "unat (char_index v)"] v1(3) by (metis snd_conv)
  then show ?case using Cons.IH[OF v1(2)] Cons.prems(2) v1 by (auto simp: print_str_char simp del: print_str.simps(2))
qed simp

lemma term_below: "2000 \<le> i \<Longrightarrow> length s = 2000 \<Longrightarrow> \<exists>j \<ge> 2000. fold (term_put cb) cs (s, i) = (s, j)"
proof (induction cs arbitrary: i)
  case (Cons c cs)
  have "25 \<le> i div 80" using Cons.prems(1) by (simp add: less_eq_div_iff_mult_less_eq)
  then have "term_put cb c (s, i) = (s, if c \<noteq> 0x0A then i + 1 else (i div 80 + 1) * 80)" "2000 \<le> (i div 80 + 1) * 80"
    using Cons.prems by (simp_all add: term_put_def list_update_beyond)
  then show ?case using Cons.IH[of "if c \<noteq> 0x0A then i + 1 else (i div 80 + 1) * 80"] Cons.prems by simp
qed simp

text \<open>C10. Text output is a terminal: printing a string at any position within the range of the line numbers shows
  exactly what the terminal shows (characters in order, line feeds that blank the rest of the line, scrolling
  when a line feed comes on the last line) and leaves the position where the terminal has it.\<close>

theorem print_str_refines_terminal:
  assumes "text_mode v" "unat (char_index v) + 80 * length cs < 80 * 65535"
  shows "\<exists>v'. print_str cs col v = Ret v' \<and> text_mode v' \<and>
    (screen v', unat (char_index v')) = fold (term_put (color_byte col)) cs (screen v, unat (char_index v))"
  by (rule print_str_terminal[OF assms])

text \<open>Output past the last cell is lost: when a line has run over the end of the screen (characters do not
  scroll, only line feeds on the last line do), nothing that is printed afterwards, line feeds included, is ever
  seen, and the position stays past the screen.\<close>

theorem output_past_screen_lost:
  assumes "text_mode v" "2000 \<le> unat (char_index v)" "unat (char_index v) + 80 * length cs < 80 * 65535"
  shows "\<exists>v'. print_str cs col v = Ret v' \<and> screen v' = screen v \<and> 2000 \<le> unat (char_index v')"
proof -
  obtain v' where v': "print_str cs col v = Ret v'"
    "(screen v', unat (char_index v')) = fold (term_put (color_byte col)) cs (screen v, unat (char_index v))"
    using print_str_terminal[OF assms(1,3), of col] by blast
  obtain j where "2000 \<le> j" "fold (term_put (color_byte col)) cs (screen v, unat (char_index v)) = (screen v, j)"
    using term_below[OF assms(2) length_screen] by blast
  then show ?thesis using v' by auto
qed

definition demo_vga :: vga where "demo_vga = vga_init (vga_startup (\<lambda>_. 0))"

lemma demo_vga_facts: "text_mode demo_vga" "char_index demo_vga = 0" "screen demo_vga = replicate 2000 (0, 0)"
proof -
  show "text_mode demo_vga" "char_index demo_vga = 0" by (simp_all add: demo_vga_def vga_init_def vga_startup_def text_mode_def)
  show "screen demo_vga = replicate 2000 (0, 0)"
    by (rule nth_equalityI) (simp_all add: nth_screen get_cell_def demo_vga_def vga_init_def vga_startup_def)
qed

lemma print_str_refines_terminal_witness:
  "\<exists>v'. print_str [0x48, 0x69] \<lparr>foreground = 15, background = 0\<rparr> demo_vga = Ret v' \<and> char_index v' = 2 \<and>
    screen v' = (replicate 2000 (0, 0))[0 := (0x48, 15), 1 := (0x69, 15)]"
  using print_str_refines_terminal[of demo_vga "[0x48, 0x69]" "\<lparr>foreground = 15, background = 0\<rparr>"]
  by (auto simp: demo_vga_facts term_put_def color_byte_def word_cong_unat)

lemma output_past_screen_lost_witness:
  "\<exists>v'. print_str [0x48, 0x0A, 0x69] \<lparr>foreground = 15, background = 0\<rparr> (demo_vga\<lparr>char_index := 2000\<rparr>) = Ret v' \<and>
    screen v' = replicate 2000 (0, 0)"
  using output_past_screen_lost[of "demo_vga\<lparr>char_index := 2000\<rparr>" "[0x48, 0x0A, 0x69]" "\<lparr>foreground = 15, background = 0\<rparr>"]
  by (auto simp: demo_vga_facts simp del: print_str.simps)

end
