(* ===== verification/Boot.thy ===== *)
theory Boot
  imports KBase
begin

text \<open>
  The start of the machine: the 32-bit entry and the first page tables of \<^verbatim>\<open>src/low/init/start.cpp\<close>, the 64-bit part
  of the loader, \<^verbatim>\<open>src/low/init/main.cpp\<close>, and the start of the other processors,
  \<^verbatim>\<open>src/trampoline/trampoline.cpp\<close>.  The assembly routines are the functions of their instructions.  Memory is
  seen in two views: the page tables as 64-bit words at multiples of eight, and bytes.  All code runs at physical
  addresses, or where virtual and physical addresses agree.
\<close>

section \<open>The processor\<close>

record cpu =
  cr0 :: u32
  cr3 :: u64
  cr4 :: u32
  efer :: u64
  gdt_ptr :: u64
  code_selector :: u16
  data_selector :: u16
  stack_pointer :: u64
  long_mode_code :: bool

text \<open>The sequence that switches to 64-bit mode, from page tables and a descriptor table.\<close>

definition enter_long_mode :: "u64 \<Rightarrow> u64 \<Rightarrow> cpu \<Rightarrow> cpu" where
  "enter_long_mode tables gdt c =
     c\<lparr>cr3 := tables, cr4 := cr4 c OR push_bit 5 1, efer := efer c OR push_bit 8 1, cr0 := cr0 c OR push_bit 31 1,
       gdt_ptr := gdt, code_selector := 8, long_mode_code := True, data_selector := 16\<rparr>"

definition go_to_x64 :: "u32 \<Rightarrow> u64 \<Rightarrow> cpu \<Rightarrow> cpu" where
  "go_to_x64 l4 gdt64_end c = enter_long_mode (ucast l4) gdt64_end c"

text \<open>
  \<open>check_if_x64\<close>: the flag that shows \<open>cpuid\<close>, and the two leaves; \<open>False\<close> is the endless loop.  \<open>cpuid\<close> gives
  \<open>eax\<close> and \<open>edx\<close>.
\<close>

definition check_if_x64 :: "bool \<Rightarrow> (u32 \<Rightarrow> u32 \<times> u32) \<Rightarrow> bool" where
  "check_if_x64 id_flag_toggles cpuid \<longleftrightarrow>
     id_flag_toggles \<and> \<not> fst (cpuid 0x80000000) < 0x80000001 \<and> snd (cpuid 0x80000001) AND push_bit 29 1 \<noteq> 0"

text \<open>The descriptor table, and the header that the boot loader looks for.\<close>

definition gdt64 :: "u64 list" where
  "gdt64 = [0,
     push_bit 43 1 OR push_bit 44 1 OR push_bit 47 1 OR push_bit 53 1,
     push_bit 41 1 OR push_bit 44 1 OR push_bit 47 1,
     push_bit 43 1 OR push_bit 44 1 OR push_bit 45 1 OR push_bit 46 1 OR push_bit 47 1 OR push_bit 53 1,
     push_bit 41 1 OR push_bit 44 1 OR push_bit 45 1 OR push_bit 46 1 OR push_bit 47 1, 0, 0]"

definition multiboot_header_words :: "u32 list" where
  "multiboot_header_words = [0xe85250d6, 0, 24, - (0xe85250d6 + 0 + 24), 0, 8]"

text \<open>The trampoline: the descriptors, the 32-bit mode, then the same sequence from the data that the kernel filled in.\<close>

definition gdt_32_bit :: "u64 list" where
  "gdt_32_bit = [0,
     0xFFFF OR push_bit 48 0xF OR push_bit 43 1 OR push_bit 44 1 OR push_bit 47 1 OR push_bit 54 1 OR push_bit 55 1,
     0xFFFF OR push_bit 48 0xF OR push_bit 41 1 OR push_bit 44 1 OR push_bit 47 1 OR push_bit 54 1 OR push_bit 55 1]"

definition trampoline :: "u64 \<Rightarrow> u64 \<Rightarrow> u64 \<Rightarrow> u64 \<Rightarrow> cpu \<Rightarrow> cpu" where
  "trampoline gdt32 pagetable_l4 gdt64_ptr stack c =
     (let c32 = c\<lparr>gdt_ptr := gdt32, cr0 := cr0 c OR 1, code_selector := 8, data_selector := 16\<rparr>
      in (enter_long_mode (pagetable_l4 AND 0xFFFFFFFF) gdt64_ptr c32)\<lparr>stack_pointer := stack\<rparr>)"

section \<open>The first page tables\<close>

type_synonym words = "u64 \<Rightarrow> u64"

text \<open>A 32-bit store changes the low half of a word.\<close>

definition put_low :: "u64 \<Rightarrow> u32 \<Rightarrow> words \<Rightarrow> words" where
  "put_low a v m = m(a := (m a AND NOT (mask 32)) OR ucast v)"

definition setup_paging :: "u32 \<Rightarrow> u32 \<Rightarrow> u32 \<Rightarrow> words \<Rightarrow> words" where
  "setup_paging l4 l3 l2 m =
     (let m1 = put_low (ucast l4) (l3 OR 3) m;
          m2 = put_low (ucast l3) (l2 OR 3) m1
      in fold (\<lambda>i m. put_low (ucast l2 + of_nat i * 8) (0x200000 * of_nat i OR 0x83) m) [0..<512] m2)"

section \<open>Text on the screen before the kernel runs\<close>

definition clear_loop :: "bytes \<Rightarrow> bytes" where
  "clear_loop m = fold (\<lambda>i m. m(0xB8000 + 2 * of_nat i := 0x20, 0xB8000 + 2 * of_nat i + 1 := 0x0A)) [0..<2000] m"

text \<open>
  \<open>print\<close> of the assembly part: after each character, the character is compared with the byte at address zero
  (\<open>cmp %al, 0\<close> names a memory operand).
\<close>

partial_function (option) print_loop :: "u32 \<Rightarrow> u32 \<Rightarrow> bytes \<Rightarrow> bytes option" where
  "print_loop esi edi m =
     (let al = m (ucast esi);
          m1 = m(ucast edi := al);
          m2 = m1(ucast (edi + 1) := 0x0A)
      in if al \<noteq> m2 0 then print_loop (esi + 1) (edi + 2) m2 else Some m2)"

definition asm_print :: "u32 \<Rightarrow> bytes \<Rightarrow> bytes option" where
  "asm_print str m = print_loop str 0xB8000 m"

record low_screen =
  print_pos :: nat
  low_mem :: bytes

definition low_color :: "u8 \<Rightarrow> u8 \<Rightarrow> u8" where
  "low_color fg bg = (fg AND 15) OR push_bit 4 (bg AND 15)"

definition put_char :: "u8 \<Rightarrow> u8 \<Rightarrow> low_screen \<Rightarrow> low_screen" where
  "put_char c col s =
     s\<lparr>low_mem := (low_mem s)(0xB8000 + 2 * of_nat (print_pos s) := c, 0xB8000 + 2 * of_nat (print_pos s) + 1 := col),
       print_pos := print_pos s + 1\<rparr>"

text \<open>A line feed fills the line with blanks; at the start of a line it does nothing.\<close>

definition fill_line :: "low_screen \<Rightarrow> low_screen" where
  "fill_line s = ((put_char 0x20 (low_color 0 0)) ^^ ((80 - print_pos s mod 80) mod 80)) s"

fun print_string :: "u8 list \<Rightarrow> low_screen \<Rightarrow> low_screen" where
  "print_string [] s = s"
| "print_string (c # cs) s = print_string cs (if c = 0x0A then fill_line s else put_char c (low_color 0 10) s)"

definition hex_digits :: "u8 list" where
  "hex_digits = [0x30, 0x31, 0x32, 0x33, 0x34, 0x35, 0x36, 0x37, 0x38, 0x39, 0x41, 0x42, 0x43, 0x44, 0x45, 0x46]"

definition print_hex :: "u64 \<Rightarrow> int \<Rightarrow> low_screen \<Rightarrow> low_screen" where
  "print_hex num min_digits s =
     snd (fold (\<lambda>i (pr, s).
       let digit = unat (drop_bit (i * 4) num AND 0xF);
           pr' = (pr \<or> int i \<le> min_digits - 1 \<or> digit \<noteq> 0)
       in (pr', if pr' then put_char (hex_digits ! digit) (low_color 0 10) s else s)) (rev [0..<16]) (False, s))"

section \<open>Mapping the kernel\<close>

record symbols =
  high_start :: u64
  high_end :: u64
  high_physical_start :: u64
  l3_buffer :: u64
  l2_buffer :: u64
  high_main :: u64
  start_stack :: u64

text \<open>\<open>False\<close>: the message is printed and the processor stops.\<close>

definition kernel_fits :: "symbols \<Rightarrow> bool" where
  "kernel_fits y \<longleftrightarrow> \<not> high_end y - high_start y > Gi 1"

text \<open>The assignments to the fields of an entry, in their order.\<close>

definition low_entry :: "u64 \<Rightarrow> u64 \<Rightarrow> u64" where
  "low_entry large raw =
     (let e = set_fld 0 1 1 raw; e = set_fld 1 1 1 e; e = set_fld 2 1 0 e; e = set_fld 3 1 0 e; e = set_fld 4 1 0 e;
          e = set_fld 5 1 0 e; e = set_fld 6 1 0 e; e = set_fld 7 1 large e; e = set_fld 8 1 0 e
      in set_fld 9 3 0 e)"

definition clear_low_table :: "u64 \<Rightarrow> words \<Rightarrow> words" where
  "clear_low_table t m = fold (\<lambda>i m. m(t + 8 * of_nat i := 0)) [0..<512] m"

text \<open>The table that an entry points to, made from the buffer when there is none.\<close>

definition next_table :: "u64 \<Rightarrow> u64 \<Rightarrow> words \<Rightarrow> u64 \<times> words" where
  "next_table buffer ea m =
     (let m1 = (if bit (m ea) 0 then m else clear_low_table buffer (m(ea := low_entry 0 (buffer AND NOT (page_size - 1)))))
      in (m1 ea AND NOT (page_size - 1), m1))"

definition map_high_kernel :: "symbols \<Rightarrow> u64 \<Rightarrow> words \<Rightarrow> words" where
  "map_high_kernel y l4 m =
     (let (l3, m1) = next_table (l3_buffer y) (l4 + 8 * fld 39 9 (high_start y)) m;
          (l2, m2) = next_table (l2_buffer y) (l3 + 8 * fld 30 9 (high_start y)) m1
      in fold (\<lambda>i m. m(l2 + 8 * of_nat i := low_entry 1 (high_physical_start y + of_nat i * Mi 2))) [0..<512] m2)"

text \<open>
  \<open>main\<close>: the messages, the check, the mapping, and the call of the kernel with its stack and its argument; \<open>None\<close> is
  the stop for a kernel that is too big.
\<close>

definition msg_main :: "u8 list" where
  "msg_main = map (\<lambda>c. of_char c) ''[LOW]: main in x64'' @ [0x0A]"

definition msg_mapped :: "u8 list" where
  "msg_mapped = map (\<lambda>c. of_char c) ''[LOW]: mapped high kernel'' @ [0x0A]"

definition msg_too_big :: "u8 list" where
  "msg_too_big = map (\<lambda>c. of_char c) ''[LOW]: Kernel can not be bigger than 1GiB.'' @ [0x0A] @ map (\<lambda>c. of_char c) '' Stop'' @ [0x0A]"

record kernel_call =
  call_entry :: u64
  call_stack :: u64
  call_argument :: u64

definition jump_to_high_kernel :: "symbols \<Rightarrow> u64 \<Rightarrow> kernel_call" where
  "jump_to_high_kernel y multiboot =
     \<lparr>call_entry = high_main y, call_stack = start_stack y + 0x100000 - 0x10, call_argument = multiboot\<rparr>"

definition low_main :: "symbols \<Rightarrow> u64 \<Rightarrow> u64 \<Rightarrow> words \<Rightarrow> low_screen \<Rightarrow> kernel_call option \<times> words \<times> low_screen" where
  "low_main y l4 multiboot m s =
     (let s1 = print_string msg_main s
      in if \<not> kernel_fits y then (None, m, print_string msg_too_big s1)
         else (Some (jump_to_high_kernel y multiboot), map_high_kernel y l4 m, print_string msg_mapped s1))"

section \<open>What the processor finds in the tables\<close>

text \<open>The page walk of the architecture, for tables of 512 entries and the three page sizes.\<close>

definition walk_entry_address :: "u64 \<Rightarrow> u64" where "walk_entry_address e = e AND 0x000FFFFFFFFFF000"
definition table_entry :: "words \<Rightarrow> u64 \<Rightarrow> nat \<Rightarrow> u64 \<Rightarrow> u64" where
  "table_entry m t lo va = m (t + 8 * fld lo 9 va)"

definition mmu_walk :: "words \<Rightarrow> u64 \<Rightarrow> u64 \<Rightarrow> u64 option" where
  "mmu_walk m t4 va =
     (let e4 = table_entry m t4 39 va in if \<not> bit e4 0 then None else
      let e3 = table_entry m (walk_entry_address e4) 30 va in if \<not> bit e3 0 then None
      else if bit e3 7 then Some ((e3 AND 0x000FFFFFC0000000) + fld 0 30 va) else
      let e2 = table_entry m (walk_entry_address e3) 21 va in if \<not> bit e2 0 then None
      else if bit e2 7 then Some ((e2 AND 0x000FFFFFFFE00000) + fld 0 21 va) else
      let e1 = table_entry m (walk_entry_address e2) 12 va in if \<not> bit e1 0 then None
      else Some (walk_entry_address e1 + fld 0 12 va))"

text \<open>Tables on page boundaries.\<close>

definition page_aligned :: "u64 \<Rightarrow> bool" where "page_aligned t \<longleftrightarrow> 4096 dvd unat t"

lemma aligned_bit: "2 ^ k dvd unat (w :: u64) \<Longrightarrow> j < k \<Longrightarrow> \<not> bit w j"
proof
  assume a: "2 ^ k dvd unat w" "j < k" "bit w j"
  have "take_bit k (unat w) = 0" using a(1) by (simp add: take_bit_eq_mod)
  moreover have "bit (take_bit k (unat w)) j" using a(2,3) by (simp add: bit_take_bit_iff bit_unsigned_iff)
  ultimately show False by simp
qed

lemma small_bit: "unat (w :: u64) < 2 ^ k \<Longrightarrow> k \<le> j \<Longrightarrow> \<not> bit w j"
proof
  assume a: "unat w < 2 ^ k" "k \<le> j" "bit w j"
  have "bit (take_bit k (unat w)) j" using a by (simp add: take_bit_nat_eq_self bit_unsigned_iff)
  then show False using a(2) by (simp add: bit_take_bit_iff)
qed

lemma unat_entry:
  assumes "page_aligned t" "i < 512"
  shows "unat (t + 8 * of_nat i) = unat t + 8 * i"
proof -
  obtain k where k: "unat t = 4096 * k" using assms(1) by (auto simp: page_aligned_def)
  have "4096 * k < 2 ^ 64" using unat_u64[of t] k by simp
  then have "unat t + 8 * i < 2 ^ 64" using k assms(2) by simp
  moreover have "unat (8 * of_nat i :: u64) = 8 * i" using assms(2)
    by (subst unat_mult_u64) (simp_all add: unat_of_nat_u64)
  ultimately show ?thesis by (subst unat_add_u64) simp_all
qed

lemma entry_inj:
  assumes "page_aligned s" "page_aligned t" "i < 512" "j < 512"
  shows "s + 8 * of_nat i = t + 8 * of_nat j \<longleftrightarrow> s = t \<and> i = j"
proof
  assume "s + 8 * of_nat i = t + 8 * of_nat j"
  then have e: "unat s + 8 * i = unat t + 8 * j" using unat_entry[OF assms(1,3)] unat_entry[OF assms(2,4)] by simp
  from assms(1,2) obtain k l where "unat s = 4096 * k" "unat t = 4096 * l" unfolding page_aligned_def dvd_def by blast
  then have "512 * k + i = 512 * l + j" "unat s = 4096 * k" "unat t = 4096 * l" using e by simp_all
  moreover from this(1) have "(512 * k + i) div 512 = (512 * l + j) div 512" by simp
  ultimately have k: "k = l" "unat s = unat t" using assms(3,4) by simp_all
  then have "unat s = unat t" "i = j" using e by simp_all
  then show "s = t \<and> i = j" by (simp add: word_cong_unat)
qed simp

text \<open>The words of a table.\<close>

definition word_at :: "words \<Rightarrow> u64 \<Rightarrow> nat \<Rightarrow> u64" where "word_at m t i = m (t + 8 * of_nat i)"

lemma word_at_update:
  assumes "page_aligned s" "page_aligned t" "i < 512" "j < 512"
  shows "word_at (m(s + 8 * of_nat i := w)) t j = (if s = t \<and> i = j then w else word_at m t j)"
  using entry_inj[OF assms] by (auto simp: word_at_def)

lemma word_at_fold:
  assumes "page_aligned s" "page_aligned t" "j < 512" "n \<le> 512"
  shows "word_at (fold (\<lambda>i m. m(s + 8 * of_nat i := f i)) [0..<n] m) t j = (if s = t \<and> j < n then f j else word_at m t j)"
  using assms(4)
proof (induction n)
  case (Suc n)
  then show ?case using word_at_update[OF assms(1,2) _ assms(3), of n] by (auto simp: less_Suc_eq simp del: fun_upd_apply)
qed simp

lemma fld_index: "fld lo 9 va = of_nat (unat (fld lo 9 (va :: u64)))" "unat (fld lo 9 (va :: u64)) < 512"
  using fld_less[of 9 lo va] by simp_all

lemma table_entry_word: "table_entry m t lo va = word_at m t (unat (fld lo 9 va))"
  by (simp add: table_entry_def word_at_def)

text \<open>What the two kinds of entries say.\<close>

lemma low_entry_bits:
  assumes "j < 64"
  shows "bit (low_entry large raw) j \<longleftrightarrow>
    (if j < 2 then True else if j = 7 then odd large else if j < 12 then False else bit raw j)"
  using assms by (auto simp: low_entry_def Let_def bit_set_fld bit_1_iff bit_0 bit_0_eq)

lemma low_entry_parts:
  "bit (low_entry large raw) 0" "bit (low_entry 1 raw) 7" "\<not> bit (low_entry 0 raw) 7"
  by (simp_all add: low_entry_bits)

lemma low_entry_address:
  assumes "page_aligned raw" "unat raw < 2 ^ 52"
  shows "walk_entry_address (low_entry large raw) = raw"
proof (rule bit_word_eqI)
  fix j assume "j < LENGTH(64)"
  moreover have "bit (0x000FFFFFFFFFF000 :: u64) j \<longleftrightarrow> 12 \<le> j \<and> j < 52"
  proof -
    have e0: "(0x000FFFFFFFFFF000 :: u64) = push_bit 12 (mask 40)" by (simp add: mask_eq_exp_minus_1)
    show ?thesis unfolding e0 by (auto simp: bit_simps)
  qed
  ultimately show "bit (walk_entry_address (low_entry large raw)) j = bit raw j"
    using aligned_bit[of 12 raw j] small_bit[OF assms(2), of j] assms(1)
    by (auto simp: walk_entry_address_def bit_and_iff low_entry_bits page_aligned_def not_less)
qed

lemma low_entry_address_2M:
  assumes "2 ^ 21 dvd unat raw" "unat raw < 2 ^ 52"
  shows "low_entry 1 raw AND 0x000FFFFFFFE00000 = raw"
proof (rule bit_word_eqI)
  fix j assume "j < LENGTH(64)"
  moreover have "bit (0x000FFFFFFFE00000 :: u64) j \<longleftrightarrow> 21 \<le> j \<and> j < 52"
  proof -
    have e0: "(0x000FFFFFFFE00000 :: u64) = push_bit 21 (mask 31)" by (simp add: mask_eq_exp_minus_1)
    show ?thesis unfolding e0 by (auto simp: bit_simps)
  qed
  ultimately show "bit (low_entry 1 raw AND 0x000FFFFFFFE00000) j = bit raw j"
    using aligned_bit[OF assms(1), of j] small_bit[OF assms(2), of j]
    by (auto simp: bit_and_iff low_entry_bits not_less)
qed

lemma page_mask: "page_aligned t \<Longrightarrow> t AND NOT (page_size - 1) = t"
proof (rule bit_word_eqI)
  fix j assume t: "page_aligned t" and j: "j < LENGTH(64)"
  have "page_size - 1 = (mask 12 :: u64)" by (simp add: page_size_def mask_eq_exp_minus_1)
  then show "bit (t AND NOT (page_size - 1)) j = bit t j"
    using aligned_bit[of 12 t j] t j by (auto simp: bit_simps page_aligned_def)
qed

lemma low_entry_masked:
  assumes "page_aligned raw"
  shows "low_entry large raw AND NOT (page_size - 1) = raw"
proof (rule bit_word_eqI)
  fix j assume j: "j < LENGTH(64)"
  have "page_size - 1 = (mask 12 :: u64)" by (simp add: page_size_def mask_eq_exp_minus_1)
  then show "bit (low_entry large raw AND NOT (page_size - 1)) j = bit raw j"
    using aligned_bit[of 12 raw j] assms j by (auto simp: bit_simps page_aligned_def low_entry_bits)
qed

text \<open>The assembly's entries are the same: present, writable, and large.\<close>

lemma put_low_zero: "m a = 0 \<Longrightarrow> put_low a v m = m(a := ucast v)"
  by (simp add: put_low_def)

lemma asm_entry:
  assumes "page_aligned (ucast t)"
  shows "(ucast (t OR 3 :: u32) :: u64) = low_entry 0 (ucast t)"
proof (rule bit_word_eqI)
  fix j assume j: "j < LENGTH(64)"
  have "\<not> bit t j" if "j < 12" using aligned_bit[of 12 "ucast t" j] assms that by (auto simp: page_aligned_def bit_simps)
  moreover have "bit (3 :: u32) j \<longleftrightarrow> j < 2"
  proof -
    have e0: "(3 :: u32) = mask 2" by (simp add: mask_eq_exp_minus_1)
    show ?thesis unfolding e0 by (auto simp: bit_mask_iff)
  qed
  ultimately show "bit (ucast (t OR 3) :: u64) j = bit (low_entry 0 (ucast t)) j"
    using j by (auto simp: low_entry_bits bit_simps)
qed

lemma asm_entry_2M:
  assumes "i < 512"
  shows "(ucast (0x200000 * of_nat i OR 0x83 :: u32) :: u64) = low_entry 1 (of_nat i * Mi 2)"
proof (rule bit_word_eqI)
  fix j assume j: "j < LENGTH(64)"
  have u: "unat (0x200000 * of_nat i :: u32) = 2 ^ 21 * i" "unat (of_nat i * Mi 2) = 2 ^ 21 * i"
    using assms by (simp_all add: Mi_def Ki_def unat_word_ariths unat_of_nat take_bit_nat_eq_self)
  then have e: "(ucast (0x200000 * of_nat i :: u32) :: u64) = of_nat i * Mi 2" 
    using assms by (simp add: word_cong_unat unsigned_ucast_eq take_bit_nat_eq_self)
  have "2 ^ 21 dvd unat (of_nat i * Mi 2)" unfolding u by simp
  then have "\<not> bit (of_nat i * Mi 2) j" if "j < 21" using aligned_bit that by blast
  then have z: "\<not> bit (0x200000 * of_nat i :: u32) j" if "j < 21" using that e[symmetric] by (auto simp: bit_simps)
  moreover have "bit (0x83 :: u32) j \<longleftrightarrow> j < 2 \<or> j = 7"
  proof -
    have e0: "(0x83 :: u32) = mask 2 OR push_bit 7 1" by (simp add: mask_eq_exp_minus_1)
    show ?thesis unfolding e0 by (auto simp: bit_simps simp del: push_bit_of_1)
  qed
  ultimately show "bit (ucast (0x200000 * of_nat i OR 0x83 :: u32) :: u64) j = bit (low_entry 1 (of_nat i * Mi 2)) j"
    using j unfolding e[symmetric] by (auto simp: low_entry_bits bit_simps)
qed

section \<open>The tables that the loader makes\<close>

text \<open>Where the tables lie: on page boundaries, apart from each other, below 4 GiB for the assembly's.\<close>

definition tables_apart :: "u64 list \<Rightarrow> bool" where
  "tables_apart ts \<longleftrightarrow> distinct ts \<and> (\<forall>t \<in> set ts. page_aligned t)"

definition blank_table :: "words \<Rightarrow> u64 \<Rightarrow> bool" where
  "blank_table m t \<longleftrightarrow> (\<forall>i < 512. word_at m t i = 0)"

lemma word_at_0: "m t = word_at m t 0"
  by (simp add: word_at_def)

lemma fold_put_low:
  assumes "\<forall>i < n. word_at m t i = 0" "page_aligned t" "n \<le> 512"
  shows "fold (\<lambda>i m. put_low (t + of_nat i * 8) (f i) m) [0..<n] m = fold (\<lambda>i m. m(t + 8 * of_nat i := ucast (f i))) [0..<n] m"
  using assms(1,3)
proof (induction n)
  case (Suc n)
  let ?m = "fold (\<lambda>i m. m(t + 8 * of_nat i := ucast (f i))) [0..<n] m"
  have "word_at ?m t n = word_at m t n" using word_at_fold[OF assms(2,2), of n n "\<lambda>i. ucast (f i)" m] Suc.prems(2) by simp
  then have "?m (t + 8 * of_nat n) = 0" using Suc.prems(1) by (simp add: word_at_def)
  then show ?case using Suc by (simp add: put_low_zero mult.commute del: fun_upd_apply)
qed simp

text \<open>The words of the three tables after \<open>setup_paging\<close>, and of all others.\<close>

lemma setup_paging_words:
  assumes t: "tables_apart [ucast l4, ucast l3, ucast l2]" and z: "\<forall>t \<in> {ucast l4, ucast l3, ucast l2}. blank_table m t"
    and u: "page_aligned u" "j < 512"
  shows "word_at (setup_paging l4 l3 l2 m) u j =
    (if u = ucast l2 then low_entry 1 (of_nat j * Mi 2)
     else if u = ucast l3 \<and> j = 0 then low_entry 0 (ucast l2)
     else if u = ucast l4 \<and> j = 0 then low_entry 0 (ucast l3) else word_at m u j)"
proof -
  define a4 a3 a2 :: u64 where "a4 = ucast l4" and "a3 = ucast l3" and "a2 = ucast l2"
  note a = a4_def[symmetric] a3_def[symmetric] a2_def[symmetric]
  have p: "page_aligned a4" "page_aligned a3" "page_aligned a2" "a4 \<noteq> a3" "a4 \<noteq> a2" "a3 \<noteq> a2"
    using t by (auto simp: tables_apart_def a)
  have z': "word_at m t i = 0" if "t = a4 \<or> t = a3 \<or> t = a2" "i < 512" for t i
    using z that by (auto simp: blank_table_def a)
  have e: "(ucast (l3 OR 3) :: u64) = low_entry 0 a3" "(ucast (l2 OR 3) :: u64) = low_entry 0 a2"
    using asm_entry[of l3] asm_entry[of l2] p by (simp_all add: a)
  define m1 where "m1 = m(a4 := low_entry 0 a3)"
  define m2 where "m2 = m1(a3 := low_entry 0 a2)"
  have w1: "word_at m1 v i = (if v = a4 \<and> i = 0 then low_entry 0 a3 else word_at m v i)" if "page_aligned v" "i < 512" for v i
    using word_at_update[OF p(1) that(1) _ that(2), of 0 m] unfolding m1_def by auto
  have w2: "word_at m2 v i = (if v = a3 \<and> i = 0 then low_entry 0 a2 else word_at m1 v i)" if "page_aligned v" "i < 512" for v i
    using word_at_update[OF p(2) that(1) _ that(2), of 0 m1] unfolding m2_def by auto
  have s1: "put_low a4 (l3 OR 3) m = m1" using z'[of a4 0] word_at_0[of m a4] by (simp add: put_low_zero m1_def e)
  have "m1 a3 = 0" using w1[OF p(2), of 0] z'[of a3 0] p(4) word_at_0[of m1 a3] by simp
  then have s2: "put_low a3 (l2 OR 3) m1 = m2" by (simp add: put_low_zero m2_def e)
  have "\<forall>i < 512. word_at m2 a2 i = 0" using w1[OF p(3)] w2[OF p(3)] z' p(5,6) by auto
  then have s3: "setup_paging l4 l3 l2 m = fold (\<lambda>i m. m(a2 + 8 * of_nat i := ucast (0x200000 * of_nat i OR 0x83 :: u32))) [0..<512] m2"
    using fold_put_low[of 512 m2 a2] p(3) by (simp add: setup_paging_def Let_def a s1 s2 del: upt_rec_numeral)
  have "word_at (setup_paging l4 l3 l2 m) u j = (if a2 = u then low_entry 1 (of_nat j * Mi 2) else word_at m2 u j)"
    unfolding s3 using word_at_fold[OF p(3) u(1,2), of 512 "\<lambda>i. ucast (0x200000 * of_nat i OR 0x83 :: u32)" m2] u(2) asm_entry_2M[OF u(2)] by simp
  then show ?thesis using w2[OF u] w1[OF u] p(4-6) unfolding a by auto
qed

text \<open>The words after the kernel is mapped into tables that have no entry for it.\<close>

lemma next_table_new:
  assumes p: "page_aligned t" "page_aligned buffer" "t \<noteq> buffer" "i < 512" and free: "word_at m t i = 0"
  shows "next_table buffer (t + 8 * of_nat i) m = (buffer, clear_low_table buffer (m(t + 8 * of_nat i := low_entry 0 buffer)))"
proof -
  have m: "m (t + 8 * of_nat i) = 0" using free by (simp add: word_at_def)
  let ?m = "m(t + 8 * of_nat i := low_entry 0 buffer)"
  have "word_at (clear_low_table buffer ?m) t i = low_entry 0 buffer"
    using word_at_fold[OF p(2,1,4), of 512 "\<lambda>_. 0" ?m] p(3) word_at_update[OF p(1,1,4,4), of m]
    by (simp add: clear_low_table_def)
  then show ?thesis using m by (simp add: next_table_def Let_def page_mask[OF p(2)] low_entry_masked[OF p(2)] word_at_def)
qed

lemma next_table_words:
  assumes p: "page_aligned t" "page_aligned buffer" "t \<noteq> buffer" "i < 512" and u: "page_aligned u" "j < 512"
  shows "word_at (clear_low_table buffer (m(t + 8 * of_nat i := low_entry 0 buffer))) u j =
    (if u = buffer then 0 else if u = t \<and> j = i then low_entry 0 buffer else word_at m u j)"
  using word_at_fold[OF p(2) u, of 512 "\<lambda>_. 0" "m(t + 8 * of_nat i := low_entry 0 buffer)"] u(2)
    word_at_update[OF p(1) u(1) p(4) u(2), of m "low_entry 0 buffer"]
  unfolding clear_low_table_def by auto

lemma map_high_kernel_words:
  fixes y :: symbols
  defines "i4 \<equiv> unat (fld 39 9 (high_start y))" and "i3 \<equiv> unat (fld 30 9 (high_start y))"
  assumes t: "tables_apart [l4, l3_buffer y, l2_buffer y]" and free: "word_at m l4 i4 = 0" and u: "page_aligned u" "j < 512"
  shows "word_at (map_high_kernel y l4 m) u j =
    (if u = l2_buffer y then low_entry 1 (high_physical_start y + of_nat j * Mi 2)
     else if u = l3_buffer y then (if j = i3 then low_entry 0 (l2_buffer y) else 0)
     else if u = l4 \<and> j = i4 then low_entry 0 (l3_buffer y) else word_at m u j)"
proof -
  let ?b3 = "l3_buffer y" and ?b2 = "l2_buffer y"
  have p: "page_aligned l4" "page_aligned ?b3" "page_aligned ?b2" "l4 \<noteq> ?b3" "l4 \<noteq> ?b2" "?b3 \<noteq> ?b2"
    using t by (auto simp: tables_apart_def)
  have i: "i4 < 512" "i3 < 512" "fld 39 9 (high_start y) = of_nat i4" "fld 30 9 (high_start y) = of_nat i3"
    unfolding i4_def i3_def using fld_index by blast+
  define m1 where "m1 = clear_low_table ?b3 (m(l4 + 8 * of_nat i4 := low_entry 0 ?b3))"
  define m2 where "m2 = clear_low_table ?b2 (m1(?b3 + 8 * of_nat i3 := low_entry 0 ?b2))"
  have n1: "next_table ?b3 (l4 + 8 * of_nat i4) m = (?b3, m1)" unfolding m1_def by (rule next_table_new[OF p(1,2,4) i(1) free])
  have w1: "word_at m1 v k = (if v = ?b3 then 0 else if v = l4 \<and> k = i4 then low_entry 0 ?b3 else word_at m v k)"
    if "page_aligned v" "k < 512" for v k unfolding m1_def by (rule next_table_words[OF p(1,2,4) i(1) that])
  have "word_at m1 ?b3 i3 = 0" using w1[OF p(2) i(2)] by simp
  then have n2: "next_table ?b2 (?b3 + 8 * of_nat i3) m1 = (?b2, m2)" unfolding m2_def by (rule next_table_new[OF p(2,3,6) i(2)])
  have w2: "word_at m2 v k = (if v = ?b2 then 0 else if v = ?b3 \<and> k = i3 then low_entry 0 ?b2 else word_at m1 v k)"
    if "page_aligned v" "k < 512" for v k unfolding m2_def by (rule next_table_words[OF p(2,3,6) i(2) that])
  have "map_high_kernel y l4 m = fold (\<lambda>i m. m(?b2 + 8 * of_nat i := low_entry 1 (high_physical_start y + of_nat i * Mi 2))) [0..<512] m2"
    by (simp add: map_high_kernel_def i n1 n2 del: upt_rec_numeral)
  then have "word_at (map_high_kernel y l4 m) u j =
      (if ?b2 = u then low_entry 1 (high_physical_start y + of_nat j * Mi 2) else word_at m2 u j)"
    using word_at_fold[OF p(3) u, of 512 "\<lambda>i. low_entry 1 (high_physical_start y + of_nat i * Mi 2)" m2] u(2) by simp
  then show ?thesis using w2[OF u] w1[OF u] p(4-6) by auto
qed

text \<open>A walk over three tables to a page of 2 MiB.\<close>

lemma walk_2M:
  assumes e: "word_at m t4 (unat (fld 39 9 va)) = low_entry 0 t3" "word_at m t3 (unat (fld 30 9 va)) = low_entry 0 t2"
      "word_at m t2 (unat (fld 21 9 va)) = low_entry 1 pa"
    and t: "page_aligned t3" "page_aligned t2" "unat t3 < 2 ^ 52" "unat t2 < 2 ^ 52"
    and pa: "2 ^ 21 dvd unat pa" "unat pa < 2 ^ 52"
  shows "mmu_walk m t4 va = Some (pa + fld 0 21 va)"
  using e low_entry_parts
  by (simp add: mmu_walk_def table_entry_word Let_def low_entry_address[OF t(1,3)] low_entry_address[OF t(2,4)] low_entry_address_2M[OF pa])

lemma fld_add_aligned:
  assumes "2 ^ k dvd unat (s :: u64)" "unat off < 2 ^ k" "k \<le> 64"
  shows "unat (s + off) = unat s + unat off" "k \<le> lo \<Longrightarrow> fld lo n (s + off) = fld lo n s"
    "lo + n \<le> k \<Longrightarrow> fld lo n (s + off) = fld lo n off"
proof -
  obtain q where q: "unat s = 2 ^ k * q" using assms(1) by (auto simp: dvd_def)
  have b: "bit (s + off) j = (if j < k then bit off j else bit s j)" for j
  proof -
    have "s AND off = 0"
      using aligned_bit[OF assms(1)] small_bit[OF assms(2)] by (intro bit_word_eqI) (simp add: bit_and_iff, meson linorder_not_less)
    then have "s + off = s OR off" by (rule disjunctive_add_eq_or)
    then show ?thesis using aligned_bit[OF assms(1)] small_bit[OF assms(2)] by (auto simp: bit_or_iff not_less)
  qed
  have "2 ^ k * q < 2 ^ k * 2 ^ (64 - k)" using unat_u64[of s] q assms(3) by (simp add: power_add[symmetric])
  then have "q < 2 ^ (64 - k)" by simp
  then have "2 ^ k * Suc q \<le> 2 ^ k * 2 ^ (64 - k)" by (intro mult_le_mono2) simp
  then have "2 ^ k * q + 2 ^ k \<le> 2 ^ 64" using assms(3) by (simp add: power_add[symmetric])
  then show "unat (s + off) = unat s + unat off" using q assms(2) by (intro unat_add_u64) linarith
  show "k \<le> lo \<Longrightarrow> fld lo n (s + off) = fld lo n s" "lo + n \<le> k \<Longrightarrow> fld lo n (s + off) = fld lo n off"
    by (auto simp: bit_eq_iff bit_fld b)
qed

lemma pages_2M: "unat (off :: u64) < 2 ^ 30 \<Longrightarrow> of_nat (unat (fld 21 9 off)) * Mi 2 + fld 0 21 off = off"
proof -
  assume o: "unat off < 2 ^ 30"
  have "unat (fld 21 9 off) = unat off div 2 ^ 21" "unat (fld 0 21 off) = unat off mod 2 ^ 21"
    using o by (simp_all add: unat_fld div_less_iff_less_mult mod_less)
  moreover have "unat (of_nat (unat off div 2 ^ 21) * Mi 2 :: u64) = unat off div 2 ^ 21 * 2 ^ 21"
    using o by (subst unat_mult_u64) (simp_all add: Mi_def Ki_def unat_of_nat_u64)
  ultimately show ?thesis using o by (simp add: word_cong_unat unat_word_ariths)
qed

lemma page_2M_place:
  assumes "2 ^ 21 dvd unat (pa :: u64)" "unat pa + 2 ^ 30 \<le> 2 ^ 52" "i < 512"
  shows "2 ^ 21 dvd unat (pa + of_nat i * Mi 2)" "unat (pa + of_nat i * Mi 2) < 2 ^ 52"
proof -
  have "unat (of_nat i * Mi 2 :: u64) = 2 ^ 21 * i"
    using assms(3) by (simp add: Mi_def Ki_def unat_word_ariths unat_of_nat take_bit_nat_eq_self)
  moreover from this have "unat (pa + of_nat i * Mi 2) = unat pa + 2 ^ 21 * i" using assms(2,3) by (subst unat_add_u64) simp_all
  ultimately show "2 ^ 21 dvd unat (pa + of_nat i * Mi 2)" "unat (pa + of_nat i * Mi 2) < 2 ^ 52"
    using assms by (simp_all add: dvd_add)
qed

text \<open>C5. The first page tables: after \<open>setup_paging\<close> and \<open>map_high_kernel_to_high_memory\<close>, with the tables and buffers
  on different cleared pages, the processor translates every address below 1 GiB to itself, and every address of the
  GiB from \<open>high_start\<close> to the physical memory from \<open>high_physical_start\<close>.\<close>

theorem loader_maps_kernel:
  fixes y :: symbols
  assumes t: "tables_apart [ucast l4, ucast l3, ucast l2, l3_buffer y, l2_buffer y]"
    and z: "\<forall>t \<in> {ucast l4, ucast l3, ucast l2}. blank_table m t"
    and b: "unat (l3_buffer y) < 2 ^ 52" "unat (l2_buffer y) < 2 ^ 52"
    and h: "2 ^ 30 dvd unat (high_start y)" "fld 39 9 (high_start y) \<noteq> 0"
    and pa: "2 ^ 21 dvd unat (high_physical_start y)" "unat (high_physical_start y) + 2 ^ 30 \<le> 2 ^ 52"
    and off: "unat off < 2 ^ 30"
  shows "mmu_walk (map_high_kernel y (ucast l4) (setup_paging l4 l3 l2 m)) (ucast l4) off = Some off \<and>
    mmu_walk (map_high_kernel y (ucast l4) (setup_paging l4 l3 l2 m)) (ucast l4) (high_start y + off) = Some (high_physical_start y + off)"
proof -
  let ?m = "map_high_kernel y (ucast l4) (setup_paging l4 l3 l2 m)" and ?hi = "high_start y + off"
  have t1: "tables_apart [ucast l4, ucast l3, ucast l2]" and t2: "tables_apart [ucast l4, l3_buffer y, l2_buffer y]"
    using t by (auto simp: tables_apart_def)
  have p: "page_aligned (ucast l4)" "page_aligned (ucast l3)" "page_aligned (ucast l2)" "page_aligned (l3_buffer y)" "page_aligned (l2_buffer y)"
    and ne: "distinct [ucast l4, ucast l3, ucast l2, l3_buffer y, l2_buffer y]" using t by (auto simp: tables_apart_def)
  have small: "unat (ucast (l :: u32) :: u64) < 2 ^ 52" for l
  proof -
    have "unat l < 2 ^ 32" using unsigned_less[of l] by simp
    then show ?thesis by (simp add: unsigned_ucast_eq take_bit_nat_eq_self)
  qed
  note w1 = setup_paging_words[OF t1 z]
  let ?i4 = "unat (fld 39 9 (high_start y))"
  have i4: "?i4 \<noteq> 0" "?i4 < 512" using h(2) fld_index(2) by (simp_all add: unat_eq_0)
  have "word_at m (ucast l4) ?i4 = 0" using z i4(2) by (simp add: blank_table_def)
  then have free: "word_at (setup_paging l4 l3 l2 m) (ucast l4) ?i4 = 0" using w1[OF p(1) i4(2)] ne i4(1) by simp
  note w2 = map_high_kernel_words[OF t2 free]
  note o9 = fld_index(2)[of 21 off] fld_index(2)[of 30 "high_start y"]
  have f: "fld 39 9 off = 0" "fld 30 9 off = 0" using off by (simp_all add: word_cong_unat unat_fld)
  have hi: "fld 39 9 ?hi = fld 39 9 (high_start y)" "fld 30 9 ?hi = fld 30 9 (high_start y)" "fld 21 9 ?hi = fld 21 9 off"
    "fld 0 21 ?hi = fld 0 21 off" using fld_add_aligned(2,3)[OF h(1) off] by simp_all
  have l: "(2 :: nat) ^ 21 dvd unat (0 :: u64)" "unat (0 :: u64) + 2 ^ 30 \<le> 2 ^ 52" by simp_all
  have "mmu_walk ?m (ucast l4) off = Some (of_nat (unat (fld 21 9 off)) * Mi 2 + fld 0 21 off)"
    by (rule walk_2M[OF _ _ _ p(2,3) small small page_2M_place[OF l o9(1), unfolded add_0_left]])
      (use w1[OF p(1), of 0] w1[OF p(2), of 0] w1[OF p(3) o9(1)] w2[OF p(1), of 0] w2[OF p(2), of 0] w2[OF p(3) o9(1)] ne f i4(1) in auto)
  moreover have "mmu_walk ?m (ucast l4) ?hi = Some (high_physical_start y + of_nat (unat (fld 21 9 off)) * Mi 2 + fld 0 21 ?hi)"
    by (rule walk_2M[OF _ _ _ p(4,5) b page_2M_place[OF pa o9(1)]])
      (use w2[OF p(1) i4(2)] w2[OF p(4) o9(2)] w2[OF p(5) o9(1)] ne hi in auto)
  ultimately show ?thesis using pages_2M[OF off] hi(4) by (simp add: add.assoc)
qed

definition demo_symbols_low :: symbols where
  "demo_symbols_low = \<lparr>high_start = 0x200000000000, high_end = 0x200000200000, high_physical_start = 0x200000,
     l3_buffer = 0x104000, l2_buffer = 0x105000, high_main = 0x200000001000, start_stack = 0x200000100000\<rparr>"

lemma loader_maps_kernel_witness:
  "mmu_walk (map_high_kernel demo_symbols_low 0x101000 (setup_paging 0x101000 0x102000 0x103000 (\<lambda>_. 0))) 0x101000 0x200000123456 = Some 0x323456"
  using loader_maps_kernel[of "0x101000" "0x102000" "0x103000" demo_symbols_low "\<lambda>_. 0" "0x123456"]
  by (simp add: tables_apart_def page_aligned_def blank_table_def word_at_def demo_symbols_low_def fld_def)

section \<open>The 32-bit entry\<close>

text \<open>The strings of the data section; \<^verbatim>\<open>.asciz\<close> adds a zero to the one that is written.\<close>

definition asciz :: "string \<Rightarrow> u8 list" where "asciz s = map (\<lambda>c. of_char c) s @ [0, 0]"

definition hello_string :: "u8 list" where "hello_string = asciz ''[x86] CrackOS  ''"
definition x64_supported :: "u8 list" where "x64_supported = asciz ''[x64] CrackOS  ''"
definition x64_paged :: "u8 list" where "x64_paged = asciz ''[x64] PageTable''"

record entry_symbols =
  sym_l4 :: u32
  sym_l3 :: u32
  sym_l2 :: u32
  sym_hello :: u32
  sym_supported :: u32
  sym_paged :: u32
  sym_gdt64_end :: u64
  sym_stack_top :: u32

text \<open>\<open>__start\<close> up to the call of \<open>main\<close>: \<open>ebx\<close>, the boot information, is kept on the stack over the calls.  A loop
  that does not end, the one of a machine without 64-bit mode included, is \<open>None\<close>.\<close>

definition start32 :: "entry_symbols \<Rightarrow> bool \<Rightarrow> (u32 \<Rightarrow> u32 \<times> u32) \<Rightarrow> u32 \<Rightarrow> bytes \<times> words \<times> cpu \<Rightarrow> (u64 \<times> bytes \<times> words \<times> cpu) option" where
  "start32 y id_flag_toggles cpuid ebx = (\<lambda>(b, w, c).
     Option.bind (asm_print (sym_hello y) (clear_loop b)) (\<lambda>b1.
     if \<not> check_if_x64 id_flag_toggles cpuid then None
     else Option.bind (asm_print (sym_supported y) b1) (\<lambda>b2.
       let w1 = setup_paging (sym_l4 y) (sym_l3 y) (sym_l2 y) w
       in Option.bind (asm_print (sym_paged y) b2) (\<lambda>b3.
         Some (ucast ebx, b3, w1, go_to_x64 (sym_l4 y) (sym_gdt64_end y) (c\<lparr>stack_pointer := ucast (sym_stack_top y)\<rparr>))))))"

text \<open>The loop that ends the loader for good: interrupts off, halt.\<close>

partial_function (option) halt_forever :: "cpu \<Rightarrow> cpu option" where
  "halt_forever c = halt_forever c"

lemma halt_forever_diverges: "halt_forever c = None"
proof (cases "halt_forever c")
  case (Some c')
  have False by (rule halt_forever.raw_induct[OF _ Some, of "\<lambda>_ _. False"]) blast
  then show ?thesis ..
qed simp

text \<open>On a screen apart from the string, and with a zero at address zero, \<open>print\<close> copies the string with its first zero and ends.\<close>

lemma print_loop_string:
  assumes "m 0 = 0" "unat esi + length cs < 0xB8000" "unat edi \<ge> 0xB8000" "unat edi + 2 * length cs + 2 < 2 ^ 32"
    and "\<And>i. i < length cs \<Longrightarrow> m (ucast esi + of_nat i) = cs ! i" "m (ucast esi + of_nat (length cs)) = 0" "0 \<notin> set cs"
  shows "\<exists>m'. print_loop esi edi m = Some m' \<and> m' 0 = 0 \<and> (\<forall>a. unat a < 0xB8000 \<longrightarrow> m' a = m a)"
  using assms
proof (induction cs arbitrary: esi edi m)
  case Nil
  have u: "unat (ucast edi :: u64) = unat edi" "unat (ucast (edi + 1) :: u64) = unat edi + 1"
    using Nil.prems(4) by (simp_all add: unsigned_ucast_eq take_bit_nat_eq_self unat_word_ariths)
  have "(ucast edi :: u64) \<noteq> 0" "(ucast (edi + 1) :: u64) \<noteq> 0" using u Nil.prems(3) by auto
  moreover have "a \<noteq> ucast edi \<and> a \<noteq> ucast (edi + 1)" if "unat a < 0xB8000" for a :: u64 using that u Nil.prems(3) by auto
  ultimately show ?case using Nil.prems by (subst print_loop.simps) (auto simp: Let_def)
next
  case (Cons c cs)
  let ?m = "m(ucast edi := m (ucast esi), ucast (edi + 1) := 0x0A)"
  have u: "unat (ucast edi :: u64) = unat edi" "unat (ucast (edi + 1) :: u64) = unat edi + 1" "unat (edi + 2) = unat edi + 2" "unat (esi + 1) = unat esi + 1"
    using Cons.prems(2,4) by (simp_all add: unsigned_ucast_eq take_bit_nat_eq_self unat_word_ariths)
  have low: "?m a = m a" if "unat a < 0xB8000" for a :: u64 using that u Cons.prems(3) by auto
  have s: "(ucast (esi + 1) :: u64) = ucast esi + 1"
    using u(4) Cons.prems(2) by (simp add: word_unat_eq_iff unsigned_ucast_eq take_bit_nat_eq_self unat_word_ariths)
  have at: "unat (ucast esi + of_nat i :: u64) = unat esi + i" if "i \<le> Suc (length cs)" for i
    using that Cons.prems(2) by (simp add: unat_word_ariths unsigned_ucast_eq take_bit_nat_eq_self unat_of_nat)
  have nx: "(ucast (esi + 1) :: u64) + of_nat i = ucast esi + of_nat (Suc i)" for i unfolding s by simp
  have p: "?m (ucast (esi + 1) + of_nat i) = m (ucast esi + of_nat (Suc i))" if "i \<le> length cs" for i
    unfolding nx by (rule low) (use at[of "Suc i"] that Cons.prems(2) in simp)
  have c: "m (ucast esi) = c" "c \<noteq> 0" using Cons.prems(5)[of 0] Cons.prems(7) by auto
  have m0: "?m 0 = 0" using low[of 0] Cons.prems(1) by simp
  have "\<exists>m'. print_loop (esi + 1) (edi + 2) ?m = Some m' \<and> m' 0 = 0 \<and> (\<forall>a. unat a < 0xB8000 \<longrightarrow> m' a = ?m a)"
  proof (rule Cons.IH[where esi = "esi + 1" and edi = "edi + 2" and m = ?m, OF m0])
    show "?m (ucast (esi + 1) + of_nat i) = cs ! i" if "i < length cs" for i
      using p[of i] Cons.prems(5)[of "Suc i"] that by simp
    show "?m (ucast (esi + 1) + of_nat (length cs)) = 0" using p[of "length cs"] Cons.prems(6) by simp
  qed (use Cons.prems u in auto)
  then show ?case using c m0 low by (subst print_loop.simps) (auto simp: Let_def)
qed


lemma clear_loop_low: "unat a < 0xB8000 \<Longrightarrow> clear_loop m a = m a"
proof -
  assume a: "unat a < 0xB8000"
  have "fold (\<lambda>i m. m(0xB8000 + 2 * of_nat i := 0x20, 0xB8000 + 2 * of_nat i + 1 := 0x0A)) [0..<n] m a = m a" if "n \<le> 2000" for n
    using that
  proof (induction n)
    case (Suc n)
    have "unat (0xB8000 + 2 * of_nat n :: u64) = 0xB8000 + 2 * n" "unat (0xB8000 + 2 * of_nat n + 1 :: u64) = 0xB8000 + 2 * n + 1"
      using Suc.prems by (simp_all add: unat_word_ariths unat_of_nat)
    then have "a \<noteq> 0xB8000 + 2 * of_nat n" "a \<noteq> 0xB8000 + 2 * of_nat n + 1" using a by auto
    then show ?case using Suc by simp
  qed simp
  from this[of 2000] show ?thesis by (simp add: clear_loop_def del: upt_rec_numeral)
qed

definition low_string :: "bytes \<Rightarrow> u32 \<Rightarrow> bool" where
  "low_string m p \<longleftrightarrow> (\<exists>cs. 0 \<notin> set cs \<and> unat p + length cs < 0xB8000 \<and> length cs < 1000 \<and>
     (\<forall>i < length cs. m (ucast p + of_nat i) = cs ! i) \<and> m (ucast p + of_nat (length cs)) = 0)"

lemma asm_print_string:
  assumes "m 0 = 0" "low_string m p"
  shows "\<exists>m'. asm_print p m = Some m' \<and> m' 0 = 0 \<and> (\<forall>a. unat a < 0xB8000 \<longrightarrow> m' a = m a)"
proof -
  obtain cs where cs: "0 \<notin> set cs" "unat p + length cs < 0xB8000" "length cs < 1000"
    "\<And>i. i < length cs \<Longrightarrow> m (ucast p + of_nat i) = cs ! i" "m (ucast p + of_nat (length cs)) = 0"
    using assms(2) unfolding low_string_def by blast
  from print_loop_string[where edi = "0xB8000" and esi = p and m = m, OF assms(1) cs(2) _ _ cs(4,5,1)] cs(3)
  show ?thesis by (simp add: asm_print_def)
qed

lemma low_string_same:
  assumes "low_string m p" "\<forall>a. unat a < 0xB8000 \<longrightarrow> m' a = m a"
  shows "low_string m' p"
proof -
  obtain cs where cs: "0 \<notin> set cs" "unat p + length cs < 0xB8000" "length cs < 1000"
    "\<forall>i < length cs. m (ucast p + of_nat i) = cs ! i" "m (ucast p + of_nat (length cs)) = 0"
    using assms(1) unfolding low_string_def by blast
  have "unat (ucast p + of_nat i :: u64) = unat p + i" if "i \<le> length cs" for i
    using that cs(2,3) by (simp add: unat_word_ariths unsigned_ucast_eq take_bit_nat_eq_self unat_of_nat)
  then have "m' (ucast p + of_nat i) = m (ucast p + of_nat i)" if "i \<le> length cs" for i
    using assms(2) that cs(2) by simp
  then show ?thesis unfolding low_string_def using cs by (intro exI[of _ cs]) auto
qed

text \<open>On a 64-bit machine the entry reaches \<open>main\<close> with the tables of \<open>setup_paging\<close>; on any other one it does not.\<close>

lemma start32_returns:
  assumes "b 0 = 0" "low_string b (sym_hello y)" "low_string b (sym_supported y)" "low_string b (sym_paged y)"
  shows "if check_if_x64 t cpuid
    then \<exists>b'. start32 y t cpuid ebx (b, w, c) = Some (ucast ebx, b', setup_paging (sym_l4 y) (sym_l3 y) (sym_l2 y) w,
      go_to_x64 (sym_l4 y) (sym_gdt64_end y) (c\<lparr>stack_pointer := ucast (sym_stack_top y)\<rparr>))
    else start32 y t cpuid ebx (b, w, c) = None"
proof -
  have low: "\<forall>a. unat a < 0xB8000 \<longrightarrow> clear_loop b a = b a" using clear_loop_low by blast
  then have b0: "clear_loop b 0 = 0" using assms(1) by simp
  obtain b1 where b1: "asm_print (sym_hello y) (clear_loop b) = Some b1" "b1 0 = 0" "\<forall>a. unat a < 0xB8000 \<longrightarrow> b1 a = clear_loop b a"
    using asm_print_string[OF b0 low_string_same[OF assms(2) low]] by blast
  have s: "\<forall>a. unat a < 0xB8000 \<longrightarrow> b1 a = b a" using low b1(3) by simp
  obtain b2 where b2: "asm_print (sym_supported y) b1 = Some b2" "b2 0 = 0" "\<forall>a. unat a < 0xB8000 \<longrightarrow> b2 a = b1 a"
    using asm_print_string[OF b1(2) low_string_same[OF assms(3) s]] by blast
  have s2: "\<forall>a. unat a < 0xB8000 \<longrightarrow> b2 a = b a" using s b2(3) by simp
  obtain b3 where b3: "asm_print (sym_paged y) b2 = Some b3"
    using asm_print_string[OF b2(2) low_string_same[OF assms(4) s2]] by blast
  show ?thesis using b1(1) b2(1) b3 by (simp add: start32_def Let_def)
qed

end
