(* ===== verification/Lock.thy ===== *)
theory Lock
  imports KBase
begin

text \<open>
  Spin locks, \<^verbatim>\<open>include/features/lock.h\<close> and \<^verbatim>\<open>src/high/features/lock.cpp\<close>.  The lock routine is modelled
  instruction by instruction, and processors take their instructions in any order; an instruction with the lock
  prefix is one step.
\<close>

section \<open>The routines\<close>

definition unlock :: "u64 \<Rightarrow> u64" where "unlock d = 0"

definition is_locked :: "u64 \<Rightarrow> bool" where "is_locked d \<longleftrightarrow> d AND 1 \<noteq> 0"

text \<open>\<open>lock btsq $0\<close>: the carry is the old bit, the bit is set.\<close>

definition bts0 :: "u64 \<Rightarrow> bool \<times> u64" where "bts0 d = (bit d 0, d OR 1)"

definition try_lock :: "u64 \<Rightarrow> bool \<times> u64" where
  "try_lock d = (case bts0 d of (carry, d') \<Rightarrow> (\<not> carry, d'))"

text \<open>
  Where a processor is: outside, at an instruction of \<open>lock\<close> (with the flag that the instruction tests), or past it,
  holding the lock.
\<close>

datatype pc = Outside | Bts | Jnc bool | Pause | Testq | Jnz bool | Jmp | Critical

fun instr :: "pc \<Rightarrow> u64 \<Rightarrow> pc \<times> u64" where
  "instr Bts d = (case bts0 d of (carry, d') \<Rightarrow> (Jnc carry, d'))"
| "instr (Jnc carry) d = (if \<not> carry then Critical else Pause, d)"
| "instr Pause d = (Testq, d)"
| "instr Testq d = (Jnz (d AND 1 = 0), d)"
| "instr (Jnz zero) d = (if \<not> zero then Pause else Jmp, d)"
| "instr Jmp d = (Bts, d)"
| "instr p d = (p, d)"

text \<open>
  One step of one processor: calling \<open>lock\<close>, an instruction of it, \<open>try_lock\<close>, and \<open>unlock\<close> by the holder, which is
  what \<open>lock_guard\<close> allows.
\<close>

inductive lock_step :: "u64 \<times> pc list \<Rightarrow> u64 \<times> pc list \<Rightarrow> bool" where
  call: "i < length ps \<Longrightarrow> ps ! i = Outside \<Longrightarrow> lock_step (d, ps) (d, ps[i := Bts])"
| instr: "i < length ps \<Longrightarrow> ps ! i \<noteq> Outside \<Longrightarrow> ps ! i \<noteq> Critical \<Longrightarrow> instr (ps ! i) d = (p, d') \<Longrightarrow>
    lock_step (d, ps) (d', ps[i := p])"
| attempt: "i < length ps \<Longrightarrow> ps ! i = Outside \<Longrightarrow> try_lock d = (ok, d') \<Longrightarrow>
    lock_step (d, ps) (d', ps[i := if ok then Critical else Outside])"
| release: "i < length ps \<Longrightarrow> ps ! i = Critical \<Longrightarrow> lock_step (d, ps) (unlock d, ps[i := Outside])"

inductive_cases lock_stepE: "lock_step (d, ps) s'"

inductive lock_reachable :: "nat \<Rightarrow> u64 \<times> pc list \<Rightarrow> bool" for n where
  start: "lock_reachable n (0, replicate n Outside)"
| step: "lock_reachable n s \<Longrightarrow> lock_step s s' \<Longrightarrow> lock_reachable n s'"

text \<open>\<open>lock_guard\<close> on one processor: the lock, the block, the unlock; with the lock taken it spins for ever.\<close>

definition lock_guard :: "(u64 \<times> 's \<Rightarrow> 'a \<times> u64 \<times> 's) \<Rightarrow> u64 \<times> 's \<Rightarrow> ('a \<times> u64 \<times> 's) option" where
  "lock_guard body = (\<lambda>(d, s).
     if bit d 0 then None else (case body (snd (bts0 d), s) of (a, d', s') \<Rightarrow> Some (a, unlock d', s')))"

section \<open>Mutual exclusion\<close>

text \<open>The processors that have the bit: past the \<open>bts\<close> that found it clear, or in the critical section.\<close>

definition holder :: "pc \<Rightarrow> bool" where "holder p \<longleftrightarrow> p = Critical \<or> p = Jnc False"

definition lock_inv :: "u64 \<times> pc list \<Rightarrow> bool" where
  "lock_inv = (\<lambda>(d, ps). (d = 0 \<and> (\<forall>i < length ps. \<not> holder (ps ! i))) \<or>
     (d = 1 \<and> (\<exists>i < length ps. holder (ps ! i) \<and> (\<forall>j < length ps. holder (ps ! j) \<longrightarrow> j = i))))"

lemma holder_simps [simp]:
  "\<not> holder Outside" "\<not> holder Bts" "holder (Jnc b) \<longleftrightarrow> \<not> b" "\<not> holder Pause" "\<not> holder Testq" "\<not> holder (Jnz b)"
  "\<not> holder Jmp" "holder Critical"
  by (simp_all add: holder_def)

lemma lock_inv_free: "lock_inv (0, ps) \<longleftrightarrow> (\<forall>i < length ps. \<not> holder (ps ! i))"
  by (simp add: lock_inv_def)

lemma lock_inv_taken:
  "lock_inv (1, ps) \<longleftrightarrow> (\<exists>i < length ps. holder (ps ! i) \<and> (\<forall>j < length ps. holder (ps ! j) \<longrightarrow> j = i))"
  by (simp add: lock_inv_def)

lemma lock_inv_cases:
  assumes "lock_inv (d, ps)"
  obtains (free) "d = 0" "\<forall>i < length ps. \<not> holder (ps ! i)"
  | (taken) i where "d = 1" "i < length ps" "holder (ps ! i)" "\<forall>j < length ps. holder (ps ! j) \<longrightarrow> j = i"
  using assms unfolding lock_inv_def by fast

lemma bts0_values [simp]: "bts0 0 = (False, 1)" "bts0 1 = (True, 1)"
  by (simp_all add: bts0_def)

text \<open>A step in which the processor neither gains nor loses the bit, one that takes the free bit, one that gives it back.\<close>

lemma lock_inv_keep:
  assumes "lock_inv (d, ps)" "i < length ps" "holder p = holder (ps ! i)"
  shows "lock_inv (d, ps[i := p])"
proof -
  have h: "holder (ps[i := p] ! j) = holder (ps ! j)" if "j < length ps" for j
    using that assms(2,3) by (simp add: nth_list_update)
  show ?thesis using assms(1)
  proof (cases rule: lock_inv_cases)
    case free
    then show ?thesis using h by (simp add: lock_inv_free)
  next
    case (taken k)
    then show ?thesis unfolding taken(1) lock_inv_taken using h by (metis length_list_update)
  qed
qed

lemma lock_inv_take:
  assumes "lock_inv (0, ps)" "i < length ps" "holder p"
  shows "lock_inv (1, ps[i := p])"
  using assms unfolding lock_inv_free lock_inv_taken
  by (metis length_list_update nth_list_update_eq nth_list_update_neq)

lemma lock_inv_release:
  assumes "lock_inv (d, ps)" "i < length ps" "holder (ps ! i)" "\<not> holder p"
  shows "lock_inv (0, ps[i := p])"
  using assms(1)
proof (cases rule: lock_inv_cases)
  case free
  then show ?thesis using assms by blast
next
  case (taken k)
  then have "k = i" using assms(2,3) by blast
  then show ?thesis using taken(4) assms(2,4) unfolding lock_inv_free
    by (metis length_list_update nth_list_update_eq nth_list_update_neq)
qed

lemma lock_step_inv:
  assumes "lock_inv s" "lock_step s s'"
  shows "lock_inv s'"
proof -
  obtain d ps where s: "s = (d, ps)" by force
  from assms(2)[unfolded s] show ?thesis
  proof (cases rule: lock_step.cases)
    case (call i)
    then show ?thesis using assms(1) s lock_inv_keep by simp
  next
    case (instr i p d')
    show ?thesis
    proof (cases "ps ! i = Bts \<and> d = 0")
      case True
      then show ?thesis using instr assms(1) s lock_inv_take[of ps i p] by auto
    next
      case False
      from assms(1)[unfolded s] have "d = 0 \<or> d = 1" by (elim lock_inv_cases) auto
      then have "d' = d" "holder p = holder (ps ! i)" using False instr(3-5) by (cases "ps ! i"; auto split: if_splits)+
      then show ?thesis using instr(1,2) assms(1) s lock_inv_keep by simp
    qed
  next
    case (attempt i ok d')
    from assms(1)[unfolded s] have "d = 0 \<or> d = 1" by (elim lock_inv_cases) auto
    then show ?thesis using attempt assms(1) s lock_inv_keep[of d ps i] lock_inv_take[of ps i Critical]
      by (auto simp: try_lock_def)
  next
    case (release i)
    then show ?thesis using assms(1) s lock_inv_release[of d ps i Outside] by (simp add: unlock_def)
  qed
qed

lemma lock_reachable_inv: "lock_reachable n s \<Longrightarrow> lock_inv s \<and> length (snd s) = n"
proof (induction rule: lock_reachable.induct)
  case start
  then show ?case by (simp add: lock_inv_free)
next
  case (step s s')
  moreover have "length (snd s') = length (snd s)" using step(2) by (cases rule: lock_step.cases) simp_all
  moreover have "lock_inv s'" using step(2,3) lock_step_inv by blast
  ultimately show ?case by simp
qed

text \<open>C4. Mutual exclusion: however the instructions of any number of processors interleave, at most one of them is
  past \<open>lock\<close> or a successful \<open>try_lock\<close>, and then \<open>is_locked\<close> holds.\<close>

theorem spinlock_excludes:
  assumes "lock_reachable n (d, ps)" "i < n" "ps ! i = Critical"
  shows "is_locked d \<and> (\<forall>j < n. ps ! j = Critical \<longrightarrow> j = i)"
proof -
  have "lock_inv (d, ps)" "length ps = n" using lock_reachable_inv[OF assms(1)] by simp_all
  then show ?thesis
  proof (cases rule: lock_inv_cases)
    case free
    then show ?thesis using assms(2,3) \<open>length ps = n\<close> by (metis holder_simps(8))
  next
    case (taken k)
    then show ?thesis using assms(2,3) \<open>length ps = n\<close> unfolding is_locked_def
      by (metis and.idem holder_simps(8) one_neq_zero)
  qed
qed

text \<open>A processor alone at its instructions: from any point of \<open>lock\<close>, with the lock free, it gets in.\<close>

definition waiting :: "pc \<Rightarrow> bool" where "waiting p \<longleftrightarrow> p \<noteq> Outside \<and> p \<noteq> Critical"

inductive own_steps :: "nat \<Rightarrow> u64 \<times> pc list \<Rightarrow> u64 \<times> pc list \<Rightarrow> bool" for i where
  none: "own_steps i s s"
| more: "own_steps i s (d, ps) \<Longrightarrow> i < length ps \<Longrightarrow> waiting (ps ! i) \<Longrightarrow> instr (ps ! i) d = (p, d') \<Longrightarrow>
    own_steps i s (d', ps[i := p])"

lemma own_step:
  assumes "own_steps i s (d, ps)" "i < length ps" "waiting (ps ! i)"
  shows "own_steps i s (snd (instr (ps ! i) d), ps[i := fst (instr (ps ! i) d)])"
  by (rule own_steps.more[OF assms]) simp

lemma own_run:
  assumes "own_steps i s (0, ps)" "i < length ps" "waiting (ps ! i)" "\<not> holder (ps ! i)"
  shows "own_steps i s (1, ps[i := Critical])"
proof -
  have bts: "own_steps i s (1, qs[i := Critical])" if "own_steps i s (0, qs)" "i < length qs" "qs ! i = Bts" for qs
    using own_step[OF own_step[OF that(1,2)], unfolded that(3)] that by (simp add: waiting_def)
  have jmp: "own_steps i s (1, qs[i := Critical])" if "own_steps i s (0, qs)" "i < length qs" "qs ! i = Jmp" for qs
    using own_step[OF that(1,2)] that bts[of "qs[i := Bts]"] by (simp add: waiting_def)
  have jnz1: "own_steps i s (1, qs[i := Critical])" if "own_steps i s (0, qs)" "i < length qs" "qs ! i = Jnz True" for qs
    using own_step[OF that(1,2)] that jmp[of "qs[i := Jmp]"] by (simp add: waiting_def)
  have test: "own_steps i s (1, qs[i := Critical])" if "own_steps i s (0, qs)" "i < length qs" "qs ! i = Testq" for qs
    using own_step[OF that(1,2)] that jnz1[of "qs[i := Jnz True]"] by (simp add: waiting_def)
  have pause: "own_steps i s (1, qs[i := Critical])" if "own_steps i s (0, qs)" "i < length qs" "qs ! i = Pause" for qs
    using own_step[OF that(1,2)] that test[of "qs[i := Testq]"] by (simp add: waiting_def)
  have jnz0: "own_steps i s (1, qs[i := Critical])" if "own_steps i s (0, qs)" "i < length qs" "qs ! i = Jnz False" for qs
    using own_step[OF that(1,2)] that pause[of "qs[i := Pause]"] by (simp add: waiting_def)
  have jnc: "own_steps i s (1, qs[i := Critical])" if "own_steps i s (0, qs)" "i < length qs" "qs ! i = Jnc True" for qs
    using own_step[OF that(1,2)] that pause[of "qs[i := Pause]"] by (simp add: waiting_def)
  show ?thesis
  proof (cases "ps ! i")
    case (Jnz b)
    then show ?thesis using assms jnz0 jnz1 by (cases b) auto
  qed (use assms bts jmp test pause jnc in \<open>auto simp: waiting_def\<close>)
qed

text \<open>C35. A free lock can be had: in every reachable state in which no processor is past the lock, a processor anywhere
  in \<open>lock\<close> that goes on alone comes to hold it, whatever flags it had read before.\<close>

theorem spinlock_free_is_taken:
  assumes "lock_reachable n (d, ps)" "i < n" "waiting (ps ! i)" "\<forall>j < n. \<not> holder (ps ! j)"
  shows "own_steps i (d, ps) (1, ps[i := Critical]) \<and> lock_inv (1, ps[i := Critical])"
proof -
  have inv: "lock_inv (d, ps)" "length ps = n" using lock_reachable_inv[OF assms(1)] by simp_all
  have d: "d = 0" using inv(1) by (cases rule: lock_inv_cases) (use assms(4) inv(2) in blast)+
  have "own_steps i (d, ps) (1, ps[i := Critical])"
    using own_run[of i "(d, ps)" ps] own_steps.none[of i "(d, ps)"] assms(2-4) inv(2) d by simp
  moreover have "lock_inv (1, ps[i := Critical])" using lock_inv_take[of ps i Critical] inv assms(2) d by simp
  ultimately show ?thesis by simp
qed

lemma demo_lock_run: "lock_reachable 2 (1, [Critical, Jnc True])"
proof -
  have "lock_reachable 2 (0, [Outside, Outside])" using lock_reachable.start[of 2] by (simp add: numeral_eq_Suc)
  then have "lock_reachable 2 (0, [Bts, Outside])" using lock_reachable.step lock_step.call[of 0 "[Outside, Outside]"] by fastforce
  then have "lock_reachable 2 (0, [Bts, Bts])" using lock_reachable.step lock_step.call[of 1 "[Bts, Outside]"] by fastforce
  then have "lock_reachable 2 (1, [Jnc False, Bts])" using lock_reachable.step lock_step.instr[of 0 "[Bts, Bts]" 0] by fastforce
  then have "lock_reachable 2 (1, [Jnc False, Jnc True])" using lock_reachable.step lock_step.instr[of 1 "[Jnc False, Bts]" 1] by fastforce
  then show ?thesis using lock_reachable.step lock_step.instr[of 0 "[Jnc False, Jnc True]" 1] by fastforce
qed

lemma spinlock_excludes_witness:
  "lock_reachable 2 (1, [Critical, Jnc True]) \<and> is_locked 1 \<and> [Critical, Jnc True] ! 1 \<noteq> Critical"
  using demo_lock_run spinlock_excludes[OF demo_lock_run, of 0] by simp

lemma spinlock_free_is_taken_witness:
  "lock_reachable 2 (0, [Outside, Testq]) \<and> own_steps 1 (0, [Outside, Testq]) (1, [Outside, Critical])"
proof -
  have "lock_reachable 2 (1, [Critical, Pause])"
    using demo_lock_run lock_reachable.step lock_step.instr[of 1 "[Critical, Jnc True]" 1] by fastforce
  then have "lock_reachable 2 (1, [Critical, Testq])"
    using lock_reachable.step lock_step.instr[of 1 "[Critical, Pause]" 1] by fastforce
  then have r: "lock_reachable 2 (0, [Outside, Testq])"
    using lock_reachable.step lock_step.release[of 0 "[Critical, Testq]" 1] unfolding unlock_def by fastforce
  have "\<forall>j < 2. \<not> holder ([Outside, Testq] ! j)" by (simp add: less_2_cases_iff nth_Cons')
  then show ?thesis using r spinlock_free_is_taken[OF r, of 1] by (simp add: waiting_def)
qed

end
