(* ===== verification/Calls.thy ===== *)
theory Calls
  imports KBase
begin

text \<open>
  The assembly routines of \<^verbatim>\<open>src/high/process/process.cpp\<close>: \<open>enter\<close>, which switches from one execution context to
  another, and \<open>call_indirect\<close>, which calls a function with the arguments of an array.  The machine has the general
  registers and a memory of 64-bit words, of which these routines use only whole words.
\<close>

section \<open>The machine\<close>

datatype reg = RAX | RBX | RCX | RDX | RBP | RSI | RDI | R8 | R9 | R10 | R11 | R12 | R13 | R14 | R15 | RSP

record machine =
  regs :: "reg \<Rightarrow> u64"
  words :: "u64 \<Rightarrow> u64"

definition get_reg :: "reg \<Rightarrow> machine \<Rightarrow> u64" where "get_reg r m = regs m r"
definition set_reg :: "reg \<Rightarrow> u64 \<Rightarrow> machine \<Rightarrow> machine" where "set_reg r v m = m\<lparr>regs := (regs m)(r := v)\<rparr>"
definition get_word :: "u64 \<Rightarrow> machine \<Rightarrow> u64" where "get_word a m = words m a"
definition set_word :: "u64 \<Rightarrow> u64 \<Rightarrow> machine \<Rightarrow> machine" where "set_word a v m = m\<lparr>words := (words m)(a := v)\<rparr>"

definition push_word :: "u64 \<Rightarrow> machine \<Rightarrow> machine" where
  "push_word v m = (let a = get_reg RSP m - 8 in set_word a v (set_reg RSP a m))"

definition push :: "reg \<Rightarrow> machine \<Rightarrow> machine" where "push r m = push_word (get_reg r m) m"

definition pop :: "reg \<Rightarrow> machine \<Rightarrow> machine" where
  "pop r m = (let a = get_reg RSP m in set_reg r (get_word a m) (set_reg RSP (a + 8) m))"

section \<open>Switching contexts\<close>

text \<open>
  \<open>enter\<close>: the operands are in \<open>rax\<close> (stack), \<open>rbx\<close> (code), \<open>rcx\<close> and \<open>rdx\<close> (where to keep the old ones); the result
  is the machine and the address that it jumps to.  \<open>continue_from_here\<close> is the address of the second half.
\<close>

definition saved_registers :: "reg list" where
  "saved_registers = [RAX, RBX, RCX, RDX, RBP, RSI, RDI, R8, R9, R10, R11, R12, R13, R14, R15]"

definition enter :: "u64 \<Rightarrow> machine \<Rightarrow> machine \<times> u64" where
  "enter continue_from_here m =
     (let m1 = fold push saved_registers m;
          m2 = set_word (get_reg RCX m1) (get_reg RSP m1) m1;
          m3 = set_reg R15 continue_from_here m2;
          m4 = set_word (get_reg RDX m3) (get_reg R15 m3) m3;
          m5 = set_reg RSP (get_reg RAX m4) m4
      in (m5, get_reg RBX m5))"

definition continue_here :: "machine \<Rightarrow> machine" where
  "continue_here m = fold pop (rev saved_registers) m"

section \<open>Calling with an array of arguments\<close>

text \<open>\<open>call_indirect(function, arguments, count)\<close>: the operands are in \<open>rdi\<close>, \<open>rsi\<close>, \<open>rdx\<close>.\<close>

definition ci_enter :: "machine \<Rightarrow> machine" where
  "ci_enter m =
     (let m1 = push RBP m; m2 = set_reg RBP (get_reg RSP m1) m1; m3 = push R15 m2
      in set_reg R15 (get_reg RDX m3) m3)"

definition ci_align :: "machine \<Rightarrow> machine" where
  "ci_align m =
     (if get_reg RDX m AND 1 = 0 then m
      else if get_reg RDX m \<le>s 6 then m
      else set_reg RSP (get_reg RSP m - 8) m)"

function ci_push :: "machine \<Rightarrow> machine" where
  "ci_push m =
     (if get_reg RDX m \<le>s 6 then m
      else
        let m1 = set_reg RAX (get_word (get_reg RSI m + get_reg RDX m * 8 - 8) m) m;
            m2 = push RAX m1
        in ci_push (set_reg RDX (get_reg RDX m2 - 1) m2))"
  by pat_completeness auto

definition ci_registers :: "machine \<Rightarrow> machine" where
  "ci_registers m0 =
     (let m = set_reg RAX (get_reg RDI m0) m0;
          m = set_reg RDI (get_reg RSI m) m;
          n = get_reg R15 m;
          m = (if n \<le>s 5 then m else set_reg R9 (get_word (get_reg RDI m + 40) m) m);
          m = (if n \<le>s 4 then m else set_reg R8 (get_word (get_reg RDI m + 32) m) m);
          m = (if n \<le>s 3 then m else set_reg RCX (get_word (get_reg RDI m + 24) m) m);
          m = (if n \<le>s 2 then m else set_reg RDX (get_word (get_reg RDI m + 16) m) m);
          m = (if n \<le>s 1 then m else set_reg RSI (get_word (get_reg RDI m + 8) m) m)
      in if n \<le>s 0 then m else set_reg RDI (get_word (get_reg RDI m) m) m)"

definition ci_cleanup :: "machine \<Rightarrow> machine" where
  "ci_cleanup m =
     (if get_reg R15 m \<le>s 6 then m
      else
        let m1 = set_reg R15 (get_reg R15 m - 6) m;
            m2 = (if get_reg R15 m1 AND 1 = 0 then m1 else set_reg R15 (get_reg R15 m1 + 1) m1);
            m3 = set_reg R15 (push_bit 3 (get_reg R15 m2)) m2
        in set_reg RSP (get_reg RSP m3 + get_reg R15 m3) m3)"

text \<open>Up to the call, and the whole routine around a callee; the return address is pushed for the callee and popped by it.\<close>

lemma get_set_reg [simp]: "get_reg r (set_reg s v m) = (if r = s then v else get_reg r m)"
  by (simp add: get_reg_def set_reg_def)

lemma get_set_word [simp]: "get_word a (set_word b v m) = (if a = b then v else get_word a m)"
  by (simp add: get_word_def set_word_def)

lemma get_set_other [simp]: "get_reg r (set_word a v m) = get_reg r m" "get_word a (set_reg r v m) = get_word a m"
  by (simp_all add: get_reg_def get_word_def set_reg_def set_word_def)

lemma push_simps [simp]:
  "get_reg r (push_word v m) = (if r = RSP then get_reg RSP m - 8 else get_reg r m)"
  "get_word a (push_word v m) = (if a = get_reg RSP m - 8 then v else get_word a m)"
  by (simp_all add: push_word_def Let_def)

lemma sint_pred: "(6 :: u64) <s x \<Longrightarrow> sint (x - 1) = sint x - 1"
proof -
  assume "(6 :: u64) <s x"
  then have "6 < sint x" by (simp add: word_sless_alt)
  moreover have "sint x < 2 ^ 63" using sint_less[of x] by simp
  ultimately show ?thesis by (simp add: sint_word_ariths signed_take_bit_int_eq_self)
qed

termination ci_push
proof (relation "measure (\<lambda>m. nat (sint (get_reg RDX m)))")
  fix m m1 m2
  assume "\<not> get_reg RDX m \<le>s 6" "m1 = set_reg RAX (get_word (get_reg RSI m + get_reg RDX m * 8 - 8) m) m" "m2 = push RAX m1"
  then show "(set_reg RDX (get_reg RDX m2 - 1) m2, m) \<in> measure (\<lambda>m. nat (sint (get_reg RDX m)))"
    using sint_pred[of "get_reg RDX m"] by (simp add: push_def word_sle_eq word_sless_alt)
qed simp

declare ci_push.simps [simp del]

definition ci_setup :: "machine \<Rightarrow> machine" where
  "ci_setup m = ci_registers (ci_push (ci_align (ci_enter m)))"

definition call_indirect :: "u64 \<Rightarrow> (u64 \<Rightarrow> machine \<Rightarrow> machine) \<Rightarrow> machine \<Rightarrow> machine" where
  "call_indirect return_address callee m =
     (let m1 = ci_setup m;
          m2 = callee (get_reg RAX m1) (push_word return_address m1);
          m3 = ci_cleanup m2
      in pop RBP (pop R15 m3))"

section \<open>What the callee is given\<close>

lemma push_reg [simp]:
  "get_reg r (push s m) = (if r = RSP then get_reg RSP m - 8 else get_reg r m)"
  "get_word a (push s m) = (if a = get_reg RSP m - 8 then get_reg s m else get_word a m)"
  by (simp_all add: push_def)

lemma pop_reg [simp]:
  "r \<noteq> RSP \<Longrightarrow> get_reg s (pop r m) = (if s = r then get_word (get_reg RSP m) m else if s = RSP then get_reg RSP m + 8 else get_reg s m)"
  "get_word a (pop r m) = get_word a m"
  by (auto simp: pop_def Let_def)

lemma small_sint: "unat (n :: u64) < 2 ^ 63 \<Longrightarrow> sint n = int (unat n)"
proof -
  assume "unat n < 2 ^ 63"
  then have "int (unat n) < 2 ^ 63" by (metis of_nat_less_iff of_nat_numeral of_nat_power)
  moreover have "(0 :: int) \<le> int (unat n)" by simp
  ultimately have "signed_take_bit 63 (int (unat n)) = int (unat n)" by (intro signed_take_bit_int_eq_self) linarith+
  then show ?thesis by (simp add: sint_uint)
qed

lemma small_sle: "unat (n :: u64) < 2 ^ 63 \<Longrightarrow> unat (c :: u64) < 2 ^ 63 \<Longrightarrow> n \<le>s c \<longleftrightarrow> unat n \<le> unat c"
  by (simp only: word_sle_eq small_sint of_nat_le_iff)

text \<open>The slots of the stack below an address.\<close>

lemma slot_down: "a - 8 * of_nat j - 8 = (a :: u64) - 8 * of_nat (Suc j)"
  by simp

lemma ci_push_result:
  assumes "unat (get_reg RDX m) = k + 6" "k + 6 < 2 ^ 60"
    and apart: "\<And>i j. i < k + 6 \<Longrightarrow> 0 < j \<Longrightarrow> j \<le> k \<Longrightarrow> get_reg RSI m + 8 * of_nat i \<noteq> get_reg RSP m - 8 * of_nat j"
  shows "get_reg RSP (ci_push m) = get_reg RSP m - 8 * of_nat k \<and>
    (\<forall>r. r \<noteq> RAX \<and> r \<noteq> RDX \<and> r \<noteq> RSP \<longrightarrow> get_reg r (ci_push m) = get_reg r m) \<and>
    (\<forall>a. (\<forall>j. 0 < j \<and> j \<le> k \<longrightarrow> a \<noteq> get_reg RSP m - 8 * of_nat j) \<longrightarrow> get_word a (ci_push m) = get_word a m) \<and>
    (\<forall>j. 0 < j \<and> j \<le> k \<longrightarrow> get_word (get_reg RSP m - 8 * of_nat j) (ci_push m) = get_word (get_reg RSI m + 8 * of_nat (k + 6 - j)) m)"
  using assms
proof (induction k arbitrary: m)
  case 0
  then have "get_reg RDX m = 6" by (simp add: word_cong_unat)
  then show ?case by (simp add: ci_push.simps[of m])
next
  case (Suc k)
  let ?T = "get_reg RSP m" and ?A = "get_reg RSI m"
  have gt: "\<not> get_reg RDX m \<le>s 6" using Suc.prems(1,2) by (subst small_sle) simp_all
  have rdx: "get_reg RDX m = of_nat (k + 7)" using Suc.prems(1) by (intro word_eq_of_nat) simp
  have addr: "?A + get_reg RDX m * 8 - 8 = ?A + 8 * of_nat (k + 6)" unfolding rdx by simp
  define m1 where "m1 = set_reg RDX (get_reg RDX m - 1) (push RAX (set_reg RAX (get_word (?A + 8 * of_nat (k + 6)) m) m))"
  have step: "ci_push m = ci_push m1" using gt by (subst ci_push.simps) (simp add: Let_def m1_def addr)
  have r: "get_reg RSP m1 = ?T - 8" "get_reg RSI m1 = ?A" "\<And>r. r \<noteq> RAX \<Longrightarrow> r \<noteq> RDX \<Longrightarrow> r \<noteq> RSP \<Longrightarrow> get_reg r m1 = get_reg r m"
    "\<And>a. get_word a m1 = (if a = ?T - 8 then get_word (?A + 8 * of_nat (k + 6)) m else get_word a m)"
    by (simp_all add: m1_def)
  have "get_reg RDX m1 = of_nat (k + 6)" by (simp add: m1_def rdx)
  then have d: "unat (get_reg RDX m1) = k + 6" using Suc.prems(2) by (simp add: unat_of_nat_u64 del: of_nat_add)
  have t: "?T - 8 - 8 * of_nat j = ?T - 8 * of_nat (Suc j)" for j by simp
  have "get_reg RSI m1 + 8 * of_nat i \<noteq> get_reg RSP m1 - 8 * of_nat j" if "i < k + 6" "0 < j" "j \<le> k" for i j
    unfolding r t using Suc.prems(3)[of i "Suc j"] that by simp
  note IH = Suc.IH[OF d _ this, unfolded r(1,2) t]
  have IH: "get_reg RSP (ci_push m1) = ?T - 8 * of_nat (Suc k)"
    "\<forall>r. r \<noteq> RAX \<and> r \<noteq> RDX \<and> r \<noteq> RSP \<longrightarrow> get_reg r (ci_push m1) = get_reg r m1"
    "\<forall>a. (\<forall>j. 0 < j \<and> j \<le> k \<longrightarrow> a \<noteq> ?T - 8 * of_nat (Suc j)) \<longrightarrow> get_word a (ci_push m1) = get_word a m1"
    "\<forall>j. 0 < j \<and> j \<le> k \<longrightarrow> get_word (?T - 8 * of_nat (Suc j)) (ci_push m1) = get_word (?A + 8 * of_nat (k + 6 - j)) m1"
    using IH Suc.prems(2) by auto
  have first: "get_word (?T - 8) (ci_push m1) = get_word (?A + 8 * of_nat (k + 6)) m"
  proof -
    have "?T - 8 \<noteq> ?T - 8 * of_nat (Suc j)" if "0 < j" "j \<le> k" for j
    proof
      assume "?T - 8 = ?T - 8 * of_nat (Suc j)"
      then have "(8 :: u64) * of_nat (Suc j) = 8" by (simp add: algebra_simps)
      then have "unat ((8 :: u64) * of_nat (Suc j)) = 8" by simp
      moreover have "unat ((8 :: u64) * of_nat (Suc j)) = 8 * Suc j"
        using that Suc.prems(2) by (subst unat_mult_u64) (simp_all add: unat_of_nat_u64 del: of_nat_Suc)
      ultimately show False using that by simp
    qed
    then show ?thesis using IH(3) r(4) by simp
  qed
  have other: "get_word (?A + 8 * of_nat i) m1 = get_word (?A + 8 * of_nat i) m" if "i < k + 7" for i
    using Suc.prems(3)[of i 1] that by (simp add: r(4))
  show ?case unfolding step
  proof (intro conjI allI impI)
    show "get_reg RSP (ci_push m1) = ?T - 8 * of_nat (Suc k)" by (rule IH(1))
    show "get_reg q (ci_push m1) = get_reg q m" if "q \<noteq> RAX \<and> q \<noteq> RDX \<and> q \<noteq> RSP" for q
      using IH(2) r(3) that by simp
    show "get_word a (ci_push m1) = get_word a m" if "\<forall>j. 0 < j \<and> j \<le> Suc k \<longrightarrow> a \<noteq> ?T - 8 * of_nat j" for a
    proof -
      have "a \<noteq> ?T - 8" using that[rule_format, of 1] by simp
      moreover have "\<forall>j. 0 < j \<and> j \<le> k \<longrightarrow> a \<noteq> ?T - 8 * of_nat (Suc j)" using that by (metis Suc_le_mono zero_less_Suc)
      ultimately show ?thesis using IH(3) r(4) by presburger
    qed
    show "get_word (?T - 8 * of_nat j) (ci_push m1) = get_word (?A + 8 * of_nat (Suc k + 6 - j)) m" if "0 < j \<and> j \<le> Suc k" for j
    proof (cases "j = 1")
      case True
      then show ?thesis using first by (simp add: add.commute)
    next
      case False
      with that obtain i where i: "j = Suc i" "0 < i" "i \<le> k" by (cases j) auto
      then have "get_word (?T - 8 * of_nat j) (ci_push m1) = get_word (?A + 8 * of_nat (k + 6 - i)) m1" using IH(4) by blast
      also have "\<dots> = get_word (?A + 8 * of_nat (k + 6 - i)) m" using i by (intro other) simp
      also have "k + 6 - i = Suc k + 6 - j" using i(1) by simp
      finally show ?thesis .
    qed
  qed
qed

lemma ci_push_few: "unat (get_reg RDX m) \<le> 6 \<Longrightarrow> ci_push m = m"
  using small_sle[of "get_reg RDX m" 6] by (simp add: ci_push.simps[of m])

definition argument_registers :: "reg list" where "argument_registers = [RDI, RSI, RDX, RCX, R8, R9]"

text \<open>The words that the routine takes from the stack for \<open>n\<close> arguments.\<close>

definition stack_words :: "nat \<Rightarrow> nat" where
  "stack_words n = 2 + (if n \<le> 6 then 0 else n - 6 + n mod 2)"

lemma ci_registers_result:
  assumes "unat (get_reg R15 m) = n" "n < 2 ^ 60"
  shows "get_reg RAX (ci_registers m) = get_reg RDI m" "get_reg RSP (ci_registers m) = get_reg RSP m"
    "get_word a (ci_registers m) = get_word a m" "get_reg R15 (ci_registers m) = get_reg R15 m"
    "n > 5 \<Longrightarrow> get_reg R9 (ci_registers m) = get_word (get_reg RSI m + 40) m"
    "n > 4 \<Longrightarrow> get_reg R8 (ci_registers m) = get_word (get_reg RSI m + 32) m"
    "n > 3 \<Longrightarrow> get_reg RCX (ci_registers m) = get_word (get_reg RSI m + 24) m"
    "n > 2 \<Longrightarrow> get_reg RDX (ci_registers m) = get_word (get_reg RSI m + 16) m"
    "n > 1 \<Longrightarrow> get_reg RSI (ci_registers m) = get_word (get_reg RSI m + 8) m"
    "n > 0 \<Longrightarrow> get_reg RDI (ci_registers m) = get_word (get_reg RSI m) m"
proof -
  have s: "get_reg R15 m \<le>s c \<longleftrightarrow> n \<le> unat c" if "unat c < 2 ^ 63" for c
    using small_sle[of "get_reg R15 m" c] assms that by simp
  have c: "get_reg R15 m \<le>s 5 \<longleftrightarrow> n \<le> 5" "get_reg R15 m \<le>s 4 \<longleftrightarrow> n \<le> 4" "get_reg R15 m \<le>s 3 \<longleftrightarrow> n \<le> 3"
    "get_reg R15 m \<le>s 2 \<longleftrightarrow> n \<le> 2" "get_reg R15 m \<le>s 1 \<longleftrightarrow> n \<le> 1" "get_reg R15 m \<le>s 0 \<longleftrightarrow> n = 0"
    using s[of 5] s[of 4] s[of 3] s[of 2] s[of 1] s[of 0] by simp_all
  note d = ci_registers_def Let_def if_distrib[of "get_reg _"] if_distrib[of "get_word _"]
  show "get_reg RAX (ci_registers m) = get_reg RDI m" by (simp add: d c)
  show "get_reg RSP (ci_registers m) = get_reg RSP m" by (simp add: d c)
  show "get_word a (ci_registers m) = get_word a m" by (simp add: d c)
  show "get_reg R15 (ci_registers m) = get_reg R15 m" by (simp add: d c)
  show "n > 5 \<Longrightarrow> get_reg R9 (ci_registers m) = get_word (get_reg RSI m + 40) m" by (simp add: d c)
  show "n > 4 \<Longrightarrow> get_reg R8 (ci_registers m) = get_word (get_reg RSI m + 32) m" by (simp add: d c)
  show "n > 3 \<Longrightarrow> get_reg RCX (ci_registers m) = get_word (get_reg RSI m + 24) m" by (simp add: d c)
  show "n > 2 \<Longrightarrow> get_reg RDX (ci_registers m) = get_word (get_reg RSI m + 16) m" by (simp add: d c)
  show "n > 1 \<Longrightarrow> get_reg RSI (ci_registers m) = get_word (get_reg RSI m + 8) m" by (simp add: d c)
  show "n > 0 \<Longrightarrow> get_reg RDI (ci_registers m) = get_word (get_reg RSI m) m" by (simp add: d c)
qed

text \<open>The state before the loop: two words saved, one more left free for an odd number of stack arguments.\<close>

lemma ci_entered:
  assumes "unat (get_reg RDX m) = n" "n < 2 ^ 60"
  defines "m1 \<equiv> ci_align (ci_enter m)"
  shows "get_reg RSP m1 = get_reg RSP m - 8 * of_nat (2 + (if n \<le> 6 then 0 else n mod 2))"
    "get_reg R15 m1 = get_reg RDX m" "get_reg RDX m1 = get_reg RDX m" "get_reg RSI m1 = get_reg RSI m" "get_reg RDI m1 = get_reg RDI m"
    "get_word (get_reg RSP m - 8) m1 = get_reg RBP m" "get_word (get_reg RSP m - 16) m1 = get_reg R15 m"
    "a \<noteq> get_reg RSP m - 8 \<Longrightarrow> a \<noteq> get_reg RSP m - 16 \<Longrightarrow> get_word a m1 = get_word a m"
proof -
  have odd: "get_reg RDX m AND 1 = 0 \<longleftrightarrow> n mod 2 = 0"
    using assms(1) by (simp add: and_one_eq word_cong_unat unat_mod even_iff_mod_2_eq_zero[symmetric])
  have le: "get_reg RDX m \<le>s 6 \<longleftrightarrow> n \<le> 6" using small_sle[of "get_reg RDX m" 6] assms by simp
  show "get_reg RSP m1 = get_reg RSP m - 8 * of_nat (2 + (if n \<le> 6 then 0 else n mod 2))"
    "get_reg R15 m1 = get_reg RDX m" "get_reg RDX m1 = get_reg RDX m" "get_reg RSI m1 = get_reg RSI m" "get_reg RDI m1 = get_reg RDI m"
    "get_word (get_reg RSP m - 8) m1 = get_reg RBP m" "get_word (get_reg RSP m - 16) m1 = get_reg R15 m"
    "a \<noteq> get_reg RSP m - 8 \<Longrightarrow> a \<noteq> get_reg RSP m - 16 \<Longrightarrow> get_word a m1 = get_word a m"
    using odd le by (auto simp: m1_def ci_align_def ci_enter_def Let_def not_mod_2_eq_0_eq_1)
qed

lemma less_numeral_6: "(i :: nat) < 6 \<longleftrightarrow> i = 0 \<or> i = 1 \<or> i = 2 \<or> i = 3 \<or> i = 4 \<or> i = 5" by auto

lemma ci_setup_result:
  assumes n: "unat (get_reg RDX m) = n" "n < 2 ^ 60"
    and apart: "\<And>i j. i < n \<Longrightarrow> 0 < j \<Longrightarrow> j \<le> stack_words n \<Longrightarrow>
      get_reg RSI m + 8 * of_nat i \<noteq> get_reg RSP m - 8 * of_nat j"
    and low: "\<And>j. 2 < j \<Longrightarrow> j \<le> stack_words n \<Longrightarrow> get_reg RSP m - 8 * of_nat j \<noteq> get_reg RSP m - 8 \<and>
      get_reg RSP m - 8 * of_nat j \<noteq> get_reg RSP m - 16"
  shows "get_reg RSP (ci_setup m) = get_reg RSP m - 8 * of_nat (stack_words n)"
    "get_reg RAX (ci_setup m) = get_reg RDI m"
    "get_reg R15 (ci_setup m) = get_reg RDX m"
    "get_word (get_reg RSP m - 8) (ci_setup m) = get_reg RBP m"
    "get_word (get_reg RSP m - 16) (ci_setup m) = get_reg R15 m"
    "i < n \<Longrightarrow> i < 6 \<Longrightarrow> get_reg (argument_registers ! i) (ci_setup m) = get_word (get_reg RSI m + 8 * of_nat i) m"
    "i < n \<Longrightarrow> 6 \<le> i \<Longrightarrow> get_word (get_reg RSP (ci_setup m) + 8 * of_nat (i - 6)) (ci_setup m) =
      get_word (get_reg RSI m + 8 * of_nat i) m"
proof -
  let ?T = "get_reg RSP m" and ?R = "get_reg RSI m"
  define m1 where "m1 = ci_align (ci_enter m)"
  define m2 where "m2 = ci_push m1"
  have su: "ci_setup m = ci_registers m2" by (simp add: ci_setup_def m1_def m2_def)
  note e = ci_entered[OF n, folded m1_def]
  have args1: "get_word (?R + 8 * of_nat i) m1 = get_word (?R + 8 * of_nat i) m" if "i < n" for i
    using apart[OF that, of 1] apart[OF that, of 2] by (intro e(8)) (simp_all add: stack_words_def)
  have m2: "get_reg RSP m2 = ?T - 8 * of_nat (stack_words n) \<and> get_reg RSI m2 = ?R \<and> get_reg RDI m2 = get_reg RDI m \<and>
    get_reg R15 m2 = get_reg RDX m \<and> get_word (?T - 8) m2 = get_reg RBP m \<and> get_word (?T - 16) m2 = get_reg R15 m \<and>
    (\<forall>i<n. get_word (?R + 8 * of_nat i) m2 = get_word (?R + 8 * of_nat i) m) \<and>
    (\<forall>i. 6 \<le> i \<and> i < n \<longrightarrow> get_word (?T - 8 * of_nat (stack_words n) + 8 * of_nat (i - 6)) m2 = get_word (?R + 8 * of_nat i) m)"
  proof (cases "n \<le> 6")
    case True
    then have "m2 = m1" using e(3) n(1) by (simp add: m2_def ci_push_few)
    then show ?thesis using e True args1 by (auto simp: stack_words_def)
  next
    case False
    define k where "k = n - 6"
    have k: "n = k + 6" "0 < k" using False by (simp_all add: k_def)
    have slot: "get_reg RSP m1 - 8 * of_nat j = ?T - 8 * of_nat (2 + n mod 2 + j)" for j
      using e(1) False by (simp add: algebra_simps)
    have sw: "stack_words n = 2 + n mod 2 + k" using False by (simp add: stack_words_def k_def)
    have rdx: "unat (get_reg RDX m1) = k + 6" using e(3) n(1) k by simp
    have "get_reg RSI m1 + 8 * of_nat i \<noteq> get_reg RSP m1 - 8 * of_nat j" if "i < k + 6" "0 < j" "j \<le> k" for i j
      unfolding slot e(4) using that k sw by (intro apart) simp_all
    note r = ci_push_result[OF rdx _ this, folded m2_def, unfolded slot e(4)]
    have r: "get_reg RSP m2 = ?T - 8 * of_nat (2 + n mod 2 + k)"
      "\<And>r. r \<noteq> RAX \<Longrightarrow> r \<noteq> RDX \<Longrightarrow> r \<noteq> RSP \<Longrightarrow> get_reg r m2 = get_reg r m1"
      "\<And>a. (\<And>j. 0 < j \<Longrightarrow> j \<le> k \<Longrightarrow> a \<noteq> ?T - 8 * of_nat (2 + n mod 2 + j)) \<Longrightarrow> get_word a m2 = get_word a m1"
      "\<And>j. 0 < j \<Longrightarrow> j \<le> k \<Longrightarrow> get_word (?T - 8 * of_nat (2 + n mod 2 + j)) m2 = get_word (?R + 8 * of_nat (k + 6 - j)) m1"
      using r n(2) k(1) by blast+
    have a: "get_word (?R + 8 * of_nat i) m2 = get_word (?R + 8 * of_nat i) m" if "i < n" for i
    proof -
      have "get_word (?R + 8 * of_nat i) m2 = get_word (?R + 8 * of_nat i) m1"
        using that sw by (intro r(3) apart) simp_all
      then show ?thesis using args1[OF that] by simp
    qed
    have s: "get_word (?T - 8 * of_nat (stack_words n) + 8 * of_nat (i - 6)) m2 = get_word (?R + 8 * of_nat i) m"
      if "6 \<le> i \<and> i < n" for i
    proof -
      define d where "d = i - 6"
      have d: "i = d + 6" "d < k" using that k unfolding d_def by linarith+
      have "stack_words n = (2 + n mod 2 + (k - d)) + d" using d(2) sw by simp
      then have "?T - 8 * of_nat (stack_words n) + 8 * of_nat d = ?T - 8 * of_nat (2 + n mod 2 + (k - d))"
        by (simp only: of_nat_add[of _ d] distrib_left diff_diff_eq[symmetric] diff_add_cancel)
      then have "?T - 8 * of_nat (stack_words n) + 8 * of_nat (i - 6) = ?T - 8 * of_nat (2 + n mod 2 + (k - d))"
        by (simp only: d_def)
      then have "get_word (?T - 8 * of_nat (stack_words n) + 8 * of_nat (i - 6)) m2 = get_word (?R + 8 * of_nat (k + 6 - (k - d))) m1"
        using d(2) by (simp only:) (intro r(4), simp_all)
      also have "k + 6 - (k - d) = i" using d by simp
      finally show ?thesis using args1 that by simp
    qed
    have "get_word (?T - 8) m2 = get_reg RBP m"
      unfolding e(6)[symmetric] using sw by (intro r(3) low[THEN conjunct1, symmetric]) simp_all
    moreover have "get_word (?T - 16) m2 = get_reg R15 m"
      unfolding e(7)[symmetric] using sw by (intro r(3) low[THEN conjunct2, symmetric]) simp_all
    ultimately show ?thesis using r(1,2) e(2,4,5) a s sw by simp
  qed
  have w: "j < n \<Longrightarrow> get_word (?R + 8 * of_nat j) m2 = get_word (?R + 8 * of_nat j) m" for j using m2 by blast
  have rsi: "get_reg RSI m2 = ?R" using m2 by blast
  have r15: "unat (get_reg R15 m2) = n" using m2 n(1) by simp
  note c = ci_registers_result[OF r15 n(2), folded su]
  show "get_reg RSP (ci_setup m) = get_reg RSP m - 8 * of_nat (stack_words n)"
    "get_reg RAX (ci_setup m) = get_reg RDI m" "get_reg R15 (ci_setup m) = get_reg RDX m"
    "get_word (get_reg RSP m - 8) (ci_setup m) = get_reg RBP m"
    "get_word (get_reg RSP m - 16) (ci_setup m) = get_reg R15 m" using c(1-4) m2 by simp_all
  show "i < n \<Longrightarrow> 6 \<le> i \<Longrightarrow> get_word (get_reg RSP (ci_setup m) + 8 * of_nat (i - 6)) (ci_setup m) =
      get_word (get_reg RSI m + 8 * of_nat i) m" using c(2,3) m2 by simp
  show "get_reg (argument_registers ! i) (ci_setup m) = get_word (get_reg RSI m + 8 * of_nat i) m" if "i < n" "i < 6"
    using that unfolding less_numeral_6 using c(5-10) w[of 0] w[of 1] w[of 2] w[of 3] w[of 4] w[of 5] rsi
    by (elim disjE) (simp_all add: argument_registers_def)
qed


lemma same_below: "(x :: u64) - y = x - z \<Longrightarrow> y = z" by simp

lemma slot_distinct: "(T :: u64) - 8 * of_nat i \<noteq> T - 8 * of_nat j" if "i < j" "j < 2 ^ 61"
proof
  assume "T - 8 * of_nat i = T - 8 * of_nat j"
  then have "8 * (of_nat i :: u64) = 8 * of_nat j" by (rule same_below)
  then have e: "(of_nat (8 * i) :: u64) = of_nat (8 * j)" by (simp only: of_nat_mult of_nat_numeral)
  have "8 * i = unat (of_nat (8 * i) :: u64)" by (rule unat_of_nat_u64[symmetric]) (use that in simp)
  also have "\<dots> = unat (of_nat (8 * j) :: u64)" by (rule arg_cong[OF e])
  also have "\<dots> = 8 * j" by (rule unat_of_nat_u64) (use that in simp)
  finally show False using that(1) by simp
qed

lemma stack_words_bound: "n < 2 ^ 60 \<Longrightarrow> stack_words n < 2 ^ 61"
proof -
  assume "n < 2 ^ 60"
  moreover have "stack_words n \<le> 3 + n" by (auto simp: stack_words_def)
  ultimately show ?thesis by simp
qed

lemma even_stack_words: "even (stack_words n)"
  unfolding stack_words_def by presburger

lemma stack_words_freed: "(x :: u64) - 8 * of_nat (stack_words n) + 8 * of_nat (stack_words n - 2) = x - 16"
  by (simp add: stack_words_def algebra_simps)

lemma ci_cleanup_result:
  assumes "unat (get_reg R15 m) = n" "n < 2 ^ 60"
  shows "get_reg RSP (ci_cleanup m) = get_reg RSP m + 8 * of_nat (stack_words n - 2)"
    "r \<noteq> R15 \<Longrightarrow> r \<noteq> RSP \<Longrightarrow> get_reg r (ci_cleanup m) = get_reg r m"
    "get_word a (ci_cleanup m) = get_word a m"
proof -
  have le: "get_reg R15 m \<le>s 6 \<longleftrightarrow> n \<le> 6" using small_sle[of "get_reg R15 m" 6] assms by simp
  have w: "get_reg R15 m = of_nat n" using assms(1) by (intro word_eq_of_nat)
  have even: "get_reg R15 m - 6 AND 1 = 0 \<longleftrightarrow> n mod 2 = 0" if "6 < n"
  proof -
    have "get_reg R15 m - 6 = of_nat (n - 6)" using that by (simp add: w of_nat_diff)
    moreover have "unat (of_nat (n - 6) :: u64) = n - 6" using assms(2) by (intro unat_of_nat_u64) simp
    ultimately have "get_reg R15 m - 6 AND 1 = 0 \<longleftrightarrow> (n - 6) mod 2 = 0"
      by (simp add: and_one_eq word_cong_unat unat_mod even_iff_mod_2_eq_zero[symmetric])
    then show ?thesis using that by presburger
  qed
  have shift: "push_bit 3 (of_nat k :: u64) = 8 * of_nat k" for k by (simp add: push_bit_eq_mult)
  show "get_reg RSP (ci_cleanup m) = get_reg RSP m + 8 * of_nat (stack_words n - 2)"
  proof (cases "n \<le> 6")
    case True then show ?thesis by (simp add: ci_cleanup_def le stack_words_def)
  next
    case False
    then have v: "get_reg R15 m - 6 = of_nat (n - 6)" by (simp add: w of_nat_diff)
    have "(if get_reg R15 m - 6 AND 1 = 0 then get_reg R15 m - 6 else get_reg R15 m - 6 + 1) = of_nat (n - 6 + n mod 2)"
      using even False unfolding v by (simp add: not_mod_2_eq_0_eq_1)
    then have "get_reg RSP (ci_cleanup m) = get_reg RSP m + push_bit 3 (of_nat (n - 6 + n mod 2))"
      using False by (simp only: ci_cleanup_def le Let_def if_False get_set_reg if_distrib[of "get_reg _"] if_True simp_thms reg.distinct refl if_cancel)
    also have "stack_words n - 2 = n - 6 + n mod 2" using False by (simp add: stack_words_def)
    ultimately show ?thesis by (simp only: shift)
  qed
  show "r \<noteq> R15 \<Longrightarrow> r \<noteq> RSP \<Longrightarrow> get_reg r (ci_cleanup m) = get_reg r m" "get_word a (ci_cleanup m) = get_word a m"
    by (simp_all add: ci_cleanup_def Let_def)
qed

section \<open>Properties\<close>

text \<open>C16. \<open>call_indirect\<close> passes its arguments the way the System V calling convention has them: at the call instruction
  the function is in \<open>rax\<close>, the first six words of the array are in \<open>rdi\<close>, \<open>rsi\<close>, \<open>rdx\<close>, \<open>rcx\<close>, \<open>r8\<close>, \<open>r9\<close> and the
  others are on the top of the stack in order, for any number of arguments, as long as the array does not overlap the part
  of the stack that the routine uses.\<close>

theorem call_indirect_passes_arguments:
  assumes "unat (get_reg RDX m) = n" "n < 2 ^ 60"
    and "\<And>i j. i < n \<Longrightarrow> 0 < j \<Longrightarrow> j \<le> stack_words n \<Longrightarrow> get_reg RSI m + 8 * of_nat i \<noteq> get_reg RSP m - 8 * of_nat j"
  shows "get_reg RAX (ci_setup m) = get_reg RDI m \<and>
    get_reg RSP (ci_setup m) = get_reg RSP m - 8 * of_nat (stack_words n) \<and>
    (\<forall>i<min n 6. get_reg (argument_registers ! i) (ci_setup m) = get_word (get_reg RSI m + 8 * of_nat i) m) \<and>
    (\<forall>i. 6 \<le> i \<and> i < n \<longrightarrow>
      get_word (get_reg RSP (ci_setup m) + 8 * of_nat (i - 6)) (ci_setup m) = get_word (get_reg RSI m + 8 * of_nat i) m)"
proof -
  have low: "get_reg RSP m - 8 * of_nat j \<noteq> get_reg RSP m - 8 \<and> get_reg RSP m - 8 * of_nat j \<noteq> get_reg RSP m - 16"
    if "2 < j" "j \<le> stack_words n" for j
    using slot_distinct[of 1 j "get_reg RSP m"] slot_distinct[of 2 j "get_reg RSP m"] stack_words_bound[OF assms(2)] that by auto
  note r = ci_setup_result[OF assms(1,2) assms(3) low]
  show ?thesis using r(1,2,6,7) by auto
qed

text \<open>C34. \<open>call_indirect\<close> gives the machine back: for a callee that returns (its return address is popped), keeps \<open>r15\<close> as
  the convention asks, and leaves the two words that were saved below the caller's stack pointer alone, the caller's
  \<open>rsp\<close>, \<open>rbp\<close> and \<open>r15\<close> are what they were, and the other registers and the memory are as the callee left them.\<close>

theorem call_indirect_restores:
  assumes "unat (get_reg RDX m) = n" "n < 2 ^ 60"
    and "\<And>i j. i < n \<Longrightarrow> 0 < j \<Longrightarrow> j \<le> stack_words n \<Longrightarrow> get_reg RSI m + 8 * of_nat i \<noteq> get_reg RSP m - 8 * of_nat j"
    and m1_def: "m1 = ci_setup m" and m2_def: "m2 = callee (get_reg RAX m1) (push_word return_address m1)"
    and callee: "get_reg RSP m2 = get_reg RSP m1" "get_reg R15 m2 = get_reg R15 m1"
    "get_word (get_reg RSP m - 8) m2 = get_word (get_reg RSP m - 8) m1"
    "get_word (get_reg RSP m - 16) m2 = get_word (get_reg RSP m - 16) m1"
  shows "get_reg RSP (call_indirect return_address callee m) = get_reg RSP m \<and>
    get_reg RBP (call_indirect return_address callee m) = get_reg RBP m \<and>
    get_reg R15 (call_indirect return_address callee m) = get_reg R15 m \<and>
    (\<forall>r. r \<notin> {RSP, RBP, R15} \<longrightarrow> get_reg r (call_indirect return_address callee m) = get_reg r m2) \<and>
    (\<forall>a. get_word a (call_indirect return_address callee m) = get_word a m2)"
proof -
  have low: "get_reg RSP m - 8 * of_nat j \<noteq> get_reg RSP m - 8 \<and> get_reg RSP m - 8 * of_nat j \<noteq> get_reg RSP m - 16"
    if "2 < j" "j \<le> stack_words n" for j
    using slot_distinct[of 1 j "get_reg RSP m"] slot_distinct[of 2 j "get_reg RSP m"] stack_words_bound[OF assms(2)] that by auto
  note r = ci_setup_result(1-5)[OF assms(1,2) assms(3) low, folded m1_def]
  have c: "get_reg RSP (ci_cleanup m2) = get_reg RSP m - 16" "r \<noteq> R15 \<Longrightarrow> r \<noteq> RSP \<Longrightarrow> get_reg r (ci_cleanup m2) = get_reg r m2"
    "get_word a (ci_cleanup m2) = get_word a m2" for r a
    using ci_cleanup_result[of m2 n] callee r assms(1,2) stack_words_freed[of "get_reg RSP m" n] by simp_all
  have d: "call_indirect return_address callee m = pop RBP (pop R15 (ci_cleanup m2))"
    by (simp add: call_indirect_def Let_def m1_def m2_def)
  show ?thesis unfolding d using c callee r by simp
qed

lemma fold_push:
  assumes "RSP \<notin> set rs" "length rs < 2 ^ 60"
  shows "get_reg r (fold push rs m) = (if r = RSP then get_reg RSP m - 8 * of_nat (length rs) else get_reg r m) \<and>
    (\<forall>j<length rs. get_word (get_reg RSP m - 8 * of_nat (Suc j)) (fold push rs m) = get_reg (rs ! j) m)"
  using assms
proof (induction rs arbitrary: r rule: rev_induct)
  case Nil then show ?case by simp
next
  case (snoc s rs)
  let ?m = "fold push rs m" and ?T = "get_reg RSP m"
  have len: "length rs < 2 ^ 60" "RSP \<notin> set rs" "s \<noteq> RSP" using snoc.prems by auto
  have r: "get_reg q ?m = (if q = RSP then ?T - 8 * of_nat (length rs) else get_reg q m)" for q
    using snoc.IH[OF len(2,1)] by blast
  have top: "?T - 8 * of_nat (length rs) - 8 = ?T - 8 * of_nat (Suc (length rs))" by simp
  have w: "get_word (?T - 8 * of_nat (Suc j)) (push s ?m) = get_reg ((rs @ [s]) ! j) m" if "j < Suc (length rs)" for j
  proof (cases "j = length rs")
    case True then show ?thesis using len(3) by (simp add: r top del: of_nat_Suc)
  next
    case False
    then have "?T - 8 * of_nat (Suc j) \<noteq> ?T - 8 * of_nat (Suc (length rs))"
      using that len(1) by (intro slot_distinct) simp_all
    moreover have "get_word (?T - 8 * of_nat (Suc j)) ?m = get_reg (rs ! j) m"
      using snoc.IH[OF len(2,1)] False that by (simp del: of_nat_Suc)
    ultimately show ?thesis using False that by (simp add: r top nth_append del: of_nat_Suc)
  qed
  show ?case using w by (simp add: r top del: of_nat_Suc)
qed

lemma fold_pop:
  assumes "RSP \<notin> set rs" "get_reg RSP m = T - 8 * of_nat (length rs)"
    and "\<And>j. j < length rs \<Longrightarrow> get_word (T - 8 * of_nat (Suc j)) m = g (rs ! j)"
  shows "get_reg r (fold pop (rev rs) m) = (if r = RSP then T else if r \<in> set rs then g r else get_reg r m)"
  using assms
proof (induction rs arbitrary: m rule: rev_induct)
  case Nil then show ?case by simp
next
  case (snoc s rs)
  have s: "s \<noteq> RSP" using snoc.prems(1) by auto
  have sp: "get_reg RSP (pop s m) = T - 8 * of_nat (length rs)" using snoc.prems(2) s by simp
  have "get_word (T - 8 * of_nat (Suc j)) (pop s m) = g (rs ! j)" if "j < length rs" for j
    using snoc.prems(3)[of j] that s by (simp add: nth_append del: of_nat_Suc)
  note IH = snoc.IH[OF _ sp this]
  have "get_word (get_reg RSP m) m = g s" using snoc.prems(2) snoc.prems(3)[of "length rs"] by (simp del: of_nat_Suc)
  then show ?case using IH snoc.prems(1) s by auto
qed

text \<open>What \<open>enter\<close> saves, and what the second half takes up again.\<close>

lemma enter_continues:
  assumes apart: "\<And>j. 0 < j \<Longrightarrow> j \<le> 15 \<Longrightarrow> get_reg RCX m \<noteq> get_reg RSP m - 8 * of_nat j \<and> get_reg RDX m \<noteq> get_reg RSP m - 8 * of_nat j"
    and "get_reg RCX m \<noteq> get_reg RDX m"
    and entered: "(gone, target) = enter continue_from_here m"
    and stack: "get_reg RSP later = get_word (get_reg RCX m) gone"
    and kept: "\<And>j. 0 < j \<Longrightarrow> j \<le> 15 \<Longrightarrow> get_word (get_reg RSP m - 8 * of_nat j) later = get_word (get_reg RSP m - 8 * of_nat j) gone"
  shows "target = get_reg RBX m \<and> get_reg RSP gone = get_reg RAX m \<and> get_word (get_reg RDX m) gone = continue_from_here \<and>
    (\<forall>r. get_reg r (continue_here later) = get_reg r m)"
proof -
  let ?p = "fold push saved_registers m"
  have c: "length saved_registers = 15" "RSP \<notin> set saved_registers" "r \<noteq> RSP \<Longrightarrow> r \<in> set saved_registers" for r
    by (cases r; simp add: saved_registers_def)+
  have push: "get_reg r ?p = (if r = RSP then get_reg RSP m - 120 else get_reg r m)"
    "j < 15 \<Longrightarrow> get_word (get_reg RSP m - 8 * of_nat (Suc j)) ?p = get_reg (saved_registers ! j) m" for r j
    using fold_push[OF c(2), of r m] c(1) by (simp_all del: of_nat_Suc)
  have e: "target = get_reg RBX m" "get_reg RSP gone = get_reg RAX m" "get_word (get_reg RDX m) gone = continue_from_here"
    "get_word (get_reg RCX m) gone = get_reg RSP m - 120"
    "a \<noteq> get_reg RCX m \<Longrightarrow> a \<noteq> get_reg RDX m \<Longrightarrow> get_word a gone = get_word a ?p" for a
    using entered assms(2) by (simp_all add: enter_def Let_def push(1))
  have "get_word (get_reg RSP m - 8 * of_nat (Suc j)) later = get_reg (saved_registers ! j) m" if "j < 15" for j
    using kept[of "Suc j"] apart[of "Suc j"] e(5)[of "get_reg RSP m - 8 * of_nat (Suc j)"] push(2)[OF that] that
    by (metis Suc_leI zero_less_Suc)
  then have "get_reg r (continue_here later) = (if r = RSP then get_reg RSP m else if r \<in> set saved_registers then get_reg r m else get_reg r later)" for r
    unfolding continue_here_def using stack e(4) c(1) by (intro fold_pop[OF c(2)]) (simp_all del: of_nat_Suc)
  then show ?thesis using e(1-3) c(3) by metis
qed

text \<open>C8. A context that was left with \<open>enter\<close> goes on as if nothing had happened: \<open>enter\<close> jumps to the code it is given
  on the stack it is given and leaves the address of its second half and the old stack pointer where its caller asked; and
  when some later machine takes up that stack, with the saved words as they were, the second half gives every register
  the value that it had, the stack pointer included.\<close>

theorem context_switch_resumes:
  assumes apart: "\<And>j. 0 < j \<Longrightarrow> j \<le> 15 \<Longrightarrow> get_reg RCX m \<noteq> get_reg RSP m - 8 * of_nat j \<and> get_reg RDX m \<noteq> get_reg RSP m - 8 * of_nat j"
    and "get_reg RCX m \<noteq> get_reg RDX m"
    and entered: "(gone, target) = enter continue_from_here m"
    and stack: "get_reg RSP later = get_word (get_reg RCX m) gone"
    and kept: "\<And>j. 0 < j \<Longrightarrow> j \<le> 15 \<Longrightarrow> get_word (get_reg RSP m - 8 * of_nat j) later = get_word (get_reg RSP m - 8 * of_nat j) gone"
  shows "target = get_reg RBX m \<and> get_reg RSP gone = get_reg RAX m \<and> get_word (get_reg RDX m) gone = continue_from_here \<and>
    (\<forall>r. get_reg r (continue_here later) = get_reg r m)"
  using enter_continues[OF assms] .

text \<open>A stack pointer that is 8 off a multiple of 16, as it is in a function that was called by the convention, is 8 off
  again at the call in \<open>call_indirect\<close>, for any number of arguments; the convention asks for a multiple of 16 there.\<close>

lemma call_indirect_misaligned:
  assumes "unat (get_reg RDX m) = n" "n < 2 ^ 60"
    and "\<And>i j. i < n \<Longrightarrow> 0 < j \<Longrightarrow> j \<le> stack_words n \<Longrightarrow> get_reg RSI m + 8 * of_nat i \<noteq> get_reg RSP m - 8 * of_nat j"
    and "get_reg RSP m = 16 * q + 8"
  shows "\<exists>q'. get_reg RSP (ci_setup m) = 16 * q' + 8"
proof -
  have low: "get_reg RSP m - 8 * of_nat j \<noteq> get_reg RSP m - 8 \<and> get_reg RSP m - 8 * of_nat j \<noteq> get_reg RSP m - 16"
    if "2 < j" "j \<le> stack_words n" for j
    using slot_distinct[of 1 j "get_reg RSP m"] slot_distinct[of 2 j "get_reg RSP m"] stack_words_bound[OF assms(2)] that by auto
  obtain k where k: "stack_words n = 2 * k" using even_stack_words by (rule evenE)
  have "get_reg RSP (ci_setup m) = 16 * (q - of_nat k) + 8"
    using ci_setup_result(1)[OF assms(1,2) assms(3) low] by (simp add: k assms(4))
  then show ?thesis by blast
qed


section \<open>Witnesses\<close>

text \<open>A call with eight arguments, at a stack and an array that are apart, and a callee that only returns.\<close>

definition demo_call :: machine where
  "demo_call = \<lparr>regs = (\<lambda>r. 0)(RDI := 7, RSI := 4096, RDX := 8, RSP := 32776, RBP := 5), words = (\<lambda>a. a)\<rparr>"

lemma demo_call_apart:
  "i < 8 \<Longrightarrow> 0 < j \<Longrightarrow> j \<le> stack_words 8 \<Longrightarrow> get_reg RSI demo_call + 8 * of_nat i \<noteq> get_reg RSP demo_call - 8 * of_nat j"
proof -
  assume "i < 8" "0 < j" "j \<le> stack_words 8"
  moreover have "\<forall>i\<in>set [0..<8]. \<forall>j\<in>set [1..<5]. get_reg RSI demo_call + 8 * of_nat i \<noteq> get_reg RSP demo_call - 8 * of_nat j"
    by code_simp
  ultimately show ?thesis by (auto simp: stack_words_def)
qed

theorem call_indirect_passes_arguments_witness:
  "get_reg RAX (ci_setup demo_call) = 7 \<and> map (\<lambda>i. get_reg (argument_registers ! i) (ci_setup demo_call)) [0, 1, 2, 3, 4, 5] = [4096, 4104, 4112, 4120, 4128, 4136] \<and>
    get_word (get_reg RSP demo_call - 32) (ci_setup demo_call) = 4144 \<and>
    get_word (get_reg RSP demo_call - 24) (ci_setup demo_call) = 4152"
proof -
  have d: "unat (get_reg RDX demo_call) = 8" "get_reg RDI demo_call = 7" "get_reg RSI demo_call = 4096" "get_word a demo_call = a" for a
    by (simp_all add: demo_call_def get_reg_def get_word_def)
  have sw: "stack_words 8 = 4" by (simp add: stack_words_def)
  have n: "(8 :: nat) < 2 ^ 60" by simp
  note t = call_indirect_passes_arguments[OF d(1) n demo_call_apart]
  have s: "\<forall>i. 6 \<le> i \<and> i < 8 \<longrightarrow> get_word (get_reg RSP (ci_setup demo_call) + 8 * of_nat (i - 6)) (ci_setup demo_call) =
      get_word (get_reg RSI demo_call + 8 * of_nat i) demo_call" using t by blast
  have "get_word (get_reg RSP (ci_setup demo_call)) (ci_setup demo_call) = 4144"
    "get_word (get_reg RSP (ci_setup demo_call) + 8) (ci_setup demo_call) = 4152"
    using s[rule_format, of 6] s[rule_format, of 7] by (simp_all add: d)
  then show ?thesis using t by (simp add: d sw)
qed

theorem call_indirect_restores_witness:
  "get_reg RSP (call_indirect 99 (\<lambda>f m. set_reg RSP (get_reg RSP m + 8) m) demo_call) = 32776 \<and>
    get_reg RBP (call_indirect 99 (\<lambda>f m. set_reg RSP (get_reg RSP m + 8) m) demo_call) = 5"
proof -
  have d: "unat (get_reg RDX demo_call) = 8" "get_reg RSP demo_call = 32776" "get_reg RBP demo_call = 5"
    by (simp_all add: demo_call_def get_reg_def)
  have "get_reg RSP demo_call - 8 \<noteq> get_reg RSP (ci_setup demo_call) - 8 \<and>
    get_reg RSP demo_call - 16 \<noteq> get_reg RSP (ci_setup demo_call) - 8" by code_simp
  then show ?thesis
    using call_indirect_restores[OF d(1) _ demo_call_apart refl refl, where callee = "\<lambda>f m. set_reg RSP (get_reg RSP m + 8) m" and return_address = 99]
    by (simp add: d)
qed

text \<open>Two pointers away from the stack, and the machine that comes back to it unchanged but for the stack pointer.\<close>

definition demo_left :: machine where
  "demo_left = \<lparr>regs = (\<lambda>r. 3)(RAX := 4096, RBX := 77, RCX := 64, RDX := 128, RSP := 32768), words = (\<lambda>a. 0)\<rparr>"

theorem context_switch_resumes_witness:
  "get_reg RBX (continue_here (set_reg RSP (32768 - 120) (fst (enter 55 demo_left)))) = 77 \<and>
    get_reg RSP (continue_here (set_reg RSP (32768 - 120) (fst (enter 55 demo_left)))) = 32768"
proof -
  have "\<forall>j\<in>set [1..<16]. get_reg RCX demo_left \<noteq> get_reg RSP demo_left - 8 * of_nat j \<and> get_reg RDX demo_left \<noteq> get_reg RSP demo_left - 8 * of_nat j"
    by code_simp
  then have a: "0 < j \<Longrightarrow> j \<le> 15 \<Longrightarrow> get_reg RCX demo_left \<noteq> get_reg RSP demo_left - 8 * of_nat j \<and>
    get_reg RDX demo_left \<noteq> get_reg RSP demo_left - 8 * of_nat j" for j by auto
  have b: "get_reg RCX demo_left \<noteq> get_reg RDX demo_left" by (simp add: demo_left_def get_reg_def)
  have c: "get_word (get_reg RCX demo_left) (fst (enter 55 demo_left)) = 32768 - 120" by code_simp
  have k: "get_word x (set_reg RSP y z) = get_word x z" "get_reg RSP (set_reg RSP y z) = y" for x y z by simp_all
  have d: "get_reg RBX demo_left = 77" "get_reg RSP demo_left = 32768" by (simp_all add: demo_left_def get_reg_def)
  have "\<forall>r. get_reg r (continue_here (set_reg RSP (32768 - 120) (fst (enter 55 demo_left)))) = get_reg r demo_left"
    using context_switch_resumes[OF a b prod.collapse, where continue_from_here = 55 and later = "set_reg RSP (32768 - 120) (fst (enter 55 demo_left))"]
    unfolding k c by blast
  then show ?thesis unfolding d[symmetric] by blast
qed

end
