(* ===== verification/Values.thy ===== *)
theory Values
  imports KBase
begin

text \<open>
  Values that live in raw memory: \<^verbatim>\<open>include/features/optional.h\<close>, \<^verbatim>\<open>include/features/result.h\<close> and
  \<^verbatim>\<open>include/features/variant.h\<close>.  A buffer of the classes holds no object, or one object of a type; using it as
  an object that is not there is undefined.  A copy of an object is equal to it; what a move leaves behind is a
  parameter \<open>moved\<close>.  Objects of the classes that are alive together are elements of a list, so that an assignment of
  an object to itself is one between equal indices.
\<close>

section \<open>Optional\<close>

record 'v opt =
  opt_buffer :: "'v option"
  initialized :: bool

definition opt_destroy :: "'v opt \<Rightarrow> 'v opt res" where
  "opt_destroy x =
     (if initialized x then
        (case opt_buffer x of None \<Rightarrow> Stop Undef | Some _ \<Rightarrow> Ret (x\<lparr>opt_buffer := None, initialized := False\<rparr>))
      else Ret x)"

definition opt_none :: "'v opt" where "opt_none = \<lparr>opt_buffer = None, initialized = False\<rparr>"

definition opt_some :: "'v \<Rightarrow> 'v opt" where "opt_some v = \<lparr>opt_buffer = Some v, initialized = True\<rparr>"

definition opt_value :: "'v opt \<Rightarrow> 'v res" where
  "opt_value x = (case opt_buffer x of None \<Rightarrow> Stop Undef | Some v \<Rightarrow> Ret v)"

text \<open>The copy of a \<open>const\<close> object.\<close>

definition opt_copy :: "'v opt \<Rightarrow> 'v opt res" where
  "opt_copy other = (if initialized other then bindr (opt_value other) (\<lambda>v. Ret (opt_some v)) else Ret opt_none)"

text \<open>For an object that is not \<open>const\<close> the constructor from arguments \<open>optional(ArgT&&...)\<close> is the better match: the
  new object is full, and its value is what the constructor of the type makes of the other object, \<open>conv\<close>
  (if the type has no such constructor the program does not compile).\<close>

definition opt_copy_lvalue :: "('v option \<Rightarrow> 'v) \<Rightarrow> 'v opt \<Rightarrow> 'v opt res" where
  "opt_copy_lvalue conv other =
     (if initialized other then bindr (opt_value other) (\<lambda>v. Ret (opt_some (conv (Some v)))) else Ret (opt_some (conv None)))"

text \<open>The new object and the one moved from.\<close>

definition opt_move :: "('v \<Rightarrow> 'v) \<Rightarrow> 'v opt \<Rightarrow> ('v opt \<times> 'v opt) res" where
  "opt_move moved other =
     (if initialized other then
        bindr (opt_value other) (\<lambda>v. Ret (opt_some v, \<lparr>opt_buffer = Some (moved v), initialized = False\<rparr>))
      else Ret (opt_none, other\<lparr>initialized := False\<rparr>))"

definition opt_assign :: "nat \<Rightarrow> nat \<Rightarrow> 'v opt list \<Rightarrow> 'v opt list res" where
  "opt_assign i j xs =
     (if i = j then Ret xs
      else
        bindr (opt_destroy (xs ! i)) (\<lambda>x.
          if initialized (xs ! j)
          then bindr (opt_value (xs ! j)) (\<lambda>v. Ret (xs[i := x\<lparr>opt_buffer := Some v, initialized := True\<rparr>]))
          else Ret (xs[i := x])))"

text \<open>Without a test for the same object: \<open>other\<close> is looked at after \<open>destroy\<close>.\<close>

definition opt_move_assign :: "('v \<Rightarrow> 'v) \<Rightarrow> nat \<Rightarrow> nat \<Rightarrow> 'v opt list \<Rightarrow> 'v opt list res" where
  "opt_move_assign moved i j xs =
     bindr (opt_destroy (xs ! i)) (\<lambda>x.
     let xs1 = xs[i := x]
     in bindr
          (if initialized (xs1 ! j)
           then bindr (opt_value (xs1 ! j)) (\<lambda>v.
             Ret (xs1[j := (xs1 ! j)\<lparr>opt_buffer := Some (moved v)\<rparr>, i := (xs1 ! i)\<lparr>opt_buffer := Some v, initialized := True\<rparr>]))
           else Ret xs1)
          (\<lambda>xs2. Ret (xs2[j := (xs2 ! j)\<lparr>initialized := False\<rparr>])))"

definition has_value :: "'v opt \<Rightarrow> bool" where "has_value x \<longleftrightarrow> initialized x"

definition opt_not :: "'v opt \<Rightarrow> bool" where "opt_not x \<longleftrightarrow> \<not> initialized x"

definition value_or_panic :: "string \<Rightarrow> 'v opt \<Rightarrow> 'v res" where
  "value_or_panic message x = (if \<not> initialized x then Stop (Panic message) else opt_value x)"

definition opt_value_or :: "'v \<Rightarrow> 'v opt \<Rightarrow> 'v res" where
  "opt_value_or d x = (if initialized x then opt_value x else Ret d)"

definition opt_value_or_create :: "(unit \<Rightarrow> 'v res) \<Rightarrow> 'v opt \<Rightarrow> 'v res" where
  "opt_value_or_create create x = (if initialized x then opt_value x else create ())"

definition opt_map_value :: "('v \<Rightarrow> 'r opt res) \<Rightarrow> 'v opt \<Rightarrow> 'r opt res" where
  "opt_map_value f x = (if initialized x then bindr (opt_value x) f else Ret opt_none)"

text \<open>What it stands for, and the contract: an initialized object has its value.\<close>

definition opt_abs :: "'v opt \<Rightarrow> 'v option" where
  "opt_abs x = (if initialized x then opt_buffer x else None)"

definition opt_ok :: "'v opt \<Rightarrow> bool" where
  "opt_ok x \<longleftrightarrow> (initialized x \<longrightarrow> opt_buffer x \<noteq> None)"

section \<open>Results\<close>

record ('v, 'e) result =
  r_value :: "'v opt"
  r_error :: "'e opt"

definition result_error :: "'e \<Rightarrow> ('v, 'e) result" where "result_error e = \<lparr>r_value = opt_none, r_error = opt_some e\<rparr>"

definition result_value :: "'v \<Rightarrow> ('v, 'e) result" where "result_value v = \<lparr>r_value = opt_some v, r_error = opt_none\<rparr>"

definition result_bool :: "('v, 'e) result \<Rightarrow> bool" where "result_bool r \<longleftrightarrow> \<not> has_value (r_error r)"

definition result_not :: "('v, 'e) result \<Rightarrow> bool" where "result_not r \<longleftrightarrow> has_value (r_error r)"

definition result_has_value :: "('v, 'e) result \<Rightarrow> bool" where "result_has_value r \<longleftrightarrow> has_value (r_value r)"

definition result_has_error :: "('v, 'e) result \<Rightarrow> bool" where "result_has_error r \<longleftrightarrow> has_value (r_error r)"

definition result_get :: "('v, 'e) result \<Rightarrow> 'v res" where
  "result_get r = value_or_panic ''result::value() called on error'' (r_value r)"

definition result_get_error :: "('v, 'e) result \<Rightarrow> 'e res" where
  "result_get_error r = value_or_panic ''result::error() called on value'' (r_error r)"

definition error_to_string :: "'e \<Rightarrow> string" where "error_to_string e = ''Unknown error''"

definition error_string :: "('e \<Rightarrow> string) \<Rightarrow> ('v, 'e) result \<Rightarrow> string res" where
  "error_string to_string r =
     bindr (value_or_panic ''result::error_string() called on value'' (r_error r)) (\<lambda>e. Ret (to_string e))"

section \<open>Variant\<close>

text \<open>A buffer with the type of its object; the types are the parameter \<open>'t\<close>.\<close>

type_synonym ('t, 'v) storage = "('t \<times> 'v) option"

definition obj_read :: "'t \<Rightarrow> ('t, 'v) storage \<Rightarrow> 'v res" where
  "obj_read T s = (case s of None \<Rightarrow> Stop Undef | Some (T', v) \<Rightarrow> if T = T' then Ret v else Stop Undef)"

fun static_max :: "nat list \<Rightarrow> nat" where
  "static_max [] = 0"
| "static_max [a] = a"
| "static_max (a # b # others) = (if a \<ge> b then static_max (a # others) else static_max (b # others))"

text \<open>
  Every function of \<open>variant_helper\<close> goes through the types in the same way: the one whose number of successors is the
  index is used, and past the last one is a panic.
\<close>

fun helper_at :: "'t list \<Rightarrow> nat \<Rightarrow> ('t \<Rightarrow> 'a res) \<Rightarrow> 'a res" where
  "helper_at [] i f = Stop Undef"
| "helper_at [T] i f = (if i = 0 then f T else Stop (Panic ''Invalid variant index''))"
| "helper_at (T # T' # Ts) i f = (if i = length (T' # Ts) then f T else helper_at (T' # Ts) i f)"

definition vh_construct :: "'t list \<Rightarrow> nat \<Rightarrow> ('t \<Rightarrow> 'v) \<Rightarrow> ('t, 'v) storage res" where
  "vh_construct Ts i dflt = helper_at Ts i (\<lambda>T. Ret (Some (T, dflt T)))"

definition vh_is :: "'t list \<Rightarrow> 't \<Rightarrow> nat \<Rightarrow> bool res" where
  "vh_is Ts U i = helper_at Ts i (\<lambda>T. Ret (T = U))"

text \<open>The index of a type, \<open>~0\<close> for one that is not there.\<close>

fun vh_index_of :: "'t list \<Rightarrow> 't \<Rightarrow> nat" where
  "vh_index_of [] U = 2 ^ 64 - 1"
| "vh_index_of (T # Ts) U = (if T = U then length Ts else vh_index_of Ts U)"

definition vh_destruct :: "'t list \<Rightarrow> nat \<Rightarrow> ('t, 'v) storage \<Rightarrow> ('t, 'v) storage res" where
  "vh_destruct Ts i memory = helper_at Ts i (\<lambda>T. bindr (obj_read T memory) (\<lambda>_. Ret None))"

definition vh_copy :: "'t list \<Rightarrow> nat \<Rightarrow> ('t, 'v) storage \<Rightarrow> ('t, 'v) storage res" where
  "vh_copy Ts i source = helper_at Ts i (\<lambda>T. bindr (obj_read T source) (\<lambda>v. Ret (Some (T, v))))"

text \<open>The source after the move, and the new object.\<close>

definition vh_move :: "('v \<Rightarrow> 'v) \<Rightarrow> 't list \<Rightarrow> nat \<Rightarrow> ('t, 'v) storage \<Rightarrow> (('t, 'v) storage \<times> ('t, 'v) storage) res" where
  "vh_move moved Ts i source =
     helper_at Ts i (\<lambda>T. bindr (obj_read T source) (\<lambda>v. Ret (Some (T, moved v), Some (T, v))))"

definition vh_copy_assign :: "'t list \<Rightarrow> nat \<Rightarrow> ('t, 'v) storage \<Rightarrow> ('t, 'v) storage \<Rightarrow> ('t, 'v) storage res" where
  "vh_copy_assign Ts i source target =
     helper_at Ts i (\<lambda>T. bindr (obj_read T target) (\<lambda>_. bindr (obj_read T source) (\<lambda>v. Ret (Some (T, v)))))"

definition vh_move_assign ::
    "('v \<Rightarrow> 'v) \<Rightarrow> 't list \<Rightarrow> nat \<Rightarrow> ('t, 'v) storage \<Rightarrow> ('t, 'v) storage \<Rightarrow> (('t, 'v) storage \<times> ('t, 'v) storage) res" where
  "vh_move_assign moved Ts i source target =
     helper_at Ts i (\<lambda>T. bindr (obj_read T target) (\<lambda>_. bindr (obj_read T source) (\<lambda>v. Ret (Some (T, moved v), Some (T, v)))))"

record ('t, 'v) variant =
  v_buffer :: "('t, 'v) storage"
  type_index :: nat

definition variant_new :: "('t \<Rightarrow> 'v) \<Rightarrow> 't list \<Rightarrow> ('t, 'v) variant res" where
  "variant_new dflt Ts =
     bindr (vh_construct Ts (length Ts - 1) dflt) (\<lambda>b. Ret \<lparr>v_buffer = b, type_index = length Ts - 1\<rparr>)"

definition variant_copy :: "'t list \<Rightarrow> ('t, 'v) variant \<Rightarrow> ('t, 'v) variant res" where
  "variant_copy Ts other =
     bindr (vh_copy Ts (type_index other) (v_buffer other)) (\<lambda>b. Ret \<lparr>v_buffer = b, type_index = type_index other\<rparr>)"

definition variant_move :: "('v \<Rightarrow> 'v) \<Rightarrow> 't list \<Rightarrow> ('t, 'v) variant \<Rightarrow> (('t, 'v) variant \<times> ('t, 'v) variant) res" where
  "variant_move moved Ts other =
     bindr (vh_move moved Ts (type_index other) (v_buffer other)) (\<lambda>(s, b).
       Ret (other\<lparr>v_buffer := s\<rparr>, \<lparr>v_buffer = b, type_index = type_index other\<rparr>))"

definition variant_destroy :: "'t list \<Rightarrow> ('t, 'v) variant \<Rightarrow> ('t, 'v) variant res" where
  "variant_destroy Ts x = bindr (vh_destruct Ts (type_index x) (v_buffer x)) (\<lambda>b. Ret (x\<lparr>v_buffer := b\<rparr>))"

definition variant_assign :: "'t list \<Rightarrow> nat \<Rightarrow> nat \<Rightarrow> ('t, 'v) variant list \<Rightarrow> ('t, 'v) variant list res" where
  "variant_assign Ts i j xs =
     (if i = j then Ret xs
      else if type_index (xs ! j) \<noteq> type_index (xs ! i) then
        bindr (vh_destruct Ts (type_index (xs ! i)) (v_buffer (xs ! i))) (\<lambda>_.
        bindr (vh_copy Ts (type_index (xs ! j)) (v_buffer (xs ! j))) (\<lambda>b.
          Ret (xs[i := \<lparr>v_buffer = b, type_index = type_index (xs ! j)\<rparr>])))
      else
        bindr (vh_copy_assign Ts (type_index (xs ! i)) (v_buffer (xs ! j)) (v_buffer (xs ! i))) (\<lambda>b.
          Ret (xs[i := (xs ! i)\<lparr>v_buffer := b\<rparr>])))"

definition variant_move_assign ::
    "('v \<Rightarrow> 'v) \<Rightarrow> 't list \<Rightarrow> nat \<Rightarrow> nat \<Rightarrow> ('t, 'v) variant list \<Rightarrow> ('t, 'v) variant list res" where
  "variant_move_assign moved Ts i j xs =
     (if i = j then Ret xs
      else if type_index (xs ! j) \<noteq> type_index (xs ! i) then
        bindr (vh_destruct Ts (type_index (xs ! i)) (v_buffer (xs ! i))) (\<lambda>_.
        bindr (vh_move moved Ts (type_index (xs ! j)) (v_buffer (xs ! j))) (\<lambda>(s, b).
          Ret (xs[i := \<lparr>v_buffer = b, type_index = type_index (xs ! j)\<rparr>, j := (xs ! j)\<lparr>v_buffer := s\<rparr>])))
      else
        bindr (vh_move_assign moved Ts (type_index (xs ! i)) (v_buffer (xs ! j)) (v_buffer (xs ! i))) (\<lambda>(s, b).
          Ret (xs[i := (xs ! i)\<lparr>v_buffer := b\<rparr>, j := (xs ! j)\<lparr>v_buffer := s\<rparr>])))"

text \<open>Assigning an object of a type \<open>U\<close>.\<close>

definition variant_assign_value :: "'t list \<Rightarrow> 't \<Rightarrow> 'v \<Rightarrow> ('t, 'v) variant \<Rightarrow> ('t, 'v) variant res" where
  "variant_assign_value Ts U u x =
     (let n = vh_index_of Ts U
      in if n = type_index x then
           bindr (vh_copy_assign Ts (type_index x) (Some (U, u)) (v_buffer x)) (\<lambda>b. Ret (x\<lparr>v_buffer := b\<rparr>))
         else
           bindr (vh_destruct Ts (type_index x) (v_buffer x)) (\<lambda>_.
           bindr (vh_copy Ts n (Some (U, u))) (\<lambda>b. Ret \<lparr>v_buffer = b, type_index = n\<rparr>)))"

definition variant_get :: "'t list \<Rightarrow> 't \<Rightarrow> ('t, 'v) variant \<Rightarrow> 'v opt res" where
  "variant_get Ts U x =
     bindr (vh_is Ts U (type_index x)) (\<lambda>yes.
       if yes then bindr (obj_read U (v_buffer x)) (\<lambda>v. Ret (opt_some v)) else Ret opt_none)"

section \<open>Optional objects implement optional values\<close>

datatype 'v opt_op = Opt_none | Opt_some 'v | Opt_copy nat | Opt_copy_lvalue nat | Opt_move nat | Opt_assign nat nat | Opt_move_assign nat nat

fun opt_step :: "('v option \<Rightarrow> 'v) \<Rightarrow> ('v \<Rightarrow> 'v) \<Rightarrow> 'v opt_op \<Rightarrow> 'v opt list \<Rightarrow> 'v opt list res" where
  "opt_step conv moved Opt_none xs = Ret (xs @ [opt_none])"
| "opt_step conv moved (Opt_some v) xs = Ret (xs @ [opt_some v])"
| "opt_step conv moved (Opt_copy j) xs = bindr (opt_copy (xs ! j)) (\<lambda>x. Ret (xs @ [x]))"
| "opt_step conv moved (Opt_copy_lvalue j) xs = bindr (opt_copy_lvalue conv (xs ! j)) (\<lambda>x. Ret (xs @ [x]))"
| "opt_step conv moved (Opt_move j) xs = bindr (opt_move moved (xs ! j)) (\<lambda>(x, other). Ret (xs[j := other] @ [x]))"
| "opt_step conv moved (Opt_assign i j) xs = opt_assign i j xs"
| "opt_step conv moved (Opt_move_assign i j) xs = opt_move_assign moved i j xs"

fun opt_spec :: "('v option \<Rightarrow> 'v) \<Rightarrow> 'v opt_op \<Rightarrow> 'v option list \<Rightarrow> 'v option list" where
  "opt_spec conv Opt_none vs = vs @ [None]"
| "opt_spec conv (Opt_some v) vs = vs @ [Some v]"
| "opt_spec conv (Opt_copy j) vs = vs @ [vs ! j]"
| "opt_spec conv (Opt_copy_lvalue j) vs = vs @ [Some (conv (vs ! j))]"
| "opt_spec conv (Opt_move j) vs = vs[j := None] @ [vs ! j]"
| "opt_spec conv (Opt_assign i j) vs = vs[i := vs ! j]"
| "opt_spec conv (Opt_move_assign i j) vs = vs[i := vs ! j, j := None]"

fun opt_indices :: "'v opt_op \<Rightarrow> nat list" where
  "opt_indices (Opt_copy j) = [j]"
| "opt_indices (Opt_copy_lvalue j) = [j]"
| "opt_indices (Opt_move j) = [j]"
| "opt_indices (Opt_assign i j) = [i, j]"
| "opt_indices (Opt_move_assign i j) = [i, j]"
| "opt_indices _ = []"

lemma opt_simps_abs [simp]:
  "opt_abs opt_none = None" "opt_abs (opt_some v) = Some v" "opt_ok opt_none" "opt_ok (opt_some v)"
  "opt_abs \<lparr>opt_buffer = b, initialized = False\<rparr> = None" "opt_ok \<lparr>opt_buffer = b, initialized = False\<rparr>"
  by (simp_all add: opt_abs_def opt_none_def opt_some_def opt_ok_def)

lemma opt_cases:
  assumes "opt_ok x"
  obtains (empty) "\<not> initialized x" "opt_abs x = None"
  | (full) v where "initialized x" "opt_buffer x = Some v" "opt_abs x = Some v" "opt_value x = Ret v"
  using assms by (cases "initialized x"; cases "opt_buffer x") (auto simp: opt_ok_def opt_abs_def opt_value_def)

lemma opt_destroy_ok: "opt_ok x \<Longrightarrow> \<exists>y. opt_destroy x = Ret y \<and> \<not> initialized y \<and> opt_abs y = None \<and> opt_ok y"
  by (cases "initialized x"; cases "opt_buffer x") (simp_all add: opt_destroy_def opt_ok_def opt_abs_def)

lemma opt_set_ok [simp]:
  "opt_abs (x\<lparr>opt_buffer := Some v, initialized := True\<rparr>) = Some v" "opt_ok (x\<lparr>opt_buffer := Some v, initialized := True\<rparr>)"
  "opt_abs (x\<lparr>initialized := False\<rparr>) = None" "opt_ok (x\<lparr>initialized := False\<rparr>)"
  by (simp_all add: opt_abs_def opt_ok_def)

lemma list_all_update: "list_all P xs \<Longrightarrow> P x \<Longrightarrow> list_all P (xs[i := x])"
  using set_update_subset_insert[of xs i x] by (auto simp: list_all_iff)

lemma map_same: "i < length xs \<Longrightarrow> f (xs ! i) = y \<Longrightarrow> map f xs = (map f xs)[i := y]"
  by (metis list_update_id map_update)

lemma opt_assign_step:
  assumes "list_all opt_ok xs" "i < length xs" "j < length xs"
  shows "\<exists>ys. opt_assign i j xs = Ret ys \<and> list_all opt_ok ys \<and> map opt_abs ys = (map opt_abs xs)[i := opt_abs (xs ! j)]"
proof (cases "i = j")
  case True
  then show ?thesis using assms by (auto simp: opt_assign_def intro: map_same)
next
  case False
  have ok: "opt_ok (xs ! i)" "opt_ok (xs ! j)" using assms by (simp_all add: list_all_length)
  obtain y where y: "opt_destroy (xs ! i) = Ret y" "opt_abs y = None" "opt_ok y" using opt_destroy_ok[OF ok(1)] by blast
  from ok(2) show ?thesis
    by (cases rule: opt_cases) (use False y assms(1) in \<open>auto simp: opt_assign_def map_update intro: list_all_update\<close>)
qed

lemma opt_move_assign_step:
  assumes "list_all opt_ok xs" "i < length xs" "j < length xs"
  shows "\<exists>ys. opt_move_assign moved i j xs = Ret ys \<and> list_all opt_ok ys \<and>
    map opt_abs ys = (map opt_abs xs)[i := opt_abs (xs ! j), j := None]"
proof -
  have ok: "opt_ok (xs ! i)" "opt_ok (xs ! j)" using assms by (simp_all add: list_all_length)
  obtain y where y: "opt_destroy (xs ! i) = Ret y" "\<not> initialized y" "opt_abs y = None" "opt_ok y"
    using opt_destroy_ok[OF ok(1)] by blast
  show ?thesis
  proof (cases "i = j")
    case True
    then show ?thesis using y assms by (simp add: opt_move_assign_def map_update list_all_update)
  next
    case False
    from ok(2) show ?thesis
      by (cases rule: opt_cases)
        (use False y assms in \<open>auto simp: opt_move_assign_def map_update list_update_swap[of i j] intro!: list_all_update\<close>)
  qed
qed

lemma opt_step_refines:
  assumes "list_all opt_ok xs" "\<forall>i \<in> set (opt_indices op). i < length xs"
  shows "\<exists>ys. opt_step conv moved op xs = Ret ys \<and> list_all opt_ok ys \<and> map opt_abs ys = opt_spec conv op (map opt_abs xs)"
proof (cases op)
  case (Opt_copy j)
  then have "opt_ok (xs ! j)" "j < length xs" using assms by (simp_all add: list_all_length)
  then show ?thesis using Opt_copy assms(1) by (cases rule: opt_cases) (auto simp: opt_copy_def)
next
  case (Opt_copy_lvalue j)
  then have "opt_ok (xs ! j)" "j < length xs" using assms by (simp_all add: list_all_length)
  then show ?thesis using Opt_copy_lvalue assms(1) by (cases rule: opt_cases) (auto simp: opt_copy_lvalue_def)
next
  case (Opt_move j)
  then have "opt_ok (xs ! j)" "j < length xs" using assms by (simp_all add: list_all_length)
  then show ?thesis using Opt_move assms(1)
    by (cases rule: opt_cases) (auto simp: opt_move_def map_update intro: list_all_update)
next
  case (Opt_assign i j)
  then show ?thesis using assms opt_assign_step[of xs i j] by simp
next
  case (Opt_move_assign i j)
  then show ?thesis using assms opt_move_assign_step[of xs i j moved] by simp
qed (use assms in auto)

fun opt_run :: "('v option \<Rightarrow> 'v) \<Rightarrow> ('v \<Rightarrow> 'v) \<Rightarrow> 'v opt_op list \<Rightarrow> 'v opt list \<Rightarrow> 'v opt list res" where
  "opt_run conv moved [] xs = Ret xs"
| "opt_run conv moved (op # ops) xs = bindr (opt_step conv moved op xs) (opt_run conv moved ops)"

text \<open>Operations that name objects that are there, with the number of objects before them.\<close>

fun opt_count :: "'v opt_op \<Rightarrow> nat \<Rightarrow> nat" where
  "opt_count (Opt_assign i j) n = n"
| "opt_count (Opt_move_assign i j) n = n"
| "opt_count _ n = Suc n"

fun opt_fits :: "nat \<Rightarrow> 'v opt_op list \<Rightarrow> bool" where
  "opt_fits n [] \<longleftrightarrow> True"
| "opt_fits n (op # ops) \<longleftrightarrow>
     (\<forall>i \<in> set (opt_indices op). i < n) \<and> opt_fits (opt_count op n) ops"

lemma length_opt_spec: "length (opt_spec conv op vs) = opt_count op (length vs)"
  by (cases op) simp_all

lemma opt_run_refines:
  "list_all opt_ok xs \<Longrightarrow> opt_fits (length xs) ops \<Longrightarrow>
   \<exists>ys. opt_run conv moved ops xs = Ret ys \<and> list_all opt_ok ys \<and> map opt_abs ys = fold (opt_spec conv) ops (map opt_abs xs)"
proof (induction ops arbitrary: xs)
  case (Cons op ops)
  obtain ys where ys: "opt_step conv moved op xs = Ret ys" "list_all opt_ok ys" "map opt_abs ys = opt_spec conv op (map opt_abs xs)"
    using opt_step_refines[of xs op conv moved] Cons.prems by auto
  have "length ys = opt_count op (length xs)"
    using arg_cong[OF ys(3), of length] by (simp add: length_opt_spec)
  then show ?case using Cons.IH[OF ys(2)] Cons.prems(2) ys by simp
qed simp

section \<open>Variants are type safe\<close>

lemma vh_index_of_less: "T \<in> set Ts \<Longrightarrow> vh_index_of Ts T < length Ts"
  by (induction Ts) (auto simp: less_Suc_eq)

lemma helper_at_index: "T \<in> set Ts \<Longrightarrow> helper_at Ts (vh_index_of Ts T) f = f T"
proof (induction Ts)
  case (Cons S Ts)
  show ?case
  proof (cases Ts)
    case Nil then show ?thesis using Cons.prems by simp
  next
    case (Cons S' Ts')
    then show ?thesis using Cons.IH Cons.prems vh_index_of_less[of T Ts] by (cases "S = T") auto
  qed
qed simp

lemma vh_index_of_inj: "T \<in> set Ts \<Longrightarrow> U \<in> set Ts \<Longrightarrow> vh_index_of Ts T = vh_index_of Ts U \<longleftrightarrow> T = U"
  using vh_index_of_less by (induction Ts) (auto, fastforce+)

definition variant_ok :: "'t list \<Rightarrow> ('t, 'v) variant \<Rightarrow> bool" where
  "variant_ok Ts x \<longleftrightarrow> (\<exists>T v. v_buffer x = Some (T, v) \<and> T \<in> set Ts \<and> type_index x = vh_index_of Ts T)"

definition variant_abs :: "('t, 'v) variant \<Rightarrow> 't \<times> 'v" where "variant_abs x = the (v_buffer x)"

datatype ('t, 'v) variant_op =
    New_variant | Copy_variant nat | Move_variant nat | Assign_variant nat nat | Move_assign_variant nat nat
  | Set_variant nat 't 'v

fun variant_step :: "('t \<Rightarrow> 'v) \<Rightarrow> ('v \<Rightarrow> 'v) \<Rightarrow> 't list \<Rightarrow> ('t, 'v) variant_op \<Rightarrow> ('t, 'v) variant list \<Rightarrow> ('t, 'v) variant list res" where
  "variant_step dflt moved Ts New_variant xs = bindr (variant_new dflt Ts) (\<lambda>x. Ret (xs @ [x]))"
| "variant_step dflt moved Ts (Copy_variant j) xs = bindr (variant_copy Ts (xs ! j)) (\<lambda>x. Ret (xs @ [x]))"
| "variant_step dflt moved Ts (Move_variant j) xs =
     bindr (variant_move moved Ts (xs ! j)) (\<lambda>(other, x). Ret (xs[j := other] @ [x]))"
| "variant_step dflt moved Ts (Assign_variant i j) xs = variant_assign Ts i j xs"
| "variant_step dflt moved Ts (Move_assign_variant i j) xs = variant_move_assign moved Ts i j xs"
| "variant_step dflt moved Ts (Set_variant i U u) xs =
     bindr (variant_assign_value Ts U u (xs ! i)) (\<lambda>x. Ret (xs[i := x]))"

fun variant_spec :: "('t \<Rightarrow> 'v) \<Rightarrow> ('v \<Rightarrow> 'v) \<Rightarrow> 't list \<Rightarrow> ('t, 'v) variant_op \<Rightarrow> ('t \<times> 'v) list \<Rightarrow> ('t \<times> 'v) list" where
  "variant_spec dflt moved Ts New_variant vs = vs @ [(hd Ts, dflt (hd Ts))]"
| "variant_spec dflt moved Ts (Copy_variant j) vs = vs @ [vs ! j]"
| "variant_spec dflt moved Ts (Move_variant j) vs = vs[j := (fst (vs ! j), moved (snd (vs ! j)))] @ [vs ! j]"
| "variant_spec dflt moved Ts (Assign_variant i j) vs = vs[i := vs ! j]"
| "variant_spec dflt moved Ts (Move_assign_variant i j) vs =
     (if i = j then vs else vs[i := vs ! j, j := (fst (vs ! j), moved (snd (vs ! j)))])"
| "variant_spec dflt moved Ts (Set_variant i U u) vs = vs[i := (U, u)]"

fun variant_op_ok :: "'t list \<Rightarrow> nat \<Rightarrow> ('t, 'v) variant_op \<Rightarrow> bool" where
  "variant_op_ok Ts n New_variant \<longleftrightarrow> True"
| "variant_op_ok Ts n (Copy_variant j) \<longleftrightarrow> j < n"
| "variant_op_ok Ts n (Move_variant j) \<longleftrightarrow> j < n"
| "variant_op_ok Ts n (Assign_variant i j) \<longleftrightarrow> i < n \<and> j < n"
| "variant_op_ok Ts n (Move_assign_variant i j) \<longleftrightarrow> i < n \<and> j < n"
| "variant_op_ok Ts n (Set_variant i U u) \<longleftrightarrow> i < n \<and> U \<in> set Ts"

lemma variant_okE:
  assumes "variant_ok Ts x"
  obtains T v where "x = \<lparr>v_buffer = Some (T, v), type_index = vh_index_of Ts T\<rparr>" "T \<in> set Ts" "variant_abs x = (T, v)"
  using assms by (cases x) (auto simp: variant_ok_def variant_abs_def)

lemma variant_made [simp]:
  "variant_abs \<lparr>v_buffer = Some (T, v), type_index = n\<rparr> = (T, v)"
  "variant_ok Ts \<lparr>v_buffer = Some (T, v), type_index = vh_index_of Ts T\<rparr> \<longleftrightarrow> T \<in> set Ts"
  by (auto simp: variant_abs_def variant_ok_def)

lemmas helper_ops = vh_construct_def vh_is_def vh_destruct_def vh_copy_def vh_move_def vh_copy_assign_def
  vh_move_assign_def helper_at_index obj_read_def

lemma variant_new_result:
  "Ts \<noteq> [] \<Longrightarrow> variant_new dflt Ts = Ret \<lparr>v_buffer = Some (hd Ts, dflt (hd Ts)), type_index = vh_index_of Ts (hd Ts)\<rparr>"
  using helper_at_index[of "hd Ts" Ts "\<lambda>T. Ret (Some (T, dflt T))"] by (cases Ts) (simp_all add: variant_new_def vh_construct_def)

lemma variant_step_refines:
  assumes "list_all (variant_ok Ts) xs" "variant_op_ok Ts (length xs) op" "Ts \<noteq> []"
  shows "\<exists>ys. variant_step dflt moved Ts op xs = Ret ys \<and> list_all (variant_ok Ts) ys \<and>
    map variant_abs ys = variant_spec dflt moved Ts op (map variant_abs xs)"
proof -
  have at: "\<exists>T v. xs ! i = \<lparr>v_buffer = Some (T, v), type_index = vh_index_of Ts T\<rparr> \<and> T \<in> set Ts" if "i < length xs" for i
    using assms(1) that by (metis list_all_length variant_okE)
  show ?thesis
  proof (cases op)
    case New_variant
    then show ?thesis using assms by (simp add: variant_new_result)
  next
    case (Copy_variant j)
    then show ?thesis using assms at[of j] by (auto simp: variant_copy_def helper_ops)
  next
    case (Move_variant j)
    then show ?thesis using assms at[of j] by (auto simp: variant_move_def helper_ops map_update intro!: list_all_update)
  next
    case (Assign_variant i j)
    then show ?thesis using assms at[of i] at[of j]
      by (auto simp: variant_assign_def helper_ops map_update vh_index_of_inj intro!: list_all_update map_same)
  next
    case (Move_assign_variant i j)
    then show ?thesis using assms at[of i] at[of j]
      by (auto simp: variant_move_assign_def helper_ops map_update vh_index_of_inj intro!: list_all_update)
  next
    case (Set_variant i U u)
    then show ?thesis using assms at[of i]
      by (auto simp: variant_assign_value_def Let_def helper_ops map_update vh_index_of_inj intro!: list_all_update)
  qed
qed


fun variant_run :: "('t \<Rightarrow> 'v) \<Rightarrow> ('v \<Rightarrow> 'v) \<Rightarrow> 't list \<Rightarrow> ('t, 'v) variant_op list \<Rightarrow> ('t, 'v) variant list \<Rightarrow> ('t, 'v) variant list res" where
  "variant_run dflt moved Ts [] xs = Ret xs"
| "variant_run dflt moved Ts (op # ops) xs = bindr (variant_step dflt moved Ts op xs) (variant_run dflt moved Ts ops)"

text \<open>The number of objects after an operation, and programs that name objects that are there and types of the list.\<close>

fun variant_count :: "('t, 'v) variant_op \<Rightarrow> nat \<Rightarrow> nat" where
  "variant_count New_variant n = Suc n"
| "variant_count (Copy_variant j) n = Suc n"
| "variant_count (Move_variant j) n = Suc n"
| "variant_count _ n = n"

fun variant_typed :: "'t list \<Rightarrow> nat \<Rightarrow> ('t, 'v) variant_op list \<Rightarrow> bool" where
  "variant_typed Ts n [] \<longleftrightarrow> True"
| "variant_typed Ts n (op # ops) \<longleftrightarrow> variant_op_ok Ts n op \<and> variant_typed Ts (variant_count op n) ops"

lemma length_variant_spec: "length (variant_spec dflt moved Ts op vs) = variant_count op (length vs)"
  by (cases op) simp_all

lemma variant_run_refines:
  "list_all (variant_ok Ts) xs \<Longrightarrow> variant_typed Ts (length xs) ops \<Longrightarrow> Ts \<noteq> [] \<Longrightarrow>
   \<exists>ys. variant_run dflt moved Ts ops xs = Ret ys \<and> list_all (variant_ok Ts) ys \<and>
     map variant_abs ys = fold (variant_spec dflt moved Ts) ops (map variant_abs xs)"
proof (induction ops arbitrary: xs)
  case (Cons op ops)
  obtain ys where ys: "variant_step dflt moved Ts op xs = Ret ys" "list_all (variant_ok Ts) ys"
    "map variant_abs ys = variant_spec dflt moved Ts op (map variant_abs xs)"
    using variant_step_refines[of Ts xs op dflt moved] Cons.prems by auto
  have "length ys = variant_count op (length xs)"
    using arg_cong[OF ys(3), of length] by (simp add: length_variant_spec)
  then show ?case using Cons.IH[OF ys(2)] Cons.prems(2,3) ys by simp
qed simp

lemma variant_get_result:
  assumes "variant_ok Ts x"
  shows "variant_get Ts U x = Ret (if fst (variant_abs x) = U then opt_some (snd (variant_abs x)) else opt_none)"
  using assms by (rule variant_okE) (simp add: variant_get_def helper_ops)

text \<open>C3. Variants are type safe: a program of default constructions, copies, moves and assignments, among any number of
  variants and from values of the listed types, never uses a buffer as an object of another type or one that is not
  there, and never panics; every variant holds the value that the same program on tagged values computes, and \<open>get\<close> for
  a type returns it exactly when that is the value's type.\<close>

theorem variant_type_safe:
  assumes "Ts \<noteq> []" "variant_typed Ts 0 ops"
  shows "\<exists>xs. variant_run dflt moved Ts ops [] = Ret xs \<and> list_all (variant_ok Ts) xs \<and>
    map variant_abs xs = fold (variant_spec dflt moved Ts) ops [] \<and>
    (\<forall>x \<in> set xs. \<forall>U. variant_get Ts U x = Ret (if fst (variant_abs x) = U then opt_some (snd (variant_abs x)) else opt_none))"
proof -
  obtain xs where xs: "variant_run dflt moved Ts ops [] = Ret xs" "list_all (variant_ok Ts) xs"
    "map variant_abs xs = fold (variant_spec dflt moved Ts) ops []"
    using variant_run_refines[of Ts "[]" ops dflt moved] assms by auto
  show ?thesis
  proof (intro exI[of _ xs] conjI ballI allI)
    show "variant_get Ts U x = Ret (if fst (variant_abs x) = U then opt_some (snd (variant_abs x)) else opt_none)"
      if "x \<in> set xs" for x U
      using that xs(2) by (intro variant_get_result) (simp add: list_all_iff)
  qed (rule xs)+
qed

definition demo_ops :: "(nat, int) variant_op list" where
  "demo_ops = [New_variant, Set_variant 0 8 5, Copy_variant 0, Set_variant 0 7 6, Move_assign_variant 1 0, Assign_variant 0 1]"

theorem variant_type_safe_witness:
  "variant_typed [7, 8] 0 demo_ops \<and>
    (\<exists>xs. variant_run (\<lambda>T. 0) uminus [7, 8] demo_ops [] = Ret xs \<and> map variant_abs xs = [(7, 6), (7, 6)])"
proof -
  have t: "variant_typed [7, 8] 0 demo_ops" by (simp add: demo_ops_def)
  have f: "fold (variant_spec (\<lambda>T. 0) uminus [7, 8]) demo_ops [] = [(7, 6), (7, 6)]" by (simp add: demo_ops_def)
  obtain xs where "variant_run (\<lambda>T. 0) uminus [7, 8] demo_ops [] = Ret xs"
    "map variant_abs xs = fold (variant_spec (\<lambda>T. 0) uminus [7, 8]) demo_ops []"
    using variant_type_safe[OF list.distinct(2) t, of "\<lambda>T. 0" uminus] by (elim exE conjE)
  then show ?thesis using t f by simp
qed

text \<open>Assigning a value of a type that is not listed destroys the held object and panics.\<close>

lemma helper_at_outside: "Ts \<noteq> [] \<Longrightarrow> length Ts \<le> i \<Longrightarrow> helper_at Ts i f = Stop (Panic ''Invalid variant index'')"
  by (induction Ts i f rule: helper_at.induct) auto

lemma vh_index_of_outside: "U \<notin> set Ts \<Longrightarrow> vh_index_of Ts U = 2 ^ 64 - 1"
  by (induction Ts) auto

lemma variant_assign_unlisted:
  assumes "variant_ok Ts x" "U \<notin> set Ts" "length Ts < 2 ^ 64"
  shows "variant_assign_value Ts U u x = Stop (Panic ''Invalid variant index'')"
  using assms(1)
proof (rule variant_okE)
  fix T v assume x: "x = \<lparr>v_buffer = Some (T, v), type_index = vh_index_of Ts T\<rparr>" "T \<in> set Ts"
  have "vh_index_of Ts T < length Ts" using x(2) by (rule vh_index_of_less)
  then have "vh_index_of Ts U \<noteq> type_index x" "length Ts \<le> vh_index_of Ts U" "Ts \<noteq> []"
    using assms(3) x by (auto simp: vh_index_of_outside[OF assms(2)])
  then show ?thesis using x by (simp add: variant_assign_value_def Let_def helper_ops helper_at_outside)
qed

section \<open>Results hold a value or an error\<close>

lemma result_simps [simp]:
  "result_bool (result_value v)" "\<not> result_bool (result_error e)" "result_has_value (result_value v)"
  "\<not> result_has_value (result_error e)" "result_has_error (result_error e)" "\<not> result_has_error (result_value v)"
  "result_get (result_value v) = Ret v" "result_get_error (result_error e) = Ret e"
  "result_get (result_error e) = Stop (Panic ''result::value() called on error'')"
  "result_get_error (result_value v) = Stop (Panic ''result::error() called on value'')"
  by (simp_all add: result_bool_def result_value_def result_error_def result_has_value_def result_has_error_def has_value_def
      result_get_def result_get_error_def value_or_panic_def opt_value_def opt_some_def opt_none_def)

section \<open>Optional, in programs\<close>

text \<open>C36. Optional objects implement optional values: a program of constructions, copies, moves and assignments on any
  number of them returns, and each stands for the value that the same program computes on values.  There a copy of a
  \<open>const\<close> object is equal to it; the copy of an object that is not \<open>const\<close> is never empty, because the
  constructor from arguments is chosen for it and makes its value of the other object (\<open>conv\<close>); a move leaves nothing
  behind; and moving an object into itself loses its value, since \<open>operator=\<close> does not test for that.\<close>

theorem optional_refines_option:
  assumes "opt_fits 0 ops"
  shows "\<exists>xs. opt_run conv moved ops [] = Ret xs \<and> list_all opt_ok xs \<and> map opt_abs xs = fold (opt_spec conv) ops [] \<and>
    (\<forall>x \<in> set xs. \<forall>d. opt_value_or d x = Ret (case opt_abs x of None \<Rightarrow> d | Some v \<Rightarrow> v) \<and> has_value x = (opt_abs x \<noteq> None))"
proof -
  obtain xs where xs: "opt_run conv moved ops [] = Ret xs" "list_all opt_ok xs" "map opt_abs xs = fold (opt_spec conv) ops []"
    using opt_run_refines[of "[]" ops conv moved] assms by auto
  have v: "opt_value_or d x = Ret (case opt_abs x of None \<Rightarrow> d | Some v \<Rightarrow> v) \<and> has_value x = (opt_abs x \<noteq> None)" if "x \<in> set xs" for x d
  proof -
    have "opt_ok x" using that xs(2) by (simp add: list_all_iff)
    then show ?thesis by (cases rule: opt_cases) (simp_all add: opt_value_or_def has_value_def)
  qed
  show ?thesis by (intro exI[of _ xs] conjI ballI allI) (use xs v in simp_all)
qed

theorem optional_refines_option_witness:
  "\<exists>xs. opt_run (\<lambda>v. case v of None \<Rightarrow> 0 | Some n \<Rightarrow> n + 100) uminus
      [Opt_some (5 :: int), Opt_copy 0, Opt_move_assign 1 1, Opt_move 0, Opt_copy_lvalue 1, Opt_copy_lvalue 2] [] = Ret xs \<and>
    map opt_abs xs = [None, None, Some 5, Some 0, Some 105]"
  using optional_refines_option[of "[Opt_some (5 :: int), Opt_copy 0, Opt_move_assign 1 1, Opt_move 0, Opt_copy_lvalue 1,
      Opt_copy_lvalue 2]" "\<lambda>v. case v of None \<Rightarrow> 0 | Some n \<Rightarrow> n + 100" uminus] by auto

end
