(* ===== verification/Cpu.thy ===== *)
theory Cpu
  imports Calls
begin

text \<open>
  The accessors of the processor's registers, \<^verbatim>\<open>include/asm/regs.h\<close>, the port instructions of
  \<^verbatim>\<open>include/asm/io.h\<close> and \<^verbatim>\<open>include/asm/util.h\<close>.  An inline assembly statement is the effect of its
  instructions, also on the registers that it does not tell the compiler about.
\<close>

section \<open>The state of a processor\<close>

datatype sysreg = CR0 | CR2 | CR3 | CR4 | CR8 | DR0 | DR1 | DR2 | DR3 | DR6 | DR7

datatype selreg = CS | DS | ES | FS | GS | SS

record table_register =
  tr_limit :: u16
  tr_base :: u64

record core =
  general :: machine
  rip :: u64
  rflags :: u64
  system_regs :: "sysreg \<Rightarrow> u64"
  selectors :: "selreg \<Rightarrow> u16"
  msrs :: "u32 \<Rightarrow> u64"
  gdt_register :: table_register
  idt_register :: table_register

definition set_system :: "sysreg \<Rightarrow> u64 \<Rightarrow> core \<Rightarrow> core" where
  "set_system r v c = c\<lparr>system_regs := (system_regs c)(r := v)\<rparr>"

definition set_general :: "reg \<Rightarrow> u64 \<Rightarrow> core \<Rightarrow> core" where
  "set_general r v c = c\<lparr>general := set_reg r v (general c)\<rparr>"

section \<open>Control registers, flags, model-specific registers\<close>

definition get_cr4 :: "core \<Rightarrow> u64" where "get_cr4 c = system_regs c CR4"

definition set_cr4 :: "u64 \<Rightarrow> core \<Rightarrow> core" where "set_cr4 v c = set_system CR4 v c"

definition get_cr3 :: "core \<Rightarrow> u64" where "get_cr3 c = system_regs c CR3"

definition set_cr3 :: "u64 \<Rightarrow> core \<Rightarrow> core" where "set_cr3 v c = set_system CR3 v c"

definition get_cr0 :: "core \<Rightarrow> u64" where "get_cr0 c = system_regs c CR0"

definition set_cr0 :: "u64 \<Rightarrow> core \<Rightarrow> core" where "set_cr0 v c = set_system CR0 v c"

definition get_cr2 :: "core \<Rightarrow> u64" where "get_cr2 c = system_regs c CR2"

definition get_cr8 :: "core \<Rightarrow> u64" where "get_cr8 c = system_regs c CR8"

definition set_cr8 :: "u64 \<Rightarrow> core \<Rightarrow> core" where "set_cr8 v c = set_system CR8 v c"

definition get_flags :: "core \<Rightarrow> u64" where "get_flags c = rflags c"

text \<open>\<open>popfq\<close> in ring 0: the flags that it takes from the stack; bit 1 is always set, \<open>RF\<close>, \<open>VIF\<close> and \<open>VIP\<close> are cleared.\<close>

definition popfq_mask :: u64 where "popfq_mask = 0x247FD5"

definition set_flags :: "u64 \<Rightarrow> core \<Rightarrow> core" where "set_flags v c = c\<lparr>rflags := (v AND popfq_mask) OR 2\<rparr>"

text \<open>
  \<open>rdmsr\<close> and \<open>wrmsr\<close> take the number in \<open>ecx\<close> and the value in \<open>edx:eax\<close>; the statements name \<open>rax\<close> and \<open>rcx\<close> only.
\<close>

definition get_msr :: "u64 \<Rightarrow> core \<Rightarrow> u64 \<times> core" where
  "get_msr n c =
     (let v = msrs c (ucast n); c1 = set_general RDX (drop_bit 32 v) (set_general RAX (v AND mask 32) (set_general RCX n c))
      in (get_reg RAX (general c1), c1))"

definition set_msr :: "u64 \<Rightarrow> u64 \<Rightarrow> core \<Rightarrow> core" where
  "set_msr n v c =
     (let c1 = set_general RAX v (set_general RCX n c)
      in c1\<lparr>msrs := (msrs c1)(ucast n := push_bit 32 (get_reg RDX (general c1)) OR (get_reg RAX (general c1) AND mask 32))\<rparr>)"

definition get_efer :: "core \<Rightarrow> u64 \<times> core" where "get_efer c = get_msr 0xc0000080 c"

definition set_efer :: "u64 \<Rightarrow> core \<Rightarrow> core" where "set_efer v c = set_msr 0xc0000080 v c"

definition get_fs_base :: "core \<Rightarrow> u64 \<times> core" where "get_fs_base c = get_msr 0xc0000100 c"

definition set_fs_base :: "u64 \<Rightarrow> core \<Rightarrow> core" where "set_fs_base v c = set_msr 0xc0000100 v c"

definition get_gs_base :: "core \<Rightarrow> u64 \<times> core" where "get_gs_base c = get_msr 0xc0000101 c"

definition set_gs_base :: "u64 \<Rightarrow> core \<Rightarrow> core" where "set_gs_base v c = set_msr 0xc0000101 v c"

definition get_kernel_gs_base :: "core \<Rightarrow> u64 \<times> core" where "get_kernel_gs_base c = get_msr 0xc0000102 c"

definition set_kernel_gs_base :: "u64 \<Rightarrow> core \<Rightarrow> core" where "set_kernel_gs_base v c = set_msr 0xc0000102 v c"

definition swap_gs :: "core \<Rightarrow> core" where
  "swap_gs c = c\<lparr>msrs := (msrs c)(0xc0000101 := msrs c 0xc0000102, 0xc0000102 := msrs c 0xc0000101)\<rparr>"

section \<open>Debug, segment and general registers\<close>

definition get_dr7 :: "core \<Rightarrow> u64" where "get_dr7 c = system_regs c DR7"

definition set_dr7 :: "u64 \<Rightarrow> core \<Rightarrow> core" where "set_dr7 v c = set_system DR7 v c"

definition get_dr6 :: "core \<Rightarrow> u64" where "get_dr6 c = system_regs c DR6"

definition get_dr0 :: "core \<Rightarrow> u64" where "get_dr0 c = system_regs c DR0"

definition set_dr0 :: "u64 \<Rightarrow> core \<Rightarrow> core" where "set_dr0 v c = set_system DR0 v c"

definition get_dr1 :: "core \<Rightarrow> u64" where "get_dr1 c = system_regs c DR1"

definition set_dr1 :: "u64 \<Rightarrow> core \<Rightarrow> core" where "set_dr1 v c = set_system DR1 v c"

definition get_dr2 :: "core \<Rightarrow> u64" where "get_dr2 c = system_regs c DR2"

definition set_dr2 :: "u64 \<Rightarrow> core \<Rightarrow> core" where "set_dr2 v c = set_system DR2 v c"

definition get_dr3 :: "core \<Rightarrow> u64" where "get_dr3 c = system_regs c DR3"

definition set_dr3 :: "u64 \<Rightarrow> core \<Rightarrow> core" where "set_dr3 v c = set_system DR3 v c"

definition get_cs :: "core \<Rightarrow> u64" where "get_cs c = ucast (selectors c CS)"

definition get_ds :: "core \<Rightarrow> u64" where "get_ds c = ucast (selectors c DS)"

definition get_es :: "core \<Rightarrow> u64" where "get_es c = ucast (selectors c ES)"

definition get_fs :: "core \<Rightarrow> u64" where "get_fs c = ucast (selectors c FS)"

definition get_gs :: "core \<Rightarrow> u64" where "get_gs c = ucast (selectors c GS)"

definition get_ss :: "core \<Rightarrow> u64" where "get_ss c = ucast (selectors c SS)"

definition get_rax :: "core \<Rightarrow> u64" where "get_rax c = get_reg RAX (general c)"

definition get_rbx :: "core \<Rightarrow> u64" where "get_rbx c = get_reg RBX (general c)"

definition get_rcx :: "core \<Rightarrow> u64" where "get_rcx c = get_reg RCX (general c)"

definition get_rdx :: "core \<Rightarrow> u64" where "get_rdx c = get_reg RDX (general c)"

definition get_rsi :: "core \<Rightarrow> u64" where "get_rsi c = get_reg RSI (general c)"

definition get_rdi :: "core \<Rightarrow> u64" where "get_rdi c = get_reg RDI (general c)"

definition get_rbp :: "core \<Rightarrow> u64" where "get_rbp c = get_reg RBP (general c)"

definition get_r8 :: "core \<Rightarrow> u64" where "get_r8 c = get_reg R8 (general c)"

definition get_r9 :: "core \<Rightarrow> u64" where "get_r9 c = get_reg R9 (general c)"

definition get_r10 :: "core \<Rightarrow> u64" where "get_r10 c = get_reg R10 (general c)"

definition get_r11 :: "core \<Rightarrow> u64" where "get_r11 c = get_reg R11 (general c)"

definition get_r12 :: "core \<Rightarrow> u64" where "get_r12 c = get_reg R12 (general c)"

definition get_r13 :: "core \<Rightarrow> u64" where "get_r13 c = get_reg R13 (general c)"

definition get_r14 :: "core \<Rightarrow> u64" where "get_r14 c = get_reg R14 (general c)"

definition get_r15 :: "core \<Rightarrow> u64" where "get_r15 c = get_reg R15 (general c)"

definition get_rsp :: "core \<Rightarrow> u64" where "get_rsp c = get_reg RSP (general c)"

definition get_rip :: "core \<Rightarrow> u64" where "get_rip c = rip c"

text \<open>
  \<open>cpuid\<close>: the answer depends on \<open>eax\<close> and on what \<open>ecx\<close> happens to hold; a result is stored where its pointer is not
  null.
\<close>

definition store_unless_null :: "u64 \<Rightarrow> u32 \<Rightarrow> (u64 \<Rightarrow> u32) \<Rightarrow> u64 \<Rightarrow> u32" where
  "store_unless_null p v m = (if p = 0 then m else m(p := v))"

definition cpuid :: "(u32 \<Rightarrow> u32 \<Rightarrow> u32 \<times> u32 \<times> u32 \<times> u32) \<Rightarrow> u32 \<Rightarrow> u64 \<Rightarrow> u64 \<Rightarrow> u64 \<Rightarrow> u64 \<Rightarrow> core \<Rightarrow> (u64 \<Rightarrow> u32) \<Rightarrow> u64 \<Rightarrow> u32" where
  "cpuid answer leaf out_a out_b out_c out_d c m =
     (case answer leaf (ucast (get_reg RCX (general c))) of (a, b, ec, ed) \<Rightarrow>
       store_unless_null out_d ed (store_unless_null out_c ec (store_unless_null out_b b (store_unless_null out_a a m))))"

section \<open>Descriptor tables\<close>

record dtr =
  dtr_size :: u64
  dtr_base :: u64

definition get_dtr :: "table_register \<Rightarrow> dtr" where
  "get_dtr t = \<lparr>dtr_size = of_nat (unat (tr_limit t) + 1), dtr_base = tr_base t\<rparr>"

definition get_idtr :: "core \<Rightarrow> dtr" where "get_idtr c = get_dtr (idt_register c)"

definition get_gdtr :: "core \<Rightarrow> dtr" where "get_gdtr c = get_dtr (gdt_register c)"

definition make_dtr :: "u64 \<Rightarrow> u64 \<Rightarrow> table_register" where
  "make_dtr address sz = \<lparr>tr_limit = ucast (sz - 1), tr_base = address\<rparr>"

definition set_gdtr :: "u64 \<Rightarrow> u64 \<Rightarrow> core \<Rightarrow> core" where
  "set_gdtr address sz c = c\<lparr>gdt_register := make_dtr address sz\<rparr>"

definition set_idtr :: "u64 \<Rightarrow> u64 \<Rightarrow> core \<Rightarrow> core res" where
  "set_idtr address sz c =
     (let c1 = c\<lparr>idt_register := make_dtr address sz\<rparr>; check = get_idtr c1
      in if dtr_base check \<noteq> address \<or> dtr_size check \<noteq> sz then Stop (Panic ''Failed to set IDTR'') else Ret c1)"

definition set_gdtr_from :: "dtr \<Rightarrow> core \<Rightarrow> core" where "set_gdtr_from t c = set_gdtr (dtr_base t) (dtr_size t) c"

definition set_idtr_from :: "dtr \<Rightarrow> core \<Rightarrow> core res" where "set_idtr_from t c = set_idtr (dtr_base t) (dtr_size t) c"

text \<open>\<open>get_registers\<close>: the initialisers run in order, so that the later ones see what the earlier ones change.\<close>

record register_file =
  rf_general :: "u64 list"
  rf_flow :: "u64 list"
  rf_selectors :: "u64 list"
  rf_bases :: "u64 list"
  rf_control :: "u64 list"
  rf_debug :: "u64 list"
  rf_gdtr :: dtr
  rf_idtr :: dtr

definition get_registers :: "core \<Rightarrow> register_file \<times> core" where
  "get_registers c =
     (let g = [get_rax c, get_rbx c, get_rcx c, get_rdx c, get_rsi c, get_rdi c, get_rbp c,
               get_r8 c, get_r9 c, get_r10 c, get_r11 c, get_r12 c, get_r13 c, get_r14 c, get_r15 c];
          f = [get_rsp c, get_rip c, get_flags c];
          s = [get_cs c, get_ss c, get_ds c, get_es c, get_fs c, get_gs c];
          (fb, c1) = get_fs_base c;
          (gb, c2) = get_gs_base c1
      in (\<lparr>rf_general = g, rf_flow = f, rf_selectors = s, rf_bases = [fb, gb],
            rf_control = [get_cr0 c2, get_cr2 c2, get_cr3 c2, get_cr4 c2],
            rf_debug = [get_dr0 c2, get_dr1 c2, get_dr2 c2, get_dr3 c2, get_dr6 c2, get_dr7 c2],
            rf_gdtr = get_gdtr c2, rf_idtr = get_idtr c2\<rparr>, c2))"

section \<open>Interrupt flag, caches and ports\<close>

definition hlt :: "core \<Rightarrow> core" where "hlt c = c"

definition cli :: "core \<Rightarrow> core" where "cli c = c\<lparr>rflags := unset_bit 9 (rflags c)\<rparr>"

definition sti :: "core \<Rightarrow> core" where "sti c = c\<lparr>rflags := set_bit 9 (rflags c)\<rparr>"

text \<open>
  \<open>flush_cache\<close> with a cache in front of the memory: \<open>wbinvd\<close> writes it back and empties it, \<open>invd\<close> empties it without
  writing it back; \<open>between\<close> is what other processors that share the cache write between the two.
\<close>

record cached =
  cache_lines :: "(u64 \<times> u8) list"
  main_memory :: "u64 \<Rightarrow> u8"

definition wbinvd :: "cached \<Rightarrow> cached" where
  "wbinvd s = s\<lparr>cache_lines := [], main_memory := fold (\<lambda>(a, v) m. m(a := v)) (cache_lines s) (main_memory s)\<rparr>"

definition invd :: "cached \<Rightarrow> cached" where "invd s = s\<lparr>cache_lines := []\<rparr>"

definition flush_cache :: "(u64 \<times> u8) list \<Rightarrow> cached \<times> core \<Rightarrow> cached \<times> core" where
  "flush_cache between = (\<lambda>(s, c).
     (let s1 = wbinvd s; s2 = s1\<lparr>cache_lines := cache_lines s1 @ between\<rparr>; s3 = invd s2
      in (s3, set_cr3 (get_cr3 c) c)))"

text \<open>Ports: the devices behind them are a parameter, with the width of the access in bytes.\<close>

record 'd ports =
  port_out :: "nat \<Rightarrow> u16 \<Rightarrow> u32 \<Rightarrow> 'd \<Rightarrow> 'd"
  port_in :: "nat \<Rightarrow> u16 \<Rightarrow> 'd \<Rightarrow> u32 \<times> 'd"

definition io_write8 :: "'d ports \<Rightarrow> u16 \<Rightarrow> u8 \<Rightarrow> 'd \<Rightarrow> 'd" where "io_write8 b p v d = port_out b 1 p (ucast v) d"

definition io_write16 :: "'d ports \<Rightarrow> u16 \<Rightarrow> u16 \<Rightarrow> 'd \<Rightarrow> 'd" where "io_write16 b p v d = port_out b 2 p (ucast v) d"

definition io_write32 :: "'d ports \<Rightarrow> u16 \<Rightarrow> u32 \<Rightarrow> 'd \<Rightarrow> 'd" where "io_write32 b p v d = port_out b 4 p v d"

definition io_read8 :: "'d ports \<Rightarrow> u16 \<Rightarrow> 'd \<Rightarrow> u8 \<times> 'd" where "io_read8 b p d = map_prod ucast id (port_in b 1 p d)"

definition io_read16 :: "'d ports \<Rightarrow> u16 \<Rightarrow> 'd \<Rightarrow> u16 \<times> 'd" where "io_read16 b p d = map_prod ucast id (port_in b 2 p d)"

definition io_read32 :: "'d ports \<Rightarrow> u16 \<Rightarrow> 'd \<Rightarrow> u32 \<times> 'd" where "io_read32 b p d = port_in b 4 p d"

section \<open>What they guarantee\<close>

lemma tr_limit_less: "unat (tr_limit t) < 2 ^ 16"
  using unsigned_less[of "tr_limit t"] by simp

text \<open>A table of 1 to 65536 bytes is read back as it was set; any other sz is cut off by the limit's 16 bits.\<close>

lemma dtr_round_trip:
  assumes "0 < unat sz" "unat sz \<le> 65536"
  shows "get_dtr (make_dtr address sz) = \<lparr>dtr_size = sz, dtr_base = address\<rparr>"
proof -
  have "unat (sz - 1) = unat sz - 1" using unat_diff_u64[of 1 sz] assms(1) by (simp add: word_le_nat_alt)
  then have "unat (ucast (sz - 1) :: u16) + 1 = unat sz"
    using assms by (simp add: unsigned_ucast_eq take_bit_nat_eq_self)
  then show ?thesis by (simp add: get_dtr_def make_dtr_def)
qed

lemma dtr_size_bounds: "0 < unat (dtr_size (get_dtr t)) \<and> unat (dtr_size (get_dtr t)) \<le> 65536"
proof -
  have "unat (tr_limit t) + 1 \<le> 65536" using tr_limit_less[of t] by simp
  moreover from this have "unat (of_nat (unat (tr_limit t) + 1) :: u64) = unat (tr_limit t) + 1"
    by (intro unat_of_nat_u64) simp
  ultimately show ?thesis by (simp add: get_dtr_def del: of_nat_add of_nat_Suc)
qed

theorem set_idtr_result:
  "set_idtr address sz c =
     (if 0 < unat sz \<and> unat sz \<le> 65536 then Ret (c\<lparr>idt_register := make_dtr address sz\<rparr>)
      else Stop (Panic ''Failed to set IDTR''))"
proof (cases "0 < unat sz \<and> unat sz \<le> 65536")
  case True
  then show ?thesis using dtr_round_trip[of sz address] by (simp add: set_idtr_def get_idtr_def)
next
  case False
  then have "dtr_size (get_dtr (make_dtr address sz)) \<noteq> sz" using dtr_size_bounds[of "make_dtr address sz"] by metis
  then show ?thesis using False by (auto simp: set_idtr_def get_idtr_def Let_def)
qed

lemma idtr_round_trip:
  "set_idtr address sz c = Ret c' \<Longrightarrow> get_idtr c' = \<lparr>dtr_size = sz, dtr_base = address\<rparr> \<and> set_idtr_from (get_idtr c') c'' = Ret (c''\<lparr>idt_register := idt_register c'\<rparr>)"
  by (auto simp: set_idtr_result get_idtr_def set_idtr_from_def dtr_round_trip split: if_splits)

text \<open>\<open>setGDTR\<close> has no such test.\<close>

lemma gdtr_too_big: "get_gdtr (set_gdtr address 0x10001 c) = \<lparr>dtr_size = 1, dtr_base = address\<rparr>"
  by (simp add: get_gdtr_def set_gdtr_def get_dtr_def make_dtr_def)

text \<open>A model-specific register is read without its high half, and written with what \<open>edx\<close> holds as its high half.\<close>

lemma get_msr_low_half: "fst (get_msr n c) = msrs c (ucast n) AND mask 32"
  by (simp add: get_msr_def Let_def set_general_def)

lemma set_msr_value:
  "msrs (set_msr n v c) (ucast n) = push_bit 32 (get_reg RDX (general c)) OR (v AND mask 32)"
  by (simp add: set_msr_def Let_def set_general_def)

lemma get_msr_clobbers_rdx: "get_reg RDX (general (snd (get_msr n c))) = drop_bit 32 (msrs c (ucast n))"
  by (simp add: get_msr_def Let_def set_general_def)

text \<open>What others write to a shared cache while it is flushed is lost.\<close>

lemma flush_cache_loses: "main_memory (fst (flush_cache between (s, c))) = main_memory (wbinvd s)"
  "cache_lines (fst (flush_cache between (s, c))) = []"
  by (simp_all add: flush_cache_def Let_def invd_def)

lemma flush_cache_core: "snd (flush_cache between (s, c)) = c"
  by (simp add: flush_cache_def Let_def set_cr3_def get_cr3_def set_system_def)

lemma set_get_flags: "get_flags (set_flags (get_flags c) c) = (get_flags c AND popfq_mask) OR 2"
  by (simp add: get_flags_def set_flags_def)

end
