(* ===== verification/Layout.thy ===== *)
theory Layout
  imports Ext4 Apic Pci Sata
begin

text \<open>
  The layout of the structures that are shared with disks, firmware and controllers, from their declarations: the
  superblock, group descriptors, inodes and extents of \<^verbatim>\<open>src/high/file/ext4.cpp\<close>, the tables of
  \<^verbatim>\<open>include/ACPI/RSDP.h\<close> and \<^verbatim>\<open>src/high/ACPI/APIC.cpp\<close>, the headers of \<^verbatim>\<open>include/PCI/PCI.h\<close> and
  the structures of \<^verbatim>\<open>include/PCI/sata.h\<close>.  The component theories read and write bytes at offsets; here these
  are shown to be the offsets of the fields, and the sizes to be the ones that the source asserts.
\<close>

section \<open>Structures\<close>

text \<open>A field of one or more elements of a size, or the bit fields of one unit.\<close>

datatype member = Field string nat nat | Bits nat "(string \<times> nat) list"

fun element_size :: "member \<Rightarrow> nat" where
  "element_size (Field n s c) = s"
| "element_size (Bits s fs) = s"

fun member_size :: "member \<Rightarrow> nat" where
  "member_size (Field n s c) = s * c"
| "member_size (Bits s fs) = s"

fun member_names :: "member \<Rightarrow> string list" where
  "member_names (Field n s c) = [n]"
| "member_names (Bits s fs) = map fst fs"

definition align_up :: "nat \<Rightarrow> nat \<Rightarrow> nat" where "align_up o' a = (if a = 0 then o' else (o' + a - 1) div a * a)"

text \<open>A packed structure has no alignment; otherwise an element is aligned to its size.\<close>

definition alignment :: "bool \<Rightarrow> member \<Rightarrow> nat" where "alignment packed m = (if packed then 1 else element_size m)"

definition add_places :: "string list \<Rightarrow> nat \<Rightarrow> (string \<times> nat) list \<times> nat \<Rightarrow> (string \<times> nat) list \<times> nat" where
  "add_places ns a r = (map (\<lambda>n. (n, a)) ns @ fst r, snd r)"

fun place_members :: "bool \<Rightarrow> nat \<Rightarrow> member list \<Rightarrow> (string \<times> nat) list \<times> nat" where
  "place_members packed o' [] = ([], o')"
| "place_members packed o' (m # ms) =
     add_places (member_names m) (align_up o' (alignment packed m))
       (place_members packed (align_up o' (alignment packed m) + member_size m) ms)"

definition offset_of :: "bool \<Rightarrow> member list \<Rightarrow> string \<Rightarrow> nat" where
  "offset_of packed ms n = the (map_of (fst (place_members packed 0 ms)) n)"

definition struct_size :: "bool \<Rightarrow> member list \<Rightarrow> nat" where
  "struct_size packed ms = align_up (snd (place_members packed 0 ms)) (fold (\<lambda>m. max (alignment packed m)) ms 1)"

fun bit_shift :: "(string \<times> nat) list \<Rightarrow> string \<Rightarrow> nat" where
  "bit_shift [] n = 0"
| "bit_shift ((m, w) # fs) n = (if m = n then 0 else w + bit_shift fs n)"

definition bits_of :: "member list \<Rightarrow> string \<Rightarrow> (string \<times> nat) list" where
  "bits_of ms n = hd ([fs. Bits s fs \<leftarrow> ms, n \<in> fst ` set fs] @ [[]])"

section \<open>Declarations\<close>

definition superblock_layout :: "member list" where
  "superblock_layout = [Field ''s_inodes_count'' 4 1, Field ''s_blocks_count_lo'' 4 1, Field ''s_r_blocks_count_lo'' 4 1,
     Field ''s_free_blocks_count_lo'' 4 1, Field ''s_free_inodes_count'' 4 1,
     Field ''s_first_data_block'' 4 1, Field ''s_log_block_size'' 4 1, Field ''s_log_cluster_size'' 4 1,
     Field ''s_blocks_per_group'' 4 1, Field ''s_clusters_per_group'' 4 1, Field ''s_inodes_per_group'' 4 1,
     Field ''s_mtime'' 4 1, Field ''s_wtime'' 4 1, Field ''s_mnt_count'' 2 1, Field ''s_max_mnt_count'' 2 1,
     Field ''s_magic'' 2 1, Field ''s_state'' 2 1, Field ''s_errors'' 2 1, Field ''s_minor_rev_level'' 2 1,
     Field ''s_lastcheck'' 4 1, Field ''s_checkinterval'' 4 1, Field ''s_creator_os'' 4 1,
     Field ''s_rev_level'' 4 1, Field ''s_def_resuid'' 2 1, Field ''s_def_resgid'' 2 1,
     Field ''s_first_ino'' 4 1, Field ''s_inode_size'' 2 1, Field ''s_block_group_nr'' 2 1,
     Field ''s_feature_compat'' 4 1, Field ''s_feature_incompat'' 4 1, Field ''s_feature_ro_compat'' 4 1,
     Field ''s_uuid'' 1 16, Field ''s_volume_name'' 1 16, Field ''s_last_mounted'' 1 64,
     Field ''s_algorithm_usage_bitmap'' 4 1, Field ''s_prealloc_blocks'' 1 1,
     Field ''s_prealloc_dir_blocks'' 1 1, Field ''s_reserved_gdt_blocks'' 2 1, Field ''s_journal_uuid'' 1 16,
     Field ''s_journal_inum'' 4 1, Field ''s_journal_dev'' 4 1, Field ''s_last_orphan'' 4 1,
     Field ''s_hash_seed'' 4 4, Field ''s_def_hash_version'' 1 1, Field ''s_jnl_backup_type'' 1 1,
     Field ''s_desc_size'' 2 1, Field ''s_default_mount_opts'' 4 1, Field ''s_first_meta_bg'' 4 1,
     Field ''s_mkfs_time'' 4 1, Field ''s_jnl_blocks'' 4 17, Field ''s_blocks_count_hi'' 4 1,
     Field ''s_r_blocks_count_hi'' 4 1, Field ''s_free_blocks_count_hi'' 4 1,
     Field ''s_min_extra_isize'' 2 1, Field ''s_want_extra_isize'' 2 1, Field ''s_flags'' 4 1,
     Field ''s_raid_stride'' 2 1, Field ''s_mmp_interval'' 2 1, Field ''s_mmp_block'' 8 1,
     Field ''s_raid_stripe_width'' 4 1, Field ''s_log_groups_per_flex'' 1 1, Field ''s_checksum_type'' 1 1,
     Field ''s_reserved_pad'' 2 1, Field ''s_kbytes_written'' 8 1, Field ''s_snapshot_inum'' 4 1,
     Field ''s_snapshot_id'' 4 1, Field ''s_snapshot_r_blocks_count'' 8 1, Field ''s_snapshot_list'' 4 1,
     Field ''s_error_count'' 4 1, Field ''s_first_error_time'' 4 1, Field ''s_first_error_ino'' 4 1,
     Field ''s_first_error_block'' 8 1, Field ''s_first_error_func'' 1 32, Field ''s_first_error_line'' 4 1,
     Field ''s_last_error_time'' 4 1, Field ''s_last_error_ino'' 4 1, Field ''s_last_error_line'' 4 1,
     Field ''s_last_error_block'' 8 1, Field ''s_last_error_func'' 1 32, Field ''s_mount_opts'' 1 64,
     Field ''s_usr_quota_inum'' 4 1, Field ''s_grp_quota_inum'' 4 1, Field ''s_overhead_blocks'' 4 1,
     Field ''s_backup_bgs'' 4 2, Field ''s_encrypt_algos'' 1 4, Field ''s_encrypt_pw_salt'' 1 16,
     Field ''s_lpf_ino'' 4 1, Field ''s_prj_quota_inum'' 4 1, Field ''s_checksum_seed'' 4 1,
     Field ''s_wtime_hi'' 1 1, Field ''s_mkfs_time_hi'' 1 1, Field ''s_lastcheck_hi'' 1 1,
     Field ''s_first_error_time_hi'' 1 1, Field ''s_last_error_time_hi'' 1 1, Field ''s_pad'' 1 2,
     Field ''s_reserved'' 4 96, Field ''s_checksum'' 4 1]"

definition group_descriptor_layout :: "member list" where
  "group_descriptor_layout = [Field ''bg_block_bitmap'' 4 1, Field ''bg_inode_bitmap'' 4 1, Field ''bg_inode_table'' 4 1,
     Field ''bg_free_blocks_count_lo'' 2 1, Field ''bg_free_inodes_count_lo'' 2 1,
     Field ''bg_used_dirs_count_lo'' 2 1, Field ''bg_flags'' 2 1, Field ''bg_exclude_bitmap_lo'' 4 1,
     Field ''bg_block_bitmap_csum_lo'' 2 1, Field ''bg_inode_bitmap_csum_lo'' 2 1,
     Field ''bg_itable_unused_lo'' 2 1, Field ''bg_checksum'' 2 1, Field ''bg_block_bitmap_hi'' 4 1,
     Field ''bg_inode_bitmap_hi'' 4 1, Field ''bg_inode_table_hi'' 4 1,
     Field ''bg_free_blocks_count_hi'' 2 1, Field ''bg_free_inodes_count_hi'' 2 1,
     Field ''bg_used_dirs_count_hi'' 2 1, Field ''bg_itable_unused_hi'' 2 1,
     Field ''bg_exclude_bitmap_hi'' 4 1, Field ''bg_block_bitmap_csum_hi'' 2 1,
     Field ''bg_inode_bitmap_csum_hi'' 2 1, Field ''bg_reserved'' 4 1]"

definition inode_layout :: "member list" where
  "inode_layout = [Field ''i_mode'' 2 1, Field ''i_uid'' 2 1, Field ''i_size_lo'' 4 1, Field ''i_atime'' 4 1,
     Field ''i_ctime'' 4 1, Field ''i_mtime'' 4 1, Field ''i_dtime'' 4 1, Field ''i_gid'' 2 1,
     Field ''i_links_count'' 2 1, Field ''i_blocks_lo'' 4 1, Field ''i_flags'' 4 1, Field ''osd1'' 1 4,
     Field ''i_block'' 1 60, Field ''i_generation'' 4 1, Field ''i_file_acl_lo'' 4 1,
     Field ''i_size_high'' 4 1, Field ''i_obso_faddr'' 4 1, Field ''osd2'' 1 12, Field ''i_extra_isize'' 2 1,
     Field ''i_checksum_hi'' 2 1, Field ''i_ctime_extra'' 4 1, Field ''i_mtime_extra'' 4 1,
     Field ''i_atime_extra'' 4 1, Field ''i_crtime'' 4 1, Field ''i_crtime_extra'' 4 1,
     Field ''i_version_hi'' 4 1, Field ''i_projid'' 4 1]"

definition extent_header_layout :: "member list" where
  "extent_header_layout = [Field ''magic'' 2 1, Field ''entries'' 2 1, Field ''max'' 2 1, Field ''depth'' 2 1,
     Field ''generation'' 4 1]"

definition extent_node_layout :: "member list" where
  "extent_node_layout = [Field ''block'' 4 1, Field ''next_block_lo'' 4 1, Field ''next_block_hi'' 2 1, Field ''unused'' 2 1]"

definition extent_leaf_layout :: "member list" where
  "extent_leaf_layout = [Field ''block'' 4 1, Field ''len'' 2 1, Field ''start_hi'' 2 1, Field ''start_lo'' 4 1]"

definition rsdp_layout :: "member list" where
  "rsdp_layout = [Field ''signature'' 1 8, Field ''checksum'' 1 1, Field ''OEMID'' 1 6, Field ''revision'' 1 1,
     Field ''rsdtAddress'' 4 1]"

definition rsdp2_layout :: "member list" where
  "rsdp2_layout = [Field ''firstPart'' 1 (struct_size True rsdp_layout), Field ''length'' 4 1, Field ''xsdtAddress'' 8 1,
     Field ''extendedChecksum'' 1 1, Field ''reserved'' 1 3]"

definition madt_layout :: "member list" where
  "madt_layout = [Field ''signature'' 1 4, Field ''length'' 4 1, Field ''revision'' 1 1, Field ''checksum'' 1 1,
     Field ''oem_id'' 1 6, Field ''oem_table_id'' 1 8, Field ''oem_revision'' 4 1, Field ''creator_id'' 4 1,
     Field ''creator_revision'' 4 1, Field ''local_apic_address'' 4 1, Field ''flags'' 4 1]"

definition core_entry_layout :: "member list" where
  "core_entry_layout = [Field ''type'' 1 1, Field ''length'' 1 1, Field ''acpi_processor_id'' 1 1, Field ''apic_id'' 1 1,
     Field ''flags'' 4 1]"

definition lapic_entry_layout :: "member list" where
  "lapic_entry_layout = [Field ''type'' 1 1, Field ''length'' 1 1, Field ''reserved'' 2 1, Field ''address'' 8 1]"

definition io_apic_entry_layout :: "member list" where
  "io_apic_entry_layout = [Field ''type'' 1 1, Field ''length'' 1 1, Field ''ioapic_id'' 1 1, Field ''reserved'' 1 1,
     Field ''address'' 4 1, Field ''global_system_interrupt_base'' 4 1]"

definition override_entry_layout :: "member list" where
  "override_entry_layout = [Field ''type'' 1 1, Field ''length'' 1 1, Field ''bus'' 1 1, Field ''source'' 1 1,
     Field ''global_system_interrupt'' 4 1, Field ''flags'' 2 1]"

definition redirection_layout :: "member list" where
  "redirection_layout = [
     Bits 4 [(''vector'', 8), (''delivery_mode'', 3), (''destination_mode'', 1), (''delivery_status'', 1), (''polarity'', 1), (''remote_irr'', 1), (''trigger_mode'', 1), (''mask'', 1), (''reserved'', 15)]]"

definition pci_header_layout :: "member list" where
  "pci_header_layout = [Field ''vendor_id'' 2 1, Field ''device_id'' 2 1, Field ''command'' 2 1, Field ''status'' 2 1,
     Field ''revision_id'' 1 1, Field ''prog_if'' 1 1, Field ''subclass'' 1 1, Field ''class_code'' 1 1,
     Field ''cache_line_size'' 1 1, Field ''latency_timer'' 1 1, Field ''header_type'' 1 1,
     Field ''bist'' 1 1]"

definition pci_bridge_layout :: "member list" where
  "pci_bridge_layout = [Field ''bar0'' 4 1, Field ''bar1'' 4 1, Field ''primary_bus'' 1 1, Field ''secondary_bus'' 1 1,
     Field ''subordinate_bus'' 1 1, Field ''secondary_latency_timer'' 1 1, Field ''io_base'' 1 1,
     Field ''io_limit'' 1 1, Field ''secondary_status'' 2 1, Field ''memory_base'' 2 1,
     Field ''memory_limit'' 2 1, Field ''prefetchable_memory_base'' 2 1,
     Field ''prefetchable_memory_limit'' 2 1, Field ''prefetchable_memory_base_upper'' 4 1,
     Field ''prefetchable_memory_limit_upper'' 4 1, Field ''io_base_upper'' 2 1,
     Field ''io_limit_upper'' 2 1, Field ''capability_pointer'' 1 1, Field ''reserved'' 1 3,
     Field ''expansion_rom_base'' 4 1, Field ''interrupt_line'' 1 1, Field ''interrupt_pin'' 1 1,
     Field ''bridge_control'' 2 1]"

definition h2d_layout :: "member list" where
  "h2d_layout = [Field ''fis_type'' 1 1, Bits 1 [(''pmport'', 4), (''rsv0'', 3), (''isCommand'', 1)],
     Field ''command'' 1 1, Field ''featurel'' 1 1, Field ''lba0'' 1 1, Field ''lba1'' 1 1,
     Field ''lba2'' 1 1, Field ''device'' 1 1, Field ''lba3'' 1 1, Field ''lba4'' 1 1, Field ''lba5'' 1 1,
     Field ''featureh'' 1 1, Field ''count'' 2 1, Field ''icc'' 1 1, Field ''control'' 1 1,
     Field ''rsv1'' 1 4]"

definition d2h_layout :: "member list" where
  "d2h_layout = [Field ''fis_type'' 1 1, Bits 1 [(''pmport'', 4), (''rsv0'', 2), (''interrupt'', 1), (''rsv1'', 1)],
     Field ''status'' 1 1, Field ''error'' 1 1, Field ''lba0'' 1 1, Field ''lba1'' 1 1, Field ''lba2'' 1 1,
     Field ''device'' 1 1, Field ''lba3'' 1 1, Field ''lba4'' 1 1, Field ''lba5'' 1 1, Field ''rsv2'' 1 1,
     Field ''count'' 2 1, Field ''rsv3'' 1 2, Field ''rsv4'' 1 4]"

definition pio_setup_layout :: "member list" where
  "pio_setup_layout = [Field ''fis_type'' 1 1,
     Bits 1 [(''pmport'', 4), (''rsv0'', 1), (''data_direction'', 1), (''interrupt'', 1), (''rsv1'', 1)],
     Field ''status'' 1 1, Field ''error'' 1 1, Field ''lba0'' 1 1, Field ''lba1'' 1 1, Field ''lba2'' 1 1,
     Field ''device'' 1 1, Field ''lba3'' 1 1, Field ''lba4'' 1 1, Field ''lba5'' 1 1, Field ''rsv2'' 1 1,
     Field ''count'' 2 1, Field ''rsv3'' 1 1, Field ''e_status'' 1 1, Field ''transfer_count'' 2 1,
     Field ''rsv4'' 1 2]"

definition dma_setup_layout :: "member list" where
  "dma_setup_layout = [Field ''fis_type'' 1 1,
     Bits 1 [(''pmport'', 4), (''rsv0'', 1), (''data_direction'', 1), (''interrupt'', 1), (''auto_activate'', 1)],
     Field ''rsv1'' 1 2, Field ''dma_buffer_id'' 8 1, Field ''rsv2'' 4 1, Field ''dma_buffer_offset'' 4 1,
     Field ''transfer_count'' 4 1, Field ''rsv3'' 4 1]"

definition received_fis_layout :: "member list" where
  "received_fis_layout = [Field ''dma_setup'' 1 (struct_size True dma_setup_layout), Field ''padding'' 1 4,
     Field ''pio_setup'' 1 (struct_size True pio_setup_layout), Field ''padding2'' 1 12,
     Field ''d2h_register'' 1 (struct_size True d2h_layout), Field ''padding3'' 1 4, Field ''sdbfis'' 8 1,
     Field ''ufis'' 1 64, Field ''rsv'' 1 96]"

definition command_header_layout :: "member list" where
  "command_header_layout = [Bits 1 [(''command_fis_length'', 5), (''atapi'', 1), (''direction'', 1), (''prefetchable'', 1)],
     Bits 1 [(''reset'', 1), (''bist'', 1), (''clear_busy'', 1), (''reserved'', 1), (''port_multiplier'', 4)],
     Field ''physical_region_descriptor_table_entry_count'' 2 1,
     Field ''physical_region_descriptor_byte_count'' 4 1, Field ''command_table_base_address_low'' 4 1,
     Field ''command_table_base_address_high'' 4 1, Field ''reserved2'' 4 4]"

definition region_layout :: "member list" where
  "region_layout = [Field ''physical_base_Address'' 8 1, Field ''reserved'' 4 1,
     Bits 4 [(''byte_count'', 22), (''reserved1'', 9), (''interrupt_on_completion'', 1)]]"

lemmas place_simps = align_up_def alignment_def add_places_def offset_of_def struct_size_def

section \<open>Sizes\<close>

theorem structure_sizes:
  "struct_size False superblock_layout = 1024" "struct_size False group_descriptor_layout = 64"
  "struct_size False inode_layout = 0xA0" "struct_size False extent_header_layout = 12"
  "struct_size False extent_node_layout = 12" "struct_size False extent_leaf_layout = 12"
  "struct_size True rsdp_layout = 20" "struct_size True rsdp2_layout = 36" "struct_size True madt_layout = 44"
  "struct_size True pci_header_layout = 16" "struct_size True pci_bridge_layout = 48"
  "struct_size True h2d_layout = 20" "struct_size True received_fis_layout = 256"
  "struct_size True command_header_layout * 32 = 1024" "struct_size True region_layout = 16"
  by (simp_all add: place_simps superblock_layout_def group_descriptor_layout_def inode_layout_def extent_header_layout_def extent_node_layout_def extent_leaf_layout_def rsdp_layout_def rsdp2_layout_def madt_layout_def pci_header_layout_def pci_bridge_layout_def h2d_layout_def d2h_layout_def pio_setup_layout_def dma_setup_layout_def received_fis_layout_def command_header_layout_def region_layout_def)

text \<open>A command table has 128 bytes before its regions; 32 of them fill three pages.\<close>

lemma command_table_size:
  "(64 + 16 + 48 + unat prdt_max * struct_size True region_layout) * 32 = unat ((page_count_per_port - 1) * page_size)"
  using structure_sizes(15) by (simp add: prdt_max_16 page_count_per_port_def page_size_def)

section \<open>Fields\<close>

text \<open>Every member of the superblock with its offset.\<close>

lemma superblock_places: "place_members False 0 superblock_layout = ([(''s_inodes_count'', 0), (''s_blocks_count_lo'', 4), (''s_r_blocks_count_lo'', 8),
     (''s_free_blocks_count_lo'', 12), (''s_free_inodes_count'', 16), (''s_first_data_block'', 20),
     (''s_log_block_size'', 24), (''s_log_cluster_size'', 28), (''s_blocks_per_group'', 32),
     (''s_clusters_per_group'', 36), (''s_inodes_per_group'', 40), (''s_mtime'', 44), (''s_wtime'', 48),
     (''s_mnt_count'', 52), (''s_max_mnt_count'', 54), (''s_magic'', 56), (''s_state'', 58), (''s_errors'', 60),
     (''s_minor_rev_level'', 62), (''s_lastcheck'', 64), (''s_checkinterval'', 68), (''s_creator_os'', 72),
     (''s_rev_level'', 76), (''s_def_resuid'', 80), (''s_def_resgid'', 82), (''s_first_ino'', 84),
     (''s_inode_size'', 88), (''s_block_group_nr'', 90), (''s_feature_compat'', 92), (''s_feature_incompat'', 96),
     (''s_feature_ro_compat'', 100), (''s_uuid'', 104), (''s_volume_name'', 120), (''s_last_mounted'', 136),
     (''s_algorithm_usage_bitmap'', 200), (''s_prealloc_blocks'', 204), (''s_prealloc_dir_blocks'', 205),
     (''s_reserved_gdt_blocks'', 206), (''s_journal_uuid'', 208), (''s_journal_inum'', 224),
     (''s_journal_dev'', 228), (''s_last_orphan'', 232), (''s_hash_seed'', 236), (''s_def_hash_version'', 252),
     (''s_jnl_backup_type'', 253), (''s_desc_size'', 254), (''s_default_mount_opts'', 256),
     (''s_first_meta_bg'', 260), (''s_mkfs_time'', 264), (''s_jnl_blocks'', 268), (''s_blocks_count_hi'', 336),
     (''s_r_blocks_count_hi'', 340), (''s_free_blocks_count_hi'', 344), (''s_min_extra_isize'', 348),
     (''s_want_extra_isize'', 350), (''s_flags'', 352), (''s_raid_stride'', 356), (''s_mmp_interval'', 358),
     (''s_mmp_block'', 360), (''s_raid_stripe_width'', 368), (''s_log_groups_per_flex'', 372),
     (''s_checksum_type'', 373), (''s_reserved_pad'', 374), (''s_kbytes_written'', 376),
     (''s_snapshot_inum'', 384), (''s_snapshot_id'', 388), (''s_snapshot_r_blocks_count'', 392),
     (''s_snapshot_list'', 400), (''s_error_count'', 404), (''s_first_error_time'', 408),
     (''s_first_error_ino'', 412), (''s_first_error_block'', 416), (''s_first_error_func'', 424),
     (''s_first_error_line'', 456), (''s_last_error_time'', 460), (''s_last_error_ino'', 464),
     (''s_last_error_line'', 468), (''s_last_error_block'', 472), (''s_last_error_func'', 480),
     (''s_mount_opts'', 512), (''s_usr_quota_inum'', 576), (''s_grp_quota_inum'', 580),
     (''s_overhead_blocks'', 584), (''s_backup_bgs'', 588), (''s_encrypt_algos'', 596),
     (''s_encrypt_pw_salt'', 600), (''s_lpf_ino'', 616), (''s_prj_quota_inum'', 620), (''s_checksum_seed'', 624),
     (''s_wtime_hi'', 628), (''s_mkfs_time_hi'', 629), (''s_lastcheck_hi'', 630),
     (''s_first_error_time_hi'', 631), (''s_last_error_time_hi'', 632), (''s_pad'', 633), (''s_reserved'', 636),
     (''s_checksum'', 1020)], 1024)"
  by (simp add: superblock_layout_def place_simps)

lemma ext4_offsets:
  "offset_of False superblock_layout ''s_blocks_count_lo'' = 4"
  "offset_of False superblock_layout ''s_blocks_count_hi'' = 336"
  "offset_of False superblock_layout ''s_magic'' = 56"
  "offset_of False superblock_layout ''s_volume_name'' = 120"
  "offset_of False superblock_layout ''s_feature_incompat'' = 96"
  "offset_of False superblock_layout ''s_blocks_per_group'' = 32"
  "offset_of False superblock_layout ''s_inodes_per_group'' = 40"
  "offset_of False superblock_layout ''s_desc_size'' = 254"
  "offset_of False superblock_layout ''s_inode_size'' = 88"
  by (simp_all only: offset_of_def superblock_places fst_conv) simp_all

lemma ext4_small_offsets:
  "offset_of False group_descriptor_layout ''bg_block_bitmap'' = 0"
  "offset_of False group_descriptor_layout ''bg_block_bitmap_hi'' = 32"
  "offset_of False group_descriptor_layout ''bg_inode_bitmap'' = 4"
  "offset_of False group_descriptor_layout ''bg_inode_bitmap_hi'' = 36"
  "offset_of False group_descriptor_layout ''bg_inode_table'' = 8"
  "offset_of False group_descriptor_layout ''bg_inode_table_hi'' = 40"
  "offset_of False group_descriptor_layout ''bg_exclude_bitmap_lo'' = 20"
  "offset_of False group_descriptor_layout ''bg_exclude_bitmap_hi'' = 52"
  "offset_of False inode_layout ''i_mode'' = 0"
  "offset_of False inode_layout ''i_flags'' = 32"
  "offset_of False inode_layout ''i_block'' = 40"
  "offset_of False inode_layout ''i_size_lo'' = 4"
  "offset_of False inode_layout ''i_size_high'' = 108"
  by (simp_all add: place_simps group_descriptor_layout_def inode_layout_def)

lemma acpi_offsets:
  "offset_of True rsdp_layout ''rsdtAddress'' = 16"
  "offset_of True rsdp2_layout ''xsdtAddress'' = 24"
  "struct_size True madt_layout = 44"
  "offset_of True madt_layout ''length'' = 4"
  "offset_of True core_entry_layout ''acpi_processor_id'' = 2"
  "offset_of True core_entry_layout ''apic_id'' = 3"
  "offset_of True io_apic_entry_layout ''ioapic_id'' = 2"
  "offset_of True io_apic_entry_layout ''address'' = 4"
  "offset_of True io_apic_entry_layout ''global_system_interrupt_base'' = 8"
  "offset_of True override_entry_layout ''source'' = 3"
  "offset_of True override_entry_layout ''global_system_interrupt'' = 4"
  by (simp_all add: place_simps rsdp_layout_def rsdp2_layout_def madt_layout_def core_entry_layout_def io_apic_entry_layout_def override_entry_layout_def)

lemma pci_offsets:
  "offset_of True pci_header_layout ''vendor_id'' = 0"
  "offset_of True pci_header_layout ''device_id'' = 2"
  "offset_of True pci_header_layout ''command'' = 4"
  "offset_of True pci_header_layout ''status'' = 6"
  "offset_of True pci_header_layout ''revision_id'' = 8"
  "offset_of True pci_header_layout ''prog_if'' = 9"
  "offset_of True pci_header_layout ''subclass'' = 10"
  "offset_of True pci_header_layout ''class_code'' = 11"
  "offset_of True pci_header_layout ''cache_line_size'' = 12"
  "offset_of True pci_header_layout ''latency_timer'' = 13"
  "offset_of True pci_header_layout ''header_type'' = 14"
  "offset_of True pci_header_layout ''bist'' = 15"
  "struct_size True pci_bridge_layout = 48" "offset_of True pci_bridge_layout ''secondary_bus'' = 9"
  by (simp_all add: place_simps pci_header_layout_def pci_bridge_layout_def)

lemma fis_offsets:
  "offset_of True h2d_layout ''fis_type'' = 0"
  "offset_of True h2d_layout ''command'' = 2"
  "offset_of True h2d_layout ''device'' = 7"
  "offset_of True h2d_layout ''lba0'' = 4"
  "offset_of True h2d_layout ''lba1'' = 5"
  "offset_of True h2d_layout ''lba2'' = 6"
  "offset_of True h2d_layout ''lba3'' = 8"
  "offset_of True h2d_layout ''lba4'' = 9"
  "offset_of True h2d_layout ''lba5'' = 10"
  "offset_of True h2d_layout ''isCommand'' = 1"
  "offset_of True h2d_layout ''count'' = 12"
  "struct_size True h2d_layout = 20" "bit_shift (bits_of h2d_layout ''isCommand'') ''isCommand'' = 7"
  by (simp_all add: place_simps h2d_layout_def bits_of_def)

theorem ext4_fields:
  "sb_blocks_count sb = lo_hi sb (offset_of False superblock_layout ''s_blocks_count_lo'') (offset_of False superblock_layout ''s_blocks_count_hi'')"
  "sb_magic sb = field_u16 sb (offset_of False superblock_layout ''s_magic'')"
  "sb_volume_name sb = from_char_array (take 16 (drop (offset_of False superblock_layout ''s_volume_name'') sb))"
  "sb_incompatible_features sb = field_u32 sb (offset_of False superblock_layout ''s_feature_incompat'')"
  "sb_blocks_per_group sb = sfield32 sb (offset_of False superblock_layout ''s_blocks_per_group'')"
  "sb_inodes_per_group sb = sfield32 sb (offset_of False superblock_layout ''s_inodes_per_group'')"
  "sb_group_descriptor_size sb = sfield16 sb (offset_of False superblock_layout ''s_desc_size'')"
  "sb_inode_size sb = sfield16 sb (offset_of False superblock_layout ''s_inode_size'')"
  "bg_block_bitmap_index g = lo_hi g (offset_of False group_descriptor_layout ''bg_block_bitmap'') (offset_of False group_descriptor_layout ''bg_block_bitmap_hi'')"
  "bg_inode_bitmap_index g = lo_hi g (offset_of False group_descriptor_layout ''bg_inode_bitmap'') (offset_of False group_descriptor_layout ''bg_inode_bitmap_hi'')"
  "bg_inode_table_index g = lo_hi g (offset_of False group_descriptor_layout ''bg_inode_table'') (offset_of False group_descriptor_layout ''bg_inode_table_hi'')"
  "bg_exclude_bitmap_index g = lo_hi g (offset_of False group_descriptor_layout ''bg_exclude_bitmap_lo'') (offset_of False group_descriptor_layout ''bg_exclude_bitmap_hi'')"
  "inode_mode i = field_u16 i (offset_of False inode_layout ''i_mode'')"
  "inode_uses_extent_tree i \<longleftrightarrow> field_u32 i (offset_of False inode_layout ''i_flags'') AND 0x80000 \<noteq> 0"
  "inode_block_data i = take 60 (drop (offset_of False inode_layout ''i_block'') i)"
  "inode_get_size i = ucast (field_u32 i (offset_of False inode_layout ''i_size_lo'')) OR
     push_bit 32 (ucast (field_u32 i (offset_of False inode_layout ''i_size_high'')))"
  by (simp_all only: ext4_offsets ext4_small_offsets sb_blocks_count_def sb_magic_def sb_volume_name_def sb_incompatible_features_def
      sb_blocks_per_group_def sb_inodes_per_group_def sb_group_descriptor_size_def sb_inode_size_def bg_block_bitmap_index_def
      bg_inode_bitmap_index_def bg_inode_table_index_def bg_exclude_bitmap_index_def inode_mode_def inode_uses_extent_tree_def
      inode_block_data_def inode_get_size_def)

lemma extent_offsets:
  "map (offset_of False extent_header_layout) [''magic'', ''entries'', ''depth''] = [0, 2, 6]"
  "map (offset_of False extent_leaf_layout) [''block'', ''len'', ''start_hi'', ''start_lo''] = [0, 4, 6, 8]"
  by code_simp+

theorem acpi_fields:
  "make_rsdt m d = RSDT (map_tmp (ucast (rd32 m (d + of_nat (offset_of True rsdp_layout ''rsdtAddress'')))))"
  "make_xsdt m d = XSDT (map_tmp (rd64 m (d + of_nat (offset_of True rsdp2_layout ''xsdtAddress''))))"
  "madt_start table = table + of_nat (struct_size True madt_layout)"
  "madt_stop m table = table + ucast (rd32 m (table + of_nat (offset_of True madt_layout ''length'')))"
  "core_entry m e k = \<lparr>acpi_id = m (e + of_nat (offset_of True core_entry_layout ''acpi_processor_id'')),
     apic_id = m (e + of_nat (offset_of True core_entry_layout ''apic_id'')), os_id = ucast k\<rparr>"
  "io_apic_entry_of m e k = \<lparr>io_id = m (e + of_nat (offset_of True io_apic_entry_layout ''ioapic_id'')),
     io_address = rd32 m (e + of_nat (offset_of True io_apic_entry_layout ''address'')),
     gsi_base = rd32 m (e + of_nat (offset_of True io_apic_entry_layout ''global_system_interrupt_base''))\<rparr>"
  "override_entry m e k = \<lparr>override_from = m (e + of_nat (offset_of True override_entry_layout ''source'')),
     override_to = rd32 m (e + of_nat (offset_of True override_entry_layout ''global_system_interrupt''))\<rparr>"
unfolding acpi_offsets
  by (simp_all add: make_rsdt_def make_xsdt_def madt_start_def madt_stop_def core_entry_def io_apic_entry_of_def override_entry_def)

theorem pci_fields:
  "parse_header bs = \<lparr>vendor_id = field_u16 bs (offset_of True pci_header_layout ''vendor_id''),
     device_id = field_u16 bs (offset_of True pci_header_layout ''device_id''), command = field_u16 bs (offset_of True pci_header_layout ''command''),
     status = field_u16 bs (offset_of True pci_header_layout ''status''), revision_id = field_u8 bs (offset_of True pci_header_layout ''revision_id''),
     prog_if = field_u8 bs (offset_of True pci_header_layout ''prog_if''), subclass_code = field_u8 bs (offset_of True pci_header_layout ''subclass''),
     class_code = field_u8 bs (offset_of True pci_header_layout ''class_code''), cache_line_size = field_u8 bs (offset_of True pci_header_layout ''cache_line_size''),
     latency_timer = field_u8 bs (offset_of True pci_header_layout ''latency_timer''), header_type = field_u8 bs (offset_of True pci_header_layout ''header_type''),
     bist = field_u8 bs (offset_of True pci_header_layout ''bist'')\<rparr>"
  "bridge_secondary_bus ops x d =
     field_u8 (read_configuration_space ops (address x + 16) (of_nat (struct_size True pci_bridge_layout)) d) (offset_of True pci_bridge_layout ''secondary_bus'')"
by (simp_all only: pci_offsets parse_header_def bridge_secondary_bus_def of_nat_numeral)

text \<open>The register FIS: every byte of the record is at its field's offset, the bit of a command at its place.\<close>

theorem fis_fields:
  "fis_bytes f ! offset_of True h2d_layout ''fis_type'' = fis_type f"
  "fis_bytes f ! offset_of True h2d_layout ''command'' = fis_command f"
  "fis_bytes f ! offset_of True h2d_layout ''device'' = fis_device f"
  "map (\<lambda>n. fis_bytes f ! offset_of True h2d_layout n) [''lba0'', ''lba1'', ''lba2'', ''lba3'', ''lba4'', ''lba5''] =
     [fis_lba0 f, fis_lba1 f, fis_lba2 f, fis_lba3 f, fis_lba4 f, fis_lba5 f]"
  "fld (bit_shift (bits_of h2d_layout ''isCommand'') ''isCommand'') 1 (fis_bytes f ! offset_of True h2d_layout ''isCommand'') = take_bit 1 (fis_is_command f)"
  "take 2 (drop (offset_of True h2d_layout ''count'') (fis_bytes f)) = le_bytes 2 (fis_count f)"
  "length (fis_bytes f) = struct_size True h2d_layout"
unfolding fis_offsets list.map
  by (simp_all add: fis_bytes_def fld_set_fld_same)

end
