(* ===== verification/Strings.thy ===== *)
theory Strings
  imports KBase "HOL-Library.List_Lexorder"
begin

text \<open>
  The class \<open>string\<close> of \<^verbatim>\<open>include/data/string.h\<close> on a store of character arrays.  A pointer is null, the start
  of a constant array (a literal), or the start of an array from \<open>new\<close>; deleting or writing a constant, reading past
  the end of an array and using a deleted one are undefined.  The bytes of a new array are whatever was there.
\<close>

section \<open>Character arrays\<close>

datatype char_ptr = Null | Static "u8 list" | Heap nat

record chars =
  char_arrays :: "nat \<Rightarrow> u8 list option"
  next_array :: nat
  old_bytes :: "nat \<Rightarrow> nat \<Rightarrow> u8"

definition array_at :: "char_ptr \<Rightarrow> chars \<Rightarrow> u8 list option" where
  "array_at p h = (case p of Null \<Rightarrow> None | Static bs \<Rightarrow> Some bs | Heap k \<Rightarrow> char_arrays h k)"

definition read_chars :: "char_ptr \<Rightarrow> nat \<Rightarrow> chars \<Rightarrow> u8 list res" where
  "read_chars p n h =
     (if n = 0 then Ret []
      else case array_at p h of None \<Rightarrow> Stop Undef | Some bs \<Rightarrow> if n \<le> length bs then Ret (take n bs) else Stop Undef)"

definition write_chars :: "char_ptr \<Rightarrow> nat \<Rightarrow> u8 list \<Rightarrow> chars \<Rightarrow> chars res" where
  "write_chars p i cs h =
     (if cs = [] then Ret h
      else case p of
        Heap k \<Rightarrow>
          (case char_arrays h k of
             None \<Rightarrow> Stop Undef
           | Some bs \<Rightarrow>
               if i + length cs \<le> length bs
               then Ret (h\<lparr>char_arrays := (char_arrays h)(k \<mapsto> take i bs @ cs @ drop (i + length cs) bs)\<rparr>)
               else Stop Undef)
      | _ \<Rightarrow> Stop Undef)"

definition new_chars :: "nat \<Rightarrow> chars \<Rightarrow> char_ptr \<times> chars" where
  "new_chars n h =
     (Heap (next_array h),
      h\<lparr>char_arrays := (char_arrays h)(next_array h \<mapsto> map (old_bytes h (next_array h)) [0..<n]), next_array := next_array h + 1\<rparr>)"

definition delete_chars :: "char_ptr \<Rightarrow> chars \<Rightarrow> chars res" where
  "delete_chars p h =
     (case p of
        Null \<Rightarrow> Ret h
      | Static bs \<Rightarrow> Stop Undef
      | Heap k \<Rightarrow> (case char_arrays h k of None \<Rightarrow> Stop Undef | Some bs \<Rightarrow> Ret (h\<lparr>char_arrays := (char_arrays h)(k := None)\<rparr>)))"

text \<open>The C string at a pointer, as the printer reads it.\<close>

definition c_string_at :: "char_ptr \<Rightarrow> chars \<Rightarrow> u8 list res" where
  "c_string_at p h =
     (case array_at p h of
        None \<Rightarrow> Stop Undef
      | Some bs \<Rightarrow> if 0 \<in> set bs then Ret (takeWhile (\<lambda>c. c \<noteq> 0) bs) else Stop Undef)"

section \<open>Strings\<close>

record str =
  owns_data :: bool
  str_data :: char_ptr
  str_length :: nat

definition str_new :: str where "str_new = \<lparr>owns_data = True, str_data = Null, str_length = 0\<rparr>"

definition str_literal :: "char_ptr \<Rightarrow> chars \<Rightarrow> str res" where
  "str_literal p h = bindr (c_string_at p h) (\<lambda>cs. Ret \<lparr>owns_data = False, str_data = p, str_length = length cs\<rparr>)"

text \<open>The copy constructor: no terminating zero.\<close>

definition str_copy :: "str \<Rightarrow> chars \<Rightarrow> (str \<times> chars) res" where
  "str_copy s h =
     (let (p, h1) = new_chars (str_length s) h
      in bindr (read_chars (str_data s) (str_length s) h1) (\<lambda>cs.
         bindr (write_chars p 0 cs h1) (\<lambda>h2. Ret (\<lparr>owns_data = True, str_data = p, str_length = str_length s\<rparr>, h2))))"

text \<open>A new array with the characters and a zero.\<close>

definition terminated_copy :: "str \<Rightarrow> chars \<Rightarrow> (char_ptr \<times> chars) res" where
  "terminated_copy s h =
     (let (p, h1) = new_chars (str_length s + 1) h
      in bindr (read_chars (str_data s) (str_length s) h1) (\<lambda>cs.
         bindr (write_chars p 0 cs h1) (\<lambda>h2.
         bindr (write_chars p (str_length s) [0] h2) (\<lambda>h3. Ret (p, h3)))))"

text \<open>The move constructor: the new string, the one moved from.\<close>

definition str_move :: "str \<Rightarrow> chars \<Rightarrow> (str \<times> str \<times> chars) res" where
  "str_move s h =
     bindr (if owns_data s then Ret (str_data s, h) else terminated_copy s h) (\<lambda>(p, h1).
       Ret (\<lparr>owns_data = True, str_data = p, str_length = str_length s\<rparr>, s\<lparr>str_data := Null, str_length := 0\<rparr>, h1))"

definition str_destroy :: "str \<Rightarrow> chars \<Rightarrow> chars res" where
  "str_destroy s h = (if owns_data s then delete_chars (str_data s) h else Ret h)"

definition str_assign :: "nat \<Rightarrow> nat \<Rightarrow> str list \<times> chars \<Rightarrow> (str list \<times> chars) res" where
  "str_assign i j = (\<lambda>(ss, h).
     if i = j then Ret (ss, h)
     else
       let t = ss ! i; s = ss ! j
       in bindr
            (if owns_data t then
               if str_length t < str_length s then
                 bindr (delete_chars (str_data t) h) (\<lambda>h1.
                   let (p, h2) = new_chars (str_length s + 1) h1
                   in bindr (write_chars p (str_length s) [0] h2) (\<lambda>h3. Ret (t\<lparr>str_data := p\<rparr>, h3)))
               else Ret (t, h)
             else
               let (p, h2) = new_chars (str_length s + 1) h
               in bindr (write_chars p (str_length s) [0] h2) (\<lambda>h3. Ret (t\<lparr>str_data := p, owns_data := True\<rparr>, h3)))
            (\<lambda>(t1, h3).
              bindr (read_chars (str_data s) (str_length s) h3) (\<lambda>cs.
              bindr (write_chars (str_data t1) 0 cs h3) (\<lambda>h4.
                Ret (ss[i := t1\<lparr>str_length := str_length s\<rparr>], h4)))))"

text \<open>Move assignment does not touch \<open>owns_data\<close>.\<close>

definition str_move_assign :: "nat \<Rightarrow> nat \<Rightarrow> str list \<times> chars \<Rightarrow> (str list \<times> chars) res" where
  "str_move_assign i j = (\<lambda>(ss, h).
     if i = j then Ret (ss, h)
     else
       let t = ss ! i; s = ss ! j
       in bindr (if owns_data t then delete_chars (str_data t) h else Ret h) (\<lambda>h1.
          bindr (if owns_data s then Ret (str_data s, h1) else terminated_copy s h1) (\<lambda>(p, h2).
            Ret (ss[i := t\<lparr>str_data := p, str_length := str_length s\<rparr>, j := s\<lparr>str_data := Null, str_length := 0\<rparr>], h2))))"

section \<open>Comparison, concatenation\<close>

fun byte_compare :: "u8 list \<Rightarrow> u8 list \<Rightarrow> int" where
  "byte_compare (a # as) (b # bs) = (if a \<noteq> b then uint a - uint b else byte_compare as bs)"
| "byte_compare _ _ = 0"

definition str_memcmp :: "str \<Rightarrow> str \<Rightarrow> chars \<Rightarrow> int res" where
  "str_memcmp a b h =
     bindr (read_chars (str_data a) (str_length a) h) (\<lambda>as.
     bindr (read_chars (str_data b) (str_length a) h) (\<lambda>bs. Ret (byte_compare as bs)))"

definition str_eq :: "str \<Rightarrow> str \<Rightarrow> chars \<Rightarrow> bool res" where
  "str_eq a b h = (if str_length a \<noteq> str_length b then Ret False else bindr (str_memcmp a b h) (\<lambda>c. Ret (c = 0)))"

definition str_ne :: "str \<Rightarrow> str \<Rightarrow> chars \<Rightarrow> bool res" where
  "str_ne a b h = bindr (str_eq a b h) (\<lambda>e. Ret (\<not> e))"

definition str_less :: "str \<Rightarrow> str \<Rightarrow> chars \<Rightarrow> bool res" where
  "str_less a b h =
     (if str_length a \<noteq> str_length b then Ret (str_length a < str_length b) else bindr (str_memcmp a b h) (\<lambda>c. Ret (c < 0)))"

definition str_greater :: "str \<Rightarrow> str \<Rightarrow> chars \<Rightarrow> bool res" where
  "str_greater a b h =
     (if str_length a \<noteq> str_length b then Ret (str_length a > str_length b) else bindr (str_memcmp a b h) (\<lambda>c. Ret (c > 0)))"

definition str_less_eq :: "str \<Rightarrow> str \<Rightarrow> chars \<Rightarrow> bool res" where
  "str_less_eq a b h =
     (if str_length a \<noteq> str_length b then Ret (str_length a \<le> str_length b) else bindr (str_memcmp a b h) (\<lambda>c. Ret (c \<le> 0)))"

definition str_greater_eq :: "str \<Rightarrow> str \<Rightarrow> chars \<Rightarrow> bool res" where
  "str_greater_eq a b h =
     (if str_length a \<noteq> str_length b then Ret (str_length a \<ge> str_length b) else bindr (str_memcmp a b h) (\<lambda>c. Ret (c \<ge> 0)))"

definition str_index :: "nat \<Rightarrow> str \<Rightarrow> chars \<Rightarrow> u8 res" where
  "str_index i s h =
     (case array_at (str_data s) h of None \<Rightarrow> Stop Undef | Some bs \<Rightarrow> if i < length bs then Ret (bs ! i) else Stop Undef)"

definition joined :: "str \<Rightarrow> str \<Rightarrow> chars \<Rightarrow> (char_ptr \<times> chars) res" where
  "joined a b h =
     (let (p, h1) = new_chars (str_length a + str_length b + 1) h
      in bindr (read_chars (str_data a) (str_length a) h1) (\<lambda>as.
         bindr (write_chars p 0 as h1) (\<lambda>h2.
         bindr (read_chars (str_data b) (str_length b) h2) (\<lambda>bs.
         bindr (write_chars p (str_length a) bs h2) (\<lambda>h3.
         bindr (write_chars p (str_length a + str_length b) [0] h3) (\<lambda>h4. Ret (p, h4)))))))"

definition str_plus :: "str \<Rightarrow> str \<Rightarrow> chars \<Rightarrow> (str \<times> chars) res" where
  "str_plus a b h =
     bindr (joined a b h) (\<lambda>(p, h1). Ret (\<lparr>owns_data = True, str_data = p, str_length = str_length a + str_length b\<rparr>, h1))"

definition str_append :: "nat \<Rightarrow> nat \<Rightarrow> str list \<times> chars \<Rightarrow> (str list \<times> chars) res" where
  "str_append i j = (\<lambda>(ss, h).
     let t = ss ! i; s = ss ! j
     in bindr (joined t s h) (\<lambda>(p, h1).
        bindr (if owns_data t then delete_chars (str_data t) h1 else Ret h1) (\<lambda>h2.
          Ret (ss[i := \<lparr>owns_data = True, str_data = p, str_length = str_length t + str_length s\<rparr>], h2))))"

definition str_from_array :: "char_ptr \<Rightarrow> nat \<Rightarrow> chars \<Rightarrow> (str \<times> chars) res" where
  "str_from_array p n h =
     bindr (read_chars p n h) (\<lambda>cs.
       let cs' = takeWhile (\<lambda>c. c \<noteq> 0) cs; (q, h1) = new_chars (length cs' + 1) h
       in bindr (write_chars q 0 cs' h1) (\<lambda>h2.
          bindr (write_chars q (length cs') [0] h2) (\<lambda>h3.
            Ret (\<lparr>owns_data = True, str_data = q, str_length = length cs'\<rparr>, h3))))"

section \<open>What a string stands for\<close>

definition text_of :: "chars \<Rightarrow> str \<Rightarrow> u8 list" where
  "text_of h s = (case array_at (str_data s) h of None \<Rightarrow> [] | Some bs \<Rightarrow> take (str_length s) bs)"

definition str_ok :: "chars \<Rightarrow> str \<Rightarrow> bool" where
  "str_ok h s \<longleftrightarrow>
     (case str_data s of
        Null \<Rightarrow> str_length s = 0
      | Static bs \<Rightarrow> str_length s \<le> length bs \<and> \<not> owns_data s
      | Heap k \<Rightarrow> k < next_array h \<and> (\<exists>bs. char_arrays h k = Some bs \<and> str_length s \<le> length bs))"

text \<open>Every string is sound and no two share an array from \<open>new\<close>.\<close>

definition strings_ok :: "str list \<times> chars \<Rightarrow> bool" where
  "strings_ok = (\<lambda>(ss, h). (\<forall>i < length ss. str_ok h (ss ! i)) \<and>
     (\<forall>i < length ss. \<forall>j < length ss. \<forall>k. str_data (ss ! i) = Heap k \<longrightarrow> str_data (ss ! j) = Heap k \<longrightarrow> i = j))"

definition texts :: "str list \<times> chars \<Rightarrow> u8 list list" where
  "texts = (\<lambda>(ss, h). map (text_of h) ss)"

lemma text_length: "str_ok h s \<Longrightarrow> length (text_of h s) = str_length s"
  by (auto simp: str_ok_def text_of_def array_at_def split: char_ptr.splits)

lemma read_text: "str_ok h s \<Longrightarrow> read_chars (str_data s) (str_length s) h = Ret (text_of h s)"
  by (auto simp: str_ok_def text_of_def array_at_def read_chars_def split: char_ptr.splits)

text \<open>A change of the store that leaves the array of a string alone.\<close>

definition untouched :: "char_ptr \<Rightarrow> chars \<Rightarrow> chars \<Rightarrow> bool" where
  "untouched p h h' \<longleftrightarrow> next_array h \<le> next_array h' \<and> (\<forall>k. p = Heap k \<longrightarrow> char_arrays h' k = char_arrays h k)"

lemma untouched_text: "untouched (str_data s) h h' \<Longrightarrow> text_of h' s = text_of h s"
  by (cases "str_data s") (simp_all add: untouched_def text_of_def array_at_def)

lemma untouched_ok: "untouched (str_data s) h h' \<Longrightarrow> str_ok h s \<Longrightarrow> str_ok h' s"
  by (cases "str_data s") (auto simp: untouched_def str_ok_def)

lemma untouched_read: "untouched p h h' \<Longrightarrow> read_chars p n h' = read_chars p n h"
  by (cases p) (simp_all add: untouched_def read_chars_def array_at_def)

lemma write_new:
  assumes "char_arrays h k = Some bs" "i + length cs \<le> length bs"
  shows "\<exists>h'. write_chars (Heap k) i cs h = Ret h' \<and>
    h' = h\<lparr>char_arrays := (char_arrays h)(k \<mapsto> take i bs @ cs @ drop (i + length cs) bs)\<rparr>"
  using assms by (auto simp: write_chars_def fun_upd_idem)

text \<open>A new array, filled and terminated: where the characters come from is not touched by it.\<close>

lemma new_array_simps:
  "fst (new_chars n h) = Heap (next_array h)"
  "char_arrays (snd (new_chars n h)) = (char_arrays h)(next_array h \<mapsto> map (old_bytes h (next_array h)) [0..<n])"
  "next_array (snd (new_chars n h)) = next_array h + 1"
  by (simp_all add: new_chars_def)

definition fills :: "nat \<Rightarrow> u8 list \<Rightarrow> nat \<Rightarrow> chars \<Rightarrow> chars \<Rightarrow> bool" where
  "fills k cs n h h' \<longleftrightarrow> next_array h' = next_array h \<and> (\<forall>j. j \<noteq> k \<longrightarrow> char_arrays h' j = char_arrays h j) \<and>
     (\<exists>bs. char_arrays h' k = Some bs \<and> length bs = n \<and> take (length cs) bs = cs)"

lemma write_prefix:
  assumes "char_arrays h k = Some bs" "length cs \<le> length bs"
  shows "\<exists>h'. write_chars (Heap k) 0 cs h = Ret h' \<and> fills k cs (length bs) h h'"
  using write_new[OF assms(1), of 0 cs] assms(2) by (auto simp: fills_def)

lemma write_zero:
  assumes "fills k cs n h h'" "length cs < n"
  shows "\<exists>h''. write_chars (Heap k) (length cs) [0] h' = Ret h'' \<and> fills k cs n h h''"
proof -
  obtain bs where bs: "char_arrays h' k = Some bs" "length bs = n" "take (length cs) bs = cs" using assms(1) by (auto simp: fills_def)
  then show ?thesis using write_new[OF bs(1), of "length cs" "[0]"] assms by (auto simp: fills_def)
qed

text \<open>The outcome of an allocation: one new array that starts with the given characters, all others as they were.\<close>

definition made :: "chars \<Rightarrow> u8 list \<Rightarrow> chars \<Rightarrow> bool" where
  "made h cs h' \<longleftrightarrow> next_array h' = next_array h + 1 \<and> (\<forall>k. k \<noteq> next_array h \<longrightarrow> char_arrays h' k = char_arrays h k) \<and>
     (\<exists>bs. char_arrays h' (next_array h) = Some bs \<and> length cs \<le> length bs \<and> take (length cs) bs = cs)"

lemma made_untouched: "made h cs h' \<Longrightarrow> str_ok h s \<Longrightarrow> untouched (str_data s) h h'"
  by (cases "str_data s") (auto simp: made_def untouched_def str_ok_def)

lemma made_ok:
  "made h cs h' \<Longrightarrow> str_ok h' \<lparr>owns_data = b, str_data = Heap (next_array h), str_length = length cs\<rparr>"
  "made h cs h' \<Longrightarrow> text_of h' \<lparr>owns_data = b, str_data = Heap (next_array h), str_length = length cs\<rparr> = cs"
  by (auto simp: made_def str_ok_def text_of_def array_at_def)

text \<open>A new array of \<open>n\<close> bytes, then one store after another into it.\<close>

lemma new_untouched: "str_ok h s \<Longrightarrow> untouched (str_data s) h (snd (new_chars n h))"
  by (cases "str_data s") (auto simp: untouched_def str_ok_def new_array_simps)

lemma fills_untouched: "fills (next_array h) cs n (snd (new_chars m h)) h' \<Longrightarrow> str_ok h s \<Longrightarrow> untouched (str_data s) h h'"
  by (cases "str_data s") (auto simp: untouched_def str_ok_def fills_def new_array_simps)

lemma fills_made: "fills (next_array h) cs n (snd (new_chars n h)) h' \<Longrightarrow> length cs \<le> n \<Longrightarrow> made h cs h'"
  by (auto simp: fills_def made_def new_array_simps)

lemma fill_new:
  assumes "length cs \<le> n"
  shows "\<exists>h'. write_chars (Heap (next_array h)) 0 cs (snd (new_chars n h)) = Ret h' \<and>
    fills (next_array h) cs n (snd (new_chars n h)) h'"
  using write_prefix[of "snd (new_chars n h)" "next_array h" "map (old_bytes h (next_array h)) [0..<n]" cs] assms
  by (simp add: new_array_simps)

lemma fill_more:
  assumes "fills k as n h h'" "length as + length bs \<le> n"
  shows "\<exists>h''. write_chars (Heap k) (length as) bs h' = Ret h'' \<and> fills k (as @ bs) n h h''"
proof -
  obtain xs where xs: "char_arrays h' k = Some xs" "length xs = n" "take (length as) xs = as" using assms(1) by (auto simp: fills_def)
  then show ?thesis using write_new[OF xs(1), of "length as" bs] assms by (auto simp: fills_def)
qed

lemma new_chars_pair: "new_chars n h = (Heap (next_array h), snd (new_chars n h))"
  by (simp add: new_chars_def)

lemma str_copy_result:
  assumes "str_ok h s"
  shows "\<exists>h'. str_copy s h = Ret (\<lparr>owns_data = True, str_data = Heap (next_array h), str_length = length (text_of h s)\<rparr>, h') \<and> made h (text_of h s) h'"
proof -
  let ?n = "length (text_of h s)"
  have n: "str_length s = ?n" using text_length[OF assms] by simp
  obtain h' where "write_chars (Heap (next_array h)) 0 (text_of h s) (snd (new_chars ?n h)) = Ret h'"
    "fills (next_array h) (text_of h s) ?n (snd (new_chars ?n h)) h'" using fill_new[of "text_of h s" ?n h] by auto
  moreover have "read_chars (str_data s) ?n (snd (new_chars ?n h)) = Ret (text_of h s)"
    using untouched_read[OF new_untouched[OF assms]] read_text[OF assms] n by simp
  ultimately show ?thesis by (subst str_copy_def, subst new_chars_pair) (simp add: n fills_made)
qed

lemma terminated_copy_result:
  assumes "str_ok h s"
  shows "\<exists>h'. terminated_copy s h = Ret (Heap (next_array h), h') \<and> made h (text_of h s) h'"
proof -
  let ?n = "length (text_of h s)"
  have n: "str_length s = ?n" using text_length[OF assms] by simp
  obtain h1 where h1: "write_chars (Heap (next_array h)) 0 (text_of h s) (snd (new_chars (?n + 1) h)) = Ret h1"
    "fills (next_array h) (text_of h s) (?n + 1) (snd (new_chars (?n + 1) h)) h1" using fill_new[of "text_of h s" "?n + 1" h] by auto
  obtain h2 where "write_chars (Heap (next_array h)) ?n [0] h1 = Ret h2"
    "fills (next_array h) (text_of h s) (?n + 1) (snd (new_chars (?n + 1) h)) h2" using write_zero[OF h1(2)] by auto
  moreover have "read_chars (str_data s) ?n (snd (new_chars (?n + 1) h)) = Ret (text_of h s)"
    using untouched_read[OF new_untouched[OF assms]] read_text[OF assms] n by simp
  ultimately show ?thesis using h1(1) by (subst terminated_copy_def, subst new_chars_pair) (simp add: n fills_made del: One_nat_def)
qed

lemma joined_result:
  assumes "str_ok h a" "str_ok h b"
  shows "\<exists>h'. joined a b h = Ret (Heap (next_array h), h') \<and> made h (text_of h a @ text_of h b) h'"
proof -
  let ?a = "text_of h a" and ?b = "text_of h b"
  let ?n = "length ?a + length ?b + 1"
  have n: "str_length a = length ?a" "str_length b = length ?b" using text_length assms by simp_all
  obtain h1 where h1: "write_chars (Heap (next_array h)) 0 ?a (snd (new_chars ?n h)) = Ret h1"
    "fills (next_array h) ?a ?n (snd (new_chars ?n h)) h1" using fill_new[of ?a ?n h] by auto
  obtain h2 where h2: "write_chars (Heap (next_array h)) (length ?a) ?b h1 = Ret h2"
    "fills (next_array h) (?a @ ?b) ?n (snd (new_chars ?n h)) h2" using fill_more[OF h1(2), of ?b] by auto
  obtain h3 where h3: "write_chars (Heap (next_array h)) (length ?a + length ?b) [0] h2 = Ret h3"
    "fills (next_array h) (?a @ ?b) ?n (snd (new_chars ?n h)) h3" using write_zero[OF h2(2)] by auto
  have r: "read_chars (str_data a) (length ?a) (snd (new_chars ?n h)) = Ret ?a"
    using untouched_read[OF new_untouched[OF assms(1)]] read_text[OF assms(1)] n by simp
  have q: "read_chars (str_data b) (length ?b) h1 = Ret ?b"
    using untouched_read[OF fills_untouched[OF h1(2) assms(2)]] read_text[OF assms(2)] n by simp
  have "made h (?a @ ?b) h3" using fills_made[OF h3(2)] by simp
  then show ?thesis using h1(1) h2(1) h3(1) r q by (subst joined_def, subst new_chars_pair) (simp add: n del: One_nat_def)
qed

lemma strings_okD:
  assumes "strings_ok (ss, h)" "i < length ss"
  shows "str_ok h (ss ! i)" "str_data (ss ! i) = Heap k \<Longrightarrow> k < next_array h"
    "j < length ss \<Longrightarrow> j \<noteq> i \<Longrightarrow> str_data (ss ! i) = Heap k \<Longrightarrow> str_data (ss ! j) \<noteq> Heap k"
proof -
  show ok: "str_ok h (ss ! i)" using assms by (simp add: strings_ok_def)
  show "str_data (ss ! i) = Heap k \<Longrightarrow> k < next_array h" using ok by (simp add: str_ok_def)
  have "\<forall>i < length ss. \<forall>j < length ss. \<forall>k. str_data (ss ! i) = Heap k \<longrightarrow> str_data (ss ! j) = Heap k \<longrightarrow> i = j"
    using assms(1) by (simp add: strings_ok_def)
  then show "j < length ss \<Longrightarrow> j \<noteq> i \<Longrightarrow> str_data (ss ! i) = Heap k \<Longrightarrow> str_data (ss ! j) \<noteq> Heap k"
    using assms(2) by blast
qed

text \<open>One string put in its place, with the arrays of the others untouched.\<close>

lemma put_string:
  assumes "strings_ok (ss, h)" "i < length ss" "\<And>j. j < length ss \<Longrightarrow> j \<noteq> i \<Longrightarrow> untouched (str_data (ss ! j)) h h'" "str_ok h' s"
    and "\<And>k j. str_data s = Heap k \<Longrightarrow> j < length ss \<Longrightarrow> j \<noteq> i \<Longrightarrow> str_data (ss ! j) \<noteq> Heap k"
  shows "strings_ok (ss[i := s], h')" "texts (ss[i := s], h') = (texts (ss, h))[i := text_of h' s]"
proof -
  have "str_ok h' (ss[i := s] ! j)" if "j < length ss" for j
    using assms(4) that untouched_ok[OF assms(3) strings_okD(1)[OF assms(1)]] by (cases "j = i") simp_all
  moreover have "j = j'" if "j < length ss" "j' < length ss" "str_data (ss[i := s] ! j) = Heap k" "str_data (ss[i := s] ! j') = Heap k" for j j' k
  proof (rule ccontr)
    assume ne: "j \<noteq> j'"
    consider "j = i" "j' \<noteq> i" | "j' = i" "j \<noteq> i" | "j \<noteq> i" "j' \<noteq> i" using ne by blast
    then show False
    proof cases
      case 1 then show ?thesis using assms(5)[of k j'] that by simp
    next
      case 2 then show ?thesis using assms(5)[of k j] that by simp
    next
      case 3 then show ?thesis using strings_okD(3)[OF assms(1) that(1) that(2) ne[symmetric], of k] that by simp
    qed
  qed
  ultimately show "strings_ok (ss[i := s], h')" by (simp add: strings_ok_def)
  have "text_of h' (ss[i := s] ! j) = (texts (ss, h))[i := text_of h' s] ! j" if "j < length ss" for j
    using assms(3) that untouched_text by (cases "j = i") (auto simp: texts_def)
  then show "texts (ss[i := s], h') = (texts (ss, h))[i := text_of h' s]"
    by (intro nth_equalityI) (simp_all add: texts_def)
qed

lemma add_string:
  assumes "strings_ok (ss, h)" "\<And>j. j < length ss \<Longrightarrow> untouched (str_data (ss ! j)) h h'" "str_ok h' s"
    and "\<And>k j. str_data s = Heap k \<Longrightarrow> j < length ss \<Longrightarrow> str_data (ss ! j) \<noteq> Heap k"
  shows "strings_ok (ss @ [s], h')" "texts (ss @ [s], h') = texts (ss, h) @ [text_of h' s]"
proof -
  have "str_ok h' ((ss @ [s]) ! j)" if "j < Suc (length ss)" for j
    using assms(3) that untouched_ok[OF assms(2) strings_okD(1)[OF assms(1)]] by (cases "j = length ss") (simp_all add: nth_append)
  moreover have "j = j'" if "j < Suc (length ss)" "j' < Suc (length ss)" "str_data ((ss @ [s]) ! j) = Heap k" "str_data ((ss @ [s]) ! j') = Heap k" for j j' k
  proof (rule ccontr)
    assume ne: "j \<noteq> j'"
    note lt = that(1,2)
    consider "j = length ss" "j' < length ss" | "j' = length ss" "j < length ss" | "j < length ss" "j' < length ss"
      using ne lt by (auto simp: less_Suc_eq)
    then show False
    proof cases
      case 1 then show ?thesis using assms(4)[of k j'] that by (simp add: nth_append)
    next
      case 2 then show ?thesis using assms(4)[of k j] that by (simp add: nth_append)
    next
      case 3 then show ?thesis using strings_okD(3)[OF assms(1) 3 ne[symmetric], of k] that by (simp add: nth_append)
    qed
  qed
  ultimately show "strings_ok (ss @ [s], h')" by (simp add: strings_ok_def)
  show "texts (ss @ [s], h') = texts (ss, h) @ [text_of h' s]"
    using assms(2) untouched_text by (auto simp: texts_def in_set_conv_nth)
qed

lemma texts_nth: "i < length ss \<Longrightarrow> texts (ss, h) ! i = text_of h (ss ! i)"
  by (simp add: texts_def)

lemma untouched_refl: "untouched p h h"
  by (simp add: untouched_def)

lemma untouched_trans: "untouched p h h1 \<Longrightarrow> untouched p h1 h2 \<Longrightarrow> untouched p h h2"
  by (auto simp: untouched_def)

lemma delete_result:
  assumes "strings_ok (ss, h)" "i < length ss" "owns_data (ss ! i)"
  shows "\<exists>h'. delete_chars (str_data (ss ! i)) h = Ret h' \<and> next_array h' = next_array h \<and>
    (\<forall>j. j < length ss \<and> j \<noteq> i \<longrightarrow> untouched (str_data (ss ! j)) h h')"
proof (cases "str_data (ss ! i)")
  case Null then show ?thesis by (simp add: delete_chars_def untouched_refl)
next
  case (Static bs) then show ?thesis using strings_okD(1)[OF assms(1,2)] assms(3) by (simp add: str_ok_def)
next
  case (Heap k)
  then obtain bs where "char_arrays h k = Some bs" using strings_okD(1)[OF assms(1,2)] by (auto simp: str_ok_def)
  then show ?thesis using Heap strings_okD(3)[OF assms(1,2)] by (auto simp: delete_chars_def untouched_def)
qed


section \<open>Programs on strings\<close>

datatype str_op =
    New_string | Literal_string "u8 list" | Copy_string nat | Move_string nat | Assign_string nat nat
  | Move_assign_string nat nat | Plus_string nat nat | Append_string nat nat | Drop_string

text \<open>Literals are constant arrays with a terminating zero; \<open>Drop_string\<close> is the end of the last string's scope.\<close>

fun str_step :: "str_op \<Rightarrow> str list \<times> chars \<Rightarrow> (str list \<times> chars) res" where
  "str_step New_string (ss, h) = Ret (ss @ [str_new], h)"
| "str_step (Literal_string cs) (ss, h) = bindr (str_literal (Static (cs @ [0])) h) (\<lambda>s. Ret (ss @ [s], h))"
| "str_step (Copy_string j) (ss, h) = bindr (str_copy (ss ! j) h) (\<lambda>(s, h'). Ret (ss @ [s], h'))"
| "str_step (Move_string j) (ss, h) = bindr (str_move (ss ! j) h) (\<lambda>(s, t, h'). Ret (ss[j := t] @ [s], h'))"
| "str_step (Assign_string i j) st = str_assign i j st"
| "str_step (Move_assign_string i j) st = str_move_assign i j st"
| "str_step (Plus_string i j) (ss, h) = bindr (str_plus (ss ! i) (ss ! j) h) (\<lambda>(s, h'). Ret (ss @ [s], h'))"
| "str_step (Append_string i j) st = str_append i j st"
| "str_step Drop_string (ss, h) = bindr (str_destroy (last ss) h) (\<lambda>h'. Ret (butlast ss, h'))"

fun str_spec :: "str_op \<Rightarrow> u8 list list \<Rightarrow> u8 list list" where
  "str_spec New_string ts = ts @ [[]]"
| "str_spec (Literal_string cs) ts = ts @ [cs]"
| "str_spec (Copy_string j) ts = ts @ [ts ! j]"
| "str_spec (Move_string j) ts = ts[j := []] @ [ts ! j]"
| "str_spec (Assign_string i j) ts = ts[i := ts ! j]"
| "str_spec (Move_assign_string i j) ts = (if i = j then ts else ts[i := ts ! j, j := []])"
| "str_spec (Plus_string i j) ts = ts @ [ts ! i @ ts ! j]"
| "str_spec (Append_string i j) ts = ts[i := ts ! i @ ts ! j]"
| "str_spec Drop_string ts = butlast ts"

fun str_op_ok :: "nat \<Rightarrow> str_op \<Rightarrow> bool" where
  "str_op_ok n New_string \<longleftrightarrow> True"
| "str_op_ok n (Literal_string cs) \<longleftrightarrow> 0 \<notin> set cs"
| "str_op_ok n (Copy_string j) \<longleftrightarrow> j < n"
| "str_op_ok n (Move_string j) \<longleftrightarrow> j < n"
| "str_op_ok n (Assign_string i j) \<longleftrightarrow> i < n \<and> j < n"
| "str_op_ok n (Move_assign_string i j) \<longleftrightarrow> i < n \<and> j < n"
| "str_op_ok n (Plus_string i j) \<longleftrightarrow> i < n \<and> j < n"
| "str_op_ok n (Append_string i j) \<longleftrightarrow> i < n \<and> j < n"
| "str_op_ok n Drop_string \<longleftrightarrow> 0 < n"

definition steps_to :: "(str list \<times> chars) res \<Rightarrow> u8 list list \<Rightarrow> bool" where
  "steps_to r ts \<longleftrightarrow> (\<exists>st. r = Ret st \<and> strings_ok st \<and> texts st = ts)"

lemma add_made:
  assumes "strings_ok (ss, h)" "made h cs h'"
  shows "steps_to (Ret (ss @ [\<lparr>owns_data = b, str_data = Heap (next_array h), str_length = length cs\<rparr>], h')) (texts (ss, h) @ [cs])"
proof -
  let ?s = "\<lparr>owns_data = b, str_data = Heap (next_array h), str_length = length cs\<rparr>"
  have u: "untouched (str_data (ss ! j)) h h'" if "j < length ss" for j
    using made_untouched[OF assms(2) strings_okD(1)[OF assms(1) that]] .
  have f: "str_data (ss ! j) \<noteq> Heap k" if "str_data ?s = Heap k" "j < length ss" for k j
    using strings_okD(2)[OF assms(1) that(2), of k] that(1) by auto
  show ?thesis
    using add_string[OF assms(1) u made_ok(1)[OF assms(2), of b] f] made_ok(2)[OF assms(2), of b] by (simp add: steps_to_def)
qed

lemma put_made:
  assumes "strings_ok (ss, h)" "i < length ss" "made h cs h1"
    and "next_array h2 = next_array h1" "char_arrays h2 (next_array h) = char_arrays h1 (next_array h)"
    and "\<And>j. j < length ss \<Longrightarrow> j \<noteq> i \<Longrightarrow> untouched (str_data (ss ! j)) h h2"
  shows "steps_to (Ret (ss[i := \<lparr>owns_data = b, str_data = Heap (next_array h), str_length = length cs\<rparr>], h2)) ((texts (ss, h))[i := cs])"
proof -
  let ?s = "\<lparr>owns_data = b, str_data = Heap (next_array h), str_length = length cs\<rparr>"
  have ok: "str_ok h2 ?s" "text_of h2 ?s = cs"
    using made_ok[OF assms(3), of b] assms(4,5) by (simp_all add: str_ok_def text_of_def array_at_def)
  have f: "str_data (ss ! j) \<noteq> Heap k" if "str_data ?s = Heap k" "j < length ss" "j \<noteq> i" for k j
    using strings_okD(2)[OF assms(1) that(2), of k] that(1) by auto
  show ?thesis using put_string[OF assms(1,2) assms(6) ok(1) f] ok(2) by (simp add: steps_to_def)
qed

lemma null_ok: "str_ok h \<lparr>owns_data = b, str_data = Null, str_length = 0\<rparr>" "text_of h \<lparr>owns_data = b, str_data = Null, str_length = 0\<rparr> = []"
  by (simp_all add: str_ok_def text_of_def array_at_def)

lemma step_new: "strings_ok (ss, h) \<Longrightarrow> steps_to (str_step New_string (ss, h)) (texts (ss, h) @ [[]])"
  using add_string[of ss h h str_new] null_ok[of h True] by (simp add: steps_to_def str_new_def untouched_refl)

lemma literal_text: "0 \<notin> set cs \<Longrightarrow> takeWhile (\<lambda>c. c \<noteq> 0) (cs @ [0 :: u8]) = cs"
  by (induction cs) auto

lemma step_literal:
  assumes "strings_ok (ss, h)" "0 \<notin> set cs"
  shows "steps_to (str_step (Literal_string cs) (ss, h)) (texts (ss, h) @ [cs])"
proof -
  let ?s = "\<lparr>owns_data = False, str_data = Static (cs @ [0]), str_length = length cs\<rparr>"
  have "str_literal (Static (cs @ [0])) h = Ret ?s"
    by (simp add: str_literal_def c_string_at_def array_at_def literal_text[OF assms(2)])
  moreover have "str_ok h ?s" "text_of h ?s = cs" by (simp_all add: str_ok_def text_of_def array_at_def)
  ultimately show ?thesis using add_string[OF assms(1), of h ?s] by (simp add: steps_to_def untouched_refl)
qed

lemma step_copy:
  assumes "strings_ok (ss, h)" "j < length ss"
  shows "steps_to (str_step (Copy_string j) (ss, h)) (texts (ss, h) @ [texts (ss, h) ! j])"
  using str_copy_result[OF strings_okD(1)[OF assms]] add_made[OF assms(1), where b = True] assms(2) by (auto simp: texts_nth)

lemma step_plus:
  assumes "strings_ok (ss, h)" "i < length ss" "j < length ss"
  shows "steps_to (str_step (Plus_string i j) (ss, h)) (texts (ss, h) @ [texts (ss, h) ! i @ texts (ss, h) ! j])"
proof -
  note ok = strings_okD(1)[OF assms(1,2)] strings_okD(1)[OF assms(1,3)]
  obtain h' where h': "joined (ss ! i) (ss ! j) h = Ret (Heap (next_array h), h')" "made h (text_of h (ss ! i) @ text_of h (ss ! j)) h'"
    using joined_result[OF ok] by blast
  show ?thesis using add_made[OF assms(1) h'(2), of True] h'(1) assms(2,3) ok by (simp add: str_plus_def texts_nth text_length)
qed

text \<open>A string that has given its array away.\<close>

lemma emptied:
  assumes "strings_ok (ss, h)" "j < length ss"
  shows "strings_ok (ss[j := (ss ! j)\<lparr>str_data := Null, str_length := 0\<rparr>], h)"
    "texts (ss[j := (ss ! j)\<lparr>str_data := Null, str_length := 0\<rparr>], h) = (texts (ss, h))[j := []]"
  using put_string[OF assms, of h "(ss ! j)\<lparr>str_data := Null, str_length := 0\<rparr>"] null_ok[of h "owns_data (ss ! j)"]
  by (simp_all add: untouched_refl str_ok_def text_of_def array_at_def)

lemma text_same_data: "str_data s = str_data t \<Longrightarrow> str_length s = str_length t \<Longrightarrow> text_of h s = text_of h t"
  by (simp add: text_of_def split: option.splits)

lemma step_move:
  assumes "strings_ok (ss, h)" "j < length ss"
  shows "steps_to (str_step (Move_string j) (ss, h)) ((texts (ss, h))[j := []] @ [texts (ss, h) ! j])"
proof -
  let ?s = "ss ! j" and ?ss = "ss[j := (ss ! j)\<lparr>str_data := Null, str_length := 0\<rparr>]"
  note ok = strings_okD(1)[OF assms] and e = emptied[OF assms]
  show ?thesis
  proof (cases "owns_data ?s")
    case True
    let ?t = "\<lparr>owns_data = True, str_data = str_data ?s, str_length = str_length ?s\<rparr>"
    have "str_ok h ?t" using ok True by (auto simp: str_ok_def split: char_ptr.splits)
    moreover have "text_of h ?t = text_of h ?s" by (rule text_same_data) simp_all
    moreover have "str_data (?ss ! i) \<noteq> Heap k" if "str_data ?t = Heap k" "i < length ?ss" for k i
      using strings_okD(3)[OF assms, where k = k and j = i] that by (cases "i = j") simp_all
    ultimately show ?thesis using add_string[OF e(1), of h ?t] e(2) True assms(2)
      by (simp add: steps_to_def str_move_def untouched_refl texts_nth)
  next
    case False
    obtain h' where h': "terminated_copy ?s h = Ret (Heap (next_array h), h')" "made h (text_of h ?s) h'"
      using terminated_copy_result[OF ok] by blast
    show ?thesis using add_made[OF e(1) h'(2), of True] e(2) h'(1) False assms(2) ok
      by (simp add: str_move_def texts_nth text_length)
  qed
qed


text \<open>Another string's array gone or not, then a new array in place of string \<open>i\<close>.\<close>

lemma put_after:
  assumes "strings_ok (ss, h)" "i < length ss" "next_array h1 = next_array h"
    and "\<And>l. l < length ss \<Longrightarrow> l \<noteq> i \<Longrightarrow> untouched (str_data (ss ! l)) h h1" "made h1 cs h2"
  shows "steps_to (Ret (ss[i := \<lparr>owns_data = b, str_data = Heap (next_array h), str_length = length cs\<rparr>], h2)) ((texts (ss, h))[i := cs])"
proof -
  let ?s = "\<lparr>owns_data = b, str_data = Heap (next_array h), str_length = length cs\<rparr>"
  have u: "untouched (str_data (ss ! l)) h h2" if "l < length ss" "l \<noteq> i" for l
    using untouched_trans[OF assms(4)[OF that] made_untouched[OF assms(5) untouched_ok[OF assms(4)[OF that] strings_okD(1)[OF assms(1) that(1)]]]] .
  have f: "str_data (ss ! l) \<noteq> Heap k" if "str_data ?s = Heap k" "l < length ss" "l \<noteq> i" for k l
    using strings_okD(2)[OF assms(1) that(2), of k] that(1) by auto
  show ?thesis
    using put_string[OF assms(1,2) u made_ok(1)[OF assms(5), of b, unfolded assms(3)] f] made_ok(2)[OF assms(5), of b, unfolded assms(3)]
    by (simp add: steps_to_def)
qed

lemma fresh_terminated:
  "\<exists>h'. write_chars (Heap (next_array h)) n [0] (snd (new_chars (n + 1) h)) = Ret h' \<and>
    fills (next_array h) [] (n + 1) (snd (new_chars (n + 1) h)) h'"
proof -
  have "char_arrays (snd (new_chars (n + 1) h)) (next_array h) = Some (map (old_bytes h (next_array h)) [0..<n + 1])"
    by (simp add: new_array_simps del: upt_Suc)
  from write_new[OF this, of n "[0]"] show ?thesis by (auto simp: fills_def simp del: upt_Suc)
qed

lemma fill_over:
  assumes "fills k as n h h'" "length cs \<le> n"
  shows "\<exists>h''. write_chars (Heap k) 0 cs h' = Ret h'' \<and> fills k cs n h h''"
proof -
  obtain bs where bs: "char_arrays h' k = Some bs" "length bs = n" using assms(1) by (auto simp: fills_def)
  obtain h'' where "write_chars (Heap k) 0 cs h' = Ret h''" "fills k cs (length bs) h' h''"
    using write_prefix[OF bs(1)] assms(2) bs(2) by auto
  then show ?thesis using assms(1) bs(2) by (auto simp: fills_def)
qed

text \<open>The new array of an assignment: zero at its end, then the characters of the other string.\<close>

lemma assign_array:
  assumes "str_ok h1 s"
  obtains h3 h4 where "write_chars (Heap (next_array h1)) (str_length s) [0] (snd (new_chars (str_length s + 1) h1)) = Ret h3"
    "read_chars (str_data s) (str_length s) h3 = Ret (text_of h1 s)"
    "write_chars (Heap (next_array h1)) 0 (text_of h1 s) h3 = Ret h4" "made h1 (text_of h1 s) h4"
proof -
  let ?n = "str_length s"
  obtain h3 where h3: "write_chars (Heap (next_array h1)) ?n [0] (snd (new_chars (?n + 1) h1)) = Ret h3"
    "fills (next_array h1) [] (?n + 1) (snd (new_chars (?n + 1) h1)) h3" using fresh_terminated by blast
  have l: "length (text_of h1 s) \<le> ?n + 1" using text_length[OF assms] by simp
  obtain h4 where h4: "write_chars (Heap (next_array h1)) 0 (text_of h1 s) h3 = Ret h4"
    "fills (next_array h1) (text_of h1 s) (?n + 1) (snd (new_chars (?n + 1) h1)) h4" using fill_over[OF h3(2) l] by blast
  have "read_chars (str_data s) ?n h3 = Ret (text_of h1 s)"
    using untouched_read[OF fills_untouched[OF h3(2) assms]] read_text[OF assms] by simp
  then show thesis using that h3(1) h4(1) fills_made[OF h4(2) l] by blast
qed

lemma step_assign_new:
  assumes "strings_ok (ss, h)" "i < length ss" "j < length ss" "i \<noteq> j" "next_array h1 = next_array h"
    and "\<And>l. l < length ss \<Longrightarrow> l \<noteq> i \<Longrightarrow> untouched (str_data (ss ! l)) h h1"
  shows "\<exists>h3 h4. write_chars (Heap (next_array h1)) (str_length (ss ! j)) [0] (snd (new_chars (str_length (ss ! j) + 1) h1)) = Ret h3 \<and>
    read_chars (str_data (ss ! j)) (str_length (ss ! j)) h3 = Ret (text_of h (ss ! j)) \<and>
    write_chars (Heap (next_array h1)) 0 (text_of h (ss ! j)) h3 = Ret h4 \<and>
    steps_to (Ret (ss[i := \<lparr>owns_data = b, str_data = Heap (next_array h), str_length = length (text_of h (ss ! j))\<rparr>], h4))
      ((texts (ss, h))[i := text_of h (ss ! j)])"
proof -
  have u: "untouched (str_data (ss ! j)) h h1" using assms(3,4,6) by simp
  note ok = untouched_ok[OF u strings_okD(1)[OF assms(1,3)]] and t = untouched_text[OF u]
  obtain h3 h4 where w: "write_chars (Heap (next_array h1)) (str_length (ss ! j)) [0] (snd (new_chars (str_length (ss ! j) + 1) h1)) = Ret h3"
    "read_chars (str_data (ss ! j)) (str_length (ss ! j)) h3 = Ret (text_of h1 (ss ! j))"
    "write_chars (Heap (next_array h1)) 0 (text_of h1 (ss ! j)) h3 = Ret h4" "made h1 (text_of h1 (ss ! j)) h4"
    by (rule assign_array[OF ok])
  have m: "made h1 (text_of h (ss ! j)) h4" using w(4) t by simp
  show ?thesis using w(1-3) t put_after[OF assms(1,2,5,6) m, of b] by auto
qed


lemma untouched_by_new: "strings_ok (ss, h) \<Longrightarrow> l < length ss \<Longrightarrow> made h cs h' \<Longrightarrow> untouched (str_data (ss ! l)) h h'"
  using made_untouched strings_okD(1) by blast

text \<open>The array of an owned string is long enough, so it is written over.\<close>

lemma step_assign_over:
  assumes "strings_ok (ss, h)" "i < length ss" "owns_data (ss ! i)" "length cs \<le> str_length (ss ! i)"
  shows "\<exists>h'. write_chars (str_data (ss ! i)) 0 cs h = Ret h' \<and>
    steps_to (Ret (ss[i := (ss ! i)\<lparr>str_length := length cs\<rparr>], h')) ((texts (ss, h))[i := cs])"
proof (cases "cs = []")
  case True
  let ?s = "(ss ! i)\<lparr>str_length := 0\<rparr>"
  have ok: "str_ok h ?s" using strings_okD(1)[OF assms(1,2)] by (auto simp: str_ok_def split: char_ptr.splits)
  have t: "text_of h ?s = []" by (simp add: text_of_def split: option.splits)
  have f: "str_data (ss ! l) \<noteq> Heap k" if "str_data ?s = Heap k" "l < length ss" "l \<noteq> i" for k l
    using strings_okD(3)[OF assms(1,2) that(2,3), of k] that(1) by simp
  show ?thesis using put_string[OF assms(1,2) untouched_refl ok f] t True by (simp add: steps_to_def write_chars_def)
next
  case False
  let ?s = "(ss ! i)\<lparr>str_length := length cs\<rparr>"
  obtain k bs where k: "str_data (ss ! i) = Heap k" "char_arrays h k = Some bs" "str_length (ss ! i) \<le> length bs" "k < next_array h"
    using strings_okD(1)[OF assms(1,2)] assms(3,4) False by (auto simp: str_ok_def split: char_ptr.splits)
  have "length cs \<le> length bs" using assms(4) k(3) by simp
  then obtain h' where h': "write_chars (Heap k) 0 cs h = Ret h'" "fills k cs (length bs) h h'" using write_prefix[OF k(2)] by blast
  have u: "untouched (str_data (ss ! l)) h h'" if "l < length ss" "l \<noteq> i" for l
    using strings_okD(3)[OF assms(1,2) that k(1)] h'(2) by (auto simp: untouched_def fills_def)
  have ok: "str_ok h' ?s" using k(1,4) h'(2) \<open>length cs \<le> length bs\<close> by (auto simp: str_ok_def fills_def)
  have t: "text_of h' ?s = cs" using k(1) h'(2) by (auto simp: text_of_def array_at_def fills_def)
  have f: "str_data (ss ! l) \<noteq> Heap k'" if "str_data ?s = Heap k'" "l < length ss" "l \<noteq> i" for k' l
    using strings_okD(3)[OF assms(1,2) that(2,3), of k'] that(1) by simp
  show ?thesis using put_string[OF assms(1,2) u ok f] t h'(1) k(1) by (simp add: steps_to_def)
qed

lemma step_assign:
  assumes "strings_ok (ss, h)" "i < length ss" "j < length ss"
  shows "steps_to (str_assign i j (ss, h)) ((texts (ss, h))[i := texts (ss, h) ! j])"
proof -
  let ?t = "ss ! i" and ?s = "ss ! j"
  note ok = strings_okD(1)[OF assms(1,3)]
  consider "i = j" | "i \<noteq> j" "\<not> owns_data ?t" | "i \<noteq> j" "owns_data ?t" "str_length ?t < str_length ?s"
    | "i \<noteq> j" "owns_data ?t" "str_length ?s \<le> str_length ?t" by linarith
  then show ?thesis
  proof cases
    case 1 then show ?thesis using assms(1) by (simp add: str_assign_def steps_to_def)
  next
    case 2
    obtain h3 h4 where w: "write_chars (Heap (next_array h)) (str_length ?s) [0] (snd (new_chars (str_length ?s + 1) h)) = Ret h3"
      "read_chars (str_data ?s) (str_length ?s) h3 = Ret (text_of h ?s)"
      "write_chars (Heap (next_array h)) 0 (text_of h ?s) h3 = Ret h4"
      "steps_to (Ret (ss[i := \<lparr>owns_data = True, str_data = Heap (next_array h), str_length = length (text_of h ?s)\<rparr>], h4))
        ((texts (ss, h))[i := text_of h ?s])"
      using step_assign_new[OF assms 2(1) refl untouched_refl, of True] by blast
    have r: "?t\<lparr>str_data := p, owns_data := True, str_length := n\<rparr> = \<lparr>owns_data = True, str_data = p, str_length = n\<rparr>" for p n
      by (cases ?t) simp
    show ?thesis using w 2 text_length[OF ok] assms(3)
      by (simp add: r str_assign_def Let_def case_prod_unfold new_array_simps(1) texts_nth del: One_nat_def)
  next
    case 3
    obtain h1 where h1: "delete_chars (str_data ?t) h = Ret h1" "next_array h1 = next_array h"
      "\<And>l. l < length ss \<Longrightarrow> l \<noteq> i \<Longrightarrow> untouched (str_data (ss ! l)) h h1"
      using delete_result[OF assms(1,2) 3(2)] by blast
    obtain h3 h4 where w: "write_chars (Heap (next_array h1)) (str_length ?s) [0] (snd (new_chars (str_length ?s + 1) h1)) = Ret h3"
      "read_chars (str_data ?s) (str_length ?s) h3 = Ret (text_of h ?s)"
      "write_chars (Heap (next_array h1)) 0 (text_of h ?s) h3 = Ret h4"
      "steps_to (Ret (ss[i := \<lparr>owns_data = True, str_data = Heap (next_array h), str_length = length (text_of h ?s)\<rparr>], h4))
        ((texts (ss, h))[i := text_of h ?s])"
      using step_assign_new[OF assms 3(1) h1(2,3), of True] by blast
    have r: "?t\<lparr>str_data := Heap (next_array h), str_length := n\<rparr> = \<lparr>owns_data = True, str_data = Heap (next_array h), str_length = n\<rparr>" for n
      using 3(2) by (cases ?t) simp
    show ?thesis using w 3 text_length[OF ok] assms(3) h1(1,2)
      by (simp add: r str_assign_def Let_def case_prod_unfold new_array_simps(1) texts_nth del: One_nat_def)
  next
    case 4
    obtain h' where "write_chars (str_data ?t) 0 (text_of h ?s) h = Ret h'"
      "steps_to (Ret (ss[i := ?t\<lparr>str_length := length (text_of h ?s)\<rparr>], h')) ((texts (ss, h))[i := text_of h ?s])"
      using step_assign_over[OF assms(1,2) 4(2), of "text_of h ?s"] 4(3) text_length[OF ok] by auto
    then show ?thesis using 4 read_text[OF ok] text_length[OF ok] assms(3) by (simp add: str_assign_def Let_def texts_nth)
  qed
qed


lemma step_move_assign:
  assumes "strings_ok (ss, h)" "i < length ss" "j < length ss"
  shows "steps_to (str_move_assign i j (ss, h)) (if i = j then texts (ss, h) else (texts (ss, h))[i := texts (ss, h) ! j, j := []])"
proof (cases "i = j")
  case True then show ?thesis using assms(1) by (simp add: str_move_assign_def steps_to_def)
next
  case ne: False
  let ?t = "ss ! i" and ?s = "ss ! j"
  let ?e = "?s\<lparr>str_data := Null, str_length := 0\<rparr>"
  let ?ss = "ss[j := ?e]"
  note e = emptied[OF assms(1,3)] and ok = strings_okD(1)[OF assms(1,3)]
  have l: "i < length ?ss" "?ss ! i = ?t" using assms(2) ne by simp_all
  have "\<exists>h1. (if owns_data ?t then delete_chars (str_data ?t) h else Ret h) = Ret h1 \<and> next_array h1 = next_array h \<and>
    (\<forall>l. l < length ss \<and> l \<noteq> i \<longrightarrow> untouched (str_data (ss ! l)) h h1)"
    using delete_result[OF assms(1,2)] untouched_refl by (cases "owns_data ?t") auto
  then obtain h1 where h1: "(if owns_data ?t then delete_chars (str_data ?t) h else Ret h) = Ret h1" "next_array h1 = next_array h"
    "\<And>l. l < length ss \<Longrightarrow> l \<noteq> i \<Longrightarrow> untouched (str_data (ss ! l)) h h1" by blast
  have u: "untouched (str_data (?ss ! l)) h h1" if "l < length ?ss" "l \<noteq> i" for l
    using h1(2,3) that by (cases "l = j") (auto simp: untouched_def)
  have uj: "untouched (str_data ?s) h h1" using h1(3) assms(3) ne by simp
  have sw: "ss[i := X, j := Y] = ss[j := Y, i := X]" "(texts (ss, h))[i := x, j := y] = (texts (ss, h))[j := y, i := x]" for X Y x y
    using ne by (simp_all add: list_update_swap)
  show ?thesis
  proof (cases "owns_data ?s")
    case True
    let ?n = "?t\<lparr>str_data := str_data ?s, str_length := str_length ?s\<rparr>"
    have "str_ok h1 ?s" using untouched_ok[OF uj ok] .
    then have ok1: "str_ok h1 ?n" using True by (auto simp: str_ok_def split: char_ptr.splits)
    have t1: "text_of h1 ?n = text_of h ?s"
      using text_same_data[of ?n ?s h1] untouched_text[OF uj] by simp
    have f: "str_data (?ss ! l) \<noteq> Heap k" if "str_data ?n = Heap k" "l < length ?ss" "l \<noteq> i" for k l
      using strings_okD(3)[OF assms(1,3), of l k] that by (cases "l = j") simp_all
    have "steps_to (Ret (?ss[i := ?n], h1)) ((texts (ss, h))[j := [], i := text_of h ?s])"
      using put_string[OF e(1) l(1) u ok1 f] t1 e(2) by (simp add: steps_to_def)
    then show ?thesis using ne True h1(1) assms(3) by (simp add: str_move_assign_def Let_def sw texts_nth)
  next
    case False
    obtain h2 where h2: "terminated_copy ?s h1 = Ret (Heap (next_array h1), h2)" "made h1 (text_of h1 ?s) h2"
      using terminated_copy_result[OF untouched_ok[OF uj ok]] by blast
    have m: "made h1 (text_of h ?s) h2" using h2(2) untouched_text[OF uj] by simp
    have r: "?t\<lparr>str_data := p, str_length := n\<rparr> = \<lparr>owns_data = owns_data ?t, str_data = p, str_length = n\<rparr>" for p n by (cases ?t) simp
    have "steps_to (Ret (?ss[i := ?t\<lparr>str_data := Heap (next_array h), str_length := str_length ?s\<rparr>], h2))
      ((texts (ss, h))[j := [], i := text_of h ?s])"
      using put_after[OF e(1) l(1) h1(2) u m, of "owns_data ?t"] e(2) text_length[OF ok] by (simp add: r)
    then show ?thesis using ne False h1(1,2) h2(1) assms(3) by (simp add: str_move_assign_def Let_def sw texts_nth)
  qed
qed

lemma step_append:
  assumes "strings_ok (ss, h)" "i < length ss" "j < length ss"
  shows "steps_to (str_append i j (ss, h)) ((texts (ss, h))[i := texts (ss, h) ! i @ texts (ss, h) ! j])"
proof -
  let ?t = "ss ! i" and ?s = "ss ! j"
  let ?cs = "text_of h ?t @ text_of h ?s"
  let ?n = "\<lparr>owns_data = True, str_data = Heap (next_array h), str_length = length ?cs\<rparr>"
  note ok = strings_okD(1)[OF assms(1,2)] strings_okD(1)[OF assms(1,3)]
  obtain h1 where h1: "joined ?t ?s h = Ret (Heap (next_array h), h1)" "made h ?cs h1" using joined_result[OF ok] by blast
  have ok1: "strings_ok (ss @ [?n], h1)" using add_made[OF assms(1) h1(2), of True] by (simp add: steps_to_def)
  have n: "(ss @ [?n]) ! i = ?t" using assms(2) by (simp add: nth_append)
  have i1: "i < length (ss @ [?n])" using assms(2) by simp
  have "\<exists>h2. (if owns_data ?t then delete_chars (str_data ?t) h1 else Ret h1) = Ret h2 \<and> next_array h2 = next_array h1 \<and>
    (\<forall>l. l < length (ss @ [?n]) \<and> l \<noteq> i \<longrightarrow> untouched (str_data ((ss @ [?n]) ! l)) h1 h2)"
  proof (cases "owns_data ?t")
    case True
    show ?thesis using delete_result[OF ok1 i1, unfolded n, OF True] True by (simp only: if_True)
  next
    case False then show ?thesis by (simp add: untouched_refl)
  qed
  then obtain h2 where h2: "(if owns_data ?t then delete_chars (str_data ?t) h1 else Ret h1) = Ret h2" "next_array h2 = next_array h1"
    "\<And>l. l < length (ss @ [?n]) \<Longrightarrow> l \<noteq> i \<Longrightarrow> untouched (str_data ((ss @ [?n]) ! l)) h1 h2" by blast
  have new: "char_arrays h2 (next_array h) = char_arrays h1 (next_array h)"
    using h2(3)[of "length ss"] assms(2) by (simp add: untouched_def)
  have u: "untouched (str_data (ss ! l)) h h2" if "l < length ss" "l \<noteq> i" for l
    using untouched_trans[OF untouched_by_new[OF assms(1) that(1) h1(2)]] h2(3)[of l] that by (simp add: nth_append)
  show ?thesis using put_made[OF assms(1,2) h1(2) h2(2) new u, of True] h1(1) h2(1) assms(2,3) text_length ok
    by (simp add: str_append_def Let_def texts_nth)
qed

lemma step_drop:
  assumes "strings_ok (ss, h)" "ss \<noteq> []"
  shows "steps_to (str_step Drop_string (ss, h)) (butlast (texts (ss, h)))"
proof -
  obtain xs x where ss: "ss = xs @ [x]" using assms(2) by (cases ss rule: rev_cases) auto
  have x: "(xs @ [x]) ! length xs = x" "length xs < length (xs @ [x])" by simp_all
  note ok = assms(1)[unfolded ss]
  have "\<exists>h1. str_destroy x h = Ret h1 \<and>
    (\<forall>l. l < length (xs @ [x]) \<and> l \<noteq> length xs \<longrightarrow> untouched (str_data ((xs @ [x]) ! l)) h h1)"
  proof (cases "owns_data x")
    case True then show ?thesis using delete_result[OF ok x(2), unfolded x(1)] by (auto simp: str_destroy_def)
  next
    case False then show ?thesis by (simp add: str_destroy_def untouched_refl)
  qed
  then obtain h1 where h1: "str_destroy x h = Ret h1"
    "\<And>l. l < length (xs @ [x]) \<Longrightarrow> l \<noteq> length xs \<Longrightarrow> untouched (str_data ((xs @ [x]) ! l)) h h1" by blast
  have n: "(xs @ [x]) ! l = xs ! l" if "l < length xs" for l using that by (simp add: nth_append)
  have u: "untouched (str_data (xs ! l)) h h1" if "l < length xs" for l
    using h1(2)[of l] n[OF that] that by simp
  have "str_ok h1 (xs ! l)" if "l < length xs" for l
    using untouched_ok[OF u[OF that]] strings_okD(1)[OF ok, of l] n[OF that] that by simp
  moreover have "l = l'" if "l < length xs" "l' < length xs" "str_data (xs ! l) = Heap k" "str_data (xs ! l') = Heap k" for l l' k
  proof (rule ccontr)
    assume "l \<noteq> l'"
    then have "str_data ((xs @ [x]) ! l') \<noteq> Heap k"
      using strings_okD(3)[OF ok, of l l' k] n[OF that(1)] that by simp
    then show False using n[OF that(2)] that(4) by simp
  qed
  ultimately have "strings_ok (xs, h1)" by (simp add: strings_ok_def)
  moreover have "map (text_of h1) xs = map (text_of h) xs"
    using u untouched_text by (auto simp: in_set_conv_nth)
  ultimately show ?thesis using h1(1) ss by (simp add: steps_to_def texts_def)
qed

lemma str_step_refines:
  assumes "strings_ok st" "str_op_ok (length (fst st)) c"
  shows "steps_to (str_step c st) (str_spec c (texts st))"
proof (cases st)
  case (Pair ss h)
  show ?thesis using assms unfolding Pair
    by (cases c) (simp_all add: step_new[simplified] step_literal[simplified] step_copy[simplified] step_move[simplified] step_assign
      step_move_assign[simplified] step_plus[simplified] step_append step_drop[simplified])
qed

text \<open>A program of such operations, and the same on lists of bytes.\<close>

fun str_run :: "str_op list \<Rightarrow> str list \<times> chars \<Rightarrow> (str list \<times> chars) res" where
  "str_run [] st = Ret st"
| "str_run (c # cs) st = bindr (str_step c st) (str_run cs)"

fun spec_run :: "str_op list \<Rightarrow> u8 list list \<Rightarrow> u8 list list" where
  "spec_run [] ts = ts"
| "spec_run (c # cs) ts = spec_run cs (str_spec c ts)"

fun str_ops_ok :: "str_op list \<Rightarrow> u8 list list \<Rightarrow> bool" where
  "str_ops_ok [] ts \<longleftrightarrow> True"
| "str_ops_ok (c # cs) ts \<longleftrightarrow> str_op_ok (length ts) c \<and> str_ops_ok cs (str_spec c ts)"

lemma str_run_refines: "strings_ok st \<Longrightarrow> str_ops_ok cs (texts st) \<Longrightarrow> steps_to (str_run cs st) (spec_run cs (texts st))"
proof (induction cs arbitrary: st)
  case Nil then show ?case by (simp add: steps_to_def)
next
  case (Cons c cs)
  have "length (fst st) = length (texts st)" by (cases st) (simp add: texts_def)
  then have "steps_to (str_step c st) (str_spec c (texts st))" using str_step_refines Cons.prems by simp
  then obtain st' where st': "str_step c st = Ret st'" "strings_ok st'" "texts st' = str_spec c (texts st)" by (auto simp: steps_to_def)
  then show ?case using Cons.IH[OF st'(2)] Cons.prems(2) by simp
qed


section \<open>Comparison\<close>

lemma byte_compare_zero: "length as = length bs \<Longrightarrow> byte_compare as bs = 0 \<longleftrightarrow> as = bs"
  by (induction as bs rule: list_induct2) (auto simp: word_uint_eq_iff)

lemma byte_compare_neg: "length as = length bs \<Longrightarrow> byte_compare as bs < 0 \<longleftrightarrow> as < bs"
  by (induction as bs rule: list_induct2) (auto simp: word_less_def)

lemma memcmp_texts:
  assumes "str_ok h a" "str_ok h b" "str_length a = str_length b"
  shows "str_memcmp a b h = Ret (byte_compare (text_of h a) (text_of h b))"
  using read_text[OF assms(1)] read_text[OF assms(2)] assms(3) by (simp add: str_memcmp_def)

lemma str_eq_texts: "str_ok h a \<Longrightarrow> str_ok h b \<Longrightarrow> str_eq a b h = Ret (text_of h a = text_of h b)"
  using memcmp_texts[of h a b] text_length[of h a] text_length[of h b] byte_compare_zero[of "text_of h a" "text_of h b"]
  by (auto simp: str_eq_def)

text \<open>Shorter first, then by the bytes: the order of \<^verbatim>\<open>operator<\<close>.\<close>

definition shortlex :: "u8 list \<Rightarrow> u8 list \<Rightarrow> bool" where
  "shortlex as bs \<longleftrightarrow> length as < length bs \<or> length as = length bs \<and> as < bs"

lemma str_less_texts: "str_ok h a \<Longrightarrow> str_ok h b \<Longrightarrow> str_less a b h = Ret (shortlex (text_of h a) (text_of h b))"
  using memcmp_texts[of h a b] text_length[of h a] text_length[of h b] byte_compare_neg[of "text_of h a" "text_of h b"]
  by (auto simp: str_less_def shortlex_def)

lemma byte_compare_pos: "length as = length bs \<Longrightarrow> byte_compare as bs > 0 \<longleftrightarrow> bs < as"
  by (induction as bs rule: list_induct2) (auto simp: word_less_def)

lemma str_greater_texts: "str_ok h a \<Longrightarrow> str_ok h b \<Longrightarrow> str_greater a b h = Ret (shortlex (text_of h b) (text_of h a))"
  using memcmp_texts[of h a b] text_length[of h a] text_length[of h b] byte_compare_pos[of "text_of h a" "text_of h b"]
  by (auto simp: str_greater_def shortlex_def)

lemma str_ne_texts: "str_ok h a \<Longrightarrow> str_ok h b \<Longrightarrow> str_ne a b h = Ret (text_of h a \<noteq> text_of h b)"
  by (simp add: str_ne_def str_eq_texts)

lemma str_less_eq_texts: "str_ok h a \<Longrightarrow> str_ok h b \<Longrightarrow> str_less_eq a b h = Ret (\<not> shortlex (text_of h b) (text_of h a))"
  using memcmp_texts[of h a b] text_length[of h a] text_length[of h b] byte_compare_pos[of "text_of h a" "text_of h b"]
  by (auto simp: str_less_eq_def shortlex_def not_less[symmetric])

lemma str_greater_eq_texts: "str_ok h a \<Longrightarrow> str_ok h b \<Longrightarrow> str_greater_eq a b h = Ret (\<not> shortlex (text_of h a) (text_of h b))"
  using memcmp_texts[of h a b] text_length[of h a] text_length[of h b] byte_compare_neg[of "text_of h a" "text_of h b"]
  by (auto simp: str_greater_eq_def shortlex_def not_less[symmetric])

text \<open>A valid index reads the character.\<close>

lemma str_index_text: "str_ok h s \<Longrightarrow> i < length (text_of h s) \<Longrightarrow> str_index i s h = Ret (text_of h s ! i)"
  by (auto simp: str_index_def text_of_def str_ok_def array_at_def split: char_ptr.splits)

lemma no_strings: "strings_ok ([], h)" "texts ([], h) = []"
  by (simp_all add: strings_ok_def texts_def)

section \<open>The string class as a list of bytes\<close>

text \<open>C7. From no strings, every program of constructions, copies, moves, assignments, concatenations and ends of
  scope on existing strings runs to its end with no undefined access; the strings then hold exactly the texts that the
  same program on lists of bytes gives, no two share an array, and equality and order of strings are equality of the
  texts and the length-first order.\<close>

theorem strings_refine_lists:
  assumes "str_ops_ok cs []"
  shows "\<exists>ss h'. str_run cs ([], h) = Ret (ss, h') \<and> strings_ok (ss, h') \<and> texts (ss, h') = spec_run cs [] \<and>
    (\<forall>i j. i < length ss \<and> j < length ss \<longrightarrow>
       str_eq (ss ! i) (ss ! j) h' = Ret (spec_run cs [] ! i = spec_run cs [] ! j) \<and>
       str_less (ss ! i) (ss ! j) h' = Ret (shortlex (spec_run cs [] ! i) (spec_run cs [] ! j)))"
proof -
  have "steps_to (str_run cs ([], h)) (spec_run cs [])" using str_run_refines[OF no_strings(1)] assms by (simp add: no_strings)
  then obtain ss h' where r: "str_run cs ([], h) = Ret (ss, h')" "strings_ok (ss, h')" "texts (ss, h') = spec_run cs []"
    by (auto simp: steps_to_def)
  have ok: "str_ok h' (ss ! i)" if "i < length ss" for i using strings_okD(1)[OF r(2) that] .
  have "spec_run cs [] ! i = text_of h' (ss ! i)" if "i < length ss" for i using texts_nth[OF that] r(3) by metis
  then show ?thesis using r str_eq_texts[OF ok ok] str_less_texts[OF ok ok] by auto
qed

theorem strings_refine_lists_witness:
  "\<exists>ss h'. str_run [Literal_string [104, 105], New_string, Assign_string 1 0, Append_string 1 0, Move_assign_string 0 1]
      ([], \<lparr>char_arrays = (\<lambda>_. None), next_array = 0, old_bytes = (\<lambda>_ _. 255)\<rparr>) = Ret (ss, h') \<and>
    texts (ss, h') = [[104, 105, 104, 105], []]"
  using strings_refine_lists[of "[Literal_string [104, 105], New_string, Assign_string 1 0, Append_string 1 0, Move_assign_string 0 1]"
    "\<lparr>char_arrays = (\<lambda>_. None), next_array = 0, old_bytes = (\<lambda>_ _. 255)\<rparr>"] by force

text \<open>A copy has no terminating zero: reading it as a C string runs past its array unless old bytes help.\<close>

lemma copy_is_no_c_string:
  assumes "str_ok h s" "0 \<notin> set (text_of h s)"
  shows "\<exists>c h'. str_copy s h = Ret (c, h') \<and> c_string_at (str_data c) h' = Stop Undef"
proof -
  let ?n = "length (text_of h s)"
  have n: "str_length s = ?n" using text_length[OF assms(1)] by simp
  obtain h' where h': "write_chars (Heap (next_array h)) 0 (text_of h s) (snd (new_chars ?n h)) = Ret h'"
    "fills (next_array h) (text_of h s) ?n (snd (new_chars ?n h)) h'" using fill_new[of "text_of h s" ?n h] by auto
  have r: "read_chars (str_data s) ?n (snd (new_chars ?n h)) = Ret (text_of h s)"
    using untouched_read[OF new_untouched[OF assms(1)]] read_text[OF assms(1)] n by simp
  have "char_arrays h' (next_array h) = Some (text_of h s)" using h'(2) by (auto simp: fills_def)
  then have "c_string_at (Heap (next_array h)) h' = Stop Undef" using assms(2) by (simp add: c_string_at_def array_at_def)
  then show ?thesis using h'(1) r by (subst str_copy_def, subst new_chars_pair) (simp add: n)
qed

text \<open>Move assignment to a string over a literal: the array it takes is never deleted.\<close>

lemma move_into_literal_leaks:
  "\<exists>ss h. str_run [Literal_string [104], Literal_string [104, 105], Move_assign_string 0 1, Drop_string, Drop_string]
      ([], \<lparr>char_arrays = (\<lambda>_. None), next_array = 0, old_bytes = (\<lambda>_ _. 255)\<rparr>) = Ret (ss, h) \<and>
    ss = [] \<and> char_arrays h 0 \<noteq> None"
  by (simp add: str_literal_def c_string_at_def array_at_def str_move_assign_def Let_def terminated_copy_def new_chars_def
      read_chars_def write_chars_def str_destroy_def upt_rec numeral_2_eq_2)

end
