(* ===== verification/ApStart.thy ===== *)
theory ApStart
  imports Apic Cpu
begin

text \<open>
  The part of \<^verbatim>\<open>src/high/ACPI/APIC.cpp\<close> that waits for hardware: the calibration of the local APIC's timer
  against the programmable interval timer, \<open>sleep\<close>, the start of the other processors and what they run.
  The platform is a parameter: its registers and ports, and what happens during one turn of a wait loop, at most one
  interrupt of this processor (when interrupts are on) or the first step of a started processor.  A loop that never ends
  is \<open>None\<close>.
\<close>

section \<open>The platform\<close>

datatype event = Taken u8 | Core_responds

record symbols =
  trampoline_entry_16 :: u64
  trampoline_data_pagetable_l4 :: u64
  trampoline_data_gdt_ptr :: u64
  trampoline_stack_ptr :: u64

record 'd platform =
  pf_regs :: "'d mmio"
  pf_out :: "u16 \<Rightarrow> u8 \<Rightarrow> 'd \<Rightarrow> 'd"
  pf_run :: "bool \<Rightarrow> 'd \<Rightarrow> event option \<times> 'd"

record 'd ap_state =
  ap_timer :: "'d timer_state"
  ap_io_handlers :: "nat option list"
  pit_bootstrap_timer_running :: bool
  ap_response :: bool
  idt_ptr :: dtr
  ap_memory :: bytes
  ap_stacks :: nat
  ap_log :: "(u8 \<times> u64) list"

abbreviation dev_of :: "'d ap_state \<Rightarrow> 'd" where "dev_of s \<equiv> timer_dev (ap_timer s)"
abbreviation tables_of :: "'d ap_state \<Rightarrow> madt" where "tables_of s \<equiv> timer_tables (ap_timer s)"
abbreviation ints_of :: "'d ap_state \<Rightarrow> handler int_state" where "ints_of s \<equiv> timer_interrupts (ap_timer s)"

definition set_dev :: "'d \<Rightarrow> 'd ap_state \<Rightarrow> 'd ap_state" where "set_dev d s = s\<lparr>ap_timer := (ap_timer s)\<lparr>timer_dev := d\<rparr>\<rparr>"

definition set_ints :: "handler int_state \<Rightarrow> 'd ap_state \<Rightarrow> 'd ap_state" where "set_ints i s = s\<lparr>ap_timer := (ap_timer s)\<lparr>timer_interrupts := i\<rparr>\<rparr>"

definition set_enabled :: "bool \<Rightarrow> 'd ap_state \<Rightarrow> 'd ap_state" where "set_enabled b s = set_ints ((ints_of s)\<lparr>enabled := b\<rparr>) s"

definition wr_lapic :: "'d platform \<Rightarrow> u64 \<Rightarrow> u32 \<Rightarrow> 'd ap_state \<Rightarrow> 'd ap_state" where
  "wr_lapic pf off v s = set_dev (mm_wr (pf_regs pf) (lapic_register (tables_of s) off) v (dev_of s)) s"

definition rd_lapic :: "'d platform \<Rightarrow> u64 \<Rightarrow> 'd ap_state \<Rightarrow> u32" where
  "rd_lapic pf off s = mm_rd (pf_regs pf) (lapic_register (tables_of s) off) (dev_of s)"

definition out_port :: "'d platform \<Rightarrow> u16 \<Rightarrow> u8 \<Rightarrow> 'd ap_state \<Rightarrow> 'd ap_state" where
  "out_port pf p v s = set_dev (pf_out pf p v (dev_of s)) s"

definition send_ipi :: "'d platform \<Rightarrow> interrupt_type \<Rightarrow> u8 \<Rightarrow> u8 \<Rightarrow> 'd ap_state \<Rightarrow> 'd ap_state" where
  "send_ipi pf type vector lid s = set_dev (send_interrupt (pf_regs pf) (tables_of s) type vector (ucast lid) (dev_of s)) s"

section \<open>Interrupts during a wait\<close>

text \<open>The function registered for the interval timer, and the one that \<open>sleep\<close> passes to \<open>notify\<close>.\<close>

definition pit_tick :: nat where "pit_tick = 0"
definition do_nothing :: nat where "do_nothing = 1"

definition run_io_handler :: "'d platform \<Rightarrow> nat option \<Rightarrow> 'd ap_state \<Rightarrow> 'd ap_state res" where
  "run_io_handler pf h s =
     (if h = Some pit_tick then
        bindr (send_eoi (pf_regs pf) (tables_of s) (dev_of s)) (\<lambda>d. Ret (set_dev d (s\<lparr>pit_bootstrap_timer_running := False\<rparr>)))
      else Stop Undef)"

text \<open>The interrupt's handler.  That of a pin without one only logs; the exceptions' handlers stop the machine.\<close>

definition handle_interrupt :: "'d platform \<Rightarrow> u8 \<Rightarrow> 'd ap_state \<Rightarrow> 'd ap_state res" where
  "handle_interrupt pf v s =
     (case interrupt_handlers (ints_of s) ! unat v of
        None \<Rightarrow> Stop (Panic ''Unhandled Interrupt'')
      | Some Io_apic_unhandled \<Rightarrow> Ret s
      | Some Io_apic_dispatch \<Rightarrow> run_io_handler pf (ap_io_handlers s ! unat v) s
      | Some Local_timer \<Rightarrow> bindr (on_local_timer (pf_regs pf) True (ap_timer s)) (\<lambda>(c, t). Ret (s\<lparr>ap_timer := t\<rparr>))
      | Some (Registered n) \<Rightarrow> Stop (Panic ''Fatal error''))"

definition wait_turn :: "'d platform \<Rightarrow> 'd ap_state \<Rightarrow> 'd ap_state res" where
  "wait_turn pf s =
     (let (e, d) = pf_run pf (enabled (ints_of s)) (dev_of s); s1 = set_dev d s
      in case e of
           None \<Rightarrow> Ret s1
         | Some Core_responds \<Rightarrow> Ret (s1\<lparr>ap_response := True\<rparr>)
         | Some (Taken v) \<Rightarrow> if enabled (ints_of s) then handle_interrupt pf v s1 else Ret s1)"

partial_function (option) wait_while :: "'d platform \<Rightarrow> ('d ap_state \<Rightarrow> bool) \<Rightarrow> 'd ap_state \<Rightarrow> 'd ap_state res option" where
  "wait_while pf c s = (if c s then case wait_turn pf s of Inl h \<Rightarrow> Some (Stop h) | Inr s' \<Rightarrow> wait_while pf c s' else Some (Ret s))"

section \<open>The timer's calibration\<close>

text \<open>One round: the local timer runs down from the top while the interval timer counts its ticks.\<close>

definition pit_ticks :: "u64 \<Rightarrow> u16" where "pit_ticks ms = ucast (0x0419 * ms)"

definition calibrate_round :: "'d platform \<Rightarrow> u64 \<Rightarrow> 'd ap_state \<Rightarrow> (u32 \<times> 'd ap_state) res option" where
  "calibrate_round pf ms s =
     (let s1 = wr_lapic pf 0x320 0xFF (wr_lapic pf 0x380 0xFFFFFFFF (wr_lapic pf 0x3E0 0x3 s));
          s2 = out_port pf 0x40 (ucast (drop_bit 8 (pit_ticks ms)))
                 (out_port pf 0x40 (ucast (pit_ticks ms AND 0xFF)) (out_port pf 0x43 0x30 s1))
      in bindo (wait_while pf pit_bootstrap_timer_running (set_enabled True (s2\<lparr>pit_bootstrap_timer_running := True\<rparr>))) (\<lambda>s3.
           let s4 = set_enabled False s3;
               count = rd_lapic pf 0x390 s4
           in Some (Ret (0xFFFFFFFF - count, wr_lapic pf 0x320 (0xFF OR push_bit 16 1) s4))))"

fun calibrate :: "'d platform \<Rightarrow> nat \<Rightarrow> u64 \<Rightarrow> u64 \<Rightarrow> 'd ap_state \<Rightarrow> (u64 \<times> 'd ap_state) res option" where
  "calibrate pf 0 ms sum_counts s = Some (Ret (sum_counts, s))"
| "calibrate pf (Suc n) ms sum_counts s =
     bindo (calibrate_round pf ms s) (\<lambda>(count, s1). calibrate pf n ms (sum_counts + ucast count) s1)"

text \<open>The pins of the I/O APIC through the state of \<open>Apic\<close>.\<close>

definition as_apic :: "'d ap_state \<Rightarrow> 'd apic_state" where
  "as_apic s = \<lparr>apic_dev = dev_of s, apic_tables = tables_of s, apic_interrupts = ints_of s, io_interrupt_handlers = ap_io_handlers s\<rparr>"

definition from_apic :: "'d apic_state \<Rightarrow> 'd ap_state \<Rightarrow> 'd ap_state" where
  "from_apic a s = set_ints (apic_interrupts a) (set_dev (apic_dev a) s)\<lparr>ap_io_handlers := io_interrupt_handlers a\<rparr>"

definition mask_pin :: "'d platform \<Rightarrow> u8 \<Rightarrow> bool \<Rightarrow> 'd ap_state \<Rightarrow> 'd ap_state" where
  "mask_pin pf pin b s = from_apic (interrupt_set_mask (pf_regs pf) pin b (as_apic s)) s"

definition zero_timer :: timer_data where
  "zero_timer = \<lparr>ticks_needed = 0, prev_init = 0, callback = None, callback_data = 0\<rparr>"

definition finish_calibration :: "'d platform \<Rightarrow> u64 \<Rightarrow> 'd ap_state \<Rightarrow> 'd ap_state res" where
  "finish_calibration pf sum_counts s =
     (let s1 = s\<lparr>ap_timer := (ap_timer s)\<lparr>ticks_per_ms := ucast (sum_counts div (10 * 10))\<rparr>\<rparr>;
          s2 = mask_pin pf 0 True s1
      in bindr (get_free_interrupt_number (ints_of s2)) (\<lambda>n.
           Ret (s2\<lparr>ap_timer := (ap_timer s2)\<lparr>timer_data_array := replicate (length (cores (tables_of s2))) zero_timer, timer_interrupt := n\<rparr>\<rparr>)))"

definition init_local_apic_timer :: "'d platform \<Rightarrow> 'd ap_state \<Rightarrow> 'd ap_state res option" where
  "init_local_apic_timer pf s =
     (let was_enabled = enabled (ints_of s); s0 = set_enabled False s
      in bindo (Some (io_interrupt_handler 0 pit_tick 0 (as_apic s0))) (\<lambda>a.
         bindo (calibrate pf 10 10 0 (mask_pin pf 0 False (from_apic a s0))) (\<lambda>(sum_counts, s1).
         bindo (Some (finish_calibration pf sum_counts s1)) (\<lambda>s2.
           Some (Ret (if was_enabled then set_enabled True s2 else s2))))))"

section \<open>Sleeping\<close>

text \<open>The guard turns interrupts on again if they were on, and never off.\<close>

definition sleep_wait :: "'d platform \<Rightarrow> 'd ap_state \<Rightarrow> 'd ap_state res option" where
  "sleep_wait pf s =
     (let i = unat (lapic_id (pf_regs pf) (tables_of s) (dev_of s)); was_enabled = enabled (ints_of s)
      in if i \<ge> length (timer_data_array (ap_timer s)) then Some (Stop Undef)
         else bindo (wait_while pf (\<lambda>s. ticks_needed (timer_data_array (ap_timer s) ! i) > 0) (set_enabled True (set_enabled False s))) (\<lambda>s1.
           Some (Ret (if was_enabled then set_enabled True s1 else s1))))"

definition sleep :: "'d platform \<Rightarrow> duration_t \<Rightarrow> 'd ap_state \<Rightarrow> 'd ap_state res option" where
  "sleep pf duration s =
     bindo (Some (begin_sleep (pf_regs pf) do_nothing duration (ap_timer s))) (\<lambda>(c, t). sleep_wait pf (s\<lparr>ap_timer := t\<rparr>))"

section \<open>The other processors\<close>

definition check_error :: "'d platform \<Rightarrow> 'd ap_state \<Rightarrow> 'd ap_state res" where
  "check_error pf s = (if rd_lapic pf 0x280 s = 0 then Ret s else Stop (Panic ''APIC error''))"

definition ipi_and_wait :: "'d platform \<Rightarrow> interrupt_type \<Rightarrow> u8 \<Rightarrow> u8 \<Rightarrow> 'd ap_state \<Rightarrow> 'd ap_state res option" where
  "ipi_and_wait pf type vector lid s =
     bindo (Some (check_error pf (send_ipi pf type vector lid s))) (\<lambda>s1.
       wait_while pf (\<lambda>s. is_interrupt_pending (pf_regs pf) (tables_of s) (dev_of s)) s1)"

definition give_stack :: "symbols \<Rightarrow> (nat \<Rightarrow> u64) \<Rightarrow> u8 \<Rightarrow> 'd ap_state \<Rightarrow> 'd ap_state" where
  "give_stack syms new_stack lid s =
     (let top = new_stack (ap_stacks s) + page_size - 8
      in s\<lparr>ap_memory := wr_bytes (map_tmp (trampoline_stack_ptr syms)) (le_bytes 8 top) (ap_memory s), ap_stacks := ap_stacks s + 1,
           ap_log := ap_log s @ [(lid, top)]\<rparr>)"

definition start_core :: "'d platform \<Rightarrow> symbols \<Rightarrow> (nat \<Rightarrow> u64) \<Rightarrow> u8 \<Rightarrow> u8 \<Rightarrow> 'd ap_state \<Rightarrow> 'd ap_state res option" where
  "start_core pf syms new_stack vector lid s =
     bindo (ipi_and_wait pf INIT 0 lid (give_stack syms new_stack lid s)) (\<lambda>s.
     bindo (sleep pf (dur_ms 10) s) (\<lambda>s.
     bindo (ipi_and_wait pf DE_INIT 0 lid s) (\<lambda>s.
     bindo (sleep pf (dur_ms 10) s) (\<lambda>s.
     bindo (ipi_and_wait pf SIPI vector lid (s\<lparr>ap_response := False\<rparr>)) (\<lambda>s.
     bindo (sleep pf (dur_ms 1) s) (\<lambda>s.
     bindo (if \<not> ap_response s then ipi_and_wait pf SIPI vector lid s else Some (Ret s)) (\<lambda>s.
     bindo (sleep pf (dur_ms 100) s) (\<lambda>s.
       wait_while pf (\<lambda>s. \<not> ap_response s) s))))))))"

fun start_cores :: "'d platform \<Rightarrow> symbols \<Rightarrow> (nat \<Rightarrow> u64) \<Rightarrow> u8 \<Rightarrow> cpu_core list \<Rightarrow> 'd ap_state \<Rightarrow> 'd ap_state res option" where
  "start_cores pf syms new_stack vector [] s = Some (Ret s)"
| "start_cores pf syms new_stack vector (c # cs) s =
     bindo (Some (check_error pf s)) (\<lambda>s.
     bindo (if ucast (apic_id c) = lapic_id (pf_regs pf) (tables_of s) (dev_of s) then Some (Ret s)
            else start_core pf syms new_stack vector (apic_id c) s)
       (start_cores pf syms new_stack vector cs))"

text \<open>What the trampoline reads: the page tables, and the 10 bytes of \<open>sgdt\<close>.\<close>

definition write_trampoline :: "symbols \<Rightarrow> core \<Rightarrow> bytes \<Rightarrow> bytes" where
  "write_trampoline syms c m =
     wr_bytes (map_tmp (trampoline_data_gdt_ptr syms)) (le_bytes 2 (tr_limit (gdt_register c)) @ le_bytes 8 (tr_base (gdt_register c)))
       (wr_bytes (map_tmp (trampoline_data_pagetable_l4 syms)) (le_bytes 8 (get_cr3 c)) m)"

definition init_local_apic :: "'d platform \<Rightarrow> symbols \<Rightarrow> (nat \<Rightarrow> u64) \<Rightarrow> core \<Rightarrow> 'd ap_state \<Rightarrow> 'd ap_state res option" where
  "init_local_apic pf syms new_stack c s =
     (let s1 = set_enabled True (wr_lapic pf 0xF0 (0x100 OR 0xFF) (out_port pf 0x21 0xFF (out_port pf 0xA1 0xFF s)))
      in bindo (init_local_apic_timer pf s1) (\<lambda>s2.
         bindo (Some (trampoline_vector (trampoline_entry_16 syms))) (\<lambda>vector.
           let s3 = s2\<lparr>ap_memory := write_trampoline syms c (ap_memory s2), idt_ptr := get_idtr c\<rparr>
           in start_cores pf syms new_stack (ucast vector) (drop 1 (cores (tables_of s3))) s3)))"

text \<open>A started processor: it answers, takes over the interrupt table, and halts with interrupts off for ever.\<close>

definition ap_cpu_setup :: "dtr \<Rightarrow> core \<Rightarrow> core res" where
  "ap_cpu_setup idt c = bindr (set_idtr_from idt c) (\<lambda>c. Ret (sti c))"

definition ap_cpu_turn :: "core \<Rightarrow> core" where "ap_cpu_turn c = hlt (cli c)"


section \<open>Facts\<close>

text \<open>What ends a wait holds after it; a property that every turn keeps is kept.\<close>

definition kept :: "'d platform \<Rightarrow> ('d ap_state \<Rightarrow> bool) \<Rightarrow> ('d ap_state \<Rightarrow> bool) \<Rightarrow> bool" where
  "kept pf c P \<longleftrightarrow> (\<forall>t t'. c t \<longrightarrow> P t \<longrightarrow> wait_turn pf t = Ret t' \<longrightarrow> P t')"

lemma wait_while_done:
  assumes "wait_while pf c s = Some (Ret s')" "P s" "kept pf c P"
  shows "\<not> c s' \<and> P s'"
proof -
  have "case r of Inl h \<Rightarrow> True | Inr s' \<Rightarrow> kept pf c P \<longrightarrow> P s \<longrightarrow> \<not> c s' \<and> P s'" if "wait_while pf c s = Some r" for r
  proof (rule wait_while.raw_induct[where P = "\<lambda>pf c s r. case r of Inl h \<Rightarrow> True | Inr s' \<Rightarrow> kept pf c P \<longrightarrow> P s \<longrightarrow> \<not> c s' \<and> P s'",
        OF _ that], goal_cases)
    case (1 w pf c s r)
    show ?case
    proof (cases "c s")
      case False then show ?thesis using 1(2) by auto
    next
      case c: True
      show ?thesis
      proof (cases "wait_turn pf s")
        case (Inl h) then have "r = Inl h" using 1(2) c by simp
        then show ?thesis by simp
      next
        case (Inr t)
        then have "w pf c t = Some r" using 1(2) c by simp
        note ih = 1(1)[OF this]
        have "P t" if "kept pf c P" "P s" using that Inr c by (simp add: kept_def)
        then show ?thesis using ih by (cases r) auto
      qed
    qed
  qed
  from this[OF assms(1)] show ?thesis using assms(2,3) by simp
qed

text \<open>No turn changes the number of timers, the tables or whether interrupts are on.\<close>

definition same_config :: "'d ap_state \<Rightarrow> 'd ap_state \<Rightarrow> bool" where
  "same_config s t \<longleftrightarrow> ints_of t = ints_of s \<and> tables_of t = tables_of s \<and> ap_stacks t = ap_stacks s \<and> ap_log t = ap_log s \<and>
     length (timer_data_array (ap_timer t)) = length (timer_data_array (ap_timer s)) \<and> ticks_per_ms (ap_timer t) = ticks_per_ms (ap_timer s)"

lemma same_config_refl: "same_config s s"
  by (simp add: same_config_def)

lemma same_config_trans: "same_config s t \<Longrightarrow> same_config t u \<Longrightarrow> same_config s u"
  by (simp add: same_config_def)

lemma set_dev_config: "same_config s (set_dev d s)"
  by (simp add: same_config_def set_dev_def)

lemma timer_tick_config:
  "timer_tick ops t = Ret (c, t') \<Longrightarrow> timer_interrupts t' = timer_interrupts t \<and> timer_tables t' = timer_tables t \<and>
     length (timer_data_array t') = length (timer_data_array t) \<and> ticks_per_ms t' = ticks_per_ms t"
  by (auto simp: timer_tick_def Let_def split: if_splits)

lemma on_local_timer_config:
  "on_local_timer ops b t = Ret (c, t') \<Longrightarrow> timer_interrupts t' = timer_interrupts t \<and> timer_tables t' = timer_tables t \<and>
     length (timer_data_array t') = length (timer_data_array t) \<and> ticks_per_ms t' = ticks_per_ms t"
  using timer_tick_config[of ops t] by (auto simp: on_local_timer_def bindr_eq_Ret split: if_splits)

lemma handle_interrupt_config: "handle_interrupt pf v s = Ret s' \<Longrightarrow> same_config s s'"
  by (auto simp: handle_interrupt_def run_io_handler_def bindr_eq_Ret same_config_def set_dev_def
      split: option.splits handler.splits if_splits dest!: on_local_timer_config)

lemma wait_turn_config:
  assumes "wait_turn pf s = Ret s'"
  shows "same_config s s'"
proof -
  obtain e d where r: "pf_run pf (enabled (ints_of s)) (dev_of s) = (e, d)" by (cases "pf_run pf (enabled (ints_of s)) (dev_of s)")
  note c = set_dev_config[of s d]
  consider "e = None" | "e = Some Core_responds" | v where "e = Some (Taken v)" by (cases e) (auto elim: event.exhaust)
  then show ?thesis
  proof cases
    case 1 then show ?thesis using assms r c by (simp add: wait_turn_def)
  next
    case 2 then show ?thesis using assms r c by (auto simp: wait_turn_def same_config_def)
  next
    case 3
    then have "s' = set_dev d s \<or> handle_interrupt pf v (set_dev d s) = Ret s'"
      using assms r by (auto simp: wait_turn_def Let_def split: if_splits)
    then show ?thesis using same_config_trans[OF c] handle_interrupt_config c by blast
  qed
qed

lemma wait_config: "wait_while pf c s = Some (Ret s') \<Longrightarrow> \<not> c s' \<and> same_config s s'"
  by (rule wait_while_done) (auto simp: kept_def same_config_refl intro: same_config_trans wait_turn_config)

text \<open>A sleep that returns leaves interrupts on, also where it was called with interrupts off.\<close>

lemma sleep_leaves_interrupts_on:
  assumes "sleep pf duration s = Some (Ret s')"
  shows "enabled (ints_of s')"
proof -
  obtain c t where "begin_sleep (pf_regs pf) do_nothing duration (ap_timer s) = Ret (c, t)" "sleep_wait pf (s\<lparr>ap_timer := t\<rparr>) = Some (Ret s')"
    using assms by (auto simp: sleep_def bindo_eq_Ret)
  then obtain c' s0 s1 where "wait_while pf c' s0 = Some (Ret s1)" "enabled (ints_of s0)" "s' = s1 \<or> s' = set_enabled True s1"
    by (auto simp: sleep_wait_def Let_def bindo_eq_Ret set_enabled_def set_ints_def split: if_splits)
  then show ?thesis using wait_config by (fastforce simp: same_config_def set_enabled_def set_ints_def)
qed

text \<open>The divider of one round is for 8.8 milliseconds, not 10: \<open>0x0419\<close> is 1049, and the timer has 1193 ticks in a millisecond.\<close>

lemma pit_ticks_value: "unat (pit_ticks 10) = 10490"
  by (simp add: pit_ticks_def)

text \<open>A processor that is parked takes no interrupt.\<close>

lemma parked_without_interrupts: "\<not> bit (rflags (ap_cpu_turn c)) 9"
  by (simp add: ap_cpu_turn_def hlt_def cli_def bit_unset_bit_iff)


section \<open>Which processors are started\<close>

text \<open>What the log says of the started processors, the number of their stacks and the tables stay as they are in every other step.\<close>

definition same_cores :: "'d ap_state \<Rightarrow> 'd ap_state \<Rightarrow> bool" where
  "same_cores s t \<longleftrightarrow> tables_of t = tables_of s \<and> ap_stacks t = ap_stacks s \<and> ap_log t = ap_log s"

named_theorems keeps \<open>steps that start no processor\<close>

lemma same_cores_trans: "same_cores s t \<Longrightarrow> same_cores t u \<Longrightarrow> same_cores s u"
  by (simp add: same_cores_def)

lemma same_config_cores: "same_config s t \<Longrightarrow> same_cores s t"
  by (simp add: same_config_def same_cores_def)

lemma simple_keeps [keeps]:
  "same_cores s (set_dev d s)" "same_cores s (set_ints i s)" "same_cores s (set_enabled b s)" "same_cores s (wr_lapic pf off v s)"
  "same_cores s (out_port pf p x s)" "same_cores s (send_ipi pf ty ve lid s)" "same_cores s (from_apic a s)" "same_cores s (mask_pin pf pin b s)"
  by (simp_all add: same_cores_def set_dev_def set_ints_def set_enabled_def wr_lapic_def out_port_def send_ipi_def from_apic_def mask_pin_def)

lemma wait_keeps: "wait_while pf c s = Some (Ret s') \<Longrightarrow> same_cores s s'"
  using wait_config same_config_cores by blast

lemma calibrate_round_keeps: "calibrate_round pf ms s = Some (Ret (n, s')) \<Longrightarrow> same_cores s s'"
  by (auto simp: calibrate_round_def Let_def bindo_eq_Ret dest!: wait_keeps)
    (simp add: same_cores_def set_dev_def set_ints_def set_enabled_def wr_lapic_def out_port_def)

lemma calibrate_keeps: "calibrate pf n ms t s = Some (Ret (t', s')) \<Longrightarrow> same_cores s s'"
  by (induction n arbitrary: t s)
    (auto simp: bindo_eq_Ret same_cores_def[of s' s'] dest!: calibrate_round_keeps intro: same_cores_trans)

lemma finish_keeps: "finish_calibration pf n s = Ret s' \<Longrightarrow> same_cores s s'"
  by (auto simp: finish_calibration_def Let_def bindr_eq_Ret same_cores_def mask_pin_def from_apic_def set_dev_def set_ints_def)

lemma timer_init_keeps:
  assumes "init_local_apic_timer pf s = Some (Ret s')"
  shows "same_cores s s'"
proof -
  obtain a n s1 s2 where r: "calibrate pf 10 10 0 (mask_pin pf 0 False (from_apic a (set_enabled False s))) = Some (Ret (n, s1))"
    "finish_calibration pf n s1 = Ret s2" "s' = s2 \<or> s' = set_enabled True s2"
    using assms by (auto simp: init_local_apic_timer_def Let_def bindo_eq_Ret split: if_splits)
  have "same_cores s (mask_pin pf 0 False (from_apic a (set_enabled False s)))"
    by (rule same_cores_trans[OF same_cores_trans[OF simple_keeps(3) simple_keeps(7)] simple_keeps(8)])
  then have "same_cores s s2" using calibrate_keeps[OF r(1)] finish_keeps[OF r(2)] same_cores_trans by blast
  then show ?thesis using r(3) simple_keeps(3)[of s2 True] same_cores_trans by blast
qed

lemma begin_sleep_tables: "begin_sleep ops n duration t = Ret (c, t') \<Longrightarrow> timer_tables t' = timer_tables t"
  by (auto simp: begin_sleep_def notify_def Let_def split: if_splits dest!: on_local_timer_config)

lemma sleep_keeps:
  assumes "sleep pf duration s = Some (Ret s')"
  shows "same_cores s s'"
proof -
  obtain c t where t: "begin_sleep (pf_regs pf) do_nothing duration (ap_timer s) = Ret (c, t)" "sleep_wait pf (s\<lparr>ap_timer := t\<rparr>) = Some (Ret s')"
    using assms by (auto simp: sleep_def bindo_eq_Ret)
  let ?s = "set_enabled True (set_enabled False (s\<lparr>ap_timer := t\<rparr>))"
  obtain c' s1 where r: "wait_while pf c' ?s = Some (Ret s1)" "s' = s1 \<or> s' = set_enabled True s1"
    using t(2) by (auto simp: sleep_wait_def Let_def bindo_eq_Ret split: if_splits)
  have "same_cores s (s\<lparr>ap_timer := t\<rparr>)" using begin_sleep_tables[OF t(1)] by (simp add: same_cores_def)
  then have "same_cores s ?s" using simple_keeps(3) same_cores_trans by blast
  then have "same_cores s s1" using wait_keeps[OF r(1)] same_cores_trans by blast
  then show ?thesis using r(2) simple_keeps(3)[of s1 True] same_cores_trans by blast
qed

lemma ipi_keeps:
  assumes "ipi_and_wait pf ty ve lid s = Some (Ret s')"
  shows "same_cores s s'"
proof -
  obtain c where "wait_while pf c (send_ipi pf ty ve lid s) = Some (Ret s')"
    using assms by (auto simp: ipi_and_wait_def bindo_eq_Ret check_error_def split: if_splits)
  then show ?thesis using simple_keeps(6) wait_keeps same_cores_trans by blast
qed

lemma start_core_done:
  assumes "start_core pf syms ns v lid s = Some (Ret s')"
  shows "tables_of s' = tables_of s \<and> ap_stacks s' = ap_stacks s + 1 \<and> ap_log s' = ap_log s @ [(lid, ns (ap_stacks s) + page_size - 8)] \<and> ap_response s'"
proof -
  let ?s0 = "give_stack syms ns lid s"
  obtain s1 s2 s3 s4 s5 s6 s7 s8 where r: "ipi_and_wait pf INIT 0 lid ?s0 = Some (Ret s1)" "sleep pf (dur_ms 10) s1 = Some (Ret s2)"
    "ipi_and_wait pf DE_INIT 0 lid s2 = Some (Ret s3)" "sleep pf (dur_ms 10) s3 = Some (Ret s4)"
    "ipi_and_wait pf SIPI v lid (s4\<lparr>ap_response := False\<rparr>) = Some (Ret s5)" "sleep pf (dur_ms 1) s5 = Some (Ret s6)"
    "(if \<not> ap_response s6 then ipi_and_wait pf SIPI v lid s6 else Some (Ret s6)) = Some (Ret s7)" "sleep pf (dur_ms 100) s7 = Some (Ret s8)"
    "wait_while pf (\<lambda>s. \<not> ap_response s) s8 = Some (Ret s')"
    using assms unfolding start_core_def bindo_eq_Ret by blast
  have a: "same_cores ?s0 s4" using ipi_keeps[OF r(1)] sleep_keeps[OF r(2)] ipi_keeps[OF r(3)] sleep_keeps[OF r(4)] same_cores_trans by blast
  have "same_cores s4 s5" using ipi_keeps[OF r(5)] by (simp add: same_cores_def)
  moreover have "same_cores s6 s7" using r(7) ipi_keeps[of pf SIPI v lid s6 s7] by (cases "ap_response s6") (auto simp: same_cores_def)
  ultimately have "same_cores ?s0 s'"
    using a sleep_keeps[OF r(6)] sleep_keeps[OF r(8)] wait_keeps[OF r(9)] same_cores_trans by blast
  then show ?thesis using wait_config[OF r(9)] by (simp add: same_cores_def give_stack_def Let_def)
qed

text \<open>All processors of the list but the current one are started in order, each with the next stack, and the last one has answered.\<close>

lemma start_cores_done:
  assumes "start_cores pf syms ns v cs s = Some (Ret s')" "\<And>d. lapic_id (pf_regs pf) (tables_of s) d = me"
  shows "tables_of s' = tables_of s \<and>
    ap_log s' = ap_log s @ map (\<lambda>(k, c). (apic_id c, ns k + page_size - 8)) (enumerate (ap_stacks s) (filter (\<lambda>c. ucast (apic_id c) \<noteq> me) cs)) \<and>
    (filter (\<lambda>c. ucast (apic_id c) \<noteq> me) cs \<noteq> [] \<longrightarrow> ap_response s')"
  using assms
proof (induction cs arbitrary: s)
  case Nil then show ?case by simp
next
  case (Cons c cs)
  show ?case
  proof (cases "ucast (apic_id c) = me")
    case True
    then have "start_cores pf syms ns v cs s = Some (Ret s')"
      using Cons.prems by (auto simp: bindo_eq_Ret check_error_def split: if_splits)
    then show ?thesis using Cons.IH Cons.prems(2) True by simp
  next
    case False
    then obtain s1 where r: "start_core pf syms ns v (apic_id c) s = Some (Ret s1)" "start_cores pf syms ns v cs s1 = Some (Ret s')"
      using Cons.prems by (auto simp: bindo_eq_Ret check_error_def split: if_splits)
    note d = start_core_done[OF r(1)]
    have "ap_response s'" if "filter (\<lambda>c. ucast (apic_id c) \<noteq> me) cs = []"
    proof -
      have "\<forall>s. (\<forall>d. lapic_id (pf_regs pf) (tables_of s) d = me) \<longrightarrow> ap_response s \<longrightarrow> start_cores pf syms ns v cs s = Some (Ret s') \<longrightarrow> ap_response s'"
        using that by (induction cs) (auto simp: bindo_eq_Ret check_error_def split: if_splits)
      from this[rule_format, of s1] show ?thesis using d r(2) Cons.prems(2) by simp
    qed
    then show ?thesis using Cons.IH[OF r(2)] Cons.prems(2) d False by auto
  qed
qed

lemma init_local_apic_starts:
  assumes "init_local_apic pf syms ns c s = Some (Ret s')" "\<And>d. lapic_id (pf_regs pf) (tables_of s) d = me"
  shows "ap_log s' = ap_log s @ map (\<lambda>(k, c). (apic_id c, ns k + page_size - 8))
      (enumerate (ap_stacks s) (started_cores (pf_regs pf) (tables_of s) (dev_of s)))"
proof -
  let ?s1 = "set_enabled True (wr_lapic pf 0xF0 (0x100 OR 0xFF) (out_port pf 0x21 0xFF (out_port pf 0xA1 0xFF s)))"
  obtain s2 v where r: "init_local_apic_timer pf ?s1 = Some (Ret s2)"
    "start_cores pf syms ns (ucast (v :: u64)) (drop 1 (cores (tables_of s2)))
      (s2\<lparr>ap_memory := write_trampoline syms c (ap_memory s2), idt_ptr := get_idtr c\<rparr>) = Some (Ret s')"
    using assms(1) by (auto simp: init_local_apic_def Let_def bindo_eq_Ret)
  have "same_cores s ?s1"
    by (rule same_cores_trans[OF same_cores_trans[OF same_cores_trans[OF simple_keeps(5) simple_keeps(5)] simple_keeps(4)] simple_keeps(3)])
  then have k: "same_cores s s2" using timer_init_keeps[OF r(1)] same_cores_trans by blast
  show ?thesis using start_cores_done[OF r(2), of me] k assms(2) by (simp add: same_cores_def started_cores_def)
qed

end
