(* ===== verification/Xhci.thy ===== *)
theory Xhci
  imports Layout
begin

text \<open>
  \<^verbatim>\<open>include/PCI/xhci.h\<close> and \<^verbatim>\<open>src/high/PCI/xhci.cpp\<close>: the beginnings of a USB host controller driver, as far as
  they go: the constructor reads the capability registers, stops and resets the controller and lists the connected
  ports.  The controller is a parameter, its registers at the addresses of its memory region and its progress during one
  pause.  Reads of one or two bytes are parts of the 32-bit register.
\<close>

section \<open>Structures\<close>

definition xhci_driver :: driver_type where
  "xhci_driver = \<lparr>drv_match = match_class_code OR match_subclass OR match_prog_if,
     drv_class_code = 0x0C, drv_subclass = 0x03, drv_prog_if = 0x30\<rparr>"

definition slot_context_layout :: "member list" where
  "slot_context_layout = [
     Bits 4 [(''route_string'', 20), (''reserved'', 5), (''multitt'', 1), (''hub'', 1), (''context_entries'', 5)],
     Bits 4 [(''max_exit_latency'', 16), (''root_hub_port_number'', 8), (''number_of_ports'', 8)],
     Bits 4 [(''parent_hub_slot_id'', 8), (''parent_port_number'', 8), (''tt_think_time'', 2), (''reserved2'', 4), (''interrupter_target'', 10)],
     Bits 4 [(''usb_device_address'', 8), (''reserved3'', 19), (''slot_state'', 5)],
     Field ''reserved4'' 4 4]"

definition endpoint_context_layout :: "member list" where
  "endpoint_context_layout = [
     Bits 4 [(''endpoint_state'', 3), (''reserved'', 5), (''mult'', 2), (''max_primary_streams'', 5), (''linear_stream_array'', 1),
       (''interval'', 8), (''max_esit_payload_high'', 8)],
     Bits 4 [(''reserved2'', 1), (''error_count'', 2), (''endpoint_type'', 3), (''reserved3'', 1), (''host_initiate_disable'', 1),
       (''max_burst_size'', 8), (''max_packet_size'', 16)],
     Bits 8 [(''deque_cycle_state'', 1), (''reserved4'', 63)],
     Bits 4 [(''average_trb_length'', 16), (''max_esit_payload_low'', 16)],
     Field ''reserved5'' 4 3]"

definition device_context_layout :: "member list" where
  "device_context_layout = [Field ''slotContext'' 1 (struct_size True slot_context_layout),
     Field ''endpointContexts'' 1 (31 * struct_size True endpoint_context_layout)]"

text \<open>The array of pointers to the device contexts, in physical memory.\<close>

definition dcbaa_get :: "u64 \<Rightarrow> u64 \<Rightarrow> u64" where "dcbaa_get b k = b + k * 8"

definition dcbaa_set :: "u64 \<Rightarrow> u64 \<Rightarrow> u64 \<Rightarrow> bytes \<Rightarrow> bytes" where
  "dcbaa_set b k a m = wr_bytes (map_tmp (dcbaa_get b k)) (le_bytes 8 a) m"

section \<open>The controller\<close>

record 'd xhci_controller =
  xhci_regs :: "'d mmio"
  xhci_run :: "'d \<Rightarrow> 'd"

record xhci =
  xhci_bar :: BAR
  xhci_header :: device_header
  xhci_capabilities :: u64
  xhci_operational :: u64
  xhci_runtime :: u64
  xhci_doorbell :: u64

text \<open>How the constructor ends: the ports with their states when the controller is running.\<close>

datatype xhci_start = No_bar | Not_64_bit | Scratchpads_needed | Reset_done xhci "(u32 \<times> u8) list"

definition max_ports :: "u32 \<Rightarrow> u32" where "max_ports param1 = drop_bit 24 param1 AND 0xFF"
definition max_interrupters :: "u32 \<Rightarrow> u32" where "max_interrupters param1 = drop_bit 8 param1 AND 0x7FF"
definition max_slots :: "u32 \<Rightarrow> u32" where "max_slots param1 = param1 AND 0xFF"

text \<open>The sum binds stronger than the conjunctions.\<close>

definition scratchpad_buffers :: "u32 \<Rightarrow> u32" where
  "scratchpad_buffers param2 = (drop_bit 27 param2 AND (0x1F + drop_bit 21 param2)) AND 0x1F"

partial_function (option) xhci_wait :: "('d \<Rightarrow> 'd) \<Rightarrow> ('d \<Rightarrow> bool) \<Rightarrow> 'd \<Rightarrow> 'd option" where
  "xhci_wait run ready d = (if ready d then Some d else xhci_wait run ready (run d))"

definition port_status :: "'d mmio \<Rightarrow> u64 \<Rightarrow> u32 \<Rightarrow> 'd \<Rightarrow> u32" where
  "port_status ops operational i d = mm_rd ops (operational + 4 * ucast (0x100 + i)) d"

definition connected_ports :: "'d mmio \<Rightarrow> u64 \<Rightarrow> u32 \<Rightarrow> 'd \<Rightarrow> (u32 \<times> u8) list" where
  "connected_ports ops operational n d =
     [(i, ucast (drop_bit 5 (port_status ops operational i d) AND 0xF)). i \<leftarrow> map of_nat [0..<unat n],
        port_status ops operational i d AND 1 \<noteq> 0]"

definition xhci_reset :: "'d xhci_controller \<Rightarrow> u64 \<Rightarrow> 'd \<Rightarrow> 'd option" where
  "xhci_reset c operational d =
     (let ops = xhci_regs c;
          d1 = mm_wr ops operational (mm_rd ops operational d AND NOT 1) d
      in Option.bind (xhci_wait (xhci_run c) (\<lambda>d. mm_rd ops (operational + 4) d AND 1 \<noteq> 0) d1) (\<lambda>d2.
         xhci_wait (xhci_run c) (\<lambda>d. mm_rd ops operational d AND 2 = 0)
           (mm_wr ops operational (mm_rd ops operational d2 OR 2) d2)))"

definition make_xhci ::
    "'d mmio \<Rightarrow> 'd xhci_controller \<Rightarrow> 'p page_alloc \<Rightarrow> generic_device \<Rightarrow> ('d, 'p) pci_state \<Rightarrow> (xhci_start \<times> ('d, 'p) pci_state) res option" where
  "make_xhci pci_ops c alloc x s =
     (let h = make_device_header pci_ops x (pci_dev s)
      in bindo (get_bar pci_ops alloc h 0 s) (\<lambda>(b, s1).
        case b of
          None \<Rightarrow> Some (Ret (No_bar, s1))
        | Some bar \<Rightarrow>
            bindo (Some (or_undef (get_address bar))) (\<lambda>data.
              let rd = (\<lambda>off. mm_rd (xhci_regs c) (data + off) (pci_dev s1));
                  cap_length = rd 0 AND 0xFF; param1 = rd 4; param2 = rd 8; param4 = rd 0x10
              in if param4 AND 1 = 0 then Some (Ret (Not_64_bit, s1))
                 else if scratchpad_buffers param2 > 0 then Some (Ret (Scratchpads_needed, s1))
                 else
                   let operational = data + ucast cap_length;
                       y = \<lparr>xhci_bar = bar, xhci_header = h, xhci_capabilities = data, xhci_operational = operational,
                         xhci_runtime = data + ucast (rd 0x18), xhci_doorbell = data + ucast (rd 0x14)\<rparr>
                   in Option.bind (xhci_reset c operational (pci_dev s1)) (\<lambda>d.
                        Some (Ret (Reset_done y (connected_ports (xhci_regs c) operational (max_ports param1) d), s1\<lparr>pci_dev := d\<rparr>))))))"

section \<open>Facts\<close>

lemma context_sizes:
  "struct_size True slot_context_layout = 32" "struct_size True endpoint_context_layout = 32" "struct_size True device_context_layout = 1024"
  by (simp_all add: place_simps slot_context_layout_def endpoint_context_layout_def device_context_layout_def)

text \<open>Waiting ends after the pauses that the controller takes, in the first state that is ready.\<close>

lemma xhci_wait_returns:
  assumes "ready ((run ^^ n) d)"
  shows "\<exists>k \<le> n. xhci_wait run ready d = Some ((run ^^ k) d) \<and> ready ((run ^^ k) d)"
  using assms
proof (induction n arbitrary: d)
  case 0 then show ?case by (simp add: xhci_wait.simps)
next
  case (Suc n)
  show ?case
  proof (cases "ready d")
    case True then show ?thesis by (intro exI[of _ 0]) (simp add: xhci_wait.simps)
  next
    case False
    have "ready ((run ^^ n) (run d))" using Suc.prems by (simp add: funpow_swap1)
    from Suc.IH[OF this] obtain k where "k \<le> n" "xhci_wait run ready (run d) = Some ((run ^^ k) (run d))" "ready ((run ^^ k) (run d))"
      by blast
    then show ?thesis using False by (intro exI[of _ "Suc k"]) (simp add: xhci_wait.simps[of run ready d] funpow_swap1)
  qed
qed

lemma xhci_wait_ready:
  assumes "xhci_wait run ready d = Some d'"
  shows "ready d'"
proof (rule xhci_wait.raw_induct[where P = "\<lambda>run ready d d'. ready d'", OF _ assms], goal_cases)
  case (1 w run ready d d') show ?case using 1(1)[of run ready "run d" d'] 1(2) by (auto split: if_splits)
qed

text \<open>A reset that returns leaves the reset bit clear; one on a controller that halts and resets after finitely many pauses returns.\<close>

lemma xhci_reset_done: "xhci_reset c operational d = Some d' \<Longrightarrow> mm_rd (xhci_regs c) operational d' AND 2 = 0"
  by (auto simp: xhci_reset_def Let_def bind_eq_Some_conv dest: xhci_wait_ready)

lemma xhci_wait_some: "\<exists>n. ready ((run ^^ n) d) \<Longrightarrow> \<exists>d'. xhci_wait run ready d = Some d'"
proof -
  assume "\<exists>n. ready ((run ^^ n) d)"
  then obtain n where "ready ((run ^^ n) d)" ..
  from xhci_wait_returns[of ready, OF this] show ?thesis by blast
qed

lemma xhci_reset_returns:
  assumes "\<And>d. \<exists>n. mm_rd (xhci_regs c) (operational + 4) ((xhci_run c ^^ n) d) AND 1 \<noteq> 0"
    and "\<And>d. \<exists>n. mm_rd (xhci_regs c) operational ((xhci_run c ^^ n) d) AND 2 = 0"
  shows "\<exists>d'. xhci_reset c operational d = Some d'"
proof -
  let ?ops = "xhci_regs c"
  obtain d2 where d2: "xhci_wait (xhci_run c) (\<lambda>d. mm_rd ?ops (operational + 4) d AND 1 \<noteq> 0)
      (mm_wr ?ops operational (mm_rd ?ops operational d AND NOT 1) d) = Some d2"
    using xhci_wait_some[of "\<lambda>d. mm_rd ?ops (operational + 4) d AND 1 \<noteq> 0", OF assms(1)] by blast
  obtain d3 where "xhci_wait (xhci_run c) (\<lambda>d. mm_rd ?ops operational d AND 2 = 0)
      (mm_wr ?ops operational (mm_rd ?ops operational d2 OR 2) d2) = Some d3"
    using xhci_wait_some[of "\<lambda>d. mm_rd ?ops operational d AND 2 = 0", OF assms(2)] by blast
  then show ?thesis using d2 by (simp add: xhci_reset_def Let_def)
qed

text \<open>The scratchpad buffers that the controller asks for in bits 21 to 25 are not seen.\<close>

lemma scratchpads_not_seen: "fld 27 5 param2 = 0 \<Longrightarrow> scratchpad_buffers param2 = 0"
  for param2 :: u32
proof -
  assume a: "fld 27 5 param2 = 0"
  have "drop_bit 27 param2 = fld 27 5 param2" by (rule bit_word_eqI) (auto simp: fld_def bit_simps dest: bit_imp_le_length)
  then show ?thesis using a by (simp add: scratchpad_buffers_def)
qed

lemma unat_ucast_32_64: "unat (ucast (w :: u32) :: u64) = unat w"
proof -
  have "unat w < 2 ^ 32" using unsigned_less[of w] by simp
  then show ?thesis by (simp add: unsigned_ucast_eq take_bit_nat_eq_self)
qed

text \<open>The status of port \<open>i\<close> is read four bytes after that of the port before it, where the registers of a port are sixteen bytes apart.\<close>

lemma port_status_stride: "i < 0x100 \<Longrightarrow> port_status ops operational i d = mm_rd ops (operational + 0x400 + 4 * ucast i) d"
proof -
  assume i: "i < 0x100"
  then have "unat (0x100 + i) = 256 + unat i" by (simp add: unat_word_ariths word_less_nat_alt)
  moreover have "unat (ucast (0x100 + i) :: u64) = unat (0x100 + i)" "unat (ucast i :: u64) = unat i"
    by (simp_all add: unat_ucast_32_64)
  moreover have "unat (0x100 + ucast i :: u64) = 256 + unat (ucast i :: u64)"
    using i calculation(3) by (simp add: unat_word_ariths word_less_nat_alt)
  ultimately have "unat (ucast (0x100 + i) :: u64) = unat (0x100 + ucast i :: u64)" by simp
  then have "(ucast (0x100 + i) :: u64) = 0x100 + ucast i" by (simp only: word_unat_eq_iff)
  then show ?thesis by (simp add: port_status_def algebra_simps)
qed

text \<open>Other classes are not given to the driver.\<close>

lemma xhci_matches: "driver_matches x xhci_driver \<longleftrightarrow> class_code (header x) = 0x0C \<and> subclass_code (header x) = 3 \<and> prog_if (header x) = 0x30"
  by (simp add: driver_matches_def xhci_driver_def is_set_def match_class_code_def match_subclass_def match_prog_if_def)

end
