(* ===== verification/Startup.thy ===== *)
theory Startup
  imports Ext4Files Syscall Xhci
begin

text \<open>
  \<^verbatim>\<open>src/high/init/start.cpp\<close>: the order in which the kernel is brought up, and the parts of it that the other
  theories do not have: the search of the ACPI tables, the drivers for the devices on the bus, the file systems on
  the partitions of the disks, and the first processes.  The log is left out.
\<close>

section \<open>The order\<close>

datatype boot_step = Init_physical_allocator | Init_page_table | Init_vga | Clear_vga | Set_log_level | Init_interrupts
  | Init_default_handlers | Init_kheap | Init_acpi | Init_apic | Init_pci | Clear_startup | Init_files | Init_process

definition boot_order :: "boot_step list" where
  "boot_order = [Init_physical_allocator, Init_page_table, Init_vga, Clear_vga, Set_log_level, Init_interrupts, Init_default_handlers,
     Init_kheap, Init_acpi, Init_apic, Init_pci, Clear_startup, Init_files, Init_process]"

fun run_steps :: "(boot_step \<Rightarrow> 's \<Rightarrow> 's res option) \<Rightarrow> boot_step list \<Rightarrow> 's \<Rightarrow> 's res option" where
  "run_steps f [] s = Some (Ret s)"
| "run_steps f (b # bs) s = bindo (f b s) (run_steps f bs)"

text \<open>\<open>high_main\<close>: \<open>loop\<close> is empty.\<close>

definition high_main :: "(boot_step \<Rightarrow> 's \<Rightarrow> 's res option) \<Rightarrow> 's \<Rightarrow> 's res option" where
  "high_main f s = bindo (run_steps f boot_order s) (\<lambda>s. Some (Stop (Panic ''exit from loop - sus?'')))"

section \<open>Tables and devices\<close>

definition str_APIC :: "u8 list" where "str_APIC = [0x41, 0x50, 0x49, 0x43]"

text \<open>\<open>initACPI\<close>: the MADT and the MCFG.\<close>

definition init_acpi :: "bytes \<Rightarrow> u64 \<Rightarrow> (sdp \<times> sdp) res option" where
  "init_acpi m multiboot_header =
     bindo (get_root m multiboot_header) (\<lambda>r. Some (
       bindr (or_panic ''ACPI: RSDT not found'' r) (\<lambda>t.
       bindr (or_panic ''ACPI not found'' (get_sdp_by_signature m t str_APIC)) (\<lambda>madt.
       bindr (or_panic ''PCI not found'' (get_sdp_by_signature m t str_MCFG)) (\<lambda>s.
       bindr (or_panic ''PCI not found'' (make_mcfg s)) (\<lambda>mcfg. Ret (madt, mcfg)))))))"

definition sata_driver :: driver_type where
  "sata_driver = \<lparr>drv_match = match_class_code OR match_subclass OR match_prog_if, drv_class_code = 0x01, drv_subclass = 0x06, drv_prog_if = 0x01\<rparr>"

fun scan_groups :: "'d mmio \<Rightarrow> bytes \<Rightarrow> sdp \<Rightarrow> 'd \<Rightarrow> u64 list \<Rightarrow> generic_device list \<Rightarrow> generic_device list option" where
  "scan_groups ops m mcfg d [] acc = Some acc"
| "scan_groups ops m mcfg d (i # is) acc = Option.bind (check_all ops (get_entry m mcfg i) d acc) (scan_groups ops m mcfg d is)"

text \<open>The constructor of the first driver that matches, for one device after the other.\<close>

fun start_drivers :: "(driver_type \<Rightarrow> generic_device \<Rightarrow> 's \<Rightarrow> 's res option) \<Rightarrow> generic_device list \<Rightarrow> 's \<Rightarrow> 's res option" where
  "start_drivers construct [] s = Some (Ret s)"
| "start_drivers construct (x # xs) s =
     bindo (case generate_fill x [sata_driver, xhci_driver] of None \<Rightarrow> Some (Ret s) | Some t \<Rightarrow> construct t x s) (start_drivers construct xs)"

definition init_pci ::
    "'d mmio \<Rightarrow> bytes \<Rightarrow> sdp \<Rightarrow> (driver_type \<Rightarrow> generic_device \<Rightarrow> 's \<Rightarrow> 's res option) \<Rightarrow> 'd \<Rightarrow> 's \<Rightarrow> (generic_device list \<times> 's) res option" where
  "init_pci ops m mcfg construct d s =
     Option.bind (scan_groups ops m mcfg d (map of_nat [0..<unat (get_entry_count m mcfg)]) []) (\<lambda>xs.
       bindo (start_drivers construct xs s) (\<lambda>s. Some (Ret (xs, s))))"

section \<open>File systems\<close>

text \<open>The loop over the entries of one table; the partition is used without a check that there is one.\<close>

fun init_partitions :: "(nat \<Rightarrow> u8 list) \<Rightarrow> u64 \<Rightarrow> 's gpt \<Rightarrow> u64 list \<Rightarrow> 's ext4_filesystem list \<Rightarrow> 's \<Rightarrow> ('s ext4_filesystem list \<times> 's) res option" where
  "init_partitions junk uninit g [] fss s = Some (Ret (fss, s))"
| "init_partitions junk uninit g (j # js) fss s =
     bindo (get_partition junk g j s) (\<lambda>(po, s).
     bindo (Some (or_undef po)) (\<lambda>p.
       if partition_exists p then
         bindo (create_filesystem junk uninit p s) (\<lambda>(fo, s).
           init_partitions junk uninit g js (case fo of None \<Rightarrow> fss | Some fs \<Rightarrow> fss @ [fs]) s)
       else init_partitions junk uninit g js fss s))"

fun init_devices :: "(nat \<Rightarrow> u8 list) \<Rightarrow> u64 \<Rightarrow> 's device_table \<Rightarrow> u64 list \<Rightarrow> 's ext4_filesystem list \<Rightarrow> 's \<Rightarrow> ('s ext4_filesystem list \<times> 's) res option" where
  "init_devices junk uninit t [] fss s = Some (Ret (fss, s))"
| "init_devices junk uninit t (i # is) fss s =
     bindo (Some (get_device i t)) (\<lambda>(d, t).
     bindo (find_partitions d s) (\<lambda>(go, s).
       case go of
         None \<Rightarrow> init_devices junk uninit t is fss s
       | Some g \<Rightarrow> bindo (init_partitions junk uninit g (map of_nat [0..<unat (gpt_count g)]) fss s) (\<lambda>(fss, s).
           init_devices junk uninit t is fss s)))"

definition init_files :: "(nat \<Rightarrow> u8 list) \<Rightarrow> u64 \<Rightarrow> 's device_table \<Rightarrow> 's \<Rightarrow> ('s ext4_filesystem list \<times> 's) res option" where
  "init_files junk uninit t s = (let (n, t) = device_count t in init_devices junk uninit t (map of_nat [0..<unat n]) [] s)"

section \<open>Processes\<close>

definition str_root :: "u8 list" where "str_root = [0x72, 0x6F, 0x6F, 0x74]"
definition str_add :: "u8 list" where "str_add = [0x61, 0x64, 0x64]"
definition str_printStr :: "u8 list" where "str_printStr = [0x70, 0x72, 0x69, 0x6E, 0x74, 0x53, 0x74, 0x72]"
definition str_printInt :: "u8 list" where "str_printInt = [0x70, 0x72, 0x69, 0x6E, 0x74, 0x49, 0x6E, 0x74]"
definition str_panic :: "u8 list" where "str_panic = [0x70, 0x61, 0x6E, 0x69, 0x63]"

definition arg_uint64 :: argument_descriptor where "arg_uint64 = \<lparr>arg_type = number, width = 8, arg_length = 0\<rparr>"
definition arg_c_string :: argument_descriptor where "arg_c_string = \<lparr>arg_type = null_terminated, width = 1, arg_length = 0\<rparr>"

definition add_numbers :: "u64 \<Rightarrow> u64 \<Rightarrow> u64" where "add_numbers a b = a + b"

record kernel_functions =
  fun_add :: u64
  fun_print_string :: u64
  fun_print_number :: u64
  fun_panic :: u64

definition root_process :: "kernel_functions \<Rightarrow> world \<Rightarrow> nat \<times> world" where
  "root_process fs w =
     (let (r, w1) = new_process w;
          w2 = upd r (\<lambda>p. p\<lparr>parent := Some r, self := Some r, pname := str_root, strong := 1, main_thread := (main_thread p)\<lparr>owner := Some r\<rparr>\<rparr>) w1
      in (r, add_kernel_method_by_array r str_panic (fun_panic fs) [arg_c_string]
          (add_kernel_method_by_array r str_printInt (fun_print_number fs) [arg_uint64]
          (add_kernel_method_by_array r str_printStr (fun_print_string fs) [arg_c_string]
          (add_kernel_method_by_array r str_add (fun_add fs) [arg_uint64, arg_uint64] w2)))))"

text \<open>
  One process per file system from its file \<^verbatim>\<open>/main\<close>; \<open>files\<close> are what \<open>open\<close> returns, and \<open>run\<close> is what happens
  between the entry of a process and the return to this loop.  Neither the file nor the process is checked.
\<close>

fun start_processes ::
    "'p palloc \<Rightarrow> 'p page_alloc \<Rightarrow> (nat \<Rightarrow> 'p kernel \<Rightarrow> 'p kernel res option) \<Rightarrow> nat \<Rightarrow> (u64 \<Rightarrow> u64 \<Rightarrow> u8 list) option list \<Rightarrow> 'p kernel \<Rightarrow> 'p kernel res option" where
  "start_processes pa alloc run r [] k = Some (Ret k)"
| "start_processes pa alloc run r (f # files) k =
     bindo (Some (or_undef f)) (\<lambda>read.
     bindo (from_elf pa alloc read k) (\<lambda>(po, k).
     bindo (Some (or_undef po)) (\<lambda>c.
     bindo (thread_execute alloc c
         (k\<lparr>kw := upd c (\<lambda>p. p\<lparr>parent := Some r\<rparr>) (retain c (upd r (\<lambda>p. p\<lparr>children := children p @ [c]\<rparr>) (kw k)))\<rparr>)) (\<lambda>k.
     bindo (run c k) (\<lambda>k.
     bindo (Some (release_all [c] (kw k))) (\<lambda>w. start_processes pa alloc run r files (k\<lparr>kw := w\<rparr>)))))))"

definition init_process ::
    "'p palloc \<Rightarrow> 'p page_alloc \<Rightarrow> (nat \<Rightarrow> 'p kernel \<Rightarrow> 'p kernel res option) \<Rightarrow> kernel_functions \<Rightarrow> (u64 \<Rightarrow> u64 \<Rightarrow> u8 list) option list \<Rightarrow> 'p kernel \<Rightarrow> 'p kernel res option" where
  "init_process pa alloc run fs files k =
     (let (r, w) = root_process fs (kw k) in start_processes pa alloc run r files (k\<lparr>kw := w\<rparr>))"

section \<open>Facts\<close>

text \<open>The kernel never comes back from \<open>high_main\<close>.\<close>

lemma high_main_no_return: "high_main f s \<noteq> Some (Ret s')"
  by (cases "run_steps f boot_order s") (auto simp: high_main_def bindo_def split: sum.splits)

lemma file_missing_undefined: "start_processes pa alloc run r (None # files) k = Some (Stop Undef)"
  by simp

lemma not_an_elf_undefined:
  "\<not> elf_header_ok (read 0 64) \<Longrightarrow> start_processes pa alloc run r (Some read # files) k = Some (Stop Undef)"
  by (simp add: from_elf_def)

lemma unreadable_entry_undefined:
  "get_partition junk g j s = Some (Ret (None, s')) \<Longrightarrow> init_partitions junk uninit g (j # js) fss s = Some (Stop Undef)"
  by simp

text \<open>The root process is its own parent and offers the four kernel functions.\<close>

lemma root_process_fields:
  assumes "root_process fs w = (r, w')"
  shows "r = length (procs w)" "length (procs w') = Suc (length (procs w))"
    "parent (procs w' ! r) = Some r" "strong (procs w' ! r) = 1" "owner (main_thread (procs w' ! r)) = Some r"
    "map method_name (methods (procs w' ! r)) = [str_add, str_printStr, str_printInt, str_panic]"
    "map expected_argument_count (methods (procs w' ! r)) = [2, 1, 1, 1]"
  using assms by (auto simp: root_process_def new_process_def Let_def add_kernel_method_by_array_def arg_uint64_def arg_c_string_def)

section \<open>The file systems of a disk\<close>

text \<open>The file system that a partition holds, and that its parts can be read.\<close>

definition volume :: "(nat \<Rightarrow> u8) \<Rightarrow> 's partition \<Rightarrow> 's ext4_filesystem option" where
  "volume img p =
     (let b = unat (part_starting_lba p) * 512; sb = superblock_at img b
      in if part_type p = ext4_type \<and> accepted sb then
           (case (sb_block_size sb, sb_group_count sb) of (Inr bs, Inr gc) \<Rightarrow> Some (mounted img b p bs gc) | _ \<Rightarrow> None)
         else None)"

definition volume_there :: "(nat \<Rightarrow> nat \<Rightarrow> bool) \<Rightarrow> (nat \<Rightarrow> u8) \<Rightarrow> 's partition \<Rightarrow> bool" where
  "volume_there fits img p \<longleftrightarrow>
     (let b = unat (part_starting_lba p) * 512; sb = superblock_at img b
      in part_type p = ext4_type \<longrightarrow> there fits b 1024 1024 \<and>
           (accepted sb \<longrightarrow> (\<exists>bs gc. sb_block_size sb = Ret bs \<and> sb_group_count sb = Ret gc \<and>
              there fits b (unat bs) (unat (gc * sb_group_descriptor_size sb)))))"

lemma ext4_exists: "part_type p = ext4_type \<Longrightarrow> partition_exists p"
  by (simp add: partition_exists_def ext4_type_def)

context disk_image
begin

lemma mount_rejected:
  assumes ok: "ok s" and p: "dev_read (part_dev part) = rd" "unat (part_starting_lba part) * 512 = b"
    and sb: "\<not> accepted (superblock_at img b)" and t: "there fits b 1024 1024" and junk: "\<And>n. length (junk n) = n"
  shows "\<exists>fs s'. ext4_mount junk uninit part s = Some (Ret (fs, s')) \<and> \<not> fs_valid fs \<and> ok s'"
proof -
  have on: "fs_on rd b \<lparr>fs_part = part, fs_name = [], fs_group_count = 0, fs_group_size = 0, fs_groups = [],
      fs_block_size = 0, fs_valid = False, fs_sb = []\<rparr>" using p by (simp add: fs_on_def)
  obtain s1 where s1: "partition_read part 1024 1024 (junk 1024) s = Some (Ret (1, superblock_at img b, s1))" "ok s1"
    using part_read[OF ok on, of 1024 1024 "junk 1024"] t junk by (auto simp: superblock_at_def)
  then show ?thesis using sb by (auto simp: ext4_mount_def Let_def accepted_def)
qed

lemma create_filesystem_volume:
  assumes ok: "ok s" and p: "dev_read (part_dev part) = rd" and v: "volume_there fits img part" and junk: "\<And>n. length (junk n) = n"
  shows "\<exists>s'. create_filesystem junk uninit part s = Some (Ret (volume img part, s')) \<and> ok s'"
proof (cases "part_type part = ext4_type")
  case False then show ?thesis using ok by (simp add: create_filesystem_def volume_def)
next
  case True
  let ?b = "unat (part_starting_lba part) * 512"
  have t: "there fits ?b 1024 1024" using v True by (simp add: volume_there_def Let_def)
  show ?thesis
  proof (cases "accepted (superblock_at img ?b)")
    case False
    obtain fs s' where "ext4_mount junk uninit part s = Some (Ret (fs, s'))" "\<not> fs_valid fs" "ok s'"
      using mount_rejected[OF ok p refl False t junk] by blast
    then show ?thesis using True False by (simp add: create_filesystem_def create_ext4_filesystem_def volume_def Let_def)
  next
    case a: True
    then obtain bs gc where g: "sb_block_size (superblock_at img ?b) = Ret bs" "sb_group_count (superblock_at img ?b) = Ret gc"
      "there fits ?b (unat bs) (unat (gc * sb_group_descriptor_size (superblock_at img ?b)))"
      using v True by (auto simp: volume_there_def Let_def)
    obtain s' where "ext4_mount junk uninit part s = Some (Ret (mounted img ?b part bs gc, s'))" "ok s'"
      using mount_exact[OF ok p refl a g(1,2) t g(3) junk] by blast
    moreover have "fs_valid (mounted img ?b part bs gc)" by (simp add: mounted_def Let_def)
    ultimately show ?thesis using True a g by (simp add: create_filesystem_def create_ext4_filesystem_def volume_def Let_def)
  qed
qed

lemma init_partitions_exact:
  assumes d: "dev_read (gpt_dev g) = rd" and n: "56 \<le> unat (gpt_entry_size g)" and junk: "\<And>n. length (junk n) = n"
    and e: "\<And>j. j \<in> set js \<Longrightarrow> unat (gpt_starting_lba g) * 512 + unat j * unat (gpt_entry_size g) < 2 ^ 64 \<and>
      fits (unat (gpt_starting_lba g) * 512 + unat j * unat (gpt_entry_size g)) (unat (gpt_entry_size g)) \<and>
      volume_there fits img (BlockDevice.entry_at img (unat (gpt_starting_lba g) * 512 + unat j * unat (gpt_entry_size g)) (unat (gpt_entry_size g)) (gpt_dev g))"
    and ok: "ok s"
  shows "\<exists>s'. init_partitions junk uninit g js fss s = Some (Ret (fss @ List.map_filter
      (\<lambda>j. volume img (BlockDevice.entry_at img (unat (gpt_starting_lba g) * 512 + unat j * unat (gpt_entry_size g)) (unat (gpt_entry_size g)) (gpt_dev g))) js, s')) \<and> ok s'"
  using e ok
proof (induction js arbitrary: fss s)
  case Nil then show ?case by (simp add: map_filter_simps)
next
  case (Cons j js)
  let ?p = "BlockDevice.entry_at img (unat (gpt_starting_lba g) * 512 + unat j * unat (gpt_entry_size g)) (unat (gpt_entry_size g)) (gpt_dev g)"
  have j: "unat (gpt_starting_lba g) * 512 + unat j * unat (gpt_entry_size g) < 2 ^ 64"
    "fits (unat (gpt_starting_lba g) * 512 + unat j * unat (gpt_entry_size g)) (unat (gpt_entry_size g))" "volume_there fits img ?p"
    using Cons.prems(1)[of j] by simp_all
  obtain s1 where s1: "get_partition junk g j s = Some (Ret (Some ?p, s1))" "ok s1"
    using get_partition_found[where junk = junk, OF d Cons.prems(2) j(1) n j(2) junk[of "unat (gpt_entry_size g)"]] by blast
  have ih: "\<exists>s'. init_partitions junk uninit g js fss s = Some (Ret (fss @ List.map_filter
      (\<lambda>j. volume img (BlockDevice.entry_at img (unat (gpt_starting_lba g) * 512 + unat j * unat (gpt_entry_size g)) (unat (gpt_entry_size g)) (gpt_dev g))) js, s')) \<and> ok s'"
    if "ok s" for fss s using Cons.IH[OF _ that] Cons.prems(1) by simp
  show ?case
  proof (cases "partition_exists ?p")
    case False
    then have "volume img ?p = None" using ext4_exists[of ?p] by (auto simp: volume_def Let_def)
    then show ?thesis using s1(1) False ih[OF s1(2)] by (simp add: map_filter_simps)
  next
    case True
    have "dev_read (part_dev ?p) = rd" using d by (simp add: BlockDevice.entry_at_def)
    from create_filesystem_volume[OF s1(2) this j(3) junk] obtain s2 where
      s2: "create_filesystem junk uninit ?p s1 = Some (Ret (volume img ?p, s2))" "ok s2" by blast
    show ?thesis
    proof (cases "volume img ?p")
      case None then show ?thesis using s1(1) s2(1) True ih[OF s2(2)] by (simp add: map_filter_simps)
    next
      case (Some fs) then show ?thesis using s1(1) s2(1) True ih[OF s2(2), of "fss @ [fs]"] by (simp add: map_filter_simps)
    qed
  qed
qed

end


lemma map_filter_map: "(\<And>x. x \<in> set xs \<Longrightarrow> f (g x) = f' x) \<Longrightarrow> List.map_filter f (map g xs) = List.map_filter f' xs"
  by (induction xs) (simp_all add: map_filter_simps split: option.split)

lemma init_files_one:
  assumes t: "device_count t = (1, t')" "dt_devices t' = [d]" and f: "find_partitions d p = Some (Ret (Some g, p1))"
    and i: "init_partitions junk uninit g (map of_nat [0..<unat (gpt_count g)]) [] p1 = Some (Ret (fss, p2))"
  shows "init_files junk uninit t p = Some (Ret (fss, p2))"
proof -
  have "t' = devices_init t" using t(1) by (simp add: device_count_def Let_def)
  then have "dt_has_init t'" by (simp add: devices_init_def)
  then have "get_device 0 t' = Ret (d, t')" using t(2) by (simp add: get_device_def devices_init_def)
  then show ?thesis using t f i by (simp add: init_files_def)
qed

text \<open>C2. From the disk to the list of file systems: with one SATA disk that answers as documented in the device table, a GUID partition
  table on it and every ext4 partition readable (\<open>volume_there\<close>: the superblock lies on the disk, and if it is accepted its block
  size and number of groups are defined and the group descriptors are one read of the kind the driver serves),
  \<open>initFiles\<close> succeeds and finds exactly the file systems of the entries whose type is
  ext4 and whose superblock is accepted, in the order of the entries, each as mounting it gives it.\<close>

theorem init_files_mounts:
  assumes r: "sata_ready s ah b0 buffer 512 cap disk p" and d: "dev_read d = sata_block_read (pt_get s) ah tmp b0 b2 buffer"
    and t: "device_count t = (1, t')" "dt_devices t' = [d]"
    and sig: "disk 510 = 0x55" "disk 511 = 0xAA" "map disk [512..<520] = efi_part"
    and es: "from_le (map disk [596..<600]) = (128 :: u32)"
    and lba: "unat (from_le (map disk [584..<592]) :: u64) = L"
    and n: "unat (from_le (map disk [592..<596]) :: u32) = n"
    and cap: "1024 \<le> cap" "L * 512 + n * 128 + 896 \<le> cap" "cap < 2 ^ 64"
    and v: "\<And>j. j < n \<Longrightarrow> volume_there (sata_fits 512 cap) disk (BlockDevice.entry_at disk (L * 512 + j * 128) 128 d)"
    and junk: "\<And>n. length (junk n) = n"
  shows "\<exists>p'. init_files junk uninit t p =
    Some (Ret (List.map_filter (\<lambda>j. volume disk (BlockDevice.entry_at disk (L * 512 + j * 128) 128 d)) [0..<n], p'))"
proof -
  let ?g = "\<lparr>gpt_dev = d, gpt_count = ucast (from_le (map disk [592..<596]) :: u32), gpt_starting_lba = of_nat L, gpt_entry_size = 128\<rparr>"
  have L: "(from_le (map disk [584..<592]) :: u64) = of_nat L" by (rule word_eq_of_nat[OF lba])
  have uL: "unat (of_nat L :: u64) = L" using lba L by simp
  have "sata_fits 512 cap 0 512" "sata_fits 512 cap 512 512" using cap(1) by (simp_all add: sata_fits_def)
  from sata.find_partitions_found[OF d r this sig] obtain p1 where
    p1: "find_partitions d p = Some (Ret (Some ?g, p1))" "sata_ready s ah b0 buffer 512 cap disk p1"
    unfolding es L by auto
  have un: "unat (gpt_count ?g) = n" using n by (simp add: unat_ucast_32_64)
  have n64: "n < 2 ^ 64" using cap by simp
  let ?js = "map of_nat [0..<n] :: u64 list"
  have gd: "dev_read (gpt_dev ?g) = sata_block_read (pt_get s) ah tmp b0 b2 buffer" and n56: "56 \<le> unat (gpt_entry_size ?g)"
    using d by simp_all
  have e: "unat (gpt_starting_lba ?g) * 512 + unat j * unat (gpt_entry_size ?g) < 2 ^ 64 \<and>
      sata_fits 512 cap (unat (gpt_starting_lba ?g) * 512 + unat j * unat (gpt_entry_size ?g)) (unat (gpt_entry_size ?g)) \<and>
      volume_there (sata_fits 512 cap) disk
        (BlockDevice.entry_at disk (unat (gpt_starting_lba ?g) * 512 + unat j * unat (gpt_entry_size ?g)) (unat (gpt_entry_size ?g)) (gpt_dev ?g))"
    if "j \<in> set ?js" for j
  proof -
    from that obtain k where k: "j = of_nat k" "k < n" by auto
    then have uj: "unat j = k" using n64 by (simp add: unat_of_nat_u64)
    let ?o = "L * 512 + k * 128"
    have "k * 128 + 128 \<le> n * 128" using k(2) by simp
    then have c: "?o + 1024 \<le> cap" using cap(2) by simp
    have "?o div 512 = (?o + 128) div 512 \<or> (?o + 128) div 512 = Suc (?o div 512)" "even ?o" "?o div 512 * 512 \<le> ?o" by auto
    then have "sata_fits 512 cap ?o 128" using c by (auto simp: sata_fits_def)
    then show ?thesis using c cap(3) v[OF k(2)] by (simp add: uL uj)
  qed
  obtain p2 where p2: "init_partitions junk uninit ?g ?js [] p1 = Some (Ret ([] @ List.map_filter (\<lambda>j. volume disk
      (BlockDevice.entry_at disk (unat (gpt_starting_lba ?g) * 512 + unat j * unat (gpt_entry_size ?g)) (unat (gpt_entry_size ?g)) (gpt_dev ?g))) ?js, p2))"
    using sata.init_partitions_exact[where g = ?g and junk = junk and js = ?js and uninit = uninit and fss = "[]", OF gd n56 junk e p1(2)] by blast
  have "List.map_filter (\<lambda>j. volume disk (BlockDevice.entry_at disk (unat (of_nat L :: u64) * 512 + unat j * 128) 128 d)) ?js =
      List.map_filter (\<lambda>j. volume disk (BlockDevice.entry_at disk (L * 512 + j * 128) 128 d)) [0..<n]"
    unfolding uL by (rule map_filter_map) (use n64 in \<open>simp add: unat_of_nat_u64\<close>)
  then have "init_partitions junk uninit ?g (map of_nat [0..<unat (gpt_count ?g)]) [] p1 =
      Some (Ret (List.map_filter (\<lambda>j. volume disk (BlockDevice.entry_at disk (L * 512 + j * 128) 128 d)) [0..<n], p2))"
    unfolding un using p2 by simp
  from init_files_one[OF t p1(1) this] show ?thesis by blast
qed

section \<open>A disk with one file system\<close>

definition demo_boot_disk :: "nat \<Rightarrow> u8" where
  "demo_boot_disk i =
     (if i = 510 then 0x55 else if i = 511 then 0xAA
      else if 512 \<le> i \<and> i < 520 then efi_part ! (i - 512)
      else if i = 584 then 2 else if i = 592 then 2 else if i = 596 then 128
      else if 1152 \<le> i \<and> i < 1168 then ext4_type ! (i - 1152)
      else if i = 1184 then 4 else if i = 1192 then 39
      else if i < 2048 then 0 else demo_fs (i - 2048))"


definition demo_boot_ahci where "demo_boot_ahci = demo_ahci 0x100 512 demo_boot_disk"

definition demo_boot_device :: "(u64 \<Rightarrow> u32) port device" where
  "demo_boot_device = \<lparr>dev_size = 20480,
     dev_read = sata_block_read (pt_get demo_pt) demo_boot_ahci 0 (Ti 64 + 0x100000) 0 (Ti 64 + 0x1000), dev_write = (\<lambda>_ _ _ _. None)\<rparr>"

lemma demo_boot_ready:
  "sata_ready demo_pt demo_boot_ahci (Ti 64 + 0x100000) (Ti 64 + 0x1000) 512 20480 demo_boot_disk demo_big_port"
proof -
  have m: "port_mmio demo_big_port = 0x100" "sector_count demo_big_port = 40" by (simp_all add: demo_big_port_def demo_port_def)
  have "reads_disk demo_boot_ahci (port_mmio demo_big_port) 512 (unat (sector_count demo_big_port)) demo_boot_disk"
    unfolding m(1) demo_boot_ahci_def by (rule demo_reads_disk)
  moreover have "port_idle demo_boot_ahci demo_big_port"
    by (simp add: port_idle_def port_reg_def demo_boot_ahci_def demo_ahci_def demo_big_port_def demo_port_def)
  ultimately show ?thesis using demo_big_ready by (simp add: sata_ready_def m(2) del: upt_rec_numeral)
qed

lemma demo_boot_superblock: "superblock_at demo_boot_disk 2048 = demo_sb"
  by (simp add: superblock_at_def medium_def demo_boot_disk_def demo_ext4_disk_def)

lemma demo_boot_entries:
  "part_type (BlockDevice.entry_at demo_boot_disk 1024 128 d) \<noteq> ext4_type"
  "part_type (BlockDevice.entry_at demo_boot_disk 1152 128 d) = ext4_type"
  "unat (part_starting_lba (BlockDevice.entry_at demo_boot_disk 1152 128 d)) * 512 = 2048"
  by (simp_all add: BlockDevice.entry_at_def demo_boot_disk_def ext4_type_def upt_conv_Cons)

lemma demo_boot_volumes:
  "volume demo_boot_disk (BlockDevice.entry_at demo_boot_disk 1024 128 d) = None"
  "volume demo_boot_disk (BlockDevice.entry_at demo_boot_disk 1152 128 d) =
     Some (mounted demo_boot_disk 2048 (BlockDevice.entry_at demo_boot_disk 1152 128 d) 2048 1)"
  "volume_there (sata_fits 512 20480) demo_boot_disk (BlockDevice.entry_at demo_boot_disk 1024 128 d)"
  "volume_there (sata_fits 512 20480) demo_boot_disk (BlockDevice.entry_at demo_boot_disk 1152 128 d)"
  using demo_boot_entries[of d] demo_superblock
  by (simp_all add: volume_def volume_there_def Let_def demo_boot_superblock there_def sata_fits_def)

lemma init_files_mounts_witness:
  "\<exists>p'. init_files (\<lambda>n. replicate n 7) 0 \<lparr>dt_has_init = True, dt_devices = [demo_boot_device], dt_size = 1\<rparr> demo_big_port =
    Some (Ret ([mounted demo_boot_disk 2048 (BlockDevice.entry_at demo_boot_disk 1152 128 demo_boot_device) 2048 1], p'))"
proof -
  have s: "map demo_boot_disk [512..<520] = efi_part" "map demo_boot_disk [596..<600] = [128, 0, 0, 0]"
    "map demo_boot_disk [592..<596] = [2, 0, 0, 0]" "map demo_boot_disk [584..<592] = [2, 0, 0, 0, 0, 0, 0, 0]"
    "demo_boot_disk 510 = 0x55" "demo_boot_disk 511 = 0xAA"
    by (simp_all add: demo_boot_disk_def efi_part_def)
  have v: "volume_there (sata_fits 512 20480) demo_boot_disk (BlockDevice.entry_at demo_boot_disk (2 * 512 + j * 128) 128 demo_boot_device)"
    if "j < 2" for j
    using that demo_boot_volumes(3,4) less_2_cases[of j] by auto
  have d: "dev_read demo_boot_device = sata_block_read (pt_get demo_pt) demo_boot_ahci 0 (Ti 64 + 0x100000) 0 (Ti 64 + 0x1000)"
    by (simp add: demo_boot_device_def)
  have t: "device_count \<lparr>dt_has_init = True, dt_devices = [demo_boot_device], dt_size = 1\<rparr> =
      (1, \<lparr>dt_has_init = True, dt_devices = [demo_boot_device], dt_size = 1\<rparr>)" by (simp add: device_count_def devices_init_def)
  have e: "from_le (map demo_boot_disk [596..<600]) = (128 :: u32)" "unat (from_le (map demo_boot_disk [584..<592]) :: u64) = 2"
    "unat (from_le (map demo_boot_disk [592..<596]) :: u32) = 2" unfolding s by simp_all
  have c: "(1024 :: nat) \<le> 20480" "2 * 512 + 2 * 128 + 896 \<le> (20480 :: nat)" "(20480 :: nat) < 2 ^ 64" by simp_all
  have m: "List.map_filter (\<lambda>j. volume demo_boot_disk (BlockDevice.entry_at demo_boot_disk (2 * 512 + j * 128) 128 demo_boot_device)) [0..<2] =
      [mounted demo_boot_disk 2048 (BlockDevice.entry_at demo_boot_disk 1152 128 demo_boot_device) 2048 1]"
    by (simp add: upt_rec map_filter_simps demo_boot_volumes)
  from init_files_mounts[OF demo_boot_ready d t _ s(5,6,1) e c v, of "\<lambda>n. replicate n 7" 0]
  show ?thesis unfolding m by simp
qed

end
