(* ===== verification/Arrays.thy ===== *)
theory Arrays
  imports KBase
begin

text \<open>
  \<^verbatim>\<open>include/data/array.h\<close>: an array whose elements are a run-time size apart.  An element is its address, memory is
  addressed by bytes; \<open>new\<close> gives the address for a size and is a parameter.
\<close>

section \<open>The array\<close>

record arr =
  arr_ptr :: u64
  arr_count :: u64
  arr_element_size :: u64

definition arr_empty :: arr where "arr_empty = \<lparr>arr_ptr = 0, arr_count = 0, arr_element_size = 0\<rparr>"

text \<open>The members are initialised in the order of their declaration, \<open>ptr\<close> first: the allocation of the first constructor is
  computed from the member \<open>element_size\<close> before it has a value; the second one uses its parameter.\<close>

definition arr_of_type :: "(u64 \<Rightarrow> u64) \<Rightarrow> u64 \<Rightarrow> u64 \<Rightarrow> u64 \<Rightarrow> arr" where
  "arr_of_type new_bytes uninit size_of_T n = \<lparr>arr_ptr = new_bytes (uninit * n), arr_count = n, arr_element_size = size_of_T\<rparr>"

definition arr_sized :: "(u64 \<Rightarrow> u64) \<Rightarrow> u64 \<Rightarrow> u64 \<Rightarrow> arr" where
  "arr_sized new_bytes n es = \<lparr>arr_ptr = new_bytes (es * n), arr_count = n, arr_element_size = es\<rparr>"

definition arr_index :: "arr \<Rightarrow> u64 \<Rightarrow> u64" where "arr_index a i = arr_ptr a + i * arr_element_size a"

definition arr_data :: "arr \<Rightarrow> u64" where "arr_data a = arr_ptr a"

section \<open>Iterators\<close>

record iter =
  it_data :: u64
  it_element_size :: u64

definition it_next :: "iter \<Rightarrow> iter" where "it_next it = it\<lparr>it_data := it_data it + it_element_size it\<rparr>"
definition it_next_post :: "iter \<Rightarrow> iter \<times> iter" where "it_next_post it = (it, it_next it)"
definition it_prev :: "iter \<Rightarrow> iter" where "it_prev it = it\<lparr>it_data := it_data it - it_element_size it\<rparr>"
definition it_prev_post :: "iter \<Rightarrow> iter \<times> iter" where "it_prev_post it = (it, it_prev it)"
definition it_eq :: "iter \<Rightarrow> iter \<Rightarrow> bool" where "it_eq a b \<longleftrightarrow> it_data a = it_data b"
definition it_ne :: "iter \<Rightarrow> iter \<Rightarrow> bool" where "it_ne a b \<longleftrightarrow> it_data a \<noteq> it_data b"
definition it_deref :: "iter \<Rightarrow> u64" where "it_deref it = it_data it"
definition it_add :: "iter \<Rightarrow> u64 \<Rightarrow> iter" where "it_add it n = it\<lparr>it_data := it_data it + n * it_element_size it\<rparr>"
definition it_sub :: "iter \<Rightarrow> u64 \<Rightarrow> iter" where "it_sub it n = it\<lparr>it_data := it_data it - n * it_element_size it\<rparr>"

text \<open>The difference of two pointers is signed; it is divided as a \<open>size_t\<close>.\<close>

definition it_diff :: "iter \<Rightarrow> iter \<Rightarrow> u64 res" where
  "it_diff a b = (if it_element_size a = 0 then Stop Undef else Ret ((it_data a - it_data b) div it_element_size a))"

definition it_index :: "iter \<Rightarrow> u64 \<Rightarrow> u64" where "it_index it n = it_data it + n * it_element_size it"
definition it_less :: "iter \<Rightarrow> iter \<Rightarrow> bool" where "it_less a b \<longleftrightarrow> it_data a < it_data b"
definition it_greater :: "iter \<Rightarrow> iter \<Rightarrow> bool" where "it_greater a b \<longleftrightarrow> it_data a > it_data b"
definition it_less_eq :: "iter \<Rightarrow> iter \<Rightarrow> bool" where "it_less_eq a b \<longleftrightarrow> it_data a \<le> it_data b"
definition it_greater_eq :: "iter \<Rightarrow> iter \<Rightarrow> bool" where "it_greater_eq a b \<longleftrightarrow> it_data a \<ge> it_data b"

definition arr_begin :: "arr \<Rightarrow> iter" where "arr_begin a = \<lparr>it_data = arr_ptr a, it_element_size = arr_element_size a\<rparr>"

definition arr_end :: "arr \<Rightarrow> iter" where
  "arr_end a = \<lparr>it_data = arr_ptr a + arr_count a * arr_element_size a, it_element_size = arr_element_size a\<rparr>"

text \<open>A loop over the array: the elements it visits.\<close>

partial_function (option) visits :: "iter \<Rightarrow> iter \<Rightarrow> u64 list option" where
  "visits it stop = (if it_ne it stop then Option.bind (visits (it_next it) stop) (\<lambda>xs. Some (it_deref it # xs)) else Some [])"

section \<open>Facts\<close>

lemma it_add_index: "it_deref (it_add (arr_begin a) i) = arr_index a i"
  by (simp add: it_deref_def it_add_def arr_begin_def arr_index_def)

lemma it_next_prev: "it_prev (it_next it) = it"
  by (simp add: it_prev_def it_next_def)

lemma it_add_one: "it_add it 1 = it_next it"
  by (simp add: it_add_def it_next_def)

text \<open>The distance between the ends is the count, when the array fits into the address space.\<close>

lemma it_diff_count:
  assumes "arr_element_size a \<noteq> 0" "unat (arr_count a) * unat (arr_element_size a) < 2 ^ 64"
  shows "it_diff (arr_end a) (arr_begin a) = Ret (arr_count a)"
proof -
  have "unat (arr_count a * arr_element_size a) = unat (arr_count a) * unat (arr_element_size a)" using assms(2) by (rule unat_mult_u64)
  then have "unat (arr_count a * arr_element_size a div arr_element_size a) = unat (arr_count a)"
    using assms(1) by (simp add: unat_div unat_eq_zero)
  then have "arr_count a * arr_element_size a div arr_element_size a = arr_count a" by (simp only: word_unat_eq_iff)
  then show ?thesis using assms(1) by (simp add: it_diff_def arr_end_def arr_begin_def)
qed

text \<open>A loop over an array with elements of a positive size ends after visiting every element in order; with size 0 it visits none.\<close>

lemma visits_from:
  assumes "es \<noteq> 0" "n * unat es < 2 ^ 64" "k \<le> n"
  shows "visits \<lparr>it_data = p + of_nat (n - k) * es, it_element_size = es\<rparr> \<lparr>it_data = p + of_nat n * es, it_element_size = es\<rparr> =
    Some (map (\<lambda>i. p + of_nat i * es) [n - k..<n])"
  using assms(3)
proof (induction k)
  case 0 then show ?case by (simp add: visits.simps it_ne_def)
next
  case (Suc k)
  let ?j = "n - Suc k"
  have j: "Suc ?j = n - k" "?j < n" using Suc.prems by simp_all
  have e: "unat es > 0" using assms(1) by (simp add: unat_gt_0)
  have small: "i * unat es < 2 ^ 64 \<and> i < 2 ^ 64" if "i \<le> n" for i
  proof -
    have "i * unat es \<le> n * unat es" using that by simp
    moreover have "i \<le> i * unat es" using e by simp
    ultimately show ?thesis using assms(2) by linarith
  qed
  have u: "unat (of_nat i * es) = i * unat es" if "i \<le> n" for i
    using small[OF that] by (subst unat_mult_u64) (simp_all add: unat_of_nat_u64)
  have "?j * unat es < n * unat es" using j(2) e by simp
  then have ne: "of_nat ?j * es \<noteq> of_nat n * es" using u[of ?j] u[of n] j(2) by (auto simp del: of_nat_diff)
  have nx: "it_next \<lparr>it_data = p + of_nat ?j * es, it_element_size = es\<rparr> = \<lparr>it_data = p + of_nat (n - k) * es, it_element_size = es\<rparr>"
    unfolding it_next_def by (simp add: j(1)[symmetric] algebra_simps del: j(1))
  have l: "[?j..<n] = ?j # [n - k..<n]" using j by (simp add: upt_conv_Cons)
  show ?case
    by (subst visits.simps) (simp only: nx Suc.IH[OF Suc_leD[OF Suc.prems]] l it_ne_def it_deref_def iter.simps ne
        add_left_cancel simp_thms if_True list.map Option.bind.bind_lunit not_False_eq_True)
qed

lemma visits_all:
  assumes "arr_element_size a \<noteq> 0" "unat (arr_count a) * unat (arr_element_size a) < 2 ^ 64"
  shows "visits (arr_begin a) (arr_end a) = Some (map (\<lambda>i. arr_index a (of_nat i)) [0..<unat (arr_count a)])"
  using visits_from[OF assms order.refl, of "arr_ptr a"] by (simp add: arr_begin_def arr_end_def arr_index_def)

lemma visits_none: "arr_element_size a = 0 \<Longrightarrow> visits (arr_begin a) (arr_end a) = Some []"
  by (simp add: visits.simps it_ne_def arr_begin_def arr_end_def)

text \<open>The allocation of the first constructor has nothing to do with the elements it is for.\<close>

lemma first_constructor_size: "arr_of_type new_bytes 0 size_of_T n = \<lparr>arr_ptr = new_bytes 0, arr_count = n, arr_element_size = size_of_T\<rparr>"
  by (simp add: arr_of_type_def)

end
