(* ===== verification/Cores.thy ===== *)
theory Cores
  imports Calls Interrupt
begin

text \<open>
  The part of \<^verbatim>\<open>src/high/process/process.cpp\<close> that belongs to a processor: the arrays with the kernel's context and
  the running thread of each one, \<open>init\<close>, \<open>thread::execute\<close> from the point where the memory is loaded,
  \<open>switch_to_kernel_stack\<close>, and the entry of system calls.  A context (\<^verbatim>\<open>execute_context\<close>) is two words in memory,
  stack and code pointer; a thread begins with its context.
\<close>

section \<open>State\<close>

record 'h cores =
  has_init :: bool
  kernel_context :: u64
  current_thread :: u64
  int_table :: "'h int_state"
  mach :: machine

text \<open>\<open>init\<close>: the addresses of the new arrays and of the routine \<open>syscall\<close> are arguments.  Neither array is
  written.\<close>

record new_arrays =
  new_contexts :: u64
  new_threads :: u64
  syscall_address :: u64

definition cores_init :: "new_arrays \<Rightarrow> 'h cores \<Rightarrow> 'h cores" where
  "cores_init a s =
     (if has_init s then s
      else s\<lparr>kernel_context := new_contexts a, current_thread := new_threads a,
             int_table := set_native_interrupt_handler (syscall_address a) 0x80 0 (int_table s), has_init := True\<rparr>)"

text \<open>The addresses of the elements of this processor; \<open>lapic_id\<close> is the index.\<close>

definition get_kernel_context :: "new_arrays \<Rightarrow> u32 \<Rightarrow> 'h cores \<Rightarrow> u64 \<times> 'h cores" where
  "get_kernel_context a lapic_id s = (let s1 = cores_init a s in (kernel_context s1 + 16 * ucast lapic_id, s1))"

definition access_current_thread :: "new_arrays \<Rightarrow> u32 \<Rightarrow> 'h cores \<Rightarrow> u64 \<times> 'h cores" where
  "access_current_thread a lapic_id s = (let s1 = cores_init a s in (current_thread s1 + 8 * ucast lapic_id, s1))"

section \<open>Entering and leaving a thread\<close>

definition enter_operands :: "u64 \<Rightarrow> u64 \<Rightarrow> u64 \<Rightarrow> u64 \<Rightarrow> machine \<Rightarrow> machine" where
  "enter_operands stack code old_stack old_code m = set_reg RAX stack (set_reg RBX code (set_reg RCX old_stack (set_reg RDX old_code m)))"

text \<open>The context at the first address is entered, the present one is kept at the second.\<close>

definition switch_context :: "u64 \<Rightarrow> u64 \<Rightarrow> u64 \<Rightarrow> machine \<Rightarrow> machine \<times> u64" where
  "switch_context continue_from_here to from' m =
     enter continue_from_here (enter_operands (get_word to m) (get_word (to + 8) m) from' (from' + 8) m)"

definition execute_thread :: "new_arrays \<Rightarrow> u32 \<Rightarrow> u64 \<Rightarrow> u64 \<Rightarrow> 'h cores \<Rightarrow> 'h cores \<times> u64" where
  "execute_thread a lapic_id continue_from_here this s =
     (let (kc, s1) = get_kernel_context a lapic_id s;
          (slot, s2) = access_current_thread a lapic_id s1;
          (m, target) = switch_context continue_from_here this kc (set_word slot this (mach s2))
      in (s2\<lparr>mach := m\<rparr>, target))"

definition switch_to_kernel_stack :: "new_arrays \<Rightarrow> u32 \<Rightarrow> u64 \<Rightarrow> 'h cores \<Rightarrow> 'h cores \<times> u64" where
  "switch_to_kernel_stack a lapic_id continue_from_here s =
     (let (slot, s1) = access_current_thread a lapic_id s;
          (kc, s2) = get_kernel_context a lapic_id s1;
          t = get_word slot (mach s2);
          (m, target) = switch_context continue_from_here kc t (mach s2)
      in (s2\<lparr>mach := m\<rparr>, target))"

section \<open>The entry of system calls\<close>

text \<open>The processor on an interrupt without error code: it aligns the stack, keeps what it interrupts and goes to the
  gate's address.  \<open>iretq\<close> takes the words up again; the segment and flag words are values here.\<close>

definition interrupt_entry :: "u64 \<Rightarrow> u64 \<Rightarrow> u64 \<Rightarrow> u64 \<Rightarrow> machine \<Rightarrow> machine" where
  "interrupt_entry ss cs rflags rip m =
     push_word rip (push_word cs (push_word rflags (push_word (get_reg RSP m) (push_word ss
       (set_reg RSP (get_reg RSP m AND NOT 0xF) m)))))"

definition iretq :: "machine \<Rightarrow> machine \<times> u64" where
  "iretq m = (set_reg RSP (get_word (get_reg RSP m + 24) m) m, get_word (get_reg RSP m) m)"

text \<open>\<open>syscall\<close>: a handler is what runs from its entry to its return.\<close>

definition syscall_stub :: "u64 \<Rightarrow> (machine \<Rightarrow> machine) \<Rightarrow> machine \<Rightarrow> machine \<times> u64" where
  "syscall_stub return_address handler m = iretq (handler (push_word return_address m))"

section \<open>Properties\<close>

lemma cores_init_idem [simp]: "cores_init b (cores_init a s) = cores_init a s"
  by (simp add: cores_init_def)

lemma cores_init_done [simp]: "has_init (cores_init a s)"
  by (simp add: cores_init_def)

lemma mach_init [simp]: "mach (cores_init a s) = mach s"
  by (simp add: cores_init_def)

lemma init_installs_gate:
  assumes "\<not> has_init s" "length (interrupt_vector_table (int_table s)) = 256"
  shows "interrupt_vector_table (int_table (cores_init a s)) ! 0x80 = make_gate (syscall_address a) 0"
  using assms by (simp add: cores_init_def set_native_interrupt_handler_def set_handler_def with_guard_def Let_def)

text \<open>The elements of different processors do not overlap, but nothing bounds the index by the number of elements:
  they are as many as the MADT lists, and the identifiers of its processors may be larger.\<close>

lemma context_offset: "unat (16 * (ucast (i :: u32) :: u64)) = 16 * unat i"
proof -
  have "unat i < 2 ^ 32" using unsigned_less[of i] by simp
  then show ?thesis by (simp add: unat_word_ariths unsigned_ucast_eq take_bit_nat_eq_self)
qed

lemma contexts_apart:
  assumes "i \<noteq> j"
  shows "16 * (ucast (i :: u32) :: u64) \<noteq> 16 * ucast (j :: u32)"
proof -
  have "unat i \<noteq> unat j" using assms word_unat_eq_iff by blast
  then show ?thesis using context_offset[of i] context_offset[of j] by (metis mult_cancel1 zero_neq_numeral)
qed

lemma context_outside:
  assumes "core_count \<le> unat (lapic_id :: u32)"
  shows "16 * core_count \<le> unat (fst (get_kernel_context a lapic_id s) - kernel_context (cores_init a s))"
  using assms context_offset[of lapic_id] by (simp add: get_kernel_context_def Let_def)

text \<open>Where \<open>enter\<close> keeps the registers, by the stack pointer; it writes these words and the old context.\<close>

definition saved_frame :: "u64 \<Rightarrow> u64 set" where
  "saved_frame T = (\<lambda>j. T - 8 * of_nat j) ` {1..15}"

lemma fold_push_keeps:
  assumes "RSP \<notin> set rs" "length rs < 2 ^ 60" "\<And>j. j < length rs \<Longrightarrow> a \<noteq> get_reg RSP m - 8 * of_nat (Suc j)"
  shows "get_word a (fold push rs m) = get_word a m"
  using assms
proof (induction rs rule: rev_induct)
  case (snoc s rs)
  have "get_word a (fold push rs m) = get_word a m" using snoc by simp
  moreover have "get_reg RSP (fold push rs m) = get_reg RSP m - 8 * of_nat (length rs)"
    using fold_push[of rs RSP m] snoc.prems by simp
  moreover have "a \<noteq> get_reg RSP m - 8 * of_nat (length rs) - 8" using snoc.prems(3)[of "length rs"] by (simp add: algebra_simps)
  ultimately have "get_word a (push s (fold push rs m)) = get_word a m" unfolding push_def push_simps by simp
  then show ?case by simp
qed simp

lemma saved_fifteen: "length saved_registers = 15" "RSP \<notin> set saved_registers"
  by (simp_all add: saved_registers_def)

lemma switch_words:
  assumes "a \<notin> saved_frame (get_reg RSP m)" "a \<noteq> f" "a \<noteq> f + 8"
  shows "get_word a (fst (switch_context c t f m)) = get_word a m"
proof -
  have "get_word a (fold push saved_registers (enter_operands x y f (f + 8) m)) = get_word a (enter_operands x y f (f + 8) m)" for x y
    using assms(1) saved_fifteen by (intro fold_push_keeps) (auto simp: saved_frame_def enter_operands_def simp del: of_nat_Suc)
  moreover have "get_reg r (fold push saved_registers n) = (if r = RSP then get_reg RSP n - 120 else get_reg r n)" for r n
    using fold_push[of saved_registers r n] saved_fifteen by simp
  ultimately show ?thesis using assms(2,3) by (simp add: switch_context_def enter_def Let_def enter_operands_def)
qed

lemma switch_result:
  "snd (switch_context c t f m) = get_word (t + 8) m" "get_reg RSP (fst (switch_context c t f m)) = get_word t m"
  "get_word f (fst (switch_context c t f m)) = get_reg RSP m - 120" "get_word (f + 8) (fst (switch_context c t f m)) = c"
proof -
  have "get_reg r (fold push saved_registers n) = (if r = RSP then get_reg RSP n - 120 else get_reg r n)" for r n
    using fold_push[of saved_registers r n] saved_fifteen by simp
  then show "snd (switch_context c t f m) = get_word (t + 8) m" "get_reg RSP (fst (switch_context c t f m)) = get_word t m"
    "get_word f (fst (switch_context c t f m)) = get_reg RSP m - 120" "get_word (f + 8) (fst (switch_context c t f m)) = c"
    by (simp_all add: switch_context_def enter_def Let_def enter_operands_def)
qed

text \<open>What was left is resumed with its registers, but for the operands of \<open>enter\<close>.\<close>

lemma switch_resumes:
  assumes "f \<notin> saved_frame (get_reg RSP m)" "f + 8 \<notin> saved_frame (get_reg RSP m)"
    and "get_reg RSP later = get_word f (fst (switch_context c t f m))"
    and "\<And>a. a \<in> saved_frame (get_reg RSP m) \<Longrightarrow> get_word a later = get_word a (fst (switch_context c t f m))"
    and "r \<notin> {RAX, RBX, RCX, RDX}"
  shows "get_reg r (continue_here later) = get_reg r m"
proof -
  let ?m = "enter_operands (get_word t m) (get_word (t + 8) m) f (f + 8) m"
  have s: "get_reg RSP ?m = get_reg RSP m" "get_reg RCX ?m = f" "get_reg RDX ?m = f + 8" by (simp_all add: enter_operands_def)
  have fr: "0 < j \<Longrightarrow> j \<le> 15 \<Longrightarrow> get_reg RSP m - 8 * of_nat j \<in> saved_frame (get_reg RSP m)" for j :: nat
    by (auto simp: saved_frame_def)
  have "\<forall>r. get_reg r (continue_here later) = get_reg r ?m"
  proof (rule enter_continues[where m = ?m and later = later and continue_from_here = c, OF _ _ prod.collapse, THEN conjunct2, THEN conjunct2, THEN conjunct2])
    show "get_reg RCX ?m \<noteq> get_reg RSP ?m - 8 * of_nat j \<and> get_reg RDX ?m \<noteq> get_reg RSP ?m - 8 * of_nat j" if "0 < j" "j \<le> 15" for j
      using fr[OF that] assms(1,2) unfolding s by metis
    show "get_reg RCX ?m \<noteq> get_reg RDX ?m" unfolding s by simp
    show "get_reg RSP later = get_word (get_reg RCX ?m) (fst (enter c ?m))" using assms(3) unfolding s switch_context_def .
    show "get_word (get_reg RSP ?m - 8 * of_nat j) later = get_word (get_reg RSP ?m - 8 * of_nat j) (fst (enter c ?m))" if "0 < j" "j \<le> 15" for j
      using assms(4)[OF fr[OF that]] unfolding s switch_context_def .
  qed
  then show ?thesis using assms(5) by (simp add: enter_operands_def)
qed

text \<open>A thread that is executed and calls \<open>switch_to_kernel_stack\<close> comes back into the kernel's \<open>execute\<close> with its
  registers, if it leaves alone what the kernel has saved, the kernel's context and the pointer to itself.  Its own
  context is then kept where the next \<open>execute\<close> looks for it.\<close>

lemma execute_and_back:
  fixes s s1 s2 s3 :: "'h cores" and a :: new_arrays and lapic_id :: u32
  defines "kc \<equiv> fst (get_kernel_context a lapic_id s)" and "slot \<equiv> fst (access_current_thread a lapic_id s)"
    and "frame \<equiv> saved_frame (get_reg RSP (mach s))"
  assumes executed: "execute_thread a lapic_id home this s = (s1, start)"
    and left: "switch_to_kernel_stack a lapic_id again s2 = (s3, target)"
    and apart: "kc \<notin> frame" "kc + 8 \<notin> frame" "slot \<notin> frame" "slot \<notin> {kc, kc + 8, this, this + 8}"
    and cores: "has_init s2" "kernel_context s2 = kernel_context s1" "current_thread s2 = current_thread s1"
    and kept: "\<And>x. x \<in> frame \<union> {kc, kc + 8, slot} \<Longrightarrow> get_word x (mach s2) = get_word x (mach s1)"
    and own: "frame \<inter> (saved_frame (get_reg RSP (mach s2)) \<union> {this, this + 8}) = {}"
  shows "start = get_word (this + 8) (mach s) \<and> get_reg RSP (mach s1) = get_word this (mach s) \<and> target = home \<and>
    (\<forall>r. r \<notin> {RAX, RBX, RCX, RDX} \<longrightarrow> get_reg r (continue_here (mach s3)) = get_reg r (mach s)) \<and>
    get_word this (mach s3) = get_reg RSP (mach s2) - 120 \<and> get_word (this + 8) (mach s3) = again"
proof -
  let ?m = "set_word slot this (mach s)"
  have kc: "kc = kernel_context (cores_init a s) + 16 * ucast lapic_id" and slot: "slot = current_thread (cores_init a s) + 8 * ucast lapic_id"
    by (simp_all add: kc_def slot_def get_kernel_context_def access_current_thread_def Let_def)
  have e: "mach s1 = fst (switch_context home this kc ?m)" "start = snd (switch_context home this kc ?m)"
    "kernel_context s1 = kernel_context (cores_init a s)" "current_thread s1 = current_thread (cores_init a s)"
    using executed by (auto simp: execute_thread_def get_kernel_context_def access_current_thread_def Let_def kc slot split: prod.splits)
  have w: "get_word slot (mach s2) = this"
    using kept[of slot] switch_words[of slot ?m kc home this] apart e(1) by (simp add: frame_def)
  have "cores_init a s2 = s2" using cores(1) by (simp add: cores_init_def)
  then have l: "mach s3 = fst (switch_context again kc this (mach s2))" "target = snd (switch_context again kc this (mach s2))"
    using left w cores(2,3) e(3,4)
    by (auto simp: switch_to_kernel_stack_def get_kernel_context_def access_current_thread_def Let_def kc slot split: prod.splits)
  have t: "target = home" using kept[of "kc + 8"] by (simp add: l(2) switch_result e(1))
  have sp: "get_reg RSP (mach s3) = get_word kc (fst (switch_context home this kc ?m))"
    using kept[of kc] by (simp add: l(1) switch_result(2) e(1))
  have f: "get_word x (mach s3) = get_word x (fst (switch_context home this kc ?m))" if "x \<in> saved_frame (get_reg RSP ?m)" for x
  proof -
    have x: "x \<in> frame" using that by (simp add: frame_def)
    then have "get_word x (mach s3) = get_word x (mach s2)" unfolding l(1) using own by (intro switch_words) auto
    then show ?thesis using kept[of x] x e(1) by simp
  qed
  have r: "get_reg r (continue_here (mach s3)) = get_reg r (mach s)" if "r \<notin> {RAX, RBX, RCX, RDX}" for r
    using switch_resumes[of kc ?m "mach s3" home this r, OF _ _ sp f that] apart(1,2) by (simp add: frame_def)
  have "start = get_word (this + 8) (mach s)" "get_reg RSP (mach s1) = get_word this (mach s)"
    using apart(4) by (auto simp: e(1,2) switch_result)
  then show ?thesis using t r switch_result(3,4)[where f = this] l(1) by simp
qed

text \<open>A system call comes back to where it was made with the stack pointer as it was, if the handler returns and keeps
  the words above its frame.\<close>

lemma syscall_returns:
  fixes m :: machine and return_address ss cs rflags rip :: u64
  defines "m1 \<equiv> push_word return_address (interrupt_entry ss cs rflags rip m)" and "T \<equiv> get_reg RSP m AND NOT 0xF"
  assumes "get_reg RSP (handler m1) = get_reg RSP m1 + 8"
    and "get_word (T - 16) (handler m1) = get_word (T - 16) m1" "get_word (T - 40) (handler m1) = get_word (T - 40) m1"
  shows "snd (syscall_stub return_address handler (interrupt_entry ss cs rflags rip m)) = rip \<and>
    get_reg RSP (fst (syscall_stub return_address handler (interrupt_entry ss cs rflags rip m))) = get_reg RSP m"
proof -
  have "get_reg RSP m1 = T - 48" by (simp add: m1_def T_def interrupt_entry_def)
  then have sp: "get_reg RSP (handler m1) = T - 40" using assms(3) by simp
  have "T - 40 \<noteq> T - 48" "T - 16 \<noteq> T - 48" "T - 16 \<noteq> T - 40" "T - 16 \<noteq> T - 32" "T - 16 \<noteq> T - 24" by simp_all
  then have "get_word (T - 40) m1 = rip" "get_word (T - 16) m1 = get_reg RSP m"
    by (simp_all add: m1_def T_def interrupt_entry_def)
  then show ?thesis using assms(4,5) by (simp add: syscall_stub_def iretq_def sp flip: m1_def)
qed

text \<open>The handler is entered with the stack at a multiple of 16, where the convention has it 8 off.\<close>

lemma syscall_misaligned:
  "\<exists>q. get_reg RSP (push_word return_address (interrupt_entry ss cs rflags rip m)) = 16 * q"
proof -
  let ?T = "get_reg RSP m AND NOT 0xF"
  have "?T AND 0xF = 0" by (simp add: and.assoc)
  then have "take_bit 4 ?T = 0" by (simp add: take_bit_eq_mask mask_eq_exp_minus_1)
  then have "16 dvd ?T" using take_bit_eq_0_iff[of 4 ?T] by simp
  moreover have "(16 :: u64) dvd 48" by (rule dvdI[of _ _ 3]) simp
  ultimately have "16 dvd ?T - 48" by (rule dvd_diff)
  then obtain q where "?T - 48 = 16 * q" by blast
  then have "get_reg RSP (push_word return_address (interrupt_entry ss cs rflags rip m)) = 16 * q" by (simp add: interrupt_entry_def)
  then show ?thesis ..
qed

end
