(* ===== verification/CallLayout.thy ===== *)
theory CallLayout
  imports Layout Syscall Cores
begin

text \<open>
  The structures that a program and the kernel share in system calls, from \<^verbatim>\<open>include/process/syscall_data.h\<close> and
  the context of \<^verbatim>\<open>include/process/process.h\<close>: their sizes, and that the system calls step through lists of them
  and write their fields at the declared places.  Pointers are 8 bytes, enumerations 4; the union of a descriptor is
  the field \<open>number\<close>, which its string and its short form overlay; a descriptor in another structure is its two words.
\<close>

section \<open>Declarations\<close>

definition process_descriptor_layout :: "member list" where
  "process_descriptor_layout = [Field ''type'' 4 1, Field ''number'' 8 1]"

definition argument_descriptor_layout :: "member list" where
  "argument_descriptor_layout = [Field ''type'' 4 1, Field ''width'' 1 1, Field ''length'' 8 1]"

definition method_descriptor_layout :: "member list" where
  "method_descriptor_layout = [Field ''name'' 8 1, Field ''argument_count'' 8 1, Field ''arguments'' 8 1, Field ''entry_point'' 8 1]"

definition memory_descriptor_layout :: "member list" where
  "memory_descriptor_layout = [Field ''source_virtual_address'' 8 1, Field ''target_virtual_address'' 8 1, Field ''size'' 8 1,
     Field ''writeable'' 1 1, Field ''cache_disabled'' 1 1, Field ''write_through'' 1 1]"

definition target_layout :: "member list" where
  "target_layout = [Field ''target'' 8 2]"

definition make_friend_layout :: "member list" where
  "make_friend_layout = [Field ''targetA'' 8 2, Field ''targetB'' 8 2]"

definition create_child_layout :: "member list" where
  "create_child_layout = [Field ''memory_descriptor_count'' 8 1, Field ''memory_descriptors'' 8 1, Field ''entry_point'' 8 1]"

definition set_name_layout :: "member list" where
  "set_name_layout = [Field ''name'' 8 1]"

definition process_name_layout :: "member list" where
  "process_name_layout = [Field ''process_id'' 8 1, Field ''name'' 8 1]"

definition list_processes_layout :: "member list" where
  "list_processes_layout = [Field ''target'' 8 2, Field ''dynamic_allocation_buffer'' 8 1, Field ''dynamic_allocation_buffer_size'' 8 1,
     Field ''children'' 8 1, Field ''children_count'' 8 1, Field ''children_total_count'' 8 1,
     Field ''friends'' 8 1, Field ''friends_count'' 8 1, Field ''friends_total_count'' 8 1,
     Field ''pending_adoption'' 8 1, Field ''pending_adoption_count'' 8 1, Field ''pending_adoption_total_count'' 8 1]"

definition send_message_layout :: "member list" where
  "send_message_layout = [Field ''target'' 8 2, Field ''method_id'' 8 1, Field ''argument_count'' 8 1, Field ''arguments'' 8 1,
     Field ''result'' 8 1]"

definition ask_abilities_layout :: "member list" where
  "ask_abilities_layout = [Field ''target'' 8 2, Field ''methods'' 8 1, Field ''method_count'' 8 1, Field ''total_method_count'' 8 1,
     Field ''dynamic_allocation_buffer'' 8 1, Field ''dynamic_allocation_buffer_size'' 8 1]"

definition execute_context_layout :: "member list" where
  "execute_context_layout = [Field ''stack_ptr'' 8 1, Field ''code_ptr'' 8 1]"

lemmas call_layouts = process_descriptor_layout_def argument_descriptor_layout_def method_descriptor_layout_def
  memory_descriptor_layout_def target_layout_def make_friend_layout_def create_child_layout_def set_name_layout_def
  process_name_layout_def list_processes_layout_def send_message_layout_def ask_abilities_layout_def execute_context_layout_def

section \<open>Sizes and places\<close>

lemma call_structure_sizes:
  "struct_size False process_descriptor_layout = 16" "struct_size False target_layout = 16" "struct_size False make_friend_layout = 32"
  "struct_size False argument_descriptor_layout = 16" "struct_size False method_descriptor_layout = 32"
  "struct_size False memory_descriptor_layout = 32" "struct_size False create_child_layout = 24" "struct_size False set_name_layout = 8"
  "struct_size False process_name_layout = 16" "struct_size False list_processes_layout = 104"
  "struct_size False send_message_layout = 48" "struct_size False ask_abilities_layout = 56" "struct_size False execute_context_layout = 16"
  by (simp_all add: place_simps call_layouts)

text \<open>A structure that holds a descriptor has its other fields behind the descriptor's size.\<close>

lemma fields_behind_descriptor:
  "offset_of False list_processes_layout ''dynamic_allocation_buffer'' = struct_size False process_descriptor_layout"
  "offset_of False send_message_layout ''method_id'' = struct_size False process_descriptor_layout"
  "offset_of False ask_abilities_layout ''methods'' = struct_size False process_descriptor_layout"
  "offset_of False make_friend_layout ''targetB'' = struct_size False process_descriptor_layout"
  by (simp_all add: place_simps call_layouts)

lemma call_offsets:
  "offset_of False process_name_layout ''process_id'' = 0" "offset_of False process_name_layout ''name'' = 8"
  "offset_of False execute_context_layout ''stack_ptr'' = 0" "offset_of False execute_context_layout ''code_ptr'' = 8"
  by (simp_all add: place_simps call_layouts)

lemma list_offsets:
  "offset_of False list_processes_layout ''dynamic_allocation_buffer'' = 16"
  "offset_of False list_processes_layout ''dynamic_allocation_buffer_size'' = 24"
  "offset_of False list_processes_layout ''children'' = 32"
  "offset_of False list_processes_layout ''children_count'' = 40"
  "offset_of False list_processes_layout ''children_total_count'' = 48"
  "offset_of False list_processes_layout ''friends'' = 56"
  "offset_of False list_processes_layout ''friends_count'' = 64"
  "offset_of False list_processes_layout ''friends_total_count'' = 72"
  "offset_of False list_processes_layout ''pending_adoption'' = 80"
  "offset_of False list_processes_layout ''pending_adoption_count'' = 88"
  "offset_of False list_processes_layout ''pending_adoption_total_count'' = 96"
  by (simp_all add: place_simps call_layouts)

text \<open>The listing writes entries of this size: the number at its field, and the pointer to the name at its own.  The
  totals and the pointers of the structure are at the places of its declaration.\<close>

theorem entry_fields:
  "emit_ids w cnt (x # xs) b =
     (if unat (left_over b) < struct_size False process_name_layout then Ret (True, b)
      else case x of
        None \<Rightarrow> emit_ids w cnt xs b
      | Some i \<Rightarrow> bindr (deref w i) (\<lambda>p.
          let m = wr64 (buf b + of_nat (offset_of False process_name_layout ''process_id'')) (pid p) (omem b)
          in emit_ids w cnt xs (advance (of_nat (struct_size False process_name_layout))
            (b\<lparr>omem := wr64 cnt (rd64 m cnt + 1) m\<rparr>))))"
  "list_totals p d m =
     wr64 (d + of_nat (offset_of False list_processes_layout ''pending_adoption_total_count'')) (of_nat (length (pending_adoption p)))
       (wr64 (d + of_nat (offset_of False list_processes_layout ''friends_total_count'')) (of_nat (length (friends p)))
         (wr64 (d + of_nat (offset_of False list_processes_layout ''children_total_count'')) (of_nat (length (children p))) m))"
  by (cases x) (simp_all add: call_structure_sizes call_offsets list_offsets word_less_nat_alt list_totals_def)

text \<open>The contexts of the processors are an array of these structures, and \<open>enter\<close> gets the addresses of the fields.\<close>

theorem context_fields:
  "fst (get_kernel_context a i s) = kernel_context (cores_init a s) + of_nat (struct_size False execute_context_layout) * ucast i"
  "switch_context c t f m = enter c (enter_operands
     (get_word (t + of_nat (offset_of False execute_context_layout ''stack_ptr'')) m)
     (get_word (t + of_nat (offset_of False execute_context_layout ''code_ptr'')) m)
     (f + of_nat (offset_of False execute_context_layout ''stack_ptr'')) (f + of_nat (offset_of False execute_context_layout ''code_ptr'')) m)"
  by (simp_all add: get_kernel_context_def switch_context_def Let_def call_structure_sizes call_offsets)

end
