(* ===== verification/Spec2Isabelle.thy ===== *)
theory Spec2Isabelle
  imports LinkedList SmartPtr Kheap Syscall Apic Ext4Files Out Boot Lock Calls Values Cpu Layout Strings ApStart Startup Arrays Cores CallLayout
begin

text \<open>
  This development models CrackOS3, a small kernel for x86-64 in C++ with some assembly, and proves what its
  parts guarantee.  Every definition is translated from the source; paths below are relative to \<^verbatim>\<open>src\<close>, the root
  of the repository, whose code is under \<^verbatim>\<open>src/src\<close> and \<^verbatim>\<open>src/include\<close>.

  \<^bold>\<open>The program.\<close>  A boot loader (\<^verbatim>\<open>src/low\<close>) enters 64-bit mode, maps the kernel to its high address and calls
  it.  The kernel (\<^verbatim>\<open>src/high/init/start.cpp\<close>) sets up, in this order, the screen, the allocator of physical pages, the
  page tables, the heap, the interrupt table, the tables of the firmware with the interrupt controllers and the other
  processors, the PCI bus with its drivers, the file systems, and the first processes, which talk to each other and to the
  kernel by system calls.  The heap takes pages from the page tables, and these take frames from the physical allocator;
  the SATA driver hands physical addresses, found through the page tables, to a controller; the file system reads blocks of
  a partition of a disk of that driver; a process is loaded from a file.

  \<^bold>\<open>The theories,\<close> from the bottom up.

  \<^item> \<open>Prelude\<close>: integer types, the results of operations that may stop the machine, bit fields, byte memory, shared lemmas.
    \<open>KBase\<close>: addresses, sizes, durations, intervals, byte loops (\<^verbatim>\<open>memory/mem.h\<close>, \<^verbatim>\<open>util\<close>, \<^verbatim>\<open>features/bytes.h\<close>,
    \<^verbatim>\<open>features/math.h\<close>, \<^verbatim>\<open>features/string.h\<close>).  \<open>Bitmap\<close>: bit sets in bytes.  \<open>Mmio\<close>: devices as registers.
  \<^item> Data structures.  \<open>LinkedList\<close> (\<^verbatim>\<open>data/linked_list.h\<close>): a store of nodes; the list refines a sequence.
    \<open>SmartPtr\<close> (\<^verbatim>\<open>features/smart_pointer.h\<close>): ownership over a store of objects and control blocks.  \<open>BTree\<close>
    (\<^verbatim>\<open>data/btree.h\<close>): nodes with both arrays; searching, inserting in ascending order and small trees are correct, and the
    faults of splits and merges are shown on trees that meet them.  \<open>Values\<close> (\<^verbatim>\<open>features/optional.h\<close>, \<^verbatim>\<open>result.h\<close>,
    \<^verbatim>\<open>variant.h\<close>): values in raw memory, with their constructions and destructions.  \<open>Strings\<close> (\<^verbatim>\<open>data/string.h\<close>):
    every operation of the class on owned and constant character arrays; a run of them refines lists of characters.
    \<open>Arrays\<close> (\<^verbatim>\<open>data/array.h\<close>).
  \<^item> Memory.  \<open>Multiboot\<close> (\<^verbatim>\<open>multiboot2.cpp\<close>): the tag list.  \<open>PhysAlloc\<close> (\<^verbatim>\<open>memory/mem.cpp\<close>): frames, their bits and
    the start-up reservations.  \<open>Paging\<close> (\<^verbatim>\<open>memory/paging.cpp\<close>): the four-level tables in a memory of words; \<open>pt_map\<close>,
    \<open>pt_unmap\<close>, \<open>pt_get\<close> and the initial tables.  \<open>PageSource\<close> and \<open>AddressSpace\<close>: the interfaces to them.  \<open>Heap\<close> and
    \<open>Kheap\<close> (\<^verbatim>\<open>memory/heap.cpp\<close>): the page, small-object and large allocators and the dispatch over them.
  \<^item> Processors.  \<open>Boot\<close> (\<^verbatim>\<open>low/init/start.cpp\<close>, \<^verbatim>\<open>low/init/main.cpp\<close>, \<^verbatim>\<open>trampoline/trampoline.cpp\<close>): from the 32-bit
    entry to the kernel.  \<open>Cpu\<close> (\<^verbatim>\<open>asm/regs.h\<close>, \<^verbatim>\<open>asm/io.h\<close>, \<^verbatim>\<open>asm/util.h\<close>): registers, descriptor tables, ports.
    \<open>Lock\<close> (\<^verbatim>\<open>features/lock.cpp\<close>): a step relation of the lock's instructions on any number of processors.  \<open>Interrupt\<close>
    (\<^verbatim>\<open>interrupt/interrupt.cpp\<close>, \<^verbatim>\<open>default_handler.cpp\<close>): gates, stubs, dispatch.  \<open>Acpi\<close> (\<^verbatim>\<open>ACPI/RSDP.cpp\<close>), \<open>Apic\<close> and
    \<open>ApStart\<close> (\<^verbatim>\<open>ACPI/APIC.cpp\<close>): the firmware's tables, interrupt controllers and timer; what waits for hardware, that is
    calibration, sleep and the start of the other processors, is in \<open>ApStart\<close>.
  \<^item> Devices.  \<open>PciClass\<close> and \<open>Pci\<close> (\<^verbatim>\<open>PCI/PCI.cpp\<close>): names, configuration space, enumeration, base address registers,
    interrupts by message.  \<open>Sata\<close> and \<open>SataDisk\<close> (\<^verbatim>\<open>PCI/sata.cpp\<close>): commands, waits, and the disk as a block device.
    \<open>Xhci\<close> (\<^verbatim>\<open>PCI/xhci.cpp\<close>).  \<open>Layout\<close>: the declared structures that are shared with hardware, and that the offsets used
    by the other theories are theirs.
  \<^item> Files.  \<open>BlockDevice\<close> (\<^verbatim>\<open>file/device.cpp\<close>, \<^verbatim>\<open>GPT.cpp\<close>, \<^verbatim>\<open>partition.cpp\<close>): devices, partition tables, partitions.
    \<open>Ext4\<close> and \<open>Ext4Files\<close> (\<^verbatim>\<open>file/ext4.cpp\<close>): the code, and what it finds on a medium.
  \<^item> Processes.  \<open>Process\<close> and \<open>Syscall\<close> (\<^verbatim>\<open>process/process.cpp\<close>): processes with their strong reference counts and relations, and
    the system calls; the listing of processes works on the caller's structure in byte memory.  \<open>Calls\<close>: \<open>enter\<close> and \<open>call_indirect\<close>, instruction by instruction.  \<open>Cores\<close>: the contexts and the
    running thread of each processor; a thread that is executed and switches back resumes the kernel.  \<open>CallLayout\<close>
    (\<^verbatim>\<open>process/syscall_data.h\<close>): the structures of system calls.
  \<^item> \<open>Out\<close> (\<^verbatim>\<open>out\<close>): the text screen, format strings, the log and the panic.  \<open>Startup\<close> (\<^verbatim>\<open>init/start.cpp\<close>): the
    order of the start, the file systems that are found, the first processes.

  \<^bold>\<open>How code becomes definitions.\<close>  Integers are words of their width and wrap.  A structure is a record, memory that
  only one component uses is a field of its record, and shared memory is a function from addresses to bytes or words.  An
  operation takes the state and returns it changed.  A result \<open>Stop\<close> is a panic or undefined behaviour, so that no lemma
  holds by it silently; optional results are \<open>option\<close>, which \<open>Values\<close> justifies for the class.  A loop
  that need not end is a \<open>partial_function\<close> on \<open>option\<close>: \<open>None\<close> is the loop that does not return.  Properties state
  that a value is returned (\<open>Some (Ret \<dots>)\<close>), or that none is; where a loop waits for a device, the hypothesis is that the
  device gets there after some number of pauses.  Other loops are structural recursions over their counters, or functions
  with a measure, and no definition has fuel.

  \<^bold>\<open>Interfaces.\<close>  \<open>sequence\<close> is the contract of a list, interpreted on \<open>LinkedList\<close>'s store (\<open>ll\<close>).  \<open>page_source\<close>
  is what page tables and heap ask of the physical allocator, interpreted on \<open>phys_alloc 1\<close> (\<open>phys\<close>).  \<open>address_space\<close>
  is translation by pages, interpreted on the page tables (\<open>pt\<close>); buffers of drivers are stated over it.  \<open>disk_image\<close> is a
  device that serves an image exactly, interpreted on the SATA disk (\<open>sata\<close>) with a controller that answers commands as
  documented; the file system's lemmas are proved inside it.

  \<^bold>\<open>What is a parameter.\<close>  Hardware: the registers of a device and what it does during a pause or a write; the events
  of a platform during one turn of a wait loop; \<open>cpuid\<close>.  Contents of memory that the program never wrote (\<open>junk\<close>), the
  addresses that \<open>new\<close> or the compiler's stack give, symbols of the linker.  Code of user programs, called methods and the
  constructors of drivers.  What the lemmas ask of them are named hypotheses of the lemmas.

  \<^bold>\<open>What the lemmas show.\<close>  Each theory has lemmas on every branch of its operations and ends in its properties.
  What the hardware does is stated beside the code's own readers: \<open>mmu\<close> is the processor's walk, which tests the present
  bit at every level; \<open>take_interrupt\<close> delivers through the loaded descriptor table; \<open>read_command\<close> says which command
  tables a controller must carry out; \<open>recording\<close> is a device that keeps every register write; \<open>madt_item\<close> is the table
  of interrupt controllers as ACPI writes it.
  The larger chains are: the loader maps the kernel, the initial page tables map all of physical memory, and after \<open>pt_map\<close>
  the processor and \<open>pt_get\<close> translate a page while the others stay; frames are given once, and allocating and freeing
  restores the bits; small objects are taken from and returned to pages of their size; a read of the disk by the driver,
  its partitions and the file system returns the image's bytes, path lookup finds the named inode and the start mounts
  exactly the file systems there are; an interrupt reaches the handler that is registered for it, and the timer its
  callback; contexts are resumed with their registers; a lock has one holder and a free lock is taken.  Where the code does
  not do what it means to, the lemma states what it does; the conditions of the other properties exclude such cases, and the text before each property names them: memory maps with partial pages, directories beyond their first
  extent, sectors near \<open>2 ^ 64\<close>, pointers that the program resets itself, descriptors whose search destroys its target.

  \<^bold>\<open>Not modelled.\<close>  Log lines, except where they are what the function is for.  The locks around the operations of a
  component: \<open>Lock\<close> shows what a lock gives, and the operations are stated as undisturbed.  The page-table cache of the
  processor (\<^verbatim>\<open>invlpg\<close>) and caches, but for \<open>flush_cache\<close>.  The register saving of the interrupt stubs.  The pages
  that the nodes of the large allocator's map take from the page allocator.  The weak counts of processes, and the destructors of
  objects that hold shared or weak pointers themselves.  The scheduler, whose functions are empty or
  comments; the self tests; compile-time traits; members that cannot be instantiated or assembled (\<open>shared_ptr::swap\<close>, the
  constructor of \<open>variant\<close> from a value, \<open>getRIP\<close> as written); the loader's own \<open>memcpy\<close>, which nothing calls.
\<close>

end
